(* ===== verification/Prelude.thy ===== *)
theory Prelude
  imports Main "HOL-Library.Word" "HOL-Library.List_Lexorder"
begin

unbundle bit_operations_syntax

text \<open>
  What every component shares: bytes and byte strings, Go's fixed-width integers, results that
  may be errors, the little-endian integers of \<open>encoding/binary\<close>, Go's \<open>copy\<close> into a fixed array,
  \<open>slices.BinarySearchFunc\<close>, and the interface of a self-delimiting code with its lifting to lists.
  Fixed-size Go arrays (\<open>[16]byte\<close>) are byte lists of that length; the length is a well-formedness
  condition of the record that holds them.
\<close>

section \<open>Types\<close>

type_synonym byte = "8 word"
type_synonym bytes = "byte list"
type_synonym u16 = "16 word"
type_synonym u32 = "32 word"
type_synonym u64 = "64 word"

named_theorems wf_rules \<open>well-formedness preservation rules\<close>
named_theorems size_rules \<open>length equations of encoded data\<close>

section \<open>Results\<close>

text \<open>A fallible call returns \<open>Inl\<close> of its error or \<open>Inr\<close> of its value.\<close>

fun res_bind :: "'e + 'a \<Rightarrow> ('a \<Rightarrow> 'e + 'b) \<Rightarrow> 'e + 'b" where
  "res_bind (Inl e) f = Inl e"
| "res_bind (Inr a) f = f a"

fun map_err :: "('e \<Rightarrow> 'f) \<Rightarrow> 'e + 'a \<Rightarrow> 'f + 'a" where
  "map_err g (Inl e) = Inl (g e)"
| "map_err g (Inr a) = Inr a"

lemma res_bind_eq_Inr [simp]: "res_bind r f = Inr b \<longleftrightarrow> (\<exists>a. r = Inr a \<and> f a = Inr b)"
  by (cases r) auto

lemma map_err_eq_Inr [simp]: "map_err g r = Inr b \<longleftrightarrow> r = Inr b"
  by (cases r) auto

section \<open>Little-endian integers\<close>

text \<open>
  \<open>le_bytes n w\<close> is what \<open>PutUint16/32/64\<close> write (n = 2, 4, 8), \<open>le_word\<close> what \<open>Uint16/32/64\<close> read.
\<close>

fun le_bytes :: "nat \<Rightarrow> 'a::len word \<Rightarrow> bytes" where
  "le_bytes 0 w = []"
| "le_bytes (Suc n) w = ucast w # le_bytes n (drop_bit 8 w)"

fun le_word :: "bytes \<Rightarrow> 'a::len word" where
  "le_word [] = 0"
| "le_word (b # bs) = ucast b OR push_bit 8 (le_word bs)"

lemma length_le_bytes [simp, size_rules]: "length (le_bytes n w) = n"
  by (induction n arbitrary: w) auto

lemma le_word_le_bytes_take: "le_word (le_bytes n w) = take_bit (8 * n) (w :: 'a::len word)"
proof (induction n arbitrary: w)
  case 0
  then show ?case by simp
next
  case (Suc n)
  show ?case
    unfolding le_bytes.simps le_word.simps Suc.IH
    by (rule bit_eqI)
      (auto simp: bit_or_iff bit_push_bit_iff bit_take_bit_iff bit_drop_bit_eq bit_ucast_iff
        bit_imp_le_length)
qed

lemma le_word_le_bytes [simp]:
  "LENGTH('a) \<le> 8 * n \<Longrightarrow> le_word (le_bytes n w) = (w :: 'a::len word)"
  by (simp add: le_word_le_bytes_take take_bit_word_eq_self)

lemma bit_le_word_bound: "bit (le_word bs :: 'a::len word) n \<Longrightarrow> n < 8 * length bs"
proof (induction bs arbitrary: n)
  case Nil
  then show ?case by simp
next
  case (Cons b bs)
  then show ?case
    using bit_imp_le_length [of b n]
    by (fastforce simp: bit_or_iff bit_push_bit_iff bit_ucast_iff)
qed

lemma le_bytes_le_word [simp]:
  "8 * length bs \<le> LENGTH('a) \<Longrightarrow> le_bytes (length bs) (le_word bs :: 'a::len word) = bs"
proof (induction bs)
  case Nil
  then show ?case by simp
next
  case (Cons b bs)
  have lo: "ucast (ucast b OR push_bit 8 (le_word bs) :: 'a word) = b"
    using Cons.prems
    by (intro bit_eqI)
      (auto simp: bit_or_iff bit_push_bit_iff bit_ucast_iff bit_imp_le_length)
  have hi: "drop_bit 8 (ucast b OR push_bit 8 (le_word bs)) = (le_word bs :: 'a word)"
    using Cons.prems
    by (intro bit_eqI)
      (auto simp: bit_or_iff bit_push_bit_iff bit_drop_bit_eq bit_ucast_iff
        dest: bit_imp_le_length bit_le_word_bound)
  have "le_bytes (length bs) (le_word bs :: 'a word) = bs" using Cons by simp
  then show ?case by (simp only: length_Cons le_bytes.simps le_word.simps lo hi)
qed

section \<open>Go's copy into a fixed array\<close>

text \<open>\<open>var buf [n]byte; copy(buf[:], bs)\<close>: the first n bytes, the rest zero.\<close>

definition copy_fixed :: "nat \<Rightarrow> bytes \<Rightarrow> bytes" where
  "copy_fixed n bs = take n bs @ replicate (n - length bs) 0"

lemma length_copy_fixed [simp, size_rules]: "length (copy_fixed n bs) = n"
  by (simp add: copy_fixed_def)

lemma copy_fixed_same [simp]: "length bs = n \<Longrightarrow> copy_fixed n bs = bs"
  by (simp add: copy_fixed_def)

section \<open>slices.BinarySearchFunc\<close>

text \<open>
  The standard library's loop, over the comparison of an element with the target: the least
  index whose element does not compare below, and whether it compares equal.
\<close>

function bsearch_loop :: "('a \<Rightarrow> int) \<Rightarrow> 'a list \<Rightarrow> nat \<Rightarrow> nat \<Rightarrow> nat" where
  "bsearch_loop c xs i j =
     (if i < j
      then (let h = (i + j) div 2
            in if c (xs ! h) < 0 then bsearch_loop c xs (h + 1) j else bsearch_loop c xs i h)
      else i)"
  by pat_completeness auto
termination
  by (relation "measure (\<lambda>(c, xs, i, j). j - i)") auto

declare bsearch_loop.simps [simp del]

definition binary_search_func :: "('a \<Rightarrow> int) \<Rightarrow> 'a list \<Rightarrow> nat \<times> bool" where
  "binary_search_func c xs =
     (let i = bsearch_loop c xs 0 (length xs) in (i, i < length xs \<and> c (xs ! i) = 0))"

text \<open>A list is split by a comparison when everything below the target comes first.\<close>

definition split_by :: "('a \<Rightarrow> int) \<Rightarrow> 'a list \<Rightarrow> bool" where
  "split_by c xs \<longleftrightarrow> (\<forall>a b. a < b \<longrightarrow> b < length xs \<longrightarrow> c (xs ! b) < 0 \<longrightarrow> c (xs ! a) < 0)"

lemma split_byD: "split_by c xs \<Longrightarrow> c (xs ! h) < 0 \<Longrightarrow> h < length xs \<Longrightarrow> k \<le> h \<Longrightarrow> c (xs ! k) < 0"
  unfolding split_by_def by (metis le_neq_implies_less)

lemma bsearch_loop_correct:
  assumes "split_by c xs" and "i \<le> j" and "j \<le> length xs"
    and "\<And>k. k < i \<Longrightarrow> c (xs ! k) < 0"
    and "\<And>k. j \<le> k \<Longrightarrow> k < length xs \<Longrightarrow> \<not> c (xs ! k) < 0"
  shows "bsearch_loop c xs i j \<le> length xs
    \<and> (\<forall>k < bsearch_loop c xs i j. c (xs ! k) < 0)
    \<and> (\<forall>k < length xs. bsearch_loop c xs i j \<le> k \<longrightarrow> \<not> c (xs ! k) < 0)"
  using assms
proof (induction c xs i j rule: bsearch_loop.induct)
  case (1 c xs i j)
  show ?case
  proof (cases "i < j")
    case False
    then have "bsearch_loop c xs i j = i" by (simp add: bsearch_loop.simps [of c xs i j])
    moreover have "i = j" using False "1.prems"(2) by simp
    ultimately show ?thesis using "1.prems" by simp
  next
    case True
    define h where "h = (i + j) div 2"
    have h: "i \<le> h" "h < j" "h < length xs" using True "1.prems"(3) by (auto simp: h_def)
    show ?thesis
    proof (cases "c (xs ! h) < 0")
      case lt: True
      have "c (xs ! k) < 0" if "k < h + 1" for k
        using split_byD [OF "1.prems"(1) lt h(3)] that by simp
      with "1.IH"(1) [OF True h_def lt] "1.prems" h lt True show ?thesis
        by (simp add: bsearch_loop.simps [of c xs i j] h_def [symmetric])
    next
      case ge: False
      have "\<not> c (xs ! k) < 0" if "h \<le> k" "k < length xs" for k
        using split_byD [OF "1.prems"(1) _ that(2) that(1)] ge by blast
      with "1.IH"(2) [OF True h_def ge] "1.prems" h ge True show ?thesis
        by (simp add: bsearch_loop.simps [of c xs i j] h_def [symmetric])
    qed
  qed
qed

lemma binary_search_func_split:
  assumes "split_by c xs" and "binary_search_func c xs = (i, found)"
  shows "i \<le> length xs" and "\<And>k. k < i \<Longrightarrow> c (xs ! k) < 0"
    and "\<And>k. i \<le> k \<Longrightarrow> k < length xs \<Longrightarrow> \<not> c (xs ! k) < 0"
    and "found \<longleftrightarrow> i < length xs \<and> c (xs ! i) = 0"
  using bsearch_loop_correct [OF assms(1), of 0 "length xs"] assms(2)
  by (auto simp: binary_search_func_def Let_def)

lemma bsearch_loop_cong:
  "(\<And>x. x \<in> set xs \<Longrightarrow> c x = d x) \<Longrightarrow> j \<le> length xs \<Longrightarrow> bsearch_loop c xs i j = bsearch_loop d xs i j"
proof (induction c xs i j rule: bsearch_loop.induct)
  case (1 c xs i j)
  show ?case
  proof (cases "i < j")
    case True
    define h where "h = (i + j) div 2"
    have h: "h < j" "h < length xs" using True "1.prems"(2) by (auto simp: h_def)
    then have "c (xs ! h) = d (xs ! h)" using "1.prems"(1) nth_mem by blast
    then show ?thesis
      using "1.IH"(1) [OF True h_def _ "1.prems"(1)] "1.IH"(2) [OF True h_def _ "1.prems"(1)] "1.prems"(2) True h
      by (simp add: bsearch_loop.simps [of c xs i j] bsearch_loop.simps [of d xs i j] h_def [symmetric])
  qed (simp add: bsearch_loop.simps [of c xs i j] bsearch_loop.simps [of d xs i j])
qed

lemma binary_search_func_cong:
  assumes "\<And>x. x \<in> set xs \<Longrightarrow> c x = d x"
  shows "binary_search_func c xs = binary_search_func d xs"
proof -
  have e: "bsearch_loop c xs 0 (length xs) = bsearch_loop d xs 0 (length xs)"
    using assms by (rule bsearch_loop_cong) simp_all
  show ?thesis unfolding binary_search_func_def e Let_def using assms by auto
qed

section \<open>Self-delimiting codes\<close>

text \<open>
  The loop \<open>for range n { x, consumed, err := dec(b[off:]); ...; off += consumed }\<close> of the
  decoders, over any element decoder: the items and the bytes consumed.
\<close>

fun decode_n :: "(bytes \<Rightarrow> 'e + 'a \<times> nat) \<Rightarrow> nat \<Rightarrow> bytes \<Rightarrow> 'e + 'a list \<times> nat" where
  "decode_n dec 0 b = Inr ([], 0)"
| "decode_n dec (Suc n) b =
     (case dec b of
        Inl e \<Rightarrow> Inl e
      | Inr (x, k) \<Rightarrow>
          (case decode_n dec n (drop k b) of
             Inl e \<Rightarrow> Inl e
           | Inr (xs, m) \<Rightarrow> Inr (x # xs, k + m)))"

text \<open>
  The contract of a self-delimiting canonical code: a decoder that is given an encoding and
  anything after it returns the value and the length, and what it accepts is exactly the
  encoding of a good value.
\<close>

locale prefix_codec =
  fixes enc :: "'a \<Rightarrow> bytes"
    and dec :: "bytes \<Rightarrow> 'e + 'a \<times> nat"
    and ok :: "'a \<Rightarrow> bool"
  assumes dec_enc: "ok x \<Longrightarrow> dec (enc x @ r) = Inr (x, length (enc x))"
    and dec_sound: "dec b = Inr (x, n) \<Longrightarrow> ok x \<and> n \<le> length b \<and> take n b = enc x"
begin

lemma dec_sound_split: "dec b = Inr (x, n) \<Longrightarrow> ok x \<and> n = length (enc x) \<and> b = enc x @ drop n b"
  using dec_sound [of b x n] by (metis append_take_drop_id length_take min.absorb2)

lemma prefix_free: "ok x \<Longrightarrow> ok y \<Longrightarrow> enc x @ r = enc y @ s \<Longrightarrow> x = y \<and> r = s"
  using dec_enc [of x r] dec_enc [of y s] by auto

lemma dec_truncated:
  assumes "ok y" and "enc y = t @ u" and "u \<noteq> []"
  shows "\<exists>e. dec t = Inl e"
proof (cases "dec t")
  case (Inr p)
  then obtain x n where "dec t = Inr (x, n)" by (cases p) auto
  then have x: "ok x" "t = enc x @ drop n t" using dec_sound_split by auto
  have "enc y @ [] = enc x @ drop n t @ u" using assms(2) x(2) by simp
  with prefix_free [OF assms(1) x(1)] assms(3) show ?thesis by auto
qed auto

lemma decode_n_enc:
  "\<forall>x \<in> set xs. ok x \<Longrightarrow>
    decode_n dec (length xs) (concat (map enc xs) @ r) = Inr (xs, length (concat (map enc xs)))"
  by (induction xs) (auto simp: dec_enc)

lemma decode_n_sound:
  "decode_n dec n b = Inr (xs, k) \<Longrightarrow>
    length xs = n \<and> (\<forall>x \<in> set xs. ok x) \<and> k \<le> length b \<and> take k b = concat (map enc xs)"
proof (induction n arbitrary: b xs k)
  case 0
  then show ?case by simp
next
  case (Suc n)
  then obtain x j ys m where d: "dec b = Inr (x, j)" "decode_n dec n (drop j b) = Inr (ys, m)"
    and eq: "xs = x # ys" "k = j + m"
    by (auto split: sum.splits prod.splits)
  from dec_sound [OF d(1)] Suc.IH [OF d(2)] eq show ?case
    by (auto simp: take_add)
qed

end

text \<open>A code whose words are not empty gives back a list from its concatenation alone.\<close>

locale nonempty_codec = prefix_codec enc dec ok
  for enc :: "'a \<Rightarrow> bytes" and dec :: "bytes \<Rightarrow> 'e + 'a \<times> nat" and ok :: "'a \<Rightarrow> bool" +
  assumes enc_nonempty: "ok x \<Longrightarrow> enc x \<noteq> []"
begin

lemma concat_enc_inject:
  "\<forall>x \<in> set xs. ok x \<Longrightarrow> \<forall>y \<in> set ys. ok y \<Longrightarrow>
    concat (map enc xs) = concat (map enc ys) \<Longrightarrow> xs = ys"
proof (induction xs arbitrary: ys)
  case Nil
  then show ?case using enc_nonempty by (cases ys) auto
next
  case (Cons x xs)
  from Cons.prems(1,3) have "ys \<noteq> []" using enc_nonempty [of x] by (cases ys) simp_all
  then obtain y zs where ys: "ys = y # zs" by (cases ys) simp_all
  have "ok x" "ok y" using Cons.prems(1,2) ys by simp_all
  moreover have "enc x @ concat (map enc xs) = enc y @ concat (map enc zs)"
    using Cons.prems(3) ys by simp
  ultimately have "x = y" and eq: "concat (map enc xs) = concat (map enc zs)"
    using prefix_free by blast+
  moreover have "xs = zs" by (rule Cons.IH [OF _ _ eq]) (use Cons.prems(1,2) ys in simp_all)
  ultimately show ?case using ys by simp
qed

end

end
