(* ===== verification/Ascon.thy ===== *)
theory Ascon
  imports Prelude
begin

text \<open>
  The \<open>ascon\<close> package: the Ascon-p permutation (\<open>permutation.go\<close>), the sponge with its absorb and
  squeeze phases (\<open>xof.go\<close>), the customised hash CXOF (\<open>cxof.go\<close>) and the authenticated cipher
  Ascon-AEAD128 (\<open>aead.go\<close>). The five state words are a tuple; a call that mutates \<open>s\<close> returns the
  new state. An output slice is its contents: \<open>dst\<close> is the list the result is appended to.
\<close>

section \<open>The permutation\<close>

type_synonym astate = "u64 \<times> u64 \<times> u64 \<times> u64 \<times> u64"

text \<open>\<open>bits.RotateLeft64(x, k)\<close>, with a negative k rotating right.\<close>

definition rotate_left64 :: "u64 \<Rightarrow> int \<Rightarrow> u64" where
  "rotate_left64 x k = (let s = nat (k mod 64) in push_bit s x OR drop_bit (64 - s) x)"

definition perm_sbox :: "astate \<Rightarrow> astate" where
  "perm_sbox s = (case s of (x0, x1, x2, x3, x4) \<Rightarrow>
     let x0 = x0 XOR x4;
         x4 = x4 XOR x3;
         x2 = x2 XOR x1;
         t0 = NOT x0 AND x1;
         t1 = NOT x1 AND x2;
         t2 = NOT x2 AND x3;
         t3 = NOT x3 AND x4;
         t4 = NOT x4 AND x0;
         x0 = x0 XOR t1;
         x1 = x1 XOR t2;
         x2 = x2 XOR t3;
         x3 = x3 XOR t4;
         x4 = x4 XOR t0;
         x1 = x1 XOR x0;
         x0 = x0 XOR x4;
         x3 = x3 XOR x2;
         x2 = NOT x2
     in (x0, x1, x2, x3, x4))"

definition perm_diffuse :: "astate \<Rightarrow> astate" where
  "perm_diffuse s = (case s of (x0, x1, x2, x3, x4) \<Rightarrow>
     (x0 XOR (rotate_left64 x0 (-19) XOR rotate_left64 x0 (-28)),
      x1 XOR (rotate_left64 x1 (-61) XOR rotate_left64 x1 (-39)),
      x2 XOR (rotate_left64 x2 (-1) XOR rotate_left64 x2 (-6)),
      x3 XOR (rotate_left64 x3 (-10) XOR rotate_left64 x3 (-17)),
      x4 XOR (rotate_left64 x4 (-7) XOR rotate_left64 x4 (-41))))"

definition perm_constant :: "nat \<Rightarrow> astate \<Rightarrow> astate" where
  "perm_constant i s = (case s of (x0, x1, x2, x3, x4) \<Rightarrow>
     (x0, x1, x2 XOR word_of_int (0xf0 - int i * 0x10 + int i), x3, x4))"

definition perm_round :: "nat \<Rightarrow> astate \<Rightarrow> astate" where
  "perm_round i s = perm_diffuse (perm_sbox (perm_constant i s))"

definition perm :: "astate \<Rightarrow> nat \<Rightarrow> astate" where
  "perm s from = fold perm_round [from..<12] s"

definition p12 :: "astate \<Rightarrow> astate" where
  "p12 s = perm s 0"

definition p8 :: "astate \<Rightarrow> astate" where
  "p8 s = perm s 4"

section \<open>The sponge\<close>

fun xor0 :: "astate \<Rightarrow> u64 \<Rightarrow> astate" where
  "xor0 (x0, x1, x2, x3, x4) w = (x0 XOR w, x1, x2, x3, x4)"

text \<open>\<open>var buf [n]byte; copy(buf[:], data); buf[len(data)] = 0x01\<close>, for fewer than n bytes.\<close>

definition pad10 :: "nat \<Rightarrow> bytes \<Rightarrow> bytes" where
  "pad10 n bs = (copy_fixed n bs)[length bs := 0x01]"

function absorb :: "astate \<Rightarrow> bytes \<Rightarrow> astate" where
  "absorb s data =
     (if 8 \<le> length data
      then absorb (p12 (xor0 s (le_word (take 8 data)))) (drop 8 data)
      else p12 (xor0 s (le_word (pad10 8 data))))"
  by pat_completeness auto
termination
  by (relation "measure (\<lambda>(s, data). length data)") auto

declare absorb.simps [simp del]

fun squeeze :: "astate \<Rightarrow> nat \<Rightarrow> bytes" where
  "squeeze s n =
     (if n = 0 then []
      else let m = min n 8
           in take m (le_bytes 8 (fst s)) @ (if 0 < n - m then squeeze (p12 s) (n - m) else []))"

declare squeeze.simps [simp del]

definition XOF :: "bytes \<Rightarrow> nat \<Rightarrow> bytes" where
  "XOF data n = squeeze (absorb (p12 (0x0000080000CC0003, 0, 0, 0, 0)) data) n"

definition Sum16 :: "bytes \<Rightarrow> bytes" where
  "Sum16 data = XOF data 16"

text \<open>
  CXOF panics on a customization string over 256 bytes: \<open>None\<close>. \<open>CXOF_bytes\<close> is the same
  computation once that check has passed.
\<close>

definition CXOFMaxCustom :: nat where
  "CXOFMaxCustom = 256"

definition CXOF_bytes :: "bytes \<Rightarrow> bytes \<Rightarrow> nat \<Rightarrow> bytes" where
  "CXOF_bytes z data n =
     (let s = p12 (0x0000080000CC0004, 0, 0, 0, 0);
          s = p12 (xor0 s (of_nat (length z) * 8))
      in squeeze (absorb (absorb s z) data) n)"

definition CXOF :: "bytes \<Rightarrow> bytes \<Rightarrow> nat \<Rightarrow> bytes option" where
  "CXOF z data n = (if CXOFMaxCustom < length z then None else Some (CXOF_bytes z data n))"

section \<open>Ascon-AEAD128\<close>

record aead =
  k0 :: u64
  k1 :: u64
  zeroed :: bool

datatype aead_error =
    ErrAEADKeySize
  | ErrAEADAuth
  | ErrAEADShort
  | PanicNonceSize
  | PanicZeroed

definition NewAEAD :: "bytes \<Rightarrow> aead_error + aead" where
  "NewAEAD key =
     (if length key \<noteq> 16 then Inl ErrAEADKeySize
      else Inr \<lparr>k0 = le_word (take 8 key), k1 = le_word (take 8 (drop 8 key)), zeroed = False\<rparr>)"

definition aead_Zero :: "aead \<Rightarrow> aead" where
  "aead_Zero a = a\<lparr>k0 := 0, k1 := 0, zeroed := True\<rparr>"

definition aead_init :: "aead \<Rightarrow> bytes \<Rightarrow> astate" where
  "aead_init a nonce =
     (case p12 (0x00001000808C0001, k0 a, k1 a, le_word (take 8 nonce), le_word (take 8 (drop 8 nonce))) of
        (s0, s1, s2, s3, s4) \<Rightarrow> (s0, s1, s2, s3 XOR k0 a, s4 XOR k1 a))"

text \<open>XOR of a 16-byte block into the rate words \<open>s[0]\<close>, \<open>s[1]\<close>.\<close>

fun xor_block :: "astate \<Rightarrow> bytes \<Rightarrow> astate" where
  "xor_block (x0, x1, x2, x3, x4) b =
     (x0 XOR le_word (take 8 b), x1 XOR le_word (take 8 (drop 8 b)), x2, x3, x4)"

fun rate_bytes :: "astate \<Rightarrow> bytes" where
  "rate_bytes (x0, x1, x2, x3, x4) = le_bytes 8 x0 @ le_bytes 8 x1"

fun set_rate :: "astate \<Rightarrow> bytes \<Rightarrow> astate" where
  "set_rate (x0, x1, x2, x3, x4) b = (le_word (take 8 b), le_word (take 8 (drop 8 b)), x2, x3, x4)"

function absorb_blocks16 :: "astate \<Rightarrow> bytes \<Rightarrow> astate" where
  "absorb_blocks16 s ad =
     (if 16 \<le> length ad
      then absorb_blocks16 (p8 (xor_block s (take 16 ad))) (drop 16 ad)
      else p8 (xor_block s (pad10 16 ad)))"
  by pat_completeness auto
termination
  by (relation "measure (\<lambda>(s, ad). length ad)") auto

declare absorb_blocks16.simps [simp del]

definition absorbAD :: "aead \<Rightarrow> astate \<Rightarrow> bytes \<Rightarrow> astate" where
  "absorbAD a s ad =
     (case (if 0 < length ad then absorb_blocks16 s ad else s) of
        (x0, x1, x2, x3, x4) \<Rightarrow> (x0, x1, x2, x3, x4 XOR 0x8000000000000000))"

text \<open>The state and the bytes written to dst.\<close>

function encrypt :: "astate \<Rightarrow> bytes \<Rightarrow> astate \<times> bytes" where
  "encrypt s src =
     (if 16 \<le> length src
      then let s' = xor_block s (take 16 src);
               (t, out) = encrypt (p8 s') (drop 16 src)
           in (t, rate_bytes s' @ out)
      else let s' = xor_block s (pad10 16 src)
           in (s', take (length src) (rate_bytes s')))"
  by pat_completeness auto
termination
  by (relation "measure (\<lambda>(s, src). length src)") auto

declare encrypt.simps [simp del]

definition xor_bytes :: "bytes \<Rightarrow> bytes \<Rightarrow> bytes" where
  "xor_bytes xs ys = map2 (XOR) xs ys"

function decrypt :: "astate \<Rightarrow> bytes \<Rightarrow> astate \<times> bytes" where
  "decrypt s src =
     (if 16 \<le> length src
      then let c = take 16 src;
               (t, out) = decrypt (p8 (set_rate s c)) (drop 16 src)
           in (t, xor_bytes (rate_bytes s) c @ out)
      else let d = xor_bytes (take (length src) (rate_bytes s)) src
           in (xor_block s (pad10 16 d), d))"
  by pat_completeness auto
termination
  by (relation "measure (\<lambda>(s, src). length src)") auto

declare decrypt.simps [simp del]

definition aead_finalize :: "aead \<Rightarrow> astate \<Rightarrow> bytes" where
  "aead_finalize a s =
     (case s of (x0, x1, x2, x3, x4) \<Rightarrow>
        case p12 (x0, x1, x2 XOR k0 a, x3 XOR k1 a, x4) of
          (y0, y1, y2, y3, y4) \<Rightarrow> le_bytes 8 (y3 XOR k0 a) @ le_bytes 8 (y4 XOR k1 a))"

definition aead_Seal :: "aead \<Rightarrow> bytes \<Rightarrow> bytes \<Rightarrow> bytes \<Rightarrow> bytes \<Rightarrow> aead_error + bytes" where
  "aead_Seal a dst nonce plaintext ad =
     (if length nonce \<noteq> 16 then Inl PanicNonceSize
      else if zeroed a then Inl PanicZeroed
      else let s = absorbAD a (aead_init a nonce) ad;
               (s, out) = encrypt s plaintext
           in Inr (dst @ out @ aead_finalize a s))"

text \<open>
  \<open>Open\<close> returns its result and what it leaves in the output region: zeros when the tag fails.
\<close>

definition aead_Open_region ::
  "aead \<Rightarrow> bytes \<Rightarrow> bytes \<Rightarrow> bytes \<Rightarrow> bytes \<Rightarrow> (aead_error + bytes) \<times> bytes" where
  "aead_Open_region a dst nonce ciphertext ad =
     (if length nonce \<noteq> 16 then (Inl PanicNonceSize, [])
      else if zeroed a then (Inl PanicZeroed, [])
      else if length ciphertext < 16 then (Inl ErrAEADShort, [])
      else let ct = take (length ciphertext - 16) ciphertext;
               tag = drop (length ciphertext - 16) ciphertext;
               s = absorbAD a (aead_init a nonce) ad;
               (s, out) = decrypt s ct
           in if aead_finalize a s \<noteq> tag
              then (Inl ErrAEADAuth, replicate (length out) 0)
              else (Inr (dst @ out), out))"

definition aead_Open :: "aead \<Rightarrow> bytes \<Rightarrow> bytes \<Rightarrow> bytes \<Rightarrow> bytes \<Rightarrow> aead_error + bytes" where
  "aead_Open a dst nonce ciphertext ad = fst (aead_Open_region a dst nonce ciphertext ad)"

section \<open>Sealing and opening\<close>

lemma length_xor_bytes [simp]: "length (xor_bytes xs ys) = min (length xs) (length ys)"
  by (simp add: xor_bytes_def)

lemma take_xor_bytes: "take n (xor_bytes xs ys) = xor_bytes (take n xs) (take n ys)"
  by (simp add: xor_bytes_def take_map take_zip)

lemma xor_bytes_append:
  "length xs = length us \<Longrightarrow> xor_bytes (xs @ ys) (us @ vs) = xor_bytes xs us @ xor_bytes ys vs"
  by (simp add: xor_bytes_def)

lemma xor_bytes_cancel: "length xs = length ys \<Longrightarrow> xor_bytes xs (xor_bytes xs ys) = ys"
  unfolding xor_bytes_def
  by (induction xs ys rule: list_induct2) (simp_all flip: xor.assoc)

lemma le_bytes_xor: "le_bytes n (x XOR y) = xor_bytes (le_bytes n x) (le_bytes n y)"
  unfolding xor_bytes_def
  by (induction n arbitrary: x y)
    (auto simp: drop_bit_xor intro!: bit_eqI simp: bit_ucast_iff bit_xor_iff)

lemma length_rate_bytes [simp]: "length (rate_bytes s) = 16"
  by (cases s) simp

lemma length_pad10 [simp]: "length (pad10 n bs) = n"
  by (simp add: pad10_def)

lemma take_pad10 [simp]: "length bs \<le> n \<Longrightarrow> take (length bs) (pad10 n bs) = bs"
  by (simp add: pad10_def copy_fixed_def)

lemma rate_bytes_xor_block:
  assumes "length b = 16"
  shows "rate_bytes (xor_block s b) = xor_bytes (rate_bytes s) b"
proof -
  have "le_bytes 8 (le_word (take 8 b) :: u64) = take 8 b"
    using le_bytes_le_word [of "take 8 b", where 'a = 64] assms by simp
  moreover have "le_bytes 8 (le_word (take 8 (drop 8 b)) :: u64) = take 8 (drop 8 b)"
    using le_bytes_le_word [of "take 8 (drop 8 b)", where 'a = 64] assms by simp
  moreover have "take 8 b @ take 8 (drop 8 b) = b" using assms by simp
  ultimately show ?thesis
    using xor_bytes_append [of "le_bytes 8 (fst s)" "take 8 b" "le_bytes 8 (fst (snd s))" "take 8 (drop 8 b)"] assms
    by (cases s) (simp add: le_bytes_xor)
qed

lemma set_rate_xor_block: "set_rate s (rate_bytes (xor_block s b)) = xor_block s b"
  by (cases s) simp

lemma set_rate_eq_xor_block:
  assumes "length c = 16"
  shows "set_rate s c = xor_block s (xor_bytes (rate_bytes s) c)"
proof -
  have "rate_bytes (xor_block s (xor_bytes (rate_bytes s) c)) = c"
    using assms by (simp add: rate_bytes_xor_block xor_bytes_cancel)
  then show ?thesis using set_rate_xor_block [of s "xor_bytes (rate_bytes s) c"] by simp
qed

lemma length_encrypt: "length (snd (encrypt s src)) = length src"
proof (induction s src rule: encrypt.induct)
  case (1 s src)
  show ?case
    using "1.IH" [OF _ refl] by (subst encrypt.simps) (auto simp: Let_def split: prod.splits)
qed

lemma length_decrypt: "length (snd (decrypt s src)) = length src"
proof (induction s src rule: decrypt.induct)
  case (1 s src)
  then show ?case
    by (subst decrypt.simps) (auto simp: Let_def split: prod.splits)
qed

lemma encrypt_tail:
  assumes "length src < 16"
  shows "encrypt s src = (xor_block s (pad10 16 src), xor_bytes (take (length src) (rate_bytes s)) src)"
  using assms by (subst encrypt.simps)
    (simp add: rate_bytes_xor_block take_xor_bytes)

lemma decrypt_encrypt: "decrypt s (snd (encrypt s src)) = (fst (encrypt s src), src)"
proof (induction s src rule: encrypt.induct)
  case (1 s src)
  show ?case
  proof (cases "16 \<le> length src")
    case False
    then have "length (xor_bytes (take (length src) (rate_bytes s)) src) < 16" by simp
    then show ?thesis using False
      by (subst decrypt.simps) (simp add: encrypt_tail xor_bytes_cancel Let_def)
  next
    case True
    define s' where "s' = xor_block s (take 16 src)"
    obtain t out where e: "encrypt (p8 s') (drop 16 src) = (t, out)" by fastforce
    have "encrypt s src = (t, rate_bytes s' @ out)"
      using True e by (subst encrypt.simps) (simp add: s'_def)
    moreover have "decrypt (p8 s') out = (t, drop 16 src)"
      using "1.IH" [OF True s'_def] e by simp
    moreover have "xor_bytes (rate_bytes s) (rate_bytes s') = take 16 src"
      using True by (simp add: s'_def rate_bytes_xor_block xor_bytes_cancel)
    moreover have "set_rate s (rate_bytes s') = s'"
      by (simp add: s'_def set_rate_xor_block)
    ultimately show ?thesis
      by (subst decrypt.simps) (simp add: Let_def)
  qed
qed

lemma encrypt_decrypt: "encrypt s (snd (decrypt s src)) = (fst (decrypt s src), src)"
proof (induction s src rule: decrypt.induct)
  case (1 s src)
  show ?case
  proof (cases "16 \<le> length src")
    case False
    then have d: "decrypt s src = (xor_block s (pad10 16 (xor_bytes (take (length src) (rate_bytes s)) src)),
        xor_bytes (take (length src) (rate_bytes s)) src)"
      by (subst decrypt.simps) (simp add: Let_def)
    then show ?thesis using False by (simp add: encrypt_tail xor_bytes_cancel)
  next
    case True
    define c where "c = take 16 src"
    define p where "p = xor_bytes (rate_bytes s) c"
    obtain t out where e: "decrypt (p8 (set_rate s c)) (drop 16 src) = (t, out)" by fastforce
    have c: "length c = 16" "length p = 16" using True by (simp_all add: c_def p_def)
    have "decrypt s src = (t, p @ out)"
      using True e by (subst decrypt.simps) (simp add: c_def p_def Let_def)
    moreover have "encrypt (p8 (set_rate s c)) out = (t, drop 16 src)"
      using "1.IH" [OF True c_def] e by simp
    moreover have "xor_block s p = set_rate s c"
      using c by (simp add: p_def set_rate_eq_xor_block)
    moreover have "rate_bytes (set_rate s c) @ drop 16 src = src"
      using c set_rate_eq_xor_block [OF c(1), of s]
      by (simp add: rate_bytes_xor_block xor_bytes_cancel) (simp add: c_def)
    ultimately show ?thesis using c
      by (subst encrypt.simps) (simp add: Let_def)
  qed
qed

lemma length_aead_finalize [simp]: "length (aead_finalize a s) = 16"
  by (simp add: aead_finalize_def split: prod.splits)

text \<open>When the cipher can be used: a 16-byte nonce and a key that has not been wiped.\<close>

definition aead_usable :: "aead \<Rightarrow> bytes \<Rightarrow> bool" where
  "aead_usable a nonce \<longleftrightarrow> length nonce = 16 \<and> \<not> zeroed a"

lemma aead_Seal_usable:
  "aead_usable a nonce \<Longrightarrow>
    aead_Seal a dst nonce p ad =
      Inr (dst @ snd (encrypt (absorbAD a (aead_init a nonce) ad) p)
        @ aead_finalize a (fst (encrypt (absorbAD a (aead_init a nonce) ad) p)))"
  by (simp add: aead_Seal_def aead_usable_def Let_def split: prod.splits)

lemma aead_Open_iff:
  assumes "aead_usable a nonce"
  shows "aead_Open a dst nonce c ad = Inr out \<longleftrightarrow>
    (\<exists>p. out = dst @ p \<and> aead_Seal a [] nonce p ad = Inr c)"
proof -
  define s where "s = absorbAD a (aead_init a nonce) ad"
  define n where "n = length c - 16"
  have seal: "aead_Seal a [] nonce p ad = Inr (snd (encrypt s p) @ aead_finalize a (fst (encrypt s p)))" for p
    using assms by (simp add: aead_Seal_usable s_def)
  have opn: "aead_Open a dst nonce c ad = Inr out \<longleftrightarrow>
      16 \<le> length c \<and> aead_finalize a (fst (decrypt s (take n c))) = drop n c
        \<and> out = dst @ snd (decrypt s (take n c))"
    using assms
    by (auto simp: aead_Open_def aead_Open_region_def aead_usable_def s_def n_def Let_def split: prod.splits)
  show ?thesis (is "?l \<longleftrightarrow> ?r")
  proof
    assume ?l
    then have "aead_finalize a (fst (decrypt s (take n c))) = drop n c"
      and out: "out = dst @ snd (decrypt s (take n c))" using opn by auto
    then have "aead_Seal a [] nonce (snd (decrypt s (take n c))) ad = Inr c"
      by (simp add: seal encrypt_decrypt)
    with out show ?r by blast
  next
    assume ?r
    then obtain p where p: "out = dst @ p" "c = snd (encrypt s p) @ aead_finalize a (fst (encrypt s p))"
      by (auto simp: seal)
    then have "take n c = snd (encrypt s p)" "drop n c = aead_finalize a (fst (encrypt s p))" "16 \<le> length c"
      by (auto simp: n_def)
    then show ?l unfolding opn using p(1) by (simp add: decrypt_encrypt)
  qed
qed

text \<open>What a client of an authenticated cipher relies on.\<close>

locale authenticated_cipher =
  fixes seal :: "'k \<Rightarrow> bytes \<Rightarrow> bytes \<Rightarrow> bytes \<Rightarrow> 'e + bytes"
    and opn :: "'k \<Rightarrow> bytes \<Rightarrow> bytes \<Rightarrow> bytes \<Rightarrow> 'e + bytes"
    and usable :: "'k \<Rightarrow> bytes \<Rightarrow> bool"
    and overhead :: nat
  assumes seal_total: "usable k n \<Longrightarrow> \<exists>c. seal k n p ad = Inr c \<and> length c = length p + overhead"
    and open_iff_seal: "usable k n \<Longrightarrow> opn k n c ad = Inr p \<longleftrightarrow> seal k n p ad = Inr c"
begin

lemma open_seal: "usable k n \<Longrightarrow> seal k n p ad = Inr c \<Longrightarrow> opn k n c ad = Inr p"
  by (simp add: open_iff_seal)

lemma seal_length: "usable k n \<Longrightarrow> seal k n p ad = Inr c \<Longrightarrow> length c = length p + overhead"
  using seal_total [of k n p ad] by auto

lemma open_length: "usable k n \<Longrightarrow> opn k n c ad = Inr p \<Longrightarrow> length c = length p + overhead"
  using seal_length by (simp add: open_iff_seal)

lemma seal_inject: "usable k n \<Longrightarrow> seal k n p ad = Inr c \<Longrightarrow> seal k n p' ad = Inr c \<Longrightarrow> p = p'"
  using open_seal [of k n p ad c] open_seal [of k n p' ad c] by simp

end

interpretation ascon: authenticated_cipher "\<lambda>a. aead_Seal a []" "\<lambda>a. aead_Open a []" aead_usable 16
proof
  fix a n p ad
  assume "aead_usable a n"
  then show "\<exists>c. aead_Seal a [] n p ad = Inr c \<and> length c = length p + 16"
    by (simp add: aead_Seal_usable length_encrypt)
next
  fix a n c ad p
  assume "aead_usable a n"
  then show "aead_Open a [] n c ad = Inr p \<longleftrightarrow> aead_Seal a [] n p ad = Inr c"
    by (simp add: aead_Open_iff)
qed

lemma NewAEAD_usable: "NewAEAD key = Inr a \<Longrightarrow> length nonce = 16 \<Longrightarrow> aead_usable a nonce"
  by (auto simp: NewAEAD_def aead_usable_def split: if_splits)

lemma NewAEAD_16: "length key = 16 \<Longrightarrow> \<exists>a. NewAEAD key = Inr a"
  by (simp add: NewAEAD_def)

text \<open>C6. \<open>Open\<close> under a key, nonce and associated data accepts exactly the ciphertexts \<open>Seal\<close>
  makes under them, and returns the plaintext that was sealed: the round trip, and the fact that
  nothing else opens. \<open>dst\<close> is kept in front of the plaintext.\<close>

theorem aead_open_exactly_sealed:
  assumes "NewAEAD key = Inr a" and "length nonce = 16"
  shows "aead_Open a dst nonce c ad = Inr (dst @ p) \<longleftrightarrow> aead_Seal a [] nonce p ad = Inr c"
  using aead_Open_iff [OF NewAEAD_usable [OF assms]] by simp

theorem aead_open_exactly_sealed_witness:
  "\<exists>a c. aead_Seal a [] (replicate 16 1) [7] [] = Inr c \<and> aead_Open a [9] (replicate 16 1) c [] = Inr ([9] @ [7])"
proof -
  have k: "length (replicate 16 2 :: bytes) = 16" by simp
  obtain a where a: "NewAEAD (replicate 16 2) = Inr a" using NewAEAD_16 [OF k] by blast
  have n: "length (replicate 16 1 :: bytes) = 16" by simp
  obtain c where c: "aead_Seal a [] (replicate 16 1) [7] [] = Inr c"
    using ascon.seal_total [OF NewAEAD_usable [OF a n], of "[7]" "[]"] by auto
  show ?thesis using c aead_open_exactly_sealed [OF a n, of "[9]" c "[]" "[7]"] by blast
qed

section \<open>The extendable output\<close>

lemma length_squeeze [simp]: "length (squeeze s n) = n"
proof (induction s n rule: squeeze.induct)
  case (1 s n)
  then show ?case by (subst squeeze.simps) (auto simp: Let_def min_def)
qed

lemma take_squeeze: "m \<le> n \<Longrightarrow> take m (squeeze s n) = squeeze s m"
proof (induction s n arbitrary: m rule: squeeze.induct)
  case (1 s n)
  show ?case
  proof (cases "n \<le> 8")
    case True
    then show ?thesis using "1.prems"
      by (simp add: squeeze.simps [of s n] squeeze.simps [of s m] Let_def min_def)
  next
    case False
    then have n: "squeeze s n = le_bytes 8 (fst s) @ squeeze (p12 s) (n - 8)"
      by (simp add: squeeze.simps [of s n] Let_def)
    show ?thesis
    proof (cases "m \<le> 8")
      case True
      then show ?thesis by (simp add: n squeeze.simps [of s m] Let_def min_def)
    next
      case m: False
      have "take (m - 8) (squeeze (p12 s) (n - 8)) = squeeze (p12 s) (m - 8)"
        using False "1.prems" m by (intro "1.IH") (auto simp: min_def)
      then show ?thesis using m by (simp add: n squeeze.simps [of s m] Let_def)
    qed
  qed
qed

lemma length_XOF [simp, size_rules]: "length (XOF data n) = n"
  by (simp add: XOF_def)

lemma length_CXOF_bytes [simp, size_rules]: "length (CXOF_bytes z data n) = n"
  by (simp add: CXOF_bytes_def Let_def)

text \<open>The output length only truncates: an m-byte hash is the first m bytes of any longer
  one, for XOF and for CXOF alike, and each output has exactly the length asked for.\<close>

theorem xof_output_prefix:
  assumes "m \<le> n"
  shows "XOF data m = take m (XOF data n) \<and> length (XOF data n) = n
    \<and> CXOF_bytes z data m = take m (CXOF_bytes z data n) \<and> length (CXOF_bytes z data n) = n"
  using assms by (simp add: XOF_def CXOF_bytes_def Let_def take_squeeze)

theorem xof_output_prefix_witness:
  "XOF [1, 2] 5 = take 5 (XOF [1, 2] 20) \<and> CXOF_bytes [3] [1, 2] 5 = take 5 (CXOF_bytes [3] [1, 2] 20)"
  using xof_output_prefix [of 5 20 "[1, 2]" "[3]"] by simp

section \<open>Ascon-p is a permutation\<close>

lemma bit_rotate_left64:
  "bit (rotate_left64 x k) n \<longleftrightarrow> n < 64 \<and> bit x (nat ((int n - k) mod 64))"
proof -
  define s where "s = nat (k mod 64)"
  have s: "s < 64" "int s = k mod 64" by (auto simp: s_def nat_less_iff)
  have "(int n - k) mod 64 = (int n - int s) mod 64" by (simp add: s(2) mod_diff_right_eq)
  moreover have "nat ((int n - int s) mod 64) = (if s \<le> n then n - s else n + 64 - s)" if "n < 64"
  proof (cases "s \<le> n")
    case True
    then show ?thesis using that by (simp flip: of_nat_diff)
  next
    case False
    have "(int n - int s) mod 64 = (int n - int s + 64) mod 64" by simp
    also have "\<dots> = int n - int s + 64" using False s(1) by (intro mod_pos_pos_trivial) auto
    finally show ?thesis using False by simp
  qed
  ultimately show ?thesis
    using s(1) bit_imp_le_length [of x "n + 64 - s"]
    by (auto simp: rotate_left64_def s_def [symmetric] Let_def bit_or_iff bit_push_bit_iff
        bit_drop_bit_eq add.commute dest: bit_imp_le_length split: if_splits)
qed

lemma rotate_left64_xor: "rotate_left64 (x XOR y) k = rotate_left64 x k XOR rotate_left64 y k"
  by (rule bit_eqI) (auto simp: bit_rotate_left64 bit_xor_iff)

lemma rotate_left64_rotate: "rotate_left64 (rotate_left64 x j) k = rotate_left64 x (j + k)"
  by (rule bit_eqI) (auto simp: bit_rotate_left64 nat_less_iff mod_diff_left_eq algebra_simps)

lemma rotate_left64_period: "rotate_left64 x (64 * k) = x"
proof (rule bit_eqI)
  fix n
  have "(int n - 64 * k) mod 64 = int n mod 64"
    using mod_mult_self2 [of "int n" 64 "- k"] by simp
  then show "bit (rotate_left64 x (64 * k)) n = bit x n"
    using bit_imp_le_length [of x n] by (simp add: bit_rotate_left64 nat_mod_distrib) auto
qed

text \<open>One linear layer word, and its doubling: the square of such a map has doubled rotations.\<close>

definition diffuse_word :: "int \<Rightarrow> int \<Rightarrow> u64 \<Rightarrow> u64" where
  "diffuse_word a b x = x XOR (rotate_left64 x a XOR rotate_left64 x b)"

lemma diffuse_word_twice: "diffuse_word a b (diffuse_word a b x) = diffuse_word (2 * a) (2 * b) x"
proof -
  have "diffuse_word a b (diffuse_word a b x) =
      x XOR rotate_left64 x a XOR rotate_left64 x b XOR
      (rotate_left64 x a XOR rotate_left64 x (2 * a) XOR rotate_left64 x (a + b)) XOR
      (rotate_left64 x b XOR rotate_left64 x (a + b) XOR rotate_left64 x (2 * b))"
    by (simp add: diffuse_word_def rotate_left64_xor rotate_left64_rotate ac_simps
        mult_2 [symmetric])
  also have "\<dots> = diffuse_word (2 * a) (2 * b) x"
    by (rule bit_eqI) (auto simp: diffuse_word_def bit_xor_iff)
  finally show ?thesis .
qed

lemma diffuse_word_pow: "((diffuse_word a b) ^^ (2 ^ (k :: nat))) = diffuse_word (2 ^ k * a) (2 ^ k * b)"
proof (induction k)
  case (Suc k)
  have "(diffuse_word a b ^^ (2 ^ Suc k)) = (diffuse_word a b ^^ (2 ^ k)) \<circ> (diffuse_word a b ^^ (2 ^ k))"
    by (simp add: mult_2 funpow_add)
  then show ?case by (auto simp: Suc diffuse_word_twice fun_eq_iff mult.assoc)
qed simp

lemma inj_if_funpow_id:
  assumes "\<And>x. (f ^^ n) x = x" and "0 < n"
  shows "inj f"
proof -
  obtain m where "n = Suc m" using assms(2) by (cases n) auto
  then have "(f ^^ m) (f x) = x" for x using assms(1) [of x] by (simp add: funpow_swap1)
  then show ?thesis by (rule inj_on_inverseI)
qed

lemma inj_diffuse_word: "inj (diffuse_word a b)"
proof (rule inj_if_funpow_id)
  show "(diffuse_word a b ^^ 2 ^ 6) x = x" for x
    unfolding diffuse_word_pow by (simp add: diffuse_word_def rotate_left64_period)
qed simp

lemma inj_perm_diffuse: "inj perm_diffuse"
  by (rule injI)
    (auto simp: perm_diffuse_def diffuse_word_def [symmetric] inj_eq [OF inj_diffuse_word]
      split: prod.splits)

definition sbox_bit :: "bool \<times> bool \<times> bool \<times> bool \<times> bool \<Rightarrow> bool \<times> bool \<times> bool \<times> bool \<times> bool" where
  "sbox_bit s = (case s of (x0, x1, x2, x3, x4) \<Rightarrow>
     let x0 = x0 \<noteq> x4; x4 = x4 \<noteq> x3; x2 = x2 \<noteq> x1;
         t0 = (\<not> x0 \<and> x1); t1 = (\<not> x1 \<and> x2); t2 = (\<not> x2 \<and> x3); t3 = (\<not> x3 \<and> x4); t4 = (\<not> x4 \<and> x0);
         x0 = x0 \<noteq> t1; x1 = x1 \<noteq> t2; x2 = x2 \<noteq> t3; x3 = x3 \<noteq> t4; x4 = x4 \<noteq> t0;
         x1 = x1 \<noteq> x0; x0 = x0 \<noteq> x4; x3 = x3 \<noteq> x2; x2 = (\<not> x2)
     in (x0, x1, x2, x3, x4))"

definition bits_at :: "nat \<Rightarrow> astate \<Rightarrow> bool \<times> bool \<times> bool \<times> bool \<times> bool" where
  "bits_at n s = (case s of (x0, x1, x2, x3, x4) \<Rightarrow> (bit x0 n, bit x1 n, bit x2 n, bit x3 n, bit x4 n))"

lemma bits_at_perm_sbox: "n < 64 \<Longrightarrow> bits_at n (perm_sbox s) = sbox_bit (bits_at n s)"
  by (cases s)
    (simp add: bits_at_def perm_sbox_def sbox_bit_def Let_def bit_xor_iff bit_and_iff bit_not_iff)

lemma inj_sbox_bit: "inj sbox_bit"
proof -
  have "\<forall>s t. sbox_bit s = sbox_bit t \<longrightarrow> s = t" by code_simp
  then show ?thesis unfolding inj_def by blast
qed

lemma bits_at_eqI: "(\<And>n. n < 64 \<Longrightarrow> bits_at n s = bits_at n t) \<Longrightarrow> s = t"
  by (cases s; cases t) (auto simp: bits_at_def intro!: bit_word_eqI)

lemma inj_perm_sbox: "inj perm_sbox"
proof (rule injI, rule bits_at_eqI)
  fix s t n
  assume "perm_sbox s = perm_sbox t" and "n < (64 :: nat)"
  then have "sbox_bit (bits_at n s) = sbox_bit (bits_at n t)"
    by (metis bits_at_perm_sbox)
  then show "bits_at n s = bits_at n t" by (rule injD [OF inj_sbox_bit])
qed

lemma xor_right_inject [simp]: "x XOR c = y XOR c \<longleftrightarrow> x = (y :: 'a::len word)"
proof
  assume "x XOR c = y XOR c"
  then have "(x XOR c) XOR c = (y XOR c) XOR c" by simp
  then show "x = y" by (simp add: xor.assoc)
qed simp

lemma inj_perm_constant: "inj (perm_constant i)"
proof (rule injI)
  fix s t
  assume eq: "perm_constant i s = perm_constant i t"
  obtain s0 s1 s2 s3 s4 where s: "s = (s0, s1, s2, s3, s4)" by (cases s)
  obtain t0 t1 t2 t3 t4 where t: "t = (t0, t1, t2, t3, t4)" by (cases t)
  show "s = t"
    using eq unfolding s t perm_constant_def by (simp only: prod.case prod.inject xor_right_inject)
qed

lemma inj_perm_round: "inj (perm_round i)"
  by (rule injI)
    (metis perm_round_def injD [OF inj_perm_diffuse] injD [OF inj_perm_sbox] injD [OF inj_perm_constant])

lemma inj_fold_round: "inj (fold perm_round is)"
proof (induction "is")
  case Nil
  then show ?case by simp
next
  case (Cons i "is")
  show ?case
    by (rule injI) (metis fold_simps(2) injD [OF Cons.IH] injD [OF inj_perm_round])
qed

text \<open>Ascon-p, with any number of rounds, is a permutation of the 320-bit state: no two states
  collide, so the sponge and the cipher lose no information in it.\<close>

theorem perm_permutation: "bij (\<lambda>s. perm s from)"
proof -
  have "inj (\<lambda>s. perm s from)" using inj_fold_round by (simp add: perm_def)
  then show ?thesis by (simp add: bij_def finite_UNIV_inj_surj)
qed

end
