(* ===== verification/Lz4s.thy ===== *)
theory Lz4s
  imports Prelude
begin

text \<open>
  The \<open>lz4s\<close> package (\<open>lz4s.go\<close>): the compressor \<open>Delta\<close> (\<open>Compress\<close> is \<open>Delta\<close> with no base) and the
  decompressor \<open>Undelta\<close>. A position \<open>i\<close> in \<open>comp\<close> is the list of the bytes still to read. Both search
  loops of the compressor may in principle run forever on arbitrary tables, so they are
  \<open>partial_function (option)\<close>; that they return on the tables the compressor builds is proved.
\<close>

section \<open>The decompressor\<close>

text \<open>The 255-run loops: each byte is added, and one below 255 ends the run.\<close>

fun read_ext :: "nat \<Rightarrow> bytes \<Rightarrow> (nat \<times> bytes) option" where
  "read_ext l [] = None"
| "read_ext l (b # cs) = (if b \<noteq> 255 then Some (l + unat b, cs) else read_ext (l + unat b) cs)"

text \<open>The byte-serial forward copy.\<close>

fun copy_match :: "nat \<Rightarrow> nat \<Rightarrow> bytes \<Rightarrow> bytes" where
  "copy_match 0 dist out = out"
| "copy_match (Suc n) dist out = copy_match n dist (out @ [out ! (length out - dist)])"

text \<open>The literals of one sequence: \<open>None\<close> is the return of \<open>nil, false\<close>.\<close>

definition read_literals :: "nat \<Rightarrow> byte \<Rightarrow> bytes \<Rightarrow> bytes \<Rightarrow> (bytes \<times> bytes) option" where
  "read_literals dsize token out cs =
     (let l = unat (drop_bit 4 token AND 7)
      in case (if l = 7 then read_ext l cs else Some (l, cs)) of
           None \<Rightarrow> None
         | Some (l, cs) \<Rightarrow>
             if 0 < l
             then if length cs < l \<or> dsize < length out + l then None
                  else Some (out @ take l cs, drop l cs)
             else Some (out, cs))"

definition read_distance :: "byte \<Rightarrow> bytes \<Rightarrow> (nat \<times> bytes) option" where
  "read_distance token cs =
     (if token AND 0x80 \<noteq> 0
      then case cs of
             b0 # b1 # cs \<Rightarrow> Some (unat b0 + 256 * unat b1 + 1, cs)
           | _ \<Rightarrow> None
      else case cs of
             b0 # cs \<Rightarrow> Some (unat b0 + 1, cs)
           | _ \<Rightarrow> None)"

definition read_match :: "nat \<Rightarrow> byte \<Rightarrow> bytes \<Rightarrow> bytes \<Rightarrow> (bytes \<times> bytes) option" where
  "read_match dsize token out cs =
     (let m = unat (token AND 0x0F)
      in if m = 0 then Some (out, cs)
         else case read_distance token cs of
           None \<Rightarrow> None
         | Some (dist, cs) \<Rightarrow>
             (case (if m = 15 then read_ext 17 cs else Some (m + 2, cs)) of
                None \<Rightarrow> None
              | Some (matchLen, cs) \<Rightarrow>
                  if length out < dist \<or> dsize < length out + matchLen then None
                  else Some (copy_match matchLen dist out, cs)))"

text \<open>One pass of the loop: a token, its literals and its match.\<close>

fun read_sequence :: "nat \<Rightarrow> bytes \<Rightarrow> bytes \<Rightarrow> (bytes \<times> bytes) option" where
  "read_sequence dsize out [] = None"
| "read_sequence dsize out (token # cs) =
     (case read_literals dsize token out cs of
        None \<Rightarrow> None
      | Some (out, cs) \<Rightarrow> read_match dsize token out cs)"

lemma read_ext_length: "read_ext l cs = Some (m, ds) \<Longrightarrow> length ds < length cs"
  by (induction l cs rule: read_ext.induct) (auto split: if_splits)

lemma read_literals_length: "read_literals d t out cs = Some (out', ds) \<Longrightarrow> length ds \<le> length cs"
  by (auto simp: read_literals_def Let_def dest!: read_ext_length split: option.splits if_splits)

lemma read_distance_length: "read_distance t cs = Some (dist, ds) \<Longrightarrow> length ds < length cs"
  by (auto simp: read_distance_def split: if_splits list.splits)

lemma read_match_length: "read_match d t out cs = Some (out', ds) \<Longrightarrow> length ds \<le> length cs"
  by (auto simp: read_match_def Let_def dest!: read_ext_length read_distance_length
      split: option.splits if_splits prod.splits)

lemma read_sequence_length: "read_sequence d out cs = Some (out', ds) \<Longrightarrow> length ds < length cs"
  by (cases cs)
    (auto dest!: read_literals_length read_match_length split: option.splits)

function undelta_loop :: "nat \<Rightarrow> bytes \<Rightarrow> bytes \<Rightarrow> bytes option" where
  "undelta_loop dsize out cs =
     (if cs = [] then Some out
      else case read_sequence dsize out cs of
             None \<Rightarrow> None
           | Some (out, cs) \<Rightarrow> undelta_loop dsize out cs)"
  by pat_completeness auto
termination
  by (relation "measure (\<lambda>(dsize, out, cs). length cs)") (auto dest: read_sequence_length)

declare undelta_loop.simps [simp del]

definition Undelta :: "bytes \<Rightarrow> bytes \<Rightarrow> int \<Rightarrow> bytes option" where
  "Undelta base stream dsize =
     (if dsize < 0 then None
      else let dsize = nat dsize + length base
           in case undelta_loop dsize base stream of
                None \<Rightarrow> None
              | Some out \<Rightarrow> if length out \<noteq> dsize then None else Some (drop (length base) out))"

definition Decompress :: "bytes \<Rightarrow> int \<Rightarrow> bytes option" where
  "Decompress stream dsize = Undelta [] stream dsize"

section \<open>The compressor\<close>

text \<open>The closure \<open>emit(matchLen, dist)\<close>: the bytes it appends for the pending literals and the match.\<close>

fun ext_bytes :: "nat \<Rightarrow> bytes" where
  "ext_bytes v = (if 255 \<le> v then 255 # ext_bytes (v - 255) else [of_nat v])"

declare ext_bytes.simps [simp del]

definition emit_token :: "nat \<Rightarrow> nat \<Rightarrow> nat \<Rightarrow> byte" where
  "emit_token l matchLen dist =
     (let token = (if 7 \<le> l then push_bit 4 7 else push_bit 4 (of_nat l));
          token = (if 0 < matchLen then token OR of_nat (min (matchLen - 2) 15) else token)
      in if 0 < matchLen \<and> 256 < dist then token OR 0x80 else token)"

definition emit :: "bytes \<Rightarrow> nat \<Rightarrow> nat \<Rightarrow> bytes" where
  "emit lits matchLen dist =
     (let l = length lits
      in emit_token l matchLen dist #
         (if 7 \<le> l then ext_bytes (l - 7) else []) @ lits @
         (if 0 < matchLen
          then (if 256 < dist then [of_nat (dist - 1), of_nat ((dist - 1) div 256)] else [of_nat (dist - 1)]) @
               (if 15 \<le> matchLen - 2 then ext_bytes (matchLen - 17) else [])
          else []))"

text \<open>The hash chain. An \<open>int32\<close> conversion keeps the low 32 bits, read as signed.\<close>

definition int32 :: "int \<Rightarrow> int" where
  "int32 x = sint (word_of_int x :: 32 word)"

function hash_bits_from :: "nat \<Rightarrow> nat \<Rightarrow> nat" where
  "hash_bits_from n b = (if 2 ^ b < n \<and> b < 16 then hash_bits_from n (b + 1) else b)"
  by pat_completeness auto
termination
  by (relation "measure (\<lambda>(n, b). 16 - b)") auto

declare hash_bits_from.simps [simp del]

definition hashBits :: "bytes \<Rightarrow> nat" where
  "hashBits src = hash_bits_from (length src) 10"

definition hash :: "bytes \<Rightarrow> nat \<Rightarrow> nat" where
  "hash src i =
     (let v = push_bit 16 (ucast (src ! i)) OR push_bit 8 (ucast (src ! (i + 1))) OR ucast (src ! (i + 2)) :: u32
      in unat (drop_bit (32 - hashBits src) (v * 2654435761)))"

record chain =
  head :: "int list"
  prev :: "int list"

definition empty_chain :: "bytes \<Rightarrow> chain" where
  "empty_chain src = \<lparr>head = replicate (2 ^ hashBits src) 0, prev = replicate (length src) 0\<rparr>"

definition insert_pos :: "bytes \<Rightarrow> nat \<Rightarrow> chain \<Rightarrow> chain" where
  "insert_pos src i c =
     (if i + 3 \<le> length src
      then let h = hash src i
           in \<lparr>head = (head c)[h := int32 (int i + 1)], prev = (prev c)[i := head c ! h]\<rparr>
      else c)"

text \<open>\<open>l := 0; for l < maxLen && src[cand+l] == src[pos+l] { l++ }\<close>\<close>

function match_len :: "bytes \<Rightarrow> nat \<Rightarrow> nat \<Rightarrow> nat \<Rightarrow> nat \<Rightarrow> nat" where
  "match_len src cand pos maxLen l =
     (if l < maxLen \<and> src ! (cand + l) = src ! (pos + l) then match_len src cand pos maxLen (l + 1) else l)"
  by pat_completeness auto
termination
  by (relation "measure (\<lambda>(src, cand, pos, maxLen, l). maxLen - l)") auto

declare match_len.simps [simp del]

definition match_cost :: "nat \<Rightarrow> nat \<Rightarrow> nat" where
  "match_cost l dist = (if 256 < dist then 3 else 2) + (if 17 \<le> l then 1 + (l - 17) div 255 else 0)"

record best =
  bestGain :: int
  bestLen :: nat
  bestDist :: nat

text \<open>The body of the candidate loop; every \<open>continue\<close> keeps the best so far.\<close>

definition try_candidate :: "bytes \<Rightarrow> nat \<Rightarrow> nat \<Rightarrow> nat \<Rightarrow> best \<Rightarrow> best" where
  "try_candidate src pos maxLen cand b =
     (if src ! (cand + bestLen b) \<noteq> src ! (pos + bestLen b) then b
      else let l = match_len src cand pos maxLen 0
           in if l < 3 then b
              else let dist = pos - cand;
                       gain = int l - int (match_cost l dist)
                   in if bestGain b < gain then \<lparr>bestGain = gain, bestLen = l, bestDist = dist\<rparr> else b)"

partial_function (option) search ::
  "bytes \<Rightarrow> int list \<Rightarrow> nat \<Rightarrow> int \<Rightarrow> nat \<Rightarrow> int \<Rightarrow> best \<Rightarrow> best option" where
  "search src prv pos lo maxLen cand b =
     (if lo \<le> cand \<and> bestLen b < maxLen
      then search src prv pos lo maxLen (prv ! nat cand - 1) (try_candidate src pos maxLen (nat cand) b)
      else Some b)"

declare search.simps [code]

definition find_match :: "bytes \<Rightarrow> nat \<Rightarrow> chain \<Rightarrow> best option" where
  "find_match src pos c =
     (let maxLen = length src - pos;
          lo = max 0 (int pos - 65536);
          first = (if 3 \<le> maxLen then head c ! hash src pos else 0)
      in search src (prev c) pos lo maxLen (first - 1) \<lparr>bestGain = 0, bestLen = 0, bestDist = 0\<rparr>)"

definition insert_range :: "bytes \<Rightarrow> nat \<Rightarrow> nat \<Rightarrow> chain \<Rightarrow> chain" where
  "insert_range src i j c = fold (insert_pos src) [i..<j] c"

text \<open>The main loop over \<open>pos\<close>, with the output, the pending literals and the hash chain.\<close>

partial_function (option) delta_loop ::
  "bytes \<Rightarrow> nat \<Rightarrow> chain \<Rightarrow> bytes \<Rightarrow> bytes \<Rightarrow> (bytes \<times> bytes) option" where
  "delta_loop src pos c out lits =
     (if pos < length src
      then Option.bind (find_match src pos c) (\<lambda>b.
             if 0 < bestGain b
             then delta_loop src (pos + bestLen b) (insert_range src pos (pos + bestLen b) c)
                    (out @ emit lits (bestLen b) (bestDist b)) []
             else delta_loop src (pos + 1) (insert_pos src pos c) out (lits @ [src ! pos]))
      else Some (out, lits))"

declare delta_loop.simps [code]

definition Delta :: "bytes \<Rightarrow> bytes \<Rightarrow> bytes option" where
  "Delta base src =
     (let all = base @ src;
          c = insert_range all 0 (length base) (empty_chain all)
      in map_option (\<lambda>(out, lits). if 0 < length lits then out @ emit lits 0 0 else out)
           (delta_loop all (length base) c [] []))"

definition Compress :: "bytes \<Rightarrow> bytes option" where
  "Compress src = Delta [] src"

section \<open>Decoding what was emitted\<close>

definition token_of :: "nat \<Rightarrow> nat \<Rightarrow> bool \<Rightarrow> byte" where
  "token_of a b w = (let t = push_bit 4 (of_nat a) OR of_nat b in if w then t OR 0x80 else t)"

definition token_ok :: "nat \<Rightarrow> nat \<Rightarrow> bool \<Rightarrow> bool" where
  "token_ok a b w \<longleftrightarrow> unat (drop_bit 4 (token_of a b w) AND 7) = a
    \<and> unat (token_of a b w AND 0x0F) = b \<and> (token_of a b w AND 0x80 \<noteq> 0) = w"

lemma token_table: "list_all (\<lambda>a. list_all (\<lambda>b. token_ok a b True \<and> token_ok a b False) [0..<16]) [0..<8]"
  by code_simp

lemma token_fields:
  assumes "a < 8" and "b < 16"
  shows "unat (drop_bit 4 (token_of a b w) AND 7) = a"
    and "unat (token_of a b w AND 0x0F) = b"
    and "(token_of a b w AND 0x80 \<noteq> 0) = w"
proof -
  have "token_ok a b w" using token_table assms by (cases w) (auto simp: list_all_iff)
  then show "unat (drop_bit 4 (token_of a b w) AND 7) = a"
    and "unat (token_of a b w AND 0x0F) = b"
    and "(token_of a b w AND 0x80 \<noteq> 0) = w" by (simp_all add: token_ok_def)
qed

lemma emit_token_eq:
  "emit_token l m d = token_of (min l 7) (if 0 < m then min (m - 2) 15 else 0) (0 < m \<and> 256 < d)"
  by (auto simp: emit_token_def token_of_def Let_def min_def)

lemma emit_token_fields:
  "unat (drop_bit 4 (emit_token l m d) AND 7) = min l 7"
  "unat (emit_token l m d AND 0x0F) = (if 0 < m then min (m - 2) 15 else 0)"
  "(emit_token l m d AND 0x80 \<noteq> 0) \<longleftrightarrow> 0 < m \<and> 256 < d"
  unfolding emit_token_eq by (rule token_fields; auto simp: min_def)+

lemma read_ext_ext_bytes: "read_ext k (ext_bytes v @ cs) = Some (k + v, cs)"
proof (induction v arbitrary: k rule: ext_bytes.induct)
  case (1 v)
  show ?case
  proof (cases "255 \<le> v")
    case True
    then show ?thesis using "1.IH" [OF True, of "k + 255"]
      by (subst ext_bytes.simps) (simp)
  next
    case False
    have "(of_nat v :: byte) \<noteq> 255"
    proof
      assume "(of_nat v :: byte) = 255"
      then have "unat (of_nat v :: byte) = 255" by simp
      then show False using False by (simp add: unat_of_nat)
    qed
    moreover have "unat (of_nat v :: byte) = v" using False by (simp add: unat_of_nat)
    ultimately show ?thesis using False by (subst ext_bytes.simps) simp
  qed
qed

lemma length_copy_match [simp]: "length (copy_match n d out) = length out + n"
  by (induction n arbitrary: out) auto

lemma copy_match_take:
  assumes "1 \<le> d" and "d \<le> pos" and "pos + n \<le> length src"
    and "\<And>j. j < n \<Longrightarrow> src ! (pos - d + j) = src ! (pos + j)"
  shows "copy_match n d (take pos src) = take (pos + n) src"
  using assms
proof (induction n arbitrary: pos)
  case (Suc n)
  have "take pos src @ [take pos src ! (pos - d)] = take (pos + 1) src"
    using Suc.prems(1-3) Suc.prems(4) [of 0] by (simp add: take_Suc_conv_app_nth)
  moreover have "copy_match n d (take (pos + 1) src) = take (pos + 1 + n) src"
  proof (rule Suc.IH)
    fix j
    assume "j < n"
    then show "src ! (pos + 1 - d + j) = src ! (pos + 1 + j)"
      using Suc.prems(2) Suc.prems(4) [of "Suc j"] by (simp add: Suc_diff_le)
  qed (use Suc.prems in auto)
  ultimately show ?case using Suc.prems by simp
qed simp

text \<open>The bytes a match puts in the stream after its literals.\<close>

definition match_bytes :: "nat \<Rightarrow> nat \<Rightarrow> bytes" where
  "match_bytes m d =
     (if 0 < m
      then (if 256 < d then [of_nat (d - 1), of_nat ((d - 1) div 256)] else [of_nat (d - 1)]) @
           (if 15 \<le> m - 2 then ext_bytes (m - 17) else [])
      else [])"

lemma emit_eq:
  "emit lits m d = emit_token (length lits) m d #
     (if 7 \<le> length lits then ext_bytes (length lits - 7) else []) @ lits @ match_bytes m d"
  by (simp add: emit_def match_bytes_def Let_def)

lemma read_literals_emit:
  assumes "length out + length lits \<le> dsize"
  shows "read_literals dsize (emit_token (length lits) m d) out
      ((if 7 \<le> length lits then ext_bytes (length lits - 7) else []) @ lits @ cs) = Some (out @ lits, cs)"
  using assms
  by (auto simp: read_literals_def emit_token_fields Let_def read_ext_ext_bytes min_def)

lemma read_distance_emit:
  assumes "0 < m" and "1 \<le> d" and "d \<le> 65536"
  shows "read_distance (emit_token l m d)
      ((if 256 < d then [of_nat (d - 1), of_nat ((d - 1) div 256)] else [of_nat (d - 1)]) @ cs) = Some (d, cs)"
proof (cases "256 < d")
  case True
  define e where "e = d - 1"
  have d: "d = e + 1" "e < 65536" using assms by (simp_all add: e_def)
  have "unat (of_nat e :: byte) + 256 * unat (of_nat (e div 256) :: byte) = e"
    using d(2) by (simp add: unat_of_nat)
  then show ?thesis using True assms(1) unfolding d(1)
    by (simp add: read_distance_def emit_token_fields)
next
  case False
  define e where "e = d - 1"
  have d: "d = e + 1" "e < 256" using False assms by (simp_all add: e_def)
  have "unat (of_nat e :: byte) = e"
    using d(2) by (simp add: unat_of_nat)
  then show ?thesis using False assms(1) unfolding d(1)
    by (simp add: read_distance_def emit_token_fields)
qed

lemma read_match_emit:
  assumes "3 \<le> m" and "1 \<le> d" and "d \<le> 65536" and "d \<le> length out" and "length out + m \<le> dsize"
  shows "read_match dsize (emit_token l m d) out (match_bytes m d @ cs) = Some (copy_match m d out, cs)"
proof -
  have "read_distance (emit_token l m d) (match_bytes m d @ cs) =
      Some (d, (if 15 \<le> m - 2 then ext_bytes (m - 17) else []) @ cs)"
    using read_distance_emit [of m d l "(if 15 \<le> m - 2 then ext_bytes (m - 17) else []) @ cs"] assms
    by (simp add: match_bytes_def)
  moreover have "(if min (m - 2) 15 = 15 then read_ext 17 ((if 15 \<le> m - 2 then ext_bytes (m - 17) else []) @ cs)
      else Some (min (m - 2) 15 + 2, (if 15 \<le> m - 2 then ext_bytes (m - 17) else []) @ cs)) = Some (m, cs)"
    using assms(1) by (auto simp: read_ext_ext_bytes)
  moreover have nz: "(min (m - 2) 15 = 0) = False" using assms(1) by simp
  ultimately show ?thesis using assms
    by (simp add: read_match_def emit_token_fields Let_def nz del: copy_match.simps)
qed

lemma read_match_none: "read_match dsize (emit_token l 0 d) out cs = Some (out, cs)"
  by (simp add: read_match_def emit_token_fields)

lemma undelta_loop_emit_match:
  assumes "3 \<le> m" and "1 \<le> d" and "d \<le> 65536" and "d \<le> length out + length lits"
    and "length out + length lits + m \<le> dsize"
  shows "undelta_loop dsize out (emit lits m d @ cs) = undelta_loop dsize (copy_match m d (out @ lits)) cs"
  using assms read_match_emit [of m d "out @ lits" dsize "length lits" cs]
  by (subst undelta_loop.simps) (simp add: emit_eq read_literals_emit)

lemma undelta_loop_emit_literals:
  assumes "length out + length lits \<le> dsize"
  shows "undelta_loop dsize out (emit lits 0 0 @ cs) = undelta_loop dsize (out @ lits) cs"
  using assms
  by (subst undelta_loop.simps) (simp add: emit_eq read_literals_emit read_match_none match_bytes_def)

section \<open>The search\<close>

lemma int32_le: "0 \<le> x \<Longrightarrow> int32 x \<le> x"
proof -
  assume x: "0 \<le> x"
  have "sint w \<le> uint w" for w :: "32 word"
    using unsigned_less [where 'a = int and w = w]
    by (simp add: sint_uint signed_take_bit_eq_take_bit_minus take_bit_eq_mod)
  then have "int32 x \<le> uint (word_of_int x :: 32 word)" by (simp add: int32_def)
  also have "\<dots> \<le> x" using x by (simp add: unsigned_of_int take_bit_int_less_eq_self_iff)
  finally show ?thesis .
qed

lemma hash_bits_from_le: "b \<le> 16 \<Longrightarrow> hash_bits_from n b \<le> 16"
  by (induction n b rule: hash_bits_from.induct) (subst hash_bits_from.simps, auto)

lemma hashBits_le: "hashBits src \<le> 16"
  by (simp add: hashBits_def hash_bits_from_le)

lemma hash_less: "hash src i < 2 ^ hashBits src"
proof -
  define b where "b = hashBits src"
  have b: "b \<le> 16" unfolding b_def by (rule hashBits_le)
  have "unat (drop_bit (32 - b) w) < 2 ^ b" for w :: u32
  proof -
    have "unat w < 2 ^ (32 - b) * 2 ^ b" using b using unsigned_less [where 'a = nat and w = w] by (simp flip: power_add)
    moreover have "unat (drop_bit (32 - b) w) = unat w div 2 ^ (32 - b)"
      using take_bit_nat_eq_self [of "unat w" 32] unsigned_less [where 'a = nat and w = w]
      by (simp only: unsigned_drop_bit_eq) (simp add: drop_bit_eq_div)
    ultimately show ?thesis by (simp add: less_mult_imp_div_less mult.commute)
  qed
  then show ?thesis unfolding hash_def Let_def b_def .
qed

definition chain_ok :: "bytes \<Rightarrow> nat \<Rightarrow> chain \<Rightarrow> bool" where
  "chain_ok src pos c \<longleftrightarrow> length (head c) = 2 ^ hashBits src \<and> length (prev c) = length src
     \<and> (\<forall>x \<in> set (head c). x \<le> int pos) \<and> (\<forall>i < length src. prev c ! i \<le> int i)"

lemma chain_ok_empty: "chain_ok src pos (empty_chain src)"
  by (simp add: chain_ok_def empty_chain_def)

lemma chain_ok_insert_pos [wf_rules]:
  assumes "chain_ok src i c"
  shows "chain_ok src (i + 1) (insert_pos src i c)"
proof -
  have "\<forall>x \<in> set (head c). x \<le> int (i + 1)" using assms by (fastforce simp: chain_ok_def)
  moreover have "head c ! hash src i \<le> int i"
    using assms hash_less [of src i] by (auto simp: chain_ok_def)
  moreover have "int32 (int i + 1) \<le> int (i + 1)" using int32_le [of "int i + 1"] by simp
  ultimately show ?thesis using assms
    by (auto simp: chain_ok_def insert_pos_def Let_def nth_list_update dest!: set_update_subset_insert [THEN subsetD])
qed

lemma chain_ok_insert_range [wf_rules]:
  assumes "chain_ok src i c" and "i \<le> j"
  shows "chain_ok src j (insert_range src i j c)"
  unfolding insert_range_def using assms(2)
proof (induction j rule: dec_induct)
  case base
  then show ?case using assms(1) by simp
next
  case (step n)
  then show ?case using chain_ok_insert_pos [of src n] by simp
qed

lemma match_len_bounds:
  assumes "l \<le> maxLen" and "\<And>j. j < l \<Longrightarrow> src ! (cand + j) = src ! (pos + j)"
  shows "match_len src cand pos maxLen l \<le> maxLen
    \<and> (\<forall>j < match_len src cand pos maxLen l. src ! (cand + j) = src ! (pos + j))"
  using assms
proof (induction src cand pos maxLen l rule: match_len.induct)
  case (1 src cand pos maxLen l)
  show ?case
  proof (cases "l < maxLen \<and> src ! (cand + l) = src ! (pos + l)")
    case True
    then show ?thesis using "1.IH" [OF True] "1.prems"
      by (subst (1 2) match_len.simps) (auto simp: less_Suc_eq)
  next
    case False
    then show ?thesis using "1.prems" by (subst (1 2) match_len.simps) auto
  qed
qed

text \<open>A best that was found is a real match: long enough, in the window, and equal bytes.\<close>

definition best_ok :: "bytes \<Rightarrow> nat \<Rightarrow> best \<Rightarrow> bool" where
  "best_ok src pos b \<longleftrightarrow> (0 < bestGain b \<longrightarrow>
     3 \<le> bestLen b \<and> 1 \<le> bestDist b \<and> bestDist b \<le> 65536 \<and> bestDist b \<le> pos
     \<and> pos + bestLen b \<le> length src
     \<and> (\<forall>j < bestLen b. src ! (pos - bestDist b + j) = src ! (pos + j)))"

lemma try_candidate_ok:
  assumes "best_ok src pos b" and "cand < pos" and "pos \<le> cand + 65536" and "pos \<le> length src"
  shows "best_ok src pos (try_candidate src pos (length src - pos) cand b)"
proof -
  define l where "l = match_len src cand pos (length src - pos) 0"
  have "l \<le> length src - pos" and "\<forall>j < l. src ! (cand + j) = src ! (pos + j)"
    using match_len_bounds [of 0 "length src - pos" src cand pos] by (auto simp: l_def)
  moreover have "1 \<le> pos - cand" "pos - cand \<le> 65536" "pos - cand \<le> pos" "pos - (pos - cand) = cand"
    using assms(2,3) by auto
  moreover have "pos + l \<le> length src" using calculation(1) assms(4) by linarith
  ultimately have "best_ok src pos \<lparr>bestGain = g, bestLen = l, bestDist = pos - cand\<rparr>" if "3 \<le> l" for g
    using that by (simp add: best_ok_def)
  then show ?thesis
    using assms(1) by (simp add: try_candidate_def Let_def flip: l_def)
qed

lemma search_total:
  assumes "\<forall>i < length src. prv ! i \<le> int i" and "cand < int pos" and "lo = max 0 (int pos - 65536)"
    and "pos \<le> length src" and "best_ok src pos b"
  shows "\<exists>b'. search src prv pos lo (length src - pos) cand b = Some b' \<and> best_ok src pos b'"
  using assms(2,5)
proof (induction "nat (cand + 1)" arbitrary: cand b rule: less_induct)
  case less
  show ?case
  proof (cases "lo \<le> cand \<and> bestLen b < length src - pos")
    case False
    then show ?thesis using less.prems by (subst search.simps) auto
  next
    case True
    then have c: "0 \<le> cand" "nat cand < pos" "pos \<le> nat cand + 65536" "nat cand < length src"
      using assms(3,4) less.prems(1) by auto
    then have "prv ! nat cand \<le> cand" using assms(1) by force
    moreover have "best_ok src pos (try_candidate src pos (length src - pos) (nat cand) b)"
      using try_candidate_ok less.prems(2) c assms(4) by blast
    ultimately show ?thesis
      using less.hyps [of "prv ! nat cand - 1"] less.prems(1) c(1) True
      by (subst search.simps) auto
  qed
qed

lemma find_match_ok:
  assumes "chain_ok src pos c" and "pos < length src"
  shows "\<exists>b. find_match src pos c = Some b \<and> best_ok src pos b"
proof -
  have "head c ! hash src pos \<le> int pos"
    using assms(1) hash_less [of src pos] by (simp add: chain_ok_def)
  then show ?thesis
    unfolding find_match_def Let_def
    using assms by (intro search_total) (auto simp: chain_ok_def best_ok_def)
qed

section \<open>The round trip\<close>

text \<open>
  What the main loop keeps: decoding the output so far gives the input up to the pending
  literals, whatever follows in the stream, and the pending literals end at the position.
\<close>

definition delta_inv :: "bytes \<Rightarrow> bytes \<Rightarrow> nat \<Rightarrow> bytes \<Rightarrow> bytes \<Rightarrow> bool" where
  "delta_inv base src pos out lits \<longleftrightarrow>
     length lits \<le> pos \<and> pos \<le> length src \<and> take (pos - length lits) src @ lits = take pos src
     \<and> (\<forall>cs. undelta_loop (length src) base (out @ cs) =
           undelta_loop (length src) (take (pos - length lits) src) cs)"

lemma delta_inv_match:
  assumes inv: "delta_inv base src pos out lits" and b: "best_ok src pos b" "0 < bestGain b"
  shows "delta_inv base src (pos + bestLen b) (out @ emit lits (bestLen b) (bestDist b)) []"
proof -
  have m: "3 \<le> bestLen b" "1 \<le> bestDist b" "bestDist b \<le> 65536" "bestDist b \<le> pos"
    "pos + bestLen b \<le> length src"
    "\<And>j. j < bestLen b \<Longrightarrow> src ! (pos - bestDist b + j) = src ! (pos + j)"
    using b by (auto simp: best_ok_def)
  have l: "length (take (pos - length lits) src) + length lits = pos"
    using inv by (auto simp: delta_inv_def)
  have "undelta_loop (length src) base ((out @ emit lits (bestLen b) (bestDist b)) @ cs) =
      undelta_loop (length src) (take (pos + bestLen b) src) cs" for cs
    using inv undelta_loop_emit_match [of "bestLen b" "bestDist b" "take (pos - length lits) src" lits "length src" cs]
      copy_match_take [OF m(2,4,5,6)] m(1-5) l
    by (simp add: delta_inv_def)
  then show ?thesis using m(5) by (simp add: delta_inv_def)
qed

lemma delta_inv_literal:
  assumes "delta_inv base src pos out lits" and "pos < length src"
  shows "delta_inv base src (pos + 1) out (lits @ [src ! pos])"
  using assms by (auto simp: delta_inv_def take_Suc_conv_app_nth simp flip: append_assoc)

lemma delta_loop_total:
  assumes "delta_inv base src pos out lits" and "chain_ok src pos c"
  shows "\<exists>out' lits'. delta_loop src pos c out lits = Some (out', lits')
    \<and> delta_inv base src (length src) out' lits'"
  using assms
proof (induction "length src - pos" arbitrary: pos c out lits rule: less_induct)
  case less
  show ?case
  proof (cases "pos < length src")
    case False
    then show ?thesis using less.prems by (subst delta_loop.simps) (auto simp: delta_inv_def)
  next
    case True
    obtain b where b: "find_match src pos c = Some b" "best_ok src pos b"
      using find_match_ok [OF less.prems(2) True] by blast
    show ?thesis
    proof (cases "0 < bestGain b")
      case gain: True
      then have "3 \<le> bestLen b" using b(2) by (simp add: best_ok_def)
      then show ?thesis
        using less.hyps [OF _ delta_inv_match [OF less.prems(1) b(2) gain]
            chain_ok_insert_range [OF less.prems(2)]] True b(1) gain
        by (subst delta_loop.simps) simp
    next
      case False
      then show ?thesis
        using less.hyps [OF _ delta_inv_literal [OF less.prems(1) True]
            chain_ok_insert_pos [OF less.prems(2)]] True b(1)
        by (subst delta_loop.simps) simp
    qed
  qed
qed

lemma delta_roundtrip:
  "\<exists>stream. Delta base src = Some stream \<and> Undelta base stream (int (length src)) = Some src"
proof -
  define all where "all = base @ src"
  have "delta_inv base all (length base) [] []" by (simp add: delta_inv_def all_def)
  moreover have "chain_ok all (length base) (insert_range all 0 (length base) (empty_chain all))"
    by (rule chain_ok_insert_range) (simp_all add: chain_ok_empty)
  ultimately obtain out lits where loop:
    "delta_loop all (length base) (insert_range all 0 (length base) (empty_chain all)) [] [] = Some (out, lits)"
    and inv: "delta_inv base all (length all) out lits"
    using delta_loop_total by blast
  define stream where "stream = (if 0 < length lits then out @ emit lits 0 0 else out)"
  have "undelta_loop (length all) base stream = Some all"
  proof (cases "lits = []")
    case True
    then show ?thesis using inv
      by (auto simp: delta_inv_def stream_def undelta_loop.simps [of _ _ "[]"] dest: spec [of _ "[]"])
  next
    case False
    have "undelta_loop (length all) base stream =
        undelta_loop (length all) (take (length all - length lits) all) (emit lits 0 0 @ [])"
      using inv False by (simp add: delta_inv_def stream_def)
    also have "\<dots> = undelta_loop (length all) (take (length all - length lits) all @ lits) []"
      using inv by (intro undelta_loop_emit_literals) (simp add: delta_inv_def)
    also have "\<dots> = Some all"
      using inv by (simp add: delta_inv_def undelta_loop.simps)
    finally show ?thesis .
  qed
  moreover have "Delta base src = Some stream"
    using loop by (simp add: Delta_def stream_def all_def Let_def)
  ultimately show ?thesis
    by (simp add: Undelta_def all_def nat_add_distrib add.commute)
qed

section \<open>Bounds of the decoder\<close>

lemma read_ext_bound:
  "read_ext l cs = Some (m, ds) \<Longrightarrow> m < l + 255 * (length cs - length ds) \<and> length ds < length cs"
proof (induction l cs rule: read_ext.induct)
  case (2 l b cs)
  have b: "unat b \<le> 255" using unsigned_less [where 'a = nat and w = b] by simp
  show ?case
  proof (cases "b = 255")
    case True
    with "2.prems" have "read_ext (l + unat b) cs = Some (m, ds)" by simp
    with "2.IH" True have "m < l + unat b + 255 * (length cs - length ds)" "length ds < length cs"
      by auto
    moreover have "length (b # cs) - length ds = Suc (length cs - length ds)"
      using \<open>length ds < length cs\<close> by simp
    ultimately show ?thesis using b by simp
  next
    case False
    have "unat b \<noteq> 255"
    proof
      assume "unat b = 255"
      then have "of_nat (unat b) = (of_nat 255 :: byte)" by simp
      with False show False by (simp)
    qed
    then show ?thesis using False "2.prems" b by auto
  qed
qed simp

lemma read_literals_bound:
  assumes "read_literals dsize t out cs = Some (out', ds)"
  shows "\<exists>x. out' = out @ x \<and> length x \<le> length cs - length ds \<and> length ds \<le> length cs"
proof -
  define l where "l = unat (drop_bit 4 t AND 7)"
  obtain n cs' where n: "(if l = 7 then read_ext l cs else Some (l, cs)) = Some (n, cs')"
    and r: "(if 0 < n then if length cs' < n \<or> dsize < length out + n then None
        else Some (out @ take n cs', drop n cs') else Some (out, cs')) = Some (out', ds)"
    using assms unfolding read_literals_def Let_def l_def [symmetric]
    by (cases "if l = 7 then read_ext l cs else Some (l, cs)") auto
  from n have "length cs' \<le> length cs" by (auto dest!: read_ext_bound split: if_splits)
  with r show ?thesis by (auto split: if_splits)
qed

lemma copy_match_append: "\<exists>x. copy_match n d out = out @ x \<and> length x = n"
proof (induction n arbitrary: out)
  case (Suc n)
  from Suc.IH [of "out @ [out ! (length out - d)]"] show ?case by auto
qed simp

lemma read_match_bound:
  assumes "read_match dsize t out cs = Some (out', ds)"
  shows "\<exists>x. out' = out @ x \<and> length x \<le> 255 * (length cs - length ds) \<and> length ds \<le> length cs"
proof (cases "unat (t AND 0x0F) = 0")
  case True
  then show ?thesis using assms by (simp add: read_match_def)
next
  case False
  then obtain dist cs' n where d: "read_distance t cs = Some (dist, cs')"
    and n: "(if unat (t AND 0x0F) = 15 then read_ext 17 cs' else Some (unat (t AND 0x0F) + 2, cs')) = Some (n, ds)"
    and out: "out' = copy_match n dist out"
    using assms by (auto simp: read_match_def Let_def split: option.splits if_splits)
  have "unat (t AND 0x0F) \<le> 15"
    using word_and_le1 [of t "0x0F"] by (simp add: word_le_nat_alt)
  then have "n \<le> 17 + 255 * (length cs' - length ds) \<and> length ds \<le> length cs'"
    using n by (auto dest!: read_ext_bound split: if_splits)
  moreover have "length cs' < length cs" using d by (rule read_distance_length)
  ultimately have "n \<le> 255 * (length cs - length ds) \<and> length ds \<le> length cs" by arith
  with out copy_match_append [of n dist out] show ?thesis by auto
qed

lemma read_sequence_bound:
  assumes "read_sequence dsize out cs = Some (out', ds)"
  shows "\<exists>x. out' = out @ x \<and> length x \<le> 255 * (length cs - length ds)"
proof (cases cs)
  case Nil
  then show ?thesis using assms by simp
next
  case (Cons t cs1)
  then obtain o1 ds1 where l: "read_literals dsize t out cs1 = Some (o1, ds1)"
    and m: "read_match dsize t o1 ds1 = Some (out', ds)"
    using assms by (auto split: option.splits)
  from read_literals_bound [OF l] read_match_bound [OF m] obtain x y where
    xy: "out' = out @ x @ y" "length x \<le> length cs1 - length ds1" "length ds1 \<le> length cs1"
      "length y \<le> 255 * (length ds1 - length ds)" "length ds \<le> length ds1"
    by auto
  then have "length (x @ y) \<le> 255 * (length cs - length ds)" using Cons by simp
  with xy(1) show ?thesis by blast
qed

lemma undelta_loop_bound:
  "undelta_loop dsize out cs = Some out' \<Longrightarrow> \<exists>x. out' = out @ x \<and> length x \<le> 255 * length cs"
proof (induction dsize out cs rule: undelta_loop.induct)
  case (1 dsize out cs)
  show ?case
  proof (cases "cs = []")
    case True
    then show ?thesis using "1.prems" by (simp add: undelta_loop.simps)
  next
    case False
    then obtain o1 ds where s: "read_sequence dsize out cs = Some (o1, ds)"
      and r: "undelta_loop dsize o1 ds = Some out'"
      using "1.prems" by (subst (asm) undelta_loop.simps) (auto split: option.splits)
    from read_sequence_bound [OF s] "1.IH" [OF False s refl r] obtain x y where
      "out' = out @ x @ y" "length x \<le> 255 * (length cs - length ds)" "length y \<le> 255 * length ds"
      by auto
    moreover have "length ds < length cs" using s by (rule read_sequence_length)
    ultimately have "out' = out @ (x @ y)" "length (x @ y) \<le> 255 * length cs" by auto
    then show ?thesis by blast
  qed
qed

lemma undelta_length:
  assumes "Undelta base stream dsize = Some out"
  shows "0 \<le> dsize \<and> length out = nat dsize \<and> length out \<le> 255 * length stream"
proof -
  obtain all where "0 \<le> dsize" "undelta_loop (nat dsize + length base) base stream = Some all"
    "length all = nat dsize + length base" "out = drop (length base) all"
    using assms by (auto simp: Undelta_def Let_def split: if_splits option.splits)
  then show ?thesis using undelta_loop_bound [of "nat dsize + length base" base stream all] by auto
qed

section \<open>What the pair promises\<close>

text \<open>C12. The compressor always returns, and \<open>Undelta\<close> with the same base and the input's length gives
  the input back: every stream \<open>Delta\<close> makes, literals, near and far matches, overlapping copies and
  run extensions included, is decoded to the bytes it was made from.\<close>

theorem undelta_delta:
  "\<exists>stream. Delta base src = Some stream \<and> Undelta base stream (int (length src)) = Some src"
  by (rule delta_roundtrip)

text \<open>C32. Whatever the stream, a successful \<open>Undelta\<close> returns exactly the size asked for and at most
  255 bytes for each byte of the stream (the factor a reader may refuse a claim by before it
  allocates), and a negative size is refused.\<close>

theorem undelta_bounds:
  assumes "Undelta base stream dsize = Some out"
  shows "0 \<le> dsize \<and> length out = nat dsize \<and> length out \<le> 255 * length stream"
  using assms by (rule undelta_length)

theorem undelta_bounds_witness:
  "Undelta [] [0x10, 0x41] 1 = Some [0x41] \<and> length ([0x41] :: bytes) \<le> 255 * length ([0x10, 0x41] :: bytes)"
proof -
  have u: "Undelta [] [0x10, 0x41] 1 = Some [0x41]"
    by (simp add: Undelta_def undelta_loop.simps read_literals_def read_match_def)
  then show ?thesis using undelta_bounds [OF u] by simp
qed

end
