(* ===== verification/Golib.thy ===== *)
theory Golib
  imports Prelude
begin

text \<open>
  Parts of Go's standard library the packages use: \<open>binary.AppendUvarint\<close>, \<open>utf8.Valid\<close> and
  \<open>int64\<close> arithmetic that wraps. They are defined here from the library's documented behaviour and
  carry no entry in the map.
\<close>

section \<open>int64\<close>

definition int64 :: "int \<Rightarrow> int" where
  "int64 x = sint (word_of_int x :: 64 word)"

lemma int64_id: "- (2 ^ 63) \<le> x \<Longrightarrow> x < 2 ^ 63 \<Longrightarrow> int64 x = x"
  by (simp add: int64_def signed_of_int signed_take_bit_int_eq_self_iff)

section \<open>binary.AppendUvarint\<close>

function append_uvarint :: "u64 \<Rightarrow> bytes" where
  "append_uvarint x =
     (if 0x80 \<le> x then (ucast x OR 0x80) # append_uvarint (drop_bit 7 x) else [ucast x])"
  by pat_completeness auto
termination
proof (relation "measure unat")
  fix x :: u64
  assume "0x80 \<le> x"
  then have "128 \<le> unat x" by (simp add: word_le_nat_alt)
  moreover have "unat (drop_bit 7 x) = unat x div 128"
    using take_bit_nat_eq_self [of "unat x" 64] unsigned_less [where 'a = nat and w = x]
    by (simp only: unsigned_drop_bit_eq) (simp add: drop_bit_eq_div)
  ultimately show "(drop_bit 7 x, x) \<in> measure unat" by simp
qed simp

declare append_uvarint.simps [simp del]

lemma append_uvarint_nonempty [simp]: "append_uvarint x \<noteq> []"
  by (subst append_uvarint.simps) simp

section \<open>utf8.Valid\<close>

definition cont :: "byte \<Rightarrow> bool" where
  "cont b \<longleftrightarrow> 0x80 \<le> b \<and> b \<le> 0xBF"

text \<open>The byte ranges a second byte may have after each lead byte; the later ones are continuations.\<close>

fun utf8_valid :: "bytes \<Rightarrow> bool" where
  "utf8_valid [] = True"
| "utf8_valid (b # bs) =
     (if b < 0x80 then utf8_valid bs
      else if 0xC2 \<le> b \<and> b \<le> 0xDF then
        (case bs of b1 # r \<Rightarrow> cont b1 \<and> utf8_valid r | _ \<Rightarrow> False)
      else if 0xE0 \<le> b \<and> b \<le> 0xEF then
        (case bs of
           b1 # b2 # r \<Rightarrow>
             (if b = 0xE0 then 0xA0 \<le> b1 \<and> b1 \<le> 0xBF
              else if b = 0xED then 0x80 \<le> b1 \<and> b1 \<le> 0x9F
              else cont b1) \<and> cont b2 \<and> utf8_valid r
         | _ \<Rightarrow> False)
      else if 0xF0 \<le> b \<and> b \<le> 0xF4 then
        (case bs of
           b1 # b2 # b3 # r \<Rightarrow>
             (if b = 0xF0 then 0x90 \<le> b1 \<and> b1 \<le> 0xBF
              else if b = 0xF4 then 0x80 \<le> b1 \<and> b1 \<le> 0x8F
              else cont b1) \<and> cont b2 \<and> cont b3 \<and> utf8_valid r
         | _ \<Rightarrow> False)
      else False)"

section \<open>encoding/hex\<close>

text \<open>Lower-case digits out, either case in; \<open>None\<close> is an error (a bad digit or an odd length).\<close>

definition hex_digit :: "nat \<Rightarrow> byte" where
  "hex_digit n = (if n < 10 then of_nat (48 + n) else of_nat (87 + n))"

fun hex_EncodeToString :: "bytes \<Rightarrow> bytes" where
  "hex_EncodeToString [] = []"
| "hex_EncodeToString (b # bs) = hex_digit (unat b div 16) # hex_digit (unat b mod 16) # hex_EncodeToString bs"

definition hex_value :: "byte \<Rightarrow> nat option" where
  "hex_value c =
     (let n = unat c
      in if 48 \<le> n \<and> n \<le> 57 then Some (n - 48)
         else if 97 \<le> n \<and> n \<le> 102 then Some (n - 87)
         else if 65 \<le> n \<and> n \<le> 70 then Some (n - 55)
         else None)"

fun hex_DecodeString :: "bytes \<Rightarrow> bytes option" where
  "hex_DecodeString [] = Some []"
| "hex_DecodeString [c] = None"
| "hex_DecodeString (c # d # cs) =
     (case (hex_value c, hex_value d, hex_DecodeString cs) of
        (Some x, Some y, Some bs) \<Rightarrow> Some (of_nat (16 * x + y) # bs)
      | _ \<Rightarrow> None)"

text \<open>ASCII upper-case letters to lower case.\<close>

definition lower_byte :: "byte \<Rightarrow> byte" where
  "lower_byte c = (if 65 \<le> unat c \<and> unat c \<le> 90 then of_nat (unat c + 32) else c)"

lemma unat_small_byte: "n < 256 \<Longrightarrow> unat (of_nat n :: byte) = n"
  by (simp add: unat_of_nat)

lemma unat_hex_digit: "n < 16 \<Longrightarrow> unat (hex_digit n) = (if n < 10 then 48 + n else 87 + n)"
  by (simp add: hex_digit_def unat_small_byte del: of_nat_add)

lemma hex_value_digit: "n < 16 \<Longrightarrow> hex_value (hex_digit n) = Some n"
  by (simp add: hex_value_def unat_hex_digit Let_def)

lemma hex_value_sound: "hex_value c = Some n \<Longrightarrow> n < 16 \<and> lower_byte c = hex_digit n"
  unfolding word_unat_eq_iff
  by (auto simp: hex_value_def lower_byte_def Let_def unat_hex_digit unat_small_byte split: if_splits
      simp del: of_nat_add)

lemma hex_decode_encode: "hex_DecodeString (hex_EncodeToString bs) = Some bs"
proof (induction bs)
  case (Cons b bs)
  have "unat b < 256" using unsigned_less [where 'a = nat and w = b] by simp
  then have "unat b div 16 < 16" by (simp add: less_mult_imp_div_less)
  moreover have "of_nat (16 * (unat b div 16) + unat b mod 16) = b" by (simp only: mult_div_mod_eq) simp
  ultimately show ?case using Cons by (simp add: hex_value_digit)
qed simp

lemma length_hex: "length (hex_EncodeToString bs) = 2 * length bs"
  by (induction bs) auto

lemma hex_decode_sound: "hex_DecodeString s = Some bs \<Longrightarrow> map lower_byte s = hex_EncodeToString bs"
proof (induction s arbitrary: bs rule: hex_DecodeString.induct)
  case (3 c d cs)
  from "3.prems" obtain x y bs' where v: "hex_value c = Some x" "hex_value d = Some y"
    "hex_DecodeString cs = Some bs'" "bs = of_nat (16 * x + y) # bs'"
    by (auto split: option.splits)
  have x: "x < 16" "lower_byte c = hex_digit x" and y: "y < 16" "lower_byte d = hex_digit y"
    using hex_value_sound v(1,2) by auto
  have "unat (of_nat (16 * x + y) :: byte) = 16 * x + y" 
    using x(1) y(1) by (intro unat_small_byte) simp
  then show ?case using "3.IH" v x y by simp
qed simp_all

end
