(* ===== verification/Row.thy ===== *)
theory Row
  imports Golib Lz4s
begin

text \<open>
  The \<open>row\<close> package's binary form (\<open>row.go\<close>): the Go values a row takes, the checked items \<open>val\<close>,
  the encoder and the decoder with its error codes and offsets. A \<open>float64\<close> is its 64 bits. The
  decoder's position is the list of the bytes left together with the offset of its first byte, which
  errors report; the message text of an error is not modelled.
\<close>

section \<open>Items\<close>

datatype row_code = R001 | R002 | R003 | R004 | R005 | R006 | R007 | R008 | R009

datatype row_error = RowError row_code nat | NotARowType

text \<open>
  The Go values \<open>fromGo\<close> tells apart; a \<open>time.Time\<close> is its Unix seconds and nanoseconds, a
  \<open>time.Duration\<close> its nanoseconds; \<open>GOther\<close> is any other dynamic type.
\<close>

datatype goval =
    GNil
  | GBool bool
  | GString bytes
  | GInt int
  | GInt64 int
  | GDecimal int int
  | GFloat64 u64
  | GDay int
  | GTime int nat
  | GTimeOfDay int
  | GDuration int
  | GStdDuration int
  | GBytes bytes
  | GList "goval list"
  | GOther

datatype val =
    VString bytes
  | VNone
  | VFalse
  | VTrue
  | VInt int
  | VDecimal int nat
  | VFloat u64
  | VDate int
  | VDatetime int
  | VTime int
  | VDuration int
  | VBytes bytes
  | VList "val list"

abbreviation (input) maxShort :: nat where "maxShort \<equiv> 241"
abbreviation (input) maxInt :: int where "maxInt \<equiv> 9007199254740991"
abbreviation (input) maxScale :: int where "maxScale \<equiv> 15"
abbreviation (input) minDay :: int where "minDay \<equiv> - 719162"
abbreviation (input) maxDay :: int where "maxDay \<equiv> 2932896"
abbreviation (input) minDatetime :: int where "minDatetime \<equiv> - 62135596800000"
abbreviation (input) maxDatetime :: int where "maxDatetime \<equiv> 253402300799999"
abbreviation (input) maxTime :: int where "maxTime \<equiv> 86399999"
abbreviation (input) maxVarint :: nat where "maxVarint \<equiv> 8"
abbreviation (input) maxExpand :: nat where "maxExpand \<equiv> 255"

definition in_range :: "int \<Rightarrow> bool" where
  "in_range n \<longleftrightarrow> - maxInt \<le> n \<and> n \<le> maxInt"

text \<open>NaN or an infinity: all exponent bits set; negative zero: the sign bit alone.\<close>

definition check_float :: "u64 \<Rightarrow> bool" where
  "check_float f \<longleftrightarrow> f AND 0x7FF0000000000000 \<noteq> 0x7FF0000000000000 \<and> f \<noteq> 0x8000000000000000"

definition int_val :: "int \<Rightarrow> nat \<Rightarrow> row_error + val" where
  "int_val n off = (if in_range n then Inr (VInt n) else Inl (RowError R003 off))"

fun from_go :: "goval \<Rightarrow> bool \<Rightarrow> nat \<Rightarrow> row_error + val"
  and from_go_list :: "goval list \<Rightarrow> nat \<Rightarrow> row_error + val list" where
  "from_go GNil inList off = Inr VNone"
| "from_go (GBool x) inList off = Inr (if x then VTrue else VFalse)"
| "from_go (GString x) inList off =
     (if utf8_valid x then Inr (VString x) else Inl (RowError R006 off))"
| "from_go (GInt x) inList off = int_val x off"
| "from_go (GInt64 x) inList off = int_val x off"
| "from_go (GDecimal m s) inList off =
     (if s < 0 \<or> maxScale < s then Inl (RowError R004 off)
      else if \<not> in_range m then Inl (RowError R003 off)
      else Inr (VDecimal m (nat s)))"
| "from_go (GFloat64 x) inList off =
     (if check_float x then Inr (VFloat x) else Inl (RowError R005 off))"
| "from_go (GDay x) inList off =
     (if x < minDay \<or> maxDay < x then Inl (RowError R003 off) else Inr (VDate x))"
| "from_go (GTime sec ns) inList off =
     (if ns mod 1000000 \<noteq> 0 then Inl (RowError R003 off)
      else let ms = int64 (sec * 1000 + int (ns div 1000000))
           in if ms < minDatetime \<or> maxDatetime < ms then Inl (RowError R003 off)
              else Inr (VDatetime ms))"
| "from_go (GTimeOfDay x) inList off =
     (if x < 0 \<or> maxTime < x then Inl (RowError R003 off) else Inr (VTime x))"
| "from_go (GDuration x) inList off =
     (if in_range x then Inr (VDuration x) else Inl (RowError R003 off))"
| "from_go (GStdDuration x) inList off =
     (if x mod 1000000 \<noteq> 0 then Inl (RowError R003 off) else Inr (VDuration (x div 1000000)))"
| "from_go (GBytes x) inList off = Inr (VBytes x)"
| "from_go (GList xs) inList off =
     (if inList then Inl (RowError R008 off)
      else case from_go_list xs off of
             Inl e \<Rightarrow> Inl e
           | Inr l \<Rightarrow> Inr (VList l))"
| "from_go GOther inList off = Inl NotARowType"
| "from_go_list [] off = Inr []"
| "from_go_list (x # xs) off =
     (case from_go x True off of
        Inl e \<Rightarrow> Inl e
      | Inr v \<Rightarrow>
          (case from_go_list xs off of
             Inl e \<Rightarrow> Inl e
           | Inr vs \<Rightarrow> Inr (v # vs)))"

text \<open>A datetime comes back in UTC: its seconds and the milliseconds in nanoseconds.\<close>

fun to_go :: "val \<Rightarrow> goval" where
  "to_go (VString s) = GString s"
| "to_go VNone = GNil"
| "to_go VFalse = GBool False"
| "to_go VTrue = GBool True"
| "to_go (VInt n) = GInt64 n"
| "to_go (VDecimal m s) = GDecimal m (int s)"
| "to_go (VFloat f) = GFloat64 f"
| "to_go (VDate n) = GDay n"
| "to_go (VDatetime n) = GTime (n div 1000) (nat (n mod 1000) * 1000000)"
| "to_go (VTime n) = GTimeOfDay n"
| "to_go (VDuration n) = GDuration n"
| "to_go (VBytes b) = GBytes b"
| "to_go (VList l) = GList (map to_go l)"

section \<open>The encoder\<close>

definition zigzag :: "int \<Rightarrow> u64" where
  "zigzag n = (let w = word_of_int n :: u64 in push_bit 1 w XOR signed_drop_bit 63 w)"

definition unzigzag :: "u64 \<Rightarrow> int" where
  "unzigzag u = sint (drop_bit 1 u XOR - (u AND 1))"

text \<open>\<open>lz4s.Compress\<close>, which always returns (\<open>Lz4s.delta_roundtrip\<close>).\<close>

definition lz4s_Compress :: "bytes \<Rightarrow> bytes" where
  "lz4s_Compress s = (case Compress s of None \<Rightarrow> [] | Some c \<Rightarrow> c)"

definition smaller :: "nat \<Rightarrow> nat \<Rightarrow> bool" where
  "smaller c n \<longleftrightarrow> length (append_uvarint (of_nat c)) + c < n"

definition append_string :: "bytes \<Rightarrow> bytes" where
  "append_string s =
     (if length s \<le> maxShort then of_nat (length s) # s
      else let c = lz4s_Compress s
           in if smaller (length c) (length s)
              then 242 # append_uvarint (of_nat (length s)) @ append_uvarint (of_nat (length c)) @ c
              else 254 # append_uvarint (of_nat (length s)) @ s)"

fun append_val :: "val \<Rightarrow> bytes" where
  "append_val (VString s) = append_string s"
| "append_val VNone = [243]"
| "append_val VFalse = [244]"
| "append_val VTrue = [245]"
| "append_val (VInt n) = 246 # append_uvarint (zigzag n)"
| "append_val (VDecimal n scale) = 247 # of_nat scale # append_uvarint (zigzag n)"
| "append_val (VFloat f) = 248 # le_bytes 8 f"
| "append_val (VDate n) = 249 # append_uvarint (zigzag n)"
| "append_val (VDatetime n) = 250 # append_uvarint (zigzag n)"
| "append_val (VTime n) = 251 # append_uvarint (word_of_int n)"
| "append_val (VDuration n) = 252 # append_uvarint (zigzag n)"
| "append_val (VBytes b) = 253 # append_uvarint (of_nat (length b)) @ b"
| "append_val (VList l) = 255 # append_uvarint (of_nat (length l)) @ concat (map append_val l)"

fun encode_from :: "goval list \<Rightarrow> bytes \<Rightarrow> row_error + bytes" where
  "encode_from [] b = Inr b"
| "encode_from (it # items) b =
     (case from_go it False (length b) of
        Inl e \<Rightarrow> Inl e
      | Inr v \<Rightarrow> encode_from items (b @ append_val v))"

definition Encode :: "goval list \<Rightarrow> row_error + bytes" where
  "Encode items = encode_from items []"

section \<open>The decoder\<close>

text \<open>
  Each reader takes the offset its errors report and the bytes left, and returns what it read with
  the bytes left after it.
\<close>

fun read_uvarint :: "nat \<Rightarrow> u64 \<Rightarrow> nat \<Rightarrow> bytes \<Rightarrow> row_error + u64 \<times> bytes" where
  "read_uvarint i u start cs =
     (if i \<ge> maxVarint then Inl (RowError R002 start)
      else case cs of
             [] \<Rightarrow> Inl (RowError R001 start)
           | c # cs \<Rightarrow>
               let u = u OR push_bit (7 * i) (ucast (c AND 0x7f))
               in if c < 0x80
                  then if c = 0 \<and> 0 < i then Inl (RowError R002 start) else Inr (u, cs)
                  else read_uvarint (i + 1) u start cs)"

declare read_uvarint.simps [simp del]

definition uvarint :: "nat \<Rightarrow> bytes \<Rightarrow> row_error + u64 \<times> bytes" where
  "uvarint start cs = read_uvarint 0 0 start cs"

definition signed_varint :: "nat \<Rightarrow> bytes \<Rightarrow> row_error + int \<times> bytes" where
  "signed_varint start cs =
     (case uvarint start cs of
        Inl e \<Rightarrow> Inl e
      | Inr (u, cs) \<Rightarrow>
          if 2 * maxInt < uint u then Inl (RowError R003 start) else Inr (unzigzag u, cs))"

definition read_length :: "nat \<Rightarrow> bytes \<Rightarrow> row_error + nat \<times> bytes" where
  "read_length start cs =
     (case uvarint start cs of
        Inl e \<Rightarrow> Inl e
      | Inr (u, cs) \<Rightarrow>
          if maxInt < uint u then Inl (RowError R003 start)
          else if length cs < unat u then Inl (RowError R001 start)
          else Inr (unat u, cs))"

definition read_str :: "nat \<Rightarrow> nat \<Rightarrow> bytes \<Rightarrow> row_error + val \<times> bytes" where
  "read_str start n cs =
     (if utf8_valid (take n cs) then Inr (VString (take n cs), drop n cs) else Inl (RowError R006 start))"

text \<open>The cases of \<open>item\<close>'s switch that have a body of their own.\<close>

definition item_int :: "nat \<Rightarrow> (int \<Rightarrow> val) \<Rightarrow> bytes \<Rightarrow> row_error + val \<times> bytes" where
  "item_int start mk cs =
     (case signed_varint start cs of
        Inl e \<Rightarrow> Inl e
      | Inr (n, cs) \<Rightarrow> Inr (mk n, cs))"

definition item_signed ::
  "nat \<Rightarrow> (int \<Rightarrow> val) \<Rightarrow> int \<Rightarrow> int \<Rightarrow> bytes \<Rightarrow> row_error + val \<times> bytes" where
  "item_signed start mk lo hi cs =
     (case signed_varint start cs of
        Inl e \<Rightarrow> Inl e
      | Inr (n, cs) \<Rightarrow> if n < lo \<or> hi < n then Inl (RowError R003 start) else Inr (mk n, cs))"

definition item_decimal :: "nat \<Rightarrow> bytes \<Rightarrow> row_error + val \<times> bytes" where
  "item_decimal start cs =
     (case cs of
        [] \<Rightarrow> Inl (RowError R001 start)
      | scale # cs \<Rightarrow>
          if maxScale < uint scale then Inl (RowError R004 start)
          else case signed_varint start cs of
                 Inl e \<Rightarrow> Inl e
               | Inr (n, cs) \<Rightarrow> Inr (VDecimal n (unat scale), cs))"

definition item_float :: "nat \<Rightarrow> bytes \<Rightarrow> row_error + val \<times> bytes" where
  "item_float start cs =
     (if length cs < 8 then Inl (RowError R001 start)
      else let f = le_word (take 8 cs)
           in if check_float f then Inr (VFloat f, drop 8 cs) else Inl (RowError R005 start))"

definition item_time :: "nat \<Rightarrow> bytes \<Rightarrow> row_error + val \<times> bytes" where
  "item_time start cs =
     (case uvarint start cs of
        Inl e \<Rightarrow> Inl e
      | Inr (u, cs) \<Rightarrow> if maxTime < uint u then Inl (RowError R003 start) else Inr (VTime (uint u), cs))"

definition item_bytes :: "nat \<Rightarrow> bytes \<Rightarrow> row_error + val \<times> bytes" where
  "item_bytes start cs =
     (case read_length start cs of
        Inl e \<Rightarrow> Inl e
      | Inr (n, cs) \<Rightarrow> Inr (VBytes (take n cs), drop n cs))"

definition item_long_string :: "nat \<Rightarrow> bytes \<Rightarrow> row_error + val \<times> bytes" where
  "item_long_string start cs =
     (case read_length start cs of
        Inl e \<Rightarrow> Inl e
      | Inr (n, cs) \<Rightarrow>
          if n \<le> maxShort then Inl (RowError R007 start)
          else case read_str start n cs of
                 Inl e \<Rightarrow> Inl e
               | Inr (v, rest) \<Rightarrow>
                   if smaller (length (lz4s_Compress (take n cs))) n then Inl (RowError R007 start)
                   else Inr (v, rest))"

definition item_compressed :: "nat \<Rightarrow> bytes \<Rightarrow> row_error + val \<times> bytes" where
  "item_compressed start cs =
     (case uvarint start cs of
        Inl e \<Rightarrow> Inl e
      | Inr (u, cs) \<Rightarrow>
          if maxInt < uint u then Inl (RowError R003 start)
          else case read_length start cs of
            Inl e \<Rightarrow> Inl e
          | Inr (c, cs) \<Rightarrow>
              let stream = take c cs; cs = drop c cs
              in if unat u \<le> maxShort then Inl (RowError R007 start)
                 else if maxExpand * c < unat u then Inl (RowError R009 start)
                 else case Decompress stream (int (unat u)) of
                        None \<Rightarrow> Inl (RowError R009 start)
                      | Some txt \<Rightarrow>
                          if \<not> utf8_valid txt then Inl (RowError R006 start)
                          else if lz4s_Compress txt \<noteq> stream then Inl (RowError R009 start)
                          else if \<not> smaller c (unat u) then Inl (RowError R007 start)
                          else Inr (VString txt, cs))"

text \<open>Every tag but the list's. The caller has read the tag at \<open>start\<close>; \<open>cs\<close> follows it.\<close>

definition item_scalar :: "nat \<Rightarrow> byte \<Rightarrow> bytes \<Rightarrow> row_error + val \<times> bytes" where
  "item_scalar start tag cs =
     (if unat tag \<le> maxShort
      then if length cs < unat tag then Inl (RowError R001 start) else read_str start (unat tag) cs
      else if tag = 243 then Inr (VNone, cs)
      else if tag = 244 then Inr (VFalse, cs)
      else if tag = 245 then Inr (VTrue, cs)
      else if tag = 246 then item_int start VInt cs
      else if tag = 247 then item_decimal start cs
      else if tag = 248 then item_float start cs
      else if tag = 249 then item_signed start VDate minDay maxDay cs
      else if tag = 250 then item_signed start VDatetime minDatetime maxDatetime cs
      else if tag = 251 then item_time start cs
      else if tag = 252 then item_int start VDuration cs
      else if tag = 253 then item_bytes start cs
      else if tag = 254 then item_long_string start cs
      else item_compressed start cs)"

text \<open>
  The list's loop calls \<open>item(true)\<close>, which refuses a list in a list. The offset of the next item
  is the offset of this one and the bytes it took.
\<close>

fun list_items :: "nat \<Rightarrow> nat \<Rightarrow> nat \<Rightarrow> bytes \<Rightarrow> row_error + val list \<times> bytes" where
  "list_items start 0 pos cs = Inr ([], cs)"
| "list_items start (Suc n) pos [] = Inl (RowError R001 start)"
| "list_items start (Suc n) pos (tag # cs) =
     (if tag = 255 then Inl (RowError R008 pos)
      else case item_scalar pos tag cs of
             Inl e \<Rightarrow> Inl e
           | Inr (v, rest) \<Rightarrow>
               (case list_items start n (pos + (length (tag # cs) - length rest)) rest of
                  Inl e \<Rightarrow> Inl e
                | Inr (vs, rest) \<Rightarrow> Inr (v # vs, rest)))"

definition item :: "nat \<Rightarrow> byte \<Rightarrow> bytes \<Rightarrow> row_error + val \<times> bytes" where
  "item start tag cs =
     (if tag \<noteq> 255 then item_scalar start tag cs
      else case read_length start cs of
             Inl e \<Rightarrow> Inl e
           | Inr (n, rest) \<Rightarrow>
               (case list_items start n (start + 1 + (length cs - length rest)) rest of
                  Inl e \<Rightarrow> Inl e
                | Inr (l, rest) \<Rightarrow> Inr (VList l, rest)))"

end
