(* ===== verification/RowCodec.thy ===== *)
theory RowCodec
  imports Row
begin

text \<open>
  The correctness of the row codec: varints and zigzag are inverted exactly, the decoder reads back
  what the encoder wrote, and it accepts nothing else. \<open>ok_val\<close> is what both enforce of an item.
\<close>


section \<open>Varints and zigzag\<close>

lemma and_one_of_bool: "(u :: u64) AND 1 = of_bool (bit u 0)"
  by (simp add: and_one_eq mod_2_eq_odd bit_0)

lemma unzigzag_eq: "unzigzag u = (if bit u 0 then - (uint u div 2) - 1 else uint u div 2)"
proof -
  have u: "uint u < 2 ^ 64" using unsigned_less [where 'a = int and w = u] by simp
  have h: "0 \<le> uint u div 2" "uint u div 2 < 2 ^ 63" using u by simp_all
  have d: "drop_bit 1 u = word_of_int (uint u div 2)"
    by (simp add: drop_bit_eq_div word_div_def)
  show ?thesis
  proof (cases "bit u 0")
    case True
    have "drop_bit 1 u XOR - 1 = NOT (drop_bit 1 u)" by simp
    also have "\<dots> = - drop_bit 1 u - 1" by (simp add: not_eq_complement)
    also have "\<dots> = word_of_int (- (uint u div 2) - 1)" by (simp only: d of_int_minus of_int_diff of_int_1)
    finally have "drop_bit 1 u XOR - 1 = word_of_int (- (uint u div 2) - 1)" .
    then have "unzigzag u = sint (word_of_int (- (uint u div 2) - 1) :: u64)"
      using True by (simp add: unzigzag_def and_one_of_bool)
    also have "\<dots> = - (uint u div 2) - 1"
      using int64_id [of "- (uint u div 2) - 1"] h by (simp add: int64_def)
    finally show ?thesis using True by simp
  next
    case False
    then have "unzigzag u = sint (word_of_int (uint u div 2) :: u64)"
      by (simp add: unzigzag_def and_one_of_bool d [simplified])
    also have "\<dots> = uint u div 2"
      using int64_id [of "uint u div 2"] h by (simp add: int64_def)
    finally show ?thesis using False by simp
  qed
qed

lemma zigzag_bit: "bit (zigzag n) i \<longleftrightarrow> i < 64 \<and>
    ((0 < i \<and> bit (word_of_int n :: u64) (i - 1)) \<noteq> bit (word_of_int n :: u64) 63)"
  unfolding zigzag_def Let_def bit_xor_iff bit_push_bit_iff bit_signed_drop_bit_iff
  by (cases "i = 0") (auto dest: bit_imp_le_length)

lemma zigzag_unzigzag: "zigzag (unzigzag u) = u"
proof -
  have w: "(word_of_int (unzigzag u) :: u64) = drop_bit 1 u XOR - of_bool (bit u 0)"
    by (simp add: unzigzag_def and_one_of_bool)
  show ?thesis
  proof (rule bit_word_eqI)
    fix i :: nat
    assume "i < LENGTH(64)"
    then show "bit (zigzag (unzigzag u)) i = bit u i"
      unfolding zigzag_bit w
      using bit_imp_le_length [of u 64]
      by (cases "bit u 0"; cases i) (auto simp: bit_xor_iff bit_drop_bit_eq bit_not_iff)
  qed
qed

lemma unzigzag_zigzag: "in_range n \<Longrightarrow> unzigzag (zigzag n) = n"
proof -
  assume "in_range n"
  define w where "w = (word_of_int n :: u64)"
  have "drop_bit 1 (zigzag n) XOR - of_bool (bit (zigzag n) 0) = w"
  proof (rule bit_word_eqI)
    fix i :: nat
    assume "i < LENGTH(64)"
    then show "bit (drop_bit 1 (zigzag n) XOR - of_bool (bit (zigzag n) 0)) i = bit w i"
      by (cases "bit w 63"; cases "i = 63") (auto simp: bit_xor_iff bit_drop_bit_eq bit_not_iff zigzag_bit w_def [symmetric])
  qed
  then have "unzigzag (zigzag n) = int64 n"
    by (simp add: unzigzag_def and_one_of_bool int64_def w_def)
  also have "\<dots> = n" using \<open>in_range n\<close> by (intro int64_id) (auto simp: in_range_def)
  finally show ?thesis .
qed

lemma bit0_uint: "bit u 0 \<longleftrightarrow> uint u mod 2 = 1"
  by (metis bit_0 bit_uint_iff bit_imp_le_length odd_iff_mod_2_eq_one)

lemma in_range_unzigzag: "in_range (unzigzag u) \<longleftrightarrow> uint u \<le> 2 * maxInt"
proof -
  define x q where "x = uint u" and "q = x div 2"
  have x: "0 \<le> x" by (simp add: x_def)
  have "unzigzag u = (if x mod 2 = 1 then - q - 1 else q)"
    by (simp add: unzigzag_eq bit0_uint x_def q_def)
  moreover have "x = 2 * q + x mod 2" by (simp add: q_def)
  moreover have "x mod 2 = 0 \<or> x mod 2 = 1" by auto
  ultimately show ?thesis using x unfolding in_range_def x_def [symmetric] by auto
qed

lemma uint_zigzag: "in_range n \<Longrightarrow> uint (zigzag n) \<le> 2 * maxInt"
  using in_range_unzigzag [of "zigzag n"] by (simp add: unzigzag_zigzag)

lemma unat_drop7: "unat (drop_bit 7 (x :: u64)) = unat x div 128"
  using take_bit_nat_eq_self [of "unat x" 64] unsigned_less [where 'a = nat and w = x]
  by (simp only: unsigned_drop_bit_eq) (simp add: drop_bit_eq_div)

lemma bit_7f: "bit (0x7f :: int) i \<longleftrightarrow> i < 7"
proof -
  have "(0x7f :: int) = mask 7" by (simp add: mask_eq_exp_minus_1)
  then show ?thesis by (simp only: bit_mask_iff) auto
qed

lemma bit_80: "bit (0x80 :: int) i \<longleftrightarrow> i = 7"
proof -
  have "(0x80 :: int) = 2 ^ 7" by simp
  then show ?thesis by (simp only: bit_exp_iff) auto
qed

lemma less_80_iff: "(b :: byte) < 0x80 \<longleftrightarrow> \<not> bit b 7"
proof -
  have "unat b < 256" using unsigned_less [where 'a = nat and w = b] by simp
  moreover have "bit b 7 \<longleftrightarrow> odd (unat b div 128)"
    using bit_unsigned_iff [where 'a = nat and w = b and n = 7] by (simp add: bit_iff_odd)
  moreover have "x < 128 \<longleftrightarrow> \<not> odd (x div 128)" if "x < 256" for x :: nat
  proof (cases "x < 128")
    case False
    then have "x div 128 = 1" using that by (intro div_nat_eqI) simp_all
    then show ?thesis using False by simp
  qed simp
  ultimately show ?thesis by (simp add: word_less_nat_alt)
qed

lemmas byte_bits = bit_or_iff bit_and_iff bit_push_bit_iff bit_drop_bit_eq bit_ucast_iff bit_7f bit_80

lemma split7: "ucast ((ucast x :: byte) AND 0x7f) OR push_bit 7 (drop_bit 7 x) = (x :: u64)"
proof (rule bit_word_eqI)
  fix i :: nat
  assume "i < LENGTH(64)"
  then show "bit (ucast ((ucast x :: byte) AND 0x7f) OR push_bit 7 (drop_bit 7 x)) i = bit x i"
    by (cases "i < 7") (auto simp: byte_bits)
qed

lemma or80_and7f: "((b :: byte) OR 0x80) AND 0x7f = b AND 0x7f"
  by (rule bit_word_eqI) (auto simp: byte_bits)

lemma or80_ge: "\<not> (b :: byte) OR 0x80 < 0x80"
  by (simp add: less_80_iff byte_bits)

lemma and7f_small: "(b :: byte) < 0x80 \<Longrightarrow> b AND 0x7f = b"
  by (rule bit_word_eqI) (auto simp: byte_bits less_80_iff less_Suc_eq numeral_eq_Suc)

lemma or80_id: "\<not> (b :: byte) < 0x80 \<Longrightarrow> (b AND 0x7f) OR 0x80 = b"
  by (rule bit_word_eqI) (auto simp: byte_bits less_80_iff less_Suc_eq numeral_eq_Suc)

lemma small_u64: "(x :: u64) < 0x80 \<Longrightarrow> drop_bit 7 x = 0 \<and> (ucast x :: byte) < 0x80"
proof -
  assume "x < 0x80"
  then have x: "unat x < 128" by (simp add: word_less_nat_alt)
  have "unat (drop_bit 7 x) = 0" using x by (simp add: unat_drop7)
  moreover have "unat (ucast x :: byte) = unat x"
    using x by (simp add: unsigned_ucast_eq take_bit_nat_eq_self)
  ultimately show ?thesis using x by (simp add: word_less_nat_alt unsigned_eq_0_iff)
qed

lemma read_uvarint_append:
  assumes "unat x < 128 ^ (8 - i)" and "i < 8" and "0 < i \<longrightarrow> x \<noteq> 0"
  shows "read_uvarint i u start (append_uvarint x @ r) = Inr (u OR push_bit (7 * i) x, r)"
  using assms
proof (induction x arbitrary: i u rule: append_uvarint.induct)
  case (1 x)
  show ?case
  proof (cases "0x80 \<le> x")
    case False
    then have x: "x < 0x80" by simp
    then have "drop_bit 7 x = 0" and b: "(ucast x :: byte) < 0x80" using small_u64 by auto
    then have e: "ucast ((ucast x :: byte) AND 0x7f) = x" using split7 [of x] by simp
    have "(ucast x :: byte) \<noteq> 0 \<or> i = 0"
      using e "1.prems"(3) by auto
    then show ?thesis using False b e "1.prems"(2)
      by (subst append_uvarint.simps, subst read_uvarint.simps) (auto simp: Let_def)
  next
    case True
    have "128 \<le> unat x" using True by (simp add: word_le_nat_alt)
    then have i: "i + 1 < 8" using "1.prems"(1,2) by (cases "i = 7") auto
    have x7: "unat (drop_bit 7 x) < 128 ^ (8 - (i + 1))"
    proof -
      have "8 - i = Suc (8 - (i + 1))" using i by simp
      then have "unat x < 128 * 128 ^ (8 - (i + 1))" using "1.prems"(1) by (metis power_Suc)
      then show ?thesis by (simp add: unat_drop7 less_mult_imp_div_less mult.commute)
    qed
    have nz: "drop_bit 7 x \<noteq> 0" using \<open>128 \<le> unat x\<close> unat_drop7 [of x] by auto
    have "read_uvarint (i + 1) v start (append_uvarint (drop_bit 7 x) @ r) =
        Inr (v OR push_bit (7 * (i + 1)) (drop_bit 7 x), r)" for v
      using "1.IH" [OF True x7 i] nz by simp
    moreover have "(u OR push_bit (7 * i) (ucast ((ucast x :: byte) AND 0x7f))) OR
        push_bit (7 * (i + 1)) (drop_bit 7 x) = u OR push_bit (7 * i) x"
    proof -
      have "push_bit (7 * i) x = push_bit (7 * i) (ucast ((ucast x :: byte) AND 0x7f) OR push_bit 7 (drop_bit 7 x))"
        by (simp only: split7)
      then show ?thesis by (simp add: push_bit_or or.assoc add.commute)
    qed
    ultimately show ?thesis using True "1.prems"(2) or80_ge
      by (subst append_uvarint.simps, subst read_uvarint.simps) (simp add: or80_and7f Let_def)
  qed
qed


lemma uvarint_append:
  "unat x < 2 ^ 56 \<Longrightarrow> uvarint start (append_uvarint x @ r) = Inr (x, r)"
  using read_uvarint_append [of x 0 0 start r] by (simp add: uvarint_def)

lemma join7_drop:
  assumes "unat y < 2 ^ 49"
  shows "drop_bit 7 (ucast ((c :: byte) AND 0x7f) OR push_bit 7 y) = (y :: u64)"
proof (rule bit_word_eqI)
  fix i :: nat
  assume "i < LENGTH(64)"
  have "i < 49" if "bit y i"
  proof -
    have "bit (unat y) i" using that by (simp add: bit_unsigned_iff)
    moreover have "take_bit 49 (unat y) = unat y" using assms by (rule take_bit_nat_eq_self)
    ultimately have "bit (take_bit 49 (unat y)) i" by simp
    then show ?thesis by (simp add: bit_take_bit_iff)
  qed
  then show "bit (drop_bit 7 (ucast (c AND 0x7f) OR push_bit 7 y)) i = bit y i"
    by (cases "bit y i") (simp_all add: byte_bits)
qed

lemma join7_byte:
  assumes "\<not> c < 0x80"
  shows "(ucast (ucast ((c :: byte) AND 0x7f) OR push_bit 7 y :: u64) :: byte) OR 0x80 = c"
proof (rule bit_word_eqI)
  fix i :: nat
  assume "i < LENGTH(8)"
  then have "i < 7 \<or> i = 7" by auto
  then show "bit ((ucast (ucast (c AND 0x7f) OR push_bit 7 y :: u64) :: byte) OR 0x80) i = bit c i"
    using assms by (auto simp: byte_bits less_80_iff)
qed

lemma read_uvarint_sound:
  assumes "read_uvarint i u start cs = Inr (v, r)"
  shows "\<exists>x. cs = append_uvarint x @ r \<and> v = u OR push_bit (7 * i) x \<and> (0 < i \<longrightarrow> x \<noteq> 0)
    \<and> unat x < 128 ^ (8 - i)"
  using assms
proof (induction i u start cs rule: read_uvarint.induct)
  case (1 i u start cs)
  from "1.prems" have i: "i < 8" by (subst (asm) read_uvarint.simps) (auto split: if_splits)
  from "1.prems" i obtain c ds where cs: "cs = c # ds"
    by (subst (asm) read_uvarint.simps) (auto split: list.splits)
  define w where "w = u OR push_bit (7 * i) (ucast (c AND 0x7f))"
  have k: "8 - i = Suc (8 - (i + 1))" using i by simp
  have pow: "128 \<le> (128 :: nat) ^ (8 - i)" unfolding k by simp
  show ?case
  proof (cases "c < 0x80")
    case True
    with "1.prems" cs i have v: "v = w" "r = ds" "\<not> (c = 0 \<and> 0 < i)"
      by (subst (asm) read_uvarint.simps; auto simp: w_def Let_def split: if_splits)+
    define x where "x = (ucast c :: u64)"
    have c: "unat c < 128" using True by (simp add: word_less_nat_alt)
    have ux: "unat x = unat c" using c by (simp add: x_def unsigned_ucast_eq take_bit_nat_eq_self)
    have "\<not> 0x80 \<le> x" using c ux by (simp add: word_le_nat_alt)
    moreover have "(ucast x :: byte) = c"
      by (rule bit_word_eqI) (simp add: x_def bit_ucast_iff)
    ultimately have "append_uvarint x = [c]" by (subst append_uvarint.simps) simp
    moreover have "v = u OR push_bit (7 * i) x" using v(1) and7f_small [OF True] by (simp add: w_def x_def)
    moreover have "0 < i \<longrightarrow> x \<noteq> 0" using v(3) ux by (auto simp: unsigned_eq_0_iff)
    ultimately show ?thesis using v(2) cs ux c pow by (intro exI [of _ x]) simp
  next
    case False
    with "1.prems" cs i have "read_uvarint (i + 1) w start ds = Inr (v, r)"
      by (subst (asm) read_uvarint.simps) (simp add: w_def Let_def)
    then obtain y where y: "ds = append_uvarint y @ r" "v = w OR push_bit (7 * (i + 1)) y" "y \<noteq> 0"
      "unat y < 128 ^ (8 - (i + 1))"
      using "1.IH" [OF _ cs w_def False] i by auto
    define x where "x = ucast (c AND 0x7f) OR push_bit 7 y"
    have ylt: "unat y < 2 ^ 49"
    proof -
      have "(128 :: nat) ^ (8 - (i + 1)) \<le> 128 ^ 7" by (rule power_increasing) auto
      then show ?thesis using y(4) by simp
    qed
    have dx: "drop_bit 7 x = y" and cx: "(ucast x :: byte) OR 0x80 = c"
      using join7_drop [OF ylt] join7_byte [OF False] by (simp_all only: x_def)
    have xd: "unat x div 128 = unat y" using unat_drop7 [of x] dx by simp
    then have ux: "unat x < 128 * unat y + 128" by linarith
    have y0: "0 < unat y" using y(3) by (simp add: unat_gt_0)
    then have "128 \<le> unat x" using xd by linarith
    then have "x \<noteq> 0" and "0x80 \<le> x" by (auto simp: word_le_nat_alt)
    have "append_uvarint x = c # append_uvarint y" using \<open>0x80 \<le> x\<close>
      by (subst append_uvarint.simps) (simp add: dx cx)
    moreover have "v = u OR push_bit (7 * i) x"
      by (simp add: y(2) w_def x_def push_bit_or or.assoc add.commute)
    moreover have "unat x < 128 ^ (8 - i)"
      using ux y(4) unfolding k by simp
    ultimately show ?thesis using y(1) cs \<open>x \<noteq> 0\<close> by (intro exI [of _ x]) simp
  qed
qed


section \<open>Good items\<close>

text \<open>What the rules ask of an item, a length limit of 2^53-1 on strings, bytes and lists included.\<close>

fun ok_scalar :: "val \<Rightarrow> bool" where
  "ok_scalar (VString s) \<longleftrightarrow> utf8_valid s \<and> int (length s) \<le> maxInt"
| "ok_scalar (VInt n) \<longleftrightarrow> in_range n"
| "ok_scalar (VDecimal n s) \<longleftrightarrow> in_range n \<and> int s \<le> maxScale"
| "ok_scalar (VFloat f) \<longleftrightarrow> check_float f"
| "ok_scalar (VDate n) \<longleftrightarrow> minDay \<le> n \<and> n \<le> maxDay"
| "ok_scalar (VDatetime n) \<longleftrightarrow> minDatetime \<le> n \<and> n \<le> maxDatetime"
| "ok_scalar (VTime n) \<longleftrightarrow> 0 \<le> n \<and> n \<le> maxTime"
| "ok_scalar (VDuration n) \<longleftrightarrow> in_range n"
| "ok_scalar (VBytes b) \<longleftrightarrow> int (length b) \<le> maxInt"
| "ok_scalar (VList l) \<longleftrightarrow> False"
| "ok_scalar _ \<longleftrightarrow> True"

fun ok_val :: "val \<Rightarrow> bool" where
  "ok_val (VList l) \<longleftrightarrow> (\<forall>v \<in> set l. ok_scalar v) \<and> int (length l) \<le> maxInt"
| "ok_val v \<longleftrightarrow> ok_scalar v"

lemma uint_int_unat: "uint w = int (unat w)"
  by simp

lemma signed_varint_append:
  "in_range n \<Longrightarrow> signed_varint start (append_uvarint (zigzag n) @ r) = Inr (n, r)"
proof -
  assume n: "in_range n"
  have "uint (zigzag n) \<le> 2 * maxInt" using n by (rule uint_zigzag)
  then have "unat (zigzag n) < 2 ^ 56"
    by (subst of_nat_less_iff [where 'a = int, symmetric]) simp
  then show ?thesis using uint_zigzag [OF n]
    by (simp add: signed_varint_def uvarint_append unzigzag_zigzag n)
qed

lemma signed_varint_sound:
  assumes "signed_varint start cs = Inr (n, r)"
  shows "in_range n \<and> cs = append_uvarint (zigzag n) @ r"
proof -
  obtain u where u: "uvarint start cs = Inr (u, r)" "uint u \<le> 2 * maxInt" "n = unzigzag u"
    using assms by (auto simp: signed_varint_def split: sum.splits if_splits)
  from read_uvarint_sound [of 0 0 start cs u r] u(1) have "cs = append_uvarint u @ r"
    by (auto simp: uvarint_def)
  then show ?thesis using u(2,3) in_range_unzigzag [of u] by (simp add: zigzag_unzigzag)
qed

lemma uvarint_sound: "uvarint start cs = Inr (u, r) \<Longrightarrow> cs = append_uvarint u @ r"
  using read_uvarint_sound [of 0 0 start cs u r] by (auto simp: uvarint_def)

lemma unat_of_nat_small: "int n \<le> maxInt \<Longrightarrow> unat (of_nat n :: u64) = n"
  by (simp add: unat_of_nat)

lemma uint_of_nat_small: "int n \<le> maxInt \<Longrightarrow> uint (of_nat n :: u64) = int n"
  using unat_of_nat_small [of n] uint_int_unat [of "of_nat n :: u64"] by simp

lemma read_length_append:
  "int n \<le> maxInt \<Longrightarrow> n \<le> length r \<Longrightarrow> read_length start (append_uvarint (of_nat n) @ r) = Inr (n, r)"
  using uvarint_append [of "of_nat n" start r]
  by (simp add: read_length_def unat_of_nat_small uint_of_nat_small)

lemma read_length_sound:
  assumes "read_length start cs = Inr (n, r)"
  shows "int n \<le> maxInt \<and> n \<le> length r \<and> cs = append_uvarint (of_nat n) @ r"
proof -
  from assms obtain u ds where e: "uvarint start cs = Inr (u, ds)"
    by (cases "uvarint start cs") (auto simp: read_length_def)
  have "\<not> maxInt < uint u"
    using assms unfolding read_length_def e by (cases "maxInt < uint u") simp_all
  moreover from this have "\<not> length ds < unat u"
    using assms unfolding read_length_def e by (cases "length ds < unat u") simp_all
  ultimately have u: "uvarint start cs = Inr (u, r)" "uint u \<le> maxInt" "\<not> length r < unat u" "n = unat u"
    using assms by (simp_all add: read_length_def e)
  have "int n \<le> maxInt" using u(2) unfolding u(4) by (simp only: uint_int_unat)
  moreover have "n \<le> length r" using u(3,4) by simp
  moreover have "cs = append_uvarint (of_nat n) @ r" using uvarint_sound [OF u(1)] u(4) by simp
  ultimately show ?thesis by blast
qed

section \<open>The compressor under the codec\<close>

lemma decompress_compress: "Decompress (lz4s_Compress s) (int (length s)) = Some s"
proof -
  obtain c where "Compress s = Some c" "Undelta [] c (int (length s)) = Some s"
    using delta_roundtrip [of "[]" s] by (auto simp: Compress_def)
  then show ?thesis by (simp add: lz4s_Compress_def Decompress_def)
qed

lemma compress_expand: "length s \<le> maxExpand * length (lz4s_Compress s)"
  using undelta_length [of "[]" "lz4s_Compress s" "int (length s)" s] decompress_compress [of s]
  by (simp add: Decompress_def)

lemma smaller_less: "smaller c n \<Longrightarrow> c < n"
  by (simp add: smaller_def)

lemma item_compressed_append:
  assumes "utf8_valid s" and "int (length s) \<le> maxInt" and "\<not> length s \<le> maxShort"
    and "smaller (length (lz4s_Compress s)) (length s)"
  shows "item_compressed start (append_uvarint (of_nat (length s)) @
      append_uvarint (of_nat (length (lz4s_Compress s))) @ lz4s_Compress s @ r) = Inr (VString s, r)"
proof -
  define c where "c = lz4s_Compress s"
  have c: "int (length c) \<le> maxInt" using smaller_less [OF assms(4)] assms(2) by (simp add: c_def)
  have "uvarint start (append_uvarint (of_nat (length s)) @ append_uvarint (of_nat (length c)) @ c @ r)
      = Inr (of_nat (length s), append_uvarint (of_nat (length c)) @ c @ r)"
    using assms(2) by (intro uvarint_append) (simp add: unat_of_nat_small)
  moreover have "read_length start (append_uvarint (of_nat (length c)) @ c @ r) = Inr (length c, c @ r)"
    using c by (intro read_length_append) auto
  moreover have "Decompress c (int (length s)) = Some s" "length s \<le> maxExpand * length c"
    using decompress_compress [of s] compress_expand [of s] by (simp_all add: c_def)
  ultimately show ?thesis
    using assms c by (simp add: item_compressed_def unat_of_nat_small uint_of_nat_small Let_def flip: c_def)
qed

lemma item_compressed_sound:
  assumes "item_compressed start cs = Inr (v, r)"
  shows "\<exists>s. v = VString s \<and> utf8_valid s \<and> int (length s) \<le> maxInt \<and> \<not> length s \<le> maxShort
    \<and> smaller (length (lz4s_Compress s)) (length s)
    \<and> cs = append_uvarint (of_nat (length s)) @ append_uvarint (of_nat (length (lz4s_Compress s))) @ lz4s_Compress s @ r"
proof -
  obtain u c ds es t where
    u: "uvarint start cs = Inr (u, ds)" "uint u \<le> maxInt" "read_length start ds = Inr (c, es)"
      "\<not> unat u \<le> maxShort" "Decompress (take c es) (int (unat u)) = Some t" "utf8_valid t"
      "lz4s_Compress t = take c es" "smaller c (unat u)" "v = VString t" "r = drop c es"
    using assms
    by (auto simp: item_compressed_def Let_def split: sum.splits option.splits if_splits)
  have "length t = unat u"
    using undelta_length [of "[]" "take c es" "int (unat u)" t] u(5) by (simp add: Decompress_def)
  moreover have "cs = append_uvarint u @ ds" using u(1) by (rule uvarint_sound)
  moreover have "c \<le> length es" "ds = append_uvarint (of_nat c) @ es"
    using read_length_sound [OF u(3)] by auto
  ultimately show ?thesis using u by (intro exI [of _ t]) simp
qed

section \<open>One item\<close>

lemma unat_of_nat_byte: "n < 256 \<Longrightarrow> unat (of_nat n :: byte) = n"
  by (simp add: unat_of_nat)

lemma of_nat_unat_byte: "of_nat (unat (b :: byte)) = b"
  by simp

lemma tag_above: "\<not> unat (tag :: byte) \<le> maxShort \<Longrightarrow>
    tag = 242 \<or> tag = 243 \<or> tag = 244 \<or> tag = 245 \<or> tag = 246 \<or> tag = 247 \<or> tag = 248 \<or> tag = 249 \<or>
    tag = 250 \<or> tag = 251 \<or> tag = 252 \<or> tag = 253 \<or> tag = 254 \<or> tag = 255"
proof -
  assume a: "\<not> unat tag \<le> maxShort"
  have "unat tag < 256" using unsigned_less [where 'a = nat and w = tag] by simp
  with a have "unat tag = 242 \<or> unat tag = 243 \<or> unat tag = 244 \<or> unat tag = 245 \<or> unat tag = 246 \<or>
      unat tag = 247 \<or> unat tag = 248 \<or> unat tag = 249 \<or> unat tag = 250 \<or> unat tag = 251 \<or>
      unat tag = 252 \<or> unat tag = 253 \<or> unat tag = 254 \<or> unat tag = 255"
    by arith
  then show ?thesis by (simp add: word_unat_eq_iff)
qed

lemma item_int_append: "in_range n \<Longrightarrow> item_int start mk (append_uvarint (zigzag n) @ r) = Inr (mk n, r)"
  by (simp add: item_int_def signed_varint_append)

lemma item_int_sound:
  "item_int start mk cs = Inr (v, r) \<Longrightarrow> \<exists>n. v = mk n \<and> in_range n \<and> cs = append_uvarint (zigzag n) @ r"
  by (auto simp: item_int_def dest: signed_varint_sound split: sum.splits)

lemma item_signed_append:
  "in_range n \<Longrightarrow> lo \<le> n \<Longrightarrow> n \<le> hi \<Longrightarrow>
    item_signed start mk lo hi (append_uvarint (zigzag n) @ r) = Inr (mk n, r)"
  by (simp add: item_signed_def signed_varint_append)

lemma item_signed_sound:
  "item_signed start mk lo hi cs = Inr (v, r) \<Longrightarrow>
    \<exists>n. v = mk n \<and> lo \<le> n \<and> n \<le> hi \<and> cs = append_uvarint (zigzag n) @ r"
  by (auto simp: item_signed_def dest!: signed_varint_sound split: sum.splits if_splits)

lemma item_decimal_append:
  "in_range n \<Longrightarrow> s \<le> 15 \<Longrightarrow>
    item_decimal start (of_nat s # append_uvarint (zigzag n) @ r) = Inr (VDecimal n s, r)"
  by (simp add: item_decimal_def signed_varint_append unat_of_nat_byte uint_int_unat del: of_nat_unat)

lemma item_decimal_sound:
  assumes "item_decimal start cs = Inr (v, r)"
  shows "\<exists>n s. v = VDecimal n s \<and> in_range n \<and> s \<le> 15 \<and> cs = of_nat s # append_uvarint (zigzag n) @ r"
proof -
  from assms obtain sc ds where cs: "cs = sc # ds" by (cases cs) (simp_all add: item_decimal_def)
  with assms have sc: "uint sc \<le> maxScale"
    by (cases "maxScale < uint sc") (simp_all add: item_decimal_def)
  obtain n where n: "signed_varint start ds = Inr (n, r)" "v = VDecimal n (unat sc)"
    using assms sc unfolding cs item_decimal_def
    by (cases "signed_varint start ds") auto
  have "int (unat sc) \<le> 15" using sc by (simp only: uint_int_unat)
  then have "unat sc \<le> 15" by linarith
  then show ?thesis using n signed_varint_sound [OF n(1)] cs by auto
qed

lemma item_float_append:
  "check_float f \<Longrightarrow> item_float start (le_bytes 8 f @ r) = Inr (VFloat f, r)"
  by (simp add: item_float_def length_le_bytes le_word_le_bytes Let_def)

lemma item_float_sound:
  "item_float start cs = Inr (v, r) \<Longrightarrow> \<exists>f. v = VFloat f \<and> check_float f \<and> cs = le_bytes 8 f @ r"
proof -
  assume a: "item_float start cs = Inr (v, r)"
  then have "8 \<le> length cs" and "v = VFloat (le_word (take 8 cs))" "check_float (le_word (take 8 cs))" "r = drop 8 cs"
    by (auto simp: item_float_def Let_def split: if_splits)
  moreover from this have "le_bytes 8 (le_word (take 8 cs) :: u64) = take 8 cs"
    using le_bytes_le_word [where 'a = 64, of "take 8 cs"] by simp
  ultimately show ?thesis by (intro exI [of _ "le_word (take 8 cs)"]) simp
qed

lemma item_time_append:
  assumes "0 \<le> n" and "n \<le> maxTime"
  shows "item_time start (append_uvarint (word_of_int n) @ r) = Inr (VTime n, r)"
proof -
  have u: "uint (word_of_int n :: u64) = n" using assms by (simp add: uint_word_of_int)
  then have "unat (word_of_int n :: u64) = nat n" by (simp flip: nat_uint_eq)
  then have "unat (word_of_int n :: u64) < 2 ^ 56" using assms by simp
  then show ?thesis using assms u by (simp add: item_time_def uvarint_append)
qed

lemma item_time_sound:
  assumes "item_time start cs = Inr (v, r)"
  shows "\<exists>n. v = VTime n \<and> 0 \<le> n \<and> n \<le> maxTime \<and> cs = append_uvarint (word_of_int n) @ r"
proof -
  from assms obtain u ds where u: "uvarint start cs = Inr (u, ds)"
    by (cases "uvarint start cs") (auto simp: item_time_def)
  with assms have "\<not> maxTime < uint u" "v = VTime (uint u)" "ds = r"
    by (cases "maxTime < uint u"; simp add: item_time_def)+
  then show ?thesis using uvarint_sound [OF u] by (intro exI [of _ "uint u"]) simp
qed

lemma item_bytes_append:
  "int (length b) \<le> maxInt \<Longrightarrow> item_bytes start (append_uvarint (of_nat (length b)) @ b @ r) = Inr (VBytes b, r)"
  by (simp add: item_bytes_def read_length_append)

lemma item_bytes_sound:
  "item_bytes start cs = Inr (v, r) \<Longrightarrow>
    \<exists>b. v = VBytes b \<and> int (length b) \<le> maxInt \<and> cs = append_uvarint (of_nat (length b)) @ b @ r"
  by (auto simp: item_bytes_def dest!: read_length_sound split: sum.splits)

lemma item_long_string_append:
  assumes "utf8_valid s" and "int (length s) \<le> maxInt" and "\<not> length s \<le> maxShort"
    and "\<not> smaller (length (lz4s_Compress s)) (length s)"
  shows "item_long_string start (append_uvarint (of_nat (length s)) @ s @ r) = Inr (VString s, r)"
  using assms by (simp add: item_long_string_def read_length_append read_str_def)

lemma item_long_string_sound:
  assumes "item_long_string start cs = Inr (v, r)"
  shows "\<exists>s. v = VString s \<and> utf8_valid s \<and> int (length s) \<le> maxInt \<and> \<not> length s \<le> maxShort
    \<and> \<not> smaller (length (lz4s_Compress s)) (length s) \<and> cs = append_uvarint (of_nat (length s)) @ s @ r"
proof -
  from assms obtain n ds where e: "read_length start cs = Inr (n, ds)"
    by (cases "read_length start cs") (auto simp: item_long_string_def)
  with assms have "\<not> n \<le> maxShort" "utf8_valid (take n ds)" "v = VString (take n ds)" "r = drop n ds"
    "\<not> smaller (length (lz4s_Compress (take n ds))) n"
    by (auto simp: item_long_string_def read_str_def split: if_splits)
  moreover have "int n \<le> maxInt \<and> n \<le> length ds \<and> cs = append_uvarint (of_nat n) @ ds"
    using e by (rule read_length_sound)
  ultimately show ?thesis by (intro exI [of _ "take n ds"]) simp
qed

lemma append_string_ok:
  assumes "utf8_valid s" and "int (length s) \<le> maxInt"
  shows "\<exists>tag cs. append_string s @ r = tag # cs \<and> tag \<noteq> 255 \<and> item_scalar start tag cs = Inr (VString s, r)"
proof (cases "length s \<le> maxShort")
  case True
  then have u: "unat (of_nat (length s) :: byte) = length s" by (simp add: unat_of_nat_byte)
  moreover from this have "(of_nat (length s) :: byte) \<noteq> 255" using True by auto
  ultimately show ?thesis using True assms(1)
    by (simp add: append_string_def item_scalar_def read_str_def)
next
  case False
  then show ?thesis
    using item_compressed_append [OF assms False] item_long_string_append [OF assms False]
    by (cases "smaller (length (lz4s_Compress s)) (length s)")
      (simp_all add: append_string_def item_scalar_def Let_def)
qed

lemma append_scalar_item:
  assumes "ok_scalar v"
  shows "\<exists>tag cs. append_val v @ r = tag # cs \<and> tag \<noteq> 255 \<and> item_scalar start tag cs = Inr (v, r)"
  using assms
proof (cases v)
  case (VDecimal n s)
  then have "in_range n" "s \<le> 15" using assms by auto
  then show ?thesis using VDecimal item_decimal_append [of n s start r] by (simp add: item_scalar_def)
next
  case (VDate n)
  then have "in_range n" using assms by (simp add: in_range_def)
  then show ?thesis using assms VDate by (simp add: item_scalar_def item_signed_append)
next
  case (VDatetime n)
  then have "in_range n" using assms by (simp add: in_range_def)
  then show ?thesis using assms VDatetime by (simp add: item_scalar_def item_signed_append)
qed (use assms append_string_ok in \<open>simp_all add: item_scalar_def item_int_append item_float_append
      item_time_append item_bytes_append\<close>)

lemma item_string_sound:
  assumes "unat tag \<le> maxShort" and "item_scalar start tag cs = Inr (v, r)"
  shows "ok_scalar v \<and> tag # cs = append_val v @ r"
proof -
  have l: "unat tag \<le> length cs" and s: "utf8_valid (take (unat tag) cs)"
    and v: "v = VString (take (unat tag) cs)" "r = drop (unat tag) cs"
    using assms by (auto simp: item_scalar_def read_str_def split: if_splits)
  have "append_string (take (unat tag) cs) = tag # take (unat tag) cs"
    using l assms(1) by (simp add: append_string_def min_absorb2)
  moreover have "uint tag \<le> maxInt" using assms(1) by (simp add: uint_int_unat del: of_nat_unat)
  ultimately show ?thesis using l s v by simp
qed

lemma item_scalar_sound:
  assumes "item_scalar start tag cs = Inr (v, r)" and "tag \<noteq> 255"
  shows "ok_scalar v \<and> tag # cs = append_val v @ r"
proof (cases "unat tag \<le> maxShort")
  case True
  then show ?thesis using assms(1) by (rule item_string_sound)
next
  case False
  from tag_above [OF this] assms(2) show ?thesis
    by (elim disjE; use assms(1) in \<open>auto simp: item_scalar_def append_string_def Let_def in_range_def
      dest!: item_int_sound item_signed_sound item_decimal_sound item_float_sound item_time_sound
        item_bytes_sound item_long_string_sound item_compressed_sound\<close>)
qed

lemma list_items_append:
  "\<forall>v \<in> set l. ok_scalar v \<Longrightarrow> list_items start (length l) pos (concat (map append_val l) @ r) = Inr (l, r)"
proof (induction l arbitrary: pos)
  case (Cons v l)
  obtain tag cs where e: "append_val v @ concat (map append_val l) @ r = tag # cs" "tag \<noteq> 255"
    "item_scalar pos tag cs = Inr (v, concat (map append_val l) @ r)"
    using append_scalar_item [of v "concat (map append_val l) @ r" pos] Cons.prems by auto
  then show ?case using Cons by simp
qed simp

lemma list_items_sound:
  "list_items start n pos cs = Inr (l, r) \<Longrightarrow>
    length l = n \<and> (\<forall>v \<in> set l. ok_scalar v) \<and> cs = concat (map append_val l) @ r"
proof (induction start n pos cs arbitrary: l rule: list_items.induct)
  case (3 start n pos tag cs)
  from "3.prems" have "tag \<noteq> 255" by auto
  with "3.prems" obtain v ds vs where i: "item_scalar pos tag cs = Inr (v, ds)"
    "list_items start n (pos + (length (tag # cs) - length ds)) ds = Inr (vs, r)" "l = v # vs"
    by (auto split: sum.splits)
  from "3.IH" [OF \<open>tag \<noteq> 255\<close> i(1) _ i(2)] item_scalar_sound [OF i(1) \<open>tag \<noteq> 255\<close>] i(3)
  show ?case by auto
qed auto

lemma item_append:
  assumes "ok_val v"
  shows "\<exists>tag cs. append_val v @ r = tag # cs \<and> item start tag cs = Inr (v, r)"
proof (cases "ok_scalar v")
  case True
  then show ?thesis using append_scalar_item [of v r start] by (auto simp: item_def)
next
  case False
  with assms obtain l where v: "v = VList l" and l: "\<forall>v \<in> set l. ok_scalar v" "int (length l) \<le> maxInt"
    by (cases v) auto
  have "length l \<le> length (concat (map append_val l))"
    using l(1)
  proof (induction l)
    case (Cons w l)
    then show ?case using append_scalar_item [of w "[]" start] by (cases "append_val w") auto
  qed simp
  then have "read_length start (append_uvarint (of_nat (length l)) @ concat (map append_val l) @ r)
      = Inr (length l, concat (map append_val l) @ r)"
    using l(2) by (intro read_length_append) auto
  then show ?thesis using l(1) by (simp add: v item_def list_items_append)
qed

lemma item_sound:
  assumes "item start tag cs = Inr (v, r)"
  shows "ok_val v \<and> tag # cs = append_val v @ r"
proof (cases "tag = 255")
  case False
  then have "item_scalar start tag cs = Inr (v, r)" using assms by (simp add: item_def)
  from item_scalar_sound [OF this False] show ?thesis by (cases v) auto
next
  case True
  with assms obtain n ds l where "read_length start cs = Inr (n, ds)"
    "list_items start n (start + 1 + (length cs - length ds)) ds = Inr (l, r)" "v = VList l"
    by (auto simp: item_def split: sum.splits)
  with True show ?thesis by (auto dest!: read_length_sound list_items_sound)
qed

lemma item_rest: "item start tag cs = Inr (v, r) \<Longrightarrow> length r \<le> length cs"
  using item_sound [of start tag cs v r] item_append [of v "[]" start]
  by (cases "append_val v") (auto dest: arg_cong [where f = length])

section \<open>Rows\<close>

function decode_vals :: "nat \<Rightarrow> bytes \<Rightarrow> row_error + val list" where
  "decode_vals pos [] = Inr []"
| "decode_vals pos (tag # cs) =
     (case item pos tag cs of
        Inl e \<Rightarrow> Inl e
      | Inr (v, rest) \<Rightarrow>
          (case decode_vals (pos + (length (tag # cs) - length rest)) rest of
             Inl e \<Rightarrow> Inl e
           | Inr out \<Rightarrow> Inr (v # out)))"
  by pat_completeness auto

termination decode_vals
  by (relation "measure (\<lambda>(pos, cs). length cs)") (auto dest!: item_rest)

definition decodeVals :: "bytes \<Rightarrow> row_error + val list" where
  "decodeVals b = decode_vals 0 b"

definition Decode :: "bytes \<Rightarrow> row_error + goval list" where
  "Decode b = (case decodeVals b of Inl e \<Rightarrow> Inl e | Inr vals \<Rightarrow> Inr (map to_go vals))"

lemma decode_vals_append:
  "\<forall>v \<in> set vs. ok_val v \<Longrightarrow> decode_vals pos (concat (map append_val vs)) = Inr vs"
proof (induction vs arbitrary: pos)
  case (Cons v vs)
  obtain tag cs where "append_val v @ concat (map append_val vs) = tag # cs"
    "item pos tag cs = Inr (v, concat (map append_val vs))"
    using item_append [of v "concat (map append_val vs)" pos] Cons.prems by auto
  then show ?case using Cons by simp
qed simp

lemma decode_vals_sound:
  "decode_vals pos cs = Inr vs \<Longrightarrow> (\<forall>v \<in> set vs. ok_val v) \<and> cs = concat (map append_val vs)"
proof (induction pos cs arbitrary: vs rule: decode_vals.induct)
  case (2 pos tag cs)
  from "2.prems" obtain v rest out where i: "item pos tag cs = Inr (v, rest)"
    "decode_vals (pos + (length (tag # cs) - length rest)) rest = Inr out" "vs = v # out"
    by (auto split: sum.splits)
  from "2.IH" [OF i(1) _ i(2)] item_sound [OF i(1)] i(3) show ?case by auto
qed simp

text \<open>The decoder of one item as a codec: the interface the row's framing needs of its items.\<close>

definition item_enc :: "val \<Rightarrow> bytes" where
  "item_enc v = append_val v"

definition item_dec :: "bytes \<Rightarrow> row_error + val \<times> nat" where
  "item_dec b =
     (case b of
        [] \<Rightarrow> Inl (RowError R001 0)
      | tag # cs \<Rightarrow>
          (case item 0 tag cs of
             Inl e \<Rightarrow> Inl e
           | Inr (v, rest) \<Rightarrow> Inr (v, length b - length rest)))"

interpretation row_item: nonempty_codec item_enc item_dec ok_val
proof
  fix v r assume "ok_val v"
  then obtain tag cs where "append_val v @ r = tag # cs" "item 0 tag cs = Inr (v, r)"
    using item_append by blast
  moreover from this have "length (tag # cs) - length r = length (append_val v)"
    by (metis add_diff_cancel_right' length_append)
  ultimately show "item_dec (item_enc v @ r) = Inr (v, length (item_enc v))"
    by (simp add: item_dec_def item_enc_def)
next
  fix b v n assume "item_dec b = Inr (v, n)"
  then obtain tag cs rest where "b = tag # cs" "item 0 tag cs = Inr (v, rest)" "n = length b - length rest"
    by (auto simp: item_dec_def split: list.splits sum.splits)
  with item_sound [of 0 tag cs v rest] show "ok_val v \<and> n \<le> length b \<and> take n b = item_enc v"
    by (auto simp: item_enc_def)
next
  fix v assume "ok_val v"
  from item_append [OF this, of "[]" 0] show "item_enc v \<noteq> []" by (auto simp: item_enc_def)
qed

section \<open>Go values\<close>

lemma from_go_listD:
  "from_go_list xs off = Inr vs \<Longrightarrow> list_all2 (\<lambda>x v. from_go x True off = Inr v) xs vs"
  by (induction xs arbitrary: vs) (auto split: sum.splits)

lemma from_go_listI:
  "list_all2 (\<lambda>x v. from_go x True off = Inr v) xs vs \<Longrightarrow> from_go_list xs off = Inr vs"
  by (induction rule: list_all2_induct) auto

lemma from_go_to_go_scalar: "ok_scalar v \<Longrightarrow> from_go (to_go v) inList off = Inr v"
proof (cases v)
  case (VDatetime n)
  assume "ok_scalar v"
  then have n: "minDatetime \<le> n" "n \<le> maxDatetime" using VDatetime by auto
  have "n div 1000 * 1000 + int (nat (n mod 1000) * 1000000 div 1000000) = n" by simp
  moreover have "int64 n = n" using n by (intro int64_id) simp_all
  ultimately show ?thesis using n VDatetime by (simp add: Let_def)
qed (auto simp: int_val_def)

lemma from_go_to_go: "ok_val v \<Longrightarrow> from_go (to_go v) False off = Inr v"
proof (cases v)
  case (VList l)
  assume "ok_val v"
  then have "from_go_list (map to_go l) off = Inr l"
    by (intro from_go_listI) (auto simp: VList list.rel_map from_go_to_go_scalar intro!: list.rel_refl_strong)
  then show ?thesis using VList by simp
qed (use from_go_to_go_scalar [of v] in auto)

lemma encode_from_vals:
  "encode_from items b = Inr b' \<longleftrightarrow>
    (case items of [] \<Rightarrow> b' = b
     | it # items \<Rightarrow> \<exists>v. from_go it False (length b) = Inr v \<and> encode_from items (b @ append_val v) = Inr b')"
  by (cases items) (auto split: sum.splits)

lemma encode_from_to_go:
  "\<forall>v \<in> set vs. ok_val v \<Longrightarrow> encode_from (map to_go vs) b = Inr (b @ concat (map append_val vs))"
  by (induction vs arbitrary: b) (auto simp: from_go_to_go)

text \<open>What a Go value is decoded as, and the sizes a Go value has.\<close>

fun canon :: "goval \<Rightarrow> goval" where
  "canon (GInt n) = GInt64 n"
| "canon (GStdDuration d) = GDuration (d div 1000000)"
| "canon (GList xs) = GList (map canon xs)"
| "canon g = g"

fun sized :: "goval \<Rightarrow> bool" where
  "sized (GString s) \<longleftrightarrow> int (length s) \<le> maxInt"
| "sized (GBytes b) \<longleftrightarrow> int (length b) \<le> maxInt"
| "sized (GList xs) \<longleftrightarrow> int (length xs) \<le> maxInt \<and> (\<forall>x \<in> set xs. sized x)"
| "sized (GTime sec ns) \<longleftrightarrow> ns < 1000000000 \<and> - (2 ^ 63) \<le> sec * 1000 \<and> sec * 1000 + 999 < 2 ^ 63"
| "sized (GStdDuration d) \<longleftrightarrow> - (2 ^ 63) \<le> d \<and> d < 2 ^ 63"
| "sized _ \<longleftrightarrow> True"

lemma from_go_scalar:
  "from_go g True off = Inr v \<Longrightarrow> sized g \<Longrightarrow> ok_scalar v \<and> to_go v = canon g"
proof (cases g)
  case (GTime sec ns)
  assume f: "from_go g True off = Inr v" and "sized g"
  then have s: "ns < 1000000000" "- (2 ^ 63) \<le> sec * 1000" "sec * 1000 + 999 < 2 ^ 63"
    using GTime by simp_all
  define m where "m = ns div 1000000"
  have ns: "ns = m * 1000000" and v: "v = VDatetime (int64 (sec * 1000 + int m))"
    and b: "minDatetime \<le> int64 (sec * 1000 + int m)" "int64 (sec * 1000 + int m) \<le> maxDatetime"
    using f GTime by (auto simp: Let_def m_def split: if_splits)
  have m: "m \<le> 999" using s(1) by (simp add: m_def)
  have "int64 (sec * 1000 + int m) = sec * 1000 + int m" using s m by (intro int64_id) simp_all
  moreover have "(sec * 1000 + int m) div 1000 = sec" "(sec * 1000 + int m) mod 1000 = int m" using m by simp_all
  ultimately show ?thesis using v b GTime ns by simp
qed (auto simp: int_val_def in_range_def Let_def split: if_splits)

lemma from_go_item:
  assumes "from_go g False off = Inr v" and "sized g"
  shows "ok_val v \<and> to_go v = canon g"
proof (cases "\<exists>xs. g = GList xs")
  case True
  then obtain xs l where g: "g = GList xs" "v = VList l" "from_go_list xs off = Inr l"
    using assms(1) by (auto split: sum.splits)
  have sz: "\<forall>x \<in> set xs. sized x" "int (length xs) \<le> maxInt" using assms(2) g by auto
  have "list_all2 (\<lambda>x v. ok_scalar v \<and> to_go v = canon x) xs l"
    using from_go_listD [OF g(3)] sz(1) from_go_scalar by (auto elim!: list.rel_mono_strong)
  then have "length l = length xs \<and> (\<forall>v \<in> set l. ok_scalar v) \<and> map to_go l = map canon xs"
    by (induction) auto
  then show ?thesis using g sz by auto
next
  case False
  then have "from_go g True off = Inr v" using assms(1) by (cases g) auto
  from from_go_scalar [OF this assms(2)] show ?thesis by (cases v) auto
qed

lemma encode_from_sound:
  "encode_from items b = Inr b' \<Longrightarrow> \<forall>g \<in> set items. sized g \<Longrightarrow>
    \<exists>vs. b' = b @ concat (map append_val vs) \<and> (\<forall>v \<in> set vs. ok_val v) \<and> map to_go vs = map canon items"
proof (induction items arbitrary: b)
  case (Cons it items)
  from Cons.prems obtain v where v: "from_go it False (length b) = Inr v"
    "encode_from items (b @ append_val v) = Inr b'"
    by (auto split: sum.splits)
  from Cons.IH [OF v(2)] Cons.prems(2) obtain vs where
    "b' = (b @ append_val v) @ concat (map append_val vs)" "\<forall>v \<in> set vs. ok_val v" "map to_go vs = map canon items"
    by auto
  then show ?case using from_go_item [OF v(1)] Cons.prems(2) by (intro exI [of _ "v # vs"]) auto
qed simp


section \<open>Error offsets\<close>

definition err_within :: "nat \<Rightarrow> nat \<Rightarrow> row_error \<Rightarrow> bool" where
  "err_within lo hi e \<longleftrightarrow> (\<exists>c off. e = RowError c off \<and> lo \<le> off \<and> off < hi)"

lemma read_uvarint_err: "read_uvarint i u start cs = Inl e \<Longrightarrow> \<exists>c. e = RowError c start"
proof (induction i u start cs rule: read_uvarint.induct)
  case (1 i u start cs)
  show ?case
  proof (cases "i < 8 \<and> cs \<noteq> []")
    case False
    with "1.prems" show ?thesis by (subst (asm) read_uvarint.simps) (auto split: if_splits)
  next
    case True
    then obtain c ds where cs: "cs = c # ds" by (cases cs) auto
    have "read_uvarint i u start cs = Inl e" by (rule "1.prems")
    then show ?thesis
      using "1.IH" [OF _ cs refl] True unfolding read_uvarint.simps [of i] cs
      by (auto simp: Let_def split: if_splits)
  qed
qed

lemmas item_readers = uvarint_def signed_varint_def read_length_def read_str_def item_int_def item_signed_def
  item_decimal_def item_float_def item_time_def item_bytes_def item_long_string_def item_compressed_def

lemma item_scalar_err: "item_scalar start tag cs = Inl e \<Longrightarrow> \<exists>c. e = RowError c start"
  unfolding item_scalar_def item_readers Let_def
  by (auto dest!: read_uvarint_err split: if_splits sum.splits list.splits option.splits)

lemma read_length_err: "read_length start cs = Inl e \<Longrightarrow> \<exists>c. e = RowError c start"
  unfolding item_readers by (auto dest!: read_uvarint_err split: if_splits sum.splits)

lemma item_scalar_rest: "item_scalar start tag cs = Inr (v, r) \<Longrightarrow> tag \<noteq> 255 \<Longrightarrow> length r \<le> length cs"
  using item_rest [of start tag cs v r] by (simp add: item_def)

lemma list_items_err:
  "list_items start n pos cs = Inl e \<Longrightarrow> start < pos \<Longrightarrow> err_within start (pos + length cs) e"
proof (induction start n pos cs arbitrary: e rule: list_items.induct)
  case (3 start n pos tag cs)
  show ?case
  proof (cases "tag = 255")
    case False
    show ?thesis
    proof (cases "item_scalar pos tag cs")
      case (Inl e')
      with "3.prems" False item_scalar_err [OF Inl] show ?thesis by (auto simp: err_within_def)
    next
      case (Inr p)
      obtain v rest where p: "p = (v, rest)" by (cases p)
      then have i: "item_scalar pos tag cs = Inr (v, rest)" using Inr by simp
      have "list_items start n (pos + (length (tag # cs) - length rest)) rest = Inl e"
        using "3.prems" False i by (auto split: sum.splits)
      from "3.IH" [OF False i refl this] "3.prems" item_scalar_rest [OF i False] show ?thesis
        by (auto simp: err_within_def)
    qed
  qed (use "3.prems" in \<open>auto simp: err_within_def\<close>)
qed (auto simp: err_within_def)

lemma item_err: "item start tag cs = Inl e \<Longrightarrow> err_within start (start + length (tag # cs)) e"
proof -
  assume a: "item start tag cs = Inl e"
  show ?thesis
  proof (cases "tag = 255")
    case False
    then show ?thesis using a item_scalar_err [of start tag cs e] by (auto simp: item_def err_within_def)
  next
    case True
    show ?thesis
    proof (cases "read_length start cs")
      case (Inl e')
      then show ?thesis using a True read_length_err [OF Inl] by (auto simp: item_def err_within_def)
    next
      case (Inr p)
      obtain n rest where p: "read_length start cs = Inr (n, rest)" using Inr by (cases p) auto
      then have "list_items start n (start + 1 + (length cs - length rest)) rest = Inl e"
        using a True by (auto simp: item_def split: sum.splits)
      from list_items_err [OF this] read_length_sound [OF p] show ?thesis by (auto simp: err_within_def)
    qed
  qed
qed

lemma decode_vals_err: "decode_vals pos cs = Inl e \<Longrightarrow> err_within pos (pos + length cs) e"
proof (induction pos cs arbitrary: e rule: decode_vals.induct)
  case (2 pos tag cs)
  show ?case
  proof (cases "item pos tag cs")
    case (Inl e')
    then show ?thesis using "2.prems" item_err [OF Inl] by auto
  next
    case (Inr p)
    then obtain v rest where i: "item pos tag cs = Inr (v, rest)" by (cases p) auto
    then have "decode_vals (pos + (length (tag # cs) - length rest)) rest = Inl e"
      using "2.prems" by (auto split: sum.splits)
    from "2.IH" [OF i refl this] item_rest [OF i] show ?thesis by (auto simp: err_within_def)
  qed
qed simp

section \<open>What the binary form promises\<close>

text \<open>C26. Encoding then decoding: whatever row of Go values \<open>Encode\<close> accepts, \<open>Decode\<close> of its bytes
  returns the same values as the package's own types (an \<open>int\<close> as \<open>int64\<close>, a \<open>time.Duration\<close> as
  \<open>row.Duration\<close>, nested lists included). \<open>sized\<close> asks lengths below 2^53 and times and durations
  \<open>int64\<close> can count in their unit.\<close>

theorem row_decode_encode:
  assumes "Encode items = Inr b" and "\<forall>g \<in> set items. sized g"
  shows "Decode b = Inr (map canon items)"
  using encode_from_sound [of items "[]" b] decode_vals_append assms
  by (auto simp: Encode_def Decode_def decodeVals_def)

theorem row_decode_encode_witness:
  "Decode [2, 104, 105, 246, 5, 255, 2, 245, 249, 1] =
    Inr (map canon [GString [104, 105], GInt (- 3), GList [GBool True, GDay (- 1)]])"
proof (rule row_decode_encode)
  show "Encode [GString [104, 105], GInt (- 3), GList [GBool True, GDay (- 1)]] =
      Inr [2, 104, 105, 246, 5, 255, 2, 245, 249, 1]"
    by code_simp
qed simp

text \<open>C13. One row has one encoding: a row of bytes that \<open>Decode\<close> accepts is exactly what \<open>Encode\<close>
  writes for the values it returned. Every other form of the same values, padded varints, a long tag
  on a short string, a stream another compressor would make, a string left uncompressed, is refused.\<close>

theorem row_encode_decode:
  assumes "Decode b = Inr items"
  shows "Encode items = Inr b"
proof -
  obtain vs where "decode_vals 0 b = Inr vs" and "items = map to_go vs"
    using assms by (auto simp: Decode_def decodeVals_def split: sum.splits)
  then show ?thesis using decode_vals_sound [of 0 b vs] encode_from_to_go [of vs "[]"]
    by (simp add: Encode_def)
qed

theorem row_encode_decode_witness:
  "Encode [GInt64 64, GNil, GTimeOfDay 200, GDecimal 5 2] = Inr [246, 128, 1, 243, 251, 200, 1, 247, 2, 10]"
  by (rule row_encode_decode) code_simp

text \<open>Every error \<open>Decode\<close> reports names an R code and an offset inside the bytes it was given.\<close>

theorem row_decode_error_offset:
  assumes "Decode b = Inl e"
  shows "\<exists>code off. e = RowError code off \<and> off < length b"
  using assms decode_vals_err [of 0 b e]
  by (auto simp: Decode_def decodeVals_def err_within_def split: sum.splits)

theorem row_decode_error_offset_witness: "\<exists>code off. Decode [243, 3, 104] = Inl (RowError code off) \<and> off < 3"
proof -
  have "Decode [243, 3, 104] = Inl (RowError R001 1)" by code_simp
  from row_decode_error_offset [OF this] this show ?thesis by simp
qed

text \<open>\<open>Encode\<close> of a time too far out for \<open>int64\<close> milliseconds does not always fail: the
  milliseconds wrap, and one that wraps into range is written as another instant.\<close>

theorem row_encode_time_wraps:
  "Encode [GTime 18446744073709552 0] = Encode [GTime 0 384000000]
    \<and> (\<exists>b. Encode [GTime 18446744073709552 0] = Inr b)"
proof -
  have "int64 18446744073709552000 = 384" "int64 384 = 384" by (simp_all add: int64_def)
  then show ?thesis by (simp add: Encode_def)
qed

end
