(* ===== verification/Civil.thy ===== *)
theory Civil
  imports Prelude "HOL-Library.Signed_Division"
begin

text \<open>
  The calendar of the \<open>row\<close> package (\<open>civil.go\<close>): days since 1970-01-01 and civil dates of the
  proleptic Gregorian calendar. Go's \<open>/\<close> is \<open>sdiv\<close>, which truncates; the code's dates are far inside
  \<open>int64\<close>, so its integers are HOL's. The reference is the calendar itself: the length of each month
  and the day that follows a day.
\<close>

section \<open>The algorithms\<close>

definition daysFromCivil :: "int \<Rightarrow> int \<Rightarrow> int \<Rightarrow> int" where
  "daysFromCivil y m d =
     (let y = (if m \<le> 2 then y - 1 else y);
          era = (if y < 0 then y - 399 else y) sdiv 400;
          yoe = y - era * 400;
          mp = (if 2 < m then m - 3 else m + 9);
          doy = (153 * mp + 2) sdiv 5 + d - 1;
          doe = yoe * 365 + yoe sdiv 4 - yoe sdiv 100 + doy
      in era * 146097 + doe - 719468)"

definition civilFromDays :: "int \<Rightarrow> int \<times> int \<times> int" where
  "civilFromDays z =
     (let z = z + 719468;
          era = (if z < 0 then z - 146096 else z) sdiv 146097;
          doe = z - era * 146097;
          yoe = (doe - doe sdiv 1460 + doe sdiv 36524 - doe sdiv 146096) sdiv 365;
          y = yoe + era * 400;
          doy = doe - (365 * yoe + yoe sdiv 4 - yoe sdiv 100);
          mp = (5 * doy + 2) sdiv 153;
          d = doy - (153 * mp + 2) sdiv 5 + 1;
          m = (if 10 \<le> mp then mp - 9 else mp + 3)
      in (if m \<le> 2 then y + 1 else y, m, d))"

definition daysIn :: "int \<Rightarrow> int \<Rightarrow> int" where
  "daysIn y m =
     (if m = 2
      then if y smod 4 = 0 \<and> (y smod 100 \<noteq> 0 \<or> y smod 400 = 0) then 29 else 28
      else if m = 4 \<or> m = 6 \<or> m = 9 \<or> m = 11 then 30 else 31)"

definition validCivil :: "int \<Rightarrow> int \<Rightarrow> int \<Rightarrow> bool" where
  "validCivil y m d \<longleftrightarrow>
     (if y < 1 \<or> 9999 < y \<or> m < 1 \<or> 12 < m \<or> d < 1 then False else d \<le> daysIn y m)"

section \<open>The calendar\<close>

text \<open>A date of any year, and the day after it.\<close>

definition civil_date :: "int \<Rightarrow> int \<Rightarrow> int \<Rightarrow> bool" where
  "civil_date y m d \<longleftrightarrow> 1 \<le> m \<and> m \<le> 12 \<and> 1 \<le> d \<and> d \<le> daysIn y m"

definition next_day :: "int \<times> int \<times> int \<Rightarrow> int \<times> int \<times> int" where
  "next_day c = (case c of (y, m, d) \<Rightarrow>
     if d < daysIn y m then (y, m, d + 1) else if m < 12 then (y, m + 1, 1) else (y + 1, 1, 1))"

section \<open>Floor divisions\<close>

lemma sdiv_nonneg: "0 \<le> (a :: int) \<Longrightarrow> 0 < b \<Longrightarrow> a sdiv b = a div b"
  by (simp add: signed_divide_int_def sgn_if)

lemma sdiv_floor:
  assumes "0 < (b :: int)"
  shows "(if a < 0 then a - (b - 1) else a) sdiv b = a div b"
proof (cases "a < 0")
  case False
  then show ?thesis using assms by (simp add: sdiv_nonneg)
next
  case True
  define q r where "q = a div b" and "r = a mod b"
  have a: "a = b * q + r" and r: "0 \<le> r" "r < b" using assms by (simp_all add: q_def r_def)
  have "(b - 1 - a) div b = - q"
  proof -
    have "b - 1 - a = (b - 1 - r) + b * (- q)" using a by (simp add: algebra_simps)
    moreover have "(b - 1 - r) div b = 0" using r by (intro div_pos_pos_trivial) simp_all
    ultimately show ?thesis using assms by (metis add.left_neutral div_mult_self2 less_irrefl add.commute)
  qed
  moreover have "sgn (a - (b - 1)) = - 1" "\<bar>a - (b - 1)\<bar> = b - 1 - a" using True assms by simp_all
  ultimately show ?thesis using True assms by (simp add: signed_divide_int_def q_def)
qed

lemma era_floor:
  "(if (a :: int) < 0 then a - 399 else a) sdiv 400 = a div 400"
  "(if (a :: int) < 0 then a - 146096 else a) sdiv 146097 = a div 146097"
  using sdiv_floor [of 400 a] sdiv_floor [of 146097 a] by (simp_all split: if_splits)

lemma smod_zero: "0 < b \<Longrightarrow> (a :: int) smod b = 0 \<longleftrightarrow> a mod b = 0"
  by (simp add: signed_modulo_int_def signed_divide_int_def sgn_if abs_if mod_eq_0_iff_dvd
      split: if_splits)

lemma int_div_eqI: "b * q \<le> (a :: int) \<Longrightarrow> a < b * q + b \<Longrightarrow> a div b = q"
proof -
  assume a: "b * q \<le> a" "a < b * q + b"
  have "a div b = (b * q + (a - b * q)) div b" by simp
  also have "\<dots> = q + (a - b * q) div b" using a by (subst div_mult_self4) auto
  also have "(a - b * q) div b = 0" using a by (intro div_pos_pos_trivial) simp_all
  finally show ?thesis by simp
qed

lemma div_shift:
  "((x :: int) + e * 400) div 4 = x div 4 + e * 100"
  "((x :: int) + e * 400) div 100 = x div 100 + e * 4"
  "((x :: int) + e * 400) div 400 = x div 400 + e"
  using div_mult_self1 [of 4 x "e * 100"] div_mult_self1 [of 100 x "e * 4"] by simp_all

section \<open>Days before a year and a month\<close>

text \<open>
  The years of the algorithms start in March: \<open>year_days Y\<close> days come before the March of year \<open>Y\<close>,
  \<open>month_days mp\<close> of the year before its month \<open>mp\<close>.
\<close>

definition year_days :: "int \<Rightarrow> int" where
  "year_days Y = 365 * Y + Y div 4 - Y div 100 + Y div 400"

definition month_days :: "int \<Rightarrow> int" where
  "month_days mp = (153 * mp + 2) div 5"

definition march_year :: "int \<Rightarrow> int \<Rightarrow> int" where
  "march_year y m = (if m \<le> 2 then y - 1 else y)"

definition march_month :: "int \<Rightarrow> int" where
  "march_month m = (if 2 < m then m - 3 else m + 9)"

lemma year_days_era: "0 \<le> yoe \<Longrightarrow> yoe < 400 \<Longrightarrow>
    year_days (yoe + e * 400) = e * 146097 + (yoe * 365 + yoe div 4 - yoe div 100)"
proof -
  assume y: "0 \<le> yoe" "yoe < 400"
  then have "(yoe + e * 400) div 400 = e" by (intro int_div_eqI) simp_all
  then show ?thesis by (simp add: year_days_def div_shift)
qed

lemma year_days_split:
  "year_days Y = Y div 400 * 146097 + (Y mod 400 * 365 + Y mod 400 div 4 - Y mod 400 div 100)"
proof -
  have "Y mod 400 + Y div 400 * 400 = Y" by simp
  then show ?thesis using year_days_era [of "Y mod 400" "Y div 400"] by simp
qed

lemma daysFromCivil_eq:
  assumes "1 \<le> m"
  shows "daysFromCivil y m d = year_days (march_year y m) + month_days (march_month m) + d - 719469"
proof -
  define Y where "Y = march_year y m"
  have yoe: "Y - Y div 400 * 400 = Y mod 400" by (simp add: minus_div_mult_eq_mod)
  have "0 \<le> march_month m" using assms by (simp add: march_month_def)
  then have "(153 * march_month m + 2) sdiv 5 = month_days (march_month m)"
    by (simp add: month_days_def sdiv_nonneg)
  moreover have "daysFromCivil y m d = Y div 400 * 146097 + (Y mod 400 * 365 + Y mod 400 sdiv 4 -
      Y mod 400 sdiv 100 + ((153 * march_month m + 2) sdiv 5 + d - 1)) - 719468"
    unfolding daysFromCivil_def Let_def march_year_def [symmetric] march_month_def [symmetric]
      Y_def [symmetric] era_floor yoe ..
  ultimately show ?thesis
    by (simp add: year_days_split [of Y] sdiv_nonneg flip: Y_def)
qed

section \<open>The year of a day of an era\<close>

definition doe_year :: "int \<Rightarrow> int" where
  "doe_year doe = (doe - doe div 1460 + doe div 36524 - doe div 146096) div 365"

text \<open>A year of an era as its century \<open>c\<close>, its four-year cycle \<open>q\<close> and its year \<open>r\<close> of the cycle.\<close>

lemma year_days_parts:
  assumes "0 \<le> c" "c \<le> 3" "0 \<le> q" "q \<le> 24" "0 \<le> r" "r \<le> 3"
  shows "year_days (100 * c + 4 * q + r) = 36524 * c + 1461 * q + 365 * r"
proof -
  have "(100 * c + 4 * q + r) div 4 = 25 * c + q" "(100 * c + 4 * q + r) div 100 = c"
    "(100 * c + 4 * q + r) div 400 = 0"
    using assms by (intro int_div_eqI; simp)+
  then show ?thesis by (simp add: year_days_def)
qed

lemma doe_year_parts:
  assumes "0 \<le> c" "c \<le> 3" "0 \<le> q" "q \<le> 24" "0 \<le> r" "r \<le> 3" "0 \<le> k"
    and "k \<le> 364 \<or> k = 365 \<and> r = 3 \<and> (q < 24 \<or> c = 3)"
  shows "doe_year (36524 * c + 1461 * q + 365 * r + k) = 100 * c + 4 * q + r"
proof -
  define doe where "doe = 36524 * c + 1461 * q + 365 * r + k"
  define res where "res = 24 * c + q + 365 * r + k"
  have doe: "doe = 1460 * (25 * c + q) + res" by (simp add: doe_def res_def)
  have d1: "doe div 1460 = 25 * c + q + (if res < 1460 then 0 else 1)"
    using assms by (intro int_div_eqI) (auto simp: doe res_def)
  have "doe < 146096" if "\<not> (c = 3 \<and> q = 24 \<and> k = 365)"
  proof -
    have "c \<le> 2 \<or> q \<le> 23 \<or> k \<le> 364" using that assms by auto
    then show ?thesis using assms unfolding doe_def by (elim disjE conjE; linarith)
  qed
  moreover have "doe = 146096" if "c = 3 \<and> q = 24 \<and> k = 365" using that assms by (auto simp: doe_def)
  moreover have "0 \<le> doe" using assms by (simp add: doe_def)
  ultimately have d3: "doe div 146096 = (if c = 3 \<and> q = 24 \<and> k = 365 then 1 else 0)"
    by (intro int_div_eqI) auto
  have d2: "doe div 36524 = c + (if c = 3 \<and> q = 24 \<and> k = 365 then 1 else 0)"
    using assms by (intro int_div_eqI) (auto simp: doe_def)
  have "doe - doe div 1460 + doe div 36524 - doe div 146096 = 365 * (100 * c + 4 * q + r) + (k - (if res < 1460 then 0 else 1))"
    unfolding d1 d2 d3 by (simp add: doe_def)
  moreover have "(365 * (100 * c + 4 * q + r) + (k - (if res < 1460 then 0 else 1))) div 365 = 100 * c + 4 * q + r"
    using assms by (intro int_div_eqI) (auto simp: res_def)
  ultimately show ?thesis by (simp only: doe_year_def flip: doe_def)
qed

definition leap :: "int \<Rightarrow> bool" where
  "leap y \<longleftrightarrow> y mod 4 = 0 \<and> (y mod 100 \<noteq> 0 \<or> y mod 400 = 0)"

lemma daysIn_february: "daysIn y 2 = (if leap y then 29 else 28)"
  by (simp add: daysIn_def leap_def smod_zero)

lemma div_next: "0 < n \<Longrightarrow> ((Y :: int) + 1) div n = Y div n + (if (Y + 1) mod n = 0 then 1 else 0)"
proof -
  assume n: "0 < n"
  define q r where "q = (Y + 1) div n" and "r = (Y + 1) mod n"
  have e: "Y + 1 = n * q + r" and r: "0 \<le> r" "r < n" using n by (simp_all add: q_def r_def)
  have "Y div n = q - (if r = 0 then 1 else 0)"
    using e r n by (intro int_div_eqI) (auto simp: algebra_simps)
  then show ?thesis by (simp add: q_def r_def)
qed

lemma dvd_4_100: "(4 :: int) dvd 100" "(100 :: int) dvd 400"
  by simp_all

lemma year_length: "year_days (Y + 1) = year_days Y + (if leap (Y + 1) then 366 else 365)"
proof -
  have "(Y + 1) mod 100 = 0 \<Longrightarrow> (Y + 1) mod 4 = 0"
    using dvd_trans [of 4 100 "Y + 1"] unfolding mod_eq_0_iff_dvd by (simp only: dvd_4_100)
  moreover have "(Y + 1) mod 400 = 0 \<Longrightarrow> (Y + 1) mod 100 = 0"
    using dvd_trans [of 100 400 "Y + 1"] unfolding mod_eq_0_iff_dvd by (simp only: dvd_4_100)
  ultimately show ?thesis
    unfolding year_days_def leap_def div_next [of 4 Y, simplified] div_next [of 100 Y, simplified]
      div_next [of 400 Y, simplified]
    by (cases "(Y + 1) mod 4 = 0"; cases "(Y + 1) mod 100 = 0"; cases "(Y + 1) mod 400 = 0") simp_all
qed

lemma year_split: "\<exists>c q r. (Y :: int) = 100 * c + 4 * q + r \<and> 0 \<le> q \<and> q \<le> 24 \<and> 0 \<le> r \<and> r \<le> 3 \<and> c = Y div 100"
proof -
  define c m q r where "c = Y div 100" and "m = Y mod 100" and "q = m div 4" and "r = m mod 4"
  have "Y = 100 * c + m" by (simp add: c_def m_def)
  moreover have "m = 4 * q + r" by (simp add: q_def r_def)
  moreover have "0 \<le> m" "m < 100" "0 \<le> r" "r < 4" by (simp_all add: m_def r_def)
  ultimately have e: "Y = 100 * c + 4 * q + r" and b: "0 \<le> q" "q \<le> 24" "0 \<le> r" "r \<le> 3"
    by linarith+
  show ?thesis by (rule exI [of _ c], rule exI [of _ q], rule exI [of _ r]) (intro conjI e b c_def)
qed

lemma leap_last:
  assumes "leap (100 * c + 4 * q + r + 1)" and "0 \<le> c" "c \<le> 3" "q \<le> 24" "0 \<le> r" "r \<le> 3"
  shows "r = 3 \<and> (q < 24 \<or> c = 3)"
proof -
  have "100 * c + 4 * q + r + 1 = (r + 1) + (25 * c + q) * 4" by simp
  moreover have "((r + 1) + (25 * c + q) * 4) mod 4 = (r + 1) mod 4" by (rule mod_mult_self1)
  ultimately have "(r + 1) mod 4 = 0" using assms(1) by (simp only: leap_def)
  moreover have "r + 1 = 4 \<or> (r + 1) mod 4 = r + 1"
    using assms(5,6) by (cases "r = 3") (simp_all add: mod_pos_pos_trivial)
  ultimately have r: "r = 3" using assms(5) by linarith
  have "q < 24 \<or> c = 3"
  proof (rule ccontr)
    assume n: "\<not> (q < 24 \<or> c = 3)"
    then have "q = 24" "c = 0 \<or> c = 1 \<or> c = 2" using assms by arith+
    then show False using assms(1) r by (elim disjE) (simp_all add: leap_def)
  qed
  with r show ?thesis by simp
qed

lemma doe_year_unique:
  assumes Y: "0 \<le> Y" "Y < 400" and d: "year_days Y \<le> doe" "doe < year_days (Y + 1)"
  shows "doe_year doe = Y"
proof -
  obtain c q r where p: "Y = 100 * c + 4 * q + r" "0 \<le> q" "q \<le> 24" "0 \<le> r" "r \<le> 3" "c = Y div 100"
    using year_split by blast
  have "0 \<le> Y div 100" using Y(1) by simp
  moreover have "Y div 100 \<le> 3" using zdiv_mono1 [of Y 399 100] Y(2) by simp
  ultimately have c: "0 \<le> c" "c \<le> 3" unfolding p(6) by linarith+
  define k where "k = doe - year_days Y"
  have "0 \<le> k" using d(1) by (simp add: k_def)
  moreover have "k < 366" "leap (Y + 1) \<or> k < 365" using d(2) year_length [of Y] by (auto simp: k_def split: if_splits)
  moreover have "leap (Y + 1) \<Longrightarrow> r = 3 \<and> (q < 24 \<or> c = 3)"
    using leap_last [OF _ c p(3-5)] unfolding p(1) .
  ultimately have "doe_year (36524 * c + 1461 * q + 365 * r + k) = 100 * c + 4 * q + r"
    using c p(2-5) by (intro doe_year_parts) linarith+
  moreover have "doe = 36524 * c + 1461 * q + 365 * r + k"
    using year_days_parts [OF c p(2-5)] p(1) by (simp add: k_def)
  ultimately show ?thesis by (simp only: p(1) [symmetric])
qed

lemma year_exists: "0 \<le> doe \<Longrightarrow> doe < year_days (int n) \<Longrightarrow>
    \<exists>Y. 0 \<le> Y \<and> Y < int n \<and> year_days Y \<le> doe \<and> doe < year_days (Y + 1)"
proof (induction n)
  case (Suc n)
  show ?case
  proof (cases "doe < year_days (int n)")
    case True
    with Suc obtain Y where "0 \<le> Y" "Y < int n" "year_days Y \<le> doe" "doe < year_days (Y + 1)" by auto
    then show ?thesis by (intro exI [of _ Y]) simp
  next
    case False
    then show ?thesis using Suc.prems by (intro exI [of _ "int n"]) (simp add: add.commute)
  qed
qed (simp add: year_days_def)

lemma day_year:
  "\<exists>Y. year_days Y \<le> z \<and> z < year_days (Y + 1)"
proof -
  have "z mod 146097 < year_days (int 400)" by (simp add: year_days_def)
  then obtain Y where Y: "0 \<le> Y" "Y < 400" "year_days Y \<le> z mod 146097" "z mod 146097 < year_days (Y + 1)"
    using year_exists [of "z mod 146097" 400] by auto
  have s: "year_days (Y + k + z div 146097 * 400) = z div 146097 * 146097 + year_days (Y + k)" for k
  proof -
    show ?thesis by (simp add: year_days_def div_shift)
  qed
  define e where "e = z div 146097"
  have "z = e * 146097 + z mod 146097" by (simp add: e_def)
  moreover have "year_days (Y + e * 400) = e * 146097 + year_days Y"
    "year_days (Y + e * 400 + 1) = e * 146097 + year_days (Y + 1)"
    using s [of 0] s [of 1] unfolding e_def [symmetric] by (simp_all add: algebra_simps)
  ultimately show ?thesis using Y(3,4) by (intro exI [of _ "Y + e * 400"]) linarith
qed

lemma year_days_mono: "a \<le> b \<Longrightarrow> year_days a \<le> year_days b"
proof (induction b rule: int_ge_induct)
  case (step i)
  then show ?case using year_length [of i] by (auto split: if_splits)
qed simp

lemma year_days_ends: "year_days 0 = 0" "year_days 400 = 146097"
  by (simp_all add: year_days_def)

lemma year_days_shift: "year_days (Y + e * 400) = e * 146097 + year_days Y"
  by (simp add: year_days_def div_shift)

lemma month_unique:
  "month_days mp \<le> doy \<Longrightarrow> doy < month_days (mp + 1) \<Longrightarrow> (5 * doy + 2) div 153 = mp"
proof -
  assume a: "month_days mp \<le> doy" "doy < month_days (mp + 1)"
  have "5 * month_days (mp + 1) \<le> 153 * (mp + 1) + 2" "153 * mp + 2 < 5 * month_days mp + 5"
    unfolding month_days_def by linarith+
  then show ?thesis using a by (intro int_div_eqI) simp_all
qed

lemma month_exists: "0 \<le> doy \<Longrightarrow> doy < 367 \<Longrightarrow>
    \<exists>mp. 0 \<le> mp \<and> mp \<le> 11 \<and> month_days mp \<le> doy \<and> doy < month_days (mp + 1)"
  by (rule exI [of _ "(5 * doy + 2) div 153"]) (simp add: month_days_def; linarith)

lemma civilFromDays_eq:
  assumes Y: "year_days Y \<le> z + 719468" "z + 719468 < year_days (Y + 1)"
    and mp: "0 \<le> mp" "mp \<le> 11" "month_days mp \<le> z + 719468 - year_days Y"
      "z + 719468 - year_days Y < month_days (mp + 1)"
  shows "civilFromDays z =
    (if 10 \<le> mp then Y + 1 else Y, if 10 \<le> mp then mp - 9 else mp + 3, z + 719468 - year_days Y - month_days mp + 1)"
proof -
  define e yoe doe where "e = Y div 400" and "yoe = Y mod 400" and "doe = z + 719468 - e * 146097"
  have Ye: "Y = yoe + e * 400" and yoe: "0 \<le> yoe" "yoe < 400" by (simp_all add: e_def yoe_def)
  have dy: "year_days yoe \<le> doe" "doe < year_days (yoe + 1)"
    using Y year_days_shift [of yoe e] year_days_shift [of "yoe + 1" e]
    by (simp_all add: doe_def Ye algebra_simps)
  have doe: "0 \<le> doe" "doe < 146097"
    using dy year_days_mono [OF yoe(1)] year_days_mono [of "yoe + 1" 400] yoe(2) year_days_ends by linarith+
  have era: "(z + 719468) div 146097 = e" using doe by (intro int_div_eqI) (simp_all add: doe_def)
  have "doe_year doe = yoe" using doe_year_unique [OF yoe dy] .
  moreover have "0 \<le> doe - doe div 1460 + doe div 36524 - doe div 146096"
  proof -
    have "doe div 1460 \<le> doe" "0 \<le> doe div 36524 - doe div 146096"
      using doe zdiv_mono2 [of doe 36524 146096] zdiv_mono2 [of doe 1 1460] by simp_all
    then show ?thesis by simp
  qed
  ultimately have year: "(doe - doe sdiv 1460 + doe sdiv 36524 - doe sdiv 146096) sdiv 365 = yoe"
    using doe by (simp add: sdiv_nonneg doe_year_def)
  have doy: "doe - (365 * yoe + yoe sdiv 4 - yoe sdiv 100) = z + 719468 - year_days Y"
    using yoe year_days_shift [of yoe e] by (simp add: sdiv_nonneg year_days_def [of yoe] Ye doe_def)
  have "0 \<le> month_days mp" using mp(1) by (simp add: month_days_def)
  then have "(5 * (z + 719468 - year_days Y) + 2) sdiv 153 = mp"
    using mp month_unique [OF mp(3,4)] by (subst sdiv_nonneg) simp_all
  moreover have "(153 * mp + 2) sdiv 5 = month_days mp" using mp(1) by (simp add: sdiv_nonneg month_days_def)
  ultimately show ?thesis
    unfolding civilFromDays_def Let_def era_floor era doe_def [symmetric] year doy
    using mp(1,2) by (simp add: Ye del: diff_diff_eq)
qed

lemma civil_day_of_year:
  assumes "civil_date y m d"
  shows "0 \<le> march_month m" "march_month m \<le> 11" "d - 1 < month_days (march_month m + 1) - month_days (march_month m)"
    "month_days (march_month m) + d - 1 < year_days (march_year y m + 1) - year_days (march_year y m)"
proof -
  have d: "1 \<le> d" "d \<le> daysIn y m" and m: "1 \<le> m" "m \<le> 12" using assms by (simp_all add: civil_date_def)
  have "m = 1 \<or> m = 2 \<or> m = 3 \<or> m = 4 \<or> m = 5 \<or> m = 6 \<or> m = 7 \<or> m = 8 \<or> m = 9 \<or> m = 10 \<or> m = 11 \<or> m = 12"
    using m by arith
  then show "0 \<le> march_month m" "march_month m \<le> 11"
    "d - 1 < month_days (march_month m + 1) - month_days (march_month m)"
    "month_days (march_month m) + d - 1 < year_days (march_year y m + 1) - year_days (march_year y m)"
    using d year_length [of y] year_length [of "y - 1"] daysIn_february [of y]
    by (elim disjE; simp add: march_month_def march_year_def month_days_def daysIn_def split: if_splits)+
qed

lemma civilFromDays_daysFromCivil: "civil_date y m d \<Longrightarrow> civilFromDays (daysFromCivil y m d) = (y, m, d)"
proof -
  assume c: "civil_date y m d"
  then have m: "1 \<le> m" "m \<le> 12" "1 \<le> d" by (simp_all add: civil_date_def)
  define Y mp where "Y = march_year y m" and "mp = march_month m"
  note b = civil_day_of_year [OF c, folded Y_def mp_def]
  have n: "daysFromCivil y m d + 719468 = year_days Y + (month_days mp + d - 1)"
    using daysFromCivil_eq [OF m(1)] by (simp add: Y_def mp_def)
  have "0 \<le> month_days mp" using b(1) by (simp add: month_days_def)
  then have "civilFromDays (daysFromCivil y m d) =
      (if 10 \<le> mp then Y + 1 else Y, if 10 \<le> mp then mp - 9 else mp + 3, d)"
    using civilFromDays_eq [of Y "daysFromCivil y m d" mp] b m(3) unfolding n by simp
  then show ?thesis using m by (auto simp: Y_def mp_def march_year_def march_month_def)
qed

lemma civilFromDays_date: "\<exists>y m d. civilFromDays z = (y, m, d) \<and> civil_date y m d \<and> daysFromCivil y m d = z"
proof -
  obtain Y where Y: "year_days Y \<le> z + 719468" "z + 719468 < year_days (Y + 1)" using day_year by blast
  define doy where "doy = z + 719468 - year_days Y"
  have "0 \<le> doy" "doy < 367" using Y year_length [of Y] by (auto simp: doy_def split: if_splits)
  then obtain mp where mp: "0 \<le> mp" "mp \<le> 11" "month_days mp \<le> doy" "doy < month_days (mp + 1)"
    using month_exists by blast
  define y m d where "y = (if 10 \<le> mp then Y + 1 else Y)" and "m = (if 10 \<le> mp then mp - 9 else mp + 3)"
    and "d = doy - month_days mp + 1"
  have c: "civilFromDays z = (y, m, d)"
    using civilFromDays_eq [OF Y mp(1,2)] mp(3,4) by (simp add: doy_def y_def m_def d_def)
  have m: "1 \<le> m" "m \<le> 12" and mm: "march_month m = mp" "march_year y m = Y"
    using mp(1,2) by (auto simp: m_def y_def march_month_def march_year_def)
  have "daysFromCivil y m d = z" using daysFromCivil_eq [OF m(1), of y d] by (simp add: mm d_def doy_def)
  moreover have "d \<le> daysIn y m"
  proof -
    have "mp = 0 \<or> mp = 1 \<or> mp = 2 \<or> mp = 3 \<or> mp = 4 \<or> mp = 5 \<or> mp = 6 \<or> mp = 7 \<or> mp = 8 \<or> mp = 9 \<or> mp = 10 \<or> mp = 11"
      using mp(1,2) by arith
    then show ?thesis using mp(3,4) Y year_length [of Y] daysIn_february [of y]
      by (elim disjE) (simp_all add: d_def m_def y_def month_days_def daysIn_def doy_def split: if_splits)
  qed
  ultimately show ?thesis using c m mp(3) by (auto simp: civil_date_def d_def)
qed

text \<open>The days of the years 1 to 9999.\<close>

lemma year_in_range:
  assumes "- 719162 \<le> daysFromCivil y m d" and "daysFromCivil y m d \<le> 2932896" and "civil_date y m d"
  shows "1 \<le> y \<and> y \<le> 9999"
proof -
  define Y mp where "Y = march_year y m" and "mp = march_month m"
  note b = civil_day_of_year [OF assms(3), folded Y_def mp_def]
  have m: "1 \<le> m" "m \<le> 12" "1 \<le> d" using assms(3) by (simp_all add: civil_date_def)
  have n: "daysFromCivil y m d = year_days Y + month_days mp + d - 719469"
    using daysFromCivil_eq [OF m(1)] by (simp add: Y_def mp_def)
  have yc: "year_days 9999 = 3652059" "year_days 10000 = 3652425" by (simp_all add: year_days_def)
  have mp0: "0 \<le> month_days mp" "10 \<le> mp \<Longrightarrow> 306 \<le> month_days mp" "mp \<le> 9 \<Longrightarrow> month_days (mp + 1) \<le> 306"
    using b(1) by (simp_all add: month_days_def)
  have "1 \<le> y"
  proof (rule ccontr)
    assume "\<not> 1 \<le> y"
    then have "Y = 0 \<and> mp \<le> 9 \<or> Y \<le> - 1" using m by (auto simp: Y_def mp_def march_year_def march_month_def)
    then show False
    proof
      assume "Y = 0 \<and> mp \<le> 9"
      then show False using assms(1) mp0(3) b(3) year_days_ends(1) unfolding n by simp
    next
      assume "Y \<le> - 1"
      then show False using assms(1) b(4) year_days_mono [of "Y + 1" 0] year_days_ends(1) unfolding n by simp
    qed
  qed
  moreover have "y \<le> 9999"
  proof (rule ccontr)
    assume "\<not> y \<le> 9999"
    then have "Y = 9999 \<and> 10 \<le> mp \<or> 10000 \<le> Y" using m by (auto simp: Y_def mp_def march_year_def march_month_def)
    then show False
    proof
      assume "Y = 9999 \<and> 10 \<le> mp"
      then show False using assms(2) mp0(2) m(3) yc(1) unfolding n by simp
    next
      assume "10000 \<le> Y"
      then show False using assms(2) mp0(1) m(3) year_days_mono [of 10000 Y] yc(2) unfolding n by simp
    qed
  qed
  ultimately show ?thesis by simp
qed

lemma next_day_days:
  assumes "civil_date y m d"
  shows "\<exists>y' m' d'. next_day (y, m, d) = (y', m', d') \<and> civil_date y' m' d' \<and>
    daysFromCivil y' m' d' = daysFromCivil y m d + 1"
proof -
  have m: "1 \<le> m" "m \<le> 12" and d: "1 \<le> d" "d \<le> daysIn y m" using assms by (simp_all add: civil_date_def)
  have pos: "1 \<le> daysIn y' m'" for y' m' by (simp add: daysIn_def)
  have "m = 1 \<or> m = 2 \<or> m = 3 \<or> m = 4 \<or> m = 5 \<or> m = 6 \<or> m = 7 \<or> m = 8 \<or> m = 9 \<or> m = 10 \<or> m = 11 \<or> m = 12"
    using m by arith
  then have "d = daysIn y m \<Longrightarrow> m < 12 \<Longrightarrow> daysFromCivil y (m + 1) 1 = daysFromCivil y m d + 1"
    "d = daysIn y m \<Longrightarrow> m = 12 \<Longrightarrow> daysFromCivil (y + 1) 1 1 = daysFromCivil y m d + 1"
    using year_length [of "y - 1"] daysIn_february [of y]
    by (elim disjE; simp add: daysFromCivil_eq march_month_def march_year_def month_days_def daysIn_def split: if_splits)+
  moreover have "daysFromCivil y m (d + 1) = daysFromCivil y m d + 1" using daysFromCivil_eq [OF m(1)] by simp
  ultimately show ?thesis using m d pos by (auto simp: next_day_def civil_date_def)
qed

section \<open>The calendar the code computes\<close>

text \<open>C29. The day numbers are exactly the calendar: day 0 is 1970-01-01, every day number is the day
  number of the date the code gives it, which is a real date of its month, and the next day number is
  the next day of the calendar, across the ends of months, leap days, centuries and eras, before and
  after 1970.\<close>

theorem civil_calendar:
  "civilFromDays 0 = (1970, 1, 1)
    \<and> (case civilFromDays z of (y, m, d) \<Rightarrow> civil_date y m d \<and> daysFromCivil y m d = z)
    \<and> civilFromDays (z + 1) = next_day (civilFromDays z)"
proof -
  obtain y m d where c: "civilFromDays z = (y, m, d)" "civil_date y m d" "daysFromCivil y m d = z"
    using civilFromDays_date by blast
  obtain y' m' d' where n: "next_day (y, m, d) = (y', m', d')" "civil_date y' m' d'"
    "daysFromCivil y' m' d' = daysFromCivil y m d + 1"
    using next_day_days [OF c(2)] by blast
  have "civilFromDays (z + 1) = (y', m', d')"
    using civilFromDays_daysFromCivil [OF n(2)] n(3) c(3) by simp
  moreover have "civilFromDays 0 = (1970, 1, 1)" by code_simp
  ultimately show ?thesis using c n(1) by simp
qed

text \<open>A date that \<open>validCivil\<close> accepts comes back from its day number, and the day number lies
  from \<open>minDay\<close> to \<open>maxDay\<close>: what the check lets through is written as the day it names and passes
  the encoder's range.\<close>

theorem valid_civil_days:
  assumes "validCivil y m d"
  shows "civilFromDays (daysFromCivil y m d) = (y, m, d)
    \<and> - 719162 \<le> daysFromCivil y m d \<and> daysFromCivil y m d \<le> 2932896"
proof -
  have v: "1 \<le> y" "y \<le> 9999" "civil_date y m d"
    using assms by (auto simp: validCivil_def civil_date_def split: if_splits)
  define Y mp where "Y = march_year y m" and "mp = march_month m"
  note b = civil_day_of_year [OF v(3), folded Y_def mp_def]
  have m: "1 \<le> m" "m \<le> 12" "1 \<le> d" using v(3) by (simp_all add: civil_date_def)
  have n: "daysFromCivil y m d = year_days Y + month_days mp + d - 719469"
    using daysFromCivil_eq [OF m(1)] by (simp add: Y_def mp_def)
  have lo: "Y = 0 \<and> 10 \<le> mp \<or> 1 \<le> Y" and hi: "Y = 9999 \<and> mp \<le> 9 \<or> Y \<le> 9998"
    using v m by (auto simp: Y_def mp_def march_year_def march_month_def)
  have y1: "year_days 1 = 365" "year_days 9999 = 3652059" "year_days (9998 + 1) = 3652059"
    by (simp_all add: year_days_def)
  have mp0: "0 \<le> month_days mp" "10 \<le> mp \<Longrightarrow> 306 \<le> month_days mp" "mp \<le> 9 \<Longrightarrow> month_days (mp + 1) \<le> 306"
    using b(1) by (simp_all add: month_days_def)
  have "- 719162 \<le> daysFromCivil y m d"
    using lo y1(1) mp0(1,2) m(3) year_days_ends(1) year_days_mono [of 1 Y] unfolding n by auto
  moreover have "daysFromCivil y m d \<le> 2932896"
    using hi
  proof
    assume "Y = 9999 \<and> mp \<le> 9"
    then show ?thesis using y1(2) mp0(3) b(3) unfolding n by simp
  next
    assume "Y \<le> 9998"
    then show ?thesis using y1(3) year_days_mono [of "Y + 1" "9998 + 1"] b(4) unfolding n by simp
  qed
  ultimately show ?thesis using civilFromDays_daysFromCivil [OF v(3)] by simp
qed

theorem valid_civil_days_witness:
  "civilFromDays (daysFromCivil 2024 2 29) = (2024, 2, 29) \<and> daysFromCivil 2024 2 29 \<le> 2932896"
proof -
  have "validCivil 2024 2 29" by code_simp
  then show ?thesis using valid_civil_days by blast
qed

end
