(* ===== verification/Vault.thy ===== *)
theory Vault
  imports Ascon Golib
begin

text \<open>
  The \<open>kv/vault\<close> package: keys and their derivation (\<open>keys.go\<close>), nonces (\<open>nonce.go\<close>), entries in the
  clear and sealed (\<open>entry.go\<close>), the canonical order and the whole-set hash (\<open>setsync.go\<close>). A fixed
  Go array is the list of its bytes, whose length the \<open>_ok\<close> predicates state. \<open>crypto/rand\<close> and the
  clock are arguments: the random bytes drawn, \<open>None\<close> when the read fails, and the nanoseconds.
\<close>

section \<open>Keys\<close>

datatype vault_error =
    ErrEntryShort
  | ErrEntryCorrupt
  | ErrEntryTooLarge
  | ErrKeyTooLong
  | ErrValueTooLong
  | ErrPlaintextBad
  | ErrEmptyKey
  | ErrRand
  | ErrBadVaultID
  | ErrAEAD aead_error

definition ascii :: "string \<Rightarrow> bytes" where
  "ascii s = map of_char s"

definition domAEAD :: bytes where "domAEAD = ascii ''kv-aead''"
definition domVID :: bytes where "domVID = ascii ''kv-vid''"
definition domAuth :: bytes where "domAuth = ascii ''kv-auth''"
definition domC2S :: bytes where "domC2S = ascii ''kv-c2s''"
definition domS2C :: bytes where "domS2C = ascii ''kv-s2c''"
definition domReg :: bytes where "domReg = ascii ''kv-reg''"
definition domEID :: bytes where "domEID = ascii ''kv-eid''"
definition domSet :: bytes where "domSet = ascii ''kv-set''"
definition domFN :: bytes where "domFN = ascii ''kv-fnon''"
definition domEN :: bytes where "domEN = ascii ''kv-enon''"

lemmas doms = domAEAD_def domVID_def domAuth_def domC2S_def domS2C_def domReg_def domEID_def
  domSet_def domFN_def domEN_def

text \<open>
  \<open>CXOF\<close> into a 16-byte array. The labels are fixed and short, so the panic of \<open>CXOF\<close> on a long
  one (\<open>None\<close>) is not reached: \<open>derive16_label\<close>.
\<close>

definition derive16 :: "bytes \<Rightarrow> bytes \<Rightarrow> bytes" where
  "derive16 label material = (case CXOF label material 16 of None \<Rightarrow> [] | Some out \<Rightarrow> out)"

definition DeriveAEADKey :: "bytes \<Rightarrow> bytes" where "DeriveAEADKey rk = derive16 domAEAD rk"
definition DeriveVaultID :: "bytes \<Rightarrow> bytes" where "DeriveVaultID rk = derive16 domVID rk"
definition DeriveAuthKey :: "bytes \<Rightarrow> bytes" where "DeriveAuthKey rk = derive16 domAuth rk"
definition DeriveC2S :: "bytes \<Rightarrow> bytes" where "DeriveC2S ak = derive16 domC2S ak"
definition DeriveS2C :: "bytes \<Rightarrow> bytes" where "DeriveS2C ak = derive16 domS2C ak"
definition DeriveRegKey :: "bytes \<Rightarrow> bytes" where "DeriveRegKey rk = derive16 domReg rk"

definition RootKey_AEAD :: "bytes \<Rightarrow> aead_error + aead" where
  "RootKey_AEAD rk = NewAEAD (DeriveAEADKey rk)"

definition NewRandomRootKey :: "bytes option \<Rightarrow> vault_error + bytes" where
  "NewRandomRootKey rnd = (case rnd of None \<Rightarrow> Inl ErrRand | Some r \<Rightarrow> Inr (copy_fixed 20 r))"

definition NewRegisterKey :: "bytes option \<Rightarrow> vault_error + bytes" where
  "NewRegisterKey rnd = (case rnd of None \<Rightarrow> Inl ErrRand | Some r \<Rightarrow> Inr (copy_fixed 16 r))"

lemma length_derive16: "length label \<le> 256 \<Longrightarrow> length (derive16 label m) = 16"
  by (simp add: derive16_def CXOF_def CXOFMaxCustom_def CXOF_bytes_def Let_def)

lemma derive16_label:
  "length (derive16 domAEAD m) = 16" "length (derive16 domVID m) = 16" "length (derive16 domAuth m) = 16"
  "length (derive16 domC2S m) = 16" "length (derive16 domS2C m) = 16" "length (derive16 domReg m) = 16"
  "length (derive16 domEID m) = 16" "length (derive16 domSet m) = 16" "length (derive16 domFN m) = 16"
  "length (derive16 domEN m) = 16"
  by (simp_all add: length_derive16 doms ascii_def)

text \<open>A vault id as text: how a server names the vault's directory.\<close>

definition VaultID_String :: "bytes \<Rightarrow> bytes" where
  "VaultID_String v = hex_EncodeToString v"

definition ParseVaultID :: "bytes \<Rightarrow> vault_error + bytes" where
  "ParseVaultID s =
     (case hex_DecodeString s of
        None \<Rightarrow> Inl ErrBadVaultID
      | Some b \<Rightarrow> if length b \<noteq> 16 then Inl ErrBadVaultID else Inr (copy_fixed 16 b))"

lemma ParseVaultID_String: "length v = 16 \<Longrightarrow> ParseVaultID (VaultID_String v) = Inr v"
  by (simp add: ParseVaultID_def VaultID_String_def hex_decode_encode)

text \<open>A vault id comes back from its text, and the parser accepts nothing but that text, in either
  case of the hex digits: two different directory names in lower case never name one vault.\<close>

theorem vault_id_text:
  assumes "length v = 16"
  shows "ParseVaultID (VaultID_String v) = Inr v
    \<and> (ParseVaultID s = Inr v \<longrightarrow> map lower_byte s = VaultID_String v)"
  using ParseVaultID_String [OF assms] hex_decode_sound [of s v]
  by (auto simp: ParseVaultID_def VaultID_String_def split: option.splits if_splits)

theorem vault_id_text_witness: "ParseVaultID (VaultID_String (replicate 16 171)) = Inr (replicate 16 171)"
  using vault_id_text [of "replicate 16 171"] by simp

section \<open>Nonces\<close>

definition hedgedNonce :: "bytes \<Rightarrow> bytes \<Rightarrow> bytes option \<Rightarrow> int \<Rightarrow> vault_error + bytes" where
  "hedgedNonce label ctx rnd unixNano =
     (case rnd of
        None \<Rightarrow> Inl ErrRand
      | Some r \<Rightarrow> Inr (derive16 label (ctx @ le_bytes 8 (word_of_int unixNano :: u64) @ copy_fixed 16 r)))"

definition FrameNonce :: "bytes \<Rightarrow> bytes option \<Rightarrow> int \<Rightarrow> vault_error + bytes" where
  "FrameNonce vid rnd unixNano = hedgedNonce domFN vid rnd unixNano"

definition EntryNonce :: "bytes option \<Rightarrow> int \<Rightarrow> vault_error + bytes" where
  "EntryNonce rnd unixNano = hedgedNonce domEN [] rnd unixNano"

lemma length_nonce:
  "FrameNonce vid rnd t = Inr n \<Longrightarrow> length n = 16" "EntryNonce rnd t = Inr n \<Longrightarrow> length n = 16"
  by (auto simp: FrameNonce_def EntryNonce_def hedgedNonce_def derive16_label split: option.splits)

section \<open>Entries\<close>

record entry =
  TsMs :: u64
  Nonce :: bytes
  Ct :: bytes

definition EntryHeaderSize :: nat where "EntryHeaderSize = 26"
definition MaxEntryBytes :: nat where "MaxEntryBytes = 65536"

definition entry_Size :: "entry \<Rightarrow> nat" where
  "entry_Size e = EntryHeaderSize + length (Ct e)"

definition putHeader :: "entry \<Rightarrow> bytes" where
  "putHeader e = le_bytes 8 (TsMs e) @ Nonce e @ le_bytes 2 (of_nat (length (Ct e)) :: u16)"

definition entry_Header :: "entry \<Rightarrow> bytes" where
  "entry_Header e = putHeader e"

definition entry_Marshal :: "entry \<Rightarrow> bytes" where
  "entry_Marshal e = putHeader e @ Ct e"

definition entry_ID :: "entry \<Rightarrow> bytes" where
  "entry_ID e = derive16 domEID (entry_Marshal e)"

definition UnmarshalEntry :: "bytes \<Rightarrow> vault_error + entry \<times> nat" where
  "UnmarshalEntry b =
     (if length b < EntryHeaderSize then Inl ErrEntryShort
      else let ts = le_word (take 8 b);
               nonce = take 16 (drop 8 b);
               ctLen = unat (le_word (take 2 (drop 24 b)) :: u16);
               total = EntryHeaderSize + ctLen
           in if ctLen < 16 then Inl ErrEntryCorrupt
              else if MaxEntryBytes < total then Inl ErrEntryTooLarge
              else if length b < total then Inl ErrEntryCorrupt
              else Inr (\<lparr>TsMs = ts, Nonce = nonce, Ct = take ctLen (drop EntryHeaderSize b)\<rparr>, total))"

definition entry_ok :: "entry \<Rightarrow> bool" where
  "entry_ok e \<longleftrightarrow> length (Nonce e) = 16 \<and> 16 \<le> length (Ct e) \<and> entry_Size e \<le> MaxEntryBytes"

lemmas entry_sizes = EntryHeaderSize_def MaxEntryBytes_def entry_Size_def

lemma length_putHeader: "length (Nonce e) = 16 \<Longrightarrow> length (putHeader e) = 26"
  by (simp add: putHeader_def)

lemma length_Marshal: "length (Nonce e) = 16 \<Longrightarrow> length (entry_Marshal e) = entry_Size e"
  by (simp add: entry_Marshal_def length_putHeader entry_sizes)

lemma length_ID: "length (entry_ID e) = 16"
  by (simp add: entry_ID_def derive16_label)

lemma unat_u16: "n < 65536 \<Longrightarrow> unat (of_nat n :: u16) = n"
  by (simp add: unat_of_nat)

lemma unmarshal_marshal:
  assumes "entry_ok e"
  shows "UnmarshalEntry (entry_Marshal e @ r) = Inr (e, length (entry_Marshal e))"
proof -
  have n: "length (Nonce e) = 16" "16 \<le> length (Ct e)" "length (Ct e) \<le> 65510"
    using assms by (simp_all add: entry_ok_def entry_sizes)
  define l where "l = le_bytes 2 (of_nat (length (Ct e)) :: u16)"
  have b: "entry_Marshal e @ r = le_bytes 8 (TsMs e) @ Nonce e @ l @ Ct e @ r"
    by (simp add: entry_Marshal_def putHeader_def l_def)
  have l: "length l = 2" "unat (le_word l :: u16) = length (Ct e)" using n by (simp_all add: l_def unat_u16)
  have "take 8 (entry_Marshal e @ r) = le_bytes 8 (TsMs e)" "take 16 (drop 8 (entry_Marshal e @ r)) = Nonce e"
    "take 2 (drop 24 (entry_Marshal e @ r)) = l" "drop 26 (entry_Marshal e @ r) = Ct e @ r"
    unfolding b using n(1) l(1) by simp_all
  moreover have "length (entry_Marshal e @ r) = 26 + length (Ct e) + length r" "length (entry_Marshal e) = 26 + length (Ct e)"
    using n by (simp_all add: length_Marshal entry_sizes)
  moreover have "take (length (Ct e)) (Ct e @ r) = Ct e" by simp
  ultimately show ?thesis using n l(2)
    by (simp add: UnmarshalEntry_def Let_def EntryHeaderSize_def MaxEntryBytes_def del: take_append drop_append)
qed

lemma unmarshal_sound:
  assumes "UnmarshalEntry b = Inr (e, n)"
  shows "entry_ok e \<and> n \<le> length b \<and> take n b = entry_Marshal e"
proof -
  define k where "k = unat (le_word (take 2 (drop 24 b)) :: u16)"
  have h: "26 \<le> length b" "16 \<le> k" "26 + k \<le> 65536" "26 + k \<le> length b" "n = 26 + k"
    and e: "TsMs e = le_word (take 8 b)" "Nonce e = take 16 (drop 8 b)" "Ct e = take k (drop 26 b)"
    using assms by (auto simp: UnmarshalEntry_def Let_def entry_sizes k_def split: if_splits)
  have ct: "length (Ct e) = k" using e(3) h by simp
  have "le_bytes 2 (of_nat k :: u16) = take 2 (drop 24 b)"
    using le_bytes_le_word [where 'a = 16, of "take 2 (drop 24 b)"] h(1) by (simp add: k_def)
  moreover have "le_bytes 8 (TsMs e) = take 8 b"
    using le_bytes_le_word [where 'a = 64, of "take 8 b"] h(1) by (simp add: e)
  ultimately have "entry_Marshal e = take 8 b @ take 16 (drop 8 b) @ take 2 (drop 24 b) @ take k (drop 26 b)"
    unfolding entry_Marshal_def putHeader_def ct by (simp add: e)
  also have "\<dots> = take n b"
    using take_add [of 8 "16 + 2 + k" b] take_add [of 16 "2 + k" "drop 8 b"] take_add [of 2 k "drop 24 b"] h(5)
    by (simp add: add.commute)
  finally show ?thesis using h ct by (simp add: entry_ok_def entry_sizes e)
qed

interpretation entry: nonempty_codec entry_Marshal UnmarshalEntry entry_ok
proof
  fix e r assume "entry_ok e"
  then show "UnmarshalEntry (entry_Marshal e @ r) = Inr (e, length (entry_Marshal e))" by (rule unmarshal_marshal)
next
  fix b e n assume "UnmarshalEntry b = Inr (e, n)"
  then show "entry_ok e \<and> n \<le> length b \<and> take n b = entry_Marshal e" by (rule unmarshal_sound)
next
  fix e assume "entry_ok e"
  then have "length (entry_Marshal e) = entry_Size e" by (intro length_Marshal) (simp add: entry_ok_def)
  then show "entry_Marshal e \<noteq> []" by (auto simp: entry_sizes)
qed

section \<open>Sealing and opening an entry\<close>

definition entry_plaintext :: "bytes \<Rightarrow> bytes \<Rightarrow> bytes" where
  "entry_plaintext key val =
     of_nat (length key) # key @ le_bytes 2 (of_nat (length val) :: u16) @ val"

definition entry_Seal ::
  "aead \<Rightarrow> u64 \<Rightarrow> bytes \<Rightarrow> bytes \<Rightarrow> bytes option \<Rightarrow> int \<Rightarrow> vault_error + entry" where
  "entry_Seal a tsMs key val rnd unixNano =
     (if length key = 0 then Inl ErrEmptyKey
      else if 0xFF < length key then Inl ErrKeyTooLong
      else if 0xFFFF < length val then Inl ErrValueTooLong
      else let pt = entry_plaintext key val; ctLen = length pt + 16
           in if MaxEntryBytes < EntryHeaderSize + ctLen then Inl ErrEntryTooLarge
              else case EntryNonce rnd unixNano of
                     Inl e \<Rightarrow> Inl e
                   | Inr nonce \<Rightarrow>
                       let ad = le_bytes 8 tsMs @ nonce @ le_bytes 2 (of_nat ctLen :: u16)
                       in case aead_Seal a [] nonce pt ad of
                            Inl e \<Rightarrow> Inl (ErrAEAD e)
                          | Inr ct \<Rightarrow> Inr \<lparr>TsMs = tsMs, Nonce = nonce, Ct = ct\<rparr>)"

definition parse_plaintext :: "bytes \<Rightarrow> vault_error + bytes \<times> bytes" where
  "parse_plaintext pt =
     (if length pt < 3 then Inl ErrPlaintextBad
      else let klen = unat (pt ! 0)
           in if length pt < 1 + klen + 2 then Inl ErrPlaintextBad
              else let vlen = unat (le_word (take 2 (drop (1 + klen) pt)) :: u16)
                   in if 1 + klen + 2 + vlen \<noteq> length pt then Inl ErrPlaintextBad
                      else Inr (take klen (drop 1 pt), drop (1 + klen + 2) pt))"

definition entry_Open :: "aead \<Rightarrow> entry \<Rightarrow> vault_error + bytes \<times> bytes" where
  "entry_Open a e =
     (case aead_Open a [] (Nonce e) (Ct e) (entry_Header e) of
        Inl err \<Rightarrow> Inl (ErrAEAD err)
      | Inr pt \<Rightarrow> parse_plaintext pt)"

lemma parse_plaintext_iff:
  "parse_plaintext pt = Inr (k, v) \<longleftrightarrow> pt = entry_plaintext k v \<and> length k \<le> 255 \<and> length v \<le> 65535"
proof
  assume a: "parse_plaintext pt = Inr (k, v)"
  define kl where "kl = unat (pt ! 0)"
  define vw where "vw = (le_word (take 2 (drop (1 + kl) pt)) :: u16)"
  have l: "3 \<le> length pt" "1 + kl + 2 + unat vw = length pt" "k = take kl (drop 1 pt)" "v = drop (1 + kl + 2) pt"
    using a by (auto simp: parse_plaintext_def Let_def kl_def vw_def split: if_splits)
  have kl: "kl \<le> 255" using unsigned_less [where 'a = nat and w = "pt ! 0"] by (simp add: kl_def)
  have vl: "unat vw < 65536" using unsigned_less [where 'a = nat and w = vw] by simp
  have lv: "length k = kl" "length v = unat vw" using l by auto
  obtain x xs where x: "pt = x # xs" using l(1) by (cases pt) auto
  have "le_bytes 2 vw = take 2 (drop kl xs)"
    using le_bytes_le_word [where 'a = 16, of "take 2 (drop (1 + kl) pt)"] l(2) by (simp add: vw_def x)
  moreover have "xs = take kl xs @ take 2 (drop kl xs) @ drop (kl + 2) xs"
    by (metis append_take_drop_id drop_drop add.commute)
  moreover have "(of_nat kl :: byte) = x" by (simp add: kl_def x)
  ultimately have "pt = of_nat kl # take kl xs @ le_bytes 2 vw @ drop (kl + 2) xs" using x by simp
  then have "pt = entry_plaintext k v" unfolding entry_plaintext_def lv by (simp add: l(3,4) x)
  then show "pt = entry_plaintext k v \<and> length k \<le> 255 \<and> length v \<le> 65535"
    using kl vl lv by simp
next
  assume a: "pt = entry_plaintext k v \<and> length k \<le> 255 \<and> length v \<le> 65535"
  then have "unat (of_nat (length k) :: byte) = length k" "unat (of_nat (length v) :: u16) = length v"
    by (simp_all add: unat_of_nat)
  then show "parse_plaintext pt = Inr (k, v)" using a
    by (simp add: parse_plaintext_def entry_plaintext_def Let_def)
qed

lemma length_plaintext: "length (entry_plaintext k v) = 3 + length k + length v"
  by (simp add: entry_plaintext_def)

lemma entry_Seal_cases:
  assumes "entry_Seal a ts k v rnd t = Inr e" and "\<not> zeroed a"
  shows "entry_ok e \<and> TsMs e = ts \<and> EntryNonce rnd t = Inr (Nonce e) \<and> 0 < length k \<and> length k \<le> 255 \<and>
    length v \<le> 65535 \<and> aead_Seal a [] (Nonce e) (entry_plaintext k v) (entry_Header e) = Inr (Ct e)"
proof -
  have k: "length k \<noteq> 0" "length k \<le> 255" "length v \<le> 65535" "45 + length k + length v \<le> 65536"
    using assms(1) by (auto simp: entry_Seal_def Let_def entry_sizes length_plaintext split: if_splits)
  then obtain n ct where n: "EntryNonce rnd t = Inr n" and e: "e = \<lparr>TsMs = ts, Nonce = n, Ct = ct\<rparr>"
    and s: "aead_Seal a [] n (entry_plaintext k v)
      (le_bytes 8 ts @ n @ le_bytes 2 (of_nat (length (entry_plaintext k v) + 16) :: u16)) = Inr ct"
    using assms(1) by (auto simp: entry_Seal_def Let_def split: if_splits sum.splits)
  have u: "aead_usable a n" using length_nonce(2) [OF n] assms(2) by (simp add: aead_usable_def)
  from ascon.seal_length [OF u s] have "length ct = length (entry_plaintext k v) + 16" .
  then have "entry_ok e" "entry_Header e = le_bytes 8 ts @ n @ le_bytes 2 (of_nat (length (entry_plaintext k v) + 16) :: u16)"
    using k length_nonce(2) [OF n] by (auto simp: e entry_ok_def entry_sizes length_plaintext entry_Header_def putHeader_def)
  then show ?thesis using s k n by (simp add: e)
qed

lemma entry_Open_iff:
  assumes "\<not> zeroed a" and "length (Nonce e) = 16"
  shows "entry_Open a e = Inr (k, v) \<longleftrightarrow> length k \<le> 255 \<and> length v \<le> 65535 \<and>
    aead_Seal a [] (Nonce e) (entry_plaintext k v) (entry_Header e) = Inr (Ct e)"
proof -
  have u: "aead_usable a (Nonce e)" using assms by (simp add: aead_usable_def)
  have "entry_Open a e = Inr (k, v) \<longleftrightarrow>
      (\<exists>pt. aead_Open a [] (Nonce e) (Ct e) (entry_Header e) = Inr pt \<and> parse_plaintext pt = Inr (k, v))"
    by (auto simp: entry_Open_def split: sum.splits)
  then show ?thesis by (auto simp: parse_plaintext_iff ascon.open_iff_seal [OF u])
qed

text \<open>What \<open>Seal\<close> makes is a good entry that \<open>Open\<close> under the same key returns the key and value
  of, also after it has been marshalled, with any bytes behind it, and parsed again.\<close>

theorem entry_seal_open:
  assumes "RootKey_AEAD rk = Inr a" and "entry_Seal a ts k v rnd t = Inr e"
  shows "\<exists>e'. UnmarshalEntry (entry_Marshal e @ r) = Inr (e', entry_Size e) \<and> entry_Open a e' = Inr (k, v)"
proof -
  have z: "\<not> zeroed a" using assms(1) by (auto simp: RootKey_AEAD_def NewAEAD_def split: if_splits)
  note s = entry_Seal_cases [OF assms(2) z]
  then have l: "length (Nonce e) = 16" by (simp add: entry_ok_def)
  have "UnmarshalEntry (entry_Marshal e @ r) = Inr (e, entry_Size e)"
    using entry.dec_enc [of e r] s length_Marshal [OF l] by simp
  then show ?thesis using s entry_Open_iff [OF z l, of k v] by simp
qed

theorem entry_seal_open_witness:
  "\<exists>a e e'. RootKey_AEAD (replicate 20 7) = Inr a \<and> entry_Seal a 5 [1] [2, 3] (Some (replicate 16 9)) 0 = Inr e
    \<and> UnmarshalEntry (entry_Marshal e @ [0]) = Inr (e', entry_Size e) \<and> entry_Open a e' = Inr ([1], [2, 3])"
proof -
  obtain a where a: "RootKey_AEAD (replicate 20 7) = Inr a"
    using NewAEAD_16 [of "DeriveAEADKey (replicate 20 7)"]
    by (auto simp: RootKey_AEAD_def DeriveAEADKey_def derive16_label)
  then have z: "\<not> zeroed a" by (auto simp: RootKey_AEAD_def NewAEAD_def split: if_splits)
  obtain n where n: "EntryNonce (Some (replicate 16 9)) 0 = Inr n" by (simp add: EntryNonce_def hedgedNonce_def)
  then have "aead_usable a n" using length_nonce(2) [OF n] z by (simp add: aead_usable_def)
  then obtain ct where "aead_Seal a [] n (entry_plaintext [1] [2, 3])
      (le_bytes 8 (5 :: u64) @ n @ le_bytes 2 (of_nat (length (entry_plaintext [1] [2, 3]) + 16) :: u16)) = Inr ct"
    using ascon.seal_total [of a n "entry_plaintext [1] [2, 3]"] by blast
  then obtain e where "entry_Seal a 5 [1] [2, 3] (Some (replicate 16 9)) 0 = Inr e"
    using n by (simp add: entry_Seal_def Let_def entry_sizes length_plaintext)
  from entry_seal_open [OF a this] a this show ?thesis by blast
qed

text \<open>\<open>Open\<close> accepts an entry exactly when its ciphertext is the seal, under the entry's own header
  as associated data, of a well-formed key and value: a changed timestamp, nonce, length or
  ciphertext byte gives an entry that is the seal of something else or does not open.\<close>

theorem entry_open_authentic:
  assumes "RootKey_AEAD rk = Inr a" and "length (Nonce e) = 16"
  shows "entry_Open a e = Inr (k, v) \<longleftrightarrow> length k \<le> 255 \<and> length v \<le> 65535 \<and>
    aead_Seal a [] (Nonce e) (entry_plaintext k v) (entry_Header e) = Inr (Ct e)"
proof -
  have "\<not> zeroed a" using assms(1) by (auto simp: RootKey_AEAD_def NewAEAD_def split: if_splits)
  then show ?thesis using assms(2) by (rule entry_Open_iff)
qed

theorem entry_open_authentic_witness:
  "\<exists>a ct. RootKey_AEAD (replicate 20 7) = Inr a \<and>
    entry_Open a \<lparr>TsMs = 1, Nonce = replicate 16 0, Ct = ct\<rparr> = Inr ([], [])"
proof -
  obtain a where a: "RootKey_AEAD (replicate 20 7) = Inr a"
    using NewAEAD_16 [of "DeriveAEADKey (replicate 20 7)"]
    by (auto simp: RootKey_AEAD_def DeriveAEADKey_def derive16_label)
  define ad where "ad = entry_Header \<lparr>TsMs = 1, Nonce = replicate 16 0, Ct = replicate 19 0\<rparr>"
  have u: "aead_usable a (replicate 16 0)"
    using a by (auto simp: RootKey_AEAD_def NewAEAD_def aead_usable_def split: if_splits)
  obtain ct where ct: "aead_Seal a [] (replicate 16 0) (entry_plaintext [] []) ad = Inr ct"
    "length ct = 19"
    using ascon.seal_total [OF u, of "entry_plaintext [] []" ad] by (auto simp: length_plaintext)
  have "entry_Header \<lparr>TsMs = 1, Nonce = replicate 16 0, Ct = ct\<rparr> = ad"
    using ct(2) by (simp add: ad_def entry_Header_def putHeader_def)
  then show ?thesis
    using entry_open_authentic [OF a, of "\<lparr>TsMs = 1, Nonce = replicate 16 0, Ct = ct\<rparr>" "[]" "[]"] ct a by auto
qed

end
