(* ===== verification/Setsync.thy ===== *)
theory Setsync
  imports Vault "HOL-Library.Multiset"
begin

text \<open>
  The canonical order of entries and the whole-set hash (\<open>setsync.go\<close>). A position is a timestamp and
  an entry id; the class instance is the order by timestamp, then by the id's bytes, that
  \<open>SortCanonical\<close>, the stores and the sync cursor share.
\<close>

section \<open>Positions\<close>

datatype position = Position (pos_ts: u64) (pos_id: bytes)

instantiation position :: linorder
begin

definition less_eq_position :: "position \<Rightarrow> position \<Rightarrow> bool" where
  "p \<le> q \<longleftrightarrow> pos_ts p < pos_ts q \<or> pos_ts p = pos_ts q \<and> pos_id p \<le> pos_id q"

definition less_position :: "position \<Rightarrow> position \<Rightarrow> bool" where
  "p < q \<longleftrightarrow> pos_ts p < pos_ts q \<or> pos_ts p = pos_ts q \<and> pos_id p < pos_id q"

instance
proof
  fix p q r :: position
  show "p < q \<longleftrightarrow> p \<le> q \<and> \<not> q \<le> p" by (auto simp: less_eq_position_def less_position_def)
  show "p \<le> p" by (simp add: less_eq_position_def)
  show "p \<le> q \<Longrightarrow> q \<le> r \<Longrightarrow> p \<le> r" by (auto simp: less_eq_position_def)
  show "p \<le> q \<Longrightarrow> q \<le> p \<Longrightarrow> p = q" by (cases p; cases q) (auto simp: less_eq_position_def)
  show "p \<le> q \<or> q \<le> p" by (auto simp: less_eq_position_def)
qed

end

text \<open>Go's three-way comparisons: \<open>cmp.Compare\<close> and \<open>bytes.Compare\<close>.\<close>

definition cmp :: "'a :: linorder \<Rightarrow> 'a \<Rightarrow> int" where
  "cmp x y = (if x < y then - 1 else if y < x then 1 else 0)"

lemma cmp_sign [simp]: "cmp x y < 0 \<longleftrightarrow> x < y" "cmp x y = 0 \<longleftrightarrow> x = y" "0 < cmp x y \<longleftrightarrow> y < x"
  by (auto simp: cmp_def)

lemma cmp_position:
  "(if cmp t u \<noteq> 0 then cmp t u else cmp i j) = cmp (Position t i) (Position u j)"
  by (auto simp: cmp_def less_position_def)

definition pos_of :: "entry \<Rightarrow> position" where
  "pos_of e = Position (TsMs e) (entry_ID e)"

section \<open>The canonical order and the set hash\<close>

text \<open>
  \<open>slices.SortFunc\<close> by the position. Entries at the same position have the same id; their order
  among themselves is the sort's, here the order they came in.
\<close>

definition SortCanonical :: "entry list \<Rightarrow> entry list" where
  "SortCanonical es = sort_key pos_of es"

definition SetHashIDs :: "bytes list \<Rightarrow> bytes" where
  "SetHashIDs ids = derive16 domSet (le_bytes 4 (of_nat (length ids) :: u32) @ concat ids)"

definition SetHash :: "entry list \<Rightarrow> bytes" where
  "SetHash sortedEntries = SetHashIDs (map entry_ID sortedEntries)"

lemma SortCanonical_map: "map pos_of (SortCanonical es) = sort (map pos_of es)"
proof (rule properties_for_sort [symmetric])
  show "mset (map pos_of (SortCanonical es)) = mset (map pos_of es)" by (simp add: SortCanonical_def)
  show "sorted (map pos_of (SortCanonical es))" by (simp add: SortCanonical_def)
qed

lemma map_pos_id: "map entry_ID es = map pos_id (map pos_of es)"
  by (simp add: pos_of_def)

lemma sort_order_free:
  assumes "mset es = mset fs"
  shows "map pos_of (SortCanonical es) = map pos_of (SortCanonical fs)"
proof -
  have "sort (map pos_of es) = sort (map pos_of fs)"
    using assms by (intro properties_for_sort) simp_all
  then show ?thesis by (simp only: SortCanonical_map)
qed

lemma hash_order_free: "mset es = mset fs \<Longrightarrow> SetHash (SortCanonical es) = SetHash (SortCanonical fs)"
  using sort_order_free [of es fs] by (simp add: SetHash_def map_pos_id)

text \<open>\<open>SetHash\<close> after \<open>SortCanonical\<close> is a function of the set held and not of the order it is held
  in: two parties with the same entries, in whatever order they came, compute the same hash, and the
  sorted entries are the same entries in canonical order.\<close>

theorem set_hash_order_free:
  assumes "mset es = mset fs"
  shows "SetHash (SortCanonical es) = SetHash (SortCanonical fs)
    \<and> mset (SortCanonical es) = mset es \<and> sorted (map pos_of (SortCanonical es))"
  using hash_order_free [OF assms] by (simp add: SortCanonical_def)

theorem set_hash_order_free_witness:
  "SetHash (SortCanonical [\<lparr>TsMs = 2, Nonce = [], Ct = []\<rparr>, \<lparr>TsMs = 1, Nonce = [], Ct = []\<rparr>]) =
    SetHash (SortCanonical [\<lparr>TsMs = 1, Nonce = [], Ct = []\<rparr>, \<lparr>TsMs = 2, Nonce = [], Ct = []\<rparr>])"
  using set_hash_order_free [of "[\<lparr>TsMs = 2, Nonce = [], Ct = []\<rparr>, \<lparr>TsMs = 1, Nonce = [], Ct = []\<rparr>]"
      "[\<lparr>TsMs = 1, Nonce = [], Ct = []\<rparr>, \<lparr>TsMs = 2, Nonce = [], Ct = []\<rparr>]"]
  by (simp add: add_mset_commute)

text \<open>The bytes that are hashed name the ids: two lists of 16-byte ids give the same bytes only when
  they are the same list, so equal hashes of different sets are collisions of the hash.\<close>

definition set_hash_input :: "bytes list \<Rightarrow> bytes" where
  "set_hash_input ids = le_bytes 4 (of_nat (length ids) :: u32) @ concat ids"

lemma concat_ids_inject:
  "\<forall>i \<in> set ids. length i = 16 \<Longrightarrow> \<forall>i \<in> set ids'. length i = 16 \<Longrightarrow> concat ids = concat ids' \<Longrightarrow> ids = ids'"
proof (induction ids arbitrary: ids')
  case Nil
  then show ?case by (cases ids') auto
next
  case (Cons i ids)
  from Cons.prems(1,3) have "ids' \<noteq> []" by auto
  then obtain j js where j: "ids' = j # js" by (cases ids') auto
  have "length i = length j" using Cons.prems(1,2) j by simp
  moreover have "i @ concat ids = j @ concat js" using Cons.prems(3) j by simp
  ultimately have "i = j" "concat ids = concat js" by simp_all
  moreover have "ids = js" by (rule Cons.IH) (use Cons.prems(1,2) j calculation(2) in simp_all)
  ultimately show ?case using j by simp
qed

lemma SetHashIDs_input: "SetHashIDs ids = derive16 domSet (set_hash_input ids)"
  by (simp add: SetHashIDs_def set_hash_input_def)

lemma set_hash_input_inject:
  "\<forall>i \<in> set ids. length i = 16 \<Longrightarrow> \<forall>i \<in> set ids'. length i = 16 \<Longrightarrow>
    set_hash_input ids = set_hash_input ids' \<Longrightarrow> ids = ids'"
  by (rule concat_ids_inject) (simp_all add: set_hash_input_def append_eq_append_conv)

end
