(* ===== verification/Store.thy ===== *)
theory Store
  imports Setsync
begin

text \<open>
  The \<open>kv/store\<close> package: the contract \<open>Store\<close> states (\<open>store.go\<close>) as the locale \<open>entry_store\<close>, what a
  client derives from it (the paged walk, convergence of sets), and \<open>MemStore\<close> (\<open>memstore.go\<close>), which
  keeps the entries in the order added and an index in canonical order, maintained by binary search.
  A method runs under the store's mutex, so it is one function from a state to a result and a state.
\<close>

section \<open>The contract\<close>

text \<open>The entries of a call that are new: not in the store, nor earlier in the call.\<close>

fun new_entries :: "bytes set \<Rightarrow> entry list \<Rightarrow> entry list" where
  "new_entries held [] = []"
| "new_entries held (e # es) =
     (if entry_ID e \<in> held then new_entries held es
      else e # new_entries (insert (entry_ID e) held) es)"

text \<open>A page: entries while the next would not exceed the budget, but at least one.\<close>

fun page_from :: "nat \<Rightarrow> nat \<Rightarrow> bool \<Rightarrow> entry list \<Rightarrow> entry list" where
  "page_from budget used some [] = []"
| "page_from budget used some (e # es) =
     (if some \<and> budget < used + entry_Size e then []
      else e # page_from budget (used + entry_Size e) True es)"

definition after_cursor :: "position \<Rightarrow> entry list \<Rightarrow> entry list" where
  "after_cursor p es = filter (\<lambda>e. p < pos_of e) es"

abbreviation ids_of :: "entry list \<Rightarrow> bytes set" where
  "ids_of es \<equiv> entry_ID ` set es"

lemma new_entries_ids: "ids_of (new_entries held es) = ids_of es - held"
  by (induction held es rule: new_entries.induct) auto

lemma new_entries_set: "set (new_entries held es) \<subseteq> set es"
  by (induction held es rule: new_entries.induct) auto

lemma new_entries_distinct: "distinct (map entry_ID (new_entries held es))"
  by (induction held es rule: new_entries.induct) (simp_all add: new_entries_ids)

lemma new_entries_held: "ids_of es \<subseteq> held \<Longrightarrow> new_entries held es = []"
  by (induction held es rule: new_entries.induct) auto

lemma new_entries_all:
  "distinct (map entry_ID es) \<Longrightarrow> ids_of es \<inter> held = {} \<Longrightarrow> new_entries held es = es"
  by (induction held es rule: new_entries.induct) auto

lemma page_prefix: "\<exists>k. page_from b u m es = take k es"
proof (induction b u m es rule: page_from.induct)
  case (2 b u m e es)
  show ?case
  proof (cases "m \<and> b < u + entry_Size e")
    case True
    then show ?thesis by (intro exI [of _ 0]) simp
  next
    case False
    with 2 obtain k where "page_from b (u + entry_Size e) True es = take k es" by auto
    then show ?thesis using False by (intro exI [of _ "Suc k"]) auto
  qed
qed simp

lemma page_nonempty: "es \<noteq> [] \<Longrightarrow> page_from b u False es \<noteq> []"
  by (cases es) auto

lemma entry_Size_pos: "0 < entry_Size e"
  by (simp add: entry_sizes)

lemma page_within: "sum_list (map entry_Size (page_from b u True es)) + u \<le> max b u"
proof (induction b u True es rule: page_from.induct)
  case (2 b u e es)
  then show ?case using entry_Size_pos [of e] by (cases "b < u + entry_Size e") (simp_all add: max_def)
qed simp

lemma page_budget:
  "page_from b 0 False es = p \<Longrightarrow> length p \<le> 1 \<or> sum_list (map entry_Size p) \<le> b"
proof (cases es)
  case (Cons e es')
  assume p: "page_from b 0 False es = p"
  then have p': "p = e # page_from b (entry_Size e) True es'" using Cons by simp
  show ?thesis
  proof (cases "entry_Size e \<le> b")
    case True
    then show ?thesis using page_within [of b "entry_Size e" es'] p' by (simp add: max_def)
  next
    case False
    then have "page_from b (entry_Size e) True es' = []" by (cases es') auto
    then show ?thesis using p' by simp
  qed
qed auto

lemma sorted_positions: "distinct (map entry_ID es) \<Longrightarrow> sorted_wrt (<) (map pos_of (SortCanonical es))"
proof -
  assume d: "distinct (map entry_ID es)"
  have "distinct (map pos_id (map pos_of es))" using d by (simp only: map_pos_id)
  then have "distinct (map pos_of es)" using distinct_map by blast
  then have "distinct (sort (map pos_of es))" by simp
  then show ?thesis by (simp add: strict_sorted_iff SortCanonical_map)
qed

text \<open>The entries after a cursor are the rest of the canonical order.\<close>

lemma after_cursor_Cons:
  "sorted_wrt (<) (map pos_of (e # es)) \<Longrightarrow> p < pos_of e \<Longrightarrow> after_cursor p (e # es) = e # es"
  unfolding after_cursor_def by (intro filter_True) (auto intro: less_trans)

lemma after_cursor_last:
  assumes "sorted_wrt (<) (map pos_of es)" and "after_cursor p es = xs @ ys" and "xs \<noteq> []"
  shows "after_cursor (pos_of (last xs)) es = ys"
  using assms
proof (induction es arbitrary: xs)
  case (Cons e es)
  have s: "sorted_wrt (<) (map pos_of es)" and lt: "\<forall>f \<in> set es. pos_of e < pos_of f" using Cons.prems(1) by auto
  show ?case
  proof (cases "p < pos_of e")
    case False
    then have "after_cursor p es = xs @ ys" using Cons.prems(2) by (simp add: after_cursor_def)
    moreover from this have "pos_of e < pos_of (last xs)"
      using lt Cons.prems(3) by (metis UnCI after_cursor_def filter_is_subset last_in_set set_append subsetD)
    ultimately show ?thesis using Cons.IH [OF s] Cons.prems(3) by (simp add: after_cursor_def)
  next
    case True
    then have es: "e # es = xs @ ys" using after_cursor_Cons [OF Cons.prems(1)] Cons.prems(2) by simp
    obtain zs z where xs: "xs = zs @ [z]" using Cons.prems(3) by (cases xs rule: rev_cases) auto
    have "sorted_wrt (<) (map pos_of (zs @ [z] @ ys))" using Cons.prems(1) es xs by simp
    then have "\<forall>f \<in> set zs. pos_of f < pos_of z" "\<forall>f \<in> set ys. pos_of z < pos_of f"
      by (auto simp: sorted_wrt_append)
    then show ?thesis unfolding es xs by (auto simp: after_cursor_def intro!: filter_False filter_True dest: less_asym)
  qed
qed (simp add: after_cursor_def)

text \<open>
  The pages of a walk, from a cursor: each next page starts after the last entry of the one before.
  \<open>n\<close> bounds the pages asked for.
\<close>

fun pull_walk :: "(u64 \<Rightarrow> bytes \<Rightarrow> entry list) \<Rightarrow> nat \<Rightarrow> position \<Rightarrow> entry list" where
  "pull_walk page 0 p = []"
| "pull_walk page (Suc n) p =
     (case page (pos_ts p) (pos_id p) of
        [] \<Rightarrow> []
      | es \<Rightarrow> es @ pull_walk page n (pos_of (last es)))"

lemma pull_walk_complete:
  assumes "sorted_wrt (<) (map pos_of es)"
    and page: "\<And>t i. page t i = page_from b 0 False (after_cursor (Position t i) es)"
    and "length (after_cursor p es) < n"
  shows "pull_walk page n p = after_cursor p es"
  using assms(3)
proof (induction n arbitrary: p)
  case (Suc n)
  define rest where "rest = after_cursor p es"
  have pg: "page (pos_ts p) (pos_id p) = page_from b 0 False rest" by (simp add: page rest_def)
  show ?case
  proof (cases "rest = []")
    case True
    then show ?thesis using pg by (simp add: rest_def)
  next
    case False
    obtain k where k: "page_from b 0 False rest = take k rest" using page_prefix by blast
    have ne: "take k rest \<noteq> []" using page_nonempty [OF False, of b 0] k by simp
    have r: "after_cursor p es = take k rest @ drop k rest" by (simp add: rest_def)
    have d: "after_cursor (pos_of (last (take k rest))) es = drop k rest"
      using after_cursor_last [OF assms(1) r ne] .
    have "0 < k" "0 < length rest" using ne False by auto
    then have "length (drop k rest) < n" using Suc.prems unfolding rest_def length_drop by linarith
    then have "pull_walk page n (pos_of (last (take k rest))) = drop k rest" using Suc.IH d by simp
    moreover have "pull_walk page (Suc n) p = take k rest @ pull_walk page n (pos_of (last (take k rest)))"
      using pg k ne by (cases "take k rest") simp_all
    ultimately show ?thesis by (simp add: rest_def)
  qed
qed simp

locale entry_store =
  fixes inv :: "'s \<Rightarrow> bool"
    and contents :: "'s \<Rightarrow> entry list"
    and add :: "'s \<Rightarrow> entry list \<Rightarrow> nat \<times> 's"
    and has :: "'s \<Rightarrow> bytes \<Rightarrow> bool"
    and sorted_view :: "'s \<Rightarrow> entry list"
    and set_hash :: "'s \<Rightarrow> bytes \<times> 's"
    and after :: "'s \<Rightarrow> u64 \<Rightarrow> bytes \<Rightarrow> nat \<Rightarrow> entry list"
    and appended :: "'s \<Rightarrow> nat \<Rightarrow> entry list"
    and newest :: "'s \<Rightarrow> entry option"
    and ok :: "entry \<Rightarrow> bool"
  assumes contents_distinct: "inv s \<Longrightarrow> distinct (map entry_ID (contents s))"
    and add_spec: "inv s \<Longrightarrow> \<forall>e \<in> set es. ok e \<Longrightarrow> add s es = (n, s') \<Longrightarrow>
      inv s' \<and> contents s' = contents s @ new_entries (ids_of (contents s)) es
        \<and> n = length (new_entries (ids_of (contents s)) es)"
    and has_spec: "inv s \<Longrightarrow> has s i \<longleftrightarrow> i \<in> ids_of (contents s)"
    and sorted_spec: "inv s \<Longrightarrow> sorted_view s = SortCanonical (contents s)"
    and hash_spec: "inv s \<Longrightarrow> set_hash s = (h, s') \<Longrightarrow>
      h = SetHash (SortCanonical (contents s)) \<and> inv s' \<and> contents s' = contents s"
    and after_spec: "inv s \<Longrightarrow>
      after s t i b = page_from b 0 False (after_cursor (Position t i) (SortCanonical (contents s)))"
    and appended_spec: "inv s \<Longrightarrow> appended s k = drop k (contents s)"
    and newest_spec: "inv s \<Longrightarrow>
      newest s = (if contents s = [] then None else Some (last (SortCanonical (contents s))))"
begin

lemma add_ids:
  "inv s \<Longrightarrow> \<forall>e \<in> set es. ok e \<Longrightarrow> add s es = (n, s') \<Longrightarrow> ids_of (contents s') = ids_of (contents s) \<union> ids_of es"
  using add_spec [of s es n s'] new_entries_ids [of "ids_of (contents s)" es] by (auto simp: image_Un)

lemma add_again:
  "inv s \<Longrightarrow> \<forall>e \<in> set es. ok e \<Longrightarrow> add s es = (n, s') \<Longrightarrow> add s' es = (m, s'') \<Longrightarrow> m = 0 \<and> contents s'' = contents s'"
  using add_spec [of s es n s'] add_spec [of s' es m s''] add_ids [of s es n s']
    new_entries_held [of es "ids_of (contents s')"] by auto

lemma same_set_same_view:
  assumes "inv s" and "inv t" and "set (contents s) = set (contents t)"
  shows "fst (set_hash s) = fst (set_hash t) \<and> map pos_of (sorted_view s) = map pos_of (sorted_view t)"
proof -
  have "distinct (contents s)" "distinct (contents t)"
    using contents_distinct assms(1,2) distinct_map by blast+
  then have m: "mset (contents s) = mset (contents t)" using assms(3) by (simp add: set_eq_iff_mset_eq_distinct)
  show ?thesis
    using hash_order_free [OF m] sort_order_free [OF m] hash_spec [OF assms(1)] hash_spec [OF assms(2)]
    by (cases "set_hash s"; cases "set_hash t") (simp add: sorted_spec assms(1,2))
qed

lemma walk_complete:
  assumes "inv s" and "length (contents s) < n"
  shows "pull_walk (\<lambda>t i. after s t i b) n p = after_cursor p (sorted_view s)"
proof -
  have "length (after_cursor p (SortCanonical (contents s))) \<le> length (contents s)"
    unfolding after_cursor_def using length_filter_le [of _ "SortCanonical (contents s)"] by (simp add: SortCanonical_def)
  then show ?thesis
    using pull_walk_complete [OF sorted_positions [OF contents_distinct [OF assms(1)]] after_spec [OF assms(1)]]
      assms sorted_spec [OF assms(1)] by simp
qed

end

section \<open>MemStore\<close>

text \<open>\<open>order\<close> holds indexes into \<open>entries\<close>; \<open>hashSet\<close> says \<open>setHash\<close> is current. The map \<open>has\<close> is the
  set of its keys.\<close>

record memstore =
  entries :: "entry list"
  ids :: "bytes list"
  has_ids :: "bytes set"
  order :: "nat list"
  setHash :: bytes
  hashSet :: bool

definition NewMemStore :: memstore where
  "NewMemStore = \<lparr>entries = [], ids = [], has_ids = {}, order = [], setHash = replicate 16 0, hashSet = False\<rparr>"

definition mem_compare :: "memstore \<Rightarrow> nat \<Rightarrow> u64 \<Rightarrow> bytes \<Rightarrow> int" where
  "mem_compare m j t i =
     (let c = cmp (TsMs (entries m ! j)) t in if c \<noteq> 0 then c else cmp (ids m ! j) i)"

definition addLocked :: "bytes \<Rightarrow> entry \<Rightarrow> memstore \<Rightarrow> bool \<times> memstore" where
  "addLocked i e m =
     (if i \<in> has_ids m then (False, m)
      else let k = length (entries m);
               m = m\<lparr>entries := entries m @ [e], ids := ids m @ [i], has_ids := insert i (has_ids m)\<rparr>;
               m = (if order m = [] \<or> mem_compare m (last (order m)) (TsMs e) i < 0
                    then m\<lparr>order := order m @ [k]\<rparr>
                    else let at = fst (binary_search_func (\<lambda>j. mem_compare m j (TsMs e) i) (order m))
                         in m\<lparr>order := take at (order m) @ k # drop at (order m)\<rparr>)
           in (True, m\<lparr>hashSet := False\<rparr>))"

fun mem_Add :: "memstore \<Rightarrow> entry list \<Rightarrow> nat \<times> memstore" where
  "mem_Add m [] = (0, m)"
| "mem_Add m (e # es) =
     (let (added, m) = addLocked (entry_ID e) e m; (n, m) = mem_Add m es
      in (if added then n + 1 else n, m))"

definition mem_addID :: "bytes \<Rightarrow> entry \<Rightarrow> memstore \<Rightarrow> bool \<times> memstore" where
  "mem_addID i e m = addLocked i e m"

definition mem_Has :: "memstore \<Rightarrow> bytes \<Rightarrow> bool" where
  "mem_Has m i \<longleftrightarrow> i \<in> has_ids m"

definition mem_Len :: "memstore \<Rightarrow> nat" where
  "mem_Len m = length (entries m)"

definition mem_Sorted :: "memstore \<Rightarrow> entry list" where
  "mem_Sorted m = map (\<lambda>i. entries m ! i) (order m)"

definition mem_SetHash :: "memstore \<Rightarrow> bytes \<times> memstore" where
  "mem_SetHash m =
     (let m = (if \<not> hashSet m
               then m\<lparr>setHash := SetHashIDs (map (\<lambda>i. ids m ! i) (order m)), hashSet := True\<rparr>
               else m)
      in (setHash m, m))"

definition mem_EntriesAfter :: "memstore \<Rightarrow> u64 \<Rightarrow> bytes \<Rightarrow> nat \<Rightarrow> entry list" where
  "mem_EntriesAfter m afterTs afterID budget =
     (let (start, found) = binary_search_func (\<lambda>j. mem_compare m j afterTs afterID) (order m);
          start = (if found then start + 1 else start)
      in page_from budget 0 False (map (\<lambda>i. entries m ! i) (drop start (order m))))"

definition mem_Appended :: "memstore \<Rightarrow> nat \<Rightarrow> entry list" where
  "mem_Appended m n = drop (min n (length (entries m))) (entries m)"

definition mem_Newest :: "memstore \<Rightarrow> entry option" where
  "mem_Newest m = (if order m = [] then None else Some (entries m ! last (order m)))"

text \<open>The representation invariant.\<close>

definition mem_inv :: "memstore \<Rightarrow> bool" where
  "mem_inv m \<longleftrightarrow>
     ids m = map entry_ID (entries m) \<and> distinct (ids m) \<and> has_ids m = set (ids m)
     \<and> mset (order m) = mset [0..<length (entries m)]
     \<and> sorted_wrt (<) (map (\<lambda>i. pos_of (entries m ! i)) (order m))
     \<and> (hashSet m \<longrightarrow> setHash m = SetHash (mem_Sorted m))"

lemma mem_inv_New: "mem_inv NewMemStore"
  by (simp add: mem_inv_def NewMemStore_def)

lemma mem_compare_pos:
  "mem_inv m \<Longrightarrow> j < length (entries m) \<Longrightarrow> mem_compare m j t i = cmp (pos_of (entries m ! j)) (Position t i)"
  by (simp add: mem_compare_def Let_def pos_of_def mem_inv_def flip: cmp_position)

lemma order_bound: "mem_inv m \<Longrightarrow> set (order m) = {..<length (entries m)}"
  using mset_eq_setD [of "order m" "[0..<length (entries m)]"] by (auto simp: mem_inv_def)

lemma mem_Sorted_canonical: "mem_inv m \<Longrightarrow> mem_Sorted m = SortCanonical (entries m)"
proof -
  assume i: "mem_inv m"
  have "mset (mem_Sorted m) = image_mset (\<lambda>i. entries m ! i) (mset (order m))" by (simp add: mem_Sorted_def)
  also have "\<dots> = image_mset (\<lambda>i. entries m ! i) (mset [0..<length (entries m)])" using i by (simp only: mem_inv_def)
  also have "\<dots> = mset (map (\<lambda>i. entries m ! i) [0..<length (entries m)])" by (simp only: mset_map)
  finally have ms: "mset (mem_Sorted m) = mset (entries m)" by (simp only: map_nth)
  have s: "sorted_wrt (<) (map pos_of (mem_Sorted m))" using i by (simp add: mem_inv_def mem_Sorted_def comp_def)
  then have "sorted (map pos_of (mem_Sorted m))" "distinct (map pos_of (mem_Sorted m))"
    by (simp_all add: strict_sorted_iff)
  moreover have "inj_on pos_of (set (entries m))"
    using calculation(2) mset_eq_setD [OF ms] by (simp add: distinct_map)
  ultimately show ?thesis unfolding SortCanonical_def
    using ms by (intro sort_key_inj_key_eq [symmetric]) simp_all
qed

lemma list_insert_sorted:
  assumes "sorted_wrt (<) (map f xs)" and "\<forall>x \<in> set (take n xs). f x < f y" and "\<forall>x \<in> set (drop n xs). f y < f x"
  shows "sorted_wrt (<) (map f (take n xs @ y # drop n xs))"
proof -
  have "sorted_wrt (<) (map f (take n xs @ drop n xs))" using assms(1) by simp
  then show ?thesis using assms(2,3) unfolding map_append list.map sorted_wrt_append by auto
qed

text \<open>Searching the order for a position: everything before the index is below it, the rest is not.\<close>

lemma order_search:
  assumes "mem_inv m" and "binary_search_func (\<lambda>j. mem_compare m j t i) (order m) = (at, found)"
  shows "\<forall>x \<in> set (take at (order m)). pos_of (entries m ! x) < Position t i"
    and "\<forall>x \<in> set (drop at (order m)). \<not> pos_of (entries m ! x) < Position t i"
    and "found \<longleftrightarrow> at < length (order m) \<and> pos_of (entries m ! (order m ! at)) = Position t i"
proof -
  let ?c = "\<lambda>j. mem_compare m j t i"
  have c: "?c j = cmp (pos_of (entries m ! j)) (Position t i)" if "j \<in> set (order m)" for j
    using that order_bound [OF assms(1)] by (intro mem_compare_pos [OF assms(1)]) auto
  have s: "sorted_wrt (<) (map (\<lambda>i. pos_of (entries m ! i)) (order m))" using assms(1) by (simp add: mem_inv_def)
  have "split_by ?c (order m)"
    unfolding split_by_def using s by (auto simp: c sorted_wrt_iff_nth_less intro: less_trans)
  note b = binary_search_func_split [OF this assms(2)]
  show "\<forall>x \<in> set (take at (order m)). pos_of (entries m ! x) < Position t i"
  proof
    fix x assume "x \<in> set (take at (order m))"
    then obtain k where k: "k < at" "k < length (order m)" "x = order m ! k"
      by (auto simp: in_set_conv_nth)
    then have "?c x < 0" using b(2) [of k] by simp
    moreover have "x \<in> set (order m)" using k by simp
    ultimately show "pos_of (entries m ! x) < Position t i" by (simp add: c)
  qed
  show "\<forall>x \<in> set (drop at (order m)). \<not> pos_of (entries m ! x) < Position t i"
  proof
    fix x assume "x \<in> set (drop at (order m))"
    then obtain k where k: "k < length (order m) - at" "x = order m ! (at + k)"
      by (auto simp: in_set_conv_nth)
    then have "\<not> ?c x < 0" using b(3) [of "at + k"] by simp
    moreover have "x \<in> set (order m)" using k by simp
    ultimately show "\<not> pos_of (entries m ! x) < Position t i" by (simp add: c)
  qed
  show "found \<longleftrightarrow> at < length (order m) \<and> pos_of (entries m ! (order m ! at)) = Position t i"
    using b(4) by (auto simp: c)
qed

lemma addLocked_order:
  assumes inv: "mem_inv m" and new: "entry_ID e \<notin> has_ids m"
  defines "m1 \<equiv> m\<lparr>entries := entries m @ [e], ids := ids m @ [entry_ID e], has_ids := insert (entry_ID e) (has_ids m)\<rparr>"
  shows "\<exists>n. order (snd (addLocked (entry_ID e) e m)) = take n (order m) @ length (entries m) # drop n (order m)
    \<and> (\<forall>x \<in> set (take n (order m)). pos_of (entries m ! x) < pos_of e)
    \<and> (\<forall>x \<in> set (drop n (order m)). pos_of e < pos_of (entries m ! x))"
proof -
  have c: "mem_compare m1 j (TsMs e) (entry_ID e) = mem_compare m j (TsMs e) (entry_ID e)" if "j \<in> set (order m)" for j
  proof -
    have "j < length (entries m)" "length (ids m) = length (entries m)"
      using that order_bound [OF inv] inv by (auto simp: mem_inv_def)
    then show ?thesis by (simp add: mem_compare_def m1_def nth_append)
  qed
  have p: "Position (TsMs e) (entry_ID e) = pos_of e" by (simp add: pos_of_def)
  show ?thesis
  proof (cases "order m = [] \<or> mem_compare m1 (last (order m)) (TsMs e) (entry_ID e) < 0")
    case True
    have "pos_of (entries m ! x) < pos_of e" if x: "x \<in> set (order m)" for x
    proof -
      obtain ys z where o: "order m = ys @ [z]" using x by (cases "order m" rule: rev_cases) auto
      have "mem_compare m1 z (TsMs e) (entry_ID e) < 0" using True o by simp
      moreover have "z \<in> set (order m)" using o by simp
      moreover from this have "z < length (entries m)" using order_bound [OF inv] by simp
      ultimately have "pos_of (entries m ! z) < pos_of e"
        using c [of z] mem_compare_pos [OF inv, of z] p by simp
      moreover have "x = z \<or> pos_of (entries m ! x) < pos_of (entries m ! z)"
        using inv x unfolding mem_inv_def o by (auto simp: sorted_wrt_append)
      ultimately show ?thesis by auto
    qed
    moreover have "order (snd (addLocked (entry_ID e) e m)) = order m @ [length (entries m)]"
      using new True by (simp add: addLocked_def Let_def m1_def)
    ultimately show ?thesis by (intro exI [of _ "length (order m)"]) simp
  next
    case False
    define at where "at = fst (binary_search_func (\<lambda>j. mem_compare m j (TsMs e) (entry_ID e)) (order m))"
    have "fst (binary_search_func (\<lambda>j. mem_compare m1 j (TsMs e) (entry_ID e)) (order m)) = at"
      unfolding at_def using c by (intro arg_cong [where f = fst] binary_search_func_cong) simp
    then have o: "order (snd (addLocked (entry_ID e) e m)) = take at (order m) @ length (entries m) # drop at (order m)"
      using new False by (simp add: addLocked_def Let_def m1_def)
    obtain found where b: "binary_search_func (\<lambda>j. mem_compare m j (TsMs e) (entry_ID e)) (order m) = (at, found)"
      unfolding at_def by (cases "binary_search_func (\<lambda>j. mem_compare m j (TsMs e) (entry_ID e)) (order m)") simp
    note s = order_search [OF inv b, unfolded p]
    have ne: "pos_of (entries m ! x) \<noteq> pos_of e" if "x \<in> set (order m)" for x
    proof
      assume "pos_of (entries m ! x) = pos_of e"
      then have "entry_ID (entries m ! x) = entry_ID e" by (simp add: pos_of_def)
      moreover have "entries m ! x \<in> set (entries m)" using that order_bound [OF inv] by simp
      moreover have "has_ids m = ids_of (entries m)" using inv by (simp add: mem_inv_def)
      ultimately show False using new by (metis imageI)
    qed
    have "pos_of e < pos_of (entries m ! x)" if x: "x \<in> set (drop at (order m))" for x
      using s(2) ne [OF in_set_dropD [OF x]] x by (metis linorder_less_linear)
    then show ?thesis using o s(1) by (intro exI [of _ at]) blast
  qed
qed

lemma addLocked_fields:
  "entry_ID e \<notin> has_ids m \<Longrightarrow>
    fst (addLocked (entry_ID e) e m) \<and> entries (snd (addLocked (entry_ID e) e m)) = entries m @ [e]
    \<and> ids (snd (addLocked (entry_ID e) e m)) = ids m @ [entry_ID e]
    \<and> has_ids (snd (addLocked (entry_ID e) e m)) = insert (entry_ID e) (has_ids m)
    \<and> \<not> hashSet (snd (addLocked (entry_ID e) e m))"
  by (simp add: addLocked_def Let_def)

lemma addLocked_inv:
  assumes inv: "mem_inv m" and new: "entry_ID e \<notin> has_ids m"
  shows "mem_inv (snd (addLocked (entry_ID e) e m))"
proof -
  define m' k where "m' = snd (addLocked (entry_ID e) e m)" and "k = length (entries m)"
  obtain n where o: "order m' = take n (order m) @ k # drop n (order m)"
    "\<forall>x \<in> set (take n (order m)). pos_of (entries m ! x) < pos_of e"
    "\<forall>x \<in> set (drop n (order m)). pos_of e < pos_of (entries m ! x)"
    using addLocked_order [OF inv new] unfolding m'_def k_def by blast
  have f: "entries m' = entries m @ [e]" "ids m' = ids m @ [entry_ID e]"
    "has_ids m' = insert (entry_ID e) (has_ids m)" "\<not> hashSet m'"
    using addLocked_fields [OF new] by (simp_all add: m'_def)
  have n: "entries m' ! x = entries m ! x" if "x \<in> set (order m)" for x
    using that order_bound [OF inv] f(1) by (auto simp: nth_append)
  have nk: "entries m' ! k = e" by (simp add: f(1) k_def)
  have "map (\<lambda>i. pos_of (entries m' ! i)) (order m) = map (\<lambda>i. pos_of (entries m ! i)) (order m)"
    using n by simp
  then have "sorted_wrt (<) (map (\<lambda>i. pos_of (entries m' ! i)) (order m))"
    using inv by (simp only: mem_inv_def)
  then have s: "sorted_wrt (<) (map (\<lambda>i. pos_of (entries m' ! i)) (order m'))"
    unfolding o(1)
  proof (rule list_insert_sorted)
    show "\<forall>x \<in> set (take n (order m)). pos_of (entries m' ! x) < pos_of (entries m' ! k)"
      using o(2) n in_set_takeD [of _ n "order m"] unfolding nk by metis
    show "\<forall>x \<in> set (drop n (order m)). pos_of (entries m' ! k) < pos_of (entries m' ! x)"
      using o(3) n in_set_dropD [of _ n "order m"] unfolding nk by metis
  qed
  have "mset (order m') = add_mset k (mset (take n (order m)) + mset (drop n (order m)))" by (simp add: o(1))
  also have "\<dots> = add_mset k (mset (order m))" by (simp flip: mset_append)
  also have "\<dots> = mset [0..<Suc k]" using inv by (simp add: mem_inv_def k_def)
  finally have "mset (order m') = mset [0..<length (entries m')]" by (simp add: f(1) k_def)
  then show ?thesis using inv new f s unfolding m'_def [symmetric] by (auto simp: mem_inv_def)
qed

lemma mem_Add_spec:
  "mem_inv m \<Longrightarrow> mem_Add m es = (n, m') \<Longrightarrow>
    mem_inv m' \<and> entries m' = entries m @ new_entries (ids_of (entries m)) es
      \<and> n = length (new_entries (ids_of (entries m)) es)"
proof (induction es arbitrary: m n m')
  case (Cons e es)
  have h: "has_ids m = ids_of (entries m)" using Cons.prems(1) by (simp add: mem_inv_def)
  show ?case
  proof (cases "entry_ID e \<in> has_ids m")
    case True
    then have "addLocked (entry_ID e) e m = (False, m)" by (simp add: addLocked_def)
    then have "mem_Add m es = (n, m')" using Cons.prems(2) by (auto split: prod.splits)
    with Cons.IH [OF Cons.prems(1) this] True h show ?thesis by simp
  next
    case False
    define m1 where "m1 = snd (addLocked (entry_ID e) e m)"
    note f = addLocked_fields [OF False, folded m1_def]
    have a: "addLocked (entry_ID e) e m = (True, m1)"
      using f by (cases "addLocked (entry_ID e) e m") (simp add: m1_def)
    have i: "mem_inv m1" using addLocked_inv [OF Cons.prems(1) False] by (simp add: m1_def)
    have u: "ids_of (entries m1) = insert (entry_ID e) (ids_of (entries m))" using f by simp
    obtain n1 m2 where r: "mem_Add m1 es = (n1, m2)" by fastforce
    then have "n = n1 + 1" "m' = m2" using Cons.prems(2) a by simp_all
    then show ?thesis using Cons.IH [OF i r] False h u f by simp
  qed
qed simp

lemma mem_EntriesAfter_spec:
  assumes "mem_inv m"
  shows "mem_EntriesAfter m t i b = page_from b 0 False (after_cursor (Position t i) (SortCanonical (entries m)))"
proof -
  obtain at found where b: "binary_search_func (\<lambda>j. mem_compare m j t i) (order m) = (at, found)" by fastforce
  define f where "f = (\<lambda>x. entries m ! x)"
  note s = order_search [OF assms b]
  define start where "start = (if found then at + 1 else at)"
  have srt: "sorted_wrt (<) (map (\<lambda>x. pos_of (f x)) (order m))" using assms by (simp add: mem_inv_def f_def)
  have "filter (\<lambda>x. Position t i < pos_of (f x)) (order m) =
      filter (\<lambda>x. Position t i < pos_of (f x)) (take at (order m)) @ filter (\<lambda>x. Position t i < pos_of (f x)) (drop at (order m))"
    by (simp flip: filter_append)
  also have "filter (\<lambda>x. Position t i < pos_of (f x)) (take at (order m)) = []"
    using s(1) by (auto simp: f_def intro!: filter_False dest: less_asym)
  also have "filter (\<lambda>x. Position t i < pos_of (f x)) (drop at (order m)) = drop start (order m)"
  proof (cases "found")
    case True
    then have k: "at < length (order m)" "pos_of (f (order m ! at)) = Position t i" using s(3) by (simp_all add: f_def)
    then have d: "drop at (order m) = order m ! at # drop (at + 1) (order m)" by (simp add: Cons_nth_drop_Suc)
    have "sorted_wrt (<) (map (\<lambda>x. pos_of (f x)) (drop at (order m)))"
      using srt by (simp flip: drop_map)
    then have "\<forall>x \<in> set (drop (at + 1) (order m)). Position t i < pos_of (f x)" using k(2) unfolding d by simp
    then show ?thesis using True k(2) unfolding d start_def by (simp add: filter_True)
  next
    case False
    have "Position t i < pos_of (f x)" if x: "x \<in> set (drop at (order m))" for x
    proof -
      have "pos_of (f x) \<noteq> Position t i"
      proof
        assume eq: "pos_of (f x) = Position t i"
        obtain j where j: "j < length (drop at (order m))" "drop at (order m) ! j = x"
          using x unfolding in_set_conv_nth by blast
        define k where "k = at + j"
        have k: "at \<le> k" "k < length (order m)" "x = order m ! k" using j by (simp_all add: k_def)
        then have "order m ! at \<in> set (drop at (order m))" by (simp flip: Cons_nth_drop_Suc)
        then have "\<not> pos_of (f (order m ! at)) < Position t i" using s(2) by (simp add: f_def)
        moreover have "at \<noteq> k" using False s(3) k eq by (auto simp: f_def)
        moreover have "at < k \<Longrightarrow> pos_of (f (order m ! at)) < pos_of (f (order m ! k))"
          using srt k(2) by (simp add: sorted_wrt_iff_nth_less)
        ultimately show False using k(1,3) eq by auto
      qed
      then show ?thesis using s(2) x by (auto simp: f_def)
    qed
    then show ?thesis using False by (simp add: start_def filter_True)
  qed
  finally have "map f (drop start (order m)) = after_cursor (Position t i) (map f (order m))"
    by (simp add: after_cursor_def filter_map comp_def)
  also have "map f (order m) = SortCanonical (entries m)" using mem_Sorted_canonical [OF assms] by (simp add: mem_Sorted_def f_def)
  finally show ?thesis using b by (simp add: mem_EntriesAfter_def start_def f_def Let_def)
qed

lemma mem_SetHash_spec:
  assumes "mem_inv m" and "mem_SetHash m = (h, m')"
  shows "h = SetHash (SortCanonical (entries m)) \<and> mem_inv m' \<and> entries m' = entries m"
proof -
  have "map (\<lambda>i. ids m ! i) (order m) = map entry_ID (mem_Sorted m)"
    using assms(1) order_bound [OF assms(1)] by (simp add: mem_inv_def mem_Sorted_def)
  then have "SetHashIDs (map (\<lambda>i. ids m ! i) (order m)) = SetHash (mem_Sorted m)" by (simp add: SetHash_def)
  then show ?thesis using assms mem_Sorted_canonical [OF assms(1)]
    by (auto simp: mem_SetHash_def Let_def mem_inv_def mem_Sorted_def split: if_splits)
qed

lemma mem_Newest_spec:
  assumes "mem_inv m"
  shows "mem_Newest m = (if entries m = [] then None else Some (last (SortCanonical (entries m))))"
proof -
  have "order m = [] \<longleftrightarrow> entries m = []" using order_bound [OF assms] by (metis empty_set lessThan_empty_iff length_0_conv set_empty)
  moreover have "last (mem_Sorted m) = entries m ! last (order m)" if "order m \<noteq> []"
    using that by (simp add: mem_Sorted_def last_map)
  ultimately show ?thesis using mem_Sorted_canonical [OF assms] by (simp add: mem_Newest_def)
qed

interpretation mem: entry_store mem_inv entries mem_Add mem_Has mem_Sorted mem_SetHash
  mem_EntriesAfter mem_Appended mem_Newest "\<lambda>_. True"
proof
  fix m assume i: "mem_inv m"
  then show "distinct (map entry_ID (entries m))" by (metis mem_inv_def)
  show "mem_Has m i \<longleftrightarrow> i \<in> ids_of (entries m)" for i using i by (simp add: mem_inv_def mem_Has_def)
  show "mem_Sorted m = SortCanonical (entries m)" using i by (rule mem_Sorted_canonical)
  show "mem_SetHash m = (h, m') \<Longrightarrow> h = SetHash (SortCanonical (entries m)) \<and> mem_inv m' \<and> entries m' = entries m" for h m'
    using i by (rule mem_SetHash_spec)
  show "mem_EntriesAfter m t i b = page_from b 0 False (after_cursor (Position t i) (SortCanonical (entries m)))" for t i b
    using i by (rule mem_EntriesAfter_spec)
  show "mem_Appended m k = drop k (entries m)" for k by (simp add: mem_Appended_def min_def)
  show "mem_Newest m = (if entries m = [] then None else Some (last (SortCanonical (entries m))))"
    using i by (rule mem_Newest_spec)
  show "mem_Add m es = (n, m') \<Longrightarrow> mem_inv m' \<and> entries m' = entries m @ new_entries (ids_of (entries m)) es
      \<and> n = length (new_entries (ids_of (entries m)) es)" for es n m'
    using i by (rule mem_Add_spec)
qed

section \<open>What MemStore promises\<close>

definition sample_entry :: "u64 \<Rightarrow> entry" where
  "sample_entry t = \<lparr>TsMs = t, Nonce = replicate 16 0, Ct = replicate 16 0\<rparr>"

text \<open>C18. The incrementally indexed store refines the plain set: whatever calls built it, an \<open>Add\<close> keeps
  the invariant, appends exactly the entries not yet held (in the store or earlier in the call) and
  counts them, and the index it maintains by binary insertion reads as the sort of everything held,
  with the set hash of that.\<close>

theorem mem_add_refines:
  assumes "mem_inv m" and "mem_Add m es = (n, m')"
  shows "mem_inv m' \<and> entries m' = entries m @ new_entries (ids_of (entries m)) es
    \<and> n = length (new_entries (ids_of (entries m)) es)
    \<and> mem_Sorted m' = SortCanonical (entries m') \<and> fst (mem_SetHash m') = SetHash (SortCanonical (entries m'))"
proof -
  have a: "mem_inv m' \<and> entries m' = entries m @ new_entries (ids_of (entries m)) es
      \<and> n = length (new_entries (ids_of (entries m)) es)"
    using mem.add_spec [OF assms(1) _ assms(2)] by simp
  obtain h m'' where h: "mem_SetHash m' = (h, m'')" by fastforce
  from a have i: "mem_inv m'" by blast
  show ?thesis using a mem.sorted_spec [OF i] mem.hash_spec [OF i h] h by (metis fst_conv)
qed

theorem mem_add_refines_witness:
  "mem_Sorted (snd (mem_Add NewMemStore [sample_entry 5])) = SortCanonical [sample_entry 5]"
  using mem_add_refines [OF mem_inv_New, of "[sample_entry 5]"]
  by (cases "mem_Add NewMemStore [sample_entry 5]") (simp add: NewMemStore_def)

text \<open>C20. The paged walk of a sync reads everything once, in order: pages of \<open>EntriesAfter\<close>, each asked
  for after the last entry of the one before, are together exactly the entries after the first
  cursor, with any byte budget, and stop with an empty page.\<close>

theorem mem_walk_complete:
  assumes "mem_inv m" and "mem_Len m < n"
  shows "pull_walk (\<lambda>t i. mem_EntriesAfter m t i budget) n p = after_cursor p (mem_Sorted m)"
  using assms by (intro mem.walk_complete) (simp_all add: mem_Len_def)

theorem mem_walk_complete_witness:
  "pull_walk (\<lambda>t i. mem_EntriesAfter (snd (mem_Add NewMemStore [sample_entry 5])) t i 10) 2 (Position 0 [])
    = [sample_entry 5]"
proof -
  obtain n m where m: "mem_Add NewMemStore [sample_entry 5] = (n, m)" by fastforce
  note s = mem.add_spec [OF mem_inv_New _ m]
  then have e: "entries m = [sample_entry 5]" "mem_inv m" by (simp_all add: NewMemStore_def)
  then have "mem_Len m < 2" by (simp add: mem_Len_def)
  then show ?thesis
    using mem_walk_complete [OF e(2), of 2 10 "Position 0 []"] mem.sorted_spec [OF e(2)] m e
    by (simp add: after_cursor_def SortCanonical_def pos_of_def less_position_def sample_entry_def)
qed

text \<open>Stores that hold the same entries agree: whatever order and batches the entries came in, the
  canonical views and the set hashes that PROBE compares are equal.\<close>

theorem mem_stores_agree:
  assumes "mem_inv m" and "mem_inv m'" and "set (entries m) = set (entries m')"
  shows "fst (mem_SetHash m) = fst (mem_SetHash m') \<and> map pos_of (mem_Sorted m) = map pos_of (mem_Sorted m')"
  using assms by (rule mem.same_set_same_view)

theorem mem_stores_agree_witness:
  "fst (mem_SetHash (snd (mem_Add NewMemStore [sample_entry 5, sample_entry 5]))) =
    fst (mem_SetHash (snd (mem_Add NewMemStore [sample_entry 5])))"
proof -
  obtain n m where m: "mem_Add NewMemStore [sample_entry 5, sample_entry 5] = (n, m)" by fastforce
  obtain n' m' where m': "mem_Add NewMemStore [sample_entry 5] = (n', m')" by fastforce
  show ?thesis
    using mem_stores_agree [of m m'] mem.add_spec [OF mem_inv_New _ m] mem.add_spec [OF mem_inv_New _ m'] m m'
    by (simp add: NewMemStore_def)
qed

text \<open>A page obeys its budget or is a single entry, and is empty only when nothing is left after the
  cursor.\<close>

theorem mem_page_bounds:
  assumes "mem_inv m"
  shows "(length (mem_EntriesAfter m t i budget) \<le> 1
      \<or> sum_list (map entry_Size (mem_EntriesAfter m t i budget)) \<le> budget)
    \<and> (mem_EntriesAfter m t i budget = [] \<longleftrightarrow> after_cursor (Position t i) (mem_Sorted m) = [])"
  using page_budget [OF refl] page_nonempty mem.after_spec [OF assms] mem.sorted_spec [OF assms]
  by (metis page_from.simps(1))

theorem mem_page_bounds_witness: "length (mem_EntriesAfter NewMemStore 0 [] 10) \<le> 1"
  using mem_page_bounds [OF mem_inv_New, of 0 "[]" 10]
  by (simp add: mem.after_spec [OF mem_inv_New]) (simp add: NewMemStore_def SortCanonical_def after_cursor_def)

end
