(* ===== verification/LogStore.thy ===== *)
theory LogStore
  imports Store
begin

text \<open>
  \<open>LogStore\<close> (\<open>logstore.go\<close>): a \<open>MemStore\<close> made durable by an append-only log. The file is its bytes;
  what the operating system does (a write that stops part way, a sync or truncate that fails) is an
  argument of each operation, so every error path is a branch. The advisory lock's outcome is an
  argument too.
\<close>

section \<open>Records\<close>

datatype log_error = ErrBadMagic | ErrLocked | ErrIO

definition logMagic :: bytes where
  "logMagic = ascii ''ASCONKVA''"

definition log_record :: "entry \<Rightarrow> bytes" where
  "log_record e = le_bytes 4 (of_nat (entry_Size e) :: u32) @ entry_Marshal e"

text \<open>One turn of the replay loop on a non-empty rest: the record and its length, or a torn tail.\<close>

definition read_record :: "bytes \<Rightarrow> unit + entry \<times> nat" where
  "read_record r =
     (if length r < 4 then Inl ()
      else let recLen = unat (le_word (take 4 r) :: u32); buf = take recLen (drop 4 r)
           in if recLen = 0 \<or> MaxEntryBytes < recLen then Inl ()
              else if length (drop 4 r) < recLen then Inl ()
              else case UnmarshalEntry buf of
                     Inl _ \<Rightarrow> Inl ()
                   | Inr (e, consumed) \<Rightarrow> if consumed \<noteq> recLen then Inl () else Inr (e, 4 + recLen))"

lemma length_log_record: "entry_ok e \<Longrightarrow> length (log_record e) = 4 + entry_Size e"
  by (simp add: log_record_def entry_ok_def length_Marshal)

lemma read_record_append: "entry_ok e \<Longrightarrow> read_record (log_record e @ r) = Inr (e, length (log_record e))"
proof -
  assume ok: "entry_ok e"
  then have n: "entry_Size e \<le> 65536" "26 \<le> entry_Size e" "length (entry_Marshal e) = entry_Size e"
    by (auto simp: entry_ok_def entry_sizes length_Marshal)
  then have "unat (of_nat (entry_Size e) :: u32) = entry_Size e" by (simp add: unat_of_nat)
  then show ?thesis using n unmarshal_marshal [OF ok, of "[]"] ok
    by (simp add: read_record_def log_record_def Let_def MaxEntryBytes_def length_Marshal entry_ok_def)
qed

lemma read_record_sound:
  assumes "read_record b = Inr (e, n)"
  shows "entry_ok e \<and> n \<le> length b \<and> take n b = log_record e"
proof -
  define k where "k = unat (le_word (take 4 b) :: u32)"
  have l: "4 \<le> length b" using assms by (auto simp: read_record_def split: if_splits)
  have u: "k \<le> length (drop 4 b)" "UnmarshalEntry (take k (drop 4 b)) = Inr (e, k)" "n = 4 + k"
    using assms l unfolding read_record_def k_def [symmetric] Let_def
    by (auto split: if_splits sum.splits)
  from unmarshal_sound [OF u(2)] u(1) have e: "entry_ok e" "take k (drop 4 b) = entry_Marshal e" by auto
  then have "length (entry_Marshal e) = k" using u(1) by (metis length_take min.absorb2)
  then have "entry_Size e = k" using e(1) by (simp add: length_Marshal entry_ok_def)
  moreover have "le_bytes 4 (of_nat k :: u32) = take 4 b"
    using le_bytes_le_word [where 'a = 32, of "take 4 b"] l by (simp add: k_def)
  ultimately have "take n b = log_record e" using e(2) by (simp add: log_record_def u(3) take_add)
  then show ?thesis using e(1) u l by simp
qed

interpretation log_rec: nonempty_codec log_record read_record entry_ok
proof
  fix e r assume "entry_ok e"
  then show "read_record (log_record e @ r) = Inr (e, length (log_record e))" by (rule read_record_append)
next
  fix b e n assume "read_record b = Inr (e, n)"
  then show "entry_ok e \<and> n \<le> length b \<and> take n b = log_record e" by (rule read_record_sound)
next
  fix e assume "entry_ok e"
  then show "log_record e \<noteq> []" using length_log_record [of e] by auto
qed

lemma read_record_pos: "read_record b = Inr (e, n) \<Longrightarrow> 0 < n"
  using log_rec.dec_sound_split [of b e n] log_rec.enc_nonempty [of e] by auto

section \<open>Opening\<close>

record logstore =
  mem :: memstore
  log_file :: bytes
  off :: nat
  is_open :: bool

text \<open>
  \<open>replay\<close>'s loop: the set, the offset reached, and whether the rest is a torn tail. Reading the
  file is taken to succeed here; \<open>open_io\<close> has the outcome in which it does not.
\<close>

function replay_loop :: "memstore \<Rightarrow> nat \<Rightarrow> bytes \<Rightarrow> memstore \<times> nat \<times> bool" where
  "replay_loop m offset r =
     (if r = [] then (m, offset, False)
      else case read_record r of
             Inl _ \<Rightarrow> (m, offset, True)
           | Inr (e, n) \<Rightarrow> replay_loop (snd (mem_Add m [e])) (offset + n) (drop n r))"
  by pat_completeness auto
termination
  by (relation "measure (\<lambda>(m, offset, r). length r)") (auto dest: read_record_pos)

declare replay_loop.simps [simp del]

text \<open>
  What the system answers while a log is opened: making the directory or opening the file fails, the
  lock's outcome, \<open>Stat\<close>, the bytes of the magic written before a write failed (\<open>None\<close>: all), the
  sync after it, reading, truncating, seeking.
\<close>

record open_io =
  openE :: bool
  lockE :: "log_error option"
  statE :: bool
  magicW :: "nat option"
  magicSyncE :: bool
  readE :: bool
  truncE :: bool
  seekE :: bool

definition truncateTo :: "nat \<Rightarrow> memstore \<Rightarrow> bytes \<Rightarrow> open_io \<Rightarrow> (log_error + logstore) \<times> bytes" where
  "truncateTo offset m f io =
     (if truncE io then (Inl ErrIO, f)
      else let f = take offset f
           in if seekE io then (Inl ErrIO, f)
              else (Inr \<lparr>mem = m, log_file = f, off = offset, is_open = True\<rparr>, f))"

definition replay :: "bytes \<Rightarrow> open_io \<Rightarrow> (log_error + logstore) \<times> bytes" where
  "replay f io =
     (if readE io then (Inl ErrIO, f)
      else case replay_loop NewMemStore (length logMagic) (drop (length logMagic) f) of
             (m, offset, torn) \<Rightarrow>
               if torn then truncateTo offset m f io
               else if seekE io then (Inl ErrIO, f)
               else (Inr \<lparr>mem = m, log_file = f, off = length f, is_open = True\<rparr>, f))"

definition log_init :: "bytes \<Rightarrow> open_io \<Rightarrow> (log_error + logstore) \<times> bytes" where
  "log_init f io =
     (if statE io then (Inl ErrIO, f)
      else if length f = 0
      then (case magicW io of
              Some k \<Rightarrow> (Inl ErrIO, take k logMagic)
            | None \<Rightarrow>
                if magicSyncE io then (Inl ErrIO, logMagic)
                else (Inr \<lparr>mem = NewMemStore, log_file = logMagic, off = length logMagic, is_open = True\<rparr>, logMagic))
      else if length f < length logMagic then (Inl ErrBadMagic, f)
      else if readE io then (Inl ErrIO, f)
      else if take (length logMagic) f \<noteq> logMagic then (Inl ErrBadMagic, f)
      else replay f io)"

text \<open>A file that does not exist is created empty. The second component is the file afterwards.\<close>

definition OpenLogStore :: "bytes option \<Rightarrow> open_io \<Rightarrow> (log_error + logstore) \<times> bytes option" where
  "OpenLogStore f io =
     (if openE io then (Inl ErrIO, f)
      else let f = (case f of None \<Rightarrow> [] | Some b \<Rightarrow> b)
           in case lockE io of
                Some e \<Rightarrow> (Inl e, Some f)
              | None \<Rightarrow> (case log_init f io of (r, f) \<Rightarrow> (r, Some f)))"

definition log_Close :: "logstore \<Rightarrow> logstore" where
  "log_Close ls = ls\<lparr>is_open := False\<rparr>"

section \<open>Adding\<close>

text \<open>What the system answers during an \<open>Add\<close>.\<close>

record add_io =
  aSeekE :: bool
  aWrite :: "nat option"
  aSyncE :: bool
  aTruncE :: bool
  aBackE :: bool

definition write_at :: "nat \<Rightarrow> bytes \<Rightarrow> bytes \<Rightarrow> bytes" where
  "write_at p b f = take p f @ replicate (p - length f) 0 @ b @ drop (p + length b) f"

text \<open>
  Best effort: a truncate that fails leaves the file as it is, a seek back that fails leaves the offset at the end of what
  was written.
\<close>

definition rollback :: "nat \<Rightarrow> add_io \<Rightarrow> logstore \<Rightarrow> logstore" where
  "rollback p io ls =
     ls\<lparr>log_file := (if aTruncE io then log_file ls else take p (log_file ls)), off := (if aBackE io then off ls else p)\<rparr>"

fun add_all :: "memstore \<Rightarrow> entry list \<Rightarrow> memstore" where
  "add_all m [] = m"
| "add_all m (e # es) = add_all (snd (mem_addID (entry_ID e) e m)) es"

definition log_Add :: "logstore \<Rightarrow> entry list \<Rightarrow> add_io \<Rightarrow> (log_error + nat) \<times> logstore" where
  "log_Add ls es io =
     (let news = new_entries (has_ids (mem ls)) es
      in if news = [] then (Inr 0, ls)
         else let buf = concat (map log_record news)
              in if \<not> is_open ls \<or> aSeekE io then (Inl ErrIO, ls)
                 else let p = off ls
                      in case aWrite io of
                           Some k \<Rightarrow> (Inl ErrIO, rollback p io (ls\<lparr>log_file := write_at p (take k buf) (log_file ls), off := p + k\<rparr>))
                         | None \<Rightarrow>
                             let ls = ls\<lparr>log_file := write_at p buf (log_file ls), off := p + length buf\<rparr>
                             in if aSyncE io then (Inl ErrIO, rollback p io ls)
                                else (Inr (length news), ls\<lparr>mem := add_all (mem ls) news\<rparr>))"

section \<open>Replaying records\<close>

abbreviation log_records :: "entry list \<Rightarrow> bytes" where
  "log_records rs \<equiv> concat (map log_record rs)"

lemma new_entries_append:
  "new_entries held (xs @ ys) = new_entries held xs @ new_entries (held \<union> ids_of xs) ys"
proof (induction held xs rule: new_entries.induct)
  case (2 held e es)
  then show ?case by (auto simp: insert_absorb Un_commute)
qed simp

lemma new_entries_idem: "new_entries held (new_entries held es) = new_entries held es"
  by (rule new_entries_all) (auto simp: new_entries_distinct new_entries_ids)

lemma mem_Add_Cons: "snd (mem_Add m (e # es)) = snd (mem_Add (snd (mem_Add m [e])) es)"
  by (simp split: prod.split)

lemma add_all_Add: "add_all m es = snd (mem_Add m es)"
  by (induction m es rule: add_all.induct) (simp_all add: mem_addID_def split: prod.split)

lemma mem_Add_inv: "mem_inv m \<Longrightarrow> mem_inv (snd (mem_Add m es))"
  using mem_Add_spec [of m es] by (cases "mem_Add m es") auto

lemma mem_Add_entries: "mem_inv m \<Longrightarrow> entries (snd (mem_Add m es)) = entries m @ new_entries (ids_of (entries m)) es"
  using mem_Add_spec [of m es] by (cases "mem_Add m es") auto

lemma replay_loop_records:
  "\<forall>e \<in> set rs. entry_ok e \<Longrightarrow>
    replay_loop m p (log_records rs @ t) = replay_loop (snd (mem_Add m rs)) (p + length (log_records rs)) t"
proof (induction rs arbitrary: m p)
  case (Cons e rs)
  have "log_record e \<noteq> []" using Cons.prems log_rec.enc_nonempty by simp
  then have "replay_loop m p (log_records (e # rs) @ t) =
      replay_loop (snd (mem_Add m [e])) (p + length (log_record e)) (log_records rs @ t)"
    using Cons.prems log_rec.dec_enc [of e "log_records rs @ t"]
    by (subst replay_loop.simps) simp
  also have "\<dots> = replay_loop (snd (mem_Add m (e # rs))) (p + length (log_records (e # rs))) t"
    using Cons unfolding mem_Add_Cons [of m e rs] by (simp add: add.assoc)
  finally show ?case .
qed simp

lemma replay_loop_sound:
  "replay_loop m p r = (m', p', torn) \<Longrightarrow>
    \<exists>rs. (\<forall>e \<in> set rs. entry_ok e) \<and> m' = snd (mem_Add m rs) \<and> p' = p + length (log_records rs)
      \<and> take (length (log_records rs)) r = log_records rs \<and> (\<not> torn \<longrightarrow> r = log_records rs)"
proof (induction m p r rule: replay_loop.induct)
  case (1 m p r)
  show ?case
  proof (cases "r = [] \<or> (\<exists>u. read_record r = Inl u)")
    case True
    then have "replay_loop m p r = (m, p, r \<noteq> [])" by (subst replay_loop.simps) auto
    then show ?thesis using "1.prems" by (intro exI [of _ "[]"]) simp
  next
    case False
    then obtain e n where d: "read_record r = Inr (e, n)" by (cases "read_record r") auto
    have rec: "replay_loop (snd (mem_Add m [e])) (p + n) (drop n r) = (m', p', torn)"
      using "1.prems" False d by (subst (asm) replay_loop.simps) simp
    from "1.IH" [OF _ d refl rec] False obtain rs where rs: "\<forall>e \<in> set rs. entry_ok e"
      "m' = snd (mem_Add (snd (mem_Add m [e])) rs)" "p' = p + n + length (log_records rs)"
      "take (length (log_records rs)) (drop n r) = log_records rs" "\<not> torn \<longrightarrow> drop n r = log_records rs"
      by auto
    have e: "entry_ok e" "n = length (log_record e)" "r = log_record e @ drop n r"
      using log_rec.dec_sound_split [OF d] by auto
    have "take (length (log_records (e # rs))) r = log_records (e # rs)"
      using rs(4) e(2) by (subst e(3)) simp
    moreover have "\<not> torn \<longrightarrow> r = log_records (e # rs)" using rs(5) e(3) by auto
    ultimately show ?thesis using rs(1-3) e(1,2) mem_Add_Cons [of m e rs]
      by (intro exI [of _ "e # rs"]) auto
  qed
qed

text \<open>A tail that is a proper part of a record is torn.\<close>

lemma replay_loop_torn:
  assumes "entry_ok e" and "log_record e = t @ u" and "t \<noteq> []" and "u \<noteq> []"
  shows "replay_loop m p t = (m, p, True)"
proof -
  obtain x where "read_record t = Inl x" using log_rec.dec_truncated [OF assms(1,2,4)] by auto
  then show ?thesis using assms(3) by (subst replay_loop.simps) simp
qed

text \<open>Any part of a run of records is whole records and a torn one.\<close>

lemma take_records:
  "\<forall>e \<in> set rs. entry_ok e \<Longrightarrow>
    \<exists>j t. take k (log_records rs) = log_records (take j rs) @ t \<and> j \<le> length rs
      \<and> (t = [] \<or> (\<exists>e u. entry_ok e \<and> log_record e = t @ u \<and> u \<noteq> []))
      \<and> (length (log_records rs) \<le> k \<longrightarrow> j = length rs \<and> t = [])"
proof (induction rs arbitrary: k)
  case (Cons e rs)
  show ?case
  proof (cases "length (log_record e) \<le> k")
    case True
    obtain j t where "take (k - length (log_record e)) (log_records rs) = log_records (take j rs) @ t"
      "j \<le> length rs" "t = [] \<or> (\<exists>e u. entry_ok e \<and> log_record e = t @ u \<and> u \<noteq> [])"
      "length (log_records rs) \<le> k - length (log_record e) \<longrightarrow> j = length rs \<and> t = []"
      using Cons.IH [of "k - length (log_record e)"] Cons.prems by auto
    then show ?thesis using True by (intro exI [of _ "Suc j"] exI [of _ t]) auto
  next
    case False
    have "log_record e = take k (log_record e) @ drop k (log_record e)" by simp
    moreover have "drop k (log_record e) \<noteq> []" using False by simp
    ultimately have "\<exists>e' u. entry_ok e' \<and> log_record e' = take k (log_record e) @ u \<and> u \<noteq> []"
      using Cons.prems by (metis list.set_intros(1))
    then show ?thesis using False
      by (intro exI [of _ 0] exI [of _ "take k (log_record e)"]) simp
  qed
qed simp

section \<open>The log's invariant\<close>

definition log_inv :: "logstore \<Rightarrow> bool" where
  "log_inv ls \<longleftrightarrow> is_open ls \<and> mem_inv (mem ls) \<and> off ls = length (log_file ls) \<and>
     (\<exists>rs. (\<forall>e \<in> set rs. entry_ok e) \<and> log_file ls = logMagic @ log_records rs
       \<and> entries (mem ls) = new_entries {} rs)"

definition good_open :: open_io where
  "good_open = \<lparr>openE = False, lockE = None, statE = False, magicW = None, magicSyncE = False,
     readE = False, truncE = False, seekE = False\<rparr>"

definition good_add :: add_io where
  "good_add = \<lparr>aSeekE = False, aWrite = None, aSyncE = False, aTruncE = False, aBackE = False\<rparr>"

lemma length_logMagic: "length logMagic = 8"
  by (simp add: logMagic_def ascii_def)

lemma logMagic_nonempty: "logMagic \<noteq> []"
  using length_logMagic by auto

lemma replayed_inv:
  "\<forall>e \<in> set rs. entry_ok e \<Longrightarrow>
    log_inv \<lparr>mem = snd (mem_Add NewMemStore rs), log_file = logMagic @ log_records rs,
      off = 8 + length (log_records rs), is_open = True\<rparr>"
  using mem_Add_inv [OF mem_inv_New, of rs] mem_Add_entries [OF mem_inv_New, of rs]
  by (auto simp: log_inv_def length_logMagic NewMemStore_def)

lemma open_log:
  assumes "\<forall>e \<in> set rs. entry_ok e"
  shows "\<exists>rs' ls. (\<forall>e \<in> set rs'. entry_ok e)
    \<and> OpenLogStore (Some (logMagic @ log_records rs @ t)) good_open = (Inr ls, Some (log_file ls))
    \<and> log_inv ls \<and> log_file ls = logMagic @ log_records rs' \<and> mem ls = snd (mem_Add NewMemStore rs')
    \<and> (\<exists>ts. rs' = rs @ ts)"
proof -
  obtain m' p' torn where l: "replay_loop (snd (mem_Add NewMemStore rs)) (8 + length (log_records rs)) t = (m', p', torn)"
    using prod_cases3 by blast
  from replay_loop_sound [OF l] obtain ts where ts: "\<forall>e \<in> set ts. entry_ok e"
    "m' = snd (mem_Add (snd (mem_Add NewMemStore rs)) ts)" "p' = 8 + length (log_records rs) + length (log_records ts)"
    "take (length (log_records ts)) t = log_records ts" "\<not> torn \<longrightarrow> t = log_records ts"
    by blast
  have app: "snd (mem_Add (snd (mem_Add m xs)) ys) = snd (mem_Add m (xs @ ys))" for m xs ys
    by (simp flip: add_all_Add) (induction m xs rule: add_all.induct; simp)
  define ls where "ls = \<lparr>mem = snd (mem_Add NewMemStore (rs @ ts)), log_file = logMagic @ log_records (rs @ ts),
      off = 8 + length (log_records (rs @ ts)), is_open = True\<rparr>"
  have r: "replay_loop NewMemStore 8 (log_records rs @ t) = (m', p', torn)"
    using replay_loop_records [OF assms, of NewMemStore 8 t] l by simp
  have tk: "take (8 + (length (log_records rs) + length (log_records ts))) (logMagic @ log_records rs @ t)
      = logMagic @ log_records (rs @ ts)"
    using ts(4) by (simp add: length_logMagic)
  have "OpenLogStore (Some (logMagic @ log_records rs @ t)) good_open = (Inr ls, Some (log_file ls))"
    using ts r tk by (simp add: OpenLogStore_def good_open_def log_init_def length_logMagic replay_def
        truncateTo_def app ls_def Let_def add.assoc logMagic_nonempty)
  moreover have "log_inv ls" unfolding ls_def using assms ts(1) by (intro replayed_inv) auto
  ultimately show ?thesis using ts assms
    by (intro exI [of _ "rs @ ts"] exI [of _ ls]) (auto simp: ls_def)
qed

lemma entries_replayed: "entries (snd (mem_Add NewMemStore rs)) = new_entries {} rs"
  using mem_Add_entries [OF mem_inv_New, of rs] by (simp add: NewMemStore_def)

lemma log_Add_ok:
  assumes inv: "log_inv ls" and ok: "\<forall>e \<in> set es. entry_ok e"
  shows "case log_Add ls es io of
      (Inr n, ls') \<Rightarrow> log_inv ls' \<and> n = length (new_entries (ids_of (entries (mem ls))) es)
        \<and> entries (mem ls') = entries (mem ls) @ new_entries (ids_of (entries (mem ls))) es
    | (Inl e, ls') \<Rightarrow> mem ls' = mem ls \<and> is_open ls' \<and> (\<not> aTruncE io \<longrightarrow> log_file ls' = log_file ls)
        \<and> (\<not> aBackE io \<longrightarrow> off ls' = off ls)
        \<and> (\<exists>k. log_file ls' = log_file ls @ take k (log_records (new_entries (ids_of (entries (mem ls))) es)))"
proof -
  define news where "news = new_entries (ids_of (entries (mem ls))) es"
  have h: "has_ids (mem ls) = ids_of (entries (mem ls))" and m: "mem_inv (mem ls)" and o: "off ls = length (log_file ls)"
    and op: "is_open ls"
    using inv by (auto simp: log_inv_def mem_inv_def)
  have w: "write_at (length (log_file ls)) b (log_file ls) = log_file ls @ b" for b by (simp add: write_at_def)
  obtain rs where rs: "\<forall>e \<in> set rs. entry_ok e" "log_file ls = logMagic @ log_records rs"
    "entries (mem ls) = new_entries {} rs"
    using inv by (auto simp: log_inv_def)
  have nok: "\<forall>e \<in> set news. entry_ok e" using ok new_entries_set by (auto simp: news_def)
  have e: "entries (add_all (mem ls) news) = entries (mem ls) @ news"
    using mem_Add_entries [OF m, of news] by (simp add: add_all_Add news_def new_entries_idem)
  have all: "new_entries {} (rs @ news) = new_entries {} rs @ news"
  proof -
    have "ids_of rs = ids_of (entries (mem ls))" using new_entries_ids [of "{}" rs] rs(3) by simp
    then show ?thesis by (simp add: new_entries_append news_def new_entries_idem)
  qed
  have good: "log_inv (ls\<lparr>log_file := log_file ls @ log_records news, off := off ls + length (log_records news),
      mem := add_all (mem ls) news\<rparr>)"
    using op rs nok o e all mem_Add_inv [OF m, of news] unfolding log_inv_def
    by (auto simp: add_all_Add intro!: exI [of _ "rs @ news"])
  have nil: "\<exists>k. log_file ls = log_file ls @ take k (log_records news)" by (intro exI [of _ 0]) simp
  have full: "\<exists>k. log_file ls @ log_records news = log_file ls @ take k (log_records news)"
    by (intro exI [of _ "length (log_records news)"]) simp
  consider "news = []" | "news \<noteq> []" "aSeekE io" | k where "news \<noteq> []" "\<not> aSeekE io" "aWrite io = Some k"
    | "news \<noteq> []" "\<not> aSeekE io" "aWrite io = None" "aSyncE io"
    | "news \<noteq> []" "\<not> aSeekE io" "aWrite io = None" "\<not> aSyncE io"
    by (cases "aWrite io") auto
  then show ?thesis
  proof cases
    case 1
    then show ?thesis using inv by (simp add: log_Add_def h news_def [symmetric])
  next
    case 2
    then show ?thesis using op nil by (simp add: log_Add_def h news_def [symmetric] Let_def)
  next
    case (3 k)
    then show ?thesis using op nil
      by (auto simp: log_Add_def h news_def [symmetric] Let_def rollback_def w o)
  next
    case 4
    then show ?thesis using op nil full
      by (auto simp: log_Add_def h news_def [symmetric] Let_def rollback_def w o)
  next
    case 5
    then show ?thesis using op good e
      by (simp add: log_Add_def h news_def [symmetric] Let_def w o)
  qed
qed

lemma log_reopen_any_tail:
  assumes "log_inv ls"
  shows "\<exists>ls' ts. OpenLogStore (Some (log_file ls @ tail)) good_open = (Inr ls', Some (log_file ls'))
    \<and> log_inv ls' \<and> entries (mem ls') = entries (mem ls) @ ts"
proof -
  obtain rs where rs: "\<forall>e \<in> set rs. entry_ok e" "log_file ls = logMagic @ log_records rs"
    "entries (mem ls) = new_entries {} rs"
    using assms by (auto simp: log_inv_def)
  obtain rs' ls' ts where "OpenLogStore (Some (logMagic @ log_records rs @ tail)) good_open = (Inr ls', Some (log_file ls'))"
    "log_inv ls'" "mem ls' = snd (mem_Add NewMemStore rs')" "rs' = rs @ ts"
    using open_log [OF rs(1), of tail] by auto
  then show ?thesis using rs by (auto simp: entries_replayed new_entries_append)
qed

lemma log_reopen_part:
  assumes "log_inv ls" and "\<forall>e \<in> set fs. entry_ok e" and "distinct (map entry_ID fs)"
    and "ids_of fs \<inter> ids_of (entries (mem ls)) = {}"
  shows "\<exists>ls' j. OpenLogStore (Some (log_file ls @ take k (log_records fs))) good_open = (Inr ls', Some (log_file ls'))
    \<and> log_inv ls' \<and> entries (mem ls') = entries (mem ls) @ take j fs
    \<and> (length (log_records fs) \<le> k \<longrightarrow> j = length fs)"
proof -
  obtain rs where rs: "\<forall>e \<in> set rs. entry_ok e" "log_file ls = logMagic @ log_records rs"
    "entries (mem ls) = new_entries {} rs"
    using assms(1) by (auto simp: log_inv_def)
  obtain j t where j: "take k (log_records fs) = log_records (take j fs) @ t" "j \<le> length fs"
    "t = [] \<or> (\<exists>e u. entry_ok e \<and> log_record e = t @ u \<and> u \<noteq> [])"
    "length (log_records fs) \<le> k \<longrightarrow> j = length fs \<and> t = []"
    using take_records [OF assms(2)] by blast
  define rs' where "rs' = rs @ take j fs"
  have ok: "\<forall>e \<in> set rs'. entry_ok e" using rs(1) assms(2) by (auto simp: rs'_def dest: in_set_takeD)
  define ls' where "ls' = \<lparr>mem = snd (mem_Add NewMemStore rs'), log_file = logMagic @ log_records rs',
      off = 8 + length (log_records rs'), is_open = True\<rparr>"
  have tl: "replay_loop m p t = (m, p, t \<noteq> [])" for m p
    using j(3) replay_loop_torn by (cases "t = []") (auto simp: replay_loop.simps)
  have f: "log_file ls @ take k (log_records fs) = logMagic @ log_records rs' @ t" by (simp add: rs(2) j(1) rs'_def)
  have "OpenLogStore (Some (logMagic @ log_records rs' @ t)) good_open = (Inr ls', Some (log_file ls'))"
    using replay_loop_records [OF ok, of NewMemStore 8 t] tl
    by (cases "t = []") (simp_all add: OpenLogStore_def good_open_def log_init_def length_logMagic replay_def
        truncateTo_def ls'_def Let_def logMagic_nonempty)
  moreover have "log_inv ls'" unfolding ls'_def using ok by (rule replayed_inv)
  moreover have "entries (mem ls') = entries (mem ls) @ take j fs"
  proof -
    have "ids_of rs = ids_of (entries (mem ls))" using new_entries_ids [of "{}" rs] rs(3) by simp
    moreover have "distinct (map entry_ID (take j fs))" using assms(3) by (simp flip: take_map)
    moreover have "ids_of (take j fs) \<inter> ids_of (entries (mem ls)) = {}" using assms(4) by (auto dest: in_set_takeD)
    ultimately show ?thesis using rs(3)
      by (simp add: ls'_def entries_replayed rs'_def new_entries_append new_entries_all)
  qed
  ultimately show ?thesis using f j(4) by auto
qed

section \<open>The log as a Store\<close>

text \<open>The store's methods on a log whose file the system serves: reads are the \<open>MemStore\<close>'s.\<close>

definition log_add :: "logstore \<Rightarrow> entry list \<Rightarrow> nat \<times> logstore" where
  "log_add ls es = (case log_Add ls es good_add of (Inr n, ls) \<Rightarrow> (n, ls) | (Inl _, ls) \<Rightarrow> (0, ls))"

definition log_contents :: "logstore \<Rightarrow> entry list" where
  "log_contents ls = entries (mem ls)"

definition log_SetHash :: "logstore \<Rightarrow> bytes \<times> logstore" where
  "log_SetHash ls = (case mem_SetHash (mem ls) of (h, m) \<Rightarrow> (h, ls\<lparr>mem := m\<rparr>))"

lemma log_mem_inv: "log_inv ls \<Longrightarrow> mem_inv (mem ls)"
  by (simp add: log_inv_def)

lemma log_Add_good:
  "log_inv ls \<Longrightarrow> \<exists>n ls'. log_Add ls es good_add = (Inr n, ls')"
  by (auto simp: log_Add_def good_add_def Let_def log_inv_def)

lemma log_SetHash_spec:
  assumes i: "log_inv ls" and h: "log_SetHash ls = (h, ls')"
  shows "h = SetHash (SortCanonical (log_contents ls)) \<and> log_inv ls' \<and> log_contents ls' = log_contents ls"
proof -
  obtain m where m: "mem_SetHash (mem ls) = (h, m)" "ls' = ls\<lparr>mem := m\<rparr>"
    using h by (auto simp: log_SetHash_def split: prod.splits)
  note s = mem.hash_spec [OF log_mem_inv [OF i] m(1)]
  then show ?thesis using i unfolding m(2) by (simp add: log_inv_def log_contents_def)
qed

interpretation log: entry_store log_inv log_contents log_add "\<lambda>ls. mem_Has (mem ls)"
  "\<lambda>ls. mem_Sorted (mem ls)" log_SetHash "\<lambda>ls. mem_EntriesAfter (mem ls)"
  "\<lambda>ls. mem_Appended (mem ls)" "\<lambda>ls. mem_Newest (mem ls)" entry_ok
proof
  fix ls assume i: "log_inv ls"
  note m = log_mem_inv [OF i]
  show "distinct (map entry_ID (log_contents ls))" unfolding log_contents_def using m by (rule mem.contents_distinct)
  show "mem_Has (mem ls) x \<longleftrightarrow> x \<in> ids_of (log_contents ls)" for x
    unfolding log_contents_def using m by (rule mem.has_spec)
  show "mem_Sorted (mem ls) = SortCanonical (log_contents ls)" unfolding log_contents_def using m by (rule mem.sorted_spec)
  show "mem_EntriesAfter (mem ls) t x b =
      page_from b 0 False (after_cursor (Position t x) (SortCanonical (log_contents ls)))" for t x b
    unfolding log_contents_def using m by (rule mem.after_spec)
  show "mem_Appended (mem ls) k = drop k (log_contents ls)" for k
    unfolding log_contents_def using m by (rule mem.appended_spec)
  show "mem_Newest (mem ls) = (if log_contents ls = [] then None else Some (last (SortCanonical (log_contents ls))))"
    unfolding log_contents_def using m by (rule mem.newest_spec)
  show "log_SetHash ls = (h, ls') \<Longrightarrow> h = SetHash (SortCanonical (log_contents ls)) \<and> log_inv ls' \<and>
      log_contents ls' = log_contents ls" for h ls'
    using i by (rule log_SetHash_spec)
  show "\<forall>e \<in> set es. entry_ok e \<Longrightarrow> log_add ls es = (n, ls') \<Longrightarrow>
      log_inv ls' \<and> log_contents ls' = log_contents ls @ new_entries (ids_of (log_contents ls)) es
        \<and> n = length (new_entries (ids_of (log_contents ls)) es)" for es n ls'
  proof -
    assume es: "\<forall>e \<in> set es. entry_ok e" and a: "log_add ls es = (n, ls')"
    obtain n' ls1 where g: "log_Add ls es good_add = (Inr n', ls1)" using log_Add_good [OF i] by blast
    then show ?thesis using log_Add_ok [OF i es, of good_add] a by (simp add: log_add_def log_contents_def)
  qed
qed

definition empty_log :: logstore where
  "empty_log = \<lparr>mem = NewMemStore, log_file = logMagic, off = 8, is_open = True\<rparr>"

lemma empty_log_inv: "log_inv empty_log"
  using replayed_inv [of "[]"] by (simp add: empty_log_def)

lemma sample_entry_ok: "entry_ok (sample_entry t)"
  by (simp add: entry_ok_def sample_entry_def entry_sizes)

section \<open>What LogStore promises\<close>

lemma news_apart:
  "news = new_entries (ids_of (entries m)) es \<Longrightarrow> \<forall>e \<in> set es. entry_ok e \<Longrightarrow>
    (\<forall>e \<in> set news. entry_ok e) \<and> distinct (map entry_ID news) \<and> ids_of news \<inter> ids_of (entries m) = {}"
  using new_entries_set by (auto simp: new_entries_distinct new_entries_ids)

text \<open>C24. \<open>Add\<close> is one durability unit: it succeeds with all of the call's new entries in the set and in
  the file, or fails with the set unchanged. After a failure the file is as it was when the rollback's truncate works, and
  the offset when its seek works. When the truncate fails a part of the call's records may be left behind the committed
  ones; the next open then finds every committed entry and a prefix of the call's, each whole.\<close>

theorem log_add_atomic:
  assumes "log_inv ls" and "\<forall>e \<in> set es. entry_ok e" and "news = new_entries (ids_of (entries (mem ls))) es"
  shows "case log_Add ls es io of
      (Inr n, ls') \<Rightarrow> log_inv ls' \<and> n = length news \<and> entries (mem ls') = entries (mem ls) @ news
    | (Inl e, ls') \<Rightarrow> mem ls' = mem ls \<and> (\<not> aTruncE io \<longrightarrow> log_file ls' = log_file ls) \<and> (\<not> aTruncE io \<and> \<not> aBackE io \<longrightarrow> ls' = ls)
        \<and> (\<exists>k. log_file ls' = log_file ls @ take k (log_records news))
        \<and> (\<exists>ls'' j. OpenLogStore (Some (log_file ls')) good_open = (Inr ls'', Some (log_file ls''))
              \<and> log_inv ls'' \<and> entries (mem ls'') = entries (mem ls) @ take j news)"
proof (cases "log_Add ls es io")
  case (Pair r ls')
  show ?thesis
  proof (cases r)
    case (Inr n)
    then show ?thesis using log_Add_ok [OF assms(1,2), of io] Pair assms(3) by simp
  next
    case (Inl e)
    then have l: "mem ls' = mem ls" "is_open ls'" "\<not> aTruncE io \<longrightarrow> log_file ls' = log_file ls" "\<not> aBackE io \<longrightarrow> off ls' = off ls"
      "\<exists>k. log_file ls' = log_file ls @ take k (log_records news)"
      using log_Add_ok [OF assms(1,2), of io] Pair assms(3) by simp_all
    then obtain k where k: "log_file ls' = log_file ls @ take k (log_records news)" by blast
    have "is_open ls" using assms(1) by (simp add: log_inv_def)
    then have "\<not> aTruncE io \<and> \<not> aBackE io \<longrightarrow> ls' = ls" using l(1-4) by (cases ls; cases ls') simp
    moreover have "\<exists>ls'' j. OpenLogStore (Some (log_file ls')) good_open = (Inr ls'', Some (log_file ls''))
        \<and> log_inv ls'' \<and> entries (mem ls'') = entries (mem ls) @ take j news"
      using log_reopen_part [OF assms(1), of news k] news_apart [OF assms(3,2)] unfolding k by blast
    ultimately show ?thesis using Pair Inl l(1,3,5) by simp
  qed
qed

theorem log_add_atomic_witness:
  "snd (log_Add empty_log [sample_entry 1] (good_add\<lparr>aSyncE := True\<rparr>)) = empty_log"
  using log_add_atomic [OF empty_log_inv, of "[sample_entry 1]" "[sample_entry 1]" "good_add\<lparr>aSyncE := True\<rparr>"] sample_entry_ok
  by (auto simp: good_add_def log_Add_def Let_def empty_log_def NewMemStore_def)

text \<open>When the sync fails and then the rollback's seek back too, the file ends before the offset. The next \<open>Add\<close> is
  acknowledged, but it is written past a hole of zeros, which the next open takes for a torn tail: its entries are lost.\<close>

theorem log_seek_back_lost:
  assumes "log_inv ls" "\<forall>e \<in> set es. entry_ok e" "log_Add ls es (good_add\<lparr>aSyncE := True, aBackE := True\<rparr>) = (Inl ErrIO, ls')"
    "log_Add ls' fs good_add = (Inr n, ls'')" "0 < n"
  shows "entries (mem ls'') = entries (mem ls) @ new_entries (ids_of (entries (mem ls))) fs
    \<and> (\<exists>l. OpenLogStore (Some (log_file ls'')) good_open = (Inr l, Some (log_file ls)) \<and> entries (mem l) = entries (mem ls))"
proof -
  define news where "news = new_entries (ids_of (entries (mem ls))) es"
  define late where "late = new_entries (ids_of (entries (mem ls))) fs"
  obtain rs where rs: "\<forall>e \<in> set rs. entry_ok e" "log_file ls = logMagic @ log_records rs" "entries (mem ls) = new_entries {} rs"
    using assms(1) by (auto simp: log_inv_def)
  have o: "off ls = length (log_file ls)" "is_open ls" "mem_inv (mem ls)" "has_ids (mem ls) = ids_of (entries (mem ls))"
    using assms(1) by (auto simp: log_inv_def mem_inv_def)
  have "\<forall>e \<in> set news. entry_ok e" using assms(2) new_entries_set by (auto simp: news_def)
  moreover have "news \<noteq> []" using assms(3) by (auto simp: log_Add_def o(4) news_def)
  ultimately obtain e es' where e: "news = e # es'" "entry_ok e" by (cases news) auto
  define k where "k = length (log_records news)"
  have k: "4 \<le> k" using e(1) length_log_record [OF e(2)] by (simp add: k_def)
  have l': "ls' = ls\<lparr>off := off ls + k\<rparr>"
    using assms(3) o e(1) by (auto simp: log_Add_def good_add_def Let_def rollback_def write_at_def news_def [symmetric] k_def)
  have ne: "late \<noteq> []" using assms(4,5) by (auto simp: log_Add_def l' o(4) late_def)
  then have l'': "mem ls'' = add_all (mem ls) late" "log_file ls'' = logMagic @ log_records rs @ replicate k 0 @ log_records late"
    using assms(4) o rs(2) by (auto simp: log_Add_def good_add_def Let_def write_at_def l' late_def [symmetric])
  define t where "t = replicate k 0 @ log_records late"
  have z: "take 4 t = replicate 4 0" "\<not> length t < 4" "t \<noteq> []" using k by (auto simp: t_def)
  have "le_word (replicate 4 0) = (0 :: u32)" by code_simp
  then have "read_record t = Inl ()" using z by (simp add: read_record_def Let_def)
  then have "replay_loop m p t = (m, p, True)" for m p using z(3) by (subst replay_loop.simps) simp
  then have r: "replay_loop NewMemStore 8 (log_records rs @ t) = (snd (mem_Add NewMemStore rs), 8 + length (log_records rs), True)"
    using replay_loop_records [OF rs(1), of NewMemStore 8 t] by simp
  have "OpenLogStore (Some (log_file ls'')) good_open =
      (Inr \<lparr>mem = snd (mem_Add NewMemStore rs), log_file = log_file ls, off = 8 + length (log_records rs), is_open = True\<rparr>, Some (log_file ls))"
    using r by (simp add: l''(2) rs(2) OpenLogStore_def good_open_def log_init_def length_logMagic replay_def
      truncateTo_def Let_def logMagic_nonempty t_def)
  moreover have "entries (mem ls'') = entries (mem ls) @ late"
    using mem_Add_entries [OF o(3), of late] by (simp add: l''(1) add_all_Add late_def new_entries_idem)
  ultimately show ?thesis using rs(3) by (simp add: entries_replayed late_def)
qed

theorem log_seek_back_lost_witness:
  "\<exists>ls' ls''. log_Add empty_log [sample_entry 1] (good_add\<lparr>aSyncE := True, aBackE := True\<rparr>) = (Inl ErrIO, ls')
    \<and> log_Add ls' [sample_entry 2] good_add = (Inr 1, ls'') \<and> OpenLogStore (Some (log_file ls'')) good_open \<noteq> (Inr ls'', Some (log_file ls''))"
proof -
  define ls' where "ls' = snd (log_Add empty_log [sample_entry 1] (good_add\<lparr>aSyncE := True, aBackE := True\<rparr>))"
  define ls'' where "ls'' = snd (log_Add ls' [sample_entry 2] good_add)"
  have a: "log_Add empty_log [sample_entry 1] (good_add\<lparr>aSyncE := True, aBackE := True\<rparr>) = (Inl ErrIO, ls')"
    "log_Add ls' [sample_entry 2] good_add = (Inr 1, ls'')"
    by (simp_all add: ls''_def ls'_def good_add_def log_Add_def Let_def empty_log_def NewMemStore_def rollback_def)
  from log_seek_back_lost [OF empty_log_inv _ a] sample_entry_ok
  obtain l where l: "entries (mem ls'') = [sample_entry 2]" "OpenLogStore (Some (log_file ls'')) good_open = (Inr l, Some (log_file empty_log))"
    "entries (mem l) = []" by (auto simp: empty_log_def NewMemStore_def)
  then have "l \<noteq> ls''" by auto
  then show ?thesis using a l(2) by (intro exI [of _ ls'] exI [of _ ls'']) simp
qed

text \<open>C2. Crash safety: whatever part of an \<open>Add\<close>'s write reached the disk, opening the log again gives
  every entry committed before it, followed by a prefix of the call's new entries, each whole, and
  leaves a file that is records only; when all of the write is there, all of its entries are.\<close>

theorem log_crash_safe:
  assumes "log_inv ls" and "\<forall>e \<in> set es. entry_ok e"
    and "news = new_entries (ids_of (entries (mem ls))) es"
  shows "\<exists>ls' j. OpenLogStore (Some (log_file ls @ take k (log_records news))) good_open = (Inr ls', Some (log_file ls'))
    \<and> log_inv ls' \<and> entries (mem ls') = entries (mem ls) @ take j news
    \<and> (length (log_records news) \<le> k \<longrightarrow> j = length news)"
  using news_apart [OF assms(3,2)] by (intro log_reopen_part [OF assms(1)]) simp_all

theorem log_crash_safe_witness:
  "\<exists>ls' j. OpenLogStore (Some (log_file empty_log @ take 5 (log_records [sample_entry 1]))) good_open =
      (Inr ls', Some (log_file ls')) \<and> entries (mem ls') = take j [sample_entry 1]"
  using log_crash_safe [OF empty_log_inv, of "[sample_entry 1]" "[sample_entry 1]" 5] sample_entry_ok
  by (auto simp: empty_log_def NewMemStore_def)

text \<open>Whatever bytes follow the committed records (a torn write, zeros, garbage of another format),
  opening the log succeeds and keeps every committed entry.\<close>

theorem log_committed_survive:
  assumes "log_inv ls"
  shows "\<exists>ls' ts. OpenLogStore (Some (log_file ls @ tail)) good_open = (Inr ls', Some (log_file ls'))
    \<and> log_inv ls' \<and> entries (mem ls') = entries (mem ls) @ ts"
  using assms by (rule log_reopen_any_tail)

theorem log_committed_survive_witness:
  "\<exists>ls' ts. OpenLogStore (Some (logMagic @ [0, 0, 0, 0, 0])) good_open = (Inr ls', Some (log_file ls'))
    \<and> log_inv ls' \<and> entries (mem ls') = [] @ ts"
  using log_committed_survive [OF empty_log_inv, of "[0, 0, 0, 0, 0]"] by (simp add: empty_log_def NewMemStore_def)

lemma unmarshal_short_ct:
  "length (Nonce e) = 16 \<Longrightarrow> length (Ct e) < 16 \<Longrightarrow> UnmarshalEntry (entry_Marshal e) = Inl ErrEntryCorrupt"
proof -
  assume n: "length (Nonce e) = 16" "length (Ct e) < 16"
  define l where "l = le_bytes 2 (of_nat (length (Ct e)) :: u16)"
  have b: "entry_Marshal e = le_bytes 8 (TsMs e) @ Nonce e @ l @ Ct e"
    by (simp add: entry_Marshal_def putHeader_def l_def)
  have l: "length l = 2" "unat (le_word l :: u16) = length (Ct e)" using n by (simp_all add: l_def unat_u16)
  have "take 2 (drop 24 (entry_Marshal e)) = l" unfolding b using n(1) l(1) by simp
  moreover have "length (entry_Marshal e) = 26 + length (Ct e)" using n(1) l(1) by (simp add: b)
  ultimately show ?thesis using n(2) l(2) by (simp add: UnmarshalEntry_def Let_def EntryHeaderSize_def)
qed

text \<open>\<open>Add\<close> does not check what \<open>replay\<close> asks of a record: an entry with a ciphertext shorter than
  the AEAD tag is acknowledged and written, but the next open takes its record for a torn tail and
  cuts the file there, with every record committed after it.\<close>

theorem log_short_ct_lost:
  assumes "log_inv ls" and "length (Nonce e) = 16" and "length (Ct e) < 16" and "entry_ID e \<notin> ids_of (entries (mem ls))"
  shows "\<exists>ls'. log_Add ls [e] good_add = (Inr 1, ls') \<and> e \<in> set (entries (mem ls'))
    \<and> (\<forall>later. \<exists>ls''. OpenLogStore (Some (log_file ls' @ later)) good_open = (Inr ls'', Some (log_file ls))
        \<and> entries (mem ls'') = entries (mem ls))"
proof -
  obtain rs where rs: "\<forall>e \<in> set rs. entry_ok e" "log_file ls = logMagic @ log_records rs"
    "entries (mem ls) = new_entries {} rs"
    using assms(1) by (auto simp: log_inv_def)
  have o: "off ls = length (log_file ls)" "is_open ls" "mem_inv (mem ls)" "has_ids (mem ls) = ids_of (entries (mem ls))"
    using assms(1) by (auto simp: log_inv_def mem_inv_def)
  define ls' where "ls' = ls\<lparr>log_file := log_file ls @ log_record e, off := off ls + length (log_record e),
      mem := add_all (mem ls) [e]\<rparr>"
  have a: "log_Add ls [e] good_add = (Inr 1, ls')"
    using o assms(4) by (simp add: log_Add_def good_add_def Let_def write_at_def ls'_def)
  have "e \<in> set (entries (mem ls'))"
    using mem_Add_entries [OF o(3), of "[e]"] assms(4) by (simp add: ls'_def add_all_Add del: mem_Add.simps)
  moreover have "\<exists>ls''. OpenLogStore (Some (log_file ls' @ later)) good_open = (Inr ls'', Some (log_file ls))
      \<and> entries (mem ls'') = entries (mem ls)" for later
  proof -
    have sz: "length (entry_Marshal e) = entry_Size e" "0 < entry_Size e" "entry_Size e < 65536"
      using assms(2,3) by (simp_all add: length_Marshal entry_sizes)
    then have u: "unat (of_nat (entry_Size e) :: u32) = entry_Size e" by (simp add: unat_of_nat)
    have "read_record (log_record e @ later) = Inl ()"
      using sz u unmarshal_short_ct [OF assms(2,3)] by (simp add: read_record_def log_record_def Let_def MaxEntryBytes_def)
    moreover have "length (log_record e) = 4 + entry_Size e" using sz by (simp add: log_record_def)
    then have "log_record e @ later \<noteq> []" by auto
    ultimately have "replay_loop m p (log_record e @ later) = (m, p, True)" for m p
      by (subst replay_loop.simps) simp
    then have r: "replay_loop NewMemStore 8 (log_records rs @ log_record e @ later) =
        (snd (mem_Add NewMemStore rs), 8 + length (log_records rs), True)"
      using replay_loop_records [OF rs(1), of NewMemStore 8 "log_record e @ later"] by simp
    have "OpenLogStore (Some (log_file ls' @ later)) good_open =
        (Inr \<lparr>mem = snd (mem_Add NewMemStore rs), log_file = log_file ls, off = 8 + length (log_records rs), is_open = True\<rparr>,
         Some (log_file ls))"
      using r by (simp add: ls'_def rs(2) OpenLogStore_def good_open_def log_init_def length_logMagic replay_def
          truncateTo_def Let_def logMagic_nonempty)
    then show ?thesis using rs(3) by (simp add: entries_replayed)
  qed
  ultimately show ?thesis using a by blast
qed

theorem log_short_ct_lost_witness:
  "\<exists>ls'. log_Add empty_log [\<lparr>TsMs = 1, Nonce = replicate 16 0, Ct = []\<rparr>] good_add = (Inr 1, ls')
    \<and> (\<exists>ls''. OpenLogStore (Some (log_file ls')) good_open = (Inr ls'', Some (log_file empty_log)))"
  using log_short_ct_lost [OF empty_log_inv, of "\<lparr>TsMs = 1, Nonce = replicate 16 0, Ct = []\<rparr>"]
  by (auto simp: empty_log_def NewMemStore_def dest: spec [of _ "[]"])

text \<open>A write of the magic that stops part way is not undone: the file left behind is refused by
  every later open.\<close>

theorem log_torn_magic:
  assumes "0 < k" and "k < 8"
  shows "OpenLogStore None (good_open\<lparr>magicW := Some k\<rparr>) = (Inl ErrIO, Some (take k logMagic))
    \<and> OpenLogStore (Some (take k logMagic)) good_open = (Inl ErrBadMagic, Some (take k logMagic))"
  using assms by (auto simp: OpenLogStore_def good_open_def log_init_def length_logMagic logMagic_nonempty min_def split: option.splits)

theorem log_torn_magic_witness:
  "OpenLogStore (Some (take 3 logMagic)) good_open = (Inl ErrBadMagic, Some (take 3 logMagic))"
  using log_torn_magic [of 3] by simp

end
