(* ===== verification/Wire.thy ===== *)
theory Wire
  imports Vault
begin

text \<open>
  The \<open>kv/wire\<close> package: the frame, one AEAD envelope whose cleartext header routes it and is its
  associated data, and the payloads inside, REGISTER, SYNC and RESP. Only length and version are
  checked before a frame is opened.
\<close>

section \<open>Codes\<close>

definition Version :: byte where "Version = 0x01"
definition FrameHeaderSize :: nat where "FrameHeaderSize = 34"
definition CursorSize :: nat where "CursorSize = 24"
definition PageBytes :: nat where "PageBytes = 262144"
definition MaxFrameBytes :: nat where "MaxFrameBytes = 1048576"
definition WaitMaxMs :: int where "WaitMaxMs = 25000"

definition KindRegister :: byte where "KindRegister = 1"
definition KindSync :: byte where "KindSync = 2"
definition KindResp :: byte where "KindResp = 3"

definition OpProbe :: byte where "OpProbe = 0"
definition OpPull :: byte where "OpPull = 1"
definition OpPush :: byte where "OpPush = 2"
definition OpDrop :: byte where "OpDrop = 3"
definition OpWait :: byte where "OpWait = 4"

lemmas op_defs = OpProbe_def OpPull_def OpPush_def OpDrop_def OpWait_def
lemmas kind_defs = KindRegister_def KindSync_def KindResp_def

definition RegisterEphemeral :: byte where "RegisterEphemeral = 1"

text \<open>A status is a byte: \<open>ParseResp\<close> takes any.\<close>

definition StatusOK :: byte where "StatusOK = 0"
definition StatusDiffer :: byte where "StatusDiffer = 1"
definition StatusQuota :: byte where "StatusQuota = 2"
definition StatusBadRequest :: byte where "StatusBadRequest = 3"

lemmas status_defs = StatusOK_def StatusDiffer_def StatusQuota_def StatusBadRequest_def

datatype prechannel = ErrBadFrame | ErrBadVersion | ErrBadKind | ErrUnknownVault | ErrBadAuth | ErrTryLater

fun prechannel_byte :: "prechannel \<Rightarrow> byte" where
  "prechannel_byte ErrBadFrame = 0xE0"
| "prechannel_byte ErrBadVersion = 0xE1"
| "prechannel_byte ErrBadKind = 0xE2"
| "prechannel_byte ErrUnknownVault = 0xE3"
| "prechannel_byte ErrBadAuth = 0xE4"
| "prechannel_byte ErrTryLater = 0xE5"

definition prechannel_Reply :: "prechannel \<Rightarrow> bytes" where
  "prechannel_Reply p = [prechannel_byte p]"

datatype wire_error =
    ErrShort
  | ErrVersion
  | ErrOpen
  | ErrBadOp
  | ErrMalformed
  | ErrEntry vault_error
  | ErrKey aead_error

section \<open>The REGISTER payload\<close>

definition RegisterPayload :: "bytes \<Rightarrow> bool \<Rightarrow> bytes" where
  "RegisterPayload ak ephemeral = (if \<not> ephemeral then ak else ak @ [RegisterEphemeral])"

definition ParseRegister :: "bytes \<Rightarrow> wire_error + bytes \<times> bool" where
  "ParseRegister payload =
     (if length payload = 16 then Inr (copy_fixed 16 payload, False)
      else if length payload = 17
      then let flags = payload ! 16
           in if flags AND NOT RegisterEphemeral \<noteq> 0 then Inl ErrMalformed
              else Inr (copy_fixed 16 payload, flags AND RegisterEphemeral \<noteq> 0)
      else Inl ErrMalformed)"

section \<open>The envelope\<close>

record header =
  Kind :: byte
  VaultID :: bytes
  FrNonce :: bytes

definition header_ok :: "header \<Rightarrow> bool" where
  "header_ok h \<longleftrightarrow> length (VaultID h) = 16 \<and> length (FrNonce h) = 16"

definition header_bytes :: "header \<Rightarrow> bytes" where
  "header_bytes h = Version # Kind h # VaultID h @ FrNonce h"

definition SealFrame :: "header \<Rightarrow> bytes \<Rightarrow> bytes \<Rightarrow> wire_error + bytes" where
  "SealFrame h k payload =
     (case NewAEAD k of
        Inl e \<Rightarrow> Inl (ErrKey e)
      | Inr a \<Rightarrow> map_err ErrKey (aead_Seal a (header_bytes h) (FrNonce h) payload (header_bytes h)))"

definition ParseHeader :: "bytes \<Rightarrow> wire_error + header \<times> bytes" where
  "ParseHeader b =
     (if length b < FrameHeaderSize + 16 then Inl ErrShort
      else if b ! 0 \<noteq> Version then Inl ErrVersion
      else Inr (\<lparr>Kind = b ! 1, VaultID = take 16 (drop 2 b), FrNonce = take 16 (drop 18 b)\<rparr>,
                drop FrameHeaderSize b))"

definition OpenFrame :: "bytes \<Rightarrow> header \<Rightarrow> bytes \<Rightarrow> wire_error + bytes" where
  "OpenFrame k h sealed =
     (case NewAEAD k of
        Inl e \<Rightarrow> Inl (ErrKey e)
      | Inr a \<Rightarrow>
          (case aead_Open a [] (FrNonce h) sealed (header_bytes h) of
             Inl e \<Rightarrow> Inl ErrOpen
           | Inr pt \<Rightarrow> Inr pt))"

section \<open>Entry lists\<close>

definition appendEntries :: "bytes \<Rightarrow> entry list \<Rightarrow> bytes" where
  "appendEntries dst es = dst @ le_bytes 4 (of_nat (length es) :: u32) @ concat (map entry_Marshal es)"

text \<open>The bytes after the last entry are an error; the element decoder is \<open>UnmarshalEntry\<close>.\<close>

definition parseEntries :: "bytes \<Rightarrow> wire_error + entry list" where
  "parseEntries b =
     (if length b < 4 then Inl ErrMalformed
      else case decode_n UnmarshalEntry (unat (le_word (take 4 b) :: u32)) (drop 4 b) of
             Inl e \<Rightarrow> Inl (ErrEntry e)
           | Inr (out, k) \<Rightarrow> if 4 + k \<noteq> length b then Inl ErrMalformed else Inr out)"

section \<open>SYNC and RESP payloads\<close>

record sync_req =
  Op :: byte
  ReqSetHash :: bytes
  CurTs :: u64
  CurID :: bytes
  ReqEntries :: "entry list"

definition zero_req :: sync_req where
  "zero_req = \<lparr>Op = 0, ReqSetHash = replicate 16 0, CurTs = 0, CurID = replicate 16 0, ReqEntries = []\<rparr>"

definition sync_Marshal :: "sync_req \<Rightarrow> bytes" where
  "sync_Marshal r =
     (if Op r = OpProbe \<or> Op r = OpWait then Op r # ReqSetHash r
      else if Op r = OpPull then OpPull # le_bytes 8 (CurTs r) @ CurID r
      else if Op r = OpDrop then [OpDrop]
      else appendEntries [OpPush] (ReqEntries r))"

definition ParseSync :: "bytes \<Rightarrow> wire_error + sync_req" where
  "ParseSync payload =
     (case payload of
        [] \<Rightarrow> Inl ErrMalformed
      | op # body \<Rightarrow>
          let r = zero_req\<lparr>Op := op\<rparr>
          in if op = OpProbe \<or> op = OpWait
             then if length body \<noteq> 16 then Inl ErrMalformed else Inr (r\<lparr>ReqSetHash := copy_fixed 16 body\<rparr>)
             else if op = OpPull
             then if length body \<noteq> CursorSize then Inl ErrMalformed
                  else Inr (r\<lparr>CurTs := le_word (take 8 body), CurID := copy_fixed 16 (drop 8 body)\<rparr>)
             else if op = OpPush
             then (case parseEntries body of
                     Inl e \<Rightarrow> Inl e
                   | Inr es \<Rightarrow> Inr (r\<lparr>ReqEntries := es\<rparr>))
             else if op = OpDrop
             then if length body \<noteq> 0 then Inl ErrMalformed else Inr r
             else Inl ErrBadOp)"

record resp =
  Status :: byte
  ReqNonce :: bytes
  RespEntries :: "entry list"

definition resp_Marshal :: "resp \<Rightarrow> bytes" where
  "resp_Marshal r = appendEntries (Status r # ReqNonce r) (RespEntries r)"

definition ParseResp :: "bytes \<Rightarrow> wire_error + resp" where
  "ParseResp payload =
     (if length payload < 17 then Inl ErrMalformed
      else case parseEntries (drop 17 payload) of
             Inl e \<Rightarrow> Inl e
           | Inr es \<Rightarrow> Inr \<lparr>Status = payload ! 0, ReqNonce = take 16 (drop 1 payload), RespEntries = es\<rparr>)"

section \<open>Parsing is the inverse of marshalling\<close>

definition entries_ok :: "entry list \<Rightarrow> bool" where
  "entries_ok es \<longleftrightarrow> (\<forall>e \<in> set es. entry_ok e) \<and> length es < 4294967296"

lemma unat_u32: "n < 4294967296 \<Longrightarrow> unat (of_nat n :: u32) = n"
  by (simp add: unat_of_nat)

lemma parseEntries_append: "entries_ok es \<Longrightarrow> parseEntries (appendEntries [] es) = Inr es"
  using entry.decode_n_enc [of es "[]"]
  by (simp add: parseEntries_def appendEntries_def entries_ok_def unat_u32)

lemma parseEntries_sound:
  assumes "parseEntries b = Inr es"
  shows "entries_ok es \<and> b = appendEntries [] es"
proof -
  define n where "n = unat (le_word (take 4 b) :: u32)"
  have l: "4 \<le> length b" using assms by (auto simp: parseEntries_def split: if_splits)
  then obtain k where d: "decode_n UnmarshalEntry n (drop 4 b) = Inr (es, k)" "4 + k = length b"
    using assms unfolding parseEntries_def n_def [symmetric]
    by (auto split: sum.splits if_splits)
  from entry.decode_n_sound [OF d(1)] have e: "length es = n" "\<forall>e \<in> set es. entry_ok e"
    "k \<le> length (drop 4 b)" "take k (drop 4 b) = concat (map entry_Marshal es)" by auto
  have n: "n < 4294967296" using unsigned_less [where 'a = nat and w = "le_word (take 4 b) :: u32"] by (simp add: n_def)
  have "le_bytes 4 (of_nat n :: u32) = take 4 b"
    using le_bytes_le_word [where 'a = 32, of "take 4 b"] l by (simp add: n_def)
  moreover have "drop 4 b = concat (map entry_Marshal es)" using e(4) d(2) by simp
  ultimately have "b = le_bytes 4 (of_nat n :: u32) @ concat (map entry_Marshal es)"
    by (metis append_take_drop_id)
  then show ?thesis using e n by (simp add: entries_ok_def appendEntries_def)
qed

lemma parseEntries_iff: "parseEntries b = Inr es \<longleftrightarrow> entries_ok es \<and> b = appendEntries [] es"
  using parseEntries_append parseEntries_sound by blast

lemma appendEntries_dst: "appendEntries dst es = dst @ appendEntries [] es"
  by (simp add: appendEntries_def)

text \<open>A request holds the fields of its operation, of their sizes, and zeros in the others.\<close>

definition req_ok :: "sync_req \<Rightarrow> bool" where
  "req_ok r \<longleftrightarrow>
     (if Op r = OpProbe \<or> Op r = OpWait
      then length (ReqSetHash r) = 16 \<and> r = zero_req\<lparr>Op := Op r, ReqSetHash := ReqSetHash r\<rparr>
      else if Op r = OpPull
      then length (CurID r) = 16 \<and> r = zero_req\<lparr>Op := OpPull, CurTs := CurTs r, CurID := CurID r\<rparr>
      else if Op r = OpPush
      then entries_ok (ReqEntries r) \<and> r = zero_req\<lparr>Op := OpPush, ReqEntries := ReqEntries r\<rparr>
      else Op r = OpDrop \<and> r = zero_req\<lparr>Op := OpDrop\<rparr>)"

definition resp_ok :: "resp \<Rightarrow> bool" where
  "resp_ok r \<longleftrightarrow> length (ReqNonce r) = 16 \<and> entries_ok (RespEntries r)"

lemma Op_update_simps: "Op (r\<lparr>Op := x\<rparr>) = x" by simp

lemma ParseSync_sound: "ParseSync p = Inr r \<Longrightarrow> req_ok r \<and> p = sync_Marshal r"
proof (cases p)
  case (Cons op body)
  assume a: "ParseSync p = Inr r"
  consider "op = OpProbe \<or> op = OpWait" | "op = OpPull" | "op = OpPush" | "op = OpDrop"
    using a Cons by (auto simp: ParseSync_def Let_def split: if_splits)
  then show ?thesis
  proof cases
    case 1
    then show ?thesis using a Cons
      by (auto simp: ParseSync_def Let_def req_ok_def sync_Marshal_def split: if_splits)
  next
    case 2
    then have l: "length body = 24" "r = zero_req\<lparr>Op := OpPull, CurTs := le_word (take 8 body), CurID := copy_fixed 16 (drop 8 body)\<rparr>"
      using a Cons by (auto simp: ParseSync_def Let_def op_defs CursorSize_def split: if_splits)
    have "le_bytes 8 (le_word (take 8 body) :: u64) = take 8 body"
      using le_bytes_le_word [where 'a = 64, of "take 8 body"] l(1) by simp
    then show ?thesis using l 2 Cons
      by (auto simp: req_ok_def sync_Marshal_def op_defs)
  next
    case 3
    then obtain es where "parseEntries body = Inr es" "r = zero_req\<lparr>Op := OpPush, ReqEntries := es\<rparr>"
      using a Cons by (auto simp: ParseSync_def Let_def op_defs split: sum.splits)
    then show ?thesis using 3 Cons
      by (auto simp: req_ok_def sync_Marshal_def op_defs parseEntries_iff appendEntries_def)
  next
    case 4
    then show ?thesis using a Cons
      by (auto simp: ParseSync_def Let_def req_ok_def sync_Marshal_def op_defs split: if_splits)
  qed
qed (simp add: ParseSync_def)

lemma ParseSync_Marshal: "req_ok r \<Longrightarrow> ParseSync (sync_Marshal r) = Inr r"
proof -
  assume a: "req_ok r"
  then consider "Op r = OpProbe \<or> Op r = OpWait" | "Op r = OpPull" | "Op r = OpPush" | "Op r = OpDrop"
    by (auto simp: req_ok_def split: if_splits)
  then show ?thesis
  proof cases
    case 1
    then show ?thesis using a by (auto simp: ParseSync_def Let_def req_ok_def sync_Marshal_def split: if_splits)
  next
    case 2
    then have "length (CurID r) = 16" "r = zero_req\<lparr>Op := OpPull, CurTs := CurTs r, CurID := CurID r\<rparr>"
      using a by (auto simp: req_ok_def op_defs)
    then show ?thesis using 2 by (simp add: ParseSync_def Let_def sync_Marshal_def op_defs CursorSize_def)
  next
    case 3
    then have "entries_ok (ReqEntries r)" "r = zero_req\<lparr>Op := OpPush, ReqEntries := ReqEntries r\<rparr>"
      using a by (auto simp: req_ok_def op_defs)
    moreover have "sync_Marshal r = OpPush # appendEntries [] (ReqEntries r)"
      using 3 by (simp add: sync_Marshal_def op_defs appendEntries_def)
    ultimately show ?thesis by (simp add: ParseSync_def Let_def op_defs parseEntries_append)
  next
    case 4
    then show ?thesis using a by (auto simp: ParseSync_def Let_def req_ok_def sync_Marshal_def op_defs split: if_splits)
  qed
qed

lemma ParseResp_iff: "ParseResp p = Inr r \<longleftrightarrow> resp_ok r \<and> p = resp_Marshal r"
proof
  assume a: "ParseResp p = Inr r"
  then have l: "17 \<le> length p" by (auto simp: ParseResp_def split: if_splits)
  then obtain es where e: "parseEntries (drop 17 p) = Inr es"
    "r = \<lparr>Status = p ! 0, ReqNonce = take 16 (drop 1 p), RespEntries = es\<rparr>"
    using a by (auto simp: ParseResp_def split: sum.splits)
  obtain x xs where p: "p = x # xs" using l by (cases p) auto
  then show "resp_ok r \<and> p = resp_Marshal r" using e l
    by (simp add: resp_ok_def resp_Marshal_def parseEntries_iff appendEntries_dst [of "_ # _"])
      (metis append_take_drop_id)
next
  assume a: "resp_ok r \<and> p = resp_Marshal r"
  then have "length (ReqNonce r) = 16" "parseEntries (appendEntries [] (RespEntries r)) = Inr (RespEntries r)"
    by (simp_all add: resp_ok_def parseEntries_append)
  then show "ParseResp p = Inr r" using a
    by (simp add: ParseResp_def resp_Marshal_def appendEntries_dst [of "_ # _"])
qed

section \<open>What the wire promises\<close>

text \<open>A SYNC or RESP payload parses exactly when it is the marshalled form of a well-formed message,
  and to that message: marshalling and parsing are inverse, and truncated, padded or otherwise
  altered payloads are refused.\<close>

theorem wire_payloads_exact:
  "(ParseSync p = Inr r \<longleftrightarrow> req_ok r \<and> p = sync_Marshal r)
    \<and> (ParseResp p = Inr q \<longleftrightarrow> resp_ok q \<and> p = resp_Marshal q)"
  using ParseSync_sound ParseSync_Marshal ParseResp_iff by blast

lemma flag_byte: "(f :: byte) AND - 2 = 0 \<longleftrightarrow> f = 0 \<or> f = 1"
proof
  assume "f AND - 2 = 0"
  then have a: "f AND NOT 1 = 0" by simp
  have "\<not> bit f i" if "0 < i" for i
  proof
    assume "bit f i"
    then have "bit (f AND NOT 1) i" using that bit_imp_le_length [of f i]
      by (simp add: bit_and_iff bit_not_iff bit_1_iff)
    then show False using a by simp
  qed
  then have "bit f i = bit (of_bool (bit f 0) :: byte) i" for i
    by (cases "i = 0") (simp_all add: bit_of_bool_iff)
  then have "f = of_bool (bit f 0)" by (rule bit_word_eqI)
  then obtain b where "f = of_bool b" by blast
  then show "f = 0 \<or> f = 1" by (cases b) simp_all
qed auto

text \<open>A REGISTER payload parses to an AuthKey and flag exactly when it is what \<open>RegisterPayload\<close>
  makes of them, or the same key with an explicit zero flags byte.\<close>

theorem register_payload_exact:
  "ParseRegister p = Inr (ak, eph) \<longleftrightarrow>
    length ak = 16 \<and> (p = RegisterPayload ak eph \<or> \<not> eph \<and> p = ak @ [0])"
proof -
  have "(ParseRegister p = Inr (ak, eph)) \<longleftrightarrow> p = ak \<and> length ak = 16 \<and> \<not> eph
      \<or> (length p = 17 \<and> ak = take 16 p \<and> (p ! 16 = 0 \<and> \<not> eph \<or> p ! 16 = 1 \<and> eph))"
    by (auto simp: ParseRegister_def Let_def RegisterEphemeral_def flag_byte copy_fixed_def)
  moreover have "length p = 17 \<and> ak = take 16 p \<and> p ! 16 = x \<longleftrightarrow> length ak = 16 \<and> p = ak @ [x]" for x
    using take_Suc_conv_app_nth [of 16 p] by (auto simp: nth_append)
  ultimately show ?thesis by (auto simp: RegisterPayload_def RegisterEphemeral_def)
qed

section \<open>Frames\<close>

lemma NewAEAD_ok: "length k = 16 \<Longrightarrow> \<exists>a. NewAEAD k = Inr a \<and> \<not> zeroed a"
  by (simp add: NewAEAD_def)

lemma ParseHeader_iff:
  "ParseHeader b = Inr (h, sealed) \<longleftrightarrow> header_ok h \<and> 16 \<le> length sealed \<and> b = header_bytes h @ sealed"
proof
  assume a: "ParseHeader b = Inr (h, sealed)"
  then have l: "50 \<le> length b" "b ! 0 = Version" "sealed = drop 34 b"
    "h = \<lparr>Kind = b ! 1, VaultID = take 16 (drop 2 b), FrNonce = take 16 (drop 18 b)\<rparr>"
    by (auto simp: ParseHeader_def FrameHeaderSize_def split: if_splits)
  obtain x y c where c: "b = x # y # c" using l(1) by (cases b; cases "tl b") auto
  have "c = take 16 c @ take 16 (drop 16 c) @ drop 32 c"
    by (metis append_take_drop_id drop_drop numeral_Bit0)
  then show "header_ok h \<and> 16 \<le> length sealed \<and> b = header_bytes h @ sealed"
    using l c by (simp add: header_ok_def header_bytes_def)
next
  assume a: "header_ok h \<and> 16 \<le> length sealed \<and> b = header_bytes h @ sealed"
  then have l: "length (VaultID h) = 16" "length (FrNonce h) = 16" by (simp_all add: header_ok_def)
  then show "ParseHeader b = Inr (h, sealed)" using a
    by (simp add: ParseHeader_def FrameHeaderSize_def header_bytes_def)
qed

lemma OpenFrame_iff:
  assumes "length k = 16" and "header_ok h"
  shows "OpenFrame k h sealed = Inr pt \<longleftrightarrow> SealFrame h k pt = Inr (header_bytes h @ sealed)"
proof -
  obtain a where a: "NewAEAD k = Inr a" "\<not> zeroed a" using NewAEAD_ok [OF assms(1)] by blast
  then have u: "aead_usable a (FrNonce h)" using assms(2) by (simp add: aead_usable_def header_ok_def)
  have "aead_Seal a (header_bytes h) (FrNonce h) pt ad = Inr (header_bytes h @ sealed) \<longleftrightarrow>
      aead_Seal a [] (FrNonce h) pt ad = Inr sealed" for ad
    by (simp add: aead_Seal_usable [OF u])
  moreover have "OpenFrame k h sealed = Inr pt \<longleftrightarrow>
      aead_Open a [] (FrNonce h) sealed (header_bytes h) = Inr pt"
    using a by (auto simp: OpenFrame_def split: sum.splits)
  ultimately show ?thesis
    using a by (simp add: SealFrame_def ascon.open_iff_seal [OF u])
qed

lemma SealFrame_total:
  assumes "length k = 16" and "header_ok h"
  shows "\<exists>sealed. SealFrame h k pt = Inr (header_bytes h @ sealed) \<and> length sealed = length pt + 16"
proof -
  obtain a where a: "NewAEAD k = Inr a" "\<not> zeroed a" using NewAEAD_ok [OF assms(1)] by blast
  then have u: "aead_usable a (FrNonce h)" using assms(2) by (simp add: aead_usable_def header_ok_def)
  then show ?thesis using ascon.seal_total [OF u, of pt "header_bytes h"] a
    by (auto simp: SealFrame_def aead_Seal_usable [OF u])
qed

lemma SealFrame_header:
  "length k = 16 \<Longrightarrow> header_ok h \<Longrightarrow> SealFrame h k pt = Inr b \<Longrightarrow> \<exists>sealed. ParseHeader b = Inr (h, sealed)"
  using SealFrame_total [of k h pt] by (auto simp: ParseHeader_iff)

text \<open>A frame opens to a header and payload exactly when it is the frame \<open>SealFrame\<close> builds of that
  header and payload under the same key: what was sealed opens, and the version, kind, vault id and
  nonce are bound to the payload, so no frame with a changed header opens to it.\<close>

theorem frame_open_exact:
  assumes "length k = 16"
  shows "(\<exists>sealed. ParseHeader b = Inr (h, sealed) \<and> OpenFrame k h sealed = Inr pt) \<longleftrightarrow>
    header_ok h \<and> SealFrame h k pt = Inr b"
  using OpenFrame_iff [OF assms] SealFrame_total [OF assms, of h pt] by (auto simp: ParseHeader_iff)

theorem frame_open_exact_witness:
  "\<exists>b sealed. ParseHeader b = Inr (\<lparr>Kind = 2, VaultID = replicate 16 1, FrNonce = replicate 16 2\<rparr>, sealed)
    \<and> OpenFrame (replicate 16 3) \<lparr>Kind = 2, VaultID = replicate 16 1, FrNonce = replicate 16 2\<rparr> sealed = Inr [3]"
proof -
  define h where "h = \<lparr>Kind = 2, VaultID = replicate 16 1, FrNonce = replicate 16 2\<rparr>"
  have h: "header_ok h" and k: "length (replicate 16 3 :: bytes) = 16" by (simp_all add: h_def header_ok_def)
  obtain b where "SealFrame h (replicate 16 3) [3] = Inr b" using SealFrame_total [OF k h] by blast
  with frame_open_exact [OF k, of b h "[3]"] h show ?thesis unfolding h_def by blast
qed

end
