(* ===== verification/Server.thy ===== *)
theory Server
  imports LogStore Wire "HOL-Library.AList"
begin

text \<open>
  The \<open>kv/server\<close> package: \<open>server.go\<close>, \<open>owner.go\<close> and \<open>record.go\<close>. The server's state is a record;
  a \<open>*vaultState\<close> is an index into \<open>heap\<close>, so a request that looked a vault up keeps its pointer while
  other requests run, as in the code. Each handler is cut where the code gives up its locks, and the
  pieces are composed the way the handler composes them.

  What a frame's handling reads from outside is the record \<open>env\<close>: one reading of the clock, the bytes
  drawn for a nonce, the outcome of each file operation, and the order in which Go's map iteration
  visits the vaults. A counter of bytes is a \<open>nat\<close>: it counts bytes held in memory.
\<close>

section \<open>Quotas\<close>

record quotas =
  MaxEntries :: nat
  MaxVaultBytes :: nat
  MaxVaults :: nat
  TSSkewMs :: int
  EphemeralTTLMs :: int
  QWaitMaxMs :: int

definition DefaultQuotas :: quotas where
  "DefaultQuotas = \<lparr>MaxEntries = 10000, MaxVaultBytes = 8388608, MaxVaults = 1000,
     TSSkewMs = 86400000, EphemeralTTLMs = 3600000, QWaitMaxMs = WaitMaxMs\<rparr>"

definition cmp_or :: "'a :: zero \<Rightarrow> 'a \<Rightarrow> 'a" where
  "cmp_or x y = (if x \<noteq> 0 then x else y)"

definition withDefaults :: "quotas \<Rightarrow> quotas" where
  "withDefaults q = (let d = DefaultQuotas in
     \<lparr>MaxEntries = cmp_or (MaxEntries q) (MaxEntries d), MaxVaultBytes = cmp_or (MaxVaultBytes q) (MaxVaultBytes d),
      MaxVaults = cmp_or (MaxVaults q) (MaxVaults d), TSSkewMs = cmp_or (TSSkewMs q) (TSSkewMs d),
      EphemeralTTLMs = cmp_or (EphemeralTTLMs q) (EphemeralTTLMs d), QWaitMaxMs = cmp_or (QWaitMaxMs q) (QWaitMaxMs d)\<rparr>)"

section \<open>The store behind a vault\<close>

datatype store = Mem memstore | Log logstore

fun store_mem :: "store \<Rightarrow> memstore" where
  "store_mem (Mem m) = m"
| "store_mem (Log l) = mem l"

fun store_Add :: "store \<Rightarrow> entry list \<Rightarrow> add_io \<Rightarrow> (log_error + nat) \<times> store" where
  "store_Add (Mem m) es io = (case mem_Add m es of (n, m) \<Rightarrow> (Inr n, Mem m))"
| "store_Add (Log l) es io = (case log_Add l es io of (r, l) \<Rightarrow> (r, Log l))"

fun store_SetHash :: "store \<Rightarrow> bytes \<times> store" where
  "store_SetHash (Mem m) = (case mem_SetHash m of (h, m) \<Rightarrow> (h, Mem m))"
| "store_SetHash (Log l) = (case log_SetHash l of (h, l) \<Rightarrow> (h, Log l))"

fun store_Close :: "store \<Rightarrow> store" where
  "store_Close (Mem m) = Mem m"
| "store_Close (Log l) = Log (log_Close l)"

definition store_Has :: "store \<Rightarrow> bytes \<Rightarrow> bool" where "store_Has s i = mem_Has (store_mem s) i"
definition store_Len :: "store \<Rightarrow> nat" where "store_Len s = mem_Len (store_mem s)"
definition store_Sorted :: "store \<Rightarrow> entry list" where "store_Sorted s = mem_Sorted (store_mem s)"
definition store_EntriesAfter :: "store \<Rightarrow> u64 \<Rightarrow> bytes \<Rightarrow> nat \<Rightarrow> entry list" where
  "store_EntriesAfter s t i b = mem_EntriesAfter (store_mem s) t i b"

section \<open>Records\<close>

text \<open>
  A vault's record, \<open>vault.fact\<close>, is modelled as the value it holds: the FACT document that encodes it is in
  \<open>ServerRecord\<close>. The \<open>AuthKey\<close> is hexadecimal text; times are in milliseconds.
\<close>

record vault_record =
  rAuthKey :: "bytes option"
  rEphemeral :: bool
  rCreated :: int
  rEnded :: "int option"
  rNote :: "bytes option"

datatype record_file = NoRecord | BadRecord | Rec vault_record

definition recordTime :: "int \<Rightarrow> int" where
  "recordTime ms = ms div 1000 * 1000"

definition record_authKey :: "vault_record \<Rightarrow> bytes option" where
  "record_authKey r =
     (case rAuthKey r of
        None \<Rightarrow> None
      | Some s \<Rightarrow>
          (case hex_DecodeString s of
             None \<Rightarrow> None
           | Some b \<Rightarrow> if length b \<noteq> 16 then None else Some (copy_fixed 16 b)))"

definition record_ended :: "vault_record \<Rightarrow> int \<Rightarrow> bytes \<Rightarrow> vault_record" where
  "record_ended r ms note =
     (let r = r\<lparr>rEnded := Some (recordTime ms)\<rparr> in if note \<noteq> [] then r\<lparr>rNote := Some note\<rparr> else r)"

text \<open>
  \<open>durable.WriteFile\<close>: the new contents are in place, nothing changed, or the new contents are in
  place and the directory could not be synced, which is reported as an error.
\<close>

datatype write_outcome = Written | Unchanged | WrittenUnsynced

section \<open>The state\<close>

record vault_state =
  vs_store :: store
  authKey :: bytes
  c2s :: bytes
  s2c :: bytes
  vbytes :: nat
  dir :: "bytes option"
  noPush :: bool
  ephemeral :: bool
  created :: int
  gone :: bool
  closed :: bool
  changed :: nat

definition newVaultState :: "store \<Rightarrow> bytes \<Rightarrow> bytes option \<Rightarrow> vault_state" where
  "newVaultState s ak d =
     \<lparr>vs_store = s, authKey = ak, c2s = DeriveC2S ak, s2c = DeriveS2C ak, vbytes = 0, dir = d,
      noPush = False, ephemeral = False, created = 0, gone = False, closed = False, changed = 0\<rparr>"

text \<open>\<open>changed\<close> counts the channels made: a wait that saw channel \<open>n\<close> is woken once it is past \<open>n\<close>.\<close>

definition notifyLocked :: "vault_state \<Rightarrow> vault_state" where
  "notifyLocked st = st\<lparr>changed := changed st + 1\<rparr>"

definition vault_record_of :: "vault_state \<Rightarrow> vault_record" where
  "vault_record_of st =
     \<lparr>rAuthKey = Some (hex_EncodeToString (authKey st)), rEphemeral = ephemeral st, rCreated = created st,
      rEnded = None, rNote = None\<rparr>"

text \<open>
  \<open>records\<close> and \<open>logs\<close> are the files of the vaults' directories, by the directory's name under the data
  directory: a log's entry here is what it holds when no server has it open. \<open>dataDir\<close> says whether
  the server has a data directory; a vault that is kept in memory only has no \<open>dir\<close>.
\<close>

record server =
  dataDir :: bool
  quota :: quotas
  regKeys :: "bytes list"
  vaults :: "(bytes \<times> nat) list"
  heap :: "vault_state list"
  revoked :: "bytes set"
  draining :: bool
  records :: "(bytes \<times> record_file) list"
  logs :: "(bytes \<times> bytes) list"

record env =
  now :: int
  rnd :: "bytes option"
  nano :: int
  mkdirE :: bool
  recW :: "bytes \<Rightarrow> write_outcome"
  rmO :: write_outcome
  openIO :: open_io
  addIO :: add_io
  sweep :: "bytes list"

definition lookup_vault :: "server \<Rightarrow> bytes \<Rightarrow> nat option" where
  "lookup_vault srv vid = map_of (vaults srv) vid"

definition vault_at :: "server \<Rightarrow> nat \<Rightarrow> vault_state" where
  "vault_at srv ref = heap srv ! ref"

definition set_vault :: "nat \<Rightarrow> vault_state \<Rightarrow> server \<Rightarrow> server" where
  "set_vault ref st srv = srv\<lparr>heap := (heap srv)[ref := st]\<rparr>"

definition put_record :: "bytes \<Rightarrow> record_file \<Rightarrow> server \<Rightarrow> server" where
  "put_record d r srv = srv\<lparr>records := AList.update d r (records srv)\<rparr>"

text \<open>\<open>writeRecord\<close> as its outcome has it: whether it succeeded, and the file afterwards.\<close>

definition writeRecord :: "env \<Rightarrow> bytes \<Rightarrow> vault_record \<Rightarrow> server \<Rightarrow> bool \<times> server" where
  "writeRecord env d r srv =
     (case recW env d of
        Written \<Rightarrow> (True, put_record d (Rec r) srv)
      | Unchanged \<Rightarrow> (False, srv)
      | WrittenUnsynced \<Rightarrow> (False, put_record d (Rec r) srv))"

section \<open>Ending a vault\<close>

definition noteExpired :: bytes where "noteExpired = ascii ''ephemeral: expired''"
definition noteDropped :: bytes where "noteDropped = ascii ''ephemeral: dropped by its holder''"

definition expired :: "env \<Rightarrow> server \<Rightarrow> vault_state \<Rightarrow> bool" where
  "expired env srv st \<longleftrightarrow> ephemeral st \<and> EphemeralTTLMs (quota srv) \<le> now env - created st"

fun store_file :: "store \<Rightarrow> bytes" where
  "store_file (Mem m) = []"
| "store_file (Log l) = log_file l"

text \<open>
  A log that could not be removed keeps the bytes it had; one that was removed is an error all the
  same when the directory could not be synced.
\<close>

definition removeLog :: "env \<Rightarrow> bytes \<Rightarrow> server \<Rightarrow> bool \<times> server" where
  "removeLog env d srv =
     (case rmO env of
        Written \<Rightarrow> (True, srv\<lparr>logs := AList.delete d (logs srv)\<rparr>)
      | Unchanged \<Rightarrow> (False, srv)
      | WrittenUnsynced \<Rightarrow> (False, srv\<lparr>logs := AList.delete d (logs srv)\<rparr>))"

definition endLocked :: "env \<Rightarrow> bytes \<Rightarrow> nat \<Rightarrow> bytes \<Rightarrow> server \<Rightarrow> bool \<times> server" where
  "endLocked env vid ref note srv =
     (let st = vault_at srv ref;
          (ok, srv) = (case dir st of
                         Some d \<Rightarrow> writeRecord env d (record_ended (vault_record_of st) (now env) note) srv
                       | None \<Rightarrow> (True, srv))
      in if \<not> ok then (False, srv)
         else let srv = srv\<lparr>revoked := insert vid (revoked srv), vaults := AList.delete vid (vaults srv)\<rparr>;
                  st = notifyLocked (st\<lparr>gone := True\<rparr>);
                  st = st\<lparr>vs_store := store_Close (vs_store st)\<rparr>;
                  srv = set_vault ref st srv
              in (True, case dir st of
                          Some d \<Rightarrow> snd (removeLog env d (srv\<lparr>logs := AList.update d (store_file (vs_store st)) (logs srv)\<rparr>))
                        | None \<Rightarrow> srv))"

text \<open>\<open>sweepLocked\<close> over the order the map iteration takes; it stops at the first error.\<close>

fun sweep_over :: "env \<Rightarrow> bytes list \<Rightarrow> server \<Rightarrow> bool \<times> server" where
  "sweep_over env [] srv = (True, srv)"
| "sweep_over env (vid # vids) srv =
     (case lookup_vault srv vid of
        None \<Rightarrow> sweep_over env vids srv
      | Some ref \<Rightarrow>
          if expired env srv (vault_at srv ref)
          then (case endLocked env vid ref noteExpired srv of
                  (ok, srv) \<Rightarrow> if \<not> ok then (False, srv) else sweep_over env vids srv)
          else sweep_over env vids srv)"

definition sweepLocked :: "env \<Rightarrow> server \<Rightarrow> bool \<times> server" where
  "sweepLocked env srv = sweep_over env (sweep env) srv"

text \<open>Whether the vault has ended, whether without an error, and the state.\<close>

definition expireIfDue :: "env \<Rightarrow> bytes \<Rightarrow> nat \<Rightarrow> server \<Rightarrow> bool \<times> bool \<times> server" where
  "expireIfDue env vid ref srv =
     (if \<not> expired env srv (vault_at srv ref) then (False, True, srv)
      else if lookup_vault srv vid \<noteq> Some ref then (True, True, srv)
      else case endLocked env vid ref noteExpired srv of (ok, srv) \<Rightarrow> (True, ok, srv))"

section \<open>Creating a vault\<close>

text \<open>The pointer of the new vault, or an error. A persistent vault has its log as its store once it is open.\<close>

definition createVaultLocked :: "env \<Rightarrow> bytes \<Rightarrow> bytes \<Rightarrow> bool \<Rightarrow> server \<Rightarrow> nat option \<times> server" where
  "createVaultLocked env vid ak eph srv =
     (let cr = recordTime (now env); ref = length (heap srv)
      in if \<not> dataDir srv
         then let st = (newVaultState (Mem NewMemStore) ak None)\<lparr>ephemeral := eph, created := cr\<rparr>
              in (Some ref, srv\<lparr>heap := heap srv @ [st], vaults := AList.update vid ref (vaults srv)\<rparr>)
         else if mkdirE env then (None, srv)
         else let d = VaultID_String vid;
                  st = (newVaultState (Mem NewMemStore) ak (Some d))\<lparr>ephemeral := eph, created := cr\<rparr>;
                  (ok, srv) = writeRecord env d (vault_record_of st) srv
              in if \<not> ok then (None, srv)
                 else case OpenLogStore (map_of (logs srv) d) (openIO env) of
                        (r, f) \<Rightarrow>
                          let srv = (case f of None \<Rightarrow> srv | Some b \<Rightarrow> srv\<lparr>logs := AList.update d b (logs srv)\<rparr>)
                          in case r of
                               Inl e \<Rightarrow> (None, srv)
                             | Inr ls \<Rightarrow>
                                 (Some ref, srv\<lparr>heap := heap srv @ [st\<lparr>vs_store := Log ls\<rparr>],
                                                 vaults := AList.update vid ref (vaults srv)\<rparr>))"

section \<open>Adding entries\<close>

datatype push_error = ErrQuota | ErrSkew

text \<open>\<open>validateNew\<close>'s loop: the ids seen in the call, the new entries and their bytes.\<close>

fun validate_loop ::
  "store \<Rightarrow> bool \<Rightarrow> u64 \<Rightarrow> bytes set \<Rightarrow> entry list \<Rightarrow> push_error + entry list" where
  "validate_loop s checkSkew limit seen [] = Inr []"
| "validate_loop s checkSkew limit seen (e # es) =
     (if entry_ID e \<in> seen \<or> store_Has s (entry_ID e) then validate_loop s checkSkew limit seen es
      else if checkSkew \<and> limit < TsMs e then Inl ErrSkew
      else case validate_loop s checkSkew limit (insert (entry_ID e) seen) es of
             Inl err \<Rightarrow> Inl err
           | Inr new \<Rightarrow> Inr (e # new))"

definition sizes :: "entry list \<Rightarrow> nat" where
  "sizes es = sum_list (map entry_Size es)"

definition validateNew ::
  "env \<Rightarrow> quotas \<Rightarrow> vault_state \<Rightarrow> entry list \<Rightarrow> bool \<Rightarrow> push_error + entry list" where
  "validateNew env q st pushes checkSkew =
     (case validate_loop (vs_store st) checkSkew (word_of_int (now env) + word_of_int (TSSkewMs q)) {} pushes of
        Inl err \<Rightarrow> Inl err
      | Inr new \<Rightarrow>
          if MaxEntries q < store_Len (vs_store st) + length new then Inl ErrQuota
          else if MaxVaultBytes q < vbytes st + sizes new then Inl ErrQuota
          else Inr new)"

definition addValidatedLocked ::
  "env \<Rightarrow> vault_state \<Rightarrow> entry list \<Rightarrow> (log_error + nat) \<times> vault_state" where
  "addValidatedLocked env st es =
     (case store_Add (vs_store st) es (addIO env) of
        (Inl err, s) \<Rightarrow> (Inl err, st\<lparr>vs_store := s\<rparr>)
      | (Inr added, s) \<Rightarrow>
          let st = st\<lparr>vs_store := s, vbytes := vbytes st + sizes (take added es)\<rparr>
          in (Inr added, if 0 < added then notifyLocked st else st))"

section \<open>Responses\<close>

text \<open>What a frame is answered with; \<open>NoReply\<close> is an error that prevents any response.\<close>

datatype reply = Reply bytes | NoReply

definition sealResp :: "env \<Rightarrow> bytes \<Rightarrow> bytes \<Rightarrow> bytes \<Rightarrow> byte \<Rightarrow> entry list \<Rightarrow> reply" where
  "sealResp env vid k reqNonce status es =
     (case FrameNonce vid (rnd env) (nano env) of
        Inl _ \<Rightarrow> NoReply
      | Inr n \<Rightarrow>
          (case SealFrame \<lparr>Kind = KindResp, VaultID = vid, FrNonce = n\<rparr> k
                  (resp_Marshal \<lparr>Status = status, ReqNonce = reqNonce, RespEntries = es\<rparr>) of
             Inl _ \<Rightarrow> NoReply
           | Inr b \<Rightarrow> Reply b))"

definition pre :: "prechannel \<Rightarrow> reply" where
  "pre p = Reply (prechannel_Reply p)"

section \<open>REGISTER\<close>

fun open_any :: "bytes list \<Rightarrow> header \<Rightarrow> bytes \<Rightarrow> bytes option" where
  "open_any [] h sealed = None"
| "open_any (k # ks) h sealed =
     (case OpenFrame k h sealed of Inr p \<Rightarrow> Some p | Inl _ \<Rightarrow> open_any ks h sealed)"

text \<open>From the check of \<open>revoked\<close> on, with the vault found before it, if it is still there.\<close>

definition register_checked ::
  "env \<Rightarrow> header \<Rightarrow> bytes \<Rightarrow> bool \<Rightarrow> nat option \<Rightarrow> server \<Rightarrow> reply \<times> server" where
  "register_checked env h ak eph found srv =
     (let vid = VaultID h; nonce = FrNonce h
      in if vid \<in> revoked srv then (pre ErrBadAuth, srv)
         else case found of
                Some ref \<Rightarrow>
                  let st = vault_at srv ref
                  in if authKey st \<noteq> ak then (pre ErrBadAuth, srv)
                     else (sealResp env vid (s2c st) nonce StatusOK [], srv)
              | None \<Rightarrow>
                  (case sweepLocked env srv of (ok, srv) \<Rightarrow>
                     if \<not> ok then (pre ErrTryLater, srv)
                     else if MaxVaults (quota srv) \<le> length (vaults srv)
                     then (sealResp env vid (DeriveS2C ak) nonce StatusQuota [], srv)
                     else case createVaultLocked env vid ak eph srv of
                            (None, srv) \<Rightarrow> (pre ErrTryLater, srv)
                          | (Some ref, srv) \<Rightarrow> (sealResp env vid (s2c (vault_at srv ref)) nonce StatusOK [], srv)))"

definition handleRegister :: "env \<Rightarrow> header \<Rightarrow> bytes \<Rightarrow> server \<Rightarrow> reply \<times> server" where
  "handleRegister env h sealed srv =
     (case open_any (regKeys srv) h sealed of
        None \<Rightarrow> (pre ErrBadAuth, srv)
      | Some payload \<Rightarrow>
          (case ParseRegister payload of
             Inl _ \<Rightarrow> (pre ErrBadFrame, srv)
           | Inr (ak, eph) \<Rightarrow>
               (case lookup_vault srv (VaultID h) of
                  None \<Rightarrow> register_checked env h ak eph None srv
                | Some ref \<Rightarrow>
                    if expired env srv (vault_at srv ref)
                    then (case endLocked env (VaultID h) ref noteExpired srv of
                            (ok, srv) \<Rightarrow> if \<not> ok then (pre ErrTryLater, srv)
                                        else register_checked env h ak eph None srv)
                    else register_checked env h ak eph (Some ref) srv)))"

section \<open>SYNC\<close>

text \<open>
  The operation under the vault's lock: the reply, whether a PUSH added anything (then \<open>OnPush\<close> is
  called once the lock is released), and the state.
\<close>

definition sync_op :: "env \<Rightarrow> bytes \<Rightarrow> nat \<Rightarrow> bytes \<Rightarrow> sync_req \<Rightarrow> server \<Rightarrow> reply \<times> bool \<times> server" where
  "sync_op env vid ref nonce req srv =
     (let st = vault_at srv ref
      in if gone st then (pre ErrUnknownVault, False, srv)
         else if Op req = OpProbe
         then (case store_SetHash (vs_store st) of (hash, s) \<Rightarrow>
                 (sealResp env vid (s2c st) nonce (if hash \<noteq> ReqSetHash req then StatusDiffer else StatusOK) [],
                  False, set_vault ref (st\<lparr>vs_store := s\<rparr>) srv))
         else if Op req = OpPull
         then (sealResp env vid (s2c st) nonce StatusOK
                 (store_EntriesAfter (vs_store st) (CurTs req) (CurID req) PageBytes), False, srv)
         else if Op req = OpPush
         then (case (case validateNew env (quota srv) st (ReqEntries req) True of
                       Inl err \<Rightarrow> Inl err
                     | Inr new \<Rightarrow> if noPush st \<and> new \<noteq> [] then Inl ErrQuota else Inr new) of
                 Inl err \<Rightarrow>
                   (sealResp env vid (s2c st) nonce
                      (case err of ErrQuota \<Rightarrow> StatusQuota | ErrSkew \<Rightarrow> StatusBadRequest) [], False, srv)
               | Inr new \<Rightarrow>
                   (case addValidatedLocked env st new of
                      (Inl _, st) \<Rightarrow> (NoReply, False, set_vault ref st srv)
                    | (Inr pushed, st) \<Rightarrow>
                        (let resp = sealResp env vid (s2c st) nonce StatusOK []
                         in (resp, 0 < pushed \<and> resp \<noteq> NoReply, set_vault ref st srv))))
         else (sealResp env vid (s2c st) nonce StatusBadRequest [], False, srv))"

definition handleDrop :: "env \<Rightarrow> bytes \<Rightarrow> nat \<Rightarrow> bytes \<Rightarrow> server \<Rightarrow> reply \<times> server" where
  "handleDrop env vid ref nonce srv =
     (let st = vault_at srv ref
      in if \<not> ephemeral st then (sealResp env vid (s2c st) nonce StatusBadRequest [], srv)
         else if lookup_vault srv vid \<noteq> Some ref then (pre ErrUnknownVault, srv)
         else case endLocked env vid ref noteDropped srv of
                (ok, srv) \<Rightarrow> if \<not> ok then (pre ErrTryLater, srv)
                            else (sealResp env vid (s2c st) nonce StatusOK [], srv))"

text \<open>
  A WAIT until it is held, answered at once (\<open>Inl\<close>) or with the channel it waits on (\<open>Inr\<close>), and
  after it is woken, by a change, the timer, its context or a drain.
\<close>

definition wait_begin :: "env \<Rightarrow> bytes \<Rightarrow> nat \<Rightarrow> bytes \<Rightarrow> bytes \<Rightarrow> server \<Rightarrow> (reply + nat) \<times> server" where
  "wait_begin env vid ref nonce want srv =
     (let st = vault_at srv ref
      in if gone st then (Inl (pre ErrUnknownVault), srv)
         else if closed st then (Inl (sealResp env vid (s2c st) nonce StatusOK []), srv)
         else case store_SetHash (vs_store st) of (hash, s) \<Rightarrow>
                let srv = set_vault ref (st\<lparr>vs_store := s\<rparr>) srv
                in if hash \<noteq> want then (Inl (sealResp env vid (s2c st) nonce StatusDiffer []), srv)
                   else (Inr (changed st), srv))"

definition wait_end :: "env \<Rightarrow> bytes \<Rightarrow> nat \<Rightarrow> bytes \<Rightarrow> bytes \<Rightarrow> server \<Rightarrow> reply \<times> server" where
  "wait_end env vid ref nonce want srv =
     (let st = vault_at srv ref
      in if gone st then (pre ErrUnknownVault, srv)
         else if closed st then (sealResp env vid (s2c st) nonce StatusOK [], srv)
         else case store_SetHash (vs_store st) of (hash, s) \<Rightarrow>
                (sealResp env vid (s2c st) nonce (if hash \<noteq> want then StatusDiffer else StatusOK) [],
                 set_vault ref (st\<lparr>vs_store := s\<rparr>) srv))"

text \<open>
  A SYNC up to its operation: the vault's pointer and the decoded request, or an answer. A wait runs
  both halves with nothing in between; the step relation separates them.
\<close>

definition sync_open :: "env \<Rightarrow> header \<Rightarrow> bytes \<Rightarrow> server \<Rightarrow> (reply + nat \<times> sync_req) \<times> server" where
  "sync_open env h sealed srv =
     (case lookup_vault srv (VaultID h) of
        None \<Rightarrow> (Inl (pre ErrUnknownVault), srv)
      | Some ref \<Rightarrow>
          (case OpenFrame (c2s (vault_at srv ref)) h sealed of
             Inl _ \<Rightarrow> (Inl (pre ErrBadAuth), srv)
           | Inr payload \<Rightarrow>
               (case expireIfDue env (VaultID h) ref srv of
                  (ended, ok, srv) \<Rightarrow>
                    if ended then (Inl (if \<not> ok then pre ErrTryLater else pre ErrUnknownVault), srv)
                    else case ParseSync payload of
                           Inl _ \<Rightarrow> (Inl (sealResp env (VaultID h) (s2c (vault_at srv ref)) (FrNonce h) StatusBadRequest []), srv)
                         | Inr req \<Rightarrow> (Inr (ref, req), srv))))"

text \<open>The reply, the vault \<open>OnPush\<close> is called for, if any, and the state.\<close>

definition handleSync :: "env \<Rightarrow> header \<Rightarrow> bytes \<Rightarrow> server \<Rightarrow> reply \<times> bytes option \<times> server" where
  "handleSync env h sealed srv =
     (case sync_open env h sealed srv of
        (Inl r, srv) \<Rightarrow> (r, None, srv)
      | (Inr (ref, req), srv) \<Rightarrow>
          if Op req = OpDrop
          then (case handleDrop env (VaultID h) ref (FrNonce h) srv of (r, srv) \<Rightarrow> (r, None, srv))
          else if Op req = OpWait
          then (case wait_begin env (VaultID h) ref (FrNonce h) (ReqSetHash req) srv of
                  (Inl r, srv) \<Rightarrow> (r, None, srv)
                | (Inr _, srv) \<Rightarrow>
                    (case wait_end env (VaultID h) ref (FrNonce h) (ReqSetHash req) srv of (r, srv) \<Rightarrow> (r, None, srv)))
          else (case sync_op env (VaultID h) ref (FrNonce h) req srv of
                  (r, pushed, srv) \<Rightarrow> (r, if pushed then Some (VaultID h) else None, srv)))"

definition HandleFrame :: "env \<Rightarrow> bytes \<Rightarrow> server \<Rightarrow> reply \<times> bytes option \<times> server" where
  "HandleFrame env req srv =
     (case ParseHeader req of
        Inl e \<Rightarrow> (pre (if e = ErrVersion then ErrBadVersion else ErrBadFrame), None, srv)
      | Inr (h, sealed) \<Rightarrow>
          if Kind h = KindRegister
          then (case handleRegister env h sealed srv of (r, srv) \<Rightarrow> (r, None, srv))
          else if Kind h = KindSync then handleSync env h sealed srv
          else (pre ErrBadKind, None, srv))"

section \<open>The owner's API\<close>

datatype owner_error = UnknownVault | AuthKeyMismatch | QuotaExceeded | SkewExceeded | Revoked | IOFailed

definition EnsureVault :: "env \<Rightarrow> bytes \<Rightarrow> bytes \<Rightarrow> server \<Rightarrow> (owner_error + unit) \<times> server" where
  "EnsureVault env vid ak srv =
     (if vid \<in> revoked srv then (Inl Revoked, srv)
      else case lookup_vault srv vid of
             Some ref \<Rightarrow> if authKey (vault_at srv ref) \<noteq> ak then (Inl AuthKeyMismatch, srv) else (Inr (), srv)
           | None \<Rightarrow>
               (case createVaultLocked env vid ak False srv of
                  (None, srv) \<Rightarrow> (Inl IOFailed, srv)
                | (Some ref, srv) \<Rightarrow> (Inr (), srv)))"

definition DropVault :: "env \<Rightarrow> bytes \<Rightarrow> bytes \<Rightarrow> server \<Rightarrow> (owner_error + unit) \<times> server" where
  "DropVault env vid note srv =
     (case lookup_vault srv vid of
        None \<Rightarrow> (Inl UnknownVault, srv)
      | Some ref \<Rightarrow>
          (case endLocked env vid ref note srv of
             (ok, srv) \<Rightarrow> if \<not> ok then (Inl IOFailed, srv) else (Inr (), srv)))"

definition Entries :: "bytes \<Rightarrow> server \<Rightarrow> owner_error + entry list" where
  "Entries vid srv =
     (case lookup_vault srv vid of
        None \<Rightarrow> Inl UnknownVault
      | Some ref \<Rightarrow>
          if gone (vault_at srv ref) then Inl UnknownVault
          else Inr (store_Sorted (vs_store (vault_at srv ref))))"

text \<open>Under the vault's lock, with the pointer the lookup gave.\<close>

definition add_entries_at :: "env \<Rightarrow> nat \<Rightarrow> entry list \<Rightarrow> server \<Rightarrow> (owner_error + unit) \<times> server" where
  "add_entries_at env ref es srv =
     (let st = vault_at srv ref
      in if gone st then (Inl UnknownVault, srv)
         else case validateNew env (quota srv) st es False of
                Inl ErrQuota \<Rightarrow> (Inl QuotaExceeded, srv)
              | Inl ErrSkew \<Rightarrow> (Inl SkewExceeded, srv)
              | Inr new \<Rightarrow>
                  (case addValidatedLocked env st new of
                     (Inl _, st) \<Rightarrow> (Inl IOFailed, set_vault ref st srv)
                   | (Inr _, st) \<Rightarrow> (Inr (), set_vault ref st srv)))"

definition AddEntries :: "env \<Rightarrow> bytes \<Rightarrow> entry list \<Rightarrow> server \<Rightarrow> (owner_error + unit) \<times> server" where
  "AddEntries env vid es srv =
     (case lookup_vault srv vid of
        None \<Rightarrow> (Inl UnknownVault, srv)
      | Some ref \<Rightarrow> add_entries_at env ref es srv)"

definition set_no_push_at :: "nat \<Rightarrow> bool \<Rightarrow> server \<Rightarrow> server" where
  "set_no_push_at ref v srv = set_vault ref (vault_at srv ref\<lparr>noPush := v\<rparr>) srv"

definition SetNoPush :: "bytes \<Rightarrow> bool \<Rightarrow> server \<Rightarrow> (owner_error + unit) \<times> server" where
  "SetNoPush vid v srv =
     (case lookup_vault srv vid of
        None \<Rightarrow> (Inl UnknownVault, srv)
      | Some ref \<Rightarrow> (Inr (), set_no_push_at ref v srv))"

definition Vaults :: "server \<Rightarrow> bytes list" where
  "Vaults srv = map fst (vaults srv)"

section \<open>Starting and stopping\<close>

text \<open>A vault whose record is in order: its log is opened and it is served, or it is skipped.\<close>

definition load_log :: "env \<Rightarrow> bytes \<Rightarrow> bytes \<Rightarrow> vault_record \<Rightarrow> bytes \<Rightarrow> server \<Rightarrow> server" where
  "load_log env d vid r ak srv =
     (case OpenLogStore (map_of (logs srv) d) (openIO env) of
        (res, f) \<Rightarrow>
          let srv = (case f of None \<Rightarrow> srv | Some b \<Rightarrow> srv\<lparr>logs := AList.update d b (logs srv)\<rparr>)
          in case res of
               Inl _ \<Rightarrow> srv
             | Inr ls \<Rightarrow>
                 let st = newVaultState (Log ls) ak (Some d);
                     st = st\<lparr>vbytes := sizes (mem_Sorted (mem ls)), ephemeral := rEphemeral r, created := rCreated r\<rparr>
                 in srv\<lparr>heap := heap srv @ [st],
                         vaults := AList.update vid (length (heap srv)) (vaults srv)\<rparr>)"

text \<open>
  One directory of \<open>loadPersistedVaults\<close>'s loop: its name, and the files in it. A directory whose
  name is not a vault id, or that has no record, is passed over.
\<close>

definition load_dir :: "env \<Rightarrow> bytes \<Rightarrow> server \<Rightarrow> server" where
  "load_dir env d srv =
     (case ParseVaultID d of
        Inl _ \<Rightarrow> srv
      | Inr vid \<Rightarrow>
          (case map_of (records srv) d of
             None \<Rightarrow> srv
           | Some NoRecord \<Rightarrow> srv
           | Some BadRecord \<Rightarrow> srv\<lparr>revoked := insert vid (revoked srv)\<rparr>
           | Some (Rec r) \<Rightarrow>
               if rEnded r \<noteq> None
               then snd (removeLog env d (srv\<lparr>revoked := insert vid (revoked srv)\<rparr>))
               else case record_authKey r of
                      None \<Rightarrow> srv\<lparr>revoked := insert vid (revoked srv)\<rparr>
                    | Some ak \<Rightarrow> load_log env d vid r ak srv))"

text \<open>The directories in the order \<open>os.ReadDir\<close> gives them, or its error; then the sweep.\<close>

definition loadPersistedVaults :: "env \<Rightarrow> bytes list option \<Rightarrow> server \<Rightarrow> bool \<times> server" where
  "loadPersistedVaults env dirs srv =
     (case dirs of
        None \<Rightarrow> (False, srv)
      | Some ds \<Rightarrow> sweepLocked env (fold (load_dir env) ds srv))"

definition empty_server :: "bool \<Rightarrow> quotas \<Rightarrow> bytes list \<Rightarrow> (bytes \<times> record_file) list \<Rightarrow> (bytes \<times> bytes) list \<Rightarrow> server" where
  "empty_server dd q rks recs lgs =
     \<lparr>dataDir = dd, quota = withDefaults q, regKeys = map DeriveRegKey rks, vaults = [], heap = [],
      revoked = {}, draining = False, records = recs, logs = lgs\<rparr>"

definition Drain :: "server \<Rightarrow> server" where
  "Drain srv = srv\<lparr>draining := True\<rparr>"

text \<open>The log files are left as the closed logs had them; the error \<open>Close\<close> may return is left out.\<close>

definition close_vault :: "vault_state \<Rightarrow> vault_state" where
  "close_vault st = st\<lparr>closed := True, vs_store := store_Close (vs_store st)\<rparr>"

fun close_over :: "(bytes \<times> nat) list \<Rightarrow> server \<Rightarrow> server" where
  "close_over [] srv = srv"
| "close_over ((vid, ref) # vs) srv =
     close_over vs
       (let st = vault_at srv ref; srv = set_vault ref (close_vault st) srv
        in case dir st of
             None \<Rightarrow> srv
           | Some d \<Rightarrow> srv\<lparr>logs := AList.update d (store_file (vs_store st)) (logs srv)\<rparr>)"

definition server_Close :: "server \<Rightarrow> server" where
  "server_Close srv = close_over (vaults srv) (Drain srv)"

text \<open>\<open>New\<close>: with a data directory, what it holds is loaded; an error closes the logs already opened.\<close>

definition New ::
  "env \<Rightarrow> bool \<Rightarrow> quotas \<Rightarrow> bytes list \<Rightarrow> bytes list option \<Rightarrow> (bytes \<times> record_file) list \<Rightarrow> (bytes \<times> bytes) list \<Rightarrow> bool \<times> server" where
  "New env dd q rks dirs recs lgs =
     (let srv = empty_server dd q rks recs lgs
      in if \<not> dd then (True, srv)
         else if mkdirE env then (False, srv)
         else case loadPersistedVaults env dirs srv of
                (ok, srv) \<Rightarrow> if \<not> ok then (False, server_Close srv) else (True, srv))"

text \<open>
  \<open>DropVaultDir\<close> works on the files alone, while no server runs: \<open>already\<close>, or an error. \<open>readE\<close> of the
  record's read is \<open>BadRecord\<close>.
\<close>

datatype dropdir_error = ErrVaultInUse | DropFailed

definition DropVaultDir :: "env \<Rightarrow> bytes \<Rightarrow> bytes \<Rightarrow> server \<Rightarrow> (dropdir_error + bool) \<times> server" where
  "DropVaultDir env vid note srv =
     (let d = VaultID_String vid;
          (locked, srv) =
            (case map_of (logs srv) d of
               None \<Rightarrow> (None, srv)
             | Some b \<Rightarrow>
                 (case OpenLogStore (Some b) (openIO env) of
                    (Inl e, f) \<Rightarrow>
                      (Some (if e = ErrLocked then ErrVaultInUse else DropFailed),
                       srv\<lparr>logs := AList.update d (case f of None \<Rightarrow> b | Some f \<Rightarrow> f) (logs srv)\<rparr>)
                  | (Inr ls, f) \<Rightarrow> (None, srv\<lparr>logs := AList.update d (log_file ls) (logs srv)\<rparr>)))
      in case locked of
           Some e \<Rightarrow> (Inl e, srv)
         | None \<Rightarrow>
             (case (case map_of (records srv) d of
                      Some (Rec r) \<Rightarrow>
                        if rEnded r \<noteq> None then (Some True, srv)
                        else (case writeRecord env d (record_ended r (now env) note) srv of
                                (ok, srv) \<Rightarrow> (if ok then Some False else None, srv))
                    | Some BadRecord \<Rightarrow> (None, srv)
                    | _ \<Rightarrow>
                        if mkdirE env then (None, srv)
                        else (case writeRecord env d
                                     (record_ended \<lparr>rAuthKey = None, rEphemeral = False, rCreated = recordTime (now env),
                                        rEnded = None, rNote = None\<rparr> (now env) note) srv of
                                (ok, srv) \<Rightarrow> (if ok then Some False else None, srv))) of
                (None, srv) \<Rightarrow> (Inl DropFailed, srv)
              | (Some already, srv) \<Rightarrow>
                  (case removeLog env d srv of (ok, srv) \<Rightarrow> if \<not> ok then (Inl DropFailed, srv) else (Inr already, srv))))"

end
