(* ===== verification/ServerInv.thy ===== *)
theory ServerInv
  imports Server
begin

text \<open>
  The server's invariant and what no step of it ever does: a vault's keys are fixed at creation, its
  set only grows, a revoked vault stays revoked and is never served. Each primitive (a change of one
  vault's state, ending a vault, creating one) is shown to keep the invariant and to be an allowed
  evolution; the handlers follow by composition, and the step relation lets requests interleave at the
  points where the code gives up its locks.
\<close>

section \<open>Invariant and evolution\<close>

definition contents :: "vault_state \<Rightarrow> entry list" where
  "contents st = entries (store_mem (vs_store st))"

text \<open>
  The channel keys are the derived ones and the store is well-formed. A vault in memory counts its
  bytes exactly and is within its quotas; a persistent one may have been loaded over a log written
  under other quotas.
\<close>

definition vault_ok :: "quotas \<Rightarrow> vault_state \<Rightarrow> bool" where
  "vault_ok q st \<longleftrightarrow> c2s st = DeriveC2S (authKey st) \<and> s2c st = DeriveS2C (authKey st)
     \<and> mem_inv (store_mem (vs_store st))
     \<and> (dir st = None \<longrightarrow> vbytes st = sizes (contents st) \<and> length (contents st) \<le> MaxEntries q
          \<and> sizes (contents st) \<le> MaxVaultBytes q)"

definition server_ok :: "server \<Rightarrow> bool" where
  "server_ok srv \<longleftrightarrow> distinct (map fst (vaults srv)) \<and> distinct (map snd (vaults srv))
     \<and> (\<forall>(vid, ref) \<in> set (vaults srv). ref < length (heap srv) \<and> vid \<notin> revoked srv \<and> \<not> gone (heap srv ! ref))
     \<and> (\<forall>st \<in> set (heap srv). vault_ok (quota srv) st)"

definition vault_grows :: "vault_state \<Rightarrow> vault_state \<Rightarrow> bool" where
  "vault_grows st st' \<longleftrightarrow> authKey st' = authKey st \<and> c2s st' = c2s st \<and> s2c st' = s2c st
     \<and> ephemeral st' = ephemeral st \<and> created st' = created st \<and> dir st' = dir st
     \<and> (gone st \<longrightarrow> gone st') \<and> (\<exists>ts. contents st' = contents st @ ts)
     \<and> changed st \<le> changed st' \<and> (changed st' = changed st \<longrightarrow> gone st' = gone st \<and> contents st' = contents st)"

definition evolves :: "server \<Rightarrow> server \<Rightarrow> bool" where
  "evolves srv srv' \<longleftrightarrow> revoked srv \<subseteq> revoked srv' \<and> length (heap srv) \<le> length (heap srv')
     \<and> quota srv' = quota srv \<and> regKeys srv' = regKeys srv \<and> dataDir srv' = dataDir srv
     \<and> (\<forall>ref < length (heap srv). vault_grows (heap srv ! ref) (heap srv' ! ref))
     \<and> (\<forall>vid ref. lookup_vault srv' vid = Some ref \<longrightarrow>
          lookup_vault srv vid = Some ref
            \<or> lookup_vault srv vid = None \<and> vid \<notin> revoked srv \<and> length (heap srv) \<le> ref)
     \<and> (\<forall>vid ref. lookup_vault srv vid = Some ref \<longrightarrow> lookup_vault srv' vid = Some ref \<or> vid \<in> revoked srv')"

definition good_step :: "server \<Rightarrow> server \<Rightarrow> bool" where
  "good_step srv srv' \<longleftrightarrow> server_ok srv' \<and> evolves srv srv'"

lemma vault_grows_refl [simp]: "vault_grows st st"
  by (simp add: vault_grows_def)

lemma vault_grows_trans: "vault_grows a b \<Longrightarrow> vault_grows b c \<Longrightarrow> vault_grows a c"
  unfolding vault_grows_def by (elim conjE exE) (intro conjI impI; simp; linarith?)

lemma evolves_refl [simp]: "evolves srv srv"
  by (simp add: evolves_def)

lemma evolves_lookupD:
  "evolves a b \<Longrightarrow> lookup_vault b vid = Some ref \<Longrightarrow>
    lookup_vault a vid = Some ref \<or> lookup_vault a vid = None \<and> vid \<notin> revoked a \<and> length (heap a) \<le> ref"
  by (simp add: evolves_def)

lemma evolves_keptD:
  "evolves a b \<Longrightarrow> lookup_vault a vid = Some ref \<Longrightarrow> lookup_vault b vid = Some ref \<or> vid \<in> revoked b"
  by (simp add: evolves_def)

lemma evolves_parts:
  "evolves a b \<Longrightarrow> revoked a \<subseteq> revoked b" "evolves a b \<Longrightarrow> length (heap a) \<le> length (heap b)"
  "evolves a b \<Longrightarrow> quota b = quota a \<and> regKeys b = regKeys a \<and> dataDir b = dataDir a"
  "evolves a b \<Longrightarrow> ref < length (heap a) \<Longrightarrow> vault_grows (heap a ! ref) (heap b ! ref)"
  by (simp_all add: evolves_def)

lemma evolves_trans:
  assumes ab: "evolves a b" and bc: "evolves b c"
  shows "evolves a c"
  unfolding evolves_def
proof (intro conjI allI impI)
  show "vault_grows (heap a ! ref) (heap c ! ref)" if "ref < length (heap a)" for ref
    using evolves_parts(4) [OF ab that] evolves_parts(4) [OF bc] evolves_parts(2) [OF ab] that
      vault_grows_trans by (meson order_less_le_trans)
  show "lookup_vault a vid = Some ref \<or> lookup_vault a vid = None \<and> vid \<notin> revoked a \<and> length (heap a) \<le> ref"
    if "lookup_vault c vid = Some ref" for vid ref
    using evolves_lookupD [OF bc that]
  proof
    assume "lookup_vault b vid = Some ref"
    then show ?thesis by (rule evolves_lookupD [OF ab])
  next
    assume n: "lookup_vault b vid = None \<and> vid \<notin> revoked b \<and> length (heap b) \<le> ref"
    then have "lookup_vault a vid = None" using evolves_keptD [OF ab, of vid] by (cases "lookup_vault a vid") auto
    then show ?thesis using n evolves_parts(1,2) [OF ab] by auto
  qed
  show "lookup_vault c vid = Some ref \<or> vid \<in> revoked c" if "lookup_vault a vid = Some ref" for vid ref
    using evolves_keptD [OF ab that] evolves_keptD [OF bc] evolves_parts(1) [OF bc] by blast
qed (use evolves_parts [OF ab] evolves_parts [OF bc] in auto)

lemma good_refl: "server_ok srv \<Longrightarrow> good_step srv srv"
  by (simp add: good_step_def)

lemma good_trans: "good_step a b \<Longrightarrow> good_step b c \<Longrightarrow> good_step a c"
  using evolves_trans by (auto simp: good_step_def)

lemma good_ok: "good_step a b \<Longrightarrow> server_ok b"
  by (simp add: good_step_def)

text \<open>The files on disk are not part of either.\<close>

lemma good_files [simp]:
  "good_step srv (srv'\<lparr>records := r\<rparr>) \<longleftrightarrow> good_step srv srv'"
  "good_step srv (srv'\<lparr>logs := l\<rparr>) \<longleftrightarrow> good_step srv srv'"
  "good_step srv (srv'\<lparr>draining := d\<rparr>) \<longleftrightarrow> good_step srv srv'"
  "good_step (srv\<lparr>records := r\<rparr>) srv' \<longleftrightarrow> good_step srv srv'"
  "good_step (srv\<lparr>logs := l\<rparr>) srv' \<longleftrightarrow> good_step srv srv'"
  by (simp_all add: good_step_def server_ok_def evolves_def lookup_vault_def)

lemma ok_files [simp]:
  "server_ok (srv\<lparr>records := r\<rparr>) \<longleftrightarrow> server_ok srv" "server_ok (srv\<lparr>logs := l\<rparr>) \<longleftrightarrow> server_ok srv"
  by (simp_all add: server_ok_def)

lemma writeRecord_cases:
  "writeRecord env d r srv = (ok, srv') \<Longrightarrow> srv' = srv \<or> srv' = put_record d (Rec r) srv"
  by (auto simp: writeRecord_def split: write_outcome.splits)

lemma lookup_served:
  "server_ok srv \<Longrightarrow> lookup_vault srv vid = Some ref \<Longrightarrow>
    ref < length (heap srv) \<and> vid \<notin> revoked srv \<and> \<not> gone (vault_at srv ref) \<and> (vid, ref) \<in> set (vaults srv)"
  by (fastforce simp: server_ok_def lookup_vault_def vault_at_def dest: map_of_SomeD)

lemma lookup_alist: "server_ok srv \<Longrightarrow> (vid, ref) \<in> set (vaults srv) \<longleftrightarrow> lookup_vault srv vid = Some ref"
  by (simp add: server_ok_def lookup_vault_def)

lemma lookup_ref_unique:
  "server_ok srv \<Longrightarrow> lookup_vault srv vid = Some ref \<Longrightarrow> lookup_vault srv vid' = Some ref \<Longrightarrow> vid = vid'"
proof -
  assume ok: "server_ok srv" and l: "lookup_vault srv vid = Some ref" "lookup_vault srv vid' = Some ref"
  then have "(vid, ref) \<in> set (vaults srv)" "(vid', ref) \<in> set (vaults srv)" by (simp_all add: lookup_alist)
  moreover have "inj_on snd (set (vaults srv))" using ok by (simp add: server_ok_def distinct_map)
  ultimately have "(vid, ref) = (vid', ref)" using inj_onD [of snd _ "(vid, ref)" "(vid', ref)"] by simp
  then show "vid = vid'" by simp
qed

section \<open>Changing one vault\<close>

lemma good_set_vault:
  assumes ok: "server_ok srv" and r: "ref < length (heap srv)"
    and st: "vault_ok (quota srv) st" "vault_grows (vault_at srv ref) st" "gone st = gone (vault_at srv ref)"
  shows "good_step srv (set_vault ref st srv)"
proof -
  have h: "(heap srv)[ref := st] ! x = (if x = ref then st else heap srv ! x)" if "x < length (heap srv)" for x
    using that by simp
  have "server_ok (set_vault ref st srv)"
    using ok st r unfolding server_ok_def set_vault_def
    by (auto simp: vault_at_def nth_list_update dest!: set_update_subset_insert [THEN subsetD])
  moreover have "evolves srv (set_vault ref st srv)"
    using st(2) r by (auto simp: evolves_def set_vault_def lookup_vault_def vault_at_def nth_list_update)
  ultimately show ?thesis by (simp add: good_step_def)
qed

lemma ok_vault_at: "server_ok srv \<Longrightarrow> ref < length (heap srv) \<Longrightarrow> vault_ok (quota srv) (vault_at srv ref)"
  by (simp add: server_ok_def vault_at_def)

section \<open>The store under a vault\<close>

lemma mem_SetHash_keeps: "mem_inv m \<Longrightarrow> mem_SetHash m = (h, m') \<Longrightarrow> mem_inv m' \<and> entries m' = entries m"
  using mem.hash_spec [of m h m'] by blast

lemma store_SetHash_keeps:
  "mem_inv (store_mem s) \<Longrightarrow> store_SetHash s = (h, s') \<Longrightarrow>
    h = SetHash (SortCanonical (entries (store_mem s))) \<and> mem_inv (store_mem s') \<and> entries (store_mem s') = entries (store_mem s)"
proof -
  assume i: "mem_inv (store_mem s)" and h: "store_SetHash s = (h, s')"
  obtain h2 m2 where m2: "mem_SetHash (store_mem s) = (h2, m2)" by fastforce
  from mem.hash_spec [OF i m2] h m2 show ?thesis by (cases s) (auto simp: log_SetHash_def)
qed

lemma rollback_mem [simp]: "mem (rollback p io l) = mem l"
  by (simp add: rollback_def Let_def)

lemma log_Add_mem:
  assumes "log_Add l es io = (r, l')"
  shows "case r of Inl _ \<Rightarrow> mem l' = mem l
    | Inr n \<Rightarrow> mem l' = add_all (mem l) (new_entries (has_ids (mem l)) es)
        \<and> n = length (new_entries (has_ids (mem l)) es)"
proof -
  define news where "news = new_entries (has_ids (mem l)) es"
  have "case fst (log_Add l es io) of Inl _ \<Rightarrow> mem (snd (log_Add l es io)) = mem l
    | Inr n \<Rightarrow> mem (snd (log_Add l es io)) = add_all (mem l) news \<and> n = length news"
    unfolding log_Add_def news_def [symmetric] Let_def
    by (auto split: option.split)
  then show ?thesis by (cases r) (simp_all add: assms news_def)
qed

lemma store_Add_spec:
  assumes "mem_inv (store_mem s)" and "store_Add s es io = (r, s')"
    and "distinct (map entry_ID es)" and "ids_of es \<inter> ids_of (entries (store_mem s)) = {}"
  shows "mem_inv (store_mem s') \<and> (case r of
      Inl _ \<Rightarrow> entries (store_mem s') = entries (store_mem s)
    | Inr n \<Rightarrow> entries (store_mem s') = entries (store_mem s) @ es \<and> n = length es)"
proof (cases s)
  case (Mem m)
  obtain n m' where a: "mem_Add m es = (n, m')" by fastforce
  have "mem_inv m" using assms(1) Mem by simp
  from mem_Add_spec [OF this a] new_entries_all [OF assms(3,4)] Mem a assms(2) show ?thesis by auto
next
  case (Log l)
  have i: "mem_inv (mem l)" using assms(1) Log by simp
  have h: "has_ids (mem l) = ids_of (entries (mem l))" using i by (simp add: mem_inv_def)
  have n: "new_entries (has_ids (mem l)) es = es" using new_entries_all [OF assms(3)] assms(4) Log h by simp
  have e: "entries (add_all (mem l) es) = entries (mem l) @ es" "mem_inv (add_all (mem l) es)"
    using mem_Add_entries [OF i, of es] mem_Add_inv [OF i, of es] n h by (simp_all add: add_all_Add)
  obtain l' where l': "log_Add l es io = (r, l')" "s' = Log l'" using assms(2) Log by (auto split: prod.splits)
  have "case r of Inl _ \<Rightarrow> mem l' = mem l | Inr k \<Rightarrow> mem l' = add_all (mem l) es \<and> k = length es"
    using log_Add_mem [OF l'(1)] n by (cases r) simp_all
  then show ?thesis using l'(2) Log i e by (cases r) simp_all
qed

lemma store_Close_mem [simp]: "store_mem (store_Close s) = store_mem s"
  by (cases s) (simp_all add: log_Close_def)

lemma validate_loop_spec:
  assumes "mem_inv (store_mem s)"
  shows "validate_loop s cs lim seen es = Inr new \<Longrightarrow>
    new = new_entries (seen \<union> ids_of (entries (store_mem s))) es \<and> (cs \<longrightarrow> (\<forall>e \<in> set new. TsMs e \<le> lim))"
proof (induction es arbitrary: seen new)
  case (Cons e es)
  have h: "store_Has s (entry_ID e) \<longleftrightarrow> entry_ID e \<in> ids_of (entries (store_mem s))"
    unfolding store_Has_def using assms by (rule mem.has_spec)
  show ?case
  proof (cases "entry_ID e \<in> seen \<or> store_Has s (entry_ID e)")
    case True
    then have "validate_loop s cs lim seen es = Inr new" using Cons.prems by simp
    from Cons.IH [OF this] True h show ?thesis by simp
  next
    case False
    then have nt: "\<not> (cs \<and> lim < TsMs e)" using Cons.prems by auto
    then obtain new' where n: "validate_loop s cs lim (insert (entry_ID e) seen) es = Inr new'" "new = e # new'"
      using False Cons.prems by (auto split: sum.splits)
    from Cons.IH [OF n(1)] n(2) False h nt show ?thesis by auto
  qed
qed simp

lemma validateNew_spec:
  assumes "mem_inv (store_mem (vs_store st))" and "validateNew env q st es cs = Inr new"
  shows "new = new_entries (ids_of (contents st)) es \<and> length (contents st) + length new \<le> MaxEntries q
    \<and> vbytes st + sizes new \<le> MaxVaultBytes q
    \<and> (cs \<longrightarrow> (\<forall>e \<in> set new. TsMs e \<le> word_of_int (now env) + word_of_int (TSSkewMs q)))"
proof -
  obtain lim where v: "validate_loop (vs_store st) cs lim {} es = Inr new"
    "lim = word_of_int (now env) + word_of_int (TSSkewMs q)"
    "length (contents st) + length new \<le> MaxEntries q" "vbytes st + sizes new \<le> MaxVaultBytes q"
    using assms(2) by (auto simp: validateNew_def contents_def store_Len_def mem_Len_def split: sum.splits if_splits)
  then show ?thesis using validate_loop_spec [OF assms(1) v(1)] by (simp add: contents_def)
qed

lemma sizes_Nil [simp]: "sizes [] = 0"
  by (simp add: sizes_def)

lemma sizes_append [simp]: "sizes (xs @ ys) = sizes xs + sizes ys"
  by (simp add: sizes_def)

lemma addValidated_spec:
  assumes ok: "vault_ok q st" and v: "validateNew env q st es cs = Inr new"
    and a: "addValidatedLocked env' st new = (r, st')"
  shows "vault_ok q st' \<and> vault_grows st st' \<and> gone st' = gone st \<and>
    (case r of Inl _ \<Rightarrow> contents st' = contents st \<and> changed st' = changed st
     | Inr n \<Rightarrow> n = length new \<and> contents st' = contents st @ new \<and> vbytes st' = vbytes st + sizes new
         \<and> (changed st' = changed st \<longleftrightarrow> new = []))"
proof -
  have i: "mem_inv (store_mem (vs_store st))" using ok by (simp add: vault_ok_def)
  note n = validateNew_spec [OF i v]
  obtain r' s' where s: "store_Add (vs_store st) new (addIO env') = (r', s')" by fastforce
  have d: "distinct (map entry_ID new)" "ids_of new \<inter> ids_of (entries (store_mem (vs_store st))) = {}"
    using n by (auto simp: new_entries_distinct new_entries_ids contents_def)
  note sp = store_Add_spec [OF i s d]
  show ?thesis
    using sp ok n a s
    by (cases r') (auto simp: addValidatedLocked_def Let_def vault_ok_def vault_grows_def contents_def notifyLocked_def
        split: if_splits)
qed

section \<open>Ending and creating\<close>

lemma good_end:
  assumes ok: "server_ok srv" and l: "lookup_vault srv vid = Some ref" and e: "endLocked env vid ref note srv = (b, srv')"
  shows "good_step srv srv' \<and> (b \<longrightarrow> vid \<in> revoked srv' \<and> lookup_vault srv' vid = None \<and> gone (vault_at srv' ref))
    \<and> (\<not> b \<longrightarrow> srv' = srv \<or> (\<exists>d r. srv' = put_record d r srv))"
proof -
  note s = lookup_served [OF ok l]
  define st where "st = vault_at srv ref"
  define st' where "st' = (notifyLocked (st\<lparr>gone := True\<rparr>))\<lparr>vs_store := store_Close (vs_store st)\<rparr>"
  define srv1 where "srv1 = srv\<lparr>revoked := insert vid (revoked srv), vaults := AList.delete vid (vaults srv),
      heap := (heap srv)[ref := st']\<rparr>"
  have g: "vault_grows st st'" "gone st'" "vault_ok (quota srv) st'"
    using ok_vault_at [OF ok] s
    by (simp_all add: st'_def vault_grows_def notifyLocked_def contents_def vault_ok_def st_def)
  have ok1: "server_ok srv1"
  proof -
    have "x < length (heap srv) \<and> v \<notin> revoked srv1 \<and> \<not> gone (heap srv1 ! x)" if "(v, x) \<in> set (vaults srv1)" for v x
    proof -
      have v: "(v, x) \<in> set (vaults srv)" "v \<noteq> vid"
        using that by (auto simp: srv1_def AList.delete_eq)
      then have "x \<noteq> ref" using lookup_ref_unique [OF ok l, of v] ok by (auto simp: lookup_alist)
      then show ?thesis using v ok by (auto simp: server_ok_def srv1_def)
    qed
    moreover have "distinct (map snd (vaults srv1))"
      using ok by (auto simp: srv1_def server_ok_def AList.delete_eq distinct_map intro: distinct_filter inj_on_subset)
    moreover have "distinct (map fst (vaults srv1))"
      using ok by (simp add: srv1_def server_ok_def distinct_delete)
    moreover have "\<forall>x \<in> set (heap srv1). vault_ok (quota srv1) x"
      using ok g(3) by (auto simp: srv1_def server_ok_def dest!: set_update_subset_insert [THEN subsetD])
    ultimately show ?thesis unfolding server_ok_def by (auto simp: srv1_def)
  qed
  have ev: "evolves srv srv1"
    using g(1) s by (auto simp: evolves_def srv1_def lookup_vault_def delete_conv nth_list_update st_def vault_at_def)
  have good: "good_step srv srv1" using ok1 ev by (simp add: good_step_def)
  have r1: "vid \<in> revoked srv1 \<and> lookup_vault srv1 vid = None \<and> gone (vault_at srv1 ref)"
    using g(2) s by (simp add: srv1_def lookup_vault_def delete_conv vault_at_def)
  have eq: "\<exists>rs ls. srv' = srv1\<lparr>records := rs, logs := ls\<rparr>" if b
    by (rule exI [of _ "records srv'"], rule exI [of _ "logs srv'"])
      (use e that in \<open>auto simp: endLocked_def Let_def st_def [symmetric] srv1_def set_vault_def removeLog_def
        writeRecord_def put_record_def st'_def notifyLocked_def split: option.splits write_outcome.splits if_splits\<close>)
  have ne: "srv' = srv \<or> (\<exists>d r. srv' = put_record d r srv)" if "\<not> b"
    using e that unfolding endLocked_def Let_def st_def [symmetric]
    by (auto simp: writeRecord_def split: option.splits write_outcome.splits if_splits)
  show ?thesis
  proof (cases b)
    case True
    then obtain rs ls where "srv' = srv1\<lparr>records := rs, logs := ls\<rparr>" using eq by blast
    then show ?thesis using True good r1 by (simp add: lookup_vault_def vault_at_def)
  next
    case False
    then show ?thesis using ne good_refl [OF ok] by (auto simp: put_record_def)
  qed
qed

end
