(* ===== verification/ServerSteps.thy ===== *)
theory ServerSteps
  imports ServerInv
begin

text \<open>
  The handlers over the invariant of \<open>ServerInv\<close>: every piece of a handler between two points where
  the code gives up its locks is a good step, and so is every interleaving of them.
\<close>

section \<open>Sweeping and expiring\<close>

text \<open>Ending one vault concerns no other.\<close>

lemma end_others:
  assumes "endLocked env v ref note srv = (b, srv')"
  shows "revoked srv' \<subseteq> insert v (revoked srv)"
    and "lookup_vault srv' x = lookup_vault srv x \<or> lookup_vault srv' x = None \<and> x = v"
  using assms
  by (auto simp: endLocked_def Let_def writeRecord_def put_record_def set_vault_def removeLog_def lookup_vault_def
      delete_conv split: option.splits write_outcome.splits if_splits)

lemma good_sweep_over:
  "server_ok srv \<Longrightarrow> sweep_over env vids srv = (b, srv') \<Longrightarrow> good_step srv srv'"
proof (induction env vids srv arbitrary: b srv' rule: sweep_over.induct)
  case (1 env srv)
  then show ?case by (simp add: good_refl)
next
  case (2 env vid vids srv)
  show ?case
  proof (cases "\<exists>ref. lookup_vault srv vid = Some ref \<and> expired env srv (vault_at srv ref)")
    case False
    then have s: "sweep_over env vids srv = (b, srv')" using "2.prems" by (auto split: option.splits)
    show ?thesis
    proof (cases "lookup_vault srv vid")
      case None
      then show ?thesis using "2.IH"(1) "2.prems"(1) s by blast
    next
      case (Some ref)
      then show ?thesis using "2.IH"(3) [OF Some _ "2.prems"(1) s] False by blast
    qed
  next
    case True
    then obtain ref where r: "lookup_vault srv vid = Some ref" "expired env srv (vault_at srv ref)" by blast
    obtain ok srv1 where e: "endLocked env vid ref noteExpired srv = (ok, srv1)" by fastforce
    have g: "good_step srv srv1" using good_end [OF "2.prems"(1) r(1) e] by blast
    show ?thesis
    proof (cases ok)
      case False
      then show ?thesis using g "2.prems"(2) r e by simp
    next
      case True
      then have s: "sweep_over env vids srv1 = (b, srv')" using "2.prems"(2) r e by simp
      have "good_step srv1 srv'" using "2.IH"(2) [OF r e [symmetric]] True good_ok [OF g] s by blast
      then show ?thesis using g good_trans by blast
    qed
  qed
qed

lemma sweep_others:
  "server_ok srv \<Longrightarrow> lookup_vault srv x = None \<Longrightarrow> x \<notin> revoked srv \<Longrightarrow> sweep_over env vids srv = (b, srv') \<Longrightarrow>
    lookup_vault srv' x = None \<and> x \<notin> revoked srv'"
proof (induction env vids srv arbitrary: b srv' rule: sweep_over.induct)
  case (2 env vid vids srv)
  show ?case
  proof (cases "\<exists>ref. lookup_vault srv vid = Some ref \<and> expired env srv (vault_at srv ref)")
    case False
    then have s: "sweep_over env vids srv = (b, srv')" using "2.prems" by (auto split: option.splits)
    then show ?thesis using "2.IH"(1,3) "2.prems" False by (cases "lookup_vault srv vid") blast+
  next
    case True
    then obtain ref where r: "lookup_vault srv vid = Some ref" "expired env srv (vault_at srv ref)" by blast
    obtain ok srv1 where e: "endLocked env vid ref noteExpired srv = (ok, srv1)" by fastforce
    have g: "server_ok srv1" using good_end [OF "2.prems"(1) r(1) e] good_ok by blast
    have x: "x \<noteq> vid" using r "2.prems" by auto
    have k: "lookup_vault srv1 x = None" "x \<notin> revoked srv1"
      using end_others [OF e] "2.prems" x by (metis, blast)
    show ?thesis
      using "2.IH"(2) [OF r e [symmetric]] g k "2.prems"(4) r e by (cases ok) auto
  qed
qed auto

lemma good_sweep: "server_ok srv \<Longrightarrow> sweepLocked env srv = (b, srv') \<Longrightarrow> good_step srv srv'"
  unfolding sweepLocked_def by (rule good_sweep_over)

lemma good_expire:
  assumes ok: "server_ok srv" and e: "expireIfDue env vid ref srv = (ended, b, srv')"
  shows "good_step srv srv' \<and> (\<not> ended \<longrightarrow> srv' = srv)"
proof -
  consider "\<not> expired env srv (vault_at srv ref)" | "expired env srv (vault_at srv ref)" "lookup_vault srv vid \<noteq> Some ref"
    | "expired env srv (vault_at srv ref)" "lookup_vault srv vid = Some ref" by blast
  then show ?thesis
  proof cases
    case 3
    obtain ok1 srv1 where e1: "endLocked env vid ref noteExpired srv = (ok1, srv1)" by fastforce
    then show ?thesis using e 3 good_end [OF ok 3(2) e1] by (simp add: expireIfDue_def)
  qed (use e good_refl [OF ok] in \<open>auto simp: expireIfDue_def\<close>)
qed

section \<open>Creating\<close>

lemma replay_loop_inv: "mem_inv m \<Longrightarrow> replay_loop m p r = (m', q) \<Longrightarrow> mem_inv m'"
  using replay_loop_sound [of m p r m' "fst q" "snd q"] mem_Add_inv by auto

lemma open_inv: "OpenLogStore f io = (Inr ls, f') \<Longrightarrow> mem_inv (mem ls)"
  using mem_inv_New
  by (auto simp: OpenLogStore_def log_init_def replay_def truncateTo_def Let_def dest: replay_loop_inv
      split: if_splits option.splits prod.splits)

definition fresh_vault :: "server \<Rightarrow> bytes \<Rightarrow> vault_state \<Rightarrow> server" where
  "fresh_vault srv vid st = srv\<lparr>heap := heap srv @ [st], vaults := AList.update vid (length (heap srv)) (vaults srv)\<rparr>"

lemma lookup_fresh [simp]:
  "lookup_vault (fresh_vault srv vid st) v = (if v = vid then Some (length (heap srv)) else lookup_vault srv v)"
  by (simp add: fresh_vault_def lookup_vault_def update_conv)

lemma update_new: "map_of al k = None \<Longrightarrow> AList.update k v al = al @ [(k, v)]"
  by (induction al) auto

lemma good_fresh:
  assumes ok: "server_ok srv" and n: "lookup_vault srv vid = None" "vid \<notin> revoked srv"
    and st: "vault_ok (quota srv) st" "\<not> gone st"
  shows "good_step srv (fresh_vault srv vid st)"
proof -
  have lt: "r < length (heap srv)" if "(v, r) \<in> set (vaults srv)" for v r
    using ok that by (auto simp: server_ok_def)
  have u: "AList.update vid r (vaults srv) = vaults srv @ [(vid, r)]" for r
    using n(1) by (simp add: lookup_vault_def update_new)
  have d: "vid \<notin> fst ` set (vaults srv)" using n(1) by (simp add: lookup_vault_def map_of_eq_None_iff)
  have "server_ok (fresh_vault srv vid st)"
    using ok st d lt n(2) unfolding server_ok_def fresh_vault_def
    by (auto simp: u nth_append)
  moreover have "evolves srv (fresh_vault srv vid st)"
    using n by (auto simp: evolves_def fresh_vault_def nth_append lookup_vault_def update_conv)
  ultimately show ?thesis by (simp add: good_step_def)
qed

lemma new_vault_ok:
  "vault_ok (quota srv) ((newVaultState (Mem NewMemStore) ak None)\<lparr>ephemeral := eph, created := cr\<rparr>)"
  "mem_inv (mem ls) \<Longrightarrow> vault_ok (quota srv)
     ((newVaultState (Mem NewMemStore) ak (Some d))\<lparr>ephemeral := eph, created := cr, vs_store := Log ls\<rparr>)"
  using mem_inv_New by (simp_all add: vault_ok_def newVaultState_def contents_def NewMemStore_def sizes_def)

lemma good_create:
  assumes ok: "server_ok srv" and n: "lookup_vault srv vid = None" "vid \<notin> revoked srv"
    and c: "createVaultLocked env vid ak eph srv = (r, srv')"
  shows "good_step srv srv' \<and> (case r of
      None \<Rightarrow> vaults srv' = vaults srv \<and> heap srv' = heap srv
    | Some ref \<Rightarrow> ref = length (heap srv) \<and> lookup_vault srv' vid = Some ref
        \<and> authKey (vault_at srv' ref) = ak \<and> ephemeral (vault_at srv' ref) = eph
        \<and> created (vault_at srv' ref) = recordTime (now env) \<and> \<not> gone (vault_at srv' ref)
        \<and> s2c (vault_at srv' ref) = DeriveS2C ak)"
proof (cases "dataDir srv")
  case False
  define st where "st = (newVaultState (Mem NewMemStore) ak None)\<lparr>ephemeral := eph, created := recordTime (now env)\<rparr>"
  have s: "srv' = fresh_vault srv vid st" "r = Some (length (heap srv))"
    using c False by (auto simp: createVaultLocked_def Let_def fresh_vault_def st_def)
  have "good_step srv (fresh_vault srv vid st)"
    by (rule good_fresh [OF ok n]) (simp_all add: st_def new_vault_ok, simp add: newVaultState_def)
  then show ?thesis using s by (simp add: vault_at_def fresh_vault_def lookup_vault_def update_conv st_def newVaultState_def)
next
  case True
  define d where "d = VaultID_String vid"
  define st where "st = (newVaultState (Mem NewMemStore) ak (Some d))\<lparr>ephemeral := eph, created := recordTime (now env)\<rparr>"
  note cd = c [unfolded createVaultLocked_def Let_def d_def [symmetric] st_def [symmetric]]
  obtain w srv1 where w: "writeRecord env d (vault_record_of st) srv = (w, srv1)" by fastforce
  have s1: "srv1 = srv \<or> (\<exists>x. srv1 = put_record d x srv)" using writeRecord_cases [OF w] by blast
  have same: "heap srv1 = heap srv" "vaults srv1 = vaults srv" "logs srv1 = logs srv" "good_step srv srv1"
    using s1 good_refl [OF ok] by (auto simp: put_record_def)
  show ?thesis
  proof (cases "mkdirE env \<or> \<not> w")
    case True
    then have "r = None \<and> (srv' = srv \<or> srv' = srv1)" using cd \<open>dataDir srv\<close> w by (auto split: if_splits)
    then show ?thesis using same good_refl [OF ok] by auto
  next
    case False
    obtain res f where o: "OpenLogStore (map_of (logs srv) d) (openIO env) = (res, f)" by fastforce
    define srv2 where "srv2 = (case f of None \<Rightarrow> srv1 | Some b \<Rightarrow> srv1\<lparr>logs := AList.update d b (logs srv1)\<rparr>)"
    have same2: "heap srv2 = heap srv" "vaults srv2 = vaults srv" "good_step srv srv2"
      using same by (simp_all add: srv2_def split: option.split)
    have c2: "(r, srv') = (case res of Inl e \<Rightarrow> (None, srv2)
        | Inr ls \<Rightarrow> (Some (length (heap srv)), fresh_vault srv2 vid (st\<lparr>vs_store := Log ls\<rparr>)))"
      using cd True False w o same same2
      by (cases res) (simp_all add: fresh_vault_def srv2_def)
    show ?thesis
    proof (cases res)
      case (Inl e)
      then show ?thesis using c2 same2 by simp
    next
      case (Inr ls)
      define st2 where "st2 = st\<lparr>vs_store := Log ls\<rparr>"
      have q: "quota srv2 = quota srv" "revoked srv2 = revoked srv" "lookup_vault srv2 vid = None"
        using s1 n(1) by (auto simp: srv2_def put_record_def lookup_vault_def split: option.split)
      have "vault_ok (quota srv2) st2"
        using open_inv [OF o [unfolded Inr]] unfolding st2_def st_def by (simp add: new_vault_ok)
      then have "good_step srv2 (fresh_vault srv2 vid st2)"
        using good_fresh [OF good_ok [OF same2(3)] q(3)] q n(2) by (simp add: st2_def st_def newVaultState_def)
      then have "good_step srv srv'" using c2 Inr good_trans [OF same2(3)] by (simp add: st2_def)
      moreover have "srv' = fresh_vault srv2 vid st2" "r = Some (length (heap srv))" using c2 Inr by (simp_all add: st2_def)
      ultimately show ?thesis using same2
        by (simp add: vault_at_def st2_def st_def newVaultState_def) (simp add: fresh_vault_def)
    qed
  qed
qed

section \<open>REGISTER\<close>

lemma good_register_checked:
  assumes ok: "server_ok srv" and f: "found = lookup_vault srv (VaultID h)"
    and c: "register_checked env h ak eph found srv = (r, srv')"
  shows "good_step srv srv'"
proof (cases "VaultID h \<in> revoked srv \<or> found \<noteq> None")
  case True
  then have "srv' = srv" using c by (auto simp: register_checked_def Let_def split: if_splits option.splits)
  then show ?thesis using good_refl [OF ok] by simp
next
  case False
  obtain b srv1 where s: "sweepLocked env srv = (b, srv1)" by fastforce
  have g: "good_step srv srv1" using good_sweep [OF ok s] .
  obtain cr srv2 where cr: "createVaultLocked env (VaultID h) ak eph srv1 = (cr, srv2)" by fastforce
  have "srv' = srv1 \<or> srv' = srv2 \<and> b"
    using c False s cr by (auto simp: register_checked_def Let_def split: if_splits option.splits)
  moreover have "good_step srv1 srv2"
  proof -
    have "lookup_vault srv1 (VaultID h) = None \<and> VaultID h \<notin> revoked srv1"
      using sweep_others [OF ok _ _ s [unfolded sweepLocked_def]] False f by simp
    then show ?thesis using good_create [OF good_ok [OF g] _ _ cr] by blast
  qed
  ultimately show ?thesis using g good_trans by blast
qed

lemma good_register:
  assumes ok: "server_ok srv" and c: "handleRegister env h sealed srv = (r, srv')"
  shows "good_step srv srv'"
proof (cases "srv' = srv")
  case True
  then show ?thesis using good_refl [OF ok] by simp
next
  case False
  then obtain payload ak eph where p: "open_any (regKeys srv) h sealed = Some payload" "ParseRegister payload = Inr (ak, eph)"
    using c by (auto simp: handleRegister_def split: option.splits sum.splits)
  show ?thesis
  proof (cases "lookup_vault srv (VaultID h)")
    case None
    then show ?thesis using good_register_checked [OF ok None [symmetric]] c p by (simp add: handleRegister_def)
  next
    case (Some ref)
    show ?thesis
    proof (cases "expired env srv (vault_at srv ref)")
      case True
      obtain b srv1 where e: "endLocked env (VaultID h) ref noteExpired srv = (b, srv1)" by fastforce
      note g = good_end [OF ok Some e]
      show ?thesis
      proof (cases b)
        case True
        then have "register_checked env h ak eph None srv1 = (r, srv')"
          using c p Some \<open>expired env srv (vault_at srv ref)\<close> e by (simp add: handleRegister_def)
        then show ?thesis using good_register_checked [of srv1 None] g True good_ok good_trans by metis
      next
        case False
        then show ?thesis using c p Some True e g by (simp add: handleRegister_def)
      qed
    next
      case False
      then show ?thesis using good_register_checked [OF ok Some [symmetric]] c p Some by (simp add: handleRegister_def)
    qed
  qed
qed

section \<open>SYNC and the owner\<close>

lemma good_sync_open:
  assumes ok: "server_ok srv" and c: "sync_open env h sealed srv = (r, srv')"
  shows "good_step srv srv' \<and> (\<forall>ref req. r = Inr (ref, req) \<longrightarrow> srv' = srv \<and> lookup_vault srv (VaultID h) = Some ref)"
proof (cases "lookup_vault srv (VaultID h)")
  case None
  then show ?thesis using c good_refl [OF ok] by (auto simp: sync_open_def)
next
  case (Some ref)
  obtain ended b srv1 where e: "expireIfDue env (VaultID h) ref srv = (ended, b, srv1)" by (metis prod_cases3)
  note g = good_expire [OF ok e]
  have "srv' = srv \<or> srv' = srv1" "\<forall>ref' req. r = Inr (ref', req) \<longrightarrow> srv' = srv1 \<and> \<not> ended \<and> ref' = ref"
    using c Some e by (auto simp: sync_open_def split: sum.splits if_splits)
  then show ?thesis using g good_refl [OF ok] Some by blast
qed

lemma good_hash:
  assumes ok: "server_ok srv" and r: "ref < length (heap srv)"
    and h: "store_SetHash (vs_store (vault_at srv ref)) = (hs, s)"
  shows "good_step srv (set_vault ref (vault_at srv ref\<lparr>vs_store := s\<rparr>) srv)"
    and "hs = SetHash (SortCanonical (contents (vault_at srv ref)))"
proof -
  note v = ok_vault_at [OF ok r]
  have i: "mem_inv (store_mem (vs_store (vault_at srv ref)))" using v by (simp add: vault_ok_def)
  note k = store_SetHash_keeps [OF i h]
  show "good_step srv (set_vault ref (vault_at srv ref\<lparr>vs_store := s\<rparr>) srv)"
    by (rule good_set_vault [OF ok r]) (use v k in \<open>simp_all add: vault_ok_def vault_grows_def contents_def\<close>)
  show "hs = SetHash (SortCanonical (contents (vault_at srv ref)))" using k by (simp add: contents_def)
qed

lemma good_add:
  assumes ok: "server_ok srv" and r: "ref < length (heap srv)"
    and v: "validateNew env (quota srv) (vault_at srv ref) es cs = Inr new"
    and a: "addValidatedLocked env' (vault_at srv ref) new = (x, st')"
  shows "good_step srv (set_vault ref st' srv)"
  using addValidated_spec [OF ok_vault_at [OF ok r] v a] by (intro good_set_vault [OF ok r]) auto

lemma good_sync_op:
  assumes ok: "server_ok srv" and r: "ref < length (heap srv)"
    and c: "sync_op env vid ref nonce req srv = (x, p, srv')"
  shows "good_step srv srv'"
proof (cases "srv' = srv")
  case True
  then show ?thesis using good_refl [OF ok] by simp
next
  case False
  obtain hs s where h: "store_SetHash (vs_store (vault_at srv ref)) = (hs, s)" by fastforce
  consider "srv' = set_vault ref (vault_at srv ref\<lparr>vs_store := s\<rparr>) srv"
    | new y st' where "validateNew env (quota srv) (vault_at srv ref) (ReqEntries req) True = Inr new"
        "addValidatedLocked env (vault_at srv ref) new = (y, st')" "srv' = set_vault ref st' srv"
    using c False h
    by (auto simp: sync_op_def Let_def split: if_splits sum.splits push_error.splits prod.splits)
  then show ?thesis using good_hash [OF ok r h] good_add [OF ok r] by cases auto
qed

lemma good_wait_begin:
  assumes ok: "server_ok srv" and r: "ref < length (heap srv)"
    and c: "wait_begin env vid ref nonce want srv = (x, srv')"
  shows "good_step srv srv'"
proof -
  obtain hs s where h: "store_SetHash (vs_store (vault_at srv ref)) = (hs, s)" by fastforce
  have "srv' = srv \<or> srv' = set_vault ref (vault_at srv ref\<lparr>vs_store := s\<rparr>) srv"
    using c h by (auto simp: wait_begin_def Let_def split: if_splits)
  then show ?thesis using good_hash [OF ok r h] good_refl [OF ok] by auto
qed

lemma good_wait_end:
  assumes ok: "server_ok srv" and r: "ref < length (heap srv)"
    and c: "wait_end env vid ref nonce want srv = (x, srv')"
  shows "good_step srv srv'"
proof -
  obtain hs s where h: "store_SetHash (vs_store (vault_at srv ref)) = (hs, s)" by fastforce
  have "srv' = srv \<or> srv' = set_vault ref (vault_at srv ref\<lparr>vs_store := s\<rparr>) srv"
    using c h by (auto simp: wait_end_def Let_def split: if_splits)
  then show ?thesis using good_hash [OF ok r h] good_refl [OF ok] by auto
qed

lemma good_drop:
  assumes ok: "server_ok srv" and c: "handleDrop env vid ref nonce srv = (x, srv')"
  shows "good_step srv srv'"
proof (cases "srv' = srv")
  case True
  then show ?thesis using good_refl [OF ok] by simp
next
  case False
  then obtain b where "lookup_vault srv vid = Some ref" "endLocked env vid ref noteDropped srv = (b, srv')"
    using c by (auto simp: handleDrop_def Let_def split: if_splits prod.splits)
  then show ?thesis using good_end [OF ok] by blast
qed

lemma good_ensure:
  assumes ok: "server_ok srv" and c: "EnsureVault env vid ak srv = (x, srv')"
  shows "good_step srv srv'"
proof (cases "srv' = srv")
  case True
  then show ?thesis using good_refl [OF ok] by simp
next
  case False
  then obtain cr where "lookup_vault srv vid = None" "vid \<notin> revoked srv" "createVaultLocked env vid ak False srv = (cr, srv')"
    using c by (auto simp: EnsureVault_def split: if_splits option.splits prod.splits)
  then show ?thesis using good_create [OF ok] by blast
qed

lemma good_dropvault:
  assumes ok: "server_ok srv" and c: "DropVault env vid note srv = (x, srv')"
  shows "good_step srv srv'"
proof (cases "lookup_vault srv vid")
  case (Some ref)
  then obtain b where "endLocked env vid ref note srv = (b, srv')"
    using c by (auto simp: DropVault_def split: if_splits prod.splits)
  then show ?thesis using good_end [OF ok Some] by blast
qed (use c good_refl [OF ok] in \<open>simp add: DropVault_def\<close>)

lemma good_add_entries_at:
  assumes ok: "server_ok srv" and r: "ref < length (heap srv)" and c: "add_entries_at env ref es srv = (x, srv')"
  shows "good_step srv srv'"
proof (cases "srv' = srv")
  case True
  then show ?thesis using good_refl [OF ok] by simp
next
  case False
  then obtain new y st' where "validateNew env (quota srv) (vault_at srv ref) es False = Inr new"
    "addValidatedLocked env (vault_at srv ref) new = (y, st')" "srv' = set_vault ref st' srv"
    using c by (auto simp: add_entries_at_def Let_def split: if_splits sum.splits push_error.splits prod.splits)
  then show ?thesis using good_add [OF ok r] by blast
qed

lemma good_no_push: "server_ok srv \<Longrightarrow> ref < length (heap srv) \<Longrightarrow> good_step srv (set_no_push_at ref v srv)"
  unfolding set_no_push_at_def
  by (rule good_set_vault) (use ok_vault_at in \<open>auto simp: vault_ok_def vault_grows_def contents_def\<close>)

lemma good_close_over:
  "server_ok srv \<Longrightarrow> \<forall>(vid, ref) \<in> set vs. ref < length (heap srv) \<Longrightarrow> good_step srv (close_over vs srv)"
proof (induction vs srv rule: close_over.induct)
  case (1 srv)
  then show ?case by (simp add: good_refl)
next
  case (2 vid ref vs srv)
  define srv1 where "srv1 = set_vault ref (close_vault (vault_at srv ref)) srv"
  define srv2 where "srv2 = (case dir (vault_at srv ref) of None \<Rightarrow> srv1
    | Some d \<Rightarrow> srv1\<lparr>logs := AList.update d (store_file (vs_store (vault_at srv ref))) (logs srv1)\<rparr>)"
  have r: "ref < length (heap srv)" using "2.prems" by simp
  have "good_step srv srv1"
    unfolding srv1_def using ok_vault_at [OF "2.prems"(1) r]
    by (intro good_set_vault [OF "2.prems"(1) r]) (simp_all add: close_vault_def vault_ok_def vault_grows_def contents_def)
  then have g: "good_step srv srv2" by (simp add: srv2_def split: option.split)
  have "length (heap srv2) = length (heap srv)" by (simp add: srv2_def srv1_def set_vault_def split: option.split)
  moreover have e: "(let st = vault_at srv ref; srv = set_vault ref (close_vault st) srv
      in case dir st of None \<Rightarrow> srv
        | Some d \<Rightarrow> srv\<lparr>logs := AList.update d (store_file (vs_store st)) (logs srv)\<rparr>) = srv2"
    by (simp add: srv2_def srv1_def Let_def split: option.split)
  ultimately have "good_step srv2 (close_over vs srv2)"
    using "2.IH" [unfolded e] "2.prems"(2) good_ok [OF g] by simp
  moreover have "close_over ((vid, ref) # vs) srv = close_over vs srv2"
    unfolding close_over.simps e ..
  ultimately show ?case using g good_trans by metis
qed

lemma good_close:
  assumes ok: "server_ok srv" shows "good_step srv (server_Close srv)"
proof -
  have "\<forall>(vid, ref) \<in> set (vaults srv). ref < length (heap (Drain srv))"
    using ok by (auto simp: Drain_def server_ok_def)
  moreover have "good_step srv (Drain srv)" using good_refl [OF ok] by (simp add: Drain_def)
  ultimately show ?thesis
    unfolding server_Close_def using good_close_over [OF good_ok] good_trans by blast
qed

section \<open>Interleaved requests\<close>

text \<open>
  One uninterrupted piece of some request. A SYNC that has looked its vault up holds the pointer while
  others run: its later pieces are steps of their own, with any vault and any pointer ever handed out.
\<close>

inductive server_step :: "server \<Rightarrow> server \<Rightarrow> bool" where
  register: "handleRegister env h sealed srv = (r, srv') \<Longrightarrow> server_step srv srv'"
| sync_opens: "sync_open env h sealed srv = (o', srv') \<Longrightarrow> server_step srv srv'"
| expiry: "expireIfDue env vid ref srv = (ended, ok, srv') \<Longrightarrow> server_step srv srv'"
| operation: "ref < length (heap srv) \<Longrightarrow> sync_op env vid ref nonce req srv = (r, pushed, srv') \<Longrightarrow> server_step srv srv'"
| dropping: "handleDrop env vid ref nonce srv = (r, srv') \<Longrightarrow> server_step srv srv'"
| wait_starts: "ref < length (heap srv) \<Longrightarrow> wait_begin env vid ref nonce want srv = (w, srv') \<Longrightarrow> server_step srv srv'"
| wait_ends: "ref < length (heap srv) \<Longrightarrow> wait_end env vid ref nonce want srv = (r, srv') \<Longrightarrow> server_step srv srv'"
| ensure: "EnsureVault env vid ak srv = (res, srv') \<Longrightarrow> server_step srv srv'"
| owner_drop: "DropVault env vid note srv = (res, srv') \<Longrightarrow> server_step srv srv'"
| owner_add: "ref < length (heap srv) \<Longrightarrow> add_entries_at env ref es srv = (res, srv') \<Longrightarrow> server_step srv srv'"
| no_push: "ref < length (heap srv) \<Longrightarrow> server_step srv (set_no_push_at ref v srv)"
| draining: "server_step srv (Drain srv)"
| closing: "server_step srv (server_Close srv)"

lemma good_server_step: "server_step srv srv' \<Longrightarrow> server_ok srv \<Longrightarrow> good_step srv srv'"
proof (induction rule: server_step.induct)
  case (draining srv)
  then show ?case by (simp add: Drain_def good_refl)
qed (blast intro: good_register good_sync_open [THEN conjunct1] good_expire [THEN conjunct1] good_sync_op good_drop
    good_wait_begin good_wait_end good_ensure good_dropvault good_add_entries_at good_no_push good_close)+

lemma good_run: "server_step\<^sup>*\<^sup>* srv srv' \<Longrightarrow> server_ok srv \<Longrightarrow> good_step srv srv'"
proof (induction rule: rtranclp_induct)
  case base
  then show ?case by (rule good_refl)
next
  case (step b c)
  have "good_step srv b" using step by blast
  moreover have "good_step b c" using good_server_step step.hyps(2) good_ok calculation by blast
  ultimately show ?case by (rule good_trans)
qed

end
