(* ===== verification/ServerProps.thy ===== *)
theory ServerProps
  imports ServerSteps
begin

text \<open>
  What the server promises: the history of a vault, the outcome of a PUSH, that frames are
  authenticated before they change anything, that an ended vault stays ended over a restart, and that a
  held WAIT is woken; and where the code breaks a promise.
\<close>

section \<open>Starting\<close>

definition dir_ids :: "bytes list \<Rightarrow> bytes list" where
  "dir_ids ds = concat (map (\<lambda>d. case ParseVaultID d of Inl _ \<Rightarrow> [] | Inr v \<Rightarrow> [v]) ds)"

lemma removeLog_good [simp]: "good_step srv (snd (removeLog env d srv')) \<longleftrightarrow> good_step srv srv'"
  by (simp add: removeLog_def split: write_outcome.split)

lemma removeLog_frame [simp]:
  "revoked (snd (removeLog env d srv)) = revoked srv" "vaults (snd (removeLog env d srv)) = vaults srv"
  "heap (snd (removeLog env d srv)) = heap srv" "records (snd (removeLog env d srv)) = records srv"
  by (simp_all add: removeLog_def split: write_outcome.split)

lemma good_revoke: "server_ok srv \<Longrightarrow> lookup_vault srv vid = None \<Longrightarrow> good_step srv (srv\<lparr>revoked := insert vid (revoked srv)\<rparr>)"
  by (auto simp: good_step_def server_ok_def evolves_def lookup_vault_def map_of_eq_None_iff rev_image_eqI)

text \<open>What \<open>load_log\<close> does, in one of two shapes.\<close>

lemma load_log_shape:
  "\<exists>l. case fst (OpenLogStore (map_of (logs srv) d) (openIO env)) of
      Inl e \<Rightarrow> load_log env d vid r ak srv = srv\<lparr>logs := l\<rparr>
    | Inr ls \<Rightarrow> mem_inv (mem ls) \<and> load_log env d vid r ak srv = fresh_vault (srv\<lparr>logs := l\<rparr>) vid
        ((newVaultState (Log ls) ak (Some d))
          \<lparr>vbytes := sizes (mem_Sorted (mem ls)), ephemeral := rEphemeral r, created := rCreated r\<rparr>)"
proof -
  obtain res f where o: "OpenLogStore (map_of (logs srv) d) (openIO env) = (res, f)" by fastforce
  define srv1 where "srv1 = (case f of None \<Rightarrow> srv | Some b \<Rightarrow> srv\<lparr>logs := AList.update d b (logs srv)\<rparr>)"
  have s1: "srv\<lparr>logs := logs srv1\<rparr> = srv1" by (simp add: srv1_def split: option.split)
  have "load_log env d vid r ak srv = (case res of Inl e \<Rightarrow> srv1
    | Inr ls \<Rightarrow> fresh_vault srv1 vid ((newVaultState (Log ls) ak (Some d))
        \<lparr>vbytes := sizes (mem_Sorted (mem ls)), ephemeral := rEphemeral r, created := rCreated r\<rparr>))"
    unfolding load_log_def o srv1_def fresh_vault_def by (cases res) (simp_all add: Let_def)
  then show ?thesis
    using o s1 open_inv [of "map_of (logs srv) d" "openIO env"]
    by (intro exI [of _ "logs srv1"]) (cases res; simp)
qed

lemma load_log_good:
  assumes ok: "server_ok srv" and n: "lookup_vault srv vid = None" "vid \<notin> revoked srv"
  shows "good_step srv (load_log env d vid r ak srv)"
proof -
  obtain l where l: "case fst (OpenLogStore (map_of (logs srv) d) (openIO env)) of
      Inl e \<Rightarrow> load_log env d vid r ak srv = srv\<lparr>logs := l\<rparr>
    | Inr ls \<Rightarrow> mem_inv (mem ls) \<and> load_log env d vid r ak srv = fresh_vault (srv\<lparr>logs := l\<rparr>) vid
        ((newVaultState (Log ls) ak (Some d))
          \<lparr>vbytes := sizes (mem_Sorted (mem ls)), ephemeral := rEphemeral r, created := rCreated r\<rparr>)"
    using load_log_shape by blast
  show ?thesis
  proof (cases "fst (OpenLogStore (map_of (logs srv) d) (openIO env))")
    case (Inl e)
    then show ?thesis using l good_refl [OF ok] by simp
  next
    case (Inr ls)
    define st where "st = (newVaultState (Log ls) ak (Some d))
      \<lparr>vbytes := sizes (mem_Sorted (mem ls)), ephemeral := rEphemeral r, created := rCreated r\<rparr>"
    have st: "vault_ok (quota (srv\<lparr>logs := l\<rparr>)) st" "\<not> gone st"
      using l Inr by (simp_all add: st_def vault_ok_def newVaultState_def)
    have "good_step (srv\<lparr>logs := l\<rparr>) (fresh_vault (srv\<lparr>logs := l\<rparr>) vid st)"
      by (rule good_fresh) (use ok n st in \<open>simp_all add: lookup_vault_def\<close>)
    then show ?thesis using l Inr by (simp add: st_def)
  qed
qed

lemma load_log_others:
  "x \<noteq> vid \<Longrightarrow> lookup_vault (load_log env d vid r ak srv) x = lookup_vault srv x"
  "revoked (load_log env d vid r ak srv) = revoked srv" "records (load_log env d vid r ak srv) = records srv"
  using load_log_shape [where srv = srv and d = d and env = env and vid = vid and r = r and ak = ak]
  by (cases "fst (OpenLogStore (map_of (logs srv) d) (openIO env))";
      fastforce simp: fresh_vault_def lookup_vault_def update_conv)+

lemma load_dir_good:
  assumes ok: "server_ok srv" and p: "ParseVaultID d = Inr vid"
    and n: "lookup_vault srv vid = None" "vid \<notin> revoked srv"
  shows "good_step srv (load_dir env d srv)"
  using p good_refl [OF ok] good_revoke [OF ok n(1)] load_log_good [OF ok n]
  by (auto simp: load_dir_def split: option.split record_file.split)

lemma load_dir_others:
  assumes "case ParseVaultID d of Inl _ \<Rightarrow> True | Inr v \<Rightarrow> v \<noteq> x"
  shows "lookup_vault (load_dir env d srv) x = lookup_vault srv x \<and> (x \<in> revoked (load_dir env d srv) \<longleftrightarrow> x \<in> revoked srv)"
  using assms
  by (auto simp: load_dir_def lookup_vault_def [of "srv\<lparr>revoked := _\<rparr>"] load_log_others
      split: sum.splits option.splits record_file.splits) (simp_all add: lookup_vault_def)

lemma load_dir_records: "records (load_dir env d srv) = records srv" "revoked srv \<subseteq> revoked (load_dir env d srv)"
  by (auto simp: load_dir_def load_log_others split: sum.split option.split record_file.split)

lemma load_dirs_good:
  "server_ok srv \<Longrightarrow> distinct (dir_ids ds) \<Longrightarrow> \<forall>v \<in> set (dir_ids ds). lookup_vault srv v = None \<and> v \<notin> revoked srv \<Longrightarrow>
    good_step srv (fold (load_dir env) ds srv)"
proof (induction ds arbitrary: srv)
  case Nil
  then show ?case by (simp add: good_refl)
next
  case (Cons d ds)
  show ?case
  proof (cases "ParseVaultID d")
    case (Inl e)
    then have "load_dir env d srv = srv" "dir_ids (d # ds) = dir_ids ds" by (simp_all add: load_dir_def dir_ids_def)
    then show ?thesis using Cons by simp
  next
    case (Inr vid)
    note others = load_dir_others [where d = d and env = env and srv = srv]
    from Inr have i: "dir_ids (d # ds) = vid # dir_ids ds" by (simp add: dir_ids_def)
    have g: "good_step srv (load_dir env d srv)" using load_dir_good [OF Cons.prems(1) Inr] Cons.prems(3) i by simp
    have o: "lookup_vault (load_dir env d srv) v = None \<and> v \<notin> revoked (load_dir env d srv)" if "v \<in> set (dir_ids ds)" for v
    proof -
      have "v \<noteq> vid" using that i Cons.prems(2) by auto
      then show ?thesis using others [of v] Inr that i Cons.prems(3) by simp
    qed
    have "good_step (load_dir env d srv) (fold (load_dir env) ds (load_dir env d srv))"
      using Cons.prems(2) i o by (intro Cons.IH good_ok [OF g]) auto
    then show ?thesis using g good_trans by (metis fold_simps(2))
  qed
qed

lemma empty_ok: "server_ok (empty_server dd q rks recs lgs)"
  by (simp add: empty_server_def server_ok_def)

lemma New_ok:
  assumes "New env dd q rks dirs recs lgs = (True, srv)" and "\<And>ds. dirs = Some ds \<Longrightarrow> distinct (dir_ids ds)"
  shows "server_ok srv"
proof (cases dd)
  case False
  then show ?thesis using assms(1) empty_ok [of False q rks recs lgs] by (simp add: New_def Let_def)
next
  case True
  then obtain ds where d: "dirs = Some ds" "sweepLocked env (fold (load_dir env) ds (empty_server dd q rks recs lgs)) = (True, srv)"
    using assms(1) by (auto simp: New_def Let_def loadPersistedVaults_def split: if_splits option.splits prod.splits)
  have "good_step (empty_server dd q rks recs lgs) (fold (load_dir env) ds (empty_server dd q rks recs lgs))"
    using load_dirs_good [OF empty_ok assms(2) [OF d(1)]] by (simp add: empty_server_def lookup_vault_def)
  then show ?thesis using good_sweep [OF good_ok d(2)] good_ok by blast
qed

section \<open>The history of a vault\<close>

text \<open>C1. The invariant of the server, over every interleaving of requests, owner calls, sweeps, drains
  and a close after any successful start: a revoked vault stays revoked and is never served again; a
  vault that is served keeps its pointer until it is revoked, keeps its keys and its mark, and its set
  of entries only grows at the end.\<close>

theorem server_history:
  assumes "New env dd q rks dirs recs lgs = (True, s0)" and "\<And>ds. dirs = Some ds \<Longrightarrow> distinct (dir_ids ds)"
    and "server_step\<^sup>*\<^sup>* s0 s" and "server_step\<^sup>*\<^sup>* s s'"
  shows "(\<forall>vid \<in> revoked s. vid \<in> revoked s' \<and> lookup_vault s' vid = None)
    \<and> (\<forall>vid ref. lookup_vault s vid = Some ref \<longrightarrow>
        (lookup_vault s' vid = Some ref \<or> vid \<in> revoked s' \<and> lookup_vault s' vid = None)
        \<and> authKey (vault_at s' ref) = authKey (vault_at s ref)
        \<and> c2s (vault_at s' ref) = DeriveC2S (authKey (vault_at s ref))
        \<and> s2c (vault_at s' ref) = DeriveS2C (authKey (vault_at s ref))
        \<and> ephemeral (vault_at s' ref) = ephemeral (vault_at s ref)
        \<and> (\<exists>ts. contents (vault_at s' ref) = contents (vault_at s ref) @ ts))"
proof -
  have s: "server_ok s" using good_ok [OF good_run [OF assms(3) New_ok [OF assms(1,2)]]] .
  have g: "good_step s s'" using good_run [OF assms(4) s] .
  then have e: "evolves s s'" "server_ok s'" by (simp_all add: good_step_def)
  have none: "lookup_vault s' vid = None" if "vid \<in> revoked s'" for vid
    using lookup_served [OF e(2)] that by (cases "lookup_vault s' vid") auto
  show ?thesis
  proof (intro conjI ballI allI impI)
    show "vid \<in> revoked s'" "lookup_vault s' vid = None" if "vid \<in> revoked s" for vid
      using that none evolves_parts(1) [OF e(1)] by blast+
    fix vid ref assume l: "lookup_vault s vid = Some ref"
    have r: "ref < length (heap s)" using lookup_served [OF s l] by blast
    show "lookup_vault s' vid = Some ref \<or> vid \<in> revoked s' \<and> lookup_vault s' vid = None"
      using evolves_keptD [OF e(1) l] none by blast
    have v: "vault_grows (vault_at s ref) (vault_at s' ref)" "vault_ok (quota s) (vault_at s ref)"
      using evolves_parts(4) [OF e(1) r] ok_vault_at [OF s r] by (simp_all add: vault_at_def)
    then show "authKey (vault_at s' ref) = authKey (vault_at s ref)"
      "c2s (vault_at s' ref) = DeriveC2S (authKey (vault_at s ref))"
      "s2c (vault_at s' ref) = DeriveS2C (authKey (vault_at s ref))"
      "ephemeral (vault_at s' ref) = ephemeral (vault_at s ref)"
      "\<exists>ts. contents (vault_at s' ref) = contents (vault_at s ref) @ ts"
      by (simp_all add: vault_grows_def vault_ok_def)
  qed
qed

definition sample_env :: env where
  "sample_env = \<lparr>now = 1000, rnd = Some (replicate 16 0), nano = 1, mkdirE = False, recW = (\<lambda>_. Written),
     rmO = Written, openIO = good_open, addIO = good_add, sweep = []\<rparr>"

lemma New_memory: "New env False q rks dirs recs lgs = (True, empty_server False q rks recs lgs)"
  by (simp add: New_def Let_def)

definition sample_server :: server where
  "sample_server = snd (EnsureVault sample_env [1] [2] (empty_server False DefaultQuotas [] [] []))"

definition sample_ended :: server where
  "sample_ended = snd (DropVault sample_env [1] [] sample_server)"

lemma call_steps:
  "server_step srv (snd (EnsureVault env vid ak srv))" "server_step srv (snd (DropVault env vid note srv))"
  by (rule ensure [OF prod.collapse [symmetric]], rule owner_drop [OF prod.collapse [symmetric]])

lemma sample_runs:
  "server_step\<^sup>*\<^sup>* (empty_server False DefaultQuotas [] [] []) sample_server" "server_step\<^sup>*\<^sup>* sample_server sample_ended"
  unfolding sample_server_def sample_ended_def
  by (intro r_into_rtranclp call_steps)+

lemma sample_lookup: "lookup_vault sample_server [1] = Some 0" "authKey (vault_at sample_server 0) = [2]"
  by (simp_all add: sample_server_def EnsureVault_def empty_server_def lookup_vault_def createVaultLocked_def
      vault_at_def newVaultState_def)

lemma sample_gone: "lookup_vault sample_ended [1] = None" "[1] \<in> revoked sample_ended"
  using sample_lookup
  by (simp_all add: sample_ended_def DropVault_def endLocked_def sample_server_def EnsureVault_def empty_server_def
      lookup_vault_def createVaultLocked_def vault_at_def newVaultState_def set_vault_def notifyLocked_def)

theorem server_history_witness:
  "authKey (vault_at sample_ended 0) = [2] \<and> c2s (vault_at sample_ended 0) = DeriveC2S [2] \<and> [1] \<in> revoked sample_ended"
  using server_history [where dirs = None, OF New_memory _ sample_runs] sample_lookup sample_gone by simp

section \<open>The outcome of a PUSH\<close>

lemma validate_loop_eq:
  "mem_inv (store_mem s) \<Longrightarrow> validate_loop s cs lim seen es =
    (if cs \<and> (\<exists>e \<in> set (new_entries (seen \<union> ids_of (entries (store_mem s))) es). lim < TsMs e) then Inl ErrSkew
     else Inr (new_entries (seen \<union> ids_of (entries (store_mem s))) es))"
proof (induction es arbitrary: seen)
  case (Cons e es)
  have "store_Has s (entry_ID e) \<longleftrightarrow> entry_ID e \<in> ids_of (entries (store_mem s))"
    unfolding store_Has_def using Cons.prems by (rule mem.has_spec)
  then show ?case using Cons.IH [OF Cons.prems, of seen] Cons.IH [OF Cons.prems, of "insert (entry_ID e) seen"] by auto
qed simp

definition push_limit :: "env \<Rightarrow> server \<Rightarrow> u64" where
  "push_limit env srv = word_of_int (now env) + word_of_int (TSSkewMs (quota srv))"

definition over_quota :: "quotas \<Rightarrow> vault_state \<Rightarrow> entry list \<Rightarrow> bool" where
  "over_quota q st new \<longleftrightarrow> MaxEntries q < length (contents st) + length new \<or> MaxVaultBytes q < vbytes st + sizes new
     \<or> noPush st \<and> new \<noteq> []"

text \<open>C7. The outcome of a PUSH on a live vault, on every branch. With \<open>new\<close> the pushed entries the vault
  does not hold, each once: BAD_REQUEST and nothing changed when one of them is dated too far ahead,
  else QUOTA and nothing changed when they do not fit (or the vault takes no pushes and there are any),
  else either the store failed, nothing is answered and the contents are as before, or exactly \<open>new\<close> is
  added at the end, the byte count moves by its size, OK is answered, and the push hook fires exactly
  when there was something new.\<close>

theorem push_outcome:
  assumes "server_ok srv" and "ref < length (heap srv)" and "\<not> gone (vault_at srv ref)" and "Op req = OpPush"
    and "st = vault_at srv ref" and "new = new_entries (ids_of (contents st)) (ReqEntries req)"
    and "sync_op env vid ref nonce req srv = (r, pushed, srv')"
  shows "if \<exists>e \<in> set new. push_limit env srv < TsMs e
    then (r, pushed, srv') = (sealResp env vid (s2c st) nonce StatusBadRequest [], False, srv)
    else if over_quota (quota srv) st new
    then (r, pushed, srv') = (sealResp env vid (s2c st) nonce StatusQuota [], False, srv)
    else r = NoReply \<and> \<not> pushed \<and> contents (vault_at srv' ref) = contents st
      \<or> r = sealResp env vid (s2c st) nonce StatusOK [] \<and> (pushed \<longleftrightarrow> new \<noteq> [] \<and> r \<noteq> NoReply)
        \<and> contents (vault_at srv' ref) = contents st @ new
        \<and> vbytes (vault_at srv' ref) = vbytes st + sizes new"
proof -
  have ok: "vault_ok (quota srv) st" "mem_inv (store_mem (vs_store st))"
    using ok_vault_at [OF assms(1,2)] assms(5) by (simp_all add: vault_ok_def)
  define v where "v = validateNew env (quota srv) st (ReqEntries req) True"
  have v: "v = (if \<exists>e \<in> set new. push_limit env srv < TsMs e then Inl ErrSkew
      else if MaxEntries (quota srv) < length (contents st) + length new \<or> MaxVaultBytes (quota srv) < vbytes st + sizes new
      then Inl ErrQuota else Inr new)"
    unfolding v_def validateNew_def validate_loop_eq [OF ok(2)] push_limit_def [symmetric]
    using assms(6) by (simp add: contents_def store_Len_def mem_Len_def)
  have d: "OpPush \<noteq> OpProbe" "OpPush \<noteq> OpPull" by (simp_all add: OpPush_def OpProbe_def OpPull_def)
  note c = assms(7) [unfolded sync_op_def Let_def assms(5) [symmetric] v_def [symmetric]]
  consider "\<exists>e \<in> set new. push_limit env srv < TsMs e" | "\<not> (\<exists>e \<in> set new. push_limit env srv < TsMs e)" "over_quota (quota srv) st new"
    | "\<not> (\<exists>e \<in> set new. push_limit env srv < TsMs e)" "\<not> over_quota (quota srv) st new" by blast
  then show ?thesis
  proof cases
    case 1
    then show ?thesis using c v assms(3,4,5) d by auto
  next
    case 2
    then have "(case v of Inl err \<Rightarrow> Inl err | Inr new \<Rightarrow> if noPush st \<and> new \<noteq> [] then Inl ErrQuota else Inr new) = Inl ErrQuota"
      using v by (auto simp: over_quota_def)
    then show ?thesis using 2 c assms(3,4,5) d by auto
  next
    case 3
    then have v3: "v = Inr new" "\<not> (noPush st \<and> new \<noteq> [])" using v by (auto simp: over_quota_def)
    obtain x st' where a: "addValidatedLocked env st new = (x, st')" by fastforce
    note sp = addValidated_spec [OF ok(1) v3(1) [unfolded v_def] a]
    have at: "vault_at (set_vault ref st' srv) ref = st'" using assms(2) by (simp add: vault_at_def set_vault_def)
    have s2: "s2c st' = s2c st" using sp by (simp add: vault_grows_def)
    show ?thesis
      using 3 c v3 a sp at s2 assms(3,4,5) d by (cases x) auto
  qed
qed

lemma sample_served:
  "server_ok sample_server" "heap sample_server = [vault_at sample_server 0]" "\<not> gone (vault_at sample_server 0)"
  "contents (vault_at sample_server 0) = []" "noPush (vault_at sample_server 0) = False" "vbytes (vault_at sample_server 0) = 0"
  "quota sample_server = DefaultQuotas"
  using good_ok [OF good_ensure [OF empty_ok prod.collapse [symmetric], of False DefaultQuotas "[]" "[]" "[]" sample_env "[1]" "[2]"]]
  by (simp_all add: sample_server_def EnsureVault_def empty_server_def lookup_vault_def createVaultLocked_def
      vault_at_def newVaultState_def contents_def NewMemStore_def withDefaults_def cmp_or_def DefaultQuotas_def WaitMaxMs_def)

theorem push_outcome_witness:
  "\<exists>r pushed srv'. sync_op sample_env [1] 0 [] \<lparr>Op = OpPush, ReqSetHash = [], CurTs = 0, CurID = [],
      ReqEntries = [sample_entry 5, sample_entry 5]\<rparr> sample_server = (r, pushed, srv')
    \<and> (r = NoReply \<or> contents (vault_at srv' 0) = [sample_entry 5])"
proof -
  define req where "req = \<lparr>Op = OpPush, ReqSetHash = [], CurTs = 0, CurID = [], ReqEntries = [sample_entry 5, sample_entry 5]\<rparr>"
  obtain r pushed srv' where e: "sync_op sample_env [1] 0 [] req sample_server = (r, pushed, srv')" by (metis prod_cases3)
  have o: "Op req = OpPush" by (simp add: req_def)
  have n: "new_entries {} (ReqEntries req) = [sample_entry 5]" by (simp add: req_def)
  have q: "\<not> over_quota (quota sample_server) (vault_at sample_server 0) [sample_entry 5]"
    by (simp add: over_quota_def sample_served DefaultQuotas_def sizes_def entry_sizes sample_entry_def)
  have l: "\<not> (\<exists>e \<in> set [sample_entry 5]. push_limit sample_env sample_server < TsMs e)"
    by (simp add: push_limit_def sample_env_def sample_served DefaultQuotas_def sample_entry_def)
  show ?thesis
    using push_outcome [OF sample_served(1) _ _ o refl refl e] q l n e sample_served req_def
    by (intro exI [of _ r] exI [of _ pushed] exI [of _ srv']) auto
qed

section \<open>Frames\<close>

lemma open_any_key: "open_any ks h sealed = Some p \<Longrightarrow> \<exists>k \<in> set ks. OpenFrame k h sealed = Inr p"
  by (induction ks) (auto split: sum.splits)

lemma frame_opened:
  "length k = 16 \<Longrightarrow> ParseHeader b = Inr (h, sealed) \<Longrightarrow> OpenFrame k h sealed = Inr p \<Longrightarrow> SealFrame h k p = Inr b"
  using OpenFrame_iff by (auto simp: ParseHeader_iff)

text \<open>C4. Nothing a peer sends changes the server unless it is authenticated: a frame whose handling
  changes the state in any way is, byte for byte, what \<open>SealFrame\<close> makes of its header and some payload,
  under one of the registration keys for a REGISTER, or under the client's channel key of the very vault
  it names for a SYNC.\<close>

theorem frame_authentic:
  assumes "HandleFrame env req srv = (r, pushed, srv')" and "srv' \<noteq> srv \<or> pushed \<noteq> None"
    and "server_ok srv" and "\<forall>k \<in> set (regKeys srv). length k = 16"
  shows "\<exists>h k payload. SealFrame h k payload = Inr req \<and> header_ok h
    \<and> (Kind h = KindRegister \<and> k \<in> set (regKeys srv)
       \<or> Kind h = KindSync \<and> (\<exists>ref. lookup_vault srv (VaultID h) = Some ref \<and> k = c2s (vault_at srv ref)))"
proof -
  obtain h sealed where h: "ParseHeader req = Inr (h, sealed)"
    using assms(1,2) by (cases "ParseHeader req") (auto simp: HandleFrame_def)
  consider "Kind h = KindRegister" | "Kind h = KindSync" "Kind h \<noteq> KindRegister"
    using assms(1,2) h by (cases "Kind h = KindRegister"; cases "Kind h = KindSync") (auto simp: HandleFrame_def)
  then show ?thesis
  proof cases
    case 1
    have "open_any (regKeys srv) h sealed \<noteq> None"
    proof
      assume "open_any (regKeys srv) h sealed = None"
      then have "handleRegister env h sealed srv = (pre ErrBadAuth, srv)" by (simp add: handleRegister_def)
      then show False using assms(1,2) h 1 by (simp add: HandleFrame_def)
    qed
    then obtain k p where k: "k \<in> set (regKeys srv)" "OpenFrame k h sealed = Inr p" using open_any_key by blast
    show ?thesis
      using frame_opened [OF _ h k(2)] k(1) assms(4) 1 h by (intro exI [of _ h] exI [of _ k] exI [of _ p]) (simp add: ParseHeader_iff)
  next
    case 2
    then have "handleSync env h sealed srv = (r, pushed, srv')" using assms(1) h by (simp add: HandleFrame_def)
    then obtain ref p where l: "lookup_vault srv (VaultID h) = Some ref" "OpenFrame (c2s (vault_at srv ref)) h sealed = Inr p"
      using assms(2) by (auto simp: handleSync_def sync_open_def split: option.splits sum.splits)
    have "vault_ok (quota srv) (vault_at srv ref)" using ok_vault_at lookup_served assms(3) l(1) by blast
    then have "length (c2s (vault_at srv ref)) = 16" by (simp add: vault_ok_def DeriveC2S_def derive16_label)
    then show ?thesis
      using frame_opened [OF _ h l(2)] l(1) 2 h
      by (intro exI [of _ h] exI [of _ "c2s (vault_at srv ref)"] exI [of _ p]) (simp add: ParseHeader_iff)
  qed
qed

text \<open>A REGISTER that creates a vault, sealed under the server's one registration key.\<close>

definition sample_header :: header where
  "sample_header = \<lparr>Kind = KindRegister, VaultID = replicate 16 1, FrNonce = replicate 16 2\<rparr>"

theorem frame_authentic_witness:
  "\<exists>req r p srv'. HandleFrame sample_env req (empty_server False DefaultQuotas [replicate 16 3] [] []) = (r, p, srv')
    \<and> (\<exists>h payload. SealFrame h (DeriveRegKey (replicate 16 3)) payload = Inr req)"
proof -
  define srv where "srv = empty_server False DefaultQuotas [replicate 16 3] [] []"
  define k where "k = DeriveRegKey (replicate 16 3)"
  define ak where "ak = replicate 16 (4 :: byte)"
  have k: "length k = 16" by (simp add: k_def DeriveRegKey_def derive16_label)
  have hk: "header_ok sample_header" by (simp add: sample_header_def header_ok_def)
  obtain sealed where f: "SealFrame sample_header k (RegisterPayload ak False) = Inr (header_bytes sample_header @ sealed)"
    "length sealed = length (RegisterPayload ak False) + 16" using SealFrame_total [OF k hk] by blast
  define req where "req = header_bytes sample_header @ sealed"
  have p: "ParseHeader req = Inr (sample_header, sealed)" using f hk by (simp add: req_def ParseHeader_iff)
  have o: "OpenFrame k sample_header sealed = Inr (RegisterPayload ak False)" using f(1) OpenFrame_iff [OF k hk] by simp
  have pr: "ParseRegister (RegisterPayload ak False) = Inr (ak, False)"
    by (simp add: ParseRegister_def RegisterPayload_def ak_def Let_def)
  obtain r p srv' where e: "HandleFrame sample_env req srv = (r, p, srv')" by (metis prod_cases3)
  have hr: "handleRegister sample_env sample_header sealed srv = register_checked sample_env sample_header ak False None srv"
    by (simp add: handleRegister_def srv_def empty_server_def k_def [symmetric] o pr lookup_vault_def)
  have "srv' = snd (handleRegister sample_env sample_header sealed srv)"
    using e p by (simp add: HandleFrame_def sample_header_def split: prod.splits)
  moreover have "vaults (snd (register_checked sample_env sample_header ak False None srv)) \<noteq> []"
    by (simp add: register_checked_def srv_def empty_server_def sweepLocked_def sample_env_def createVaultLocked_def
        withDefaults_def cmp_or_def DefaultQuotas_def Let_def)
  ultimately have n: "srv' \<noteq> srv" using hr by (auto simp: srv_def empty_server_def)
  have rk: "\<forall>k \<in> set (regKeys srv). length k = 16" using k by (simp add: srv_def empty_server_def k_def)
  have ok: "server_ok srv" unfolding srv_def by (rule empty_ok)
  have set: "set (regKeys srv) = {k}" "\<And>v. lookup_vault srv v = None"
    by (simp_all add: srv_def empty_server_def k_def lookup_vault_def)
  obtain h payload where "SealFrame h k payload = Inr req"
    using frame_authentic [OF e _ ok rk] n set by auto
  then show ?thesis using e unfolding srv_def k_def by blast
qed

section \<open>Waits\<close>

text \<open>C21. A held WAIT is never left asleep over a change: once it is held on channel \<open>ch\<close>, whatever runs
  before it looks again, if the vault's contents are other than they were or the vault has ended then
  the channel it holds has been closed; and when it looks again and the vault is still served, it
  answers DIFFER exactly when the set's hash is not the client's.\<close>

theorem wait_woken:
  assumes "server_ok srv" and "ref < length (heap srv)"
    and "wait_begin env vid ref nonce want srv = (Inr ch, srv1)" and "server_step\<^sup>*\<^sup>* srv1 srv2"
  shows "(contents (vault_at srv2 ref) \<noteq> contents (vault_at srv ref) \<or> gone (vault_at srv2 ref) \<longrightarrow> ch < changed (vault_at srv2 ref))
    \<and> want = SetHash (SortCanonical (contents (vault_at srv ref)))
    \<and> (\<not> gone (vault_at srv2 ref) \<and> \<not> closed (vault_at srv2 ref) \<longrightarrow>
        fst (wait_end env' vid ref nonce want srv2) = sealResp env' vid (s2c (vault_at srv2 ref)) nonce
          (if SetHash (SortCanonical (contents (vault_at srv2 ref))) \<noteq> want then StatusDiffer else StatusOK) [])"
proof -
  define st where "st = vault_at srv ref"
  obtain hs s where h: "store_SetHash (vs_store st) = (hs, s)" by fastforce
  have b: "\<not> gone st" "hs = want" "ch = changed st" "srv1 = set_vault ref (st\<lparr>vs_store := s\<rparr>) srv"
    using assms(3) h by (auto simp: wait_begin_def st_def Let_def split: if_splits)
  note g1 = good_wait_begin [OF assms(1,2,3)]
  note g2 = good_run [OF assms(4) good_ok [OF g1]]
  have l: "ref < length (heap srv1)" using g1 assms(2) evolves_parts(2) by (fastforce simp: good_step_def)
  have c1: "contents (vault_at srv1 ref) = contents st" "changed (vault_at srv1 ref) = changed st" "\<not> gone (vault_at srv1 ref)"
    using evolves_parts(4) [of srv srv1 ref] g1 assms(2) b h store_SetHash_keeps [OF _ h] ok_vault_at [OF assms(1,2)]
    by (auto simp: set_vault_def vault_at_def contents_def st_def vault_ok_def)
  have v: "vault_grows (vault_at srv1 ref) (vault_at srv2 ref)"
    using evolves_parts(4) [OF _ l] g2 by (simp add: good_step_def vault_at_def)
  have l2: "ref < length (heap srv2)" using g2 l evolves_parts(2) by (fastforce simp: good_step_def)
  obtain hs2 s2 where h2: "store_SetHash (vs_store (vault_at srv2 ref)) = (hs2, s2)" by fastforce
  show ?thesis
  proof (intro conjI impI)
    show "ch < changed (vault_at srv2 ref)"
      if "contents (vault_at srv2 ref) \<noteq> contents (vault_at srv ref) \<or> gone (vault_at srv2 ref)"
      using that v c1 b(3) by (auto simp: vault_grows_def st_def)
    show "want = SetHash (SortCanonical (contents (vault_at srv ref)))"
      using good_hash(2) [OF assms(1,2)] h b(2) by (simp add: st_def)
    show "fst (wait_end env' vid ref nonce want srv2) = sealResp env' vid (s2c (vault_at srv2 ref)) nonce
        (if SetHash (SortCanonical (contents (vault_at srv2 ref))) \<noteq> want then StatusDiffer else StatusOK) []"
      if "\<not> gone (vault_at srv2 ref) \<and> \<not> closed (vault_at srv2 ref)"
      using that h2 good_hash(2) [OF good_ok [OF g2] l2 h2] by (simp add: wait_end_def Let_def)
  qed
qed

theorem wait_woken_witness:
  "\<exists>ch srv1. wait_begin sample_env [1] 0 [] (SetHash (SortCanonical [])) sample_server = (Inr ch, srv1)
    \<and> ch < changed (vault_at (snd (DropVault sample_env [1] [] srv1)) 0)"
proof -
  have r: "0 < length (heap sample_server)" by (subst sample_served) simp
  obtain hs s where h: "store_SetHash (vs_store (vault_at sample_server 0)) = (hs, s)" by fastforce
  have hs: "hs = SetHash (SortCanonical [])" using good_hash(2) [OF sample_served(1) r h] sample_served by simp
  have c: "closed (vault_at sample_server 0) = False"
    by (simp add: sample_server_def EnsureVault_def empty_server_def lookup_vault_def createVaultLocked_def
        vault_at_def newVaultState_def)
  define srv1 where "srv1 = set_vault 0 (vault_at sample_server 0\<lparr>vs_store := s\<rparr>) sample_server"
  have b: "wait_begin sample_env [1] 0 [] (SetHash (SortCanonical [])) sample_server
      = (Inr (changed (vault_at sample_server 0)), srv1)"
    using h hs c sample_served by (simp add: wait_begin_def Let_def srv1_def)
  have g: "good_step sample_server srv1" using good_wait_begin [OF sample_served(1) r b] .
  have l: "lookup_vault srv1 [1] = Some 0" using sample_lookup by (simp add: srv1_def set_vault_def lookup_vault_def)
  obtain x srv2 where d: "DropVault sample_env [1] [] srv1 = (x, srv2)" by fastforce
  have dr: "dir (vault_at srv1 0) = None" "0 < length (heap srv1)"
    using r by (simp_all add: srv1_def set_vault_def vault_at_def sample_server_def EnsureVault_def empty_server_def
        lookup_vault_def createVaultLocked_def newVaultState_def)
  have "gone (vault_at srv2 0)"
    using d l dr by (auto simp: DropVault_def endLocked_def Let_def vault_at_def set_vault_def notifyLocked_def)
  moreover have "server_step\<^sup>*\<^sup>* srv1 srv2" by (rule r_into_rtranclp) (rule owner_drop [OF d])
  ultimately show ?thesis using wait_woken [OF sample_served(1) r b] b d by auto
qed

section \<open>Where the code breaks a promise\<close>

text \<open>Ending a vault whose record is written but whose directory cannot be synced reports an error, as if
  nothing had changed; but the record on disk says the vault has ended, while the vault is still served
  and not revoked until the next start.\<close>

theorem end_unsynced:
  assumes "lookup_vault srv vid = Some ref" and "dir (vault_at srv ref) = Some d" and "recW env d = WrittenUnsynced"
    and "server_ok srv"
  shows "\<exists>srv' r. DropVault env vid note srv = (Inl IOFailed, srv') \<and> lookup_vault srv' vid = Some ref
    \<and> vid \<notin> revoked srv' \<and> map_of (records srv') d = Some (Rec r) \<and> rEnded r \<noteq> None"
proof -
  define r where "r = record_ended (vault_record_of (vault_at srv ref)) (now env) note"
  have "DropVault env vid note srv = (Inl IOFailed, put_record d (Rec r) srv)"
    using assms by (simp add: DropVault_def endLocked_def writeRecord_def r_def Let_def)
  moreover have "rEnded r \<noteq> None" by (simp add: r_def record_ended_def Let_def)
  ultimately show ?thesis
    using lookup_served [OF assms(4,1)] assms(1)
    by (intro exI [of _ "put_record d (Rec r) srv"] exI [of _ r]) (simp add: put_record_def lookup_vault_def update_conv)
qed

definition disk_server :: server where
  "disk_server = snd (EnsureVault sample_env (replicate 16 1) (replicate 16 2) (empty_server True DefaultQuotas [] [] []))"

lemma disk_served:
  "server_ok disk_server" "lookup_vault disk_server (replicate 16 1) = Some 0"
  "dir (vault_at disk_server 0) = Some (VaultID_String (replicate 16 1))"
  using good_ok [OF good_ensure [OF empty_ok prod.collapse [symmetric], of True DefaultQuotas "[]" "[]" "[]" sample_env]]
  by (simp_all add: disk_server_def EnsureVault_def empty_server_def lookup_vault_def createVaultLocked_def Let_def
      writeRecord_def put_record_def sample_env_def OpenLogStore_def good_open_def log_init_def vault_at_def newVaultState_def)

theorem end_unsynced_witness:
  "\<exists>srv' r. DropVault (sample_env\<lparr>recW := (\<lambda>_. WrittenUnsynced)\<rparr>) (replicate 16 1) [] disk_server = (Inl IOFailed, srv')
    \<and> lookup_vault srv' (replicate 16 1) = Some 0 \<and> map_of (records srv') (VaultID_String (replicate 16 1)) = Some (Rec r)
    \<and> rEnded r \<noteq> None"
  using end_unsynced [OF disk_served(2,3) _ disk_served(1), of "sample_env\<lparr>recW := (\<lambda>_. WrittenUnsynced)\<rparr>" "[]"] by auto

text \<open>A vault whose log cannot be opened at the start (its lock is still held, say) is skipped without
  being refused, so any holder of a registration key can REGISTER it anew under an authentication key of
  its own: the record is overwritten, the vault serves the entries its log held, and none of their bytes
  are counted.\<close>

theorem skipped_vault_rebound:
  assumes "ParseVaultID d = Inr vid" and "d = VaultID_String vid"
    and "map_of (records srv) d = Some (Rec r)" and "rEnded r = None" and "record_authKey r = Some old"
    and "map_of (logs srv) d = Some (log_file ls)" and "log_inv ls"
    and "openIO env = good_open\<lparr>lockE := Some ErrLocked\<rparr>" and "lookup_vault srv vid = None" and "vid \<notin> revoked srv"
    and "dataDir srv" and "\<not> mkdirE env'" and "recW env' = (\<lambda>_. Written)" and "openIO env' = good_open"
  shows "\<exists>srv' ref ts. createVaultLocked env' vid ak eph (load_dir env d srv) = (Some ref, srv')
    \<and> lookup_vault srv' vid = Some ref \<and> authKey (vault_at srv' ref) = ak
    \<and> map_of (records srv') d = Some (Rec (vault_record_of (vault_at srv' ref)))
    \<and> contents (vault_at srv' ref) = entries (mem ls) @ ts \<and> vbytes (vault_at srv' ref) = 0"
proof -
  have l: "load_dir env d srv = srv\<lparr>logs := AList.update d (log_file ls) (logs srv)\<rparr>"
    using assms(1,3-8) by (simp add: load_dir_def load_log_def OpenLogStore_def good_open_def Let_def)
  obtain ls' ts where o: "OpenLogStore (Some (log_file ls)) good_open = (Inr ls', Some (log_file ls'))"
    "entries (mem ls') = entries (mem ls) @ ts"
    using log_reopen_any_tail [OF assms(7), of "[]"] by auto
  show ?thesis
    unfolding l using o assms(2,11-14)
    by (intro exI [of _ "snd (createVaultLocked env' vid ak eph (srv\<lparr>logs := AList.update d (log_file ls) (logs srv)\<rparr>))"] exI [of _ "length (heap srv)"] exI [of _ ts])
      (simp add: createVaultLocked_def Let_def writeRecord_def put_record_def lookup_vault_def update_conv vault_at_def
        newVaultState_def contents_def vault_record_of_def)
qed

theorem skipped_vault_rebound_witness:
  "\<exists>srv' ref. createVaultLocked sample_env (replicate 16 1) [7] False
      (load_dir (sample_env\<lparr>openIO := good_open\<lparr>lockE := Some ErrLocked\<rparr>\<rparr>) (VaultID_String (replicate 16 1))
        (empty_server True DefaultQuotas []
          [(VaultID_String (replicate 16 1), Rec \<lparr>rAuthKey = Some (hex_EncodeToString (replicate 16 2)),
             rEphemeral = False, rCreated = 0, rEnded = None, rNote = None\<rparr>)]
          [(VaultID_String (replicate 16 1), log_file empty_log)])) = (Some ref, srv')
    \<and> authKey (vault_at srv' ref) = [7]"
  using skipped_vault_rebound [OF ParseVaultID_String refl, of "replicate 16 1"
      "empty_server True DefaultQuotas []
          [(VaultID_String (replicate 16 1), Rec \<lparr>rAuthKey = Some (hex_EncodeToString (replicate 16 2)),
             rEphemeral = False, rCreated = 0, rEnded = None, rNote = None\<rparr>)]
          [(VaultID_String (replicate 16 1), log_file empty_log)]"
      "\<lparr>rAuthKey = Some (hex_EncodeToString (replicate 16 2)), rEphemeral = False, rCreated = 0, rEnded = None, rNote = None\<rparr>"
      "replicate 16 2" empty_log "sample_env\<lparr>openIO := good_open\<lparr>lockE := Some ErrLocked\<rparr>\<rparr>" sample_env "[7]" False]
    empty_log_inv
  by (auto simp: empty_server_def lookup_vault_def record_authKey_def hex_decode_encode copy_fixed_def sample_env_def)

end
