(* ===== verification/ServerRestart.thy ===== *)
theory ServerRestart
  imports ServerProps
begin

text \<open>
  What a stop and a start keep: a vault that ended is revoked by every later server over the same data
  directory, and a vault that was served is served again with the same keys and the same entries.
\<close>

section \<open>Ended vaults\<close>

lemma load_dirs_records: "records (fold (load_dir env) ds srv) = records srv"
  by (induction ds arbitrary: srv) (simp_all add: load_dir_records)

lemma load_dirs_revoked: "revoked srv \<subseteq> revoked (fold (load_dir env) ds srv)"
  by (induction ds arbitrary: srv) (use load_dir_records(2) in \<open>fastforce+\<close>)

lemma load_dir_ended:
  "ParseVaultID d = Inr vid \<Longrightarrow> map_of (records srv) d = Some (Rec r) \<Longrightarrow> rEnded r \<noteq> None \<Longrightarrow>
    vid \<in> revoked (load_dir env d srv)"
  by (simp add: load_dir_def)

lemma load_dirs_ended:
  "d \<in> set ds \<Longrightarrow> ParseVaultID d = Inr vid \<Longrightarrow> map_of (records srv) d = Some (Rec r) \<Longrightarrow> rEnded r \<noteq> None \<Longrightarrow>
    vid \<in> revoked (fold (load_dir env) ds srv)"
proof (induction ds arbitrary: srv)
  case (Cons x ds)
  show ?case
  proof (cases "x = d")
    case True
    then show ?thesis
      using load_dir_ended [OF Cons.prems(2-4)] load_dirs_revoked [of "load_dir env d srv" env ds] by auto
  next
    case False
    then show ?thesis using Cons by (simp add: load_dir_records)
  qed
qed simp

lemma end_record:
  assumes "endLocked env vid ref note srv = (True, srv')" and "dir (vault_at srv ref) = Some d"
  shows "map_of (records srv') d = Some (Rec (record_ended (vault_record_of (vault_at srv ref)) (now env) note))"
  using assms
  by (auto simp: endLocked_def Let_def writeRecord_def put_record_def set_vault_def removeLog_def update_conv notifyLocked_def
      split: write_outcome.splits)

lemma New_dir:
  "New env True q rks (Some ds) recs lgs = (True, srv) \<Longrightarrow>
    sweepLocked env (fold (load_dir env) ds (empty_server True q rks recs lgs)) = (True, srv)"
  by (auto simp: New_def Let_def loadPersistedVaults_def split: if_splits prod.splits)

text \<open>A vault that has ended stays ended over restarts: once ending it succeeded, whether it expired, its
  holder dropped it or its owner did, every server that starts over the same records, under any quotas,
  keys and log files, has revoked it, and never serves it or lets it be created again whatever runs.\<close>

theorem ended_stays_ended:
  assumes "endLocked env vid ref note srv = (True, srv1)" and "dir (vault_at srv ref) = Some (VaultID_String vid)"
    and "length vid = 16" and "New env' True q rks (Some ds) (records srv1) lgs = (True, srv2)"
    and "VaultID_String vid \<in> set ds" and "distinct (dir_ids ds)" and "server_step\<^sup>*\<^sup>* srv2 srv3"
  shows "vid \<in> revoked srv3 \<and> lookup_vault srv3 vid = None"
proof -
  define s where "s = fold (load_dir env') ds (empty_server True q rks (records srv1) lgs)"
  have "vid \<in> revoked s"
    unfolding s_def
  proof (rule load_dirs_ended [OF assms(5) ParseVaultID_String [OF assms(3)]])
    show "map_of (records (empty_server True q rks (records srv1) lgs)) (VaultID_String vid)
        = Some (Rec (record_ended (vault_record_of (vault_at srv ref)) (now env) note))"
      using end_record [OF assms(1,2)] by (simp add: empty_server_def)
  qed (simp add: record_ended_def Let_def)
  moreover have "good_step s srv2"
    using good_sweep [OF _ New_dir [OF assms(4)]] load_dirs_good [OF empty_ok assms(6), of True q rks "records srv1" lgs env']
    by (simp add: s_def good_step_def empty_server_def lookup_vault_def)
  moreover have "good_step srv2 srv3" using good_run [OF assms(7) good_ok [OF calculation(2)]] .
  ultimately have v: "vid \<in> revoked srv3" "server_ok srv3"
    using evolves_parts(1) [of s srv2] evolves_parts(1) [of srv2 srv3] by (auto simp: good_step_def)
  then show ?thesis using lookup_served by (cases "lookup_vault srv3 vid") auto
qed

theorem ended_stays_ended_witness:
  "\<exists>srv1 srv2. endLocked sample_env (replicate 16 1) 0 [] disk_server = (True, srv1)
    \<and> New sample_env True DefaultQuotas [] (Some [VaultID_String (replicate 16 1)]) (records srv1) [] = (True, srv2)
    \<and> replicate 16 1 \<in> revoked srv2"
proof -
  define d where "d = VaultID_String (replicate 16 1)"
  have p: "ParseVaultID d = Inr (replicate 16 1)" by (simp add: d_def ParseVaultID_String)
  obtain srv1 where e: "endLocked sample_env (replicate 16 1) 0 [] disk_server = (True, srv1)"
    using disk_served(3) by (auto simp: endLocked_def Let_def writeRecord_def sample_env_def)
  obtain srv2 where n: "New sample_env True DefaultQuotas [] (Some [d]) (records srv1) [] = (True, srv2)"
    by (simp add: New_def Let_def loadPersistedVaults_def sweepLocked_def sample_env_def)
  have ds: "distinct (dir_ids [d])" by (simp add: dir_ids_def p)
  have "replicate 16 1 \<in> revoked srv2"
    using ended_stays_ended [OF e disk_served(3) _ n [unfolded d_def] _ ds [unfolded d_def] rtranclp.rtrancl_refl] by simp
  then show ?thesis using e n d_def by blast
qed

section \<open>Served vaults\<close>

lemma VaultID_String_inj: "VaultID_String v = VaultID_String w \<Longrightarrow> v = w"
  unfolding VaultID_String_def by (metis hex_decode_encode option.inject)

text \<open>Closing writes every open log's file out under its own directory.\<close>

lemma close_over_logs:
  assumes "distinct (map snd vs)" and "\<forall>(v, r) \<in> set vs. r < length (heap srv) \<and> dir (vault_at srv r) = Some (VaultID_String v)"
    and "distinct (map fst vs)"
  shows "records (close_over vs srv) = records srv
    \<and> map_of (logs (close_over vs srv)) (VaultID_String v) =
       (case map_of vs v of Some r \<Rightarrow> Some (store_file (vs_store (vault_at srv r)))
        | None \<Rightarrow> map_of (logs srv) (VaultID_String v))"
  using assms
proof (induction vs srv rule: close_over.induct)
  case (2 vid ref vs srv)
  define srv2 where "srv2 = set_vault ref (close_vault (vault_at srv ref)) srv
    \<lparr>logs := AList.update (VaultID_String vid) (store_file (vs_store (vault_at srv ref))) (logs srv)\<rparr>"
  have d: "dir (vault_at srv ref) = Some (VaultID_String vid)" using "2.prems" by simp
  have e: "(let st = vault_at srv ref; srv = set_vault ref (close_vault st) srv
      in case dir st of None \<Rightarrow> srv
        | Some d \<Rightarrow> srv\<lparr>logs := AList.update d (store_file (vs_store st)) (logs srv)\<rparr>) = srv2"
    by (simp add: srv2_def d set_vault_def Let_def)
  have o: "vault_at srv2 r = vault_at srv r" if "r \<noteq> ref" for r
    using that by (simp add: srv2_def set_vault_def vault_at_def)
  have ih: "records (close_over vs srv2) = records srv2
    \<and> map_of (logs (close_over vs srv2)) (VaultID_String v) =
       (case map_of vs v of Some r \<Rightarrow> Some (store_file (vs_store (vault_at srv2 r)))
        | None \<Rightarrow> map_of (logs srv2) (VaultID_String v))"
  proof (rule "2.IH" [unfolded e])
    show "\<forall>(v, r) \<in> set vs. r < length (heap srv2) \<and> dir (vault_at srv2 r) = Some (VaultID_String v)"
    proof (intro ballI, clarify)
      fix a b assume m: "(a, b) \<in> set vs"
      then have "b \<noteq> ref" using "2.prems"(1) by (auto simp: image_iff)
      then show "b < length (heap srv2) \<and> dir (vault_at srv2 b) = Some (VaultID_String a)"
        using "2.prems"(2) m o [of b] by (auto simp: srv2_def set_vault_def)
    qed
  qed (use "2.prems" in auto)
  have c: "close_over ((vid, ref) # vs) srv = close_over vs srv2" unfolding close_over.simps e ..
  show ?case
  proof (cases "v = vid")
    case True
    then have "map_of vs v = None" using "2.prems"(3) by (simp add: map_of_eq_None_iff)
    then show ?thesis using ih c True by (simp add: srv2_def set_vault_def update_conv)
  next
    case False
    have "r \<noteq> ref" if "map_of vs v = Some r" for r using that "2.prems"(1) map_of_SomeD by force
    then show ?thesis
      using ih c False o VaultID_String_inj [of v vid]
      by (auto simp: srv2_def set_vault_def update_conv split: option.split)
  qed
qed simp

lemma load_dir_logs: "d' \<noteq> d \<Longrightarrow> map_of (logs (load_dir env d srv)) d' = map_of (logs srv) d'"
  by (auto simp: load_dir_def load_log_def removeLog_def update_conv delete_conv Let_def
      split: sum.split option.split record_file.split write_outcome.split prod.split)

lemma load_dir_heap: "\<exists>xs. heap (load_dir env d srv) = heap srv @ xs"
  by (auto simp: load_dir_def load_log_def Let_def split: sum.split option.split record_file.split prod.split)

lemma load_dirs_frame:
  "vid \<notin> set (dir_ids ds) \<Longrightarrow> d \<notin> set ds \<Longrightarrow>
    map_of (logs (fold (load_dir env) ds srv)) d = map_of (logs srv) d
    \<and> lookup_vault (fold (load_dir env) ds srv) vid = lookup_vault srv vid
    \<and> (vid \<in> revoked (fold (load_dir env) ds srv) \<longleftrightarrow> vid \<in> revoked srv)
    \<and> (\<exists>xs. heap (fold (load_dir env) ds srv) = heap srv @ xs)"
proof (induction ds arbitrary: srv)
  case (Cons x ds)
  have "case ParseVaultID x of Inl _ \<Rightarrow> True | Inr v \<Rightarrow> v \<noteq> vid"
    using Cons.prems(1) by (auto simp: dir_ids_def split: sum.splits)
  note o = load_dir_others [OF this, of env srv]
  have "vid \<notin> set (dir_ids ds)" using Cons.prems(1) by (simp add: dir_ids_def)
  from Cons.IH [OF this, of "load_dir env x srv"] Cons.prems(2) o load_dir_logs [of d x env srv] load_dir_heap [of env x srv]
  show ?case by auto
qed simp

lemma end_frame:
  assumes "endLocked env v r note srv = (b, srv')"
  shows "ref \<noteq> r \<Longrightarrow> vault_at srv' ref = vault_at srv ref" "quota srv' = quota srv"
  using assms
  by (auto simp: endLocked_def Let_def writeRecord_def put_record_def set_vault_def removeLog_def vault_at_def notifyLocked_def
      split: option.splits write_outcome.splits if_splits)

lemma sweep_keeps:
  "server_ok srv \<Longrightarrow> lookup_vault srv vid = Some ref \<Longrightarrow> \<not> expired env srv (vault_at srv ref) \<Longrightarrow>
    sweep_over env vids srv = (b, srv') \<Longrightarrow> lookup_vault srv' vid = Some ref \<and> vault_at srv' ref = vault_at srv ref"
proof (induction env vids srv arbitrary: b srv' rule: sweep_over.induct)
  case (2 env v vids srv)
  show ?case
  proof (cases "\<exists>r. lookup_vault srv v = Some r \<and> expired env srv (vault_at srv r)")
    case False
    then have s: "sweep_over env vids srv = (b, srv')" using "2.prems" by (auto split: option.splits)
    then show ?thesis using "2.IH"(1,3) "2.prems" False by (cases "lookup_vault srv v") blast+
  next
    case True
    then obtain r where r: "lookup_vault srv v = Some r" "expired env srv (vault_at srv r)" by blast
    obtain ok srv1 where e: "endLocked env v r noteExpired srv = (ok, srv1)" by fastforce
    have g: "server_ok srv1" using good_end [OF "2.prems"(1) r(1) e] good_ok by blast
    have n: "v \<noteq> vid" "ref \<noteq> r" using r "2.prems"(2,3) by auto
    have k: "lookup_vault srv1 vid = Some ref" "vault_at srv1 ref = vault_at srv ref" "quota srv1 = quota srv"
      using end_others(2) [OF e, of vid] end_frame [OF e] n "2.prems"(2) by auto
    then have "\<not> expired env srv1 (vault_at srv1 ref)" using "2.prems"(3) by (simp add: expired_def)
    then show ?thesis
      using "2.IH"(2) [OF r e [symmetric]] g k "2.prems"(4) r e by (cases ok) auto
  qed
qed auto

lemma sizes_perm: "mset xs = mset ys \<Longrightarrow> sizes xs = sizes ys"
  unfolding sizes_def by (metis mset_map sum_mset_sum_list)

text \<open>C9. A restart serves what was served: after a clean stop, every server that starts over the data directory
  with working files serves the vault again with the same authentication key, channel keys, mark and
  creation time, and exactly the same entries in the same order, all of their bytes counted, unless it
  is an ephemeral vault whose time has come by then.\<close>

theorem restart_serves:
  assumes "server_ok srv" and "\<forall>(v, r) \<in> set (vaults srv). dir (vault_at srv r) = Some (VaultID_String v)"
    and "lookup_vault srv vid = Some ref" and "st = vault_at srv ref" and "vs_store st = Log ls" and "log_inv ls"
    and "map_of (records srv) (VaultID_String vid) = Some (Rec (vault_record_of st))"
    and "length vid = 16" and "length (authKey st) = 16" and "openIO env = good_open"
    and "distinct (dir_ids ds)" and "VaultID_String vid \<in> set ds"
    and "\<not> (ephemeral st \<and> EphemeralTTLMs (withDefaults q) \<le> now env - created st)"
    and "New env True q rks (Some ds) (records (server_Close srv)) (logs (server_Close srv)) = (True, srv')"
  shows "\<exists>ref'. lookup_vault srv' vid = Some ref' \<and> authKey (vault_at srv' ref') = authKey st
    \<and> c2s (vault_at srv' ref') = c2s st \<and> s2c (vault_at srv' ref') = s2c st
    \<and> ephemeral (vault_at srv' ref') = ephemeral st \<and> created (vault_at srv' ref') = created st
    \<and> contents (vault_at srv' ref') = contents st \<and> vbytes (vault_at srv' ref') = sizes (contents st)"
proof -
  define d where "d = VaultID_String vid"
  define s0 where "s0 = empty_server True q rks (records (server_Close srv)) (logs (server_Close srv))"
  have p: "ParseVaultID d = Inr vid" unfolding d_def using assms(8) by (rule ParseVaultID_String)
  have cl: "records (server_Close srv) = records srv" "map_of (logs (server_Close srv)) d = Some (log_file ls)"
    using close_over_logs [of "vaults srv" "Drain srv" vid] assms(1-5)
    by (auto simp: server_Close_def Drain_def server_ok_def vault_at_def lookup_vault_def d_def)
  obtain ds1 ds2 where ds: "ds = ds1 @ d # ds2" unfolding d_def using split_list [OF assms(12)] by blast
  have ids: "vid \<notin> set (dir_ids ds1)" "vid \<notin> set (dir_ids ds2)"
    using assms(11) p by (auto simp: ds dir_ids_def)
  have dn: "d \<notin> set ds1" "d \<notin> set ds2" using ids p by (auto simp: dir_ids_def)
  define s1 where "s1 = fold (load_dir env) ds1 s0"
  have s1: "map_of (logs s1) d = Some (log_file ls)" "lookup_vault s1 vid = None" "vid \<notin> revoked s1"
    "map_of (records s1) d = Some (Rec (vault_record_of st))"
    using load_dirs_frame [OF ids(1) dn(1), of env s0] cl assms(7) load_dirs_records [of env ds1 s0]
    by (auto simp: s1_def s0_def empty_server_def lookup_vault_def d_def)
  obtain ls' where o: "OpenLogStore (Some (log_file ls)) good_open = (Inr ls', Some (log_file ls'))"
    "entries (mem ls') = entries (mem ls)" "log_inv ls'"
    using log_reopen_part [OF assms(6), of "[]" 0] by auto
  define st' where "st' = (newVaultState (Log ls') (authKey st) (Some d))
    \<lparr>vbytes := sizes (mem_Sorted (mem ls')), ephemeral := ephemeral st, created := created st\<rparr>"
  define s2 where "s2 = fresh_vault (s1\<lparr>logs := AList.update d (log_file ls') (logs s1)\<rparr>) vid st'"
  have s2: "load_dir env d s1 = s2"
    using p s1 o assms(9,10)
    by (simp add: load_dir_def load_log_def vault_record_of_def record_authKey_def hex_decode_encode copy_fixed_def
        s2_def fresh_vault_def st'_def Let_def)
  define s3 where "s3 = fold (load_dir env) ds2 s2"
  have s3: "lookup_vault s3 vid = Some (length (heap s1))" "vault_at s3 (length (heap s1)) = st'"
    using load_dirs_frame [OF ids(2) dn(2), of env s2]
    by (auto simp: s3_def s2_def vault_at_def fresh_vault_def lookup_vault_def update_conv)
  have f: "fold (load_dir env) ds s0 = s3" by (simp add: ds s3_def s1_def [symmetric] s2)
  have g: "good_step s0 s3"
    unfolding f [symmetric] using load_dirs_good [OF empty_ok assms(11)]
    by (simp add: s0_def empty_server_def lookup_vault_def)
  have "quota s3 = withDefaults q" using g evolves_parts(3) [of s0 s3] by (simp add: good_step_def s0_def empty_server_def)
  then have "\<not> expired env s3 (vault_at s3 (length (heap s1)))"
    using assms(13) s3(2) by (simp add: expired_def st'_def)
  with sweep_keeps [OF good_ok [OF g] s3(1)] New_dir [OF assms(14), folded s0_def, unfolded f]
  have s': "lookup_vault srv' vid = Some (length (heap s1))" "vault_at srv' (length (heap s1)) = st'"
    using s3(2) by (auto simp: sweepLocked_def)
  have "contents st' = contents st" using assms(5) o(2) by (simp add: st'_def newVaultState_def contents_def)
  moreover have "sizes (mem_Sorted (mem ls')) = sizes (contents st)"
    using mem.sorted_spec [OF log_mem_inv [OF o(3)]] o(2) assms(5)
    by (intro sizes_perm) (simp add: contents_def SortCanonical_def)
  moreover have "vault_ok (quota srv) st" using ok_vault_at lookup_served assms(1,3,4) by blast
  ultimately show ?thesis using s' by (simp add: st'_def newVaultState_def vault_ok_def)
qed

lemma disk_state:
  "vaults disk_server = [(replicate 16 1, 0)]" "vs_store (vault_at disk_server 0) = Log empty_log"
  "map_of (records disk_server) (VaultID_String (replicate 16 1)) = Some (Rec (vault_record_of (vault_at disk_server 0)))"
  "authKey (vault_at disk_server 0) = replicate 16 2" "ephemeral (vault_at disk_server 0) = False"
  by (simp_all add: disk_server_def EnsureVault_def empty_server_def lookup_vault_def createVaultLocked_def Let_def
      writeRecord_def put_record_def sample_env_def OpenLogStore_def good_open_def log_init_def vault_at_def newVaultState_def
      empty_log_def length_logMagic vault_record_of_def)

theorem restart_serves_witness:
  "\<exists>srv' ref'. New sample_env True DefaultQuotas [] (Some [VaultID_String (replicate 16 1)])
      (records (server_Close disk_server)) (logs (server_Close disk_server)) = (True, srv')
    \<and> lookup_vault srv' (replicate 16 1) = Some ref' \<and> authKey (vault_at srv' ref') = replicate 16 2"
proof -
  obtain srv' where n: "New sample_env True DefaultQuotas [] (Some [VaultID_String (replicate 16 1)])
      (records (server_Close disk_server)) (logs (server_Close disk_server)) = (True, srv')"
    by (simp add: New_def Let_def loadPersistedVaults_def sweepLocked_def sample_env_def)
  have d: "distinct (dir_ids [VaultID_String (replicate 16 1)])" by (simp add: dir_ids_def ParseVaultID_String)
  show ?thesis
    using restart_serves [OF disk_served(1) _ disk_served(2) refl disk_state(2) empty_log_inv disk_state(3) _ _ _ d _ _ n]
      disk_state disk_served n by (auto simp: sample_env_def)
qed

end
