(* ===== verification/Pairing.thy ===== *)
theory Pairing
  imports Vault
begin

text \<open>
  The key blobs of \<open>kv/vault/pairing.go\<close>: Crockford base32 of a root key, a register key, or the two
  together. Their only error, \<open>ErrBadPairingBlob\<close>, is \<open>None\<close>. A string is its bytes: a byte of 128 or more
  belongs to a rune \<open>strings.Map\<close> leaves alone or replaces by another that is not ASCII; no blob has one,
  and \<open>decode\<close> refuses either, so here it stays as it is.
\<close>

section \<open>encoding/base32 without padding\<close>

text \<open>
  From its documentation (RFC 4648): five bits per character, most significant first, the last group
  filled up with zero bits. Decoding drops the bits after the last whole byte; a character outside the
  alphabet is an error.
\<close>

definition byte_bits :: "byte \<Rightarrow> bool list" where
  "byte_bits b = rev (map (bit b) [0..<8])"

definition bits_byte :: "bool list \<Rightarrow> byte" where
  "bits_byte bs = horner_sum of_bool 2 (rev bs)"

definition group_value :: "bool list \<Rightarrow> nat" where
  "group_value bs = horner_sum of_bool 2 (rev bs)"

definition value_group :: "nat \<Rightarrow> bool list" where
  "value_group n = rev (map (bit n) [0..<5])"

fun bit_groups :: "bool list \<Rightarrow> bool list list" where
  "bit_groups (a # b # c # d # e # bs) = [a, b, c, d, e] # bit_groups bs"
| "bit_groups [] = []"
| "bit_groups bs = [bs @ replicate (5 - length bs) False]"

fun whole_bytes :: "bool list \<Rightarrow> bytes" where
  "whole_bytes (a # b # c # d # e # f # g # h # bs) = bits_byte [a, b, c, d, e, f, g, h] # whole_bytes bs"
| "whole_bytes bs = []"

definition base32_EncodeToString :: "bytes \<Rightarrow> bytes \<Rightarrow> bytes" where
  "base32_EncodeToString alphabet bs =
     map (\<lambda>g. alphabet ! group_value g) (bit_groups (concat (map byte_bits bs)))"

fun find_index :: "byte \<Rightarrow> bytes \<Rightarrow> nat option" where
  "find_index c [] = None"
| "find_index c (x # xs) = (if c = x then Some 0 else map_option Suc (find_index c xs))"

fun base32_values :: "bytes \<Rightarrow> bytes \<Rightarrow> nat list option" where
  "base32_values alphabet [] = Some []"
| "base32_values alphabet (c # cs) =
     (case (find_index c alphabet, base32_values alphabet cs) of
        (Some v, Some vs) \<Rightarrow> Some (v # vs)
      | _ \<Rightarrow> None)"

definition base32_DecodeString :: "bytes \<Rightarrow> bytes \<Rightarrow> bytes option" where
  "base32_DecodeString alphabet s = map_option (\<lambda>vs. whole_bytes (concat (map value_group vs))) (base32_values alphabet s)"

definition base32_EncodedLen :: "nat \<Rightarrow> nat" where
  "base32_EncodedLen n = n div 5 * 8 + (n mod 5 * 8 + 4) div 5"

lemma length_byte_bits [simp]: "length (byte_bits b) = 8"
  by (simp add: byte_bits_def)

lemma length_bits [simp]: "length (concat (map byte_bits bs)) = 8 * length bs"
  by (induction bs) auto

lemma group_value_bound: "group_value bs < 2 ^ length bs"
  unfolding group_value_def using horner_sum_of_bool_2_less [of "rev bs"] by simp

lemma group_lengths: "g \<in> set (bit_groups bs) \<Longrightarrow> length g = 5"
  by (induction bs rule: bit_groups.induct) auto

lemma group_small: "g \<in> set (bit_groups bs) \<Longrightarrow> group_value g < 32"
  using group_value_bound [of g] group_lengths [of g bs] by simp

lemma value_group_value: "length g = 5 \<Longrightarrow> value_group (group_value g) = g"
  unfolding value_group_def group_value_def
  by (rule rev_is_rev_conv [THEN iffD1]) (auto intro!: nth_equalityI simp: bit_horner_sum_bit_iff)

lemma length_groups: "length (bit_groups bs) = (length bs + 4) div 5"
  by (induction bs rule: bit_groups.induct) auto

lemma groups_concat: "\<exists>k < 5. concat (bit_groups bs) = bs @ replicate k False"
proof (induction bs rule: bit_groups.induct)
  case (1 a b c d e bs)
  then show ?case by auto
next
  case 2
  show ?case by (intro exI [of _ 0]) simp
qed (rule exI [of _ 4], simp, rule exI [of _ 3], simp, rule exI [of _ 2], simp, rule exI [of _ 1], simp)

lemma bits_byte_bits [simp]: "bits_byte (byte_bits b) = b"
  by (simp add: bits_byte_def byte_bits_def horner_sum_bit_eq_take_bit take_bit_word_eq_self)

lemma whole_bytes_step: "length x = 8 \<Longrightarrow> whole_bytes (x @ t) = bits_byte x # whole_bytes t"
  by (auto simp: numeral_eq_Suc length_Suc_conv)

lemma whole_bytes_bits: "length t < 8 \<Longrightarrow> whole_bytes (concat (map byte_bits bs) @ t) = bs"
proof (induction bs)
  case Nil
  then show ?case by (cases t rule: whole_bytes.cases) auto
qed (simp add: whole_bytes_step)

lemma find_index_nth: "distinct xs \<Longrightarrow> n < length xs \<Longrightarrow> find_index (xs ! n) xs = Some n"
proof (induction xs arbitrary: n)
  case (Cons x xs)
  then show ?case by (cases n) auto
qed simp

lemma base32_values_map:
  "distinct alphabet \<Longrightarrow> \<forall>v \<in> set vs. v < length alphabet \<Longrightarrow> base32_values alphabet (map (\<lambda>v. alphabet ! v) vs) = Some vs"
  by (induction vs) (auto simp: find_index_nth)

lemma base32_decode_encode:
  assumes "distinct alphabet" and "length alphabet = 32"
  shows "base32_DecodeString alphabet (base32_EncodeToString alphabet bs) = Some bs"
proof -
  define gs where "gs = bit_groups (concat (map byte_bits bs))"
  obtain k where k: "k < 5" "concat gs = concat (map byte_bits bs) @ replicate k False"
    using groups_concat gs_def by blast
  have "\<forall>v \<in> set (map group_value gs). v < length alphabet" using group_small assms(2) by (simp add: gs_def)
  then have v: "base32_values alphabet (map (\<lambda>v. alphabet ! v) (map group_value gs)) = Some (map group_value gs)"
    by (rule base32_values_map [OF assms(1)])
  have "map value_group (map group_value gs) = gs"
    using group_lengths value_group_value unfolding gs_def by (simp add: map_idI)
  then show ?thesis
    using v k whole_bytes_bits [of "replicate k False" bs]
    by (simp add: base32_DecodeString_def base32_EncodeToString_def gs_def [symmetric] comp_def)
qed

lemma length_base32: "length (base32_EncodeToString alphabet bs) = base32_EncodedLen (length bs)"
proof -
  have "8 * n + 4 = (n mod 5 * 8 + 4) + n div 5 * 8 * 5" for n :: nat
    using div_mult_mod_eq [of n 5] by linarith
  then have "(8 * n + 4) div 5 = n div 5 * 8 + (n mod 5 * 8 + 4) div 5" for n :: nat
    by (metis add.commute div_mult_self1 zero_neq_numeral)
  then show ?thesis by (simp add: base32_EncodeToString_def base32_EncodedLen_def length_groups)
qed

section \<open>Blobs\<close>

definition crockford :: bytes where "crockford = ascii ''0123456789ABCDEFGHJKMNPQRSTVWXYZ''"

text \<open>One character of \<open>normalize\<close>; \<open>None\<close> is dropped.\<close>

definition normalize_char :: "byte \<Rightarrow> byte option" where
  "normalize_char r =
     (if r = 32 \<or> r = 9 \<or> r = 10 \<or> r = 13 \<or> r = 45 then None
      else if r \<in> set (ascii ''Oo'') then Some (of_char CHR ''0'')
      else if r \<in> set (ascii ''IiLl'') then Some (of_char CHR ''1'')
      else if of_char CHR ''a'' \<le> r \<and> r \<le> of_char CHR ''z'' then Some (r - of_char CHR ''a'' + of_char CHR ''A'')
      else Some r)"

definition normalize_blob :: "bytes \<Rightarrow> bytes" where
  "normalize_blob s = List.map_filter normalize_char s"

definition decode_blob :: "bytes \<Rightarrow> nat \<Rightarrow> bytes option" where
  "decode_blob raw n =
     (if length raw \<noteq> base32_EncodedLen n then None
      else case base32_DecodeString crockford raw of
             None \<Rightarrow> None
           | Some b \<Rightarrow> if length b \<noteq> n \<or> base32_EncodeToString crockford b \<noteq> raw then None else Some b)"

definition EncodeRootKey :: "bytes \<Rightarrow> bytes" where
  "EncodeRootKey rk = base32_EncodeToString crockford rk"

definition EncodeRegisterKey :: "bytes \<Rightarrow> bytes" where
  "EncodeRegisterKey rk = base32_EncodeToString crockford rk"

definition EncodeBackup :: "bytes \<Rightarrow> bytes option \<Rightarrow> bytes" where
  "EncodeBackup rk regKey =
     (case regKey of
        None \<Rightarrow> EncodeRootKey rk
      | Some k \<Rightarrow> EncodeRootKey rk @ EncodeRegisterKey k)"

definition DecodeRootKey :: "bytes \<Rightarrow> bytes option" where
  "DecodeRootKey s = decode_blob (normalize_blob s) 20"

definition DecodeRegisterKey :: "bytes \<Rightarrow> bytes option" where
  "DecodeRegisterKey s = decode_blob (normalize_blob s) 16"

definition DecodeBackup :: "bytes \<Rightarrow> (bytes \<times> bytes option) option" where
  "DecodeBackup s =
     (let raw = normalize_blob s; rootLen = base32_EncodedLen 20
      in if length raw = rootLen then (case DecodeRootKey raw of None \<Rightarrow> None | Some rk \<Rightarrow> Some (rk, None))
         else if length raw = rootLen + base32_EncodedLen 16
         then (case DecodeRootKey (take rootLen raw) of
                 None \<Rightarrow> None
               | Some rk \<Rightarrow>
                   (case DecodeRegisterKey (drop rootLen raw) of
                      None \<Rightarrow> None
                    | Some reg \<Rightarrow> Some (rk, Some reg)))
         else None)"

lemma crockford_alphabet: "distinct crockford" "length crockford = 32"
  by (simp_all add: crockford_def ascii_def)

lemma normal_alphabet: "\<forall>c \<in> set crockford. normalize_char c = Some c"
  by (simp add: crockford_def normalize_char_def ascii_def)

lemma normal_list: "\<forall>c \<in> set t. normalize_char c = Some c \<Longrightarrow> normalize_blob t = t"
  unfolding normalize_blob_def by (simp add: List.map_filter_def map_idI)

lemma encode_normal: "normalize_blob (base32_EncodeToString crockford bs) = base32_EncodeToString crockford bs"
proof -
  have "\<forall>c \<in> set (base32_EncodeToString crockford bs). normalize_char c = Some c"
    using normal_alphabet group_small crockford_alphabet(2) by (auto simp: base32_EncodeToString_def)
  then show ?thesis by (rule normal_list)
qed

lemma decode_blob_iff: "decode_blob raw n = Some b \<longleftrightarrow> length b = n \<and> raw = base32_EncodeToString crockford b"
proof
  assume "decode_blob raw n = Some b"
  then show "length b = n \<and> raw = base32_EncodeToString crockford b"
    by (simp add: decode_blob_def split: option.split_asm if_split_asm)
next
  assume "length b = n \<and> raw = base32_EncodeToString crockford b"
  moreover have "base32_DecodeString crockford (base32_EncodeToString crockford b) = Some b"
    by (rule base32_decode_encode [OF crockford_alphabet])
  ultimately show "decode_blob raw n = Some b"
    by (simp add: decode_blob_def length_base32)
qed

lemma decode_key_iff:
  "DecodeRootKey s = Some rk \<longleftrightarrow> length rk = 20 \<and> normalize_blob s = EncodeRootKey rk"
  "DecodeRegisterKey s = Some rk \<longleftrightarrow> length rk = 16 \<and> normalize_blob s = EncodeRegisterKey rk"
  by (simp_all add: DecodeRootKey_def DecodeRegisterKey_def EncodeRootKey_def EncodeRegisterKey_def decode_blob_iff)

lemma letter_upper:
  fixes c :: byte
  assumes "97 \<le> c" and "c \<le> 122" and "c \<notin> {111, 105, 108}"
  shows "normalize_char (c - 97 + 65) = Some (c - 97 + 65)"
proof -
  have "unat c \<in> {97..122}" using assms(1,2) by (simp add: word_le_nat_alt)
  moreover have "c = of_nat (unat c)" by simp
  ultimately have "c \<in> of_nat ` set [97..<123]" unfolding set_upt by (intro image_eqI [of _ _ "unat c"]) auto
  then have "c \<in> set (map of_nat [97..<123])" by (simp only: set_map)
  then show ?thesis using assms(3) by (simp add: upt_rec) (elim disjE; simp add: normalize_char_def ascii_def)
qed

lemma normalize_char_idem: "normalize_char c = Some d \<Longrightarrow> normalize_char d = Some d"
proof -
  assume a: "normalize_char c = Some d"
  then have "d = c \<or> d \<in> {48, 49} \<or> 97 \<le> c \<and> c \<le> 122 \<and> c \<notin> {111, 105, 108} \<and> d = c - 97 + 65"
    by (simp add: normalize_char_def ascii_def split: if_split_asm)
  moreover have "normalize_char 48 = Some 48" "normalize_char 49 = Some 49" by (simp_all add: normalize_char_def ascii_def)
  ultimately show ?thesis using a letter_upper by auto
qed

lemma normalized_chars: "c \<in> set (normalize_blob s) \<Longrightarrow> normalize_char c = Some c"
proof -
  assume "c \<in> set (normalize_blob s)"
  then obtain x where "normalize_char x = Some c" by (auto simp: normalize_blob_def List.map_filter_def)
  then show ?thesis by (rule normalize_char_idem)
qed

lemma normalize_append: "normalize_blob (s @ t) = normalize_blob s @ normalize_blob t"
  by (simp add: normalize_blob_def List.map_filter_def)

text \<open>C28. A backup blob decodes to a root key and perhaps a register key exactly when, once the separators,
  case and look-alike letters a person may type are normalized, it is the blob \<open>EncodeBackup\<close> writes for
  them: every blob that is written is read back, in any decoration, and no two distinct backups share a
  blob (non-zero padding bits included).\<close>

theorem backup_blob_exact:
  "DecodeBackup s = Some (rk, reg) \<longleftrightarrow>
    length rk = 20 \<and> (case reg of None \<Rightarrow> True | Some k \<Rightarrow> length k = 16) \<and> normalize_blob s = EncodeBackup rk reg"
proof -
  define raw where "raw = normalize_blob s"
  have l: "length (EncodeRootKey rk) = base32_EncodedLen (length rk)" "length (EncodeRegisterKey k) = base32_EncodedLen (length k)"
    for rk k by (simp_all add: EncodeRootKey_def EncodeRegisterKey_def length_base32)
  have v: "base32_EncodedLen 20 = 32" "base32_EncodedLen 16 = 26" by (simp_all add: base32_EncodedLen_def)
  have n: "\<forall>c \<in> set raw. normalize_char c = Some c" by (simp add: raw_def normalized_chars)
  have p: "normalize_blob raw = raw" "normalize_blob (take 32 raw) = take 32 raw" "normalize_blob (drop 32 raw) = drop 32 raw"
    using n by (auto intro!: normal_list dest: in_set_takeD in_set_dropD)
  have d: "DecodeBackup s =
      (if length raw = 32 then map_option (\<lambda>rk. (rk, None)) (DecodeRootKey raw)
       else if length raw = 58
       then (case DecodeRootKey (take 32 raw) of None \<Rightarrow> None
         | Some rk \<Rightarrow> map_option (\<lambda>reg. (rk, Some reg)) (DecodeRegisterKey (drop 32 raw)))
       else None)"
    by (simp add: DecodeBackup_def raw_def [symmetric] v Let_def map_option_case split: option.split)
  show ?thesis
  proof (cases reg)
    case None
    have "DecodeBackup s = Some (rk, None) \<longleftrightarrow> length raw = 32 \<and> DecodeRootKey raw = Some rk"
      by (auto simp: d split: option.splits)
    then show ?thesis using None l(1) [of rk] v by (auto simp: decode_key_iff p EncodeBackup_def raw_def [symmetric])
  next
    case (Some k)
    have "DecodeBackup s = Some (rk, Some k) \<longleftrightarrow>
        length raw = 58 \<and> DecodeRootKey (take 32 raw) = Some rk \<and> DecodeRegisterKey (drop 32 raw) = Some k"
      by (auto simp: d split: option.splits)
    also have "\<dots> \<longleftrightarrow> length raw = 58 \<and> length rk = 20 \<and> length k = 16 \<and> take 32 raw = EncodeRootKey rk \<and> drop 32 raw = EncodeRegisterKey k"
      by (auto simp: decode_key_iff p)
    also have "\<dots> \<longleftrightarrow> length rk = 20 \<and> length k = 16 \<and> raw = EncodeRootKey rk @ EncodeRegisterKey k"
    proof
      assume "length raw = 58 \<and> length rk = 20 \<and> length k = 16 \<and> take 32 raw = EncodeRootKey rk \<and> drop 32 raw = EncodeRegisterKey k"
      then show "length rk = 20 \<and> length k = 16 \<and> raw = EncodeRootKey rk @ EncodeRegisterKey k"
        by (metis append_take_drop_id)
    qed (simp add: l v)
    finally show ?thesis using Some by (simp add: EncodeBackup_def raw_def)
  qed
qed

end
