(* ===== verification/Golay.thy ===== *)
theory Golay
  imports Prelude
begin

text \<open>
  The \<open>golay\<close> package: the extended Golay(24,12) code, its syndrome table and its decoder. The table is
  built by \<open>init\<close> in the order the code builds it; the panic of a failed build is \<open>None\<close>.
\<close>

section \<open>The code\<close>

definition gen :: u32 where "gen = 0xC75"

definition syndrome :: "u32 \<Rightarrow> u32" where
  "syndrome r = fold (\<lambda>i r. if bit r i then r XOR push_bit (i - 11) gen else r) (rev [11..<23]) r"

text \<open>\<open>bits.OnesCount32\<close>.\<close>

definition OnesCount32 :: "u32 \<Rightarrow> nat" where
  "OnesCount32 w = length (filter (bit w) [0..<32])"

text \<open>The patterns \<open>init\<close> records, in its order: for each a its own, then for each later b, then c.\<close>

definition patterns :: "u32 list" where
  "patterns = concat (map (\<lambda>a. push_bit a 1 # concat (map (\<lambda>b.
      (push_bit a 1 OR push_bit b 1) # map (\<lambda>c. push_bit a 1 OR push_bit b 1 OR push_bit c 1) [b + 1..<23])
      [a + 1..<23])) [0..<23])"

text \<open>\<open>set\<close>: the slots filled and the table.\<close>

definition set_pattern :: "u32 \<Rightarrow> nat \<times> u32 list \<Rightarrow> nat \<times> u32 list" where
  "set_pattern e = (\<lambda>(filled, syn). let s = unat (syndrome e) in (if syn ! s = 0 then filled + 1 else filled, syn[s := e]))"

definition golay_init :: "u32 list option" where
  "golay_init = (case fold set_pattern patterns (1, replicate 2048 0) of
     (filled, syn) \<Rightarrow> if filled \<noteq> 2048 then None else Some syn)"

definition golay_Encode :: "u16 \<Rightarrow> u32" where
  "golay_Encode d =
     (let v = push_bit 11 (ucast (d AND 0xFFF)); cw23 = v OR syndrome v
      in push_bit 1 cw23 OR of_nat (OnesCount32 cw23) AND 1)"

definition golay_Decode :: "u32 list \<Rightarrow> u32 \<Rightarrow> u16 \<times> bool" where
  "golay_Decode syn cw =
     (let cw = cw AND 0xFFFFFF; r23 = drop_bit 1 cw; e = syn ! unat (syndrome r23); c23 = r23 XOR e;
          t = OnesCount32 e;
          t = (if of_nat (OnesCount32 c23) AND 1 \<noteq> cw AND 1 then t + 1 else t)
      in (ucast (drop_bit 11 c23), t \<le> 3))"

section \<open>Linearity\<close>

definition reduce :: "nat \<Rightarrow> u32 \<Rightarrow> u32" where
  "reduce i r = (if bit r i then r XOR push_bit (i - 11) gen else r)"

lemma reduce_xor: "reduce i (r XOR s) = reduce i r XOR reduce i s"
  by (auto simp: reduce_def bit_xor_iff xor.assoc xor.left_commute xor.commute intro: bit_word_eqI)

lemma fold_reduce_xor: "fold reduce is (r XOR s) = fold reduce is r XOR fold reduce is s"
  by (induction "is" arbitrary: r s) (simp_all add: reduce_xor)

lemma syndrome_fold: "syndrome = fold reduce (rev [11..<23])"
proof -
  have "(\<lambda>i r. if bit r i then r XOR push_bit (i - 11) gen else r) = reduce" by (intro ext) (simp only: reduce_def)
  then show ?thesis by (intro ext) (simp only: syndrome_def)
qed

lemma syndrome_xor: "syndrome (r XOR s) = syndrome r XOR syndrome s"
  unfolding syndrome_fold by (rule fold_reduce_xor)

lemma syndrome_0: "syndrome 0 = 0"
  using syndrome_xor [of 0 0] by simp

text \<open>A word of 23 bits reduces to 11, and one of 11 bits is its own syndrome.\<close>

lemma bit_gen: "bit gen n \<longleftrightarrow> n \<in> {0, 2, 4, 5, 6, 10, 11}"
proof -
  have "take_bit 12 gen = gen" by (simp add: gen_def)
  then have "bit gen n \<Longrightarrow> n < 12" by (metis bit_take_bit_iff)
  moreover have "bit gen n \<longleftrightarrow> n \<in> {0, 2, 4, 5, 6, 10, 11}" if "n < 12"
  proof -
    from that have "n \<in> {..<12}" by simp
    then have "n \<in> {0, 1, 2, 3, 4, 5, 6, 7, 8, 9, 10, 11}" by (auto simp: lessThan_nat_numeral)
    then show ?thesis by (auto simp: gen_def bit_iff_odd)
  qed
  ultimately show ?thesis by auto
qed

lemma reduce_bit: "bit (reduce i r) n \<longleftrightarrow> (bit r n \<noteq> (bit r i \<and> n < 32 \<and> i - 11 \<le> n \<and> bit gen (n - (i - 11))))"
  by (auto simp: reduce_def bit_xor_iff bit_push_bit_iff dest: bit_imp_le_length)

lemma reduce_top: "11 \<le> i \<Longrightarrow> i < 23 \<Longrightarrow> \<forall>n > i. \<not> bit r n \<Longrightarrow> \<forall>n \<ge> i. \<not> bit (reduce i r) n"
proof (intro allI impI)
  fix n assume a: "11 \<le> i" "i < 23" "\<forall>n > i. \<not> bit r n" "i \<le> n"
  show "\<not> bit (reduce i r) n"
  proof (cases "n = i")
    case True
    then show ?thesis using a by (simp add: reduce_bit bit_gen)
  next
    case False
    then have "11 < n - (i - 11)" "\<not> bit r n" using a by auto
    then show ?thesis by (auto simp: reduce_bit bit_gen)
  qed
qed

lemma syndrome_small: "\<forall>n \<ge> 23. \<not> bit r n \<Longrightarrow> \<forall>n \<ge> 11. \<not> bit (syndrome r) n"
proof -
  have "\<forall>n \<ge> 11 + k. \<not> bit r n \<Longrightarrow> k \<le> 12 \<Longrightarrow> \<forall>n \<ge> 11. \<not> bit (fold reduce (rev [11..<11 + k]) r) n" for k r
  proof (induction k arbitrary: r)
    case (Suc k)
    have "\<forall>n \<ge> 11 + k. \<not> bit (reduce (11 + k) r) n"
      using Suc.prems by (intro reduce_top) auto
    moreover have "[11..<11 + Suc k] = [11..<11 + k] @ [11 + k]" unfolding add_Suc_right by (rule upt_Suc_append) simp
    then have "rev [11..<11 + Suc k] = (11 + k) # rev [11..<11 + k]" by simp
    ultimately show ?case using Suc.IH Suc.prems(2) by (simp only: fold_simps) simp
  qed simp
  from this [of 12] show "\<forall>n \<ge> 23. \<not> bit r n \<Longrightarrow> ?thesis" unfolding syndrome_fold by simp
qed

lemma syndrome_low: "\<forall>n \<ge> 11. \<not> bit r n \<Longrightarrow> syndrome r = r"
proof -
  assume a: "\<forall>n \<ge> 11. \<not> bit r n"
  have "\<forall>i \<in> set is. 11 \<le> i \<Longrightarrow> fold reduce is r = r" for "is"
    by (induction "is") (use a in \<open>auto simp: reduce_def\<close>)
  then show ?thesis unfolding syndrome_fold by (metis atLeastLessThan_iff set_rev set_upt)
qed

section \<open>Weights\<close>

lemma weight_card: "OnesCount32 w = card {i. bit w i}"
proof -
  have "{i. bit w i} = set (filter (bit w) [0..<32])" by (auto dest: bit_imp_le_length)
  then show ?thesis unfolding OnesCount32_def by (simp only: distinct_card distinct_filter distinct_upt)
qed

lemma finite_bits [simp]: "finite {i. bit (w :: u32) i}"
  by (rule finite_subset [of _ "{..<32}"]) (auto dest: bit_imp_le_length)

lemma weight_xor: "OnesCount32 (a XOR b) + 2 * card {i. bit a i \<and> bit b i} = OnesCount32 a + OnesCount32 b"
proof -
  let ?A = "{i. bit a i}" and ?B = "{i. bit b i}"
  have x: "{i. bit (a XOR b) i} = (?A - ?B) \<union> (?B - ?A)" by (auto simp: bit_xor_iff)
  have i: "{i. bit a i \<and> bit b i} = ?A \<inter> ?B" by auto
  have "card (?A - ?B) + card (?A \<inter> ?B) = card ?A" "card (?B - ?A) + card (?A \<inter> ?B) = card ?B"
    using card_Diff_subset_Int [of ?A ?B] card_Diff_subset_Int [of ?B ?A] card_mono [of ?A "?A \<inter> ?B"] card_mono [of ?B "?A \<inter> ?B"]
    by (auto simp: Int_commute)
  moreover have "card ((?A - ?B) \<union> (?B - ?A)) = card (?A - ?B) + card (?B - ?A)" by (rule card_Un_disjoint) auto
  ultimately show ?thesis unfolding weight_card x i by linarith
qed

lemma weight_xor_le: "OnesCount32 (a XOR b) \<le> OnesCount32 a + OnesCount32 b"
  using weight_xor [of a b] by linarith

lemma weight_xor_parity: "even (OnesCount32 (a XOR b)) \<longleftrightarrow> even (OnesCount32 a + OnesCount32 b)"
  using weight_xor [of a b] by (metis even_add even_mult_iff even_numeral)

lemma weight_0_iff [simp]: "OnesCount32 w = 0 \<longleftrightarrow> w = 0"
  unfolding weight_card by (auto simp: card_eq_0_iff intro: bit_word_eqI)

lemma weight_0 [simp]: "OnesCount32 0 = 0"
  by simp

text \<open>A word cut at position k.\<close>

lemma word_cut: "w = take_bit k w XOR push_bit k (drop_bit k (w :: u32))"
  by (rule bit_word_eqI) (auto simp: bit_xor_iff bit_take_bit_iff bit_push_bit_iff bit_drop_bit_eq)

lemma weight_cut: "OnesCount32 w = OnesCount32 (take_bit k w) + OnesCount32 (drop_bit k w)"
proof -
  have "{i. bit w i} = {i. bit (take_bit k w) i} \<union> (\<lambda>i. k + i) ` {i. bit (drop_bit k w) i}"
    by (auto simp: bit_take_bit_iff bit_drop_bit_eq image_iff) (metis le_add_diff_inverse not_less)
  moreover have "card ((\<lambda>i. k + i) ` {i. bit (drop_bit k w) i}) = card {i. bit (drop_bit k w) i}"
    by (rule card_image) (simp add: inj_on_def)
  moreover have "{i. bit (take_bit k w) i} \<inter> (\<lambda>i. k + i) ` {i. bit (drop_bit k w) i} = {}"
    by (auto simp: bit_take_bit_iff)
  ultimately show ?thesis unfolding weight_card by (simp only: card_Un_disjoint finite_bits finite_imageI)
qed

section \<open>The minimum distance\<close>

text \<open>
  Over lists of bits: a sum of at most three of the syndromes of the data bits has enough check bits set.
  The counts are lists of units, so that the evaluation is by pattern matching alone.
\<close>

fun xor_list :: "bool list \<Rightarrow> bool list \<Rightarrow> bool list" where
  "xor_list (True # xs) (True # ys) = False # xor_list xs ys"
| "xor_list (True # xs) (False # ys) = True # xor_list xs ys"
| "xor_list (False # xs) (y # ys) = y # xor_list xs ys"
| "xor_list [] ys = []"
| "xor_list xs [] = []"

fun at_least :: "unit list \<Rightarrow> bool list \<Rightarrow> bool" where
  "at_least [] bs = True"
| "at_least (m # ms) [] = False"
| "at_least (m # ms) (True # bs) = at_least ms bs"
| "at_least (m # ms) (False # bs) = at_least (m # ms) bs"

fun heavy :: "unit list \<Rightarrow> unit list \<Rightarrow> bool list \<Rightarrow> bool list list \<Rightarrow> bool" where
  "heavy k m acc [] = True"
| "heavy [] m acc (u # us) = True"
| "heavy (x # k) m acc (u # us) =
     (let a = xor_list acc u in at_least (tl m) a \<and> heavy k (tl m) a us \<and> heavy (x # k) m acc us)"

fun select :: "bool list \<Rightarrow> bool list \<Rightarrow> bool list list \<Rightarrow> bool list" where
  "select acc (True # s) (u # us) = select (xor_list acc u) s us"
| "select acc (False # s) (u # us) = select acc s us"
| "select acc s us = acc"

definition count_true :: "bool list \<Rightarrow> nat" where
  "count_true bs = length (filter id bs)"

lemma count_true_simps [simp]: "count_true [] = 0" "count_true (b # bs) = of_bool b + count_true bs"
  by (simp_all add: count_true_def)

lemma at_least_count: "at_least m bs \<longleftrightarrow> length m \<le> count_true bs"
  by (induction m bs rule: at_least.induct) auto

lemma heavy_sound:
  "heavy k m acc us \<Longrightarrow> length s = length us \<Longrightarrow> count_true s \<le> length k \<Longrightarrow> s \<noteq> [] \<Longrightarrow> 0 < count_true s \<Longrightarrow>
    length m \<le> count_true s + count_true (select acc s us)"
proof (induction k m acc us arbitrary: s rule: heavy.induct)
  case (3 x k m acc u us)
  obtain b s' where s: "s = b # s'" using "3.prems" by (cases s) auto
  show ?case
  proof (cases b)
    case True
    show ?thesis
    proof (cases "count_true s' = 0")
      case zero: True
      have "select a s' us = a" if "length s' = length us" for a
        using that zero by (induction s' us arbitrary: a rule: list_induct2) (auto split: if_splits)
      then show ?thesis using "3.prems" s True zero by (simp add: Let_def at_least_count, linarith)
    next
      case False
      then have "s' \<noteq> []" by auto
      with False "3.IH"(1) [OF refl, of s'] "3.prems" s True show ?thesis by (simp add: Let_def)
    qed
  next
    case False
    then have "s' \<noteq> []" using "3.prems" s by auto
    then show ?thesis using "3.IH"(2) [OF refl, of s'] "3.prems" s False by (simp add: Let_def)
  qed
qed (auto simp: count_true_def)

definition check_table :: "bool list list" where
  "check_table =
   [[True, False, True, False, True, True, True, False, False, False, True],
    [True, True, True, True, True, False, False, True, False, False, True],
    [True, True, False, True, False, False, True, False, True, False, True],
    [True, True, False, False, False, True, True, True, False, True, True],
    [True, True, False, False, True, True, False, True, True, False, False],
    [False, True, True, False, False, True, True, False, True, True, False],
    [False, False, True, True, False, False, True, True, False, True, True],
    [True, False, True, True, False, True, True, True, True, False, False],
    [False, True, False, True, True, False, True, True, True, True, False],
    [False, False, True, False, True, True, False, True, True, True, True],
    [True, False, True, True, True, False, False, False, True, True, False],
    [False, True, False, True, True, True, False, False, False, True, True]]"

lemma check_table_heavy: "heavy [(), (), ()] [(), (), (), (), (), (), ()] (replicate 11 False) check_table"
  by code_simp

lemma syndrome_units:
  "syndrome 2048 = 1141"
  "syndrome 4096 = 1183"
  "syndrome 8192 = 1355"
  "syndrome 16384 = 1763"
  "syndrome 32768 = 435"
  "syndrome 65536 = 870"
  "syndrome 131072 = 1740"
  "syndrome 262144 = 493"
  "syndrome 524288 = 986"
  "syndrome 1048576 = 1972"
  "syndrome 2097152 = 797"
  "syndrome 4194304 = 1594"
  by (simp_all add: syndrome_def gen_def upt_rec)

definition bit_list :: "nat \<Rightarrow> u32 \<Rightarrow> bool list" where
  "bit_list n w = map (bit w) [0..<n]"

lemma check_table_units: "check_table = map (\<lambda>i. bit_list 11 (syndrome (push_bit (11 + i) 1))) [0..<12]"
  by (simp add: check_table_def bit_list_def upt_rec syndrome_units)

text \<open>An additive function of words is a selection of its values at the units.\<close>

definition additive :: "(u32 \<Rightarrow> u32) \<Rightarrow> bool" where
  "additive f \<longleftrightarrow> (\<forall>a b. f (a XOR b) = f a XOR f b)"

lemma additive_syndrome: "additive syndrome" "additive (\<lambda>w. syndrome (push_bit k w))"
  by (simp_all add: additive_def syndrome_xor push_bit_xor)

lemma additive_0: "additive f \<Longrightarrow> f 0 = 0"
  unfolding additive_def by (metis xor_self_eq)

lemma word_step: "w = of_bool (bit w 0) XOR push_bit 1 (drop_bit 1 (w :: u32))"
proof -
  have "take_bit 1 w = of_bool (bit w 0)" by (rule bit_word_eqI) (auto simp: bit_take_bit_iff bit_of_bool_iff bit_0)
  then show ?thesis using word_cut [of w 1] by simp
qed

lemma xor_list_map: "xor_list (map p xs) (map q xs) = map (\<lambda>i. p i \<noteq> q i) xs"
proof (induction xs)
  case (Cons x xs)
  then show ?case by (cases "p x"; cases "q x") simp_all
qed simp

lemma bit_list_xor: "xor_list (bit_list n a) (bit_list n b) = bit_list n (a XOR b)"
  unfolding bit_list_def xor_list_map by (simp add: bit_xor_iff)

lemma bit_list_Suc: "bit_list (Suc n) w = bit w 0 # bit_list n (drop_bit 1 w)"
  by (simp only: bit_list_def upt_conv_Cons [OF zero_less_Suc] list.map map_Suc_upt [symmetric] map_map)
    (simp add: comp_def bit_drop_bit_eq)

lemma additive_select:
  assumes "additive f"
  shows "\<forall>i \<ge> n. \<not> bit w i \<Longrightarrow> bit_list m (acc XOR f (push_bit k w)) =
    select (bit_list m acc) (bit_list n w) (map (\<lambda>i. bit_list m (f (push_bit (k + i) 1))) [0..<n])"
proof (induction n arbitrary: w k acc)
  case 0
  then have "w = 0" by (auto intro: bit_word_eqI)
  then show ?case using additive_0 [OF assms] by (simp add: bit_list_def)
next
  case (Suc n)
  define w' where "w' = drop_bit 1 w"
  have w': "\<forall>i \<ge> n. \<not> bit w' i" using Suc.prems by (simp add: w'_def bit_drop_bit_eq)
  have f: "f (push_bit k w) = (if bit w 0 then f (push_bit k 1) else 0) XOR f (push_bit (Suc k) w')"
    using assms additive_0 [OF assms] by (subst word_step [of w]) (auto simp: additive_def push_bit_xor w'_def)
  have u: "map (\<lambda>i. bit_list m (f (push_bit (k + i) 1))) [0..<Suc n] =
      bit_list m (f (push_bit k 1)) # map (\<lambda>i. bit_list m (f (push_bit (Suc k + i) 1))) [0..<n]"
    by (simp only: upt_conv_Cons [OF zero_less_Suc] list.map map_Suc_upt [symmetric] map_map) (simp add: comp_def)
  show ?case
    unfolding u bit_list_Suc w'_def [symmetric] f
    using Suc.IH [OF w', of "acc XOR f (push_bit k 1)" "Suc k"] Suc.IH [OF w', of acc "Suc k"]
    by (cases "bit w 0") (simp_all add: bit_list_xor xor.assoc)
qed

lemma additive_eq:
  assumes "additive f" and "additive g" and "\<And>i. i < n \<Longrightarrow> f (push_bit i 1) = g (push_bit i 1)" and "\<forall>i \<ge> n. \<not> bit w i"
  shows "f w = g w"
proof -
  have "map (\<lambda>i. bit_list 32 (f (push_bit (0 + i) 1))) [0..<n] = map (\<lambda>i. bit_list 32 (g (push_bit (0 + i) 1))) [0..<n]"
    using assms(3) by simp
  then have "bit_list 32 (0 XOR f (push_bit 0 w)) = bit_list 32 (0 XOR g (push_bit 0 w))"
    unfolding additive_select [OF assms(1,4)] additive_select [OF assms(2,4)]
    by (rule arg_cong [where f = "select (bit_list 32 0) (bit_list n w)"])
  then have "\<forall>i < 32. bit (f w) i = bit (g w) i" by (simp add: bit_list_def)
  then show ?thesis by (intro bit_word_eqI) simp
qed

lemma count_bit_list: "\<forall>i \<ge> n. \<not> bit w i \<Longrightarrow> count_true (bit_list n w) = OnesCount32 w"
proof -
  assume a: "\<forall>i \<ge> n. \<not> bit w i"
  have "count_true (bit_list n w) = length (filter (bit w) [0..<n])"
    by (simp add: count_true_def bit_list_def filter_map comp_def)
  also have "\<dots> = card {i. bit w i}"
    using a by (subst distinct_card [symmetric]) (auto intro!: arg_cong [of _ _ card] simp: not_le [symmetric])
  finally show ?thesis by (simp add: weight_card)
qed

lemma light_data:
  assumes "\<forall>i \<ge> 12. \<not> bit t i" and "t \<noteq> 0" and "OnesCount32 t \<le> 3"
  shows "7 \<le> OnesCount32 t + OnesCount32 (syndrome (push_bit 11 t))"
proof -
  have small: "\<forall>n \<ge> 11. \<not> bit (syndrome (push_bit 11 t)) n"
    using assms(1) by (intro syndrome_small) (simp add: bit_push_bit_iff)
  have s: "bit_list 11 (syndrome (push_bit 11 t)) = select (replicate 11 False) (bit_list 12 t) check_table"
  proof -
    have "bit_list 11 (0 :: u32) = replicate 11 False" by (rule nth_equalityI) (simp_all add: bit_list_def)
    then show ?thesis
      using additive_select [OF additive_syndrome(1) assms(1), of 11 0 11] by (simp add: check_table_units)
  qed
  have c: "count_true (bit_list 12 t) = OnesCount32 t" by (rule count_bit_list [OF assms(1)])
  have "length [(), (), (), (), (), (), ()] \<le> count_true (bit_list 12 t) + count_true (select (replicate 11 False) (bit_list 12 t) check_table)"
  proof (rule heavy_sound [OF check_table_heavy])
    show "length (bit_list 12 t) = length check_table" by (simp add: bit_list_def check_table_units)
    show "bit_list 12 t \<noteq> []" by (simp add: bit_list_def)
    show "count_true (bit_list 12 t) \<le> length [(), (), ()]" "0 < count_true (bit_list 12 t)"
      using assms(2,3) unfolding c by (simp_all add: zero_less_iff_neq_zero)
  qed
  then show ?thesis using count_bit_list [OF small] unfolding s [symmetric] c by simp
qed

text \<open>Multiplying by \<open>x\<^sup>1\<^sup>1\<close> and reducing turns the code round: its low 12 bits are data bits too.\<close>

definition turn :: "u32 \<Rightarrow> u32" where
  "turn w = syndrome (push_bit 11 (syndrome w))"

lemma turn_low: "\<forall>i \<ge> 12. \<not> bit w i \<Longrightarrow> turn w = syndrome (push_bit 11 w)"
proof (rule additive_eq [where f = turn and g = "\<lambda>w. syndrome (push_bit 11 w)" and n = 12])
  show "additive turn" by (simp add: additive_def turn_def syndrome_xor push_bit_xor)
  show "additive (\<lambda>w. syndrome (push_bit 11 w))" by (rule additive_syndrome)
  fix i :: nat assume "i < 12"
  show "turn (push_bit i 1) = syndrome (push_bit 11 (push_bit i 1))"
  proof (cases "i = 11")
    case True
    then show ?thesis by (simp add: turn_def syndrome_def gen_def upt_rec)
  next
    case False
    then have "\<forall>n \<ge> 11. \<not> bit (push_bit i 1 :: u32) n" using \<open>i < 12\<close> by (auto simp: bit_exp_iff)
    then show ?thesis unfolding turn_def by (simp only: syndrome_low)
  qed
qed

lemma turn_high: "\<forall>i \<ge> 11. \<not> bit t i \<Longrightarrow> turn (push_bit 12 t) = t"
proof (rule additive_eq [where f = "\<lambda>t. turn (push_bit 12 t)" and g = "\<lambda>t. t" and n = 11])
  show "additive (\<lambda>t. turn (push_bit 12 t))" by (simp add: additive_def turn_def syndrome_xor push_bit_xor)
  show "additive (\<lambda>t. t)" by (simp add: additive_def)
  fix i :: nat assume "i < 11"
  then have "i \<in> {..<11}" by simp
  then have "i \<in> {0, 1, 2, 3, 4, 5, 6, 7, 8, 9, 10}" by (auto simp: lessThan_nat_numeral)
  then show "turn (push_bit 12 (push_bit i 1)) = push_bit i 1"
    by (elim insertE emptyE; simp add: turn_def syndrome_units; simp add: syndrome_def gen_def upt_rec)
qed

lemma xor_zero: "a XOR b = 0 \<Longrightarrow> a = (b :: u32)"
  by (metis xor.assoc xor.left_neutral xor.right_neutral xor_self_eq)

lemma additive_cut: "additive f \<Longrightarrow> f c = f (take_bit k c) XOR f (push_bit k (drop_bit k c))"
proof -
  assume "additive f"
  then have "f (take_bit k c XOR push_bit k (drop_bit k c)) = f (take_bit k c) XOR f (push_bit k (drop_bit k c))"
    by (simp add: additive_def)
  then show ?thesis by (simp only: word_cut [of c k, symmetric])
qed

lemma min_distance:
  assumes "\<forall>i \<ge> 23. \<not> bit c i" and "syndrome c = 0" and "c \<noteq> 0"
  shows "7 \<le> OnesCount32 c"
proof -
  define t where "t = drop_bit 11 c"
  define u where "u = take_bit 12 c"
  have t: "\<forall>i \<ge> 12. \<not> bit t i" using assms(1) by (simp add: t_def bit_drop_bit_eq)
  have u: "\<forall>i \<ge> 12. \<not> bit u i" by (simp add: u_def bit_take_bit_iff)
  have "syndrome (take_bit 11 c) XOR syndrome (push_bit 11 t) = 0"
    using additive_cut [OF additive_syndrome(1), of c 11] assms(2) by (simp only: t_def)
  moreover have "syndrome (take_bit 11 c) = take_bit 11 c" by (rule syndrome_low) (simp add: bit_take_bit_iff)
  ultimately have lo: "take_bit 11 c = syndrome (push_bit 11 t)" using xor_zero by metis
  have at: "additive turn" by (simp add: additive_def turn_def syndrome_xor push_bit_xor)
  have "turn u XOR turn (push_bit 12 (drop_bit 12 c)) = 0"
    using additive_cut [OF at, of c 12] assms(2) syndrome_0 by (simp add: u_def turn_def)
  moreover have "turn (push_bit 12 (drop_bit 12 c)) = drop_bit 12 c"
    using assms(1) by (intro turn_high) (simp add: bit_drop_bit_eq)
  ultimately have hi: "drop_bit 12 c = syndrome (push_bit 11 u)"
    unfolding turn_low [OF u] using xor_zero by metis
  have w: "OnesCount32 c = OnesCount32 (take_bit 11 c) + OnesCount32 t" "OnesCount32 c = OnesCount32 u + OnesCount32 (drop_bit 12 c)"
    unfolding t_def u_def by (rule weight_cut)+
  have "t \<noteq> 0"
  proof
    assume z: "t = 0"
    have "c = take_bit 11 c XOR push_bit 11 t" unfolding t_def by (rule word_cut)
    then show False using assms(3) unfolding lo unfolding z by (simp add: syndrome_0)
  qed
  moreover have "u \<noteq> 0"
  proof
    assume z: "u = 0"
    have "c = u XOR push_bit 12 (drop_bit 12 c)" unfolding u_def by (rule word_cut)
    then show False using assms(3) unfolding hi unfolding z by (simp add: syndrome_0)
  qed
  ultimately have ne: "t \<noteq> 0" "u \<noteq> 0" by simp_all
  show ?thesis
  proof (cases "OnesCount32 t \<le> 3")
    case True
    then show ?thesis using light_data [OF t ne(1)] unfolding w(1) lo by linarith
  next
    case False
    have "{i. bit (drop_bit 11 u) i} \<subseteq> {0}" by (auto simp: u_def bit_drop_bit_eq bit_take_bit_iff)
    from card_mono [OF _ this] have "OnesCount32 (drop_bit 11 u) \<le> 1" unfolding weight_card by simp
    moreover have "take_bit 11 u = take_bit 11 c" unfolding u_def by simp
    note weight_cut [of u 11, unfolded this]
    ultimately have "OnesCount32 u \<le> Suc (OnesCount32 (take_bit 11 c))" by linarith
    then show ?thesis using light_data [OF u ne(2)] w False unfolding hi by linarith
  qed
qed

lemma syndrome_inj:
  assumes "\<forall>i \<ge> 23. \<not> bit a i" and "\<forall>i \<ge> 23. \<not> bit b i" and "OnesCount32 a \<le> 3" and "OnesCount32 b \<le> 3"
    and "syndrome a = syndrome b"
  shows "a = b"
proof (rule ccontr)
  assume "a \<noteq> b"
  then have "a XOR b \<noteq> 0" using xor_zero by blast
  moreover have "syndrome (a XOR b) = 0" by (simp add: syndrome_xor assms(5))
  moreover have "\<forall>i \<ge> 23. \<not> bit (a XOR b) i" using assms(1,2) by (simp add: bit_xor_iff)
  ultimately have "7 \<le> OnesCount32 (a XOR b)" by (intro min_distance)
  then show False using weight_xor_le [of a b] assms(3,4) by linarith
qed

section \<open>The table\<close>

definition ones :: "u32 \<Rightarrow> nat set" where
  "ones e = {i. bit e i}"

lemma ones_inj: "ones e = ones f \<longleftrightarrow> e = f"
  by (auto simp: ones_def set_eq_iff intro: bit_word_eqI)

lemma ones_simps [simp]: "i < 32 \<Longrightarrow> ones (2 ^ i) = {i}" "ones (e OR f) = ones e \<union> ones f"
  by (auto simp: ones_def bit_exp_iff bit_or_iff)

lemma ones_exist: "finite A \<Longrightarrow> A \<subseteq> {..<32} \<Longrightarrow> \<exists>e. ones e = A"
proof (induction rule: finite_induct)
  case empty
  have "ones 0 = {}" by (simp add: ones_def)
  then show ?case ..
next
  case (insert x A)
  then obtain e where "ones e = A" by auto
  then have "ones (push_bit x 1 OR e) = insert x A" using insert.prems by simp
  then show ?case ..
qed

lemma in_patterns:
  "e \<in> set patterns \<longleftrightarrow> (\<exists>a \<in> {0..<23}. ones e = {a} \<or> (\<exists>b \<in> {a + 1..<23}. ones e = {a, b}
      \<or> (\<exists>c \<in> {b + 1..<23}. ones e = {a, b, c})))"
proof -
  define P where "P i = (push_bit i 1 :: u32)" for i
  have P: "ones (P i) = {i}" if "i < 23" for i using that by (simp add: P_def)
  have "e \<in> set patterns \<longleftrightarrow> (\<exists>a \<in> {0..<23}. e = P a \<or> (\<exists>b \<in> {a + 1..<23}. e = P a OR P b
      \<or> (\<exists>c \<in> {b + 1..<23}. e = P a OR P b OR P c)))"
    unfolding patterns_def P_def [symmetric] set_concat set_map set_upt list.set by (simp add: image_iff)
  also have "\<dots> \<longleftrightarrow> (\<exists>a \<in> {0..<23}. ones e = {a} \<or> (\<exists>b \<in> {a + 1..<23}. ones e = {a, b}
      \<or> (\<exists>c \<in> {b + 1..<23}. ones e = {a, b, c})))"
    unfolding ones_inj [of e, symmetric] by (simp add: P insert_commute cong: bex_cong_simp)
  finally show ?thesis .
qed

lemma small_set_cases:
  assumes "finite (A :: nat set)" and "A \<subseteq> {..<23}" and "0 < card A" and "card A \<le> 3"
  shows "\<exists>a \<in> {0..<23}. A = {a} \<or> (\<exists>b \<in> {a + 1..<23}. A = {a, b} \<or> (\<exists>c \<in> {b + 1..<23}. A = {a, b, c}))"
proof -
  define xs where "xs = sorted_list_of_set A"
  have xs: "set xs = A" "sorted_wrt (<) xs" "length xs = card A" using assms(1) by (simp_all add: xs_def)
  consider a where "xs = [a]" | a b where "xs = [a, b]" | a b c where "xs = [a, b, c]"
  proof -
    have "length xs = 1 \<or> length xs = 2 \<or> length xs = 3" using assms(3,4) xs(3) by auto
    then show thesis using that by (auto simp: numeral_eq_Suc length_Suc_conv)
  qed
  then show ?thesis
  proof cases
    case (1 a)
    then show ?thesis using xs assms(2) by auto
  next
    case (2 a b)
    then show ?thesis using xs assms(2) by - (rule bexI [of _ a], rule disjI2, rule bexI [of _ b], rule disjI1, auto)
  next
    case (3 a b c)
    then show ?thesis using xs assms(2)
      by - (rule bexI [of _ a], rule disjI2, rule bexI [of _ b], rule disjI2, rule bexI [of _ c], auto)
  qed
qed

lemma set_patterns: "set patterns = {e. ones e \<subseteq> {..<23} \<and> 0 < card (ones e) \<and> card (ones e) \<le> 3}"
proof (intro equalityI subsetI CollectI)
  fix e assume "e \<in> set patterns"
  then show "ones e \<subseteq> {..<23} \<and> 0 < card (ones e) \<and> card (ones e) \<le> 3"
    unfolding in_patterns by (elim bexE disjE) (simp_all add: card_insert_if)
next
  fix e assume "e \<in> {e. ones e \<subseteq> {..<23} \<and> 0 < card (ones e) \<and> card (ones e) \<le> 3}"
  then show "e \<in> set patterns" unfolding in_patterns by (intro small_set_cases) (auto simp: ones_def)
qed

lemma card_patterns: "card (set patterns) = 2047"
proof -
  define S where "S = {A. A \<subseteq> {..<23 :: nat} \<and> 0 < card A \<and> card A \<le> 3}"
  have "ones ` set patterns = S"
  proof (intro equalityI subsetI)
    fix A assume "A \<in> S"
    moreover from this obtain e where "ones e = A" using ones_exist [of A] by (fastforce simp: S_def intro: finite_subset)
    ultimately show "A \<in> ones ` set patterns" by (auto simp: S_def set_patterns)
  qed (auto simp: S_def set_patterns)
  moreover have "inj_on ones (set patterns)" by (simp add: inj_on_def ones_inj)
  ultimately have "card (set patterns) = card S" by (metis card_image)
  also have "S = {A. A \<subseteq> {..<23} \<and> card A = 1} \<union> {A. A \<subseteq> {..<23} \<and> card A = 2} \<union> {A. A \<subseteq> {..<23} \<and> card A = 3}"
    by (auto simp: S_def)
  also have "card \<dots> = (23 choose 1) + (23 choose 2) + (23 choose 3)"
    by (subst card_Un_disjoint; (subst card_Un_disjoint)?; auto simp: n_subsets)
  finally show ?thesis by (simp add: numeral_eq_Suc)
qed

lemma length_patterns: "length patterns = 2047"
  by (simp add: patterns_def length_concat comp_def upt_rec)

lemma distinct_patterns: "distinct patterns"
  by (rule card_distinct) (simp only: card_patterns length_patterns)

lemma set_pattern_fold:
  assumes "distinct ps" and "\<forall>e \<in> set ps. e \<noteq> 0" and "inj_on syndrome (set ps)" and "\<forall>e \<in> set ps. unat (syndrome e) < length syn"
    and "\<forall>e \<in> set ps. syn ! unat (syndrome e) = 0"
  shows "fst (fold set_pattern ps (n, syn)) = n + length ps \<and> length (snd (fold set_pattern ps (n, syn))) = length syn
    \<and> (\<forall>e \<in> set ps. snd (fold set_pattern ps (n, syn)) ! unat (syndrome e) = e)
    \<and> (\<forall>s < length syn. s \<notin> (\<lambda>e. unat (syndrome e)) ` set ps \<longrightarrow> snd (fold set_pattern ps (n, syn)) ! s = syn ! s)"
  using assms
proof (induction ps arbitrary: n syn)
  case (Cons p ps)
  define syn' where "syn' = syn[unat (syndrome p) := p]"
  have s: "set_pattern p (n, syn) = (n + 1, syn')" using Cons.prems by (simp add: set_pattern_def syn'_def)
  have ne: "unat (syndrome e) \<noteq> unat (syndrome p)" if "e \<in> set ps" for e
  proof
    assume "unat (syndrome e) = unat (syndrome p)"
    then have "syndrome e = syndrome p" by (simp add: word_unat_eq_iff)
    then have "e = p" using inj_onD [OF Cons.prems(3)] that by simp
    then show False using Cons.prems(1) that by simp
  qed
  then have ne': "\<forall>e \<in> set ps. unat (syndrome e) \<noteq> unat (syndrome p) \<and> unat (syndrome p) \<noteq> unat (syndrome e)" by force
  have ih: "fst (fold set_pattern ps (n + 1, syn')) = n + 1 + length ps \<and> length (snd (fold set_pattern ps (n + 1, syn'))) = length syn'
    \<and> (\<forall>e \<in> set ps. snd (fold set_pattern ps (n + 1, syn')) ! unat (syndrome e) = e)
    \<and> (\<forall>s < length syn'. s \<notin> (\<lambda>e. unat (syndrome e)) ` set ps \<longrightarrow> snd (fold set_pattern ps (n + 1, syn')) ! s = syn' ! s)"
    using Cons.prems ne' by (intro Cons.IH) (auto simp: syn'_def)
  have pp: "unat (syndrome p) < length syn" "unat (syndrome p) \<notin> (\<lambda>e. unat (syndrome e)) ` set ps" using Cons.prems(4) ne' by auto
  show ?case using ih pp by (auto simp: s syn'_def)
qed simp

lemma pattern_bits: "ones e \<subseteq> {..<23} \<longleftrightarrow> (\<forall>i \<ge> 23. \<not> bit e i)"
proof
  assume "ones e \<subseteq> {..<23}"
  then show "\<forall>i \<ge> 23. \<not> bit e i" unfolding ones_def by fastforce
next
  assume a: "\<forall>i \<ge> 23. \<not> bit e i"
  show "ones e \<subseteq> {..<23}"
  proof
    fix i assume "i \<in> ones e"
    then show "i \<in> {..<23}" using a by (cases "23 \<le> i") (simp_all add: ones_def)
  qed
qed

lemma in_patterns_iff: "e \<in> set patterns \<longleftrightarrow> (\<forall>i \<ge> 23. \<not> bit e i) \<and> e \<noteq> 0 \<and> OnesCount32 e \<le> 3"
proof -
  have "card (ones e) = OnesCount32 e" by (simp add: ones_def weight_card)
  moreover have "0 < OnesCount32 e \<longleftrightarrow> e \<noteq> 0" using weight_0_iff [of e] by (metis gr0I less_irrefl)
  ultimately show ?thesis by (simp only: set_patterns pattern_bits mem_Collect_eq)
qed

lemma syndrome_bound: "\<forall>i \<ge> 23. \<not> bit e i \<Longrightarrow> unat (syndrome e) < 2048"
proof -
  assume "\<forall>i \<ge> 23. \<not> bit e i"
  then have "take_bit 11 (syndrome e) = syndrome e"
    using syndrome_small [of e] by (intro bit_word_eqI) (auto simp: bit_take_bit_iff not_less [symmetric])
  then have "unat (syndrome e) = take_bit 11 (unat (syndrome e))" by (metis unsigned_take_bit_eq)
  then show ?thesis using take_bit_nat_less_exp [of 11 "unat (syndrome e)"] by simp
qed

lemma golay_table:
  obtains syn where "golay_init = Some syn" and "length syn = 2048" and "syn ! 0 = 0"
    and "\<And>e. \<forall>i \<ge> 23. \<not> bit e i \<Longrightarrow> OnesCount32 e \<le> 3 \<Longrightarrow> syn ! unat (syndrome e) = e"
proof -
  define z where "z = replicate 2048 (0 :: u32)"
  define t where "t = fold set_pattern patterns (1, z)"
  have inj: "inj_on syndrome (set patterns)" using syndrome_inj by (auto simp: inj_on_def in_patterns_iff)
  have b: "\<forall>e \<in> set patterns. unat (syndrome e) < length z" using syndrome_bound by (auto simp: in_patterns_iff z_def)
  have zz: "z ! k = 0" if "k < 2048" for k using that by (simp add: z_def)
  have f: "fst t = 1 + length patterns \<and> length (snd t) = length z
    \<and> (\<forall>e \<in> set patterns. snd t ! unat (syndrome e) = e)
    \<and> (\<forall>s < length z. s \<notin> (\<lambda>e. unat (syndrome e)) ` set patterns \<longrightarrow> snd t ! s = z ! s)"
    unfolding t_def using inj b zz by (intro set_pattern_fold [OF distinct_patterns]) (auto simp: in_patterns_iff z_def)
  have "unat (syndrome e) \<noteq> 0" if "e \<in> set patterns" for e
    using syndrome_inj [of e 0] that weight_0_iff [of 0] by (auto simp: in_patterns_iff syndrome_0 unat_eq_0)
  then have z0: "snd t ! 0 = 0" using f zz [of 0] by (auto simp: z_def image_iff)
  show thesis
  proof (rule that [of "snd t"])
    show "golay_init = Some (snd t)"
    proof -
      have "fold set_pattern patterns (1, replicate 2048 0) = (2048, snd t)"
        using f length_patterns by (simp add: t_def z_def prod_eq_iff)
      then show ?thesis by (simp only: golay_init_def prod.case) simp
    qed
    show "length (snd t) = 2048" using f by (simp add: z_def)
    show "snd t ! 0 = 0" by (rule z0)
    show "snd t ! unat (syndrome e) = e" if "\<forall>i \<ge> 23. \<not> bit e i" "OnesCount32 e \<le> 3" for e
      using f z0 that by (cases "e = 0") (auto simp: in_patterns_iff syndrome_0)
  qed
qed

section \<open>Decoding\<close>

lemma codeword_syndrome: "\<forall>i \<ge> 23. \<not> bit v i \<Longrightarrow> syndrome (v XOR syndrome v) = 0"
  using syndrome_low [OF syndrome_small [of v]] by (simp add: syndrome_xor)

text \<open>The 23-bit codeword of 12 data bits, and its two ends.\<close>

definition code23 :: "u16 \<Rightarrow> u32" where
  "code23 d = push_bit 11 (ucast (d AND 0xFFF)) OR syndrome (push_bit 11 (ucast (d AND 0xFFF)))"

lemma and_mask_bit: "bit (d AND 0xFFF :: u16) i \<longleftrightarrow> i < 12 \<and> bit d i"
proof -
  have "(0xFFF :: u16) = mask 12" by (simp add: mask_eq_exp_minus_1)
  then have "d AND 0xFFF = take_bit 12 d" by (simp only: take_bit_eq_mask)
  then show ?thesis by (simp only: bit_take_bit_iff)
qed

lemma data_bits: "bit (push_bit 11 (ucast (d AND 0xFFF :: u16)) :: u32) i \<longleftrightarrow> 11 \<le> i \<and> i < 23 \<and> bit d (i - 11)"
  by (auto simp: bit_push_bit_iff bit_ucast_iff and_mask_bit)

lemma code23:
  "\<forall>i \<ge> 23. \<not> bit (code23 d) i" "syndrome (code23 d) = 0" "(ucast (drop_bit 11 (code23 d)) :: u16) = d AND 0xFFF"
proof -
  define v where "v = (push_bit 11 (ucast (d AND 0xFFF)) :: u32)"
  have v: "\<forall>i \<ge> 23. \<not> bit v i" "\<forall>i < 11. \<not> bit v i" by (simp_all add: v_def data_bits)
  have s: "\<forall>i \<ge> 11. \<not> bit (syndrome v) i" using v(1) by (rule syndrome_small)
  have c: "code23 d = v XOR syndrome v"
    unfolding code23_def v_def [symmetric]
    by (rule bit_word_eqI) (use v s in \<open>auto simp: bit_or_iff bit_xor_iff not_le [symmetric]\<close>)
  show "\<forall>i \<ge> 23. \<not> bit (code23 d) i" using v s by (simp add: c bit_xor_iff)
  show "syndrome (code23 d) = 0" unfolding c using v(1) by (rule codeword_syndrome)
  show "(ucast (drop_bit 11 (code23 d)) :: u16) = d AND 0xFFF"
    by (rule bit_word_eqI) (use s in \<open>auto simp: c bit_ucast_iff bit_drop_bit_eq bit_xor_iff v_def data_bits and_mask_bit\<close>)
qed

lemma ucast_top: "\<forall>i \<ge> 23. \<not> bit c i \<Longrightarrow> \<forall>i \<ge> 12. \<not> bit (ucast (drop_bit 11 c) :: u16) i"
  by (simp add: bit_ucast_iff bit_drop_bit_eq)

definition parity :: "u32 \<Rightarrow> u32" where
  "parity w = of_nat (OnesCount32 w) AND 1"

lemma parity_odd: "parity w = of_bool (odd (OnesCount32 w))"
  by (rule bit_word_eqI) (auto simp: parity_def bit_and_iff bit_1_iff bit_0 bit_of_bool_iff)

lemma Encode_code23: "golay_Encode d = push_bit 1 (code23 d) OR parity (code23 d)"
  by (simp only: golay_Encode_def code23_def parity_def Let_def)

text \<open>A received word as the sent one with an error pattern: of its top 23 bits, and of the parity bit.\<close>

lemma mask_24: "w AND 0xFFFFFF = take_bit 24 (w :: u32)"
proof -
  have "(0xFFFFFF :: u32) = mask 24" by (simp add: mask_eq_exp_minus_1)
  then show ?thesis by (simp only: take_bit_eq_mask)
qed

lemma parity_low: "bit (parity w) i \<longleftrightarrow> i = 0 \<and> odd (OnesCount32 w)"
  by (auto simp: parity_odd bit_of_bool_iff)

lemma received:
  assumes "\<forall>i \<ge> 24. \<not> bit x i"
  shows "drop_bit 1 ((golay_Encode d XOR x) AND 0xFFFFFF) = code23 d XOR drop_bit 1 x"
    and "((golay_Encode d XOR x) AND 0xFFFFFF) AND 1 = of_bool (odd (OnesCount32 (code23 d)) \<noteq> bit x 0)"
proof -
  have b: "bit ((golay_Encode d XOR x) AND 0xFFFFFF) i \<longleftrightarrow>
      i < 24 \<and> ((0 < i \<and> bit (code23 d) (i - 1) \<or> i = 0 \<and> odd (OnesCount32 (code23 d))) \<noteq> bit x i)" for i
    unfolding mask_24 Encode_code23 bit_take_bit_iff bit_xor_iff bit_or_iff bit_push_bit_iff parity_low by auto
  show "drop_bit 1 ((golay_Encode d XOR x) AND 0xFFFFFF) = code23 d XOR drop_bit 1 x"
  proof (rule bit_word_eqI)
    fix n
    show "bit (drop_bit 1 ((golay_Encode d XOR x) AND 0xFFFFFF)) n = bit (code23 d XOR drop_bit 1 x) n"
      using code23(1) [of d] assms unfolding bit_drop_bit_eq comp_def b bit_xor_iff by (cases "n < 23") auto
  qed
  show "((golay_Encode d XOR x) AND 0xFFFFFF) AND 1 = of_bool (odd (OnesCount32 (code23 d)) \<noteq> bit x 0)"
    by (rule bit_word_eqI) (auto simp: bit_and_iff [of "_ AND 0xFFFFFF"] b bit_1_iff bit_of_bool_iff)
qed

lemma weight_tail: "OnesCount32 x = of_bool (bit x 0) + OnesCount32 (drop_bit 1 x)"
proof -
  have "take_bit 1 x = of_bool (bit x 0)" by (rule bit_word_eqI) (auto simp: bit_take_bit_iff bit_of_bool_iff bit_0)
  moreover have "OnesCount32 (of_bool b) = of_bool b" for b by (cases b) (simp_all add: OnesCount32_def upt_rec)
  ultimately show ?thesis using weight_cut [of x 1] by simp
qed

text \<open>The decoder on a word received with errors, once the table gives e for them.\<close>

lemma decode_received:
  assumes "\<forall>i \<ge> 24. \<not> bit x i" and "syn ! unat (syndrome (drop_bit 1 x)) = e"
  shows "golay_Decode syn (golay_Encode d XOR x) =
    (ucast (drop_bit 11 (code23 d XOR (drop_bit 1 x XOR e))),
     OnesCount32 e + of_bool (odd (OnesCount32 (drop_bit 1 x) + OnesCount32 e) \<noteq> bit x 0) \<le> 3)"
proof -
  define r where "r = code23 d XOR drop_bit 1 x"
  have e: "syn ! unat (syndrome r) = e" using assms(2) code23(2) by (simp add: r_def syndrome_xor)
  have c: "r XOR e = code23 d XOR (drop_bit 1 x XOR e)" by (simp add: r_def xor.assoc)
  have p: "odd (OnesCount32 (r XOR e)) \<longleftrightarrow> odd (OnesCount32 (code23 d)) \<noteq> odd (OnesCount32 (drop_bit 1 x) + OnesCount32 e)"
    unfolding c using weight_xor_parity by (metis even_add)
  have q: "(of_nat (OnesCount32 (r XOR e)) AND 1 \<noteq> ((golay_Encode d XOR x) AND 0xFFFFFF) AND 1) \<longleftrightarrow>
      odd (OnesCount32 (drop_bit 1 x) + OnesCount32 e) \<noteq> bit x 0"
    unfolding received(2) [OF assms(1)] parity_def [symmetric] parity_odd of_bool_eq_iff p by auto
  show ?thesis
    unfolding golay_Decode_def Let_def received(1) [OF assms(1)] r_def [symmetric] e q
    by (auto simp: c)
qed

text \<open>The code is perfect: every 23-bit word has the syndrome of an error of weight at most 3.\<close>

lemma perfect:
  assumes "\<forall>i \<ge> 23. \<not> bit r i"
  shows "\<exists>e. (\<forall>i \<ge> 23. \<not> bit e i) \<and> OnesCount32 e \<le> 3 \<and> syndrome e = syndrome r"
proof -
  define E where "E = insert 0 (set patterns)"
  have E: "e \<in> E \<Longrightarrow> (\<forall>i \<ge> 23. \<not> bit e i) \<and> OnesCount32 e \<le> 3" for e by (auto simp: E_def in_patterns_iff)
  have "0 \<notin> set patterns" by (simp add: in_patterns_iff)
  then have "card E = 2048" using card_patterns by (simp add: E_def)
  moreover have "inj_on (\<lambda>e. unat (syndrome e)) E"
    using syndrome_inj E by (auto simp: inj_on_def word_unat_eq_iff [symmetric])
  ultimately have "card ((\<lambda>e. unat (syndrome e)) ` E) = card {..<2048 :: nat}" by (simp add: card_image)
  moreover have "(\<lambda>e. unat (syndrome e)) ` E \<subseteq> {..<2048}" using E syndrome_bound by auto
  ultimately have "(\<lambda>e. unat (syndrome e)) ` E = {..<2048}" by (intro card_subset_eq) simp_all
  then have "unat (syndrome r) \<in> (\<lambda>e. unat (syndrome e)) ` E" using syndrome_bound [OF assms] by simp
  then obtain e where "e \<in> E" "unat (syndrome r) = unat (syndrome e)" by blast
  then show ?thesis using E [of e] by (intro exI [of _ e]) (simp add: word_unat_eq_iff)
qed

text \<open>C11. Every word received with at most three wrong bits of its 24, whichever they are, decodes to the
  12 data bits that were sent and is reported good; and every word received with exactly four wrong bits
  is reported bad. The table \<open>init\<close> builds is complete, so the package never panics at its start.\<close>

theorem golay_corrects:
  "\<exists>syn. golay_init = Some syn
    \<and> (\<forall>d x. (\<forall>i \<ge> 24. \<not> bit x i) \<and> OnesCount32 x \<le> 3 \<longrightarrow> golay_Decode syn (golay_Encode d XOR x) = (d AND 0xFFF, True))
    \<and> (\<forall>d x. (\<forall>i \<ge> 24. \<not> bit x i) \<and> OnesCount32 x = 4 \<longrightarrow> \<not> snd (golay_Decode syn (golay_Encode d XOR x)))"
proof -
  obtain syn where t: "golay_init = Some syn"
    "\<And>e. \<forall>i \<ge> 23. \<not> bit e i \<Longrightarrow> OnesCount32 e \<le> 3 \<Longrightarrow> syn ! unat (syndrome e) = e"
    by (rule golay_table) blast
  show ?thesis
  proof (intro exI [of _ syn] conjI allI impI)
    show "golay_init = Some syn" by (rule t(1))
  next
    fix d x assume x: "(\<forall>i \<ge> 24. \<not> bit x i) \<and> OnesCount32 x \<le> 3"
    define e where "e = drop_bit 1 x"
    have e: "\<forall>i \<ge> 23. \<not> bit e i" "OnesCount32 x = of_bool (bit x 0) + OnesCount32 e"
      using x weight_tail [of x] by (auto simp: e_def bit_drop_bit_eq)
    have "OnesCount32 e \<le> 3" using x e(2) by linarith
    then have "syn ! unat (syndrome (drop_bit 1 x)) = e" using t(2) [OF e(1)] by (simp only: e_def)
    from decode_received [OF conjunct1 [OF x] this, of d, folded e_def]
    show "golay_Decode syn (golay_Encode d XOR x) = (d AND 0xFFF, True)"
      using x e(2) code23(3) [of d] by (cases "bit x 0") simp_all
  next
    fix d x assume x: "(\<forall>i \<ge> 24. \<not> bit x i) \<and> OnesCount32 x = 4"
    define e where "e = drop_bit 1 x"
    have e: "\<forall>i \<ge> 23. \<not> bit e i" "of_bool (bit x 0) + OnesCount32 e = 4"
      using x weight_tail [of x] by (auto simp: e_def bit_drop_bit_eq)
    obtain p where p: "\<forall>i \<ge> 23. \<not> bit p i" "OnesCount32 p \<le> 3" "syndrome p = syndrome e"
      using perfect [OF e(1)] by blast
    have "syn ! unat (syndrome (drop_bit 1 x)) = p" using t(2) [OF p(1,2)] p(3) by (simp only: e_def)
    note d = decode_received [OF conjunct1 [OF x] this, of d, folded e_def]
    show "\<not> snd (golay_Decode syn (golay_Encode d XOR x))"
    proof (cases "bit x 0")
      case True
      then have "OnesCount32 e = 3" using e(2) by simp
      then have "p = e" using syndrome_inj [OF p(1) e(1) p(2) _ p(3)] by simp
      then show ?thesis using d True \<open>OnesCount32 e = 3\<close> by simp
    next
      case False
      then have w: "OnesCount32 e = 4" using e(2) by simp
      then have "p XOR e \<noteq> 0" using xor_zero p(2) by fastforce
      moreover have "syndrome (p XOR e) = 0" by (simp add: syndrome_xor p(3))
      moreover have "\<forall>i \<ge> 23. \<not> bit (p XOR e) i" using p(1) e(1) by (simp add: bit_xor_iff)
      ultimately have "7 \<le> OnesCount32 (p XOR e)" by (intro min_distance)
      then have "OnesCount32 p = 3" using weight_xor_le [of p e] w p(2) by linarith
      then show ?thesis using d False w by simp
    qed
  qed
qed

theorem golay_corrects_witness:
  "\<exists>syn. golay_init = Some syn \<and> golay_Decode syn (golay_Encode 0xABC XOR 0x800101) = (0xABC, True)
    \<and> \<not> snd (golay_Decode syn (golay_Encode 0xABC XOR 0x800111))"
proof -
  have t: "\<forall>i \<ge> 24. \<not> bit w i" if "take_bit 24 w = w" for w :: u32
    using that by (metis bit_take_bit_iff not_le)
  have w: "\<forall>i \<ge> 24. \<not> bit (0x800101 :: u32) i" "\<forall>i \<ge> 24. \<not> bit (0x800111 :: u32) i"
    by (rule t, simp)+
  have c: "OnesCount32 0x800101 = 3" "OnesCount32 0x800111 = 4" by (simp_all add: OnesCount32_def upt_rec)
  obtain syn where s: "golay_init = Some syn"
    "\<forall>d x. (\<forall>i \<ge> 24. \<not> bit x i) \<and> OnesCount32 x \<le> 3 \<longrightarrow> golay_Decode syn (golay_Encode d XOR x) = (d AND 0xFFF, True)"
    "\<forall>d x. (\<forall>i \<ge> 24. \<not> bit x i) \<and> OnesCount32 x = 4 \<longrightarrow> \<not> snd (golay_Decode syn (golay_Encode d XOR x))"
    using golay_corrects by blast
  have "golay_Decode syn (golay_Encode 0xABC XOR 0x800101) = (0xABC AND 0xFFF, True)" using s(2) w(1) c(1) by simp
  moreover have "\<not> snd (golay_Decode syn (golay_Encode 0xABC XOR 0x800111))" using s(3) w(2) c(2) by simp
  ultimately show ?thesis using s(1) by (intro exI [of _ syn]) simp
qed

end
