(* ===== verification/Client.thy ===== *)
theory Client
  imports Server
begin

text \<open>
  The \<open>kv/client\<close> package: a client's local writes, its last-writer-wins view, and its sync with a server.
  The client's state is a record; what lies outside it (the clock, the bytes drawn for a nonce, the disk
  and the transport, an interface of the package) is the record \<open>client_io\<close> of functions over a state
  of the outside world, which every call may change. One goroutine uses the client: the locks that let
  several do so, and the trace with its statistics, are left out.
\<close>

section \<open>Values and state\<close>

definition fmtRaw :: byte where "fmtRaw = 0"
definition FmtRow :: byte where "FmtRow = 1"

definition WrapValue :: "byte \<Rightarrow> bytes \<Rightarrow> bytes" where
  "WrapValue tag v = tag # v"

text \<open>The tag and payload of a stored value; \<open>None\<close> is a tombstone.\<close>

fun ParseValue :: "bytes \<Rightarrow> (byte \<times> bytes) option" where
  "ParseValue [] = None"
| "ParseValue (tag # v) = Some (tag, v)"

datatype client_error =
    PreErr byte
  | ErrFrameNonce
  | ErrFrameSeal
  | ErrTransport
  | ErrRespHeader
  | ErrUnexpectedFrame
  | ErrRespOpen
  | ErrRespPayload
  | ErrRespNonce
  | ErrStatus byte
  | ErrRegisterRejected
  | ErrNoRegisterKey
  | ErrVaultEnded
  | ErrNotEphemeral
  | ErrWaitUnsupported
  | ErrSyncStuck
  | ErrNoAdvance
  | ErrPageBudget
  | ErrStoreAdd
  | ErrEmptyValue
  | ErrSealEntry vault_error
  | OutOfFuel

text \<open>A key's winning entry; its position is \<open>(kvTs, kvId)\<close>, and no value is a tombstone.\<close>

record key_value =
  kvVal :: "(byte \<times> bytes) option"
  kvTs :: u64
  kvId :: bytes

record client =
  cl_aead :: aead
  cl_authKey :: bytes
  cl_vid :: bytes
  cl_c2s :: bytes
  cl_s2c :: bytes
  cl_store :: store
  regChan :: "bytes option"
  cl_ephemeral :: bool
  windowMs :: u64
  lastTs :: u64
  registered :: bool
  everRegistered :: bool
  cl_ended :: bool
  recent :: "entry list"
  view :: "(bytes \<times> key_value) list"
  folded :: nat

record 'w client_io =
  cl_draw :: "'w \<Rightarrow> (bytes option \<times> int) \<times> 'w"
  cl_now :: "'w \<Rightarrow> u64 \<times> 'w"
  cl_disk :: "'w \<Rightarrow> add_io \<times> 'w"
  cl_do :: "bytes \<Rightarrow> 'w \<Rightarrow> bytes option \<times> 'w"

definition defaultSyncWindowMs :: u64 where "defaultSyncWindowMs = 600000"

text \<open>\<open>New\<close>, with the options it is given; the window is a duration in nanoseconds, and 0 is the default one.\<close>

definition client_New ::
  "bytes \<Rightarrow> store \<Rightarrow> bytes option \<Rightarrow> bool \<Rightarrow> bool \<Rightarrow> int \<Rightarrow> aead_error + client" where
  "client_New rk s registerKey isRegistered eph window =
     (case RootKey_AEAD rk of
        Inl e \<Rightarrow> Inl e
      | Inr a \<Rightarrow>
          let ak = DeriveAuthKey rk
          in Inr \<lparr>cl_aead = a, cl_authKey = ak, cl_vid = DeriveVaultID rk, cl_c2s = DeriveC2S ak, cl_s2c = DeriveS2C ak,
                  cl_store = s, regChan = map_option DeriveRegKey registerKey, cl_ephemeral = eph,
                  windowMs = (if 0 < window then word_of_int (window div 1000000) else defaultSyncWindowMs), lastTs = 0, registered = isRegistered,
                  everRegistered = False, cl_ended = False, recent = [], view = [], folded = 0\<rparr>)"

section \<open>Calls that may fail\<close>

text \<open>A call over the client and the world; an error keeps what was done before it.\<close>

type_synonym ('w, 'a) call = "client \<times> 'w \<Rightarrow> (client_error + 'a) \<times> client \<times> 'w"

definition ret :: "'a \<Rightarrow> ('w, 'a) call" where
  "ret a = (\<lambda>s. (Inr a, s))"

definition fail :: "client_error \<Rightarrow> ('w, 'a) call" where
  "fail e = (\<lambda>s. (Inl e, s))"

definition and_then :: "('w, 'a) call \<Rightarrow> ('a \<Rightarrow> ('w, 'b) call) \<Rightarrow> ('w, 'b) call" where
  "and_then m f = (\<lambda>s. case m s of (Inl e, s) \<Rightarrow> (Inl e, s) | (Inr a, s) \<Rightarrow> f a s)"

section \<open>Local writes\<close>

text \<open>The position that comes strictly later.\<close>

definition posAfter :: "u64 \<Rightarrow> bytes \<Rightarrow> u64 \<Rightarrow> bytes \<Rightarrow> bool" where
  "posAfter ts i baseTs baseID = (if ts \<noteq> baseTs then baseTs < ts else 0 < cmp i baseID)"

definition nextTs :: "'w client_io \<Rightarrow> ('w, u64) call" where
  "nextTs io = (\<lambda>(c, w).
     case cl_now io w of (ts, w) \<Rightarrow>
       let ts = (if ts \<le> lastTs c then lastTs c + 1 else ts)
       in (Inr ts, c\<lparr>lastTs := ts\<rparr>, w))"

definition store_add :: "'w client_io \<Rightarrow> entry list \<Rightarrow> ('w, unit) call" where
  "store_add io es = (\<lambda>(c, w).
     case cl_disk io w of (d, w) \<Rightarrow>
       (case store_Add (cl_store c) es d of
          (Inl _, s) \<Rightarrow> (Inl ErrStoreAdd, c\<lparr>cl_store := s\<rparr>, w)
        | (Inr _, s) \<Rightarrow> (Inr (), c\<lparr>cl_store := s\<rparr>, w)))"

definition client_record :: "'w client_io \<Rightarrow> entry list \<Rightarrow> ('w, unit) call" where
  "client_record io es =
     and_then (store_add io es) (\<lambda>_ (c, w). (Inr (), c\<lparr>recent := recent c @ es\<rparr>, w))"

definition seal_entry :: "'w client_io \<Rightarrow> u64 \<Rightarrow> bytes \<Rightarrow> bytes \<Rightarrow> ('w, entry) call" where
  "seal_entry io ts key val = (\<lambda>(c, w).
     case cl_draw io w of ((r, t), w) \<Rightarrow> (map_err ErrSealEntry (entry_Seal (cl_aead c) ts key val r t), c, w))"

definition PutFmt :: "'w client_io \<Rightarrow> bytes \<Rightarrow> bytes \<Rightarrow> byte \<Rightarrow> ('w, unit) call" where
  "PutFmt io key val tag =
     (if length val = 0 then fail ErrEmptyValue
      else and_then (nextTs io) (\<lambda>ts. and_then (seal_entry io ts key (WrapValue tag val)) (\<lambda>e. client_record io [e])))"

definition Put :: "'w client_io \<Rightarrow> bytes \<Rightarrow> bytes \<Rightarrow> ('w, unit) call" where
  "Put io key val = PutFmt io key val fmtRaw"

text \<open>The keys and values in the order the map iteration gives them.\<close>

fun seal_many :: "'w client_io \<Rightarrow> (bytes \<times> bytes) list \<Rightarrow> ('w, entry list) call" where
  "seal_many io [] = ret []"
| "seal_many io ((k, v) # kvs) =
     (if length v = 0 then fail ErrEmptyValue
      else and_then (nextTs io) (\<lambda>ts. and_then (seal_entry io ts k (WrapValue fmtRaw v))
             (\<lambda>e. and_then (seal_many io kvs) (\<lambda>es. ret (e # es)))))"

definition PutMany :: "'w client_io \<Rightarrow> (bytes \<times> bytes) list \<Rightarrow> ('w, unit) call" where
  "PutMany io kvs = and_then (seal_many io kvs) (client_record io)"

definition Delete :: "'w client_io \<Rightarrow> bytes \<Rightarrow> ('w, unit) call" where
  "Delete io key = and_then (nextTs io) (\<lambda>ts. and_then (seal_entry io ts key []) (\<lambda>e. client_record io [e]))"

section \<open>Reads\<close>

definition store_Appended :: "store \<Rightarrow> nat \<Rightarrow> entry list" where "store_Appended s n = mem_Appended (store_mem s) n"
definition store_Newest :: "store \<Rightarrow> entry option" where "store_Newest s = mem_Newest (store_mem s)"

text \<open>One entry folded into the view: skipped if it does not open or does not come later than its key's winner.\<close>

definition fold_entry :: "aead \<Rightarrow> entry \<Rightarrow> (bytes \<times> key_value) list \<Rightarrow> (bytes \<times> key_value) list" where
  "fold_entry a e v =
     (case entry_Open a e of
        Inl _ \<Rightarrow> v
      | Inr (k, sv) \<Rightarrow>
          let new = \<lparr>kvVal = ParseValue sv, kvTs = TsMs e, kvId = entry_ID e\<rparr>
          in case map_of v k of
               None \<Rightarrow> AList.update k new v
             | Some cur \<Rightarrow> if \<not> posAfter (TsMs e) (entry_ID e) (kvTs cur) (kvId cur) then v else AList.update k new v)"

definition foldLocked :: "client \<Rightarrow> client" where
  "foldLocked c =
     (let es = store_Appended (cl_store c) (folded c)
      in c\<lparr>view := fold (fold_entry (cl_aead c)) es (view c), folded := folded c + length es\<rparr>)"

definition Get :: "bytes \<Rightarrow> client \<Rightarrow> bytes option \<times> client" where
  "Get key c =
     (let c = foldLocked c
      in (case map_of (view c) key of
            None \<Rightarrow> None
          | Some kv \<Rightarrow> map_option snd (kvVal kv), c))"

record live_entry =
  leKey :: bytes
  leValue :: bytes
  leFmt :: byte
  leTs :: u64

fun live :: "bytes \<times> key_value \<Rightarrow> live_entry option" where
  "live (k, kv) =
     (case kvVal kv of
        None \<Rightarrow> None
      | Some (tag, v) \<Rightarrow> Some \<lparr>leKey = k, leValue = v, leFmt = tag, leTs = kvTs kv\<rparr>)"

definition All :: "client \<Rightarrow> live_entry list \<times> client" where
  "All c = (let c = foldLocked c in (List.map_filter live (sort_key fst (view c)), c))"

definition client_List :: "client \<Rightarrow> bytes list \<times> client" where
  "client_List c = (case All c of (es, c) \<Rightarrow> (map leKey es, c))"

section \<open>One exchange\<close>

definition open_response :: "client \<Rightarrow> bytes \<Rightarrow> bytes \<Rightarrow> client_error + resp" where
  "open_response c nonce b =
     (if length b = 1 then Inl (PreErr (b ! 0))
      else case ParseHeader b of
             Inl _ \<Rightarrow> Inl ErrRespHeader
           | Inr (h, sealed) \<Rightarrow>
               if Kind h \<noteq> KindResp \<or> VaultID h \<noteq> cl_vid c then Inl ErrUnexpectedFrame
               else case OpenFrame (cl_s2c c) h sealed of
                      Inl _ \<Rightarrow> Inl ErrRespOpen
                    | Inr p \<Rightarrow>
                        (case ParseResp p of
                           Inl _ \<Rightarrow> Inl ErrRespPayload
                         | Inr r \<Rightarrow> if ReqNonce r \<noteq> nonce then Inl ErrRespNonce else Inr r))"

definition roundtrip :: "'w client_io \<Rightarrow> byte \<Rightarrow> bytes \<Rightarrow> bytes \<Rightarrow> ('w, resp) call" where
  "roundtrip io kind sealK payload = (\<lambda>(c, w).
     case cl_draw io w of ((r, t), w) \<Rightarrow>
       (case FrameNonce (cl_vid c) r t of
          Inl _ \<Rightarrow> (Inl ErrFrameNonce, c, w)
        | Inr nonce \<Rightarrow>
            (case SealFrame \<lparr>Kind = kind, VaultID = cl_vid c, FrNonce = nonce\<rparr> sealK payload of
               Inl _ \<Rightarrow> (Inl ErrFrameSeal, c, w)
             | Inr frame \<Rightarrow>
                 (case cl_do io frame w of
                    (None, w) \<Rightarrow> (Inl ErrTransport, c, w)
                  | (Some b, w) \<Rightarrow> (open_response c nonce b, c, w)))))"

text \<open>A SYNC operation, sealed under the client's channel.\<close>

definition sync_call :: "'w client_io \<Rightarrow> sync_req \<Rightarrow> ('w, resp) call" where
  "sync_call io req = (\<lambda>(c, w). roundtrip io KindSync (cl_c2s c) (sync_Marshal req) (c, w))"

text \<open>The hash of the store, cached in it.\<close>

definition set_hash :: "('w, bytes) call" where
  "set_hash = (\<lambda>(c, w). case store_SetHash (cl_store c) of (h, s) \<Rightarrow> (Inr h, c\<lparr>cl_store := s\<rparr>, w))"

section \<open>Sync\<close>

definition probe :: "'w client_io \<Rightarrow> ('w, bool) call" where
  "probe io = and_then set_hash (\<lambda>h. and_then (sync_call io (zero_req\<lparr>Op := OpProbe, ReqSetHash := h\<rparr>)) (\<lambda>r.
     if Status r = StatusOK then ret True
     else if Status r = StatusDiffer then ret False
     else fail (ErrStatus (Status r))))"

definition maxPullPages :: nat where "maxPullPages = 1048576"

text \<open>\<open>pullFrom\<close>'s loop, with the pages it may still ask for.\<close>

fun pull_loop :: "'w client_io \<Rightarrow> nat \<Rightarrow> u64 \<Rightarrow> bytes \<Rightarrow> ('w, unit) call" where
  "pull_loop io 0 curTs curID = fail ErrPageBudget"
| "pull_loop io (Suc n) curTs curID =
     and_then (sync_call io (zero_req\<lparr>Op := OpPull, CurTs := curTs, CurID := curID\<rparr>)) (\<lambda>r.
       if Status r \<noteq> StatusOK then fail (ErrStatus (Status r))
       else if RespEntries r = [] then ret ()
       else let e = last (RespEntries r)
            in if \<not> posAfter (TsMs e) (entry_ID e) curTs curID then fail ErrNoAdvance
               else and_then (store_add io (RespEntries r)) (\<lambda>_. pull_loop io n (TsMs e) (entry_ID e)))"

definition pullFrom :: "'w client_io \<Rightarrow> u64 \<Rightarrow> bytes \<Rightarrow> ('w, unit) call" where
  "pullFrom io anchorTs anchorID = pull_loop io maxPullPages anchorTs anchorID"

definition sendPush :: "'w client_io \<Rightarrow> entry list \<Rightarrow> ('w, unit) call" where
  "sendPush io batch = and_then (sync_call io (zero_req\<lparr>Op := OpPush, ReqEntries := batch\<rparr>)) (\<lambda>r.
     if Status r \<noteq> StatusOK then fail (ErrStatus (Status r)) else ret ())"

text \<open>
  \<open>pushFrom\<close>'s loop has no bound of its own; here it has fuel, one more than the store has entries, which
  is shown to be enough.
\<close>

fun push_loop :: "'w client_io \<Rightarrow> nat \<Rightarrow> u64 \<Rightarrow> bytes \<Rightarrow> ('w, unit) call" where
  "push_loop io 0 curTs curID = fail OutOfFuel"
| "push_loop io (Suc n) curTs curID = (\<lambda>(c, w).
     let batch = store_EntriesAfter (cl_store c) curTs curID PageBytes
     in if batch = [] then ret () (c, w)
        else and_then (sendPush io batch) (\<lambda>_. push_loop io n (TsMs (last batch)) (entry_ID (last batch))) (c, w))"

definition pushFrom :: "'w client_io \<Rightarrow> u64 \<Rightarrow> bytes \<Rightarrow> ('w, unit) call" where
  "pushFrom io anchorTs anchorID = (\<lambda>(c, w). push_loop io (Suc (store_Len (cl_store c))) anchorTs anchorID (c, w))"

text \<open>\<open>pushEntries\<close>: a batch is filled while the next entry fits, and takes at least one.\<close>

function pushEntries :: "'w client_io \<Rightarrow> entry list \<Rightarrow> ('w, unit) call" where
  "pushEntries io [] = ret ()"
| "pushEntries io (e # es) =
     (let batch = page_from PageBytes 0 False (e # es)
      in and_then (sendPush io batch) (\<lambda>_. pushEntries io (drop (length batch) (e # es))))"
  by pat_completeness auto
termination
  by (relation "measure (\<lambda>(io, es). length es)") auto

text \<open>\<open>register\<close> is only called with a register key; without one it is the error it checks for.\<close>

definition client_register :: "'w client_io \<Rightarrow> ('w, unit) call" where
  "client_register io = (\<lambda>(c, w).
     case regChan c of
       None \<Rightarrow> (Inl ErrNoRegisterKey, c, w)
     | Some k \<Rightarrow>
         (case roundtrip io KindRegister k (RegisterPayload (cl_authKey c) (cl_ephemeral c)) (c, w) of
            (Inl e, s) \<Rightarrow> (Inl (if e = PreErr (prechannel_byte ErrBadAuth) then ErrRegisterRejected else e), s)
          | (Inr r, c, w) \<Rightarrow>
              if Status r \<noteq> StatusOK then (Inl (ErrStatus (Status r)), c, w)
              else (Inr (), c\<lparr>registered := True, everRegistered := True\<rparr>, w)))"

definition reconcileAnchor :: "nat \<Rightarrow> client \<Rightarrow> u64 \<times> bytes" where
  "reconcileAnchor round c =
     (if round \<noteq> 0 then (0, replicate 16 0)
      else case store_Newest (cl_store c) of
             Some e \<Rightarrow> if windowMs c < TsMs e then (TsMs e - windowMs c, replicate 16 0) else (0, replicate 16 0)
           | None \<Rightarrow> (0, replicate 16 0))"

definition unknownVault :: "('w, unit) call" where
  "unknownVault = (\<lambda>(c, w).
     if cl_ended c \<or> cl_ephemeral c \<and> everRegistered c then (Inl ErrVaultEnded, c, w)
     else if regChan c = None then (Inl ErrNoRegisterKey, c, w)
     else (Inr (), c\<lparr>registered := False\<rparr>, w))"

text \<open>The walk of a round whose probe differed: the window's PULL, and its PUSH if that did not suffice.\<close>

definition reconcile :: "'w client_io \<Rightarrow> u64 \<times> bytes \<Rightarrow> ('w, bool) call" where
  "reconcile io p =
     and_then (pullFrom io (fst p) (snd p)) (\<lambda>_.
     and_then (probe io) (\<lambda>inSync.
       if inSync then ret True else and_then (pushFrom io (fst p) (snd p)) (\<lambda>_. ret False)))"

definition sync_round :: "'w client_io \<Rightarrow> nat \<Rightarrow> entry list \<Rightarrow> ('w, bool) call" where
  "sync_round io round recents = (\<lambda>(c, w).
     and_then (if \<not> registered c \<and> regChan c \<noteq> None then client_register io else ret ()) (\<lambda>_.
     and_then (if round = 0 \<and> 0 < length recents then pushEntries io recents else ret ()) (\<lambda>_.
     and_then (probe io) (\<lambda>inSync.
       if inSync then ret True else (\<lambda>(c, w). reconcile io (reconcileAnchor round c) (c, w))))) (c, w))"

text \<open>The rounds from \<open>round\<close> on, \<open>n\<close> of them left.\<close>

fun sync_rounds :: "'w client_io \<Rightarrow> nat \<Rightarrow> nat \<Rightarrow> entry list \<Rightarrow> ('w, unit) call" where
  "sync_rounds io 0 round recents = fail ErrSyncStuck"
| "sync_rounds io (Suc n) round recents = (\<lambda>s.
     case sync_round io round recents s of
       (Inl e, s) \<Rightarrow>
         if e = PreErr (prechannel_byte ErrUnknownVault)
         then and_then unknownVault (\<lambda>_. sync_rounds io n (Suc round) recents) s
         else (Inl e, s)
     | (Inr inSync, s) \<Rightarrow> if inSync then (Inr (), s) else sync_rounds io n (Suc round) recents s)"

definition Sync :: "'w client_io \<Rightarrow> ('w, unit) call" where
  "Sync io = (\<lambda>(c, w).
     let recents = recent c; c = c\<lparr>recent := []\<rparr>
     in case sync_rounds io 64 0 recents (c, w) of
          (Inl e, c, w) \<Rightarrow> (Inl e, c\<lparr>recent := recents @ recent c\<rparr>, w)
        | (Inr u, c, w) \<Rightarrow> (Inr u, c, w))"

section \<open>Waiting and dropping\<close>

definition Wait :: "'w client_io \<Rightarrow> ('w, bool) call" where
  "Wait io = (\<lambda>s.
     case and_then set_hash (\<lambda>h. sync_call io (zero_req\<lparr>Op := OpWait, ReqSetHash := h\<rparr>)) s of
       (Inl e, c, w) \<Rightarrow>
         if e = PreErr (prechannel_byte ErrUnknownVault) \<and> (cl_ended c \<or> cl_ephemeral c \<and> everRegistered c)
         then (Inl ErrVaultEnded, c, w) else (Inl e, c, w)
     | (Inr r, c, w) \<Rightarrow>
         if Status r = StatusDiffer then (Inr True, c, w)
         else if Status r = StatusOK then (Inr False, c, w)
         else if Status r = StatusBadRequest then (Inl ErrWaitUnsupported, c, w)
         else (Inl (ErrStatus (Status r)), c, w))"

definition Drop :: "'w client_io \<Rightarrow> ('w, unit) call" where
  "Drop io = (\<lambda>s.
     case sync_call io (zero_req\<lparr>Op := OpDrop\<rparr>) s of
       (Inl e, c, w) \<Rightarrow> (Inl (if e = PreErr (prechannel_byte ErrUnknownVault) then ErrVaultEnded else e), c, w)
     | (Inr r, c, w) \<Rightarrow>
         if Status r = StatusOK then (Inr (), c\<lparr>cl_ended := True\<rparr>, w)
         else if Status r = StatusBadRequest then (Inl ErrNotEphemeral, c, w)
         else (Inl (ErrStatus (Status r)), c, w))"

end
