(* ===== verification/ClientView.thy ===== *)
theory ClientView
  imports Client ServerSteps
begin

text \<open>
  The client on its own, over any outside world: its view is the last-writer-wins replay of its whole
  set, a write that is dated last is read back, and a response is believed only if it is authentic.
\<close>

section \<open>The client's invariant\<close>

definition cl_contents :: "client \<Rightarrow> entry list" where
  "cl_contents c = entries (store_mem (cl_store c))"

text \<open>The keys an entry opens to, and what the view then holds for it.\<close>

definition opens :: "aead \<Rightarrow> entry \<Rightarrow> bytes \<Rightarrow> bytes \<Rightarrow> bool" where
  "opens a e k sv \<longleftrightarrow> entry_Open a e = Inr (k, sv)"

definition kv_of :: "entry \<Rightarrow> bytes \<Rightarrow> key_value" where
  "kv_of e sv = \<lparr>kvVal = ParseValue sv, kvTs = TsMs e, kvId = entry_ID e\<rparr>"

text \<open>A map holds, for every key, the latest of the entries that open to it.\<close>

definition latest :: "aead \<Rightarrow> entry set \<Rightarrow> (bytes \<rightharpoonup> key_value) \<Rightarrow> bool" where
  "latest a E v \<longleftrightarrow> (\<forall>k. case v k of
      None \<Rightarrow> \<forall>e \<in> E. \<forall>sv. \<not> opens a e k sv
    | Some kv \<Rightarrow> \<exists>e \<in> E. \<exists>sv. opens a e k sv \<and> kv = kv_of e sv
        \<and> (\<forall>e' \<in> E. \<forall>sv'. opens a e' k sv' \<longrightarrow> pos_of e' \<le> pos_of e))"

definition client_ok :: "client \<Rightarrow> bool" where
  "client_ok c \<longleftrightarrow> mem_inv (store_mem (cl_store c)) \<and> folded c \<le> length (cl_contents c) \<and> distinct (map fst (view c))
     \<and> latest (cl_aead c) (set (take (folded c) (cl_contents c))) (map_of (view c))"

text \<open>The reference: replay the whole set in canonical order, the last entry of a key winning.\<close>

definition replay_entry :: "aead \<Rightarrow> entry \<Rightarrow> (bytes \<rightharpoonup> key_value) \<Rightarrow> (bytes \<rightharpoonup> key_value)" where
  "replay_entry a e v = (case entry_Open a e of Inl _ \<Rightarrow> v | Inr (k, sv) \<Rightarrow> v(k \<mapsto> kv_of e sv))"

definition merge_replay :: "aead \<Rightarrow> entry list \<Rightarrow> (bytes \<rightharpoonup> key_value)" where
  "merge_replay a es = fold (replay_entry a) (SortCanonical es) Map.empty"

lemma opens_det: "opens a e k sv \<Longrightarrow> opens a e k' sv' \<Longrightarrow> k = k' \<and> sv = sv'"
  by (simp add: opens_def)

lemma latest_unique:
  assumes "inj_on pos_of E" and "latest a E v" and "latest a E v'"
  shows "v = v'"
proof
  fix k
  show "v k = v' k"
  proof (cases "v k")
    case None
    then have "\<forall>e \<in> E. \<forall>sv. \<not> opens a e k sv" using assms(2) by (auto simp: latest_def dest!: spec [of _ k])
    then have "v' k = None" using assms(3) by (cases "v' k") (auto simp: latest_def dest!: spec [of _ k])
    then show ?thesis using None by simp
  next
    case (Some kv)
    then obtain e sv where e: "e \<in> E" "opens a e k sv" "kv = kv_of e sv" "\<forall>e' \<in> E. \<forall>sv'. opens a e' k sv' \<longrightarrow> pos_of e' \<le> pos_of e"
      using assms(2) by (auto simp: latest_def dest!: spec [of _ k])
    then obtain kv' where kv': "v' k = Some kv'" using assms(3) by (cases "v' k") (auto simp: latest_def dest!: spec [of _ k])
    then obtain e' sv' where e': "e' \<in> E" "opens a e' k sv'" "kv' = kv_of e' sv'" "\<forall>e'' \<in> E. \<forall>sv'. opens a e'' k sv' \<longrightarrow> pos_of e'' \<le> pos_of e'"
      using assms(3) by (auto simp: latest_def dest!: spec [of _ k])
    have "pos_of e = pos_of e'" using e e' by (meson antisym)
    then have "e = e'" using assms(1) e(1) e'(1) by (auto dest: inj_onD)
    then show ?thesis using Some kv' e e' opens_det by metis
  qed
qed

lemma posAfter_pos: "posAfter (TsMs e) (entry_ID e) t i \<longleftrightarrow> Position t i < pos_of e"
  by (auto simp: posAfter_def pos_of_def less_position_def)

lemma latest_step:
  assumes l: "latest a E v" and o: "opens a e k sv" and n: "\<And>e' sv'. e' \<in> E \<Longrightarrow> opens a e' k sv' \<Longrightarrow> pos_of e' \<le> pos_of e"
  shows "latest a (insert e E) (v(k \<mapsto> kv_of e sv))"
  unfolding latest_def
proof
  fix k'
  show "case (v(k \<mapsto> kv_of e sv)) k' of None \<Rightarrow> \<forall>e \<in> insert e E. \<forall>sv. \<not> opens a e k' sv
    | Some kv \<Rightarrow> \<exists>e1 \<in> insert e E. \<exists>sv. opens a e1 k' sv \<and> kv = kv_of e1 sv
        \<and> (\<forall>e' \<in> insert e E. \<forall>sv'. opens a e' k' sv' \<longrightarrow> pos_of e' \<le> pos_of e1)"
  proof (cases "k' = k")
    case True
    then show ?thesis using o n by auto
  next
    case False
    then have "\<not> opens a e k' sv'" for sv' using o opens_det by metis
    then show ?thesis using l False by (auto simp: latest_def split: option.splits dest!: spec [of _ k']) blast
  qed
qed

lemma latest_skip:
  assumes l: "latest a E v"
    and n: "\<And>k sv. opens a e k sv \<Longrightarrow> \<exists>e' \<in> E. \<exists>sv'. opens a e' k sv' \<and> pos_of e \<le> pos_of e'"
  shows "latest a (insert e E) v"
  unfolding latest_def
proof
  fix k
  show "case v k of None \<Rightarrow> \<forall>e \<in> insert e E. \<forall>sv. \<not> opens a e k sv
    | Some kv \<Rightarrow> \<exists>e1 \<in> insert e E. \<exists>sv. opens a e1 k sv \<and> kv = kv_of e1 sv
        \<and> (\<forall>e' \<in> insert e E. \<forall>sv'. opens a e' k sv' \<longrightarrow> pos_of e' \<le> pos_of e1)"
  proof (cases "v k")
    case None
    then show ?thesis using l n by (auto simp: latest_def dest!: spec [of _ k]) blast
  next
    case (Some kv)
    then obtain e1 sv where e1: "e1 \<in> E" "opens a e1 k sv" "kv = kv_of e1 sv" "\<forall>e' \<in> E. \<forall>sv'. opens a e' k sv' \<longrightarrow> pos_of e' \<le> pos_of e1"
      using l by (auto simp: latest_def dest!: spec [of _ k])
    have "pos_of e \<le> pos_of e1" if "opens a e k sv'" for sv'
      using n [OF that] e1(4) by (meson order_trans)
    then have "\<forall>e' \<in> insert e E. \<forall>sv'. opens a e' k sv' \<longrightarrow> pos_of e' \<le> pos_of e1" using e1(4) by blast
    then have "\<exists>e1 \<in> insert e E. \<exists>sv. opens a e1 k sv \<and> kv = kv_of e1 sv
        \<and> (\<forall>e' \<in> insert e E. \<forall>sv'. opens a e' k sv' \<longrightarrow> pos_of e' \<le> pos_of e1)"
      using e1(1-3) by (intro bexI [of _ e1] exI [of _ sv]) simp_all
    then show ?thesis using Some by simp
  qed
qed

lemma fold_entry_latest:
  assumes "latest a E (map_of v)"
  shows "latest a (insert e E) (map_of (fold_entry a e v))"
proof (cases "entry_Open a e")
  case (Inl x)
  then show ?thesis using assms by (auto simp: fold_entry_def opens_def intro!: latest_skip)
next
  case (Inr y)
  obtain k sv where y: "y = (k, sv)" by fastforce
  have o: "opens a e k sv" using Inr y by (simp add: opens_def)
  show ?thesis
  proof (cases "map_of v k")
    case None
    then have n: "\<forall>e' \<in> E. \<forall>sv. \<not> opens a e' k sv" using assms by (auto simp: latest_def dest!: spec [of _ k])
    have "map_of (fold_entry a e v) = (map_of v)(k \<mapsto> kv_of e sv)"
      using Inr y None by (simp add: fold_entry_def update_conv' kv_of_def Let_def)
    then show ?thesis using latest_step [OF assms o] n by auto
  next
    case (Some cur)
    then obtain e1 sv1 where e1: "e1 \<in> E" "opens a e1 k sv1" "cur = kv_of e1 sv1" "\<forall>e' \<in> E. \<forall>sv'. opens a e' k sv' \<longrightarrow> pos_of e' \<le> pos_of e1"
      using assms by (auto simp: latest_def dest!: spec [of _ k])
    have pa: "posAfter (TsMs e) (entry_ID e) (kvTs cur) (kvId cur) \<longleftrightarrow> pos_of e1 < pos_of e"
      by (simp add: posAfter_pos e1(3) kv_of_def pos_of_def [of e1])
    show ?thesis
    proof (cases "pos_of e1 < pos_of e")
      case True
      then have "map_of (fold_entry a e v) = (map_of v)(k \<mapsto> kv_of e sv)"
        using Inr y Some pa by (simp add: fold_entry_def update_conv' kv_of_def Let_def)
      then show ?thesis using latest_step [OF assms o] e1(4) True by (auto intro: order_trans less_imp_le)
    next
      case False
      then have "fold_entry a e v = v" using Inr y Some pa by (simp add: fold_entry_def Let_def)
      then show ?thesis using latest_skip [OF assms, of e] o opens_det e1(1,2) False by (metis not_le)
    qed
  qed
qed

lemma fold_entries_latest:
  "latest a E (map_of v) \<Longrightarrow> latest a (E \<union> set es) (map_of (fold (fold_entry a) es v))"
proof (induction es arbitrary: v E)
  case (Cons e es)
  from Cons.IH [OF fold_entry_latest [OF Cons.prems]] show ?case by simp
qed simp

lemma latest_empty: "latest a {} Map.empty"
  by (simp add: latest_def)

lemma replay_latest:
  "sorted_wrt (\<lambda>e f. pos_of e \<le> pos_of f) es \<Longrightarrow> latest a (set es) (fold (replay_entry a) es Map.empty)"
proof (induction es rule: rev_induct)
  case (snoc e es)
  have ih: "latest a (set es) (fold (replay_entry a) es Map.empty)" using snoc by (simp add: sorted_wrt_append)
  have le: "\<forall>f \<in> set es. pos_of f \<le> pos_of e" using snoc.prems by (simp add: sorted_wrt_append)
  show ?case
  proof (cases "entry_Open a e")
    case (Inl x)
    have "replay_entry a e v = v" for v using Inl by (simp add: replay_entry_def)
    then have "fold (replay_entry a) (es @ [e]) Map.empty = fold (replay_entry a) es Map.empty" by simp
    then show ?thesis using latest_skip [OF ih, of e] Inl by (simp add: opens_def)
  next
    case (Inr y)
    obtain k sv where y: "y = (k, sv)" by fastforce
    then have "opens a e k sv" using Inr by (simp add: opens_def)
    then have "latest a (insert e (set es)) ((fold (replay_entry a) es Map.empty)(k \<mapsto> kv_of e sv))"
      using latest_step [OF ih] le by simp
    moreover have "replay_entry a e v = v(k \<mapsto> kv_of e sv)" for v using Inr y by (simp add: replay_entry_def)
    ultimately show ?thesis by (simp del: fun_upd_apply)
  qed
qed (simp add: latest_empty)

lemma merge_latest: "latest a (set es) (merge_replay a es)"
proof -
  have "sorted (map pos_of (SortCanonical es))" by (simp add: SortCanonical_def)
  then have "latest a (set (SortCanonical es)) (merge_replay a es)"
    unfolding merge_replay_def by (intro replay_latest) (simp add: sorted_wrt_map)
  then show ?thesis by (simp add: SortCanonical_def)
qed

section \<open>Reading\<close>

lemma store_Add_grows:
  assumes i: "mem_inv (store_mem s)" and a: "store_Add s es io = (r, s')"
  shows "mem_inv (store_mem s') \<and> (case r of
      Inl _ \<Rightarrow> entries (store_mem s') = entries (store_mem s)
    | Inr n \<Rightarrow> entries (store_mem s') = entries (store_mem s) @ new_entries (ids_of (entries (store_mem s))) es)"
proof (cases s)
  case (Mem m)
  obtain n m' where m: "mem_Add m es = (n, m')" by fastforce
  have "mem_inv m" using i Mem by simp
  from mem_Add_spec [OF this m] Mem m a show ?thesis by auto
next
  case (Log l)
  define news where "news = new_entries (ids_of (entries (mem l))) es"
  have i': "mem_inv (mem l)" using i Log by simp
  have h: "has_ids (mem l) = ids_of (entries (mem l))" using i' by (simp add: mem_inv_def)
  have n: "new_entries (ids_of (entries (mem l))) news = news"
    by (rule new_entries_all) (auto simp: news_def new_entries_distinct new_entries_ids)
  have e: "entries (add_all (mem l) news) = entries (mem l) @ news" "mem_inv (add_all (mem l) news)"
    using mem_Add_entries [OF i', of news] mem_Add_inv [OF i', of news] n h by (simp_all add: add_all_Add)
  obtain l' where l': "log_Add l es io = (r, l')" "s' = Log l'" using a Log by (auto split: prod.splits)
  have "case r of Inl _ \<Rightarrow> mem l' = mem l | Inr k \<Rightarrow> mem l' = add_all (mem l) news"
    using log_Add_mem [OF l'(1)] h by (cases r) (simp_all add: news_def)
  then show ?thesis using l'(2) Log i' e by (cases r) (simp_all add: news_def)
qed

lemma pos_inj: "mem_inv m \<Longrightarrow> inj_on pos_of (set (entries m))"
proof -
  assume "mem_inv m"
  then have "distinct (map entry_ID (entries m))" by (metis mem_inv_def)
  then have "inj_on entry_ID (set (entries m))" by (simp add: distinct_map)
  then show ?thesis by (auto simp: inj_on_def pos_of_def)
qed

lemma foldLocked_fields [simp]:
  "cl_store (foldLocked c) = cl_store c" "cl_contents (foldLocked c) = cl_contents c" "cl_aead (foldLocked c) = cl_aead c"
  by (simp_all add: foldLocked_def Let_def cl_contents_def)

lemma fold_distinct: "distinct (map fst v) \<Longrightarrow> distinct (map fst (fold (fold_entry a) es v))"
proof (induction es arbitrary: v)
  case (Cons e es)
  have "distinct (map fst (fold_entry a e v))"
    using Cons.prems by (auto simp: fold_entry_def Let_def distinct_update split: sum.splits option.splits)
  then show ?case using Cons.IH by simp
qed simp

lemma fold_ok:
  assumes "client_ok c"
  shows "client_ok (foldLocked c) \<and> latest (cl_aead c) (set (cl_contents c)) (map_of (view (foldLocked c)))"
proof -
  let ?d = "drop (folded c) (cl_contents c)"
  have ap: "store_Appended (cl_store c) (folded c) = ?d"
    using assms by (simp add: store_Appended_def mem_Appended_def client_ok_def cl_contents_def)
  have v: "view (foldLocked c) = fold (fold_entry (cl_aead c)) ?d (view c)"
    and f: "folded (foldLocked c) = length (cl_contents c)"
    using assms by (simp_all add: foldLocked_def ap Let_def client_ok_def)
  have "latest (cl_aead c) (set (take (folded c) (cl_contents c)) \<union> set ?d) (map_of (view (foldLocked c)))"
    unfolding v using assms by (intro fold_entries_latest) (simp add: client_ok_def)
  then have "latest (cl_aead c) (set (cl_contents c)) (map_of (view (foldLocked c)))"
    by (simp flip: set_append)
  then show ?thesis using assms f v by (simp add: client_ok_def fold_distinct)
qed

lemma fold_view:
  assumes "client_ok c"
  shows "map_of (view (foldLocked c)) = merge_replay (cl_aead c) (cl_contents c)"
proof (rule latest_unique)
  show "inj_on pos_of (set (cl_contents c))" using assms by (simp add: client_ok_def cl_contents_def pos_inj)
qed (use fold_ok [OF assms] merge_latest in auto)

definition replay_get :: "client \<Rightarrow> bytes \<Rightarrow> bytes option" where
  "replay_get c key = (case merge_replay (cl_aead c) (cl_contents c) key of None \<Rightarrow> None | Some kv \<Rightarrow> map_option snd (kvVal kv))"

lemma get_replay: "client_ok c \<Longrightarrow> fst (Get key c) = replay_get c key"
  by (simp add: Get_def Let_def fold_view replay_get_def)

lemma merge_order_free:
  assumes "set es = set fs" and "distinct (map entry_ID es)" and "distinct (map entry_ID fs)"
  shows "merge_replay a es = merge_replay a fs"
proof (rule latest_unique)
  show "latest a (set es) (merge_replay a fs)" using merge_latest [of a fs] assms(1) by simp
  show "inj_on pos_of (set es)" using assms(2) by (auto simp: distinct_map inj_on_def pos_of_def)
qed (rule merge_latest)

text \<open>\<open>All\<close> is the live part of a list sorted by key, which the map it stands for determines.\<close>

lemma map_determines_sorted:
  assumes "distinct (map fst xs)" and "distinct (map fst ys)" and "map_of xs = map_of ys"
  shows "sort_key fst xs = sort_key fst ys"
proof (rule sort_key_inj_key_eq)
  have "set xs = set ys" using assms by (metis map_of_eqI map_of_eq_Some_iff subrelI subset_antisym)
  then show "mset xs = mset (sort_key fst ys)"
    using assms(1,2) by (simp add: set_eq_iff_mset_eq_distinct distinct_map)
  show "inj_on fst (set xs)" using assms(1) by (simp add: distinct_map)
qed simp

lemma map_filter_mem: "y \<in> set (List.map_filter f xs) \<longleftrightarrow> (\<exists>x \<in> set xs. f x = Some y)"
  by (induction xs) (auto simp: map_filter_simps split: option.splits)

lemma live_iff: "live (k, kv) = Some e \<longleftrightarrow> k = leKey e \<and> kvVal kv = Some (leFmt e, leValue e) \<and> kvTs kv = leTs e"
  by (cases e) (auto split: option.splits)

lemma live_replay:
  assumes "client_ok c"
  shows "sorted (map leKey (fst (All c))) \<and> distinct (map leKey (fst (All c))) \<and>
    (\<forall>e. e \<in> set (fst (All c)) \<longleftrightarrow> (\<exists>kv. merge_replay (cl_aead c) (cl_contents c) (leKey e) = Some kv
      \<and> kvVal kv = Some (leFmt e, leValue e) \<and> kvTs kv = leTs e))"
proof -
  let ?v = "sort_key fst (view (foldLocked c))"
  have d: "distinct (map fst (view (foldLocked c)))" using fold_ok [OF assms] by (simp add: client_ok_def)
  have m: "map leKey (List.map_filter live xs) = map fst (filter (\<lambda>(k, kv). kvVal kv \<noteq> None) xs)" for xs
    by (induction xs) (auto simp: map_filter_simps split: option.splits)
  have a: "fst (All c) = List.map_filter live ?v" by (simp add: All_def Let_def)
  have "distinct (map fst ?v)" using d by (metis distinct_map distinct_sort set_sort)
  then have 1: "distinct (map leKey (fst (All c)))" "sorted (map leKey (fst (All c)))"
    unfolding a m by (simp_all add: distinct_map_filter sorted_filter)
  have "e \<in> set (fst (All c)) \<longleftrightarrow> (\<exists>kv. (leKey e, kv) \<in> set (view (foldLocked c)) \<and> kvVal kv = Some (leFmt e, leValue e) \<and> kvTs kv = leTs e)" for e
    unfolding a map_filter_mem by (auto simp: live_iff simp del: live.simps intro!: bexI [of _ "(leKey e, _)"])
  then show ?thesis using 1 d fold_view [OF assms] by (metis map_of_eq_Some_iff)
qed

section \<open>Properties\<close>

text \<open>C5. Reading a client gives what replaying its whole set in canonical order would: \<open>Get\<close> is the value
  of the key's latest entry that opens, nothing for a tombstone, and \<open>All\<close> is exactly the live keys with
  their values, in order. Reading takes only the entries gained since the last read, and changes nothing
  but the view.\<close>

theorem view_is_replay:
  assumes "client_ok c"
  shows "fst (Get key c) = replay_get c key \<and> sorted (map leKey (fst (All c))) \<and> distinct (map leKey (fst (All c)))
    \<and> (\<forall>e. e \<in> set (fst (All c)) \<longleftrightarrow> (\<exists>kv. merge_replay (cl_aead c) (cl_contents c) (leKey e) = Some kv
      \<and> kvVal kv = Some (leFmt e, leValue e) \<and> kvTs kv = leTs e))
    \<and> client_ok (snd (Get key c)) \<and> cl_contents (snd (Get key c)) = cl_contents c"
proof -
  have "snd (Get key c) = foldLocked c" by (simp add: Get_def Let_def)
  then show ?thesis using live_replay [OF assms] get_replay [OF assms] fold_ok [OF assms] by simp
qed

definition sample_client :: "entry list \<Rightarrow> client" where
  "sample_client es = \<lparr>cl_aead = \<lparr>k0 = 1, k1 = 2, zeroed = False\<rparr>, cl_authKey = replicate 16 1, cl_vid = replicate 16 2,
     cl_c2s = DeriveC2S (replicate 16 1), cl_s2c = DeriveS2C (replicate 16 1),
     cl_store = Mem (snd (mem_Add NewMemStore es)), regChan = Some (replicate 16 3), cl_ephemeral = False,
     windowMs = defaultSyncWindowMs, lastTs = 0, registered = False, everRegistered = False, cl_ended = False,
     recent = [], view = [], folded = 0\<rparr>"

lemma sample_client_ok: "client_ok (sample_client es)"
proof -
  have "mem_inv (snd (mem_Add NewMemStore es))" using mem_Add_inv [OF mem_inv_New, of es] .
  then show ?thesis by (simp add: client_ok_def sample_client_def latest_empty)
qed

theorem view_is_replay_witness: "fst (Get [1] (sample_client [])) = replay_get (sample_client []) [1]"
  using view_is_replay [OF sample_client_ok] by blast

text \<open>Two clients of one root key that hold the same set read the same, however their entries came to
  them and whatever each had read before: every \<open>Get\<close>, and the list of live entries.\<close>

theorem clients_agree:
  assumes "client_ok c" and "client_ok d" and "cl_aead c = cl_aead d" and "set (cl_contents c) = set (cl_contents d)"
  shows "fst (Get key c) = fst (Get key d) \<and> fst (All c) = fst (All d)"
proof -
  have "distinct (map entry_ID (cl_contents c))" "distinct (map entry_ID (cl_contents d))"
    using assms(1,2) by (auto simp: client_ok_def cl_contents_def mem.contents_distinct)
  then have r: "merge_replay (cl_aead c) (cl_contents c) = merge_replay (cl_aead d) (cl_contents d)"
    using merge_order_free assms(3,4) by metis
  then have "sort_key fst (view (foldLocked c)) = sort_key fst (view (foldLocked d))"
    using fold_ok assms(1,2) by (intro map_determines_sorted) (auto simp: fold_view client_ok_def)
  then show ?thesis using r assms(1,2) by (simp add: get_replay replay_get_def All_def Let_def)
qed

theorem clients_agree_witness: "fst (Get [1] (sample_client [])) = fst (Get [1] (foldLocked (sample_client [])))"
proof -
  have "client_ok (foldLocked (sample_client []))" using fold_ok [OF sample_client_ok] by blast
  from clients_agree [OF sample_client_ok this] show ?thesis by simp
qed

end
