(* ===== verification/ClientSafe.thy ===== *)
theory ClientSafe
  imports ClientView
begin

text \<open>
  What a client does to its own state, whatever the server, the disk and the network do: every call keeps
  its invariant and its keys, and its set only grows at the end. The predicates \<open>safe\<close> and \<open>quiet\<close> on
  calls are closed under composition, so each operation is a composition of the closure rules.
\<close>

section \<open>Safe calls\<close>

definition keys_ok :: "client \<Rightarrow> bool" where
  "keys_ok c \<longleftrightarrow> \<not> zeroed (cl_aead c) \<and> length (cl_vid c) = 16 \<and> cl_c2s c = DeriveC2S (cl_authKey c)
     \<and> cl_s2c c = DeriveS2C (cl_authKey c) \<and> length (cl_authKey c) = 16"

definition same_keys :: "client \<Rightarrow> client \<Rightarrow> bool" where
  "same_keys c c' \<longleftrightarrow> cl_aead c' = cl_aead c \<and> cl_authKey c' = cl_authKey c \<and> cl_vid c' = cl_vid c \<and> cl_c2s c' = cl_c2s c
     \<and> cl_s2c c' = cl_s2c c \<and> regChan c' = regChan c \<and> cl_ephemeral c' = cl_ephemeral c \<and> windowMs c' = windowMs c"

definition grows :: "client \<Rightarrow> client \<Rightarrow> bool" where
  "grows c c' \<longleftrightarrow> client_ok c' \<and> same_keys c c' \<and> (\<exists>ts. cl_contents c' = cl_contents c @ ts)
     \<and> view c' = view c \<and> folded c' = folded c"

definition safe :: "('w, 'a) call \<Rightarrow> bool" where
  "safe m \<longleftrightarrow> (\<forall>c w r c' w'. client_ok c \<longrightarrow> m (c, w) = (r, c', w') \<longrightarrow> grows c c')"

text \<open>A call that also leaves the client's clock and its unsent writes alone.\<close>

definition quiet :: "('w, 'a) call \<Rightarrow> bool" where
  "quiet m \<longleftrightarrow> (\<forall>c w r c' w'. client_ok c \<longrightarrow> m (c, w) = (r, c', w') \<longrightarrow>
     grows c c' \<and> recent c' = recent c \<and> lastTs c' = lastTs c)"

lemma quietD: "quiet m \<Longrightarrow> client_ok c \<Longrightarrow> m (c, w) = (r, c', w') \<Longrightarrow> grows c c' \<and> recent c' = recent c \<and> lastTs c' = lastTs c"
  unfolding quiet_def by blast

lemma safeD: "safe m \<Longrightarrow> client_ok c \<Longrightarrow> m (c, w) = (r, c', w') \<Longrightarrow> grows c c'"
  unfolding safe_def by blast

lemma grows_refl: "client_ok c \<Longrightarrow> grows c c"
  by (simp add: grows_def same_keys_def)

lemma grows_trans: "grows a b \<Longrightarrow> grows b c \<Longrightarrow> grows a c"
  by (auto simp: grows_def same_keys_def)

lemma grows_ok: "grows a b \<Longrightarrow> client_ok b"
  by (simp add: grows_def)

lemma keys_ok_same: "same_keys c c' \<Longrightarrow> keys_ok c' = keys_ok c"
  by (simp add: same_keys_def keys_ok_def)

lemma grows_fields [simp]:
  "grows c (c'\<lparr>recent := x\<rparr>) = grows c c'" "grows c (c'\<lparr>lastTs := t\<rparr>) = grows c c'"
  "grows c (c'\<lparr>registered := b\<rparr>) = grows c c'" "grows c (c'\<lparr>everRegistered := b\<rparr>) = grows c c'"
  "grows c (c'\<lparr>cl_ended := b\<rparr>) = grows c c'"
  by (simp_all add: grows_def same_keys_def client_ok_def cl_contents_def)

lemma ok_fields [simp]:
  "client_ok (c\<lparr>recent := x\<rparr>) = client_ok c" "client_ok (c\<lparr>lastTs := t\<rparr>) = client_ok c"
  "cl_contents (c\<lparr>recent := x\<rparr>) = cl_contents c" "cl_contents (c\<lparr>lastTs := t\<rparr>) = cl_contents c"
  by (simp_all add: client_ok_def cl_contents_def)

lemma and_then_run:
  "and_then m f s = (r, s') \<longleftrightarrow> (\<exists>e. m s = (Inl e, s') \<and> r = Inl e) \<or> (\<exists>a s1. m s = (Inr a, s1) \<and> f a s1 = (r, s'))"
  by (auto simp: and_then_def split: prod.splits sum.splits)

lemma quiet_safe: "quiet m \<Longrightarrow> safe m"
  by (auto simp: quiet_def safe_def)

lemma quiet_ret [intro]: "quiet (ret a)" and quiet_fail [intro]: "quiet (fail e)"
  by (auto simp: quiet_def ret_def fail_def grows_refl)

lemma quiet_then [intro]: "quiet m \<Longrightarrow> (\<And>a. quiet (f a)) \<Longrightarrow> quiet (and_then m f)"
  unfolding quiet_def
proof (intro allI impI)
  fix c w r c' w'
  assume m: "\<forall>c w r c' w'. client_ok c \<longrightarrow> m (c, w) = (r, c', w') \<longrightarrow> grows c c' \<and> recent c' = recent c \<and> lastTs c' = lastTs c"
    and f: "\<And>a. \<forall>c w r c' w'. client_ok c \<longrightarrow> f a (c, w) = (r, c', w') \<longrightarrow> grows c c' \<and> recent c' = recent c \<and> lastTs c' = lastTs c"
    and ok: "client_ok c" and run: "and_then m f (c, w) = (r, c', w')"
  from run show "grows c c' \<and> recent c' = recent c \<and> lastTs c' = lastTs c"
    unfolding and_then_run
  proof (elim disjE exE conjE)
    fix a s1 assume a: "m (c, w) = (Inr a, s1)" "f a s1 = (r, c', w')"
    obtain c1 w1 where s1: "s1 = (c1, w1)" by fastforce
    have g: "grows c c1 \<and> recent c1 = recent c \<and> lastTs c1 = lastTs c" using m ok a(1) s1 by blast
    then have "grows c1 c' \<and> recent c' = recent c1 \<and> lastTs c' = lastTs c1" using f grows_ok a(2) s1 by blast
    then show ?thesis using g grows_trans by metis
  qed (use m ok in blast)
qed

lemma safe_then [intro]: "safe m \<Longrightarrow> (\<And>a. safe (f a)) \<Longrightarrow> safe (and_then m f)"
  unfolding safe_def
proof (intro allI impI)
  fix c w r c' w'
  assume m: "\<forall>c w r c' w'. client_ok c \<longrightarrow> m (c, w) = (r, c', w') \<longrightarrow> grows c c'"
    and f: "\<And>a. \<forall>c w r c' w'. client_ok c \<longrightarrow> f a (c, w) = (r, c', w') \<longrightarrow> grows c c'"
    and ok: "client_ok c" and run: "and_then m f (c, w) = (r, c', w')"
  from run show "grows c c'"
    unfolding and_then_run
  proof (elim disjE exE conjE)
    fix a s1 assume a: "m (c, w) = (Inr a, s1)" "f a s1 = (r, c', w')"
    obtain c1 w1 where s1: "s1 = (c1, w1)" by fastforce
    then show ?thesis using m f ok a grows_ok grows_trans by metis
  qed (use m ok in blast)
qed

section \<open>The operations\<close>

lemma roundtrip_client: "roundtrip io k sk p (c, w) = (r, c', w') \<Longrightarrow> c' = c"
  by (auto simp: roundtrip_def split: prod.splits sum.splits option.splits)

lemma quiet_sync_call [intro]: "quiet (sync_call io req)"
  by (auto simp: quiet_def sync_call_def grows_refl dest!: roundtrip_client)

lemma store_keeps:
  assumes ok: "client_ok c" and m: "mem_inv (store_mem s)" and e: "entries (store_mem s) = cl_contents c @ ts"
  shows "grows c (c\<lparr>cl_store := s\<rparr>)"
proof -
  have "cl_contents (c\<lparr>cl_store := s\<rparr>) = cl_contents c @ ts" using e by (simp add: cl_contents_def)
  then show ?thesis using ok m by (simp add: grows_def same_keys_def client_ok_def)
qed

lemma quiet_set_hash [intro]: "quiet set_hash"
  unfolding quiet_def
proof (intro allI impI)
  fix c and w :: 'a and r c' w' assume ok: "client_ok c" and run: "set_hash (c, w) = (r, c', w')"
  obtain h s where s: "store_SetHash (cl_store c) = (h, s)" by fastforce
  have "mem_inv (store_mem (cl_store c))" using ok by (simp add: client_ok_def)
  from store_SetHash_keeps [OF this s] have "mem_inv (store_mem s)" "entries (store_mem s) = cl_contents c @ []"
    by (simp_all add: cl_contents_def)
  from store_keeps [OF ok this] run s show "grows c c' \<and> recent c' = recent c \<and> lastTs c' = lastTs c"
    by (auto simp: set_hash_def)
qed

lemma store_add_run:
  assumes ok: "client_ok c" and run: "store_add io es (c, w) = (r, c', w')"
  shows "grows c c' \<and> recent c' = recent c \<and> lastTs c' = lastTs c \<and> registered c' = registered c \<and> (case r of
      Inl e \<Rightarrow> e = ErrStoreAdd \<and> cl_contents c' = cl_contents c
    | Inr _ \<Rightarrow> cl_contents c' = cl_contents c @ new_entries (ids_of (cl_contents c)) es)"
proof -
  obtain d w1 where d: "cl_disk io w = (d, w1)" by fastforce
  obtain x s where s: "store_Add (cl_store c) es d = (x, s)" by fastforce
  have "mem_inv (store_mem (cl_store c))" using ok by (simp add: client_ok_def)
  note g = store_Add_grows [OF this s]
  have c': "c' = c\<lparr>cl_store := s\<rparr>" and r: "r = (case x of Inl _ \<Rightarrow> Inl ErrStoreAdd | Inr _ \<Rightarrow> Inr ())"
    using run d s by (auto simp: store_add_def split: sum.splits)
  show ?thesis
  proof (cases x)
    case (Inl e)
    then have "mem_inv (store_mem s)" "entries (store_mem s) = cl_contents c @ []" using g by (simp_all add: cl_contents_def)
    from store_keeps [OF ok this] show ?thesis using Inl g c' r by (simp add: cl_contents_def)
  next
    case (Inr n)
    then have "mem_inv (store_mem s)" "entries (store_mem s) = cl_contents c @ new_entries (ids_of (cl_contents c)) es"
      using g by (simp_all add: cl_contents_def)
    from store_keeps [OF ok this] this(2) show ?thesis using Inr c' r by (simp add: cl_contents_def)
  qed
qed

lemma quiet_store_add [intro]: "quiet (store_add io es)"
  unfolding quiet_def by (intro allI impI) (drule (1) store_add_run, simp)

lemma quiet_if [intro]: "quiet m \<Longrightarrow> quiet n \<Longrightarrow> quiet (if b then m else n)"
  by simp

lemma quiet_probe [intro]: "quiet (probe io)"
  unfolding probe_def by (intro quiet_then quiet_set_hash quiet_sync_call quiet_if quiet_ret quiet_fail)

lemma quiet_pull_loop [intro]: "quiet (pull_loop io n t i)"
proof (induction n arbitrary: t i)
  case (Suc n)
  show ?case unfolding pull_loop.simps Let_def
    by (intro quiet_then quiet_sync_call quiet_if quiet_ret quiet_fail quiet_store_add Suc.IH)
qed auto

lemma quiet_sendPush [intro]: "quiet (sendPush io b)"
  unfolding sendPush_def by (intro quiet_then quiet_sync_call quiet_if quiet_ret quiet_fail)

lemma quiet_dep: "(\<And>c. quiet (f c)) \<Longrightarrow> quiet (\<lambda>(c, w). f c (c, w))"
  unfolding quiet_def by auto

lemma quiet_push_loop [intro]: "quiet (push_loop io n t i)"
proof (induction n arbitrary: t i)
  case (Suc n)
  have "quiet (\<lambda>(c, w). (let batch = store_EntriesAfter (cl_store c) t i PageBytes
     in if batch = [] then ret ()
        else and_then (sendPush io batch) (\<lambda>_. push_loop io n (TsMs (last batch)) (entry_ID (last batch)))) (c, w))"
    unfolding Let_def by (intro quiet_dep quiet_if quiet_then quiet_ret quiet_sendPush Suc.IH)
  then show ?case by (simp add: Let_def if_distribR cong: if_cong)
qed auto

lemma quiet_pushEntries [intro]: "quiet (pushEntries io es)"
proof (induction io es rule: pushEntries.induct)
  case (2 io e es)
  then show ?case unfolding pushEntries.simps Let_def by (intro quiet_then quiet_sendPush) auto
qed (simp add: quiet_ret)

lemma quiet_register [intro]: "quiet (client_register io)"
  unfolding quiet_def client_register_def
  by (auto simp: grows_refl split: option.splits prod.splits sum.splits if_splits dest!: roundtrip_client)

lemma quiet_unknown [intro]: "quiet unknownVault"
  by (auto simp: quiet_def unknownVault_def grows_refl split: if_splits)

lemma quiet_pull_from [intro]: "quiet (pullFrom io t i)"
  unfolding pullFrom_def by (rule quiet_pull_loop)

lemma quiet_push_from [intro]: "quiet (pushFrom io t i)"
  unfolding pushFrom_def by (intro quiet_dep quiet_push_loop)

lemma quiet_round [intro]: "quiet (sync_round io round recents)"
  unfolding sync_round_def reconcile_def
  by (intro quiet_dep quiet_then quiet_if quiet_register quiet_ret quiet_pushEntries quiet_probe quiet_pull_from quiet_push_from)

lemma quiet_rounds [intro]: "quiet (sync_rounds io n round recents)"
proof (induction n arbitrary: round)
  case (Suc n)
  have u: "quiet (and_then unknownVault (\<lambda>_. sync_rounds io n (Suc round) recents))"
    by (intro quiet_then quiet_unknown Suc.IH)
  show ?case
    unfolding quiet_def
  proof (intro allI impI)
    fix c w r c' w' assume ok: "client_ok c" and run: "sync_rounds io (Suc n) round recents (c, w) = (r, c', w')"
    obtain r1 c1 w1 where s: "sync_round io round recents (c, w) = (r1, c1, w1)" by (metis surj_pair)
    have g: "grows c c1 \<and> recent c1 = recent c \<and> lastTs c1 = lastTs c" using quietD [OF quiet_round ok s] .
    then have ok1: "client_ok c1" by (simp add: grows_def)
    have "c' = c1 \<or> sync_rounds io n (Suc round) recents (c1, w1) = (r, c', w')
        \<or> and_then unknownVault (\<lambda>_. sync_rounds io n (Suc round) recents) (c1, w1) = (r, c', w')"
      using run s by (cases r1) (auto split: if_splits)
    then have "grows c1 c' \<and> recent c' = recent c1 \<and> lastTs c' = lastTs c1 \<or> c' = c1"
      using quietD [OF Suc.IH ok1] quietD [OF u ok1] by auto
    then show "grows c c' \<and> recent c' = recent c \<and> lastTs c' = lastTs c" using g grows_trans by metis
  qed
qed auto

section \<open>Writes\<close>

lemma word_next: "(x :: u64) \<noteq> - 1 \<Longrightarrow> x < x + 1"
proof -
  assume "x \<noteq> - 1"
  then have "unat (x + 1) = Suc (unat x)" using unatSuc [of x] by (metis add.commute eq_neg_iff_add_eq_0)
  then show ?thesis by (simp add: word_less_nat_alt)
qed

lemma nextTs_run:
  "nextTs io (c, w) = (r, c', w') \<Longrightarrow> r = Inr (lastTs c') \<and> c' = c\<lparr>lastTs := lastTs c'\<rparr>
    \<and> (lastTs c \<noteq> - 1 \<longrightarrow> lastTs c < lastTs c')"
  by (auto simp: nextTs_def Let_def not_le word_next split: prod.splits if_splits)

lemma seal_entry_run: "seal_entry io ts k v (c, w) = (r, c', w') \<Longrightarrow>
    c' = c \<and> (\<forall>e. r = Inr e \<longrightarrow> (\<exists>x t. entry_Seal (cl_aead c) ts k v x t = Inr e))"
proof -
  assume run: "seal_entry io ts k v (c, w) = (r, c', w')"
  obtain x t w1 where d: "cl_draw io w = ((x, t), w1)" by (metis surj_pair)
  show ?thesis using run d by (cases "entry_Seal (cl_aead c) ts k v x t") (auto simp: seal_entry_def)
qed

lemma client_record_run:
  assumes "client_ok c" and "client_record io es (c, w) = (r, c', w')"
  shows "grows c c' \<and> lastTs c' = lastTs c \<and> (case r of
      Inl _ \<Rightarrow> cl_contents c' = cl_contents c \<and> recent c' = recent c
    | Inr _ \<Rightarrow> cl_contents c' = cl_contents c @ new_entries (ids_of (cl_contents c)) es \<and> recent c' = recent c @ es)"
proof -
  obtain r1 c1 w1 where a: "store_add io es (c, w) = (r1, c1, w1)" by (metis surj_pair)
  from store_add_run [OF assms(1) a] assms(2) a show ?thesis
    by (cases r1) (auto simp: client_record_def and_then_def cl_contents_def)
qed

lemma entry_Open_Seal:
  assumes "keys_ok c" and "entry_Seal (cl_aead c) ts k v x t = Inr e"
  shows "entry_Open (cl_aead c) e = Inr (k, v) \<and> TsMs e = ts \<and> entry_ok e"
proof -
  have z: "\<not> zeroed (cl_aead c)" using assms(1) by (simp add: keys_ok_def)
  note s = entry_Seal_cases [OF assms(2) z]
  then have "length (Nonce e) = 16" by (simp add: entry_ok_def)
  then show ?thesis using s entry_Open_iff [OF z, of e k v] by simp
qed

text \<open>The write of one entry, as \<open>Put\<close> and \<open>Delete\<close> share it.\<close>

definition write_one :: "'w client_io \<Rightarrow> bytes \<Rightarrow> bytes \<Rightarrow> ('w, unit) call" where
  "write_one io key sv = and_then (nextTs io) (\<lambda>ts. and_then (seal_entry io ts key sv) (\<lambda>e. client_record io [e]))"

lemma write_one_run:
  assumes ok: "client_ok c" "keys_ok c" and run: "write_one io key sv (c, w) = (r, c', w')"
  shows "grows c c' \<and> (case r of
      Inl _ \<Rightarrow> cl_contents c' = cl_contents c \<and> recent c' = recent c
    | Inr _ \<Rightarrow> \<exists>e. recent c' = recent c @ [e] \<and> entry_Open (cl_aead c) e = Inr (key, sv) \<and> TsMs e = lastTs c'
        \<and> cl_contents c' = cl_contents c @ new_entries (ids_of (cl_contents c)) [e])"
proof -
  obtain r1 c1 w1 where n: "nextTs io (c, w) = (r1, c1, w1)" by (metis surj_pair)
  from nextTs_run [OF n] have r1: "r1 = Inr (lastTs c1)" and c1: "c1 = c\<lparr>lastTs := lastTs c1\<rparr>" by blast+
  have same: "cl_aead c1 = cl_aead c" "recent c1 = recent c" "cl_contents c1 = cl_contents c" "client_ok c1" "grows c c1"
    by (subst c1, simp add: ok grows_refl)+
  obtain r2 c2 w2 where s: "seal_entry io (lastTs c1) key sv (c1, w1) = (r2, c2, w2)" by (metis surj_pair)
  note s' = seal_entry_run [OF s]
  show ?thesis
  proof (cases r2)
    case (Inl e)
    then show ?thesis using run n r1 s s' same by (auto simp: write_one_def and_then_def)
  next
    case (Inr e)
    have rec: "client_record io [e] (c1, w2) = (r, c', w')" using run n r1 s s' Inr by (auto simp: write_one_def and_then_def)
    have "entry_Open (cl_aead c) e = Inr (key, sv) \<and> TsMs e = lastTs c1"
      using s' Inr entry_Open_Seal [OF ok(2)] same by auto
    then show ?thesis using client_record_run [OF same(4) rec] same grows_trans
      by (cases r) auto
  qed
qed

lemma PutFmt_write: "PutFmt io key val tag = (if length val = 0 then fail ErrEmptyValue else write_one io key (WrapValue tag val))"
  and Delete_write: "Delete io key = write_one io key []"
  by (simp_all add: PutFmt_def Delete_def write_one_def)

lemma new_latest_read:
  assumes ok: "client_ok c'" and l: "latest a (set es) v" and c': "cl_contents c' = es @ [e]" "cl_aead c' = a"
    and e: "entry_Open a e = Inr (k, sv)" and lt: "\<forall>f \<in> set es. TsMs f < TsMs e" and v: "v = merge_replay a es"
  shows "fst (Get key c') = (if key = k then map_option snd (ParseValue sv) else
    (case v key of None \<Rightarrow> None | Some kv \<Rightarrow> map_option snd (kvVal kv)))"
proof -
  have "pos_of f \<le> pos_of e" if "f \<in> set es" for f
    using lt that by (auto simp: pos_of_def less_eq_position_def less_position_def)
  then have "latest a (insert e (set es)) (v(k \<mapsto> kv_of e sv))"
    using latest_step [OF l] e by (simp add: opens_def)
  then have "latest a (set (cl_contents c')) (v(k \<mapsto> kv_of e sv))" using c' by simp
  moreover have "latest a (set (cl_contents c')) (map_of (view (foldLocked c')))" using fold_ok [OF ok] c' by simp
  moreover have "inj_on pos_of (set (cl_contents c'))" using ok by (simp add: client_ok_def cl_contents_def pos_inj)
  ultimately have "map_of (view (foldLocked c')) = v(k \<mapsto> kv_of e sv)" using latest_unique by metis
  then show ?thesis by (simp add: Get_def Let_def kv_of_def)
qed

lemma write_one_read:
  assumes ok: "client_ok c" "keys_ok c" and run: "write_one io key sv (c, w) = (Inr u, c', w')"
  shows "\<exists>e. recent c' = recent c @ [e] \<and> entry_Open (cl_aead c) e = Inr (key, sv) \<and>
    (entry_ID e \<in> ids_of (cl_contents c) \<or> cl_contents c' = cl_contents c @ [e] \<and>
      ((\<forall>f \<in> set (cl_contents c). TsMs f < lastTs c') \<longrightarrow>
        (\<forall>k. fst (Get k c') = (if k = key then map_option snd (ParseValue sv) else fst (Get k c)))))"
proof -
  from write_one_run [OF ok run] obtain e where g: "grows c c'" and e: "recent c' = recent c @ [e]"
    "entry_Open (cl_aead c) e = Inr (key, sv)" "TsMs e = lastTs c'"
    "cl_contents c' = cl_contents c @ new_entries (ids_of (cl_contents c)) [e]" by auto
  have ok': "client_ok c'" and a: "cl_aead c' = cl_aead c" using g by (simp_all add: grows_def same_keys_def)
  define v where "v = merge_replay (cl_aead c) (cl_contents c)"
  have l: "latest (cl_aead c) (set (cl_contents c)) v" by (simp add: v_def merge_latest)
  have "fst (Get k c') = (if k = key then map_option snd (ParseValue sv) else fst (Get k c))"
    if "entry_ID e \<notin> ids_of (cl_contents c)" and late: "\<forall>f \<in> set (cl_contents c). TsMs f < lastTs c'" for k
  proof -
    have "cl_contents c' = cl_contents c @ [e]" using e that(1) by simp
    from new_latest_read [OF ok' l this a e(2) _ v_def, of k] late e(3) this
    show ?thesis using get_replay [OF ok(1)] by (simp add: replay_get_def v_def)
  qed
  then show ?thesis using e(1,2,4) by (intro exI [of _ e]) auto
qed

end
