(* ===== verification/ClientProps.thy ===== *)
theory ClientProps
  imports ClientSafe
begin

text \<open>
  The client's promises over any outside world: what it writes it reads back, a response is believed only
  if it is the server's answer to the request, a sync that fails loses nothing, and the pushes of a sync
  end and send each entry once, in order, in frames of bounded size.
\<close>

section \<open>Writing\<close>

lemma entry_Seal_total:
  assumes z: "\<not> zeroed a" and k: "0 < length k" "length k \<le> 255" "length v \<le> 65000"
  shows "\<exists>e. entry_Seal a ts k v (Some b) t = Inr e"
proof -
  obtain n where n: "EntryNonce (Some b) t = Inr n" by (simp add: EntryNonce_def hedgedNonce_def)
  then have "aead_usable a n" using length_nonce(2) [OF n] z by (simp add: aead_usable_def)
  then obtain ct where "aead_Seal a [] n (entry_plaintext k v)
      (le_bytes 8 ts @ n @ le_bytes 2 (of_nat (length (entry_plaintext k v) + 16) :: u16)) = Inr ct"
    using ascon.seal_total [of a n "entry_plaintext k v"] by blast
  then show ?thesis using n k by (auto simp: entry_Seal_def Let_def length_plaintext entry_sizes)
qed

text \<open>C25. \<open>PutFmt\<close>, whatever the client holds: one that fails leaves the set and the unsent writes alone; one that succeeds
  adds to both an entry that opens to the key and the tagged value, unless the entry's id, a hash, is already that of
  another entry of the set. When everything the client held is dated before the write, \<open>Get\<close> of its key then gives the
  value without the format tag and every other key is as it was.\<close>

theorem put_get:
  assumes "client_ok c" and "keys_ok c" and "PutFmt io key val tag (c, w) = (r, c', w')"
  shows "client_ok c' \<and> (case r of
      Inl _ \<Rightarrow> cl_contents c' = cl_contents c \<and> recent c' = recent c
    | Inr _ \<Rightarrow> \<exists>e. recent c' = recent c @ [e] \<and> entry_Open (cl_aead c) e = Inr (key, WrapValue tag val) \<and>
        (entry_ID e \<in> ids_of (cl_contents c) \<or> cl_contents c' = cl_contents c @ [e] \<and>
          ((\<forall>f \<in> set (cl_contents c). TsMs f < lastTs c') \<longrightarrow>
            (\<forall>k. fst (Get k c') = (if k = key then Some val else fst (Get k c))))))"
proof (cases "length val = 0")
  case True
  then have "r = Inl ErrEmptyValue \<and> c' = c" using assms(3) by (simp add: PutFmt_write fail_def)
  then show ?thesis using assms(1) by simp
next
  case False
  then have run: "write_one io key (WrapValue tag val) (c, w) = (r, c', w')" using assms(3) by (simp add: PutFmt_write)
  show ?thesis
  proof (cases r)
    case (Inl e)
    then show ?thesis using write_one_run [OF assms(1,2) run] by (simp add: grows_def)
  next
    case (Inr u)
    have p: "map_option snd (ParseValue (WrapValue tag val)) = Some val" by (simp add: WrapValue_def)
    have ok': "client_ok c'" using write_one_run [OF assms(1,2) run] by (simp add: grows_def)
    show ?thesis using write_one_read [OF assms(1,2) run [unfolded Inr]] ok'
      unfolding p Inr by (simp only: sum.case)
  qed
qed

definition sample_io :: "(bytes \<Rightarrow> nat \<Rightarrow> bytes option \<times> nat) \<Rightarrow> nat client_io" where
  "sample_io f = \<lparr>cl_draw = (\<lambda>w. ((Some (replicate 16 9), 0), w)), cl_now = (\<lambda>w. (5, w)),
     cl_disk = (\<lambda>w. (\<lparr>aSeekE = False, aWrite = None, aSyncE = False, aTruncE = False, aBackE = False\<rparr>, w)), cl_do = f\<rparr>"

lemma sample_keys: "keys_ok (sample_client es)"
  by (simp add: keys_ok_def sample_client_def)

theorem put_get_witness:
  "\<exists>c'. PutFmt (sample_io (\<lambda>_ w. (None, w))) [1] [2, 3] 0 (sample_client [], 0) = (Inr (), c', 0) \<and> fst (Get [1] c') = Some [2, 3]"
proof -
  let ?c = "sample_client []" and ?io = "sample_io (\<lambda>_ w. (None, w))"
  have z: "\<not> zeroed (cl_aead ?c)" using sample_keys [of "[]"] by (simp add: keys_ok_def)
  obtain e where e: "entry_Seal (cl_aead ?c) 5 [1] (WrapValue 0 [2, 3]) (Some (replicate 16 9)) 0 = Inr e"
    using entry_Seal_total [OF z, of "[1]" "WrapValue 0 [2, 3]" 5 "replicate 16 9" 0] by (auto simp: WrapValue_def)
  have empty: "cl_contents ?c = []" by (simp add: cl_contents_def sample_client_def NewMemStore_def)
  have "\<exists>c'. PutFmt ?io [1] [2, 3] 0 (?c, 0) = (Inr (), c', 0)"
    using e by (simp add: PutFmt_def and_then_def nextTs_def seal_entry_def client_record_def store_add_def sample_io_def
      sample_client_def split: prod.split)
  then obtain c' where c': "PutFmt ?io [1] [2, 3] 0 (?c, 0) = (Inr (), c', 0)" ..
  from put_get [OF sample_client_ok sample_keys c'] have "fst (Get [1] c') = Some [2, 3]" using empty by auto
  then show ?thesis using c' by blast
qed

section \<open>One exchange\<close>

lemma open_response_Inr:
  assumes "open_response c n b = Inr x"
  shows "\<exists>h sealed p. ParseHeader b = Inr (h, sealed) \<and> Kind h = KindResp \<and> VaultID h = cl_vid c
    \<and> OpenFrame (cl_s2c c) h sealed = Inr p \<and> ParseResp p = Inr x \<and> ReqNonce x = n"
proof -
  have n1: "length b \<noteq> Suc 0" using assms by (auto simp: open_response_def)
  obtain h sealed where h: "ParseHeader b = Inr (h, sealed)"
    using assms by (cases "ParseHeader b") (auto simp: open_response_def n1)
  have k: "Kind h = KindResp \<and> VaultID h = cl_vid c" using assms by (simp add: open_response_def n1 h split: if_splits)
  obtain p where p: "OpenFrame (cl_s2c c) h sealed = Inr p"
    using assms by (cases "OpenFrame (cl_s2c c) h sealed") (simp_all add: open_response_def n1 h k)
  then show ?thesis using assms h k by (cases "ParseResp p") (auto simp: open_response_def n1 split: if_splits)
qed

text \<open>C16. A response is believed only if it is the server's answer to this request: an exchange that returns a
  response sent the frame sealed over the payload under a nonce of its own, and what came back is exactly
  the frame that \<open>SealFrame\<close> makes, under the key of the server's direction, of that response, for this
  vault, as a RESP, echoing the nonce of the request. The client is as it was.\<close>

theorem exchange_authentic:
  assumes "keys_ok c" and "roundtrip io kind k payload (c, w) = (Inr x, c', w')"
  shows "c' = c \<and> (\<exists>n frame w1 b h. length n = 16
    \<and> SealFrame \<lparr>Kind = kind, VaultID = cl_vid c, FrNonce = n\<rparr> k payload = Inr frame
    \<and> cl_do io frame w1 = (Some b, w') \<and> header_ok h \<and> Kind h = KindResp \<and> VaultID h = cl_vid c
    \<and> SealFrame h (cl_s2c c) (resp_Marshal x) = Inr b \<and> ReqNonce x = n)"
proof -
  obtain r t w0 where d: "cl_draw io w = ((r, t), w0)" by (metis surj_pair)
  obtain n where n: "FrameNonce (cl_vid c) r t = Inr n"
    using assms(2) by (cases "FrameNonce (cl_vid c) r t") (simp_all add: roundtrip_def d)
  then have ln: "length n = 16" by (rule length_nonce)
  obtain frame where f: "SealFrame \<lparr>Kind = kind, VaultID = cl_vid c, FrNonce = n\<rparr> k payload = Inr frame"
    using assms(2) by (cases "SealFrame \<lparr>Kind = kind, VaultID = cl_vid c, FrNonce = n\<rparr> k payload") (simp_all add: roundtrip_def d n)
  obtain b w2 where do: "cl_do io frame w0 = (Some b, w2)"
    using assms(2) by (cases "cl_do io frame w0"; cases "fst (cl_do io frame w0)") (simp_all add: roundtrip_def d n f)
  then have b: "cl_do io frame w0 = (Some b, w')" "open_response c n b = Inr x" and c: "c' = c"
    using assms(2) by (auto simp: roundtrip_def d n f)
  from open_response_Inr [OF b(2)] obtain h sealed p where h: "ParseHeader b = Inr (h, sealed)" "Kind h = KindResp"
    "VaultID h = cl_vid c" "OpenFrame (cl_s2c c) h sealed = Inr p" "ParseResp p = Inr x" "ReqNonce x = n" by blast
  have l: "length (cl_s2c c) = 16" using assms(1) by (simp add: keys_ok_def DeriveS2C_def derive16_label)
  have hh: "header_ok h" "b = header_bytes h @ sealed" using h(1) by (simp_all add: ParseHeader_iff)
  then have "SealFrame h (cl_s2c c) (resp_Marshal x) = Inr b"
    using OpenFrame_iff [OF l hh(1)] h(4,5) by (simp add: ParseResp_iff)
  then show ?thesis using b c ln f hh h(2,3,6)
    by (intro conjI exI [of _ n] exI [of _ frame] exI [of _ w0] exI [of _ b] exI [of _ h]) simp_all
qed

text \<open>A server that answers the one request the client makes.\<close>

definition sample_answer :: "bytes \<Rightarrow> bytes \<Rightarrow> bytes \<Rightarrow> bytes \<Rightarrow> nat \<Rightarrow> bytes option \<times> nat" where
  "sample_answer k vid n = (\<lambda>_ w. (case SealFrame \<lparr>Kind = KindResp, VaultID = vid, FrNonce = replicate 16 8\<rparr> k
      (resp_Marshal \<lparr>Status = StatusOK, ReqNonce = n, RespEntries = []\<rparr>) of Inl _ \<Rightarrow> None | Inr b \<Rightarrow> Some b, w))"

theorem exchange_authentic_witness:
  "\<exists>f x. roundtrip (sample_io f) KindSync (cl_c2s (sample_client [])) [] (sample_client [], 0) = (Inr x, sample_client [], 0)
    \<and> Status x = StatusOK \<and> length (ReqNonce x) = 16"
proof -
  let ?c = "sample_client []"
  obtain n where n: "FrameNonce (cl_vid ?c) (Some (replicate 16 9)) 0 = Inr n" by (simp add: FrameNonce_def hedgedNonce_def)
  then have ln: "length n = 16" by (rule length_nonce)
  define x where "x = \<lparr>Status = StatusOK, ReqNonce = n, RespEntries = []\<rparr>"
  define h where "h = \<lparr>Kind = KindResp, VaultID = cl_vid ?c, FrNonce = replicate 16 8\<rparr>"
  have hh: "header_ok h" "header_ok \<lparr>Kind = KindSync, VaultID = cl_vid ?c, FrNonce = n\<rparr>"
    using ln by (simp_all add: h_def header_ok_def sample_client_def)
  have lk: "length (cl_s2c ?c) = 16" "length (cl_c2s ?c) = 16"
    using sample_keys [of "[]"] by (simp_all add: keys_ok_def DeriveS2C_def DeriveC2S_def derive16_label)
  obtain sealed where s: "SealFrame h (cl_s2c ?c) (resp_Marshal x) = Inr (header_bytes h @ sealed)"
    and ls: "length sealed = length (resp_Marshal x) + 16"
    using SealFrame_total [OF lk(1) hh(1)] by blast
  obtain frame where f: "SealFrame \<lparr>Kind = KindSync, VaultID = cl_vid ?c, FrNonce = n\<rparr> (cl_c2s ?c) [] = Inr frame"
    using SealFrame_total [OF lk(2) hh(2)] by blast
  have "resp_ok x" using ln by (simp add: resp_ok_def x_def entries_ok_def)
  then have "OpenFrame (cl_s2c ?c) h sealed = Inr (resp_Marshal x)" "ParseResp (resp_Marshal x) = Inr x"
    using OpenFrame_iff [OF lk(1) hh(1)] s by (simp_all add: ParseResp_iff)
  moreover have "ParseHeader (header_bytes h @ sealed) = Inr (h, sealed)" using hh(1) ls by (simp add: ParseHeader_iff)
  moreover have "length (header_bytes h @ sealed) \<noteq> 1" using ls by simp
  ultimately have o: "open_response ?c n (header_bytes h @ sealed) = Inr x"
    by (simp add: open_response_def h_def x_def)
  define g where "g = sample_answer (cl_s2c ?c) (cl_vid ?c) n"
  have "g frame 0 = (Some (header_bytes h @ sealed), 0)" using s by (simp add: g_def sample_answer_def h_def x_def)
  then have run: "roundtrip (sample_io g) KindSync (cl_c2s ?c) [] (?c, 0) = (Inr x, ?c, 0)"
    using n f o by (simp add: roundtrip_def sample_io_def)
  from exchange_authentic [OF sample_keys run] have "length (ReqNonce x) = 16" by blast
  then show ?thesis using run by (intro exI [of _ g] exI [of _ x]) (simp add: x_def)
qed

section \<open>A sync\<close>

text \<open>C15. A sync loses nothing, whatever the server answers and wherever it fails: the client's set only
  grows at its end, its keys, clock and view stay, and the writes it was to push are unsent again
  exactly when it returns an error.\<close>

theorem sync_loses_nothing:
  assumes "client_ok c" and "keys_ok c" and "Sync io (c, w) = (r, c', w')"
  shows "client_ok c' \<and> keys_ok c' \<and> (\<exists>ts. cl_contents c' = cl_contents c @ ts) \<and> lastTs c' = lastTs c
    \<and> view c' = view c \<and> folded c' = folded c
    \<and> recent c' = (case r of Inl _ \<Rightarrow> recent c | Inr _ \<Rightarrow> [])"
proof -
  obtain r1 c1 w1 where s: "sync_rounds io 64 0 (recent c) (c\<lparr>recent := []\<rparr>, w) = (r1, c1, w1)" by (metis surj_pair)
  have ok: "client_ok (c\<lparr>recent := []\<rparr>)" using assms(1) by simp
  from quietD [OF quiet_rounds ok s] have g: "grows (c\<lparr>recent := []\<rparr>) c1" "recent c1 = []" "lastTs c1 = lastTs c" by auto
  then have g': "grows c c1" by (auto simp: grows_def same_keys_def cl_contents_def)
  then have "keys_ok c1" using assms(2) keys_ok_same by (auto simp: grows_def)
  moreover have "keys_ok (c1\<lparr>recent := x\<rparr>) = keys_ok c1" for x by (simp add: keys_ok_def)
  ultimately show ?thesis using assms(3) s g g' by (cases r1) (auto simp: Sync_def Let_def grows_def)
qed

theorem sync_loses_nothing_witness:
  "\<exists>r c' w'. Sync (sample_io (\<lambda>_ w. (None, w))) (sample_client [], 0) = (r, c', w') \<and> client_ok c' \<and> recent c' = []"
proof -
  obtain r c' w' where run: "Sync (sample_io (\<lambda>_ w. (None, w))) (sample_client [], 0) = (r, c', w')" by (metis surj_pair)
  have "recent (sample_client []) = []" by (simp add: sample_client_def)
  with sync_loses_nothing [OF sample_client_ok sample_keys run] have "recent c' = []" by (cases r) simp_all
  with sync_loses_nothing [OF sample_client_ok sample_keys run] run show ?thesis by blast
qed

text \<open>The frames of a push: an entry list cut into pages.\<close>

function batches :: "entry list \<Rightarrow> entry list list" where
  "batches [] = []"
| "batches (e # es) =
     (let b = page_from PageBytes 0 False (e # es) in b # batches (drop (length b) (e # es)))"
  by pat_completeness auto
termination
  by (relation "measure length") auto

fun send_all :: "'w client_io \<Rightarrow> entry list list \<Rightarrow> ('w, unit) call" where
  "send_all io [] = ret ()"
| "send_all io (b # bs) = and_then (sendPush io b) (\<lambda>_. send_all io bs)"

lemma page_take: "page_from b u m es = take (length (page_from b u m es)) es"
  using page_prefix [of b u m es] by (metis append_take_drop_id append_eq_conv_conj)

lemma batches_spec: "concat (batches es) = es \<and> (\<forall>b \<in> set (batches es). b \<noteq> [] \<and> (length b = 1 \<or> sum_list (map entry_Size b) \<le> PageBytes))"
proof (induction es rule: batches.induct)
  case (2 e es)
  define b where "b = page_from PageBytes 0 False (e # es)"
  have "b @ drop (length b) (e # es) = e # es" using page_take [of PageBytes 0 False "e # es"] b_def by (metis append_take_drop_id)
  moreover have "b \<noteq> []" by (simp add: b_def)
  moreover have "length b = 1 \<or> sum_list (map entry_Size b) \<le> PageBytes"
    using page_budget [OF b_def [symmetric]] calculation(2) by (cases b) auto
  moreover have "batches (e # es) = b # batches (drop (length b) (e # es))" unfolding batches.simps Let_def b_def ..
  ultimately show ?case using 2 [OF b_def] by (simp del: batches.simps)
qed simp

lemma pushEntries_send: "pushEntries io es = send_all io (batches es)"
proof (induction io es rule: pushEntries.induct)
  case (2 io e es)
  show ?case using 2 [OF refl] by (simp add: Let_def)
qed simp

lemma sendPush_client: "sendPush io b (c, w) = (r, c', w') \<Longrightarrow> c' = c"
  by (auto simp: sendPush_def and_then_run sync_call_def ret_def fail_def split: if_splits dest!: roundtrip_client)

lemma roundtrip_error: "roundtrip io k sk p (c, w) = (Inl e, c', w') \<Longrightarrow> e \<noteq> OutOfFuel"
  by (auto simp: roundtrip_def open_response_def split: prod.splits sum.splits option.splits if_splits)

lemma sendPush_error: "sendPush io b (c, w) = (Inl e, c', w') \<Longrightarrow> e \<noteq> OutOfFuel"
  by (auto simp: sendPush_def and_then_run sync_call_def ret_def fail_def split: if_splits dest!: roundtrip_error)

lemma send_all_error: "send_all io bs (c, w) = (Inl e, c', w') \<Longrightarrow> e \<noteq> OutOfFuel"
proof (induction bs arbitrary: c w)
  case (Cons b bs)
  from Cons.prems have "sendPush io b (c, w) = (Inl e, c', w') \<or> (\<exists>c1 w1. send_all io bs (c1, w1) = (Inl e, c', w'))"
    by (auto simp: and_then_run)
  then show ?case
  proof (elim disjE exE)
    assume "sendPush io b (c, w) = (Inl e, c', w')"
    then show ?thesis by (rule sendPush_error)
  qed (rule Cons.IH)
qed (simp add: ret_def)

lemma push_loop_send:
  assumes s: "sorted_wrt (<) (map pos_of es)"
    and page: "\<And>t i. store_EntriesAfter (cl_store c) t i PageBytes = page_from PageBytes 0 False (after_cursor (Position t i) es)"
    and "length (after_cursor (Position t i) es) < n"
  shows "push_loop io n t i (c, w) = send_all io (batches (after_cursor (Position t i) es)) (c, w)"
  using assms(3)
proof (induction n arbitrary: t i w)
  case (Suc n)
  define rest where "rest = after_cursor (Position t i) es"
  show ?case
  proof (cases rest)
    case Nil
    then show ?thesis using page [of t i] by (simp add: rest_def)
  next
    case (Cons e es')
    define b where "b = page_from PageBytes 0 False rest"
    have ne: "b \<noteq> []" using page_nonempty [of rest PageBytes 0] Cons by (simp add: b_def)
    have r: "rest = b @ drop (length b) rest" using page_take [of PageBytes 0 False rest] b_def by (metis append_take_drop_id)
    then have d: "after_cursor (pos_of (last b)) es = drop (length b) rest"
      using after_cursor_last [OF s _ ne] rest_def by metis
    have dl: "after_cursor (Position (TsMs (last b)) (entry_ID (last b))) es = drop (length b) rest"
      using d by (simp add: pos_of_def)
    have "0 < length b" "0 < length rest" using ne Cons by auto
    then have "length (drop (length b) rest) < n" using Suc.prems unfolding rest_def [symmetric] length_drop by linarith
    then have ih: "push_loop io n (TsMs (last b)) (entry_ID (last b)) (c, w') = send_all io (batches (drop (length b) rest)) (c, w')" for w'
      using Suc.IH [of "TsMs (last b)" "entry_ID (last b)" w'] dl by simp
    have "push_loop io (Suc n) t i (c, w) = and_then (sendPush io b) (\<lambda>_. push_loop io n (TsMs (last b)) (entry_ID (last b))) (c, w)"
      using page [of t i] ne by (simp add: b_def rest_def Let_def)
    also have "\<dots> = and_then (sendPush io b) (\<lambda>_. send_all io (batches (drop (length b) rest))) (c, w)"
    proof (cases "sendPush io b (c, w)")
      case (fields r c1 w1)
      then have "c1 = c" by (rule sendPush_client)
      then show ?thesis using fields ih by (cases r) (simp_all add: and_then_def)
    qed
    also have "\<dots> = send_all io (batches rest) (c, w)" by (simp add: Cons b_def Let_def)
    finally show ?thesis by (simp add: rest_def)
  qed
qed simp

lemma pushFrom_send:
  assumes "client_ok c"
  shows "pushFrom io t i (c, w) = send_all io (batches (after_cursor (Position t i) (SortCanonical (cl_contents c)))) (c, w)"
proof -
  have i: "mem_inv (store_mem (cl_store c))" using assms by (simp add: client_ok_def)
  have "distinct (map entry_ID (cl_contents c))" using i by (simp add: cl_contents_def mem.contents_distinct)
  then have s: "sorted_wrt (<) (map pos_of (SortCanonical (cl_contents c)))" by (rule sorted_positions)
  have pg: "store_EntriesAfter (cl_store c) t i PageBytes = page_from PageBytes 0 False (after_cursor (Position t i) (SortCanonical (cl_contents c)))" for t i
    using mem_EntriesAfter_spec [OF i] by (simp add: store_EntriesAfter_def cl_contents_def)
  have "length (after_cursor (Position t i) (SortCanonical (cl_contents c))) < Suc (store_Len (cl_store c))"
    by (simp add: store_Len_def mem_Len_def cl_contents_def after_cursor_def SortCanonical_def less_Suc_eq_le le_trans [OF length_filter_le])
  from push_loop_send [OF s pg this] show ?thesis by (simp add: pushFrom_def)
qed

text \<open>C19. The pushes of a sync end, and send each entry once: \<open>pushFrom\<close> is exactly the sending, one frame
  after another until one fails, of the entries after the anchor in canonical order, cut into pages that
  are within the page budget or a single entry; its fuel never runs out. \<open>pushEntries\<close> is the same over
  the entries it is given.\<close>

theorem push_sends_pages:
  assumes "client_ok c"
  shows "pushFrom io t i (c, w) = send_all io (batches (after_cursor (Position t i) (SortCanonical (cl_contents c)))) (c, w)
    \<and> fst (pushFrom io t i (c, w)) \<noteq> Inl OutOfFuel
    \<and> pushEntries io es = send_all io (batches es) \<and> concat (batches es) = es
    \<and> (\<forall>b. b \<in> set (batches es) \<longrightarrow> b \<noteq> [] \<and> (length b = 1 \<or> sum_list (map entry_Size b) \<le> PageBytes))"
proof -
  have "fst (send_all io bs (c, w)) \<noteq> Inl OutOfFuel" for bs
  proof (cases "send_all io bs (c, w)")
    case (fields r c1 w1)
    then show ?thesis using send_all_error [of io bs c w _ c1 w1] by (cases r) auto
  qed
  then show ?thesis using batches_spec [of es] pushEntries_send [of io es] pushFrom_send [OF assms] by metis
qed

theorem push_sends_pages_witness: "fst (pushFrom (sample_io (\<lambda>_ w. (None, w))) 0 [] (sample_client [], 0)) \<noteq> Inl OutOfFuel"
  by (rule push_sends_pages [OF sample_client_ok, THEN conjunct2, THEN conjunct1])

end
