(* ===== verification/ClientSync.thy ===== *)
theory ClientSync
  imports ClientProps ServerProps
begin

text \<open>
  The client and the server together: the client's transport is the server's frame handler. A client whose
  vault the server holds, with room for the two sets' union, reaches a state in which both sides' set
  hashes are equal, in at most three rounds, and loses nothing of either side.
\<close>

section \<open>The composition\<close>

text \<open>
  The outside world is the server with the number of frames it has handled; what is drawn and how the
  disks answer is given for each.
\<close>

definition net_io :: "(nat \<Rightarrow> bytes option \<times> int) \<Rightarrow> (nat \<Rightarrow> add_io) \<Rightarrow> (nat \<Rightarrow> env) \<Rightarrow> (server \<times> nat) client_io" where
  "net_io draws disk envs =
     \<lparr>cl_draw = (\<lambda>(srv, n). (draws n, srv, n)), cl_now = (\<lambda>(srv, n). (word_of_int (now (envs n)), srv, n)),
      cl_disk = (\<lambda>(srv, n). (disk n, srv, n)),
      cl_do = (\<lambda>frame (srv, n). case HandleFrame (envs n) frame srv of
        (r, _, srv') \<Rightarrow> (case r of Reply b \<Rightarrow> Some b | NoReply \<Rightarrow> None, srv', Suc n))\<rparr>"

definition store_good :: "store \<Rightarrow> bool" where
  "store_good s \<longleftrightarrow> (case s of Mem m \<Rightarrow> mem_inv m | Log l \<Rightarrow> log_inv l)"

text \<open>Nothing fails to be drawn or written, and no clock makes an entry of the sets look too new.\<close>

definition calm :: "quotas \<Rightarrow> entry set \<Rightarrow> (nat \<Rightarrow> bytes option \<times> int) \<Rightarrow> (nat \<Rightarrow> add_io) \<Rightarrow> (nat \<Rightarrow> env) \<Rightarrow> bool" where
  "calm q U draws disk envs \<longleftrightarrow> (\<forall>n. fst (draws n) \<noteq> None \<and> disk n = good_add \<and> rnd (envs n) \<noteq> None \<and> addIO (envs n) = good_add
     \<and> (\<forall>e \<in> U. TsMs e \<le> word_of_int (now (envs n)) + word_of_int (TSSkewMs q)))"

text \<open>A set of entries that fits in the vault, and that a walk from the zero cursor finds.\<close>

definition fits :: "quotas \<Rightarrow> entry set \<Rightarrow> bool" where
  "fits q U \<longleftrightarrow> finite U \<and> inj_on entry_ID U \<and> (\<forall>e \<in> U. entry_ok e \<and> Position 0 (replicate 16 0) < pos_of e)
     \<and> card U \<le> MaxEntries q \<and> sum entry_Size U \<le> MaxVaultBytes q \<and> card U < maxPullPages"

definition paired :: "quotas \<Rightarrow> entry set \<Rightarrow> nat \<Rightarrow> client \<Rightarrow> server \<Rightarrow> bool" where
  "paired q U ref c srv \<longleftrightarrow> client_ok c \<and> keys_ok c \<and> registered c \<and> store_good (cl_store c)
     \<and> quota srv = q \<and> lookup_vault srv (cl_vid c) = Some ref \<and> ref < length (heap srv)
     \<and> \<not> gone (vault_at srv ref) \<and> \<not> ephemeral (vault_at srv ref) \<and> \<not> noPush (vault_at srv ref)
     \<and> c2s (vault_at srv ref) = cl_c2s c \<and> s2c (vault_at srv ref) = cl_s2c c
     \<and> store_good (vs_store (vault_at srv ref)) \<and> vbytes (vault_at srv ref) = sizes (contents (vault_at srv ref))
     \<and> set (cl_contents c) \<subseteq> U \<and> set (contents (vault_at srv ref)) \<subseteq> U"

lemma store_good_mem: "store_good s \<Longrightarrow> mem_inv (store_mem s)"
  by (cases s) (simp_all add: store_good_def log_inv_def)

lemma store_Add_good:
  assumes g: "store_good s" and es: "\<forall>e \<in> set es. entry_ok e"
  shows "\<exists>s'. store_Add s es good_add = (Inr (length (new_entries (ids_of (entries (store_mem s))) es)), s') \<and> store_good s'
    \<and> entries (store_mem s') = entries (store_mem s) @ new_entries (ids_of (entries (store_mem s))) es"
proof (cases s)
  case (Mem m)
  then have i: "mem_inv m" using g by (simp add: store_good_def)
  obtain n m' where a: "mem_Add m es = (n, m')" by fastforce
  from mem_Add_spec [OF i a] a Mem show ?thesis by (simp add: store_good_def)
next
  case (Log l)
  then have i: "log_inv l" using g by (simp add: store_good_def)
  obtain n l' where a: "log_Add l es good_add = (Inr n, l')" using log_Add_good [OF i] by blast
  have "log_inv l' \<and> log_contents l' = log_contents l @ new_entries (ids_of (log_contents l)) es
      \<and> n = length (new_entries (ids_of (log_contents l)) es)"
    using log_Add_ok [OF i es, of good_add] a by (simp add: log_contents_def)
  then show ?thesis using a Log by (simp add: store_good_def log_contents_def)
qed

lemma store_SetHash_good:
  assumes g: "store_good s" and h: "store_SetHash s = (h, s')"
  shows "h = SetHash (SortCanonical (entries (store_mem s))) \<and> store_good s' \<and> entries (store_mem s') = entries (store_mem s)"
proof -
  have "store_good s'"
  proof (cases s)
    case (Mem m)
    obtain h1 m' where m': "mem_SetHash m = (h1, m')" by fastforce
    have "mem_inv m" using g Mem by (simp add: store_good_def)
    from mem.hash_spec [OF this m'] show ?thesis using h Mem m' by (auto simp: store_good_def)
  next
    case (Log l)
    obtain h1 l' where l': "log_SetHash l = (h1, l')" by fastforce
    have "log_inv l" using g Log by (simp add: store_good_def)
    from log_SetHash_spec [OF this l'] show ?thesis using h Log l' by (auto simp: store_good_def)
  qed
  then show ?thesis using store_SetHash_keeps [OF store_good_mem [OF g] h] by simp
qed

section \<open>One exchange\<close>

lemma sealResp_opens:
  assumes k: "keys_ok c" and r: "rnd env \<noteq> None" and n: "length n = 16" and es: "entries_ok es"
  shows "\<exists>b. sealResp env (cl_vid c) (cl_s2c c) n status es = Reply b \<and>
    open_response c n b = Inr \<lparr>Status = status, ReqNonce = n, RespEntries = es\<rparr>"
proof -
  let ?x = "\<lparr>Status = status, ReqNonce = n, RespEntries = es\<rparr>"
  obtain m where m: "FrameNonce (cl_vid c) (rnd env) (nano env) = Inr m" using r by (auto simp: FrameNonce_def hedgedNonce_def)
  define h where "h = \<lparr>Kind = KindResp, VaultID = cl_vid c, FrNonce = m\<rparr>"
  have lk: "length (cl_s2c c) = 16" using k by (simp add: keys_ok_def DeriveS2C_def derive16_label)
  have hh: "header_ok h" using length_nonce(1) [OF m] k by (simp add: h_def header_ok_def keys_ok_def)
  obtain sealed where s: "SealFrame h (cl_s2c c) (resp_Marshal ?x) = Inr (header_bytes h @ sealed)"
    "length sealed = length (resp_Marshal ?x) + 16" using SealFrame_total [OF lk hh] by blast
  then have "OpenFrame (cl_s2c c) h sealed = Inr (resp_Marshal ?x)" using OpenFrame_iff [OF lk hh] by simp
  moreover have "ParseResp (resp_Marshal ?x) = Inr ?x" using n es by (simp add: ParseResp_iff resp_ok_def)
  moreover have "ParseHeader (header_bytes h @ sealed) = Inr (h, sealed)" using hh s(2) by (simp add: ParseHeader_iff)
  moreover have "length (header_bytes h @ sealed) \<noteq> 1" using s(2) by simp
  ultimately have "open_response c n (header_bytes h @ sealed) = Inr ?x"
    by (simp add: open_response_def h_def)
  then show ?thesis using m s by (simp add: sealResp_def h_def)
qed

text \<open>A SYNC operation other than DROP and WAIT, through the frame handler and back.\<close>

lemma sync_exchange:
  assumes p: "paired q U ref c srv" and cl: "calm q U draws disk envs" and req: "req_ok req" "Op req \<noteq> OpDrop" "Op req \<noteq> OpWait"
    and opr: "\<And>nonce. length nonce = 16 \<Longrightarrow> \<exists>pu. sync_op (envs n) (cl_vid c) ref nonce req srv =
        (sealResp (envs n) (cl_vid c) (cl_s2c c) nonce status es, pu, srv')"
    and es: "entries_ok es"
  shows "\<exists>x. sync_call (net_io draws disk envs) req (c, srv, n) = (Inr x, c, srv', Suc n) \<and> Status x = status \<and> RespEntries x = es"
proof -
  let ?io = "net_io draws disk envs"
  have k: "keys_ok c" and lk: "length (cl_c2s c) = 16" using p by (simp_all add: paired_def keys_ok_def DeriveC2S_def derive16_label)
  obtain r t where d: "draws n = (Some r, t)" using cl by (cases "draws n") (auto simp: calm_def, metis fst_conv option.exhaust)
  obtain m where m: "FrameNonce (cl_vid c) (Some r) t = Inr m" by (simp add: FrameNonce_def hedgedNonce_def)
  have lm: "length m = 16" using length_nonce(1) [OF m] .
  define h where "h = \<lparr>Kind = KindSync, VaultID = cl_vid c, FrNonce = m\<rparr>"
  have hh: "header_ok h" using lm k by (simp add: h_def header_ok_def keys_ok_def)
  obtain sealed where s: "SealFrame h (cl_c2s c) (sync_Marshal req) = Inr (header_bytes h @ sealed)"
    "length sealed = length (sync_Marshal req) + 16" using SealFrame_total [OF lk hh] by blast
  have ph: "ParseHeader (header_bytes h @ sealed) = Inr (h, sealed)" using hh s(2) by (simp add: ParseHeader_iff)
  have o: "OpenFrame (cl_c2s c) h sealed = Inr (sync_Marshal req)" using OpenFrame_iff [OF lk hh] s by simp
  have so: "sync_open (envs n) h sealed srv = (Inr (ref, req), srv)"
    using p o ParseSync_Marshal [OF req(1)] by (simp add: sync_open_def paired_def h_def expireIfDue_def expired_def)
  obtain pu where op: "sync_op (envs n) (cl_vid c) ref m req srv = (sealResp (envs n) (cl_vid c) (cl_s2c c) m status es, pu, srv')"
    using opr [OF lm] by blast
  obtain b where b: "sealResp (envs n) (cl_vid c) (cl_s2c c) m status es = Reply b"
    "open_response c m b = Inr \<lparr>Status = status, ReqNonce = m, RespEntries = es\<rparr>"
    using sealResp_opens [OF k _ lm es, of "envs n" status] cl by (auto simp: calm_def)
  have "\<exists>pv. HandleFrame (envs n) (header_bytes h @ sealed) srv = (Reply b, pv, srv')"
    using ph so op b(1) req(2,3) by (simp add: HandleFrame_def handleSync_def h_def kind_defs)
  then have "cl_do ?io (header_bytes h @ sealed) (srv, n) = (Some b, srv', Suc n)" by (auto simp: net_io_def)
  moreover have "cl_draw ?io (srv, n) = ((Some r, t), srv, n)" using d by (simp add: net_io_def)
  ultimately have "sync_call ?io req (c, srv, n) = (Inr \<lparr>Status = status, ReqNonce = m, RespEntries = es\<rparr>, c, srv', Suc n)"
    using m s(1) b(2) by (simp add: sync_call_def roundtrip_def h_def)
  then show ?thesis by simp
qed

section \<open>The operations of a round\<close>

abbreviation srv_contents :: "nat \<Rightarrow> server \<Rightarrow> entry list" where
  "srv_contents ref srv \<equiv> contents (vault_at srv ref)"

lemma paired_vault:
  assumes p: "paired q U ref c srv" and s: "store_good s" "set (entries (store_mem s)) \<subseteq> U"
    and st: "st = vault_at srv ref\<lparr>vs_store := s, vbytes := sizes (entries (store_mem s)), changed := k\<rparr>"
  shows "paired q U ref c (set_vault ref st srv) \<and> srv_contents ref (set_vault ref st srv) = entries (store_mem s)"
  using p s unfolding st paired_def
  by (simp add: set_vault_def vault_at_def lookup_vault_def contents_def)

lemma paired_store:
  assumes p: "paired q U ref c srv" and s: "store_good s" "entries (store_mem s) = cl_contents c @ ts" "set ts \<subseteq> U"
  shows "paired q U ref (c\<lparr>cl_store := s\<rparr>) srv \<and> cl_contents (c\<lparr>cl_store := s\<rparr>) = cl_contents c @ ts"
proof -
  have "client_ok c" using p by (simp add: paired_def)
  from store_keeps [OF this store_good_mem [OF s(1)] s(2)] have "client_ok (c\<lparr>cl_store := s\<rparr>)" by (simp add: grows_def)
  moreover have "keys_ok (c\<lparr>cl_store := s\<rparr>) = keys_ok c" by (simp add: keys_ok_def)
  ultimately show ?thesis using p s by (simp add: paired_def cl_contents_def)
qed

lemma fits_list:
  assumes f: "fits q U" and d: "distinct (map entry_ID es)" and s: "set es \<subseteq> U"
  shows "length es \<le> card U \<and> sizes es \<le> sum entry_Size U \<and> entries_ok es"
proof -
  have de: "distinct es" using d by (simp add: distinct_map)
  have fin: "finite U" using f by (simp add: fits_def)
  have l: "length es \<le> card U" using distinct_card [OF de] card_mono [OF fin s] by simp
  have "sizes es = sum entry_Size (set es)" unfolding sizes_def using de by (simp add: sum_list_distinct_conv_sum_set)
  also have "\<dots> \<le> sum entry_Size U" using fin s by (simp add: sum_mono2)
  finally show ?thesis using l f s by (auto simp: fits_def entries_ok_def maxPullPages_def)
qed

lemma length_SetHash: "length (SetHash es) = 16"
  by (simp add: SetHash_def SetHashIDs_input derive16_label)

lemma probe_run:
  assumes p: "paired q U ref c srv" and cl: "calm q U draws disk envs"
  shows "\<exists>c' srv'. probe (net_io draws disk envs) (c, srv, n) =
      (Inr (SetHash (SortCanonical (cl_contents c)) = SetHash (SortCanonical (srv_contents ref srv))), c', srv', Suc n)
    \<and> paired q U ref c' srv' \<and> cl_contents c' = cl_contents c \<and> srv_contents ref srv' = srv_contents ref srv"
proof -
  let ?h = "SetHash (SortCanonical (cl_contents c))" and ?st = "vault_at srv ref"
  obtain h s where s: "store_SetHash (cl_store c) = (h, s)" by fastforce
  have gs: "store_good (cl_store c)" "store_good (vs_store ?st)" using p by (simp_all add: paired_def)
  have h: "h = ?h" "store_good s" "entries (store_mem s) = cl_contents c @ []"
    using store_SetHash_good [OF gs(1) s] by (simp_all add: cl_contents_def)
  define c1 where "c1 = c\<lparr>cl_store := s\<rparr>"
  have p1: "paired q U ref c1 srv" "cl_contents c1 = cl_contents c"
    using paired_store [OF p h(2,3)] by (simp_all add: c1_def)
  obtain h2 s2 where s2: "store_SetHash (vs_store ?st) = (h2, s2)" by fastforce
  have h2: "h2 = SetHash (SortCanonical (contents ?st))" "store_good s2" "entries (store_mem s2) = contents ?st"
    using store_SetHash_good [OF gs(2) s2] by (simp_all add: contents_def)
  define srv' where "srv' = set_vault ref (?st\<lparr>vs_store := s2\<rparr>) srv"
  have e: "?st\<lparr>vs_store := s2\<rparr> = ?st\<lparr>vs_store := s2, vbytes := sizes (entries (store_mem s2)), changed := changed ?st\<rparr>"
    using p h2(3) by (simp add: paired_def)
  have p2: "paired q U ref c1 srv'" "srv_contents ref srv' = contents ?st"
    using paired_vault [OF p1(1) h2(2) _ e] p1(1) h2(3) by (simp_all add: srv'_def paired_def)
  define req where "req = zero_req\<lparr>Op := OpProbe, ReqSetHash := ?h\<rparr>"
  have "\<exists>pu. sync_op (envs n) (cl_vid c1) ref nonce req srv =
      (sealResp (envs n) (cl_vid c1) (cl_s2c c1) nonce (if h2 \<noteq> ?h then StatusDiffer else StatusOK) [], pu, srv')" for nonce
    using p1(1) s2 by (intro exI [of _ False]) (simp add: sync_op_def Let_def paired_def req_def srv'_def op_defs)
  from sync_exchange [OF p1(1) cl _ _ _ this] obtain x where
    x: "sync_call (net_io draws disk envs) req (c1, srv, n) = (Inr x, c1, srv', Suc n)"
      "Status x = (if h2 \<noteq> ?h then StatusDiffer else StatusOK)"
    by (auto simp: req_ok_def req_def op_defs zero_req_def length_SetHash entries_ok_def)
  have "set_hash (c, srv, n) = (Inr ?h, c1, srv, n)" using s h(1) by (simp add: set_hash_def c1_def)
  then have "probe (net_io draws disk envs) (c, srv, n) = (Inr (?h = h2), c1, srv', Suc n)"
    using x by (simp add: probe_def and_then_def req_def [symmetric] status_defs ret_def)
  then show ?thesis using p2 p1(2) h2(1) by blast
qed

lemma page_after_within:
  "set (page_from b 0 False (after_cursor p (SortCanonical es))) \<subseteq> set es"
  "length (page_from b 0 False (after_cursor p (SortCanonical es))) \<le> length es"
proof -
  obtain k where k: "page_from b 0 False (after_cursor p (SortCanonical es)) = take k (after_cursor p (SortCanonical es))"
    using page_prefix by blast
  show "set (page_from b 0 False (after_cursor p (SortCanonical es))) \<subseteq> set es"
    unfolding k by (auto simp: after_cursor_def SortCanonical_def dest!: in_set_takeD)
  have "length (after_cursor p (SortCanonical es)) \<le> length (SortCanonical es)" unfolding after_cursor_def by (rule length_filter_le)
  then show "length (page_from b 0 False (after_cursor p (SortCanonical es))) \<le> length es"
    unfolding k by (simp add: SortCanonical_def)
qed

lemma pull_call:
  assumes p: "paired q U ref c srv" and cl: "calm q U draws disk envs" and f: "fits q U" and i: "length i = 16"
  shows "\<exists>x. sync_call (net_io draws disk envs) (zero_req\<lparr>Op := OpPull, CurTs := t, CurID := i\<rparr>) (c, srv, n) = (Inr x, c, srv, Suc n)
    \<and> Status x = StatusOK \<and> RespEntries x = page_from PageBytes 0 False (after_cursor (Position t i) (SortCanonical (srv_contents ref srv)))"
proof -
  let ?st = "vault_at srv ref" and ?req = "zero_req\<lparr>Op := OpPull, CurTs := t, CurID := i\<rparr>"
  let ?pg = "page_from PageBytes 0 False (after_cursor (Position t i) (SortCanonical (contents ?st)))"
  have m: "mem_inv (store_mem (vs_store ?st))" using p by (simp add: paired_def store_good_mem)
  have pg: "store_EntriesAfter (vs_store ?st) t i PageBytes = ?pg"
    using mem_EntriesAfter_spec [OF m] by (simp add: store_EntriesAfter_def contents_def)
  have "distinct (map entry_ID (contents ?st))" using m by (simp add: contents_def mem.contents_distinct)
  then have "entries_ok (contents ?st)" using fits_list [OF f] p by (simp add: paired_def)
  then have ok: "entries_ok ?pg" using page_after_within unfolding entries_ok_def by (meson order_le_less_trans subsetD)
  have "\<exists>pu. sync_op (envs n) (cl_vid c) ref nonce ?req srv =
      (sealResp (envs n) (cl_vid c) (cl_s2c c) nonce StatusOK ?pg, pu, srv)" for nonce
    using p pg by (intro exI [of _ False]) (simp add: sync_op_def Let_def paired_def op_defs)
  from sync_exchange [OF p cl _ _ _ this ok] show ?thesis
    using i by (auto simp: req_ok_def op_defs zero_req_def)
qed

lemma validate_loop_ok:
  assumes i: "mem_inv (store_mem s)" and sk: "\<forall>e \<in> set es. TsMs e \<le> lim"
  shows "validate_loop s True lim seen es = Inr (new_entries (seen \<union> ids_of (entries (store_mem s))) es)"
  using sk
proof (induction es arbitrary: seen)
  case (Cons e es)
  have h: "store_Has s (entry_ID e) \<longleftrightarrow> entry_ID e \<in> ids_of (entries (store_mem s))"
    unfolding store_Has_def using i by (rule mem.has_spec)
  have "\<not> lim < TsMs e" using Cons.prems by (simp add: not_less)
  then show ?case using Cons.IH Cons.prems h by simp
qed simp

lemma new_entries_cover:
  assumes "inj_on entry_ID U" and "set xs \<subseteq> U" and "set es \<subseteq> U"
  shows "set xs \<union> set (new_entries (ids_of xs) es) = set xs \<union> set es"
proof
  show "set xs \<union> set (new_entries (ids_of xs) es) \<subseteq> set xs \<union> set es" using new_entries_set by blast
  show "set xs \<union> set es \<subseteq> set xs \<union> set (new_entries (ids_of xs) es)"
  proof
    fix e assume e: "e \<in> set xs \<union> set es"
    show "e \<in> set xs \<union> set (new_entries (ids_of xs) es)"
    proof (cases "entry_ID e \<in> ids_of xs")
      case True
      then show ?thesis using assms e by (metis UnI1 UnE image_iff inj_onD subsetD)
    next
      case False
      then have "e \<in> set es" using e by auto
      then have "entry_ID e \<in> ids_of (new_entries (ids_of xs) es)" using False by (simp add: new_entries_ids)
      then obtain f where f: "f \<in> set (new_entries (ids_of xs) es)" "entry_ID f = entry_ID e" by auto
      then have "f = e" using assms \<open>e \<in> set es\<close> new_entries_set by (metis inj_onD subsetD)
      then show ?thesis using f by simp
    qed
  qed
qed

lemma distinct_ids_append: "distinct (map entry_ID xs) \<Longrightarrow> distinct (map entry_ID (xs @ new_entries (ids_of xs) es))"
  using new_entries_ids [of "ids_of xs" es] by (auto simp: new_entries_distinct)

lemma push_run:
  assumes p: "paired q U ref c srv" and cl: "calm q U draws disk envs" and f: "fits q U"
    and es: "set es \<subseteq> U" "entries_ok es"
  shows "\<exists>srv'. sendPush (net_io draws disk envs) es (c, srv, n) = (Inr (), c, srv', Suc n) \<and> paired q U ref c srv'
    \<and> set (srv_contents ref srv') = set (srv_contents ref srv) \<union> set es"
proof -
  let ?st = "vault_at srv ref" and ?req = "zero_req\<lparr>Op := OpPush, ReqEntries := es\<rparr>"
  define new where "new = new_entries (ids_of (contents ?st)) es"
  have m: "mem_inv (store_mem (vs_store ?st))" and g: "store_good (vs_store ?st)" and q: "quota srv = q" and sub: "set (contents ?st) \<subseteq> U"
    and vb: "vbytes ?st = sizes (contents ?st)"
    using p by (simp_all add: paired_def store_good_mem)
  have cover: "set (contents ?st @ new) = set (contents ?st) \<union> set es"
    using new_entries_cover [of U "contents ?st" es] f sub es by (simp add: fits_def new_def)
  have d: "distinct (map entry_ID (contents ?st @ new))"
    unfolding new_def by (rule distinct_ids_append) (use m in \<open>simp add: contents_def mem.contents_distinct\<close>)
  have "set (contents ?st @ new) \<subseteq> U" using cover sub es by simp
  note fl = fits_list [OF f d this]
  have lim: "validate_loop (vs_store ?st) True (word_of_int (now (envs n)) + word_of_int (TSSkewMs q)) {} es = Inr new"
  proof -
    have "\<forall>e \<in> set es. TsMs e \<le> word_of_int (now (envs n)) + word_of_int (TSSkewMs q)" using cl es(1) by (auto simp: calm_def)
    from validate_loop_ok [OF m this, of "{}"] show ?thesis by (simp add: new_def contents_def)
  qed
  have v: "validateNew (envs n) q ?st es True = Inr new"
    using lim fl f vb by (simp add: validateNew_def fits_def store_Len_def mem_Len_def flip: contents_def)
  have nok: "\<forall>e \<in> set new. entry_ok e" using es(2) new_entries_set by (auto simp: new_def entries_ok_def)
  have idem: "new_entries (ids_of (contents ?st)) new = new" by (simp add: new_def new_entries_idem)
  obtain s where s: "store_Add (vs_store ?st) new good_add = (Inr (length new), s)" "store_good s" "entries (store_mem s) = contents ?st @ new"
    using store_Add_good [OF g nok] idem by (auto simp: contents_def)
  define st' where "st' = ?st\<lparr>vs_store := s, vbytes := sizes (entries (store_mem s)),
      changed := (if 0 < length new then changed ?st + 1 else changed ?st)\<rparr>"
  have a: "addValidatedLocked (envs n) ?st new = (Inr (length new), st')"
    using s cl vb by (auto simp: addValidatedLocked_def calm_def st'_def notifyLocked_def)
  have p': "paired q U ref c (set_vault ref st' srv)" "srv_contents ref (set_vault ref st' srv) = contents ?st @ new"
    using paired_vault [OF p s(2) _ st'_def] s(3) cover sub es by auto
  have "\<exists>pu. sync_op (envs n) (cl_vid c) ref nonce ?req srv =
      (sealResp (envs n) (cl_vid c) (cl_s2c c) nonce StatusOK [], pu, set_vault ref st' srv)" for nonce
    using p v a q by (simp add: sync_op_def Let_def paired_def op_defs st'_def)
  from sync_exchange [OF p cl _ _ _ this] obtain x where
    "sync_call (net_io draws disk envs) ?req (c, srv, n) = (Inr x, c, set_vault ref st' srv, Suc n)" "Status x = StatusOK"
    using es(2) by (auto simp: req_ok_def op_defs zero_req_def entries_ok_def)
  then have "sendPush (net_io draws disk envs) es (c, srv, n) = (Inr (), c, set_vault ref st' srv, Suc n)"
    by (simp add: sendPush_def and_then_def ret_def)
  then show ?thesis using p' cover by auto
qed

lemma send_all_run:
  assumes cl: "calm q U draws disk envs" and f: "fits q U"
  shows "paired q U ref c srv \<Longrightarrow> \<forall>b \<in> set bs. set b \<subseteq> U \<and> entries_ok b \<Longrightarrow>
    \<exists>srv' n'. send_all (net_io draws disk envs) bs (c, srv, n) = (Inr (), c, srv', n') \<and> paired q U ref c srv'
      \<and> set (srv_contents ref srv') = set (srv_contents ref srv) \<union> set (concat bs)"
proof (induction bs arbitrary: srv n)
  case (Cons b bs)
  then have b: "set b \<subseteq> U" "entries_ok b" by simp_all
  obtain srv1 where s1: "sendPush (net_io draws disk envs) b (c, srv, n) = (Inr (), c, srv1, Suc n)" "paired q U ref c srv1"
    "set (srv_contents ref srv1) = set (srv_contents ref srv) \<union> set b"
    using push_run [OF Cons.prems(1) cl f b] by blast
  from Cons.IH [OF s1(2), of "Suc n"] Cons.prems(2) obtain srv' n' where
    "send_all (net_io draws disk envs) bs (c, srv1, Suc n) = (Inr (), c, srv', n')" "paired q U ref c srv'"
    "set (srv_contents ref srv') = set (srv_contents ref srv1) \<union> set (concat bs)" by auto
  then show ?case using s1 by (auto simp: and_then_def)
qed (auto simp: ret_def)

lemma batches_ok:
  assumes "set es \<subseteq> U" and "entries_ok es" and "b \<in> set (batches es)"
  shows "set b \<subseteq> U \<and> entries_ok b"
proof -
  have "set b \<subseteq> set es" using batches_spec [of es] assms(3) by (metis set_concat UN_upper)
  moreover have "length b \<le> length es"
    using batches_spec [of es] assms(3) by (metis in_set_conv_decomp concat_append concat.simps(2) length_append trans_le_add1 trans_le_add2 order_refl)
  ultimately show ?thesis using assms by (auto simp: entries_ok_def)
qed

lemma store_add_net:
  assumes p: "paired q U ref c srv" and cl: "calm q U draws disk envs" and f: "fits q U" and es: "set es \<subseteq> U"
  shows "\<exists>c'. store_add (net_io draws disk envs) es (c, srv, n) = (Inr (), c', srv, n) \<and> paired q U ref c' srv
    \<and> set (cl_contents c') = set (cl_contents c) \<union> set es"
proof -
  have g: "store_good (cl_store c)" and sub: "set (cl_contents c) \<subseteq> U" using p by (simp_all add: paired_def)
  have nok: "\<forall>e \<in> set es. entry_ok e" using f es by (auto simp: fits_def)
  define new where "new = new_entries (ids_of (cl_contents c)) es"
  obtain s where s: "store_Add (cl_store c) es good_add = (Inr (length new), s)" "store_good s" "entries (store_mem s) = cl_contents c @ new"
    using store_Add_good [OF g nok] by (auto simp: cl_contents_def new_def)
  have new: "set new \<subseteq> U" using new_entries_set es by (auto simp: new_def)
  have "set (cl_contents c @ new) = set (cl_contents c) \<union> set es"
    using new_entries_cover [of U "cl_contents c" es] f sub es by (simp add: fits_def new_def)
  then show ?thesis using paired_store [OF p s(2,3) new] s(1) cl by (auto simp: store_add_def net_io_def calm_def)
qed

lemma pull_loop_run:
  assumes cl: "calm q U draws disk envs" and f: "fits q U"
  shows "paired q U ref c srv \<Longrightarrow> length i = 16 \<Longrightarrow>
    length (after_cursor (Position t i) (SortCanonical (srv_contents ref srv))) < k \<Longrightarrow>
    \<exists>c' n'. pull_loop (net_io draws disk envs) k t i (c, srv, n) = (Inr (), c', srv, n') \<and> paired q U ref c' srv
      \<and> set (cl_contents c') = set (cl_contents c) \<union> set (after_cursor (Position t i) (SortCanonical (srv_contents ref srv)))"
proof (induction k arbitrary: t i c n)
  case (Suc k)
  let ?S = "SortCanonical (srv_contents ref srv)" and ?io = "net_io draws disk envs"
  define rest where "rest = after_cursor (Position t i) ?S"
  define pg where "pg = page_from PageBytes 0 False rest"
  have m: "mem_inv (store_mem (vs_store (vault_at srv ref)))" using Suc.prems(1) by (simp add: paired_def store_good_mem)
  then have s: "sorted_wrt (<) (map pos_of ?S)" by (intro sorted_positions) (simp add: contents_def mem.contents_distinct)
  obtain x where x: "sync_call ?io (zero_req\<lparr>Op := OpPull, CurTs := t, CurID := i\<rparr>) (c, srv, n) = (Inr x, c, srv, Suc n)"
    "Status x = StatusOK" "RespEntries x = pg"
    using pull_call [OF Suc.prems(1) cl f Suc.prems(2)] by (auto simp: pg_def rest_def)
  show ?case
  proof (cases "rest = []")
    case True
    then have "pg = []" by (simp add: pg_def)
    then show ?thesis using x True Suc.prems(1) by (auto simp: rest_def and_then_def ret_def)
  next
    case False
    have ne: "pg \<noteq> []" using page_nonempty [OF False] by (simp add: pg_def)
    have r: "rest = pg @ drop (length pg) rest" using page_take [of PageBytes 0 False rest] pg_def by (metis append_take_drop_id)
    have d: "after_cursor (Position (TsMs (last pg)) (entry_ID (last pg))) ?S = drop (length pg) rest"
      using after_cursor_last [OF s _ ne] r rest_def by (metis pos_of_def)
    have "set rest \<subseteq> set (srv_contents ref srv)" by (auto simp: rest_def after_cursor_def SortCanonical_def)
    then have sub: "set pg \<subseteq> U" using Suc.prems(1) r unfolding paired_def by (metis Un_iff set_append subset_iff)
    have "last pg \<in> set rest" using ne r by (metis UnCI last_in_set set_append)
    then have adv: "posAfter (TsMs (last pg)) (entry_ID (last pg)) t i" by (simp add: posAfter_pos rest_def after_cursor_def)
    obtain c1 where c1: "store_add ?io pg (c, srv, Suc n) = (Inr (), c1, srv, Suc n)" "paired q U ref c1 srv"
      "set (cl_contents c1) = set (cl_contents c) \<union> set pg"
      using store_add_net [OF Suc.prems(1) cl f sub] by blast
    have "0 < length pg" "0 < length rest" using ne False by auto
    then have "length (drop (length pg) rest) < k" using Suc.prems(3) unfolding rest_def [symmetric] length_drop by linarith
    then obtain c' n' where c': "pull_loop ?io k (TsMs (last pg)) (entry_ID (last pg)) (c1, srv, Suc n) = (Inr (), c', srv, n')"
      "paired q U ref c' srv" "set (cl_contents c') = set (cl_contents c1) \<union> set (drop (length pg) rest)"
      using Suc.IH [OF c1(2) length_ID, of "TsMs (last pg)" "last pg" "Suc n"] d by auto
    have "pull_loop ?io (Suc k) t i (c, srv, n) = (Inr (), c', srv, n')"
      using x ne adv c1(1) c'(1) by (simp add: and_then_def Let_def)
    moreover have "set (cl_contents c') = set (cl_contents c) \<union> set rest" using c'(3) c1(3) r by (metis Un_assoc set_append)
    ultimately show ?thesis using c'(2) by (auto simp: rest_def)
  qed
qed simp

section \<open>The rounds\<close>

definition same_hash :: "nat \<Rightarrow> client \<Rightarrow> server \<Rightarrow> bool" where
  "same_hash ref c srv \<longleftrightarrow> SetHash (SortCanonical (cl_contents c)) = SetHash (SortCanonical (srv_contents ref srv))"

text \<open>A call of the composition that succeeds, keeps the pairing and loses nothing of either side.\<close>

definition progress :: "quotas \<Rightarrow> entry set \<Rightarrow> nat \<Rightarrow> client \<Rightarrow> server \<Rightarrow> client \<Rightarrow> server \<Rightarrow> bool" where
  "progress q U ref c srv c' srv' \<longleftrightarrow> paired q U ref c' srv' \<and> set (cl_contents c) \<subseteq> set (cl_contents c')
     \<and> set (srv_contents ref srv) \<subseteq> set (srv_contents ref srv')"

lemma progress_trans: "progress q U ref a s b t \<Longrightarrow> progress q U ref b t c u \<Longrightarrow> progress q U ref a s c u"
  by (auto simp: progress_def)

lemma same_set_hash:
  assumes p: "paired q U ref c srv" and s: "set (cl_contents c) = set (srv_contents ref srv)"
  shows "same_hash ref c srv"
proof -
  have "mem_inv (store_mem (cl_store c))" "mem_inv (store_mem (vs_store (vault_at srv ref)))"
    using p by (simp_all add: paired_def store_good_mem)
  then have "distinct (map entry_ID (cl_contents c))" "distinct (map entry_ID (srv_contents ref srv))"
    by (simp_all add: cl_contents_def contents_def mem.contents_distinct)
  then have "mset (cl_contents c) = mset (srv_contents ref srv)"
    using s by (metis distinct_map set_eq_iff_mset_eq_distinct)
  then show ?thesis unfolding same_hash_def by (rule hash_order_free)
qed

lemma zero_cursor: "fits q U \<Longrightarrow> set es \<subseteq> U \<Longrightarrow> set (after_cursor (Position 0 (replicate 16 0)) (SortCanonical es)) = set es"
  by (auto simp: fits_def after_cursor_def SortCanonical_def)

lemma probe_hash:
  assumes p: "paired q U ref c srv" and cl: "calm q U draws disk envs"
  shows "\<exists>c' srv'. probe (net_io draws disk envs) (c, srv, n) = (Inr (same_hash ref c srv), c', srv', Suc n)
    \<and> progress q U ref c srv c' srv' \<and> cl_contents c' = cl_contents c \<and> srv_contents ref srv' = srv_contents ref srv"
  using probe_run [OF p cl, of n] unfolding same_hash_def progress_def by auto

lemma pushFrom_run:
  assumes p: "paired q U ref c srv" and cl: "calm q U draws disk envs" and f: "fits q U"
  shows "\<exists>srv' n'. pushFrom (net_io draws disk envs) t i (c, srv, n) = (Inr (), c, srv', n') \<and> progress q U ref c srv c srv'
    \<and> set (srv_contents ref srv') = set (srv_contents ref srv) \<union> set (after_cursor (Position t i) (SortCanonical (cl_contents c)))"
proof -
  let ?es = "after_cursor (Position t i) (SortCanonical (cl_contents c))"
  have ok: "client_ok c" and sub: "set (cl_contents c) \<subseteq> U" using p by (simp_all add: paired_def)
  then have "distinct (map entry_ID (cl_contents c))" by (simp add: client_ok_def cl_contents_def mem.contents_distinct)
  then have e: "entries_ok (cl_contents c)" using fits_list [OF f _ sub] by blast
  have "set ?es \<subseteq> set (cl_contents c)" "length ?es \<le> length (cl_contents c)"
    by (auto simp: after_cursor_def SortCanonical_def intro: order_trans [OF length_filter_le])
  then have "set ?es \<subseteq> U" "entries_ok ?es" using sub e by (auto simp: entries_ok_def)
  then have "\<forall>b \<in> set (batches ?es). set b \<subseteq> U \<and> entries_ok b" using batches_ok by blast
  from send_all_run [OF cl f p this, of n] show ?thesis
    unfolding pushFrom_send [OF ok] using batches_spec [of ?es] by (auto simp: progress_def)
qed

lemma reconcile_run:
  assumes p: "paired q U ref c srv" and cl: "calm q U draws disk envs" and f: "fits q U" and i: "length (snd anchor) = 16"
  shows "\<exists>b c' srv' n'. reconcile (net_io draws disk envs) anchor (c, srv, n) = (Inr b, c', srv', n') \<and> progress q U ref c srv c' srv'
    \<and> (b \<longrightarrow> same_hash ref c' srv')
    \<and> (anchor = (0, replicate 16 0) \<longrightarrow> b \<or> set (cl_contents c') = set (srv_contents ref srv'))"
proof -
  let ?io = "net_io draws disk envs"
  obtain t x where a: "anchor = (t, x)" by fastforce
  have sub: "set (srv_contents ref srv) \<subseteq> U" and m: "mem_inv (store_mem (vs_store (vault_at srv ref)))"
    using p by (simp_all add: paired_def store_good_mem)
  have "distinct (map entry_ID (srv_contents ref srv))" using m by (simp add: contents_def mem.contents_distinct)
  then have "length (srv_contents ref srv) < maxPullPages" using fits_list [OF f _ sub] f by (auto simp: fits_def)
  then have "length (after_cursor (Position t x) (SortCanonical (srv_contents ref srv))) < maxPullPages"
    by (auto simp: after_cursor_def SortCanonical_def intro: le_less_trans [OF length_filter_le])
  from pull_loop_run [OF cl f p _ this, of n] i obtain c1 n1 where
    c1: "pullFrom ?io t x (c, srv, n) = (Inr (), c1, srv, n1)" "paired q U ref c1 srv"
      "set (cl_contents c1) = set (cl_contents c) \<union> set (after_cursor (Position t x) (SortCanonical (srv_contents ref srv)))"
    by (auto simp: a pullFrom_def)
  have g1: "progress q U ref c srv c1 srv" using c1 by (auto simp: progress_def)
  obtain c2 srv2 where c2: "probe ?io (c1, srv, n1) = (Inr (same_hash ref c1 srv), c2, srv2, Suc n1)" "progress q U ref c1 srv c2 srv2"
    "cl_contents c2 = cl_contents c1" "srv_contents ref srv2 = srv_contents ref srv"
    using probe_hash [OF c1(2) cl] by blast
  have p2: "paired q U ref c2 srv2" using c2(2) by (simp add: progress_def)
  have g2: "progress q U ref c srv c2 srv2" using progress_trans [OF g1 c2(2)] .
  show ?thesis
  proof (cases "same_hash ref c1 srv")
    case True
    then have "same_hash ref c2 srv2" using c2 by (simp add: same_hash_def)
    moreover have "reconcile ?io anchor (c, srv, n) = (Inr True, c2, srv2, Suc n1)"
      using c1(1) c2(1) True by (simp add: reconcile_def a and_then_def ret_def)
    ultimately show ?thesis using g2 by blast
  next
    case False
    obtain srv3 n3 where s3: "pushFrom ?io t x (c2, srv2, Suc n1) = (Inr (), c2, srv3, n3)" "progress q U ref c2 srv2 c2 srv3"
      "set (srv_contents ref srv3) = set (srv_contents ref srv2) \<union> set (after_cursor (Position t x) (SortCanonical (cl_contents c2)))"
      using pushFrom_run [OF p2 cl f] by blast
    have "reconcile ?io anchor (c, srv, n) = (Inr False, c2, srv3, n3)"
      using c1(1) c2(1) s3(1) False by (simp add: reconcile_def a and_then_def ret_def)
    moreover have "set (cl_contents c2) = set (srv_contents ref srv3)" if "anchor = (0, replicate 16 0)"
      using that a c1(3) c2(3,4) s3(3) zero_cursor [OF f] sub p2 unfolding paired_def by auto
    ultimately show ?thesis using progress_trans [OF g2 s3(2)] by blast
  qed
qed

lemma round_run:
  assumes p: "paired q U ref c srv" and cl: "calm q U draws disk envs" and f: "fits q U"
    and re: "set recents \<subseteq> U" "entries_ok recents"
  shows "\<exists>b c' srv' n'. sync_round (net_io draws disk envs) r recents (c, srv, n) = (Inr b, c', srv', n') \<and> progress q U ref c srv c' srv'
    \<and> (b \<longrightarrow> same_hash ref c' srv') \<and> (0 < r \<longrightarrow> b \<or> set (cl_contents c') = set (srv_contents ref srv'))
    \<and> (0 < r \<longrightarrow> set (cl_contents c) = set (srv_contents ref srv) \<longrightarrow> b)"
proof -
  let ?io = "net_io draws disk envs"
  have reg: "registered c" using p by (simp add: paired_def)
  have "\<exists>srv1 n1. (if r = 0 \<and> 0 < length recents then pushEntries ?io recents else ret ()) (c, srv, n) = (Inr (), c, srv1, n1)
      \<and> progress q U ref c srv c srv1 \<and> (0 < r \<longrightarrow> srv1 = srv)"
  proof (cases "r = 0 \<and> 0 < length recents")
    case True
    have "\<forall>b \<in> set (batches recents). set b \<subseteq> U \<and> entries_ok b" using batches_ok [OF re] by blast
    from send_all_run [OF cl f p this, of n] show ?thesis using True by (auto simp: progress_def pushEntries_send)
  next
    case False
    then have "(if r = 0 \<and> 0 < length recents then pushEntries ?io recents else ret ()) (c, srv, n) = (Inr (), c, srv, n)"
      by (auto simp: ret_def)
    then show ?thesis using p by (auto simp: progress_def)
  qed
  then obtain srv1 n1 where s1: "(if r = 0 \<and> 0 < length recents then pushEntries ?io recents else ret ()) (c, srv, n) = (Inr (), c, srv1, n1)"
    "progress q U ref c srv c srv1" "0 < r \<longrightarrow> srv1 = srv" by blast
  then have p1: "paired q U ref c srv1" by (simp add: progress_def)
  obtain c2 srv2 where c2: "probe ?io (c, srv1, n1) = (Inr (same_hash ref c srv1), c2, srv2, Suc n1)" "progress q U ref c srv1 c2 srv2"
    "cl_contents c2 = cl_contents c" "srv_contents ref srv2 = srv_contents ref srv1"
    using probe_hash [OF p1 cl] by blast
  have g2: "progress q U ref c srv c2 srv2" and p2: "paired q U ref c2 srv2"
    using progress_trans [OF s1(2) c2(2)] c2(2) by (simp_all add: progress_def)
  have eq: "sync_round ?io r recents (c, srv, n) =
      (if same_hash ref c srv1 then (Inr True, c2, srv2, Suc n1) else reconcile ?io (reconcileAnchor r c2) (c2, srv2, Suc n1))"
  proof -
    have "sync_round ?io r recents (c, srv, n) = and_then (if r = 0 \<and> 0 < length recents then pushEntries ?io recents else ret ()) (\<lambda>_.
        and_then (probe ?io) (\<lambda>inSync. if inSync then ret True else (\<lambda>(c, w). reconcile ?io (reconcileAnchor r c) (c, w)))) (c, srv, n)"
      using reg by (simp add: sync_round_def and_then_def ret_def)
    then show ?thesis using s1(1) c2(1) by (simp add: and_then_def ret_def)
  qed
  have hit: "same_hash ref c srv1" if "0 < r" "set (cl_contents c) = set (srv_contents ref srv)"
    using same_set_hash [OF p that(2)] s1(3) that(1) by simp
  show ?thesis
  proof (cases "same_hash ref c srv1")
    case True
    then have "same_hash ref c2 srv2" using c2 by (simp add: same_hash_def)
    then show ?thesis using eq True g2 by auto
  next
    case False
    have "length (snd (reconcileAnchor r c2)) = 16" by (auto simp: reconcileAnchor_def split: option.split)
    from reconcile_run [OF p2 cl f this, of "Suc n1"] obtain b c3 srv3 n3 where
      c3: "reconcile ?io (reconcileAnchor r c2) (c2, srv2, Suc n1) = (Inr b, c3, srv3, n3)" "progress q U ref c2 srv2 c3 srv3"
        "b \<longrightarrow> same_hash ref c3 srv3" "reconcileAnchor r c2 = (0, replicate 16 0) \<longrightarrow> b \<or> set (cl_contents c3) = set (srv_contents ref srv3)"
      by blast
    have "0 < r \<longrightarrow> reconcileAnchor r c2 = (0, replicate 16 0)" by (simp add: reconcileAnchor_def)
    then show ?thesis using eq False c3 progress_trans [OF g2 c3(2)] hit by auto
  qed
qed

lemma rounds_run:
  assumes p: "paired q U ref c srv" and cl: "calm q U draws disk envs" and f: "fits q U"
    and re: "set recents \<subseteq> U" "entries_ok recents"
  shows "\<exists>c' srv' n'. (\<forall>k. sync_rounds (net_io draws disk envs) (Suc (Suc (Suc k))) 0 recents (c, srv, n) = (Inr (), c', srv', n'))
    \<and> progress q U ref c srv c' srv' \<and> same_hash ref c' srv'"
proof -
  let ?io = "net_io draws disk envs"
  obtain b c1 s1 n1 where r0: "sync_round ?io 0 recents (c, srv, n) = (Inr b, c1, s1, n1)" "progress q U ref c srv c1 s1"
    "b \<longrightarrow> same_hash ref c1 s1" using round_run [OF p cl f re, of 0 n] by blast
  have p1: "paired q U ref c1 s1" using r0(2) by (simp add: progress_def)
  obtain b1 c2 s2 n2 where r1: "sync_round ?io 1 recents (c1, s1, n1) = (Inr b1, c2, s2, n2)" "progress q U ref c1 s1 c2 s2"
    "b1 \<longrightarrow> same_hash ref c2 s2" "b1 \<or> set (cl_contents c2) = set (srv_contents ref s2)"
    using round_run [OF p1 cl f re, of 1 n1] by auto
  have p2: "paired q U ref c2 s2" using r1(2) by (simp add: progress_def)
  obtain b2 c3 s3 n3 where r2: "sync_round ?io 2 recents (c2, s2, n2) = (Inr b2, c3, s3, n3)" "progress q U ref c2 s2 c3 s3"
    "b2 \<longrightarrow> same_hash ref c3 s3" "set (cl_contents c2) = set (srv_contents ref s2) \<longrightarrow> b2"
    using round_run [OF p2 cl f re, of 2 n2, simplified zero_less_numeral simp_thms] by blast
  note g1 = progress_trans [OF r0(2) r1(2)]
  note g2 = progress_trans [OF g1 r2(2)]
  consider b | "\<not> b" b1 | "\<not> b" "\<not> b1" b2 using r1(4) r2(4) by blast
  then show ?thesis
    using r0 r1 r2 g1 g2 by cases (auto simp: numeral_2_eq_2)
qed

section \<open>Convergence\<close>

text \<open>C3. A sync with the server converges, and loses nothing of either side: a client whose vault the server
  holds, with room for the union of the two sets and nothing failing to be drawn or written, returns from
  \<open>Sync\<close> without an error, with no unsent writes, in at most three rounds; both sets hold at least what they
  held and at most the union, and their hashes are equal. So both are the union, unless two different
  sets, the ones reached, have the same set hash.\<close>

theorem sync_converges:
  assumes "U = set (cl_contents c) \<union> set (srv_contents ref srv)" and "paired q U ref c srv" and "fits q U"
    and "calm q U draws disk envs" and "set (recent c) \<subseteq> set (cl_contents c)" and "entries_ok (recent c)"
  shows "\<exists>c' srv' n'. Sync (net_io draws disk envs) (c, srv, n) = (Inr (), c', srv', n') \<and> recent c' = []
    \<and> sync_rounds (net_io draws disk envs) 3 0 (recent c) (c\<lparr>recent := []\<rparr>, srv, n) = (Inr (), c', srv', n')
    \<and> paired q U ref c' srv'
    \<and> set (cl_contents c) \<subseteq> set (cl_contents c') \<and> set (cl_contents c') \<subseteq> U
    \<and> set (srv_contents ref srv) \<subseteq> set (srv_contents ref srv') \<and> set (srv_contents ref srv') \<subseteq> U
    \<and> SetHash (SortCanonical (cl_contents c')) = SetHash (SortCanonical (srv_contents ref srv'))
    \<and> (set (cl_contents c') = U \<and> set (srv_contents ref srv') = U \<or> set (cl_contents c') \<noteq> set (srv_contents ref srv'))"
proof -
  let ?io = "net_io draws disk envs" and ?c = "c\<lparr>recent := []\<rparr>"
  have p: "paired q U ref ?c srv" using assms(2) by (simp add: paired_def keys_ok_def)
  have re: "set (recent c) \<subseteq> U" using assms(1,5) by blast
  obtain c' srv' n' where r: "\<And>k. sync_rounds ?io (Suc (Suc (Suc k))) 0 (recent c) (?c, srv, n) = (Inr (), c', srv', n')"
    "progress q U ref ?c srv c' srv'" "same_hash ref c' srv'"
    using rounds_run [OF p assms(4,3) re assms(6)] by blast
  have r64: "sync_rounds ?io 64 0 (recent c) (?c, srv, n) = (Inr (), c', srv', n')" using r(1) [of 61] by simp
  have r3: "sync_rounds ?io 3 0 (recent c) (?c, srv, n) = (Inr (), c', srv', n')" using r(1) [of 0] by (simp add: numeral_3_eq_3)
  have "client_ok ?c" using p by (simp add: paired_def)
  from quietD [OF quiet_rounds this r64] have rc: "recent c' = []" by simp
  have sy: "Sync ?io (c, srv, n) = (Inr (), c', srv', n')" using r64 by (simp add: Sync_def Let_def)
  have p': "paired q U ref c' srv'" and sub: "set (cl_contents c) \<subseteq> set (cl_contents c')" "set (srv_contents ref srv) \<subseteq> set (srv_contents ref srv')"
    using r(2) by (simp_all add: progress_def)
  have U': "set (cl_contents c') \<subseteq> U" "set (srv_contents ref srv') \<subseteq> U" using p' by (simp_all add: paired_def)
  have "set (cl_contents c') = U \<and> set (srv_contents ref srv') = U \<or> set (cl_contents c') \<noteq> set (srv_contents ref srv')"
    using sub U' assms(1) by blast
  then show ?thesis using sy rc r3 p' sub U' r(3) by (intro exI [of _ c'] exI [of _ srv'] exI [of _ n']) (simp add: same_hash_def)
qed

definition pair_client :: client where
  "pair_client = (sample_client [sample_entry 1])\<lparr>registered := True\<rparr>"

definition pair_server :: server where
  "pair_server = (empty_server False DefaultQuotas [] [] [])\<lparr>vaults := [(replicate 16 2, 0)],
     heap := [newVaultState (Mem NewMemStore) (replicate 16 1) None]\<rparr>"

lemma pair_sample:
  "cl_contents pair_client = [sample_entry 1]" "srv_contents 0 pair_server = []"
  "paired (quota pair_server) {sample_entry 1} 0 pair_client pair_server" "fits (quota pair_server) {sample_entry 1}"
proof -
  have e: "entries (snd (mem_Add NewMemStore [sample_entry 1])) = [sample_entry 1]"
    using mem_Add_entries [OF mem_inv_New, of "[sample_entry 1]"] by (simp add: NewMemStore_def)
  show c: "cl_contents pair_client = [sample_entry 1]" using e by (simp add: pair_client_def sample_client_def cl_contents_def)
  show s: "srv_contents 0 pair_server = []"
    by (simp add: pair_server_def vault_at_def contents_def newVaultState_def NewMemStore_def)
  have ok: "client_ok pair_client"
    using sample_client_ok [of "[sample_entry 1]"] by (simp add: pair_client_def client_ok_def cl_contents_def)
  have k: "keys_ok pair_client" using sample_keys by (simp add: pair_client_def keys_ok_def)
  have g: "store_good (cl_store pair_client)"
    using mem_Add_inv [OF mem_inv_New, of "[sample_entry 1]"]
    by (simp add: pair_client_def sample_client_def store_good_def del: mem_Add.simps)
  show "paired (quota pair_server) {sample_entry 1} 0 pair_client pair_server"
    using ok k g c s mem_inv_New
    by (simp add: paired_def pair_server_def vault_at_def newVaultState_def lookup_vault_def pair_client_def sample_client_def
      empty_server_def store_good_def sizes_def)
  show "fits (quota pair_server) {sample_entry 1}"
    using sample_entry_ok [of 1]
    by (simp add: fits_def pair_server_def empty_server_def withDefaults_def DefaultQuotas_def cmp_or_def Let_def maxPullPages_def
      sample_entry_def pos_of_def less_position_def entry_sizes)
qed

theorem sync_converges_witness:
  "\<exists>c' srv' n'. Sync (net_io (\<lambda>_. (Some [], 0)) (\<lambda>_. good_add) (\<lambda>_. sample_env)) (pair_client, pair_server, 0) = (Inr (), c', srv', n')
    \<and> set (cl_contents c') = {sample_entry 1}"
proof -
  have "calm (quota pair_server) {sample_entry 1} (\<lambda>_. (Some [], 0)) (\<lambda>_. good_add) (\<lambda>_. sample_env)"
    by (simp add: calm_def sample_env_def pair_server_def empty_server_def withDefaults_def DefaultQuotas_def cmp_or_def Let_def
      sample_entry_def good_add_def)
  note run = sync_converges [OF _ pair_sample(3,4) this, of 0]
  have "recent pair_client = []" by (simp add: pair_client_def sample_client_def)
  then obtain c' srv' n' where
    "Sync (net_io (\<lambda>_. (Some [], 0)) (\<lambda>_. good_add) (\<lambda>_. sample_env)) (pair_client, pair_server, 0) = (Inr (), c', srv', n')"
    "{sample_entry 1} \<subseteq> set (cl_contents c')" "set (cl_contents c') \<subseteq> {sample_entry 1}"
    using run by (auto simp: pair_sample entries_ok_def)
  then show ?thesis by blast
qed

end
