(* ===== verification/Strings.thy ===== *)
theory Strings
  imports Prelude
begin

text \<open>
  The parts of Go's \<open>strings\<close>, \<open>strconv\<close> and \<open>unicode/utf8\<close> packages that the text formats use, over byte
  strings. They are defined here from the library's documented behaviour and carry no entry in the map.
\<close>

section \<open>Text\<close>

abbreviation chars :: "string \<Rightarrow> bytes" where
  "chars s \<equiv> map of_char s"

definition HasPrefix :: "bytes \<Rightarrow> bytes \<Rightarrow> bool" where
  "HasPrefix b p \<longleftrightarrow> take (length p) b = p"

lemma HasPrefix_simps [simp]:
  "HasPrefix b []" "\<not> HasPrefix [] (p # ps)" "HasPrefix (x # b) (p # ps) \<longleftrightarrow> x = p \<and> HasPrefix b ps"
  by (simp_all add: HasPrefix_def)

definition HasSuffix :: "bytes \<Rightarrow> bytes \<Rightarrow> bool" where
  "HasSuffix b p \<longleftrightarrow> length p \<le> length b \<and> drop (length b - length p) b = p"

definition TrimPrefix :: "bytes \<Rightarrow> bytes \<Rightarrow> bytes" where
  "TrimPrefix b p = (if HasPrefix b p then drop (length p) b else b)"

definition TrimSuffix :: "bytes \<Rightarrow> bytes \<Rightarrow> bytes" where
  "TrimSuffix b p = (if HasSuffix b p then take (length b - length p) b else b)"

text \<open>The text before the first separator, the text after it, and whether there is one.\<close>

definition Cut :: "bytes \<Rightarrow> byte \<Rightarrow> bytes \<times> bytes \<times> bool" where
  "Cut b c = (takeWhile (\<lambda>x. x \<noteq> c) b, tl (dropWhile (\<lambda>x. x \<noteq> c) b), c \<in> set b)"

text \<open>The same at the last separator.\<close>

definition CutLast :: "bytes \<Rightarrow> byte \<Rightarrow> bytes \<times> bytes \<times> bool" where
  "CutLast b c = (case Cut (rev b) c of (after, pre, found) \<Rightarrow> (rev pre, rev after, found))"

fun Split :: "byte \<Rightarrow> bytes \<Rightarrow> bytes list" where
  "Split c [] = [[]]"
| "Split c (b # bs) = (if b = c then [] # Split c bs else case Split c bs of [] \<Rightarrow> [[b]] | w # ws \<Rightarrow> (b # w) # ws)"

fun Join :: "bytes \<Rightarrow> bytes list \<Rightarrow> bytes" where
  "Join sep [] = []"
| "Join sep [w] = w"
| "Join sep (w # v # ws) = w @ sep @ Join sep (v # ws)"

lemma Split_nonempty [simp]: "Split c b \<noteq> []"
  by (cases b) (auto split: list.split)

lemma Split_word: "c \<notin> set w \<Longrightarrow> Split c w = [w]"
  by (induction w) auto

lemma Split_append: "c \<notin> set w \<Longrightarrow> Split c (w @ c # b) = w # Split c b"
  by (induction w) auto

lemma Split_Join: "ws \<noteq> [] \<Longrightarrow> \<forall>w \<in> set ws. c \<notin> set w \<Longrightarrow> Split c (Join [c] ws) = ws"
  by (induction "[c]" ws rule: Join.induct) (auto simp: Split_word Split_append)

lemma Split_free: "w \<in> set (Split c b) \<Longrightarrow> c \<notin> set w"
proof (induction b arbitrary: w)
  case (Cons x b)
  obtain v vs where "Split c b = v # vs" by (cases "Split c b") auto
  then show ?case using Cons by (auto split: if_splits)
qed simp

lemma Join_Cons: "ws \<noteq> [] \<Longrightarrow> Join sep (w # ws) = w @ sep @ Join sep ws"
  by (cases ws) simp_all

lemma Join_Split: "Join [c] (Split c b) = b"
proof (induction b)
  case (Cons x b)
  obtain w ws where s: "Split c b = w # ws" by (cases "Split c b") auto
  show ?case using Cons s by (cases ws) auto
qed simp

lemma Cut_found: "c \<notin> set a \<Longrightarrow> Cut (a @ c # b) c = (a, b, True)"
  by (simp add: Cut_def takeWhile_append dropWhile_append)

lemma CutLast_found: "c \<notin> set b \<Longrightarrow> CutLast (a @ c # b) c = (a, b, True)"
  using Cut_found [of c "rev b" "rev a"] by (simp add: CutLast_def)

lemma Cut_sound: "Cut b c = (x, y, True) \<Longrightarrow> b = x @ c # y \<and> c \<notin> set x"
proof -
  assume "Cut b c = (x, y, True)"
  then have x: "x = takeWhile (\<lambda>x. x \<noteq> c) b" and y: "y = tl (dropWhile (\<lambda>x. x \<noteq> c) b)" and c: "c \<in> set b"
    by (auto simp: Cut_def)
  then have d: "dropWhile (\<lambda>x. x \<noteq> c) b \<noteq> []" by simp
  then have "hd (dropWhile (\<lambda>x. x \<noteq> c) b) = c" using hd_dropWhile [OF d] by simp
  then have "dropWhile (\<lambda>x. x \<noteq> c) b = c # y" using d y by (metis list.collapse)
  then show ?thesis using x takeWhile_dropWhile_id [of "\<lambda>x. x \<noteq> c" b] set_takeWhileD by fastforce
qed

section \<open>White space\<close>

text \<open>The UTF-8 forms of the characters \<open>unicode.IsSpace\<close> accepts.\<close>

definition spaces :: "bytes list" where
  "spaces = [[9], [10], [11], [12], [13], [32], [0xC2, 0x85], [0xC2, 0xA0], [0xE1, 0x9A, 0x80],
     [0xE2, 0x80, 0x80], [0xE2, 0x80, 0x81], [0xE2, 0x80, 0x82], [0xE2, 0x80, 0x83], [0xE2, 0x80, 0x84], [0xE2, 0x80, 0x85],
     [0xE2, 0x80, 0x86], [0xE2, 0x80, 0x87], [0xE2, 0x80, 0x88], [0xE2, 0x80, 0x89], [0xE2, 0x80, 0x8A],
     [0xE2, 0x80, 0xA8], [0xE2, 0x80, 0xA9], [0xE2, 0x80, 0xAF], [0xE2, 0x81, 0x9F], [0xE3, 0x80, 0x80]]"

function strip_prefixes :: "bytes list \<Rightarrow> bytes \<Rightarrow> bytes" where
  "strip_prefixes ss b =
     (case find (\<lambda>s. s \<noteq> [] \<and> HasPrefix b s) ss of
        None \<Rightarrow> b
      | Some s \<Rightarrow> strip_prefixes ss (drop (length s) b))"
  by pat_completeness auto
termination
proof (relation "measure (\<lambda>(ss, b). length b)")
  fix ss b s assume "find (\<lambda>s. s \<noteq> [] \<and> HasPrefix b s) ss = Some s"
  then have "s \<noteq> [] \<and> HasPrefix b s" by (auto simp: find_Some_iff)
  then show "((ss, drop (length s) b), ss, b) \<in> measure (\<lambda>(ss, b). length b)" by (cases b; cases s) auto
qed simp

declare strip_prefixes.simps [simp del]

definition TrimSpace :: "bytes \<Rightarrow> bytes" where
  "TrimSpace b = rev (strip_prefixes (map rev spaces) (rev (strip_prefixes spaces b)))"

text \<open>Printable ASCII other than the space: text that begins and ends with it has nothing to trim.\<close>

definition graphic :: "byte \<Rightarrow> bool" where
  "graphic c \<longleftrightarrow> 0x21 \<le> c \<and> c \<le> 0x7E"

lemma spaces_ends: "\<forall>s \<in> set spaces. s \<noteq> [] \<and> \<not> graphic (hd s) \<and> \<not> graphic (last s)"
  by (simp add: spaces_def graphic_def)

lemma strip_none:
  assumes "graphic c" and "\<forall>s \<in> set ss. s \<noteq> [] \<and> \<not> graphic (hd s)"
  shows "strip_prefixes ss (c # b) = c # b"
proof -
  have "\<not> HasPrefix (c # b) s" if "s \<in> set ss" for s
    using assms that by (cases s) auto
  then have "find (\<lambda>s. s \<noteq> [] \<and> HasPrefix (c # b) s) ss = None" by (auto simp: find_None_iff)
  then show ?thesis by (simp add: strip_prefixes.simps [of _ "c # b"])
qed

lemma strip_graphic:
  assumes "graphic c"
  shows "strip_prefixes spaces (c # b) = c # b" and "strip_prefixes (map rev spaces) (c # b) = c # b"
  using spaces_ends assms by (auto intro!: strip_none simp: hd_rev)

lemma find_space: "find (\<lambda>s. s \<noteq> [] \<and> HasPrefix (32 # b) s) spaces = Some [32]"
  "find (\<lambda>s. s \<noteq> [] \<and> HasPrefix (32 # b) s) (map rev spaces) = Some [32]"
  by (simp_all add: spaces_def)

lemma strip_space:
  "strip_prefixes spaces (32 # b) = strip_prefixes spaces b" "strip_prefixes (map rev spaces) (32 # b) = strip_prefixes (map rev spaces) b"
  by (simp_all add: strip_prefixes.simps [of _ "32 # b"] find_space)

definition tight :: "bytes \<Rightarrow> bool" where
  "tight w \<longleftrightarrow> w \<noteq> [] \<and> graphic (hd w) \<and> graphic (last w)"

lemma TrimSpace_tight: "tight w \<Longrightarrow> TrimSpace w = w"
proof -
  assume w: "tight w"
  obtain c v where c: "w = c # v" using w by (cases w) (auto simp: tight_def)
  obtain d u where d: "rev w = d # u" using c by (cases "rev w") auto
  have "hd (rev w) = last w" using c by (simp add: hd_rev)
  then have "graphic c" "graphic d" using w c d by (simp_all add: tight_def)
  then have "strip_prefixes spaces w = w" "strip_prefixes (map rev spaces) (rev w) = rev w"
    using strip_graphic c d by simp_all
  then show ?thesis by (simp add: TrimSpace_def)
qed

lemma TrimSpace_before: "TrimSpace (32 # b) = TrimSpace b"
  by (simp add: TrimSpace_def strip_space)

lemma TrimSpace_after: "tight w \<Longrightarrow> TrimSpace (w @ [32]) = w"
proof -
  assume w: "tight w"
  obtain c v where c: "w = c # v" using w by (cases w) (auto simp: tight_def)
  have "graphic c" using w c by (simp add: tight_def)
  then have "TrimSpace (w @ [32]) = rev (strip_prefixes (map rev spaces) (32 # rev w))"
    using strip_graphic(1) [of c "v @ [32]"] by (simp add: TrimSpace_def c)
  also have "\<dots> = TrimSpace w" using strip_graphic(1) [of c v] \<open>graphic c\<close> by (simp add: strip_space TrimSpace_def c)
  finally show ?thesis using TrimSpace_tight [OF w] by simp
qed

end
