(* ===== verification/FloatText.thy ===== *)
theory FloatText
  imports Strings
begin

text \<open>
  \<open>strconv.ParseFloat\<close> of a decimal and \<open>strconv.FormatFloat\<close> in the shortest \<open>'g'\<close> form, for IEEE 754 double
  precision. A finite double is a sign, an integer below \<open>2^53\<close> and a scale: \<open>m * 2^k / 2^1074\<close>, with the
  integer's top bit set unless the scale is 0. Rounding is to nearest, ties to even. The shortest form is the
  fewest digits that read back as the same double, nearest to it among those; that 17 digits always
  read back is proved here.
\<close>

section \<open>The nearest double\<close>

fun nbits :: "nat \<Rightarrow> nat" where
  "nbits n = (if n = 0 then 0 else Suc (nbits (n div 2)))"

declare nbits.simps [simp del]

lemma nbits_le: "nbits n \<le> j \<longleftrightarrow> n < 2 ^ j"
proof (induction n arbitrary: j rule: nbits.induct)
  case (1 n)
  show ?case
  proof (cases "n = 0")
    case True
    then show ?thesis by (simp add: nbits.simps [of 0])
  next
    case False
    show ?thesis
    proof (cases j)
      case 0
      then show ?thesis using False by (simp add: nbits.simps [of n])
    next
      case (Suc i)
      have "nbits n \<le> j \<longleftrightarrow> n div 2 < 2 ^ i" using False Suc "1.IH" by (simp add: nbits.simps [of n])
      also have "\<dots> \<longleftrightarrow> n < 2 ^ j" using Suc by (simp add: div_less_iff_less_mult mult.commute)
      finally show ?thesis .
    qed
  qed
qed

definition round_half_even :: "nat \<Rightarrow> nat \<Rightarrow> nat" where
  "round_half_even n d =
     (let q = n div d; r = n mod d in if d < 2 * r \<or> 2 * r = d \<and> odd q then q + 1 else q)"

definition unit_scale :: nat where
  "unit_scale = 2 ^ 1074"

text \<open>The double nearest to the rational \<open>n / d\<close>; \<open>None\<close> is an overflow.\<close>

definition nearest :: "nat \<Rightarrow> nat \<Rightarrow> (nat \<times> nat) option" where
  "nearest n d =
     (let N = n * unit_scale; k = nbits (N div d) - 53; m = round_half_even N (d * 2 ^ k);
          (m, k) = (if m = 2 ^ 53 then (2 ^ 52, k + 1) else (m, k))
      in if k \<le> 2045 then Some (m, k) else None)"

definition double_ok :: "nat \<Rightarrow> nat \<Rightarrow> bool" where
  "double_ok m k \<longleftrightarrow> m < 2 ^ 53 \<and> (k = 0 \<or> 2 ^ 52 \<le> m) \<and> k \<le> 2045"

lemma round_near:
  assumes "2 * N < (2 * m + 1) * D" and "2 * m * D < 2 * N + D"
  shows "round_half_even N D = m"
proof -
  have D: "0 < D" using assms by (cases D) auto
  define q r where "q = N div D" and "r = N mod D"
  have N: "N = q * D + r" and r: "r < D" using D by (simp_all add: q_def r_def)
  consider "q = m" | "q + 1 = m" | "m < q" | "q + 1 < m" by linarith
  then show ?thesis
  proof cases
    case 1
    then have "2 * r < D" using assms(1) N by (simp add: algebra_simps)
    then show ?thesis using 1 by (simp add: round_half_even_def Let_def q_def [symmetric] r_def [symmetric])
  next
    case 2
    then have "D < 2 * r" using assms(2) N by (auto simp: algebra_simps)
    then show ?thesis using 2 by (simp add: round_half_even_def Let_def q_def [symmetric] r_def [symmetric])
  next
    case 3
    then have "(m + 1) * D \<le> q * D" by (intro mult_right_mono) auto
    then have "2 * (m + 1) * D \<le> 2 * N" using N by simp
    then show ?thesis using assms(1) D by (simp add: algebra_simps)
  next
    case 4
    then have "(q + 2) * D \<le> m * D" by (intro mult_right_mono) auto
    then have "2 * (q + 2) * D \<le> 2 * m * D" by simp
    then show ?thesis using assms(2) N r by (simp add: algebra_simps)
  qed
qed

lemma round_exact_error: "0 < D \<Longrightarrow> 2 * N \<le> 2 * round_half_even N D * D + D \<and> 2 * round_half_even N D * D \<le> 2 * N + D"
proof -
  assume D: "0 < D"
  define q r where "q = N div D" and "r = N mod D"
  have N: "N = q * D + r" and r: "r < D" using D by (simp_all add: q_def r_def)
  show ?thesis using r
    unfolding round_half_even_def Let_def q_def [symmetric] r_def [symmetric] N by (auto simp: algebra_simps)
qed

text \<open>A rational less than \<open>2^-54\<close> of a double's value away from it rounds to it.\<close>

lemma nearest_close:
  assumes ok: "double_ok m k" and d: "0 < d"
    and lo: "2 ^ 54 * (m * 2 ^ k * d) < 2 ^ 54 * (n * unit_scale) + m * 2 ^ k * d"
    and hi: "2 ^ 54 * (n * unit_scale) < 2 ^ 54 * (m * 2 ^ k * d) + m * 2 ^ k * d"
  shows "nearest n d = Some (m, k)"
proof -
  define N D V where "N = n * unit_scale" and "D = d * 2 ^ k" and "V = m * D"
  have D: "0 < D" using d by (simp add: D_def)
  have V: "m * 2 ^ k * d = V" by (simp add: V_def D_def algebra_simps)
  have lo': "2 ^ 54 * V < 2 ^ 54 * N + V" and hi': "2 ^ 54 * N < 2 ^ 54 * V + V" using lo hi V by (simp_all add: N_def)
  have m: "m < 2 ^ 53" "k = 0 \<or> 2 ^ 52 \<le> m" "k \<le> 2045" using ok by (simp_all add: double_ok_def)
  have VD: "V < 2 ^ 53 * D" using m(1) D by (simp add: V_def)
  define j where "j = nbits (N div d) - 53"
  have jle: "j \<le> i \<longleftrightarrow> N < d * 2 ^ (53 + i)" for i
  proof -
    have "j \<le> i \<longleftrightarrow> nbits (N div d) \<le> 53 + i" by (auto simp: j_def)
    also have "\<dots> \<longleftrightarrow> N < d * 2 ^ (53 + i)" using d by (simp add: nbits_le div_less_iff_less_mult mult.commute)
    finally show ?thesis .
  qed
  have near: "round_half_even N D = m"
  proof (rule round_near)
    have "(2 * m + 1) * D = 2 * V + D" "2 * m * D = 2 * V" by (simp_all add: V_def algebra_simps)
    moreover have "2 * N < 2 * V + D" using hi' VD by simp
    moreover have "2 * V < 2 * N + D" using lo' VD by simp
    ultimately show "2 * N < (2 * m + 1) * D" "2 * m * D < 2 * N + D" by simp_all
  qed
  have jk: "j \<le> k"
  proof -
    have "V \<le> (2 ^ 53 - 1) * D" unfolding V_def using m(1) by (intro mult_right_mono) auto
    then have "N < 2 ^ 53 * D" using hi' VD by simp
    then show ?thesis by (simp add: jle D_def power_add algebra_simps)
  qed
  show ?thesis
  proof (cases "j = k")
    case True
    then show ?thesis using near m by (simp add: nearest_def Let_def N_def [symmetric] j_def [symmetric] D_def [symmetric])
  next
    case False
    then obtain i where i: "k = Suc i" "j \<le> i" using jk by (cases k) auto
    define E where "E = d * 2 ^ i"
    have DE: "D = 2 * E" by (simp add: D_def E_def i(1))
    have N: "N < 2 ^ 53 * E" using i(2) by (simp add: jle E_def power_add algebra_simps)
    have m52: "2 ^ 52 \<le> m" using m(2) i(1) by simp
    have Vm: "V = 2 * m * E" by (simp add: V_def DE)
    have "m = 2 ^ 52"
    proof (rule ccontr)
      assume "m \<noteq> 2 ^ 52"
      then have "(2 ^ 52 + 1) * (2 * E) \<le> m * (2 * E)" using m52 by (intro mult_right_mono) auto
      also have "\<dots> = V" by (simp add: Vm)
      finally have "(2 ^ 52 + 1) * (2 * E) \<le> V" .
      then show False using N lo' by simp
    qed
    then have V53: "V = 2 ^ 53 * E" using Vm by simp
    have "i \<le> j"
    proof (cases i)
      case (Suc h)
      have "\<not> N < d * 2 ^ (53 + h)"
      proof -
        have "E = 2 * (d * 2 ^ h)" by (simp add: E_def Suc)
        then show ?thesis using lo' V53 by (simp add: power_add)
      qed
      then show ?thesis using jle [of h] Suc by simp
    qed simp
    then have ji: "j = i" using i(2) by simp
    have "round_half_even N E = 2 ^ 53" using lo' N V53 by (intro round_near) (simp_all add: algebra_simps)
    then show ?thesis using m ji i(1) \<open>m = 2 ^ 52\<close>
      by (simp add: nearest_def Let_def N_def [symmetric] j_def [symmetric] E_def [symmetric])
  qed
qed

lemma nearest_scale: "0 < c \<Longrightarrow> nearest (n * c) (d * c) = nearest n d"
proof -
  assume c: "0 < c"
  have r: "round_half_even (x * c) (y * c) = round_half_even x y" for x y
  proof -
    have "x * c mod (y * c) = (x mod y) * c" by (simp add: mult_mod_left)
    moreover have "y * c < 2 * (x mod y * c) \<longleftrightarrow> y < 2 * (x mod y)" using c by (metis mult.assoc mult_less_cancel2)
    moreover have "2 * (x mod y * c) = y * c \<longleftrightarrow> 2 * (x mod y) = y" using c by (metis mult.assoc mult_cancel2 less_numeral_extra(3))
    ultimately show ?thesis using c by (simp add: round_half_even_def Let_def)
  qed
  have N: "n * c * unit_scale = n * unit_scale * c" and D: "d * c * 2 ^ k = d * 2 ^ k * c" for k by (simp_all only: mult_ac)
  show ?thesis unfolding nearest_def Let_def N D r using c by simp
qed

lemma nearest_ratio: "0 < d \<Longrightarrow> 0 < d' \<Longrightarrow> n * d' = n' * d \<Longrightarrow> nearest n d = nearest n' d'"
  using nearest_scale [of d' n d] nearest_scale [of d n' d'] by (simp add: mult.commute)

lemma nearest_ok: "0 < d \<Longrightarrow> nearest n d = Some (m, k) \<Longrightarrow> double_ok m k"
proof -
  assume d: "0 < d" and s: "nearest n d = Some (m, k)"
  define N j where "N = n * unit_scale" and "j = nbits (N div d) - 53"
  define r where "r = round_half_even N (d * 2 ^ j)"
  have "nbits (N div d) \<le> 53 + j" by (simp add: j_def)
  then have "N < d * 2 ^ j * 2 ^ 53" using d by (simp add: nbits_le div_less_iff_less_mult mult_ac power_add)
  then have "N div (d * 2 ^ j) < 2 ^ 53" using d by (simp add: div_less_iff_less_mult mult.commute)
  then have r1: "r \<le> 2 ^ 53" by (simp add: r_def round_half_even_def Let_def)
  have r2: "2 ^ 52 \<le> r" if "j \<noteq> 0"
  proof -
    have "52 + j = nbits (N div d) - 1" "0 < nbits (N div d)" using that by (auto simp: j_def)
    then have "\<not> nbits (N div d) \<le> 52 + j" by linarith
    then have "2 ^ (52 + j) \<le> N div d" by (simp add: nbits_le)
    then have "2 ^ (52 + j) * d \<le> N" using d by (simp add: less_eq_div_iff_mult_less_eq)
    then have "2 ^ 52 * (d * 2 ^ j) \<le> N" by (simp add: power_add mult_ac)
    then have "2 ^ 52 \<le> N div (d * 2 ^ j)" using d by (simp add: less_eq_div_iff_mult_less_eq)
    then show ?thesis by (simp add: r_def round_half_even_def Let_def)
  qed
  have "nearest n d = (let (m, k) = (if r = 2 ^ 53 then (2 ^ 52, j + 1) else (r, j)) in if k \<le> 2045 then Some (m, k) else None)"
    by (simp add: nearest_def Let_def N_def [symmetric] j_def [symmetric] r_def [symmetric])
  then show ?thesis using s r1 r2 by (cases "r = 2 ^ 53") (auto simp: double_ok_def split: if_splits)
qed

section \<open>Decimal digits\<close>

fun digits :: "nat \<Rightarrow> nat list" where
  "digits n = (if n < 10 then [n] else digits (n div 10) @ [n mod 10])"

declare digits.simps [simp del]

definition val10 :: "nat list \<Rightarrow> nat" where
  "val10 ds = foldl (\<lambda>v d. 10 * v + d) 0 ds"

lemma val10_snoc: "val10 (ds @ [d]) = 10 * val10 ds + d"
  by (simp add: val10_def)

lemma val10_zeros: "val10 (ds @ replicate j 0) = val10 ds * 10 ^ j"
  by (induction j) (simp_all add: replicate_append_same [symmetric] append_assoc [symmetric] val10_snoc del: append_assoc)

lemma val10_lead: "val10 (replicate j 0 @ ds) = val10 ds"
  by (induction j) (simp_all add: val10_def)

lemma val10_digits: "val10 (digits n) = n"
proof (induction n rule: digits.induct)
  case (1 n)
  then show ?case by (subst digits.simps) (auto simp: val10_snoc val10_def)
qed

lemma digits_below: "d \<in> set (digits n) \<Longrightarrow> d < 10"
proof (induction n rule: digits.induct)
  case (1 n)
  then show ?case by (subst (asm) digits.simps) (auto split: if_splits)
qed

lemma digits_nonempty [simp]: "digits n \<noteq> []"
  by (subst digits.simps) simp

lemma hd_digits: "0 < n \<Longrightarrow> 0 < hd (digits n)"
proof (induction n rule: digits.induct)
  case (1 n)
  then show ?case by (subst digits.simps) (auto simp: hd_append)
qed

lemma digits_bounds: "0 < n \<Longrightarrow> 10 ^ (length (digits n) - 1) \<le> n \<and> n < 10 ^ length (digits n)"
proof (induction n rule: digits.induct)
  case (1 n)
  show ?case
  proof (cases "n < 10")
    case True
    then show ?thesis using "1.prems" by (simp add: digits.simps [of n])
  next
    case False
    then have ih: "10 ^ (length (digits (n div 10)) - 1) \<le> n div 10" "n div 10 < 10 ^ length (digits (n div 10))"
      using "1.IH" by simp_all
    obtain l where l: "length (digits (n div 10)) = Suc l" by (cases "digits (n div 10)") auto
    have e: "length (digits n) = Suc (Suc l)" using False l by (simp add: digits.simps [of n])
    have "10 ^ l * 10 \<le> n" using ih(1) l by (simp add: less_eq_div_iff_mult_less_eq)
    moreover have "n < 10 ^ Suc l * 10" using ih(2) l by (simp add: div_less_iff_less_mult)
    ultimately show ?thesis using e by (simp add: mult.commute)
  qed
qed

definition digit_byte :: "nat \<Rightarrow> byte" where
  "digit_byte d = of_nat (48 + d)"

definition is_digit :: "byte \<Rightarrow> bool" where
  "is_digit c \<longleftrightarrow> 48 \<le> c \<and> c \<le> 57"

definition dec_value :: "bytes \<Rightarrow> nat" where
  "dec_value b = val10 (map (\<lambda>c. unat c - 48) b)"

lemma digit_byte_ok: "d < 10 \<Longrightarrow> is_digit (digit_byte d) \<and> unat (digit_byte d) - 48 = d"
proof -
  assume "d < 10"
  then have "unat (digit_byte d) = 48 + d" by (simp add: digit_byte_def unat_of_nat del: of_nat_add)
  then show ?thesis using \<open>d < 10\<close> by (simp add: is_digit_def word_le_nat_alt)
qed

lemma dec_value_digits: "\<forall>d \<in> set ds. d < 10 \<Longrightarrow> dec_value (map digit_byte ds) = val10 ds"
proof -
  assume "\<forall>d \<in> set ds. d < 10"
  then have "map ((\<lambda>c. unat c - 48) \<circ> digit_byte) ds = ds" using digit_byte_ok by (intro map_idI) auto
  then show ?thesis by (simp add: dec_value_def)
qed

section \<open>Reading and writing\<close>

definition dec10 :: "nat \<Rightarrow> int \<Rightarrow> (nat \<times> nat) option" where
  "dec10 D e = (if 0 \<le> e then nearest (D * 10 ^ nat e) 1 else nearest D (10 ^ nat (- e)))"

text \<open>\<open>ParseFloat\<close> of a number in JSON's syntax.\<close>

definition ParseFloat :: "bytes \<Rightarrow> (bool \<times> nat \<times> nat) option" where
  "ParseFloat tok =
     (let neg = HasPrefix tok [45]; s = TrimPrefix tok [45]; i = takeWhile is_digit s; s = dropWhile is_digit s;
          (f, s) = (if HasPrefix s [46] then (takeWhile is_digit (tl s), dropWhile is_digit (tl s)) else ([], s));
          s = tl s;
          e = (if HasPrefix s [45] then - int (dec_value (tl s))
               else if HasPrefix s [43] then int (dec_value (tl s)) else int (dec_value s))
      in case dec10 (dec_value (i @ f)) (e - int (length f)) of
           None \<Rightarrow> None
         | Some (m, k) \<Rightarrow> Some (neg, m, k))"

definition dec_scale :: nat where
  "dec_scale = 10 ^ 340"

text \<open>The shortest digits of a double that is not zero, as an integer and a power of ten over \<open>10^340\<close>.\<close>

definition pick :: "nat \<Rightarrow> nat \<Rightarrow> nat \<Rightarrow> nat option" where
  "pick m k P =
     (let A = m * 2 ^ k * dec_scale; lo = A div (unit_scale * P); ok = (\<lambda>x. nearest (x * P) (dec_scale) = Some (m, k))
      in if ok lo \<and> ok (lo + 1) then Some (round_half_even A (unit_scale * P))
         else if ok lo then Some lo
         else if ok (lo + 1) then Some (lo + 1)
         else None)"

definition shortest :: "nat \<Rightarrow> nat \<Rightarrow> nat \<times> nat" where
  "shortest m k =
     (let L = length (digits (m * 2 ^ k * dec_scale div unit_scale))
      in case find (\<lambda>n. pick m k (10 ^ (L - n)) \<noteq> None) [1..<18] of
           Some n \<Rightarrow> (the (pick m k (10 ^ (L - n))), L - n)
         | None \<Rightarrow> (0, 0))"

definition fmtE :: "nat list \<Rightarrow> int \<Rightarrow> bytes" where
  "fmtE ds e =
     digit_byte (hd ds) # (if tl ds \<noteq> [] then 46 # map digit_byte (tl ds) else [])
       @ [101, if e < 0 then 45 else 43]
       @ (let a = nat \<bar>e\<bar> in if a < 10 then [48, digit_byte a] else map digit_byte (digits a))"

definition fmtF :: "nat list \<Rightarrow> int \<Rightarrow> bytes" where
  "fmtF ds dp =
     (if dp \<le> 0 then 48 # 46 # replicate (nat (- dp)) 48 @ map digit_byte ds
      else if int (length ds) \<le> dp then map digit_byte ds @ replicate (nat dp - length ds) 48
      else map digit_byte (take (nat dp) ds) @ 46 # map digit_byte (drop (nat dp) ds))"

text \<open>\<open>FormatFloat(v, 'g', -1, 64)\<close>.\<close>

definition FormatFloat :: "bool \<Rightarrow> nat \<Rightarrow> nat \<Rightarrow> bytes" where
  "FormatFloat neg m k =
     (if neg then [45] else []) @
     (if m = 0 then [48]
      else case shortest m k of
             (D, s) \<Rightarrow>
               let ds = rev (dropWhile (\<lambda>d. d = 0) (rev (digits D))); dp = int (length (digits D)) + int s - 340
               in if dp - 1 < - 4 \<or> 6 \<le> dp - 1 then fmtE ds (dp - 1) else fmtF ds dp)"

section \<open>The shortest form reads back\<close>

lemma round_cases: "round_half_even N D = N div D \<or> round_half_even N D = N div D + 1"
  by (simp add: round_half_even_def Let_def)

lemma pick_sound: "pick m k P = Some D \<Longrightarrow> nearest (D * P) (dec_scale) = Some (m, k)"
  using round_cases [of "m * 2 ^ k * dec_scale" "unit_scale * P"]
  by (auto simp: pick_def Let_def split: if_splits)

lemma unit_scale_pos: "0 < unit_scale"
  by (simp add: unit_scale_def)

lemma pick_17:
  assumes ok: "double_ok m k" and m: "0 < m"
    and P: "P = 10 ^ (length (digits (m * 2 ^ k * dec_scale div unit_scale)) - 17)"
  shows "pick m k P \<noteq> None"
proof -
  define A L where "A = m * 2 ^ k * dec_scale" and "L = length (digits (A div unit_scale))"
  define r where "r = round_half_even A (unit_scale * P)"
  have "dec_scale \<le> A" using m by (simp add: A_def)
  moreover have "(10 :: nat) ^ 16 * unit_scale \<le> dec_scale" by (simp add: unit_scale_def dec_scale_def)
  ultimately have big: "10 ^ 16 \<le> A div unit_scale" using unit_scale_pos by (simp add: less_eq_div_iff_mult_less_eq)
  have "(0 :: nat) < 10 ^ 16" by simp
  then have q: "0 < A div unit_scale" using big by (rule less_le_trans)
  note b = digits_bounds [OF q, folded L_def]
  have "17 \<le> L"
  proof (rule ccontr)
    assume "\<not> 17 \<le> L"
    then have "(10 :: nat) ^ L \<le> 10 ^ 16" by (intro power_increasing) simp_all
    then show False using b big by linarith
  qed
  then have "L - 1 = 16 + (L - 17)" by simp
  moreover have "P = 10 ^ (L - 17)" using P by (simp only: A_def L_def)
  ultimately have "10 ^ 16 * P = 10 ^ (L - 1)" by (metis power_add)
  then have "10 ^ 16 * P \<le> A div unit_scale" using b by simp
  then have AP: "10 ^ 16 * (unit_scale * P) \<le> A" using unit_scale_pos by (simp add: less_eq_div_iff_mult_less_eq mult_ac)
  define W where "W = unit_scale * P"
  have W: "0 < W" using P unit_scale_pos by (simp add: W_def)
  have e: "2 * A \<le> 2 * (r * W) + W" "2 * (r * W) \<le> 2 * A + W"
    using round_exact_error [OF W, of A] by (simp_all add: r_def W_def [symmetric] mult.assoc)
  have near: "nearest (r * P) (dec_scale) = Some (m, k)"
  proof (rule nearest_close [OF ok])
    have V: "m * 2 ^ k * dec_scale = A" and N: "r * P * unit_scale = r * W" by (simp_all add: A_def W_def)
    have AW: "10 ^ 16 * W \<le> A" using AP by (simp add: W_def)
    show "0 < dec_scale" by (simp add: dec_scale_def)
    show "2 ^ 54 * (m * 2 ^ k * dec_scale) < 2 ^ 54 * (r * P * unit_scale) + m * 2 ^ k * dec_scale"
      "2 ^ 54 * (r * P * unit_scale) < 2 ^ 54 * (m * 2 ^ k * dec_scale) + m * 2 ^ k * dec_scale"
      unfolding V N using e AW W by simp_all
  qed
  then show ?thesis using round_cases [of A "unit_scale * P"]
    by (auto simp: pick_def Let_def A_def [symmetric] r_def)
qed

lemma shortest_reads:
  assumes ok: "double_ok m k" and m: "0 < m" and s: "shortest m k = (D, s)"
  shows "nearest (D * 10 ^ s) (dec_scale) = Some (m, k)"
proof -
  let ?L = "length (digits (m * 2 ^ k * dec_scale div unit_scale))"
  have "pick m k (10 ^ (?L - 17)) \<noteq> None" using pick_17 [OF ok m refl] .
  moreover have "17 \<in> set [1..<18]" by simp
  ultimately have "find (\<lambda>n. pick m k (10 ^ (?L - n)) \<noteq> None) [1..<18] \<noteq> None" unfolding find_None_iff by blast
  then obtain n where n: "find (\<lambda>n. pick m k (10 ^ (?L - n)) \<noteq> None) [1..<18] = Some n" by blast
  then have "pick m k (10 ^ (?L - n)) \<noteq> None" by (auto simp: find_Some_iff)
  then obtain D' where D': "pick m k (10 ^ (?L - n)) = Some D'" by blast
  then have "D = D'" "s = ?L - n" using s n by (simp_all add: shortest_def Let_def)
  then show ?thesis using pick_sound [OF D'] by simp
qed

lemma dec10_shift: "dec10 (D * 10 ^ j) e = dec10 D (e + int j)"
proof -
  consider "0 \<le> e" | "e < 0" "0 \<le> e + int j" | "e + int j < 0" by linarith
  then show ?thesis
  proof cases
    case 1
    then show ?thesis by (simp add: dec10_def nat_add_distrib power_add mult_ac)
  next
    case 2
    then have "j = nat (e + int j) + nat (- e)" by linarith
    then have "D * 10 ^ j = D * 10 ^ nat (e + int j) * 10 ^ nat (- e)" by (metis mult.assoc power_add)
    then show ?thesis using 2 nearest_ratio [of "10 ^ nat (- e)" 1 "D * 10 ^ j" "D * 10 ^ nat (e + int j)"] by (simp add: dec10_def)
  next
    case 3
    then have "nat (- e) = j + nat (- (e + int j))" by linarith
    then have "(10 :: nat) ^ nat (- e) = 10 ^ j * 10 ^ nat (- (e + int j))" by (metis power_add)
    then show ?thesis using 3 nearest_ratio [of "10 ^ nat (- e)" "10 ^ nat (- (e + int j))" "D * 10 ^ j" D]
      by (simp add: dec10_def mult_ac)
  qed
qed

lemma dec10_340: "dec10 D (int s - 340) = nearest (D * 10 ^ s) (dec_scale)"
  using dec10_shift [of D s "- 340"] by (simp add: dec10_def dec_scale_def)

text \<open>The parts of a number's text: sign, integer digits, fraction, exponent.\<close>

fun exp_text :: "(byte \<times> bytes) option \<Rightarrow> bytes" where
  "exp_text None = []"
| "exp_text (Some (sg, ex)) = 101 # sg # ex"

fun exp_value :: "(byte \<times> bytes) option \<Rightarrow> int" where
  "exp_value None = 0"
| "exp_value (Some (sg, ex)) = (if sg = 45 then - int (dec_value ex) else int (dec_value ex))"

definition number_text :: "bool \<Rightarrow> bytes \<Rightarrow> bytes \<Rightarrow> (byte \<times> bytes) option \<Rightarrow> bytes" where
  "number_text neg i f x = (if neg then [45] else []) @ i @ (if f \<noteq> [] then 46 # f else []) @ exp_text x"

definition number_ok :: "bytes \<Rightarrow> bytes \<Rightarrow> (byte \<times> bytes) option \<Rightarrow> bool" where
  "number_ok i f x \<longleftrightarrow> i \<noteq> [] \<and> (\<forall>c \<in> set i. is_digit c) \<and> (hd i = 48 \<longrightarrow> i = [48]) \<and> (\<forall>c \<in> set f. is_digit c)
     \<and> (case x of None \<Rightarrow> True | Some (sg, ex) \<Rightarrow> (sg = 45 \<or> sg = 43) \<and> ex \<noteq> [] \<and> (\<forall>c \<in> set ex. is_digit c))"

lemma not_digits: "\<not> is_digit 45" "\<not> is_digit 46" "\<not> is_digit 101" "\<not> is_digit 43"
  by (simp_all add: is_digit_def)

lemma span_digits:
  "\<forall>c \<in> set i. is_digit c \<Longrightarrow> takeWhile is_digit i = i \<and> dropWhile is_digit i = []"
  "\<forall>c \<in> set i. is_digit c \<Longrightarrow> \<not> is_digit c \<Longrightarrow> takeWhile is_digit (i @ c # r) = i \<and> dropWhile is_digit (i @ c # r) = c # r"
  by (simp_all add: takeWhile_eq_all_conv takeWhile_append dropWhile_append)

lemma sign_number:
  assumes "number_ok i f x"
  shows "HasPrefix (number_text neg i f x) [45] = neg"
    and "TrimPrefix (number_text neg i f x) [45] = i @ (if f \<noteq> [] then 46 # f else []) @ exp_text x"
proof -
  obtain c r where i: "i = c # r" using assms by (cases i) (auto simp: number_ok_def)
  then have "c \<noteq> 45" using assms not_digits by (auto simp: number_ok_def)
  then show "HasPrefix (number_text neg i f x) [45] = neg"
    and "TrimPrefix (number_text neg i f x) [45] = i @ (if f \<noteq> [] then 46 # f else []) @ exp_text x"
    using i by (auto simp: number_text_def TrimPrefix_def)
qed

lemma ParseFloat_number:
  assumes ok: "number_ok i f x"
  shows "ParseFloat (number_text neg i f x) =
    map_option (\<lambda>(m, k). (neg, m, k)) (dec10 (dec_value (i @ f)) (exp_value x - int (length f)))"
proof -
  have i: "\<forall>c \<in> set i. is_digit c" and f: "\<forall>c \<in> set f. is_digit c" using ok by (simp_all add: number_ok_def)
  define rest where "rest = (if f \<noteq> [] then 46 # f else []) @ exp_text x"
  have x: "exp_text x = [] \<or> (\<exists>r. exp_text x = 101 # r)" by (cases x rule: exp_text.cases) auto
  have r: "rest = [] \<or> (\<exists>c r. rest = c # r \<and> \<not> is_digit c)" using x not_digits by (auto simp: rest_def)
  then have 1: "takeWhile is_digit (i @ rest) = i" "dropWhile is_digit (i @ rest) = rest"
    using span_digits [OF i] by auto
  have 2: "(if HasPrefix rest [46] then (takeWhile is_digit (tl rest), dropWhile is_digit (tl rest)) else ([], rest)) = (f, exp_text x)"
  proof (cases "f = []")
    case True
    then show ?thesis using x by (auto simp: rest_def)
  next
    case False
    have "takeWhile is_digit (f @ exp_text x) = f" "dropWhile is_digit (f @ exp_text x) = exp_text x"
      using x span_digits [OF f] not_digits by auto
    then show ?thesis using False by (simp add: rest_def)
  qed
  have 3: "(if HasPrefix (tl (exp_text x)) [45] then - int (dec_value (tl (tl (exp_text x))))
      else if HasPrefix (tl (exp_text x)) [43] then int (dec_value (tl (tl (exp_text x)))) else int (dec_value (tl (exp_text x)))) = exp_value x"
    using ok by (cases x rule: exp_text.cases) (auto simp: number_ok_def dec_value_def val10_def)
  show ?thesis
    unfolding ParseFloat_def sign_number [OF ok] rest_def [symmetric] Let_def 1 2 prod.case 3
    by (auto split: option.split)
qed

lemma strip_zeros:
  assumes "0 < D" and "ds = rev (dropWhile (\<lambda>d. d = 0) (rev (digits D)))"
  shows "ds \<noteq> [] \<and> hd ds \<noteq> 0 \<and> (\<forall>d \<in> set ds. d < 10) \<and> length ds \<le> length (digits D)
    \<and> D = val10 ds * 10 ^ (length (digits D) - length ds)"
proof -
  define z where "z = takeWhile (\<lambda>d. d = 0) (rev (digits D))"
  have d: "digits D = ds @ rev z" by (metis assms(2) z_def rev_append rev_rev_ident takeWhile_dropWhile_id)
  have z: "rev z = replicate (length z) 0"
  proof (rule replicate_eqI)
    fix y assume "y \<in> set (rev z)" then show "y = 0" by (auto simp: z_def dest: set_takeWhileD)
  qed simp
  have h: "0 < hd (digits D)" using hd_digits [OF assms(1)] .
  have ne: "ds \<noteq> []"
  proof
    assume e: "ds = []"
    then have "z \<noteq> []" using d digits_nonempty [of D] by auto
    then show False using d z h e by (cases "length z") auto
  qed
  then have "hd ds = hd (digits D)" using d by simp
  moreover have "D = val10 ds * 10 ^ length z" using val10_digits [of D] d z val10_zeros by metis
  ultimately show ?thesis using ne h d digits_below [of _ D] by auto
qed

lemma digit_bytes: "\<forall>d \<in> set ds. d < 10 \<Longrightarrow> \<forall>c \<in> set (map digit_byte ds). is_digit c"
  using digit_byte_ok by auto

lemma digit_byte_48: "d < 10 \<Longrightarrow> digit_byte d = 48 \<longleftrightarrow> d = 0"
proof -
  assume d: "d < 10"
  then have "unat (digit_byte d) = 48 + d" by (simp add: digit_byte_def unat_of_nat del: of_nat_add)
  then show ?thesis by (auto simp: word_unat_eq_iff)
qed

lemma is_digit_48: "is_digit 48"
  by (simp add: is_digit_def)

lemma digit_zero: "digit_byte 0 = 48"
  by (simp add: digit_byte_def)

lemma zeros_digits: "replicate n 48 = map digit_byte (replicate n 0)"
  by (simp add: digit_zero)

lemma fmtE_number:
  assumes ds: "ds \<noteq> []" "hd ds \<noteq> 0" "\<forall>d \<in> set ds. d < 10"
  shows "\<exists>i f x. fmtE ds (dp - 1) = number_text False i f x \<and> number_ok i f x
    \<and> dec_value (i @ f) = val10 ds \<and> exp_value x - int (length f) = dp - int (length ds)"
proof -
  obtain d r where d: "ds = d # r" using ds(1) by (cases ds) auto
  define ex where "ex = (let a = nat \<bar>dp - 1\<bar> in if a < 10 then [48, digit_byte a] else map digit_byte (digits a))"
  define sg where "sg = (if dp - 1 < 0 then 45 else 43 :: byte)"
  have small: "(if a < 10 then [48, digit_byte a] else map digit_byte (digits a)) = map digit_byte (if a < 10 then [0, a] else digits a)" for a
    by (simp add: digit_zero)
  have lt: "\<forall>x \<in> set (if a < 10 then [0, a] else digits a). x < 10" and va: "val10 (if a < 10 then [0, a] else digits a) = a" for a
    using digits_below val10_digits by (auto simp: val10_def)
  have ex: "ex \<noteq> []" "\<forall>c \<in> set ex. is_digit c" "dec_value ex = nat \<bar>dp - 1\<bar>"
    unfolding ex_def Let_def small using digit_bytes [OF lt] dec_value_digits [OF lt] va by (simp, blast, simp)
  have e: "fmtE ds (dp - 1) = number_text False [digit_byte d] (map digit_byte r) (Some (sg, ex))"
    by (simp add: fmtE_def number_text_def d ex_def sg_def)
  have "\<forall>d \<in> set r. d < 10" and "d < 10" "d \<noteq> 0" using ds d by simp_all
  then have "number_ok [digit_byte d] (map digit_byte r) (Some (sg, ex))"
    using ex digit_bytes [of r] digit_byte_ok [of d] digit_byte_48 [of d] by (simp add: number_ok_def sg_def)
  moreover have "dec_value ([digit_byte d] @ map digit_byte r) = val10 ds" using dec_value_digits [OF ds(3)] d by simp
  moreover have "exp_value (Some (sg, ex)) - int (length (map digit_byte r)) = dp - int (length ds)"
    using ex(3) d by (simp add: sg_def)
  ultimately show ?thesis using e by blast
qed

lemma fmtF_number:
  assumes ds: "ds \<noteq> []" "hd ds \<noteq> 0" "\<forall>d \<in> set ds. d < 10"
  shows "\<exists>i f x j. fmtF ds dp = number_text False i f x \<and> number_ok i f x
    \<and> dec_value (i @ f) = val10 ds * 10 ^ j \<and> exp_value x - int (length f) + int j = dp - int (length ds)"
proof -
  have nz: "digit_byte (hd ds) \<noteq> 48" using ds digit_byte_48 [of "hd ds"] by auto
  consider "dp \<le> 0" | "0 < dp" "int (length ds) \<le> dp" | "0 < dp" "dp < int (length ds)" by linarith
  then show ?thesis
  proof cases
    case 1
    let ?f = "map digit_byte (replicate (nat (- dp)) 0 @ ds)"
    have "fmtF ds dp = number_text False [48] ?f None" using 1 ds(1) by (simp add: fmtF_def number_text_def zeros_digits)
    moreover have "\<forall>d \<in> set (replicate (nat (- dp)) 0 @ ds). d < 10" using ds(3) by auto
    from digit_bytes [OF this] have "number_ok [48] ?f None" using is_digit_48 unfolding number_ok_def by simp
    moreover have "dec_value ([48] @ ?f) = val10 ds"
    proof -
      have "\<forall>d \<in> set (replicate (Suc (nat (- dp))) 0 @ ds). d < 10" using ds(3) by auto
      from dec_value_digits [OF this] show ?thesis unfolding val10_lead by (simp add: digit_zero)
    qed
    ultimately show ?thesis using 1 by (intro exI [of _ "[48]"] exI [of _ ?f] exI [of _ None] exI [of _ 0]) simp
  next
    case 2
    let ?i = "map digit_byte (ds @ replicate (nat dp - length ds) 0)"
    have "fmtF ds dp = number_text False ?i [] None" using 2 by (simp add: fmtF_def number_text_def zeros_digits)
    moreover have "\<forall>d \<in> set (ds @ replicate (nat dp - length ds) 0). d < 10" using ds(3) by auto
    from digit_bytes [OF this] have "number_ok ?i [] None" using ds(1) nz unfolding number_ok_def by (simp add: hd_append hd_map)
    moreover have "dec_value (?i @ []) = val10 ds * 10 ^ (nat dp - length ds)"
    proof -
      have "\<forall>d \<in> set (ds @ replicate (nat dp - length ds) 0). d < 10" using ds(3) by auto
      from dec_value_digits [OF this] show ?thesis by (simp only: val10_zeros append_Nil2)
    qed
    ultimately show ?thesis using 2
      by (intro exI [of _ ?i] exI [of _ "[]"] exI [of _ None] exI [of _ "nat dp - length ds"]) simp
  next
    case 3
    let ?i = "map digit_byte (take (nat dp) ds)" and ?f = "map digit_byte (drop (nat dp) ds)"
    have t: "take (nat dp) ds \<noteq> []" using 3 ds(1) by (cases ds) auto
    have "drop (nat dp) ds \<noteq> []" using 3 by simp
    then have "fmtF ds dp = number_text False ?i ?f None" using 3 by (simp add: fmtF_def number_text_def)
    moreover have "number_ok ?i ?f None"
      using digit_bytes [of "take (nat dp) ds"] digit_bytes [of "drop (nat dp) ds"] ds(3) nz t 3
      by (auto simp: number_ok_def hd_map dest: in_set_takeD in_set_dropD)
    moreover have "dec_value (?i @ ?f) = val10 ds" using dec_value_digits [OF ds(3)] by (simp flip: map_append)
    ultimately show ?thesis using 3
      by (intro exI [of _ ?i] exI [of _ ?f] exI [of _ None] exI [of _ 0]) simp
  qed
qed

lemma nearest_zero: "nearest 0 d = Some (0, 0)"
  by (simp add: nearest_def round_half_even_def nbits.simps [of 0])

lemma shortest_value:
  assumes ok: "double_ok m k" and m: "0 < m" and sh: "shortest m k = (D, s)"
    and ds_def: "ds = rev (dropWhile (\<lambda>d. d = 0) (rev (digits D)))" and dp_def: "dp = int (length (digits D)) + int s - 340"
  shows "ds \<noteq> []" and "hd ds \<noteq> 0" and "\<forall>d \<in> set ds. d < 10" and "dec10 (val10 ds) (dp - int (length ds)) = Some (m, k)"
proof -
  note near = shortest_reads [OF ok m sh]
  have D: "0 < D"
  proof (rule ccontr)
    assume "\<not> 0 < D"
    then have "nearest 0 dec_scale = Some (m, k)" using near by simp
    moreover have "nearest 0 dec_scale = Some (0, 0)" by (rule nearest_zero)
    ultimately show False using m by simp
  qed
  note z = strip_zeros [OF D ds_def]
  show "ds \<noteq> []" "hd ds \<noteq> 0" "\<forall>d \<in> set ds. d < 10" using z by blast+
  have "dp - int (length ds) = (int s - 340) + int (length (digits D) - length ds)" using z by (simp add: dp_def)
  then have "dec10 (val10 ds) (dp - int (length ds)) = dec10 D (int s - 340)" using z dec10_shift by metis
  then show "dec10 (val10 ds) (dp - int (length ds)) = Some (m, k)" using near by (simp add: dec10_340)
qed

lemma FormatFloat_number:
  assumes ok: "double_ok m k"
  shows "\<exists>i f x. FormatFloat neg m k = number_text neg i f x \<and> number_ok i f x
    \<and> dec10 (dec_value (i @ f)) (exp_value x - int (length f)) = Some (m, k)"
proof (cases "m = 0")
  case True
  then have "k = 0" using ok by (simp add: double_ok_def)
  moreover have "nearest 0 1 = Some (0, 0)" by (rule nearest_zero)
  ultimately have "dec10 (dec_value ([48] @ [])) (exp_value None - int (length ([] :: bytes))) = Some (m, k)"
    using True by (simp add: dec10_def dec_value_def val10_def)
  moreover have "FormatFloat neg m k = number_text neg [48] [] None" using True by (simp add: FormatFloat_def number_text_def)
  moreover have "number_ok [48] [] None" by (simp add: number_ok_def is_digit_def)
  ultimately show ?thesis by blast
next
  case False
  then have m: "0 < m" by simp
  obtain D s where sh: "shortest m k = (D, s)" by fastforce
  define ds dp where "ds = rev (dropWhile (\<lambda>d. d = 0) (rev (digits D)))" and "dp = int (length (digits D)) + int s - 340"
  note z = shortest_value [OF ok m sh ds_def dp_def]
  note val = z(4)
  have form: "FormatFloat neg m k = (if neg then [45] else []) @ (if dp - 1 < - 4 \<or> 6 \<le> dp - 1 then fmtE ds (dp - 1) else fmtF ds dp)"
    using False sh by (simp add: FormatFloat_def Let_def ds_def dp_def)
  have pre: "(if neg then [45] else []) @ number_text False i f x = number_text neg i f x" for i f x by (simp add: number_text_def)
  show ?thesis
  proof (cases "dp - 1 < - 4 \<or> 6 \<le> dp - 1")
    case True
    then obtain i f x where n: "fmtE ds (dp - 1) = number_text False i f x" "number_ok i f x"
      "dec_value (i @ f) = val10 ds" "exp_value x - int (length f) = dp - int (length ds)"
      using fmtE_number [of ds dp] z(1-3) by blast
    have "FormatFloat neg m k = number_text neg i f x" using True n(1) pre [of i f x] by (simp add: form)
    then show ?thesis using n val by (intro exI [of _ i] exI [of _ f] exI [of _ x]) simp
  next
    case F: False
    then obtain i f x j where n: "fmtF ds dp = number_text False i f x" "number_ok i f x"
      "dec_value (i @ f) = val10 ds * 10 ^ j" "exp_value x - int (length f) + int j = dp - int (length ds)"
      using fmtF_number [of ds dp] z(1-3) by blast
    then have "dec10 (dec_value (i @ f)) (exp_value x - int (length f)) = Some (m, k)" using val by (simp add: dec10_shift)
    moreover have "FormatFloat neg m k = number_text neg i f x" using F n(1) pre [of i f x] by (simp add: form)
    ultimately show ?thesis using n(2) by blast
  qed
qed

lemma ParseFloat_Format: "double_ok m k \<Longrightarrow> ParseFloat (FormatFloat neg m k) = Some (neg, m, k)"
  using FormatFloat_number [of m k neg] ParseFloat_number by fastforce

lemma dec10_ok: "dec10 D e = Some (m, k) \<Longrightarrow> double_ok m k"
  using nearest_ok [of 1 "D * 10 ^ nat e" m k] nearest_ok [of "10 ^ nat (- e)" D m k] by (simp add: dec10_def split: if_splits)

lemma ParseFloat_ok: "ParseFloat tok = Some (neg, m, k) \<Longrightarrow> double_ok m k"
  by (auto simp: ParseFloat_def Let_def split: option.splits prod.splits intro: dec10_ok)

end
