(* ===== verification/JsonText.thy ===== *)
theory JsonText
  imports Strings Golib
begin

text \<open>
  A string in \<open>encoding/json\<close>: what \<open>Encode\<close> writes for one, without escaping for HTML, and what
  \<open>Unmarshal\<close> reads from a token that begins with a quote. Text is bytes that should be UTF-8: what is not
  is written and read as the replacement character. What is written is read back.
\<close>

section \<open>UTF-8\<close>

text \<open>The length of the character a text begins with; 0 if it begins with none.\<close>

definition lead :: "byte \<Rightarrow> nat" where
  "lead c =
     (if c < 0x80 then 1 else if 0xC2 \<le> c \<and> c \<le> 0xDF then 2 else if 0xE0 \<le> c \<and> c \<le> 0xEF then 3
      else if 0xF0 \<le> c \<and> c \<le> 0xF4 then 4 else 0)"

definition second :: "byte \<Rightarrow> byte \<Rightarrow> bool" where
  "second c d \<longleftrightarrow>
     (if c = 0xE0 then 0xA0 \<le> d \<and> d \<le> 0xBF else if c = 0xED then 0x80 \<le> d \<and> d \<le> 0x9F
      else if c = 0xF0 then 0x90 \<le> d \<and> d \<le> 0xBF else if c = 0xF4 then 0x80 \<le> d \<and> d \<le> 0x8F else cont d)"

definition rune_len :: "bytes \<Rightarrow> nat" where
  "rune_len b =
     (case b of
        [] \<Rightarrow> 0
      | c # r \<Rightarrow>
          if lead c \<le> Suc (length r) \<and> (2 \<le> lead c \<longrightarrow> second c (hd r)) \<and> list_all cont (take (lead c - 2) (tl r))
          then lead c else 0)"

lemma rune_len_Nil [simp]: "rune_len [] = 0"
  by (simp add: rune_len_def)

lemma rune_len_le: "rune_len b \<le> length b"
  by (auto simp: rune_len_def split: list.split)

function utf8_text :: "bytes \<Rightarrow> bool" where
  "utf8_text b = (if b = [] then True else if rune_len b = 0 then False else utf8_text (drop (rune_len b) b))"
  by pat_completeness auto
termination
  by (relation "measure length") auto

declare utf8_text.simps [simp del]

lemma utf8_text_Nil [simp]: "utf8_text []"
  by (simp add: utf8_text.simps [of "[]"])

lemma rune_len_append:
  assumes "0 < rune_len b"
  shows "rune_len (b @ z) = rune_len b"
proof -
  obtain c r where b: "b = c # r" using assms by (cases b) auto
  have l: "lead c \<le> Suc (length r)" "2 \<le> lead c \<Longrightarrow> second c (hd r)" "list_all cont (take (lead c - 2) (tl r))"
    and n: "rune_len b = lead c"
    using assms by (auto simp: rune_len_def b split: if_splits)
  have "hd (r @ z) = hd r" "take (lead c - 2) (tl (r @ z)) = take (lead c - 2) (tl r)" if "2 \<le> lead c"
    using l(1) that by (cases r; auto)+
  then show ?thesis using l n by (cases "2 \<le> lead c") (auto simp: rune_len_def b)
qed

lemma rune_len_ascii: "c < 0x80 \<Longrightarrow> rune_len (c # r) = 1"
  by (simp add: rune_len_def lead_def)

lemma rune_len_ascii_iff: "rune_len (c # r) = 1 \<longleftrightarrow> c < 0x80"
  by (simp add: rune_len_def lead_def)

lemma utf8_text_ascii: "c < 0x80 \<Longrightarrow> utf8_text (c # r) = utf8_text r"
  by (simp add: utf8_text.simps [of "c # r"] rune_len_ascii)

lemma utf8_text_rune: "0 < rune_len b \<Longrightarrow> utf8_text (take (rune_len b) b @ z) = utf8_text z"
proof -
  assume n: "0 < rune_len b"
  define w where "w = take (rune_len b) b"
  have l: "length w = rune_len b" using rune_len_le [of b] by (simp add: w_def)
  have "rune_len w = rune_len b"
  proof -
    obtain c r where b: "b = c # r" using n by (cases b) auto
    have l: "lead c \<le> Suc (length r)" "2 \<le> lead c \<Longrightarrow> second c (hd r)" "list_all cont (take (lead c - 2) (tl r))"
      and e: "rune_len b = lead c"
      using n by (auto simp: rune_len_def b split: if_splits)
    obtain k where k: "lead c = Suc k" using n e by (cases "lead c") auto
    have "w = c # take k r" using e k b by (simp add: w_def)
    moreover have "hd (take k r) = hd r" "take (lead c - 2) (tl (take k r)) = take (lead c - 2) (tl r)" if "2 \<le> lead c"
      using that l(1) k by (cases r; cases k; auto simp: take_tl)+
    ultimately show ?thesis using l e k by (cases "2 \<le> lead c") (auto simp: rune_len_def)
  qed
  then have "rune_len (w @ z) = length w" using rune_len_append [of w z] n l by simp
  then show ?thesis using n l by (simp add: utf8_text.simps [of "w @ z"] w_def [symmetric])
qed

section \<open>Writing\<close>

definition esc_byte :: "byte \<Rightarrow> bytes" where
  "esc_byte c =
     (if c = 0x22 \<or> c = 0x5C then [0x5C, c]
      else if c = 8 then [0x5C, 98] else if c = 12 then [0x5C, 102] else if c = 10 then [0x5C, 110]
      else if c = 13 then [0x5C, 114] else if c = 9 then [0x5C, 116]
      else if c < 0x20 then [0x5C, 117, 48, 48, hex_digit (unat c div 16), hex_digit (unat c mod 16)]
      else [c])"

function quote_body :: "bytes \<Rightarrow> bytes" where
  "quote_body [] = []"
| "quote_body (c # r) =
     (let n = rune_len (c # r)
      in if c < 0x80 then esc_byte c @ quote_body r
         else if n = 0 then [0x5C, 117, 102, 102, 102, 100] @ quote_body r
         else if HasPrefix (c # r) [0xE2, 0x80, 0xA8] then [0x5C, 117, 50, 48, 50, 56] @ quote_body (drop n (c # r))
         else if HasPrefix (c # r) [0xE2, 0x80, 0xA9] then [0x5C, 117, 50, 48, 50, 57] @ quote_body (drop n (c # r))
         else take n (c # r) @ quote_body (drop n (c # r)))"
  by pat_completeness auto
termination
  by (relation "measure length") auto

definition json_quote :: "bytes \<Rightarrow> bytes" where
  "json_quote s = 0x22 # quote_body s @ [0x22]"

section \<open>Reading\<close>

definition hex4 :: "bytes \<Rightarrow> (nat \<times> bytes) option" where
  "hex4 b =
     (case b of
        h1 # h2 # h3 # h4 # r \<Rightarrow>
          (case (hex_value h1, hex_value h2, hex_value h3, hex_value h4) of
             (Some a, Some b, Some c, Some d) \<Rightarrow> Some (4096 * a + 256 * b + 16 * c + d, r)
           | _ \<Rightarrow> None)
      | _ \<Rightarrow> None)"

definition EncodeRune :: "nat \<Rightarrow> bytes" where
  "EncodeRune u =
     (if u < 0x80 then [of_nat u]
      else if u < 0x800 then [of_nat (0xC0 + u div 64), of_nat (0x80 + u mod 64)]
      else if u < 0x10000 then [of_nat (0xE0 + u div 4096), of_nat (0x80 + u div 64 mod 64), of_nat (0x80 + u mod 64)]
      else [of_nat (0xF0 + u div 262144), of_nat (0x80 + u div 4096 mod 64), of_nat (0x80 + u div 64 mod 64), of_nat (0x80 + u mod 64)])"

definition high_surrogate :: "nat \<Rightarrow> bool" where "high_surrogate u \<longleftrightarrow> 0xD800 \<le> u \<and> u < 0xDC00"
definition low_surrogate :: "nat \<Rightarrow> bool" where "low_surrogate u \<longleftrightarrow> 0xDC00 \<le> u \<and> u < 0xE000"

text \<open>The character of a hexadecimal escape, after its four digits, and the text behind it.\<close>

definition unicode_escape :: "nat \<Rightarrow> bytes \<Rightarrow> bytes \<times> bytes" where
  "unicode_escape u r =
     (if high_surrogate u \<or> low_surrogate u
      then (case (if HasPrefix r [0x5C, 117] then hex4 (drop 2 r) else None) of
              Some (v, r2) \<Rightarrow>
                if high_surrogate u \<and> low_surrogate v
                then (EncodeRune (0x10000 + (u - 0xD800) * 1024 + (v - 0xDC00)), r2)
                else (EncodeRune 0xFFFD, r)
            | None \<Rightarrow> (EncodeRune 0xFFFD, r))
      else (EncodeRune u, r))"

definition simple_escape :: "byte \<Rightarrow> byte option" where
  "simple_escape e =
     (if e = 0x22 \<or> e = 0x5C \<or> e = 0x2F then Some e
      else if e = 98 then Some 8 else if e = 102 then Some 12 else if e = 110 then Some 10
      else if e = 114 then Some 13 else if e = 116 then Some 9 else None)"

lemma hex4_shorter: "hex4 b = Some (u, r) \<Longrightarrow> length r < length b"
  by (auto simp: hex4_def split: list.splits option.splits prod.splits)

lemma unicode_shorter: "unicode_escape u r = (c, r2) \<Longrightarrow> length r2 \<le> length r"
  by (auto simp: unicode_escape_def split: if_splits option.splits dest!: hex4_shorter)

function unquote_body :: "bytes \<Rightarrow> bytes option" where
  "unquote_body [] = None"
| "unquote_body (c # r) =
     (if c = 0x22 then (if \<forall>x \<in> set r. x \<in> {32, 9, 13, 10} then Some [] else None)
      else if c = 0x5C then
        (case r of
           [] \<Rightarrow> None
         | e # r' \<Rightarrow>
             if e = 117
             then (case hex4 r' of
                     None \<Rightarrow> None
                   | Some (u, r2) \<Rightarrow> map_option (\<lambda>s. fst (unicode_escape u r2) @ s) (unquote_body (snd (unicode_escape u r2))))
             else (case simple_escape e of
                     None \<Rightarrow> None
                   | Some x \<Rightarrow> map_option (\<lambda>s. x # s) (unquote_body r')))
      else if c < 0x20 then None
      else let n = rune_len (c # r)
           in if n = 0 then map_option (\<lambda>s. EncodeRune 0xFFFD @ s) (unquote_body r)
              else map_option (\<lambda>s. take n (c # r) @ s) (unquote_body (drop n (c # r))))"
  by pat_completeness auto
termination
proof (relation "measure length")
  fix c :: byte and r r' :: bytes and e x2 and u r2 assume r: "r = e # r'" and h: "hex4 r' = Some x2" and x: "(u, r2) = x2"
  have "length (snd (unicode_escape u r2)) \<le> length r2" using unicode_shorter [of u r2] by (metis prod.collapse)
  then show "(snd (unicode_escape u r2), c # r) \<in> measure length" using hex4_shorter [of r' u r2] r h x by simp
qed auto

text \<open>\<open>Unmarshal\<close> of a token into a string; \<open>None\<close> is an error, or a token that is not a string.\<close>

definition json_unquote :: "bytes \<Rightarrow> bytes option" where
  "json_unquote tok = (case tok of [] \<Rightarrow> None | c # r \<Rightarrow> if c = 0x22 then unquote_body r else None)"


section \<open>What is written is read back\<close>

lemma esc_byte_read:
  assumes "c < 0x80"
  shows "unquote_body (esc_byte c @ r) = map_option (\<lambda>s. c # s) (unquote_body r)"
proof -
  consider "c = 0x22 \<or> c = 0x5C" | "c = 8" | "c = 12" | "c = 10" | "c = 13" | "c = 9"
    | "c < 0x20" "c \<noteq> 8" "c \<noteq> 12" "c \<noteq> 10" "c \<noteq> 13" "c \<noteq> 9"
    | "\<not> c < 0x20" "c \<noteq> 0x22" "c \<noteq> 0x5C" by blast
  then show ?thesis
  proof cases
    case 7
    have n: "unat c < 32" using 7(1) by (simp add: word_less_nat_alt)
    have q: "c \<noteq> 0x22 \<and> c \<noteq> 0x5C" using 7(1) by auto
    have "unat c div 16 < 16" "unat c mod 16 < 16" using n by auto
    then have "hex4 (48 # 48 # hex_digit (unat c div 16) # hex_digit (unat c mod 16) # r) = Some (unat c, r)"
      using hex_value_digit [of 0] by (simp add: hex4_def hex_value_digit hex_digit_def [of 0] mult.commute [of 16])
    moreover have "unicode_escape (unat c) r = ([c], r)"
      using n by (simp add: unicode_escape_def high_surrogate_def low_surrogate_def EncodeRune_def)
    moreover have "(@) [c] = (#) c" by auto
    ultimately show ?thesis using 7 q by (simp add: esc_byte_def)
  next
    case 8
    moreover have "(@) [c] = (#) c" by auto
    ultimately show ?thesis using assms rune_len_ascii [of c r] by (auto simp: esc_byte_def Let_def)
  qed (auto simp: esc_byte_def simple_escape_def)
qed

lemma rune_read:
  assumes n: "0 < rune_len b" and c: "\<not> hd b < 0x80"
  shows "unquote_body (take (rune_len b) b @ r) = map_option ((@) (take (rune_len b) b)) (unquote_body r)"
proof -
  define w where "w = take (rune_len b) b"
  have l: "length w = rune_len b" using rune_len_le [of b] by (simp add: w_def)
  obtain c0 v where b: "b = c0 # v" using n by (cases b) auto
  obtain v' where w: "w = c0 # v'" using n b by (cases w) (auto simp: w_def take_Cons')
  have wn: "rune_len (w @ r) = length w"
    using utf8_text_rune [OF n, of "[]"] utf8_text.simps [of w] rune_len_le [of w] rune_len_append [of w r] rune_len_append [of w "drop (rune_len b) b"]
    by (simp add: w_def [symmetric] l) (metis append_take_drop_id l list.distinct(1) neq0_conv w w_def)
  have "c0 \<noteq> 0x22 \<and> c0 \<noteq> 0x5C \<and> \<not> c0 < 0x20" using c b by (auto simp: word_less_nat_alt)
  then have "unquote_body (w @ r) = map_option ((@) w) (unquote_body r)"
    using wn w by (auto simp: Let_def)
  then show ?thesis by (simp add: w_def)
qed

lemma escaped_rune_read:
  assumes "HasPrefix b [0xE2, 0x80, x]" and "x = 0xA8 \<and> y = 56 \<or> x = 0xA9 \<and> y = 57" and "0 < rune_len b"
  shows "unquote_body ([0x5C, 117, 50, 48, 50, y] @ r) = map_option ((@) (take (rune_len b) b)) (unquote_body r)"
proof -
  obtain z where b: "b = 0xE2 # 0x80 # x # z"
    using assms(1) by (cases b; cases "tl b"; cases "tl (tl b)") auto
  have n: "rune_len b = 3" using assms(3) b by (auto simp: rune_len_def lead_def split: if_splits)
  show ?thesis
    using assms(2) b n
    by (auto simp: hex4_def hex_value_def unicode_escape_def high_surrogate_def low_surrogate_def EncodeRune_def Let_def)
qed

lemma quote_body_read: "utf8_text s \<Longrightarrow> unquote_body (quote_body s @ [34]) = Some s"
proof (induction s rule: quote_body.induct)
  case 1
  then show ?case by simp
next
  case (2 c r)
  define b n where "b = c # r" and "n = rune_len b"
  have nb: "rune_len (c # r) = n" by (simp add: b_def n_def)
  note ih = "2.IH" [OF nb [symmetric]]
  show ?case
  proof (cases "c < 0x80")
    case True
    then show ?thesis using "2.prems" ih(1) esc_byte_read [OF True, of "quote_body r @ [34]"] by (simp add: utf8_text_ascii)
  next
    case False
    have n: "0 < n" "utf8_text (drop n b)" using "2.prems" False unfolding b_def [symmetric] n_def utf8_text.simps [of b]
      by (simp_all add: b_def split: if_splits)
    have n0: "n \<noteq> 0" using n by simp
    have t: "map_option ((@) (take n b)) (Some (drop n b)) = Some (c # r)" by (simp add: b_def)
    have rr: "0 < rune_len b" using n by (simp add: n_def)
    have q: "quote_body (c # r) =
        (if HasPrefix b [0xE2, 0x80, 0xA8] then [0x5C, 117, 50, 48, 50, 56] @ quote_body (drop n b)
         else if HasPrefix b [0xE2, 0x80, 0xA9] then [0x5C, 117, 50, 48, 50, 57] @ quote_body (drop n b)
         else take n b @ quote_body (drop n b))"
      unfolding b_def using False n0 by (simp only: quote_body.simps nb Let_def if_False)
    consider "HasPrefix b [0xE2, 0x80, 0xA8]" | "\<not> HasPrefix b [0xE2, 0x80, 0xA8]" "HasPrefix b [0xE2, 0x80, 0xA9]"
      | "\<not> HasPrefix b [0xE2, 0x80, 0xA8]" "\<not> HasPrefix b [0xE2, 0x80, 0xA9]" by blast
    then show ?thesis
    proof cases
      case 1
      have "unquote_body (quote_body (drop n b) @ [34]) = Some (drop n b)" using ih(3) [OF False n0] 1 n(2) by (simp add: b_def)
      moreover have "quote_body (c # r) = [0x5C, 117, 50, 48, 50, 56] @ quote_body (drop n b)"
        unfolding q using 1 by simp
      ultimately show ?thesis using escaped_rune_read [OF 1 _ rr, of 56] t by (simp add: n_def [symmetric])
    next
      case 2
      have "unquote_body (quote_body (drop n b) @ [34]) = Some (drop n b)" using ih(4) [OF False n0] 2 n(2) by (simp add: b_def)
      moreover have "quote_body (c # r) = [0x5C, 117, 50, 48, 50, 57] @ quote_body (drop n b)"
        unfolding q using 2 by simp
      ultimately show ?thesis using escaped_rune_read [OF 2(2) _ rr, of 57] t by (simp add: n_def [symmetric])
    next
      case 3
      have "unquote_body (quote_body (drop n b) @ [34]) = Some (drop n b)" using ih(5) [OF False n0] 3 n(2) by (simp add: b_def)
      moreover have "quote_body (c # r) = take n b @ quote_body (drop n b)"
        unfolding q using 3 by simp
      moreover have "\<not> hd b < 0x80" using False by (simp add: b_def)
      ultimately show ?thesis using rune_read [OF rr, of "quote_body (drop n b) @ [34]"] t
        by (simp add: n_def [symmetric] del: quote_body.simps)
    qed
  qed
qed

lemma json_unquote_quote: "utf8_text s \<Longrightarrow> json_unquote (json_quote s) = Some s"
  by (simp add: json_quote_def json_unquote_def quote_body_read)

section \<open>What is read is UTF-8\<close>

definition scalar :: "nat \<Rightarrow> bool" where
  "scalar u \<longleftrightarrow> u < 0x110000 \<and> \<not> high_surrogate u \<and> \<not> low_surrogate u"

lemma byte_le: "(of_nat m :: byte) \<le> of_nat n \<longleftrightarrow> m \<le> n" "(of_nat m :: byte) < of_nat n \<longleftrightarrow> m < n"
  "(of_nat m :: byte) = of_nat n \<longleftrightarrow> m = n" if "m < 256" "n < 256" for m n
  using that unat_small_byte [of m] unat_small_byte [of n] by (simp_all add: word_le_nat_alt word_less_nat_alt word_unat_eq_iff)

lemma lead_nat: "x < 256 \<Longrightarrow> lead (of_nat x) =
    (if x < 128 then 1 else if 194 \<le> x \<and> x \<le> 223 then 2 else if 224 \<le> x \<and> x \<le> 239 then 3
     else if 240 \<le> x \<and> x \<le> 244 then 4 else 0)"
  using byte_le [of x] byte_le [of _ x] unat_small_byte [of x] by (simp add: lead_def word_le_nat_alt word_less_nat_alt)

lemma cont_nat: "x < 64 \<Longrightarrow> cont (of_nat (128 + x))"
  using unat_small_byte [of "128 + x"] by (simp add: cont_def word_le_nat_alt del: of_nat_add)

lemma second_nat: "x < 256 \<Longrightarrow> y < 64 \<Longrightarrow> (x = 224 \<longrightarrow> 32 \<le> y) \<Longrightarrow> (x = 237 \<longrightarrow> y < 32) \<Longrightarrow>
    (x = 240 \<longrightarrow> 16 \<le> y) \<Longrightarrow> (x = 244 \<longrightarrow> y < 16) \<Longrightarrow> second (of_nat x) (of_nat (128 + y))"
  using unat_small_byte [of "128 + y"] unat_small_byte [of x] cont_nat [of y]
  by (auto simp: second_def word_le_nat_alt word_unat_eq_iff simp del: of_nat_add)

lemma rune_len_Encode: "scalar u \<Longrightarrow> rune_len (EncodeRune u @ z) = length (EncodeRune u)"
proof -
  assume u: "scalar u"
  consider "u < 0x80" | "0x80 \<le> u" "u < 0x800" | "0x800 \<le> u" "u < 0x10000" | "0x10000 \<le> u" by linarith
  then show ?thesis
  proof cases
    case 1
    then show ?thesis using lead_nat [of u] by (simp add: EncodeRune_def rune_len_def)
  next
    case 2
    define x y where "x = u div 64" and "y = u mod 64"
    have r: "2 \<le> x" "x < 32" "y < 64" using 2 by (auto simp: x_def y_def)
    have "EncodeRune u = [of_nat (192 + x), of_nat (128 + y)]" using 2 by (simp add: EncodeRune_def x_def y_def)
    then show ?thesis using lead_nat [of "192 + x"] second_nat [of "192 + x" y] r by (simp add: rune_len_def del: of_nat_add)
  next
    case 3
    define x y w where "x = u div 4096" and "y = u div 64 mod 64" and "w = u mod 64"
    have r: "x < 16" "y < 64" "w < 64" using 3 by (auto simp: x_def y_def w_def)
    have "u div 64 = 64 * x + y" "u = 64 * (u div 64) + w"
      using mult_div_mod_eq [of 64 "u div 64"] by (simp_all add: x_def y_def w_def div_mult2_eq [symmetric])
    then have us: "u = 4096 * x + 64 * y + w" by linarith
    have s: "x = 0 \<longrightarrow> 32 \<le> y" "x = 13 \<longrightarrow> y < 32" using u 3 us r by (auto simp: scalar_def high_surrogate_def low_surrogate_def)
    have "EncodeRune u = [of_nat (224 + x), of_nat (128 + y), of_nat (128 + w)]" using 3 by (simp add: EncodeRune_def x_def y_def w_def)
    then show ?thesis using lead_nat [of "224 + x"] second_nat [of "224 + x" y] cont_nat [of w] r s
      by (simp add: rune_len_def numeral_2_eq_2 del: of_nat_add)
  next
    case 4
    define x y w v where "x = u div 262144" and "y = u div 4096 mod 64" and "w = u div 64 mod 64" and "v = u mod 64"
    have "u div 4096 = 64 * x + y" "u div 64 = 64 * (u div 4096) + w" "u = 64 * (u div 64) + v"
      using mult_div_mod_eq [of 64 "u div 64"] mult_div_mod_eq [of 64 "u div 4096"]
      by (simp_all add: x_def y_def w_def v_def div_mult2_eq [symmetric])
    then have us: "u = 262144 * x + 4096 * y + 64 * w + v" by linarith
    have r: "x < 5" "y < 64" "w < 64" "v < 64" using u by (auto simp: x_def y_def w_def v_def scalar_def)
    have s: "x = 0 \<longrightarrow> 16 \<le> y" "x = 4 \<longrightarrow> y < 16" using u 4 us r by (auto simp: scalar_def)
    have "EncodeRune u = [of_nat (240 + x), of_nat (128 + y), of_nat (128 + w), of_nat (128 + v)]"
      using 4 by (simp add: EncodeRune_def x_def y_def w_def v_def)
    then show ?thesis using lead_nat [of "240 + x"] second_nat [of "240 + x" y] cont_nat [of w] cont_nat [of v] r s
      by (simp add: rune_len_def numeral_2_eq_2 del: of_nat_add)
  qed
qed

lemma utf8_Encode: "scalar u \<Longrightarrow> utf8_text (EncodeRune u @ z) = utf8_text z"
proof -
  assume "scalar u"
  moreover have "EncodeRune u \<noteq> []" by (simp add: EncodeRune_def)
  ultimately show ?thesis using rune_len_Encode [of u z] by (simp add: utf8_text.simps [of "EncodeRune u @ z"])
qed

lemma hex4_bound: "hex4 b = Some (u, r) \<Longrightarrow> u < 65536"
proof -
  assume "hex4 b = Some (u, r)"
  then obtain h1 h2 h3 h4 a b' c d where "hex_value h1 = Some a" "hex_value h2 = Some b'" "hex_value h3 = Some c" "hex_value h4 = Some d"
    "u = 4096 * a + 256 * b' + 16 * c + d"
    by (auto simp: hex4_def split: list.splits option.splits)
  then show ?thesis using hex_value_sound [of h1 a] hex_value_sound [of h2 b'] hex_value_sound [of h3 c] hex_value_sound [of h4 d] by simp
qed

lemma utf8_unicode:
  assumes "u < 65536"
  shows "utf8_text (fst (unicode_escape u r) @ z) = utf8_text z"
proof -
  have s: "scalar 0xFFFD" by (simp add: scalar_def high_surrogate_def low_surrogate_def)
  have p: "scalar (0x10000 + (u - 0xD800) * 1024 + (v - 0xDC00))" if "high_surrogate u" "low_surrogate v" for v
    using that by (auto simp: scalar_def high_surrogate_def low_surrogate_def)
  have n: "scalar u" if "\<not> (high_surrogate u \<or> low_surrogate u)" using that assms by (simp add: scalar_def)
  show ?thesis
    using utf8_Encode [OF s] utf8_Encode [OF p] utf8_Encode [OF n] by (auto simp: unicode_escape_def split: option.split)
qed

lemma unquote_body_utf8: "unquote_body b = Some s \<Longrightarrow> utf8_text s"
proof (induction b arbitrary: s rule: unquote_body.induct)
  case 1
  then show ?case by simp
next
  case (2 c r)
  show ?case
  proof (cases "c = 0x22 \<or> c \<noteq> 0x5C \<and> c < 0x20")
    case True
    then show ?thesis using "2.prems" by (auto split: if_splits)
  next
    case other: False
    show ?thesis
    proof (cases "c = 0x5C")
      case True
      then obtain e r' where r: "r = e # r'" using "2.prems" by (cases r) auto
      show ?thesis
      proof (cases "e = 117")
        case e: True
        then obtain u r2 where h: "hex4 r' = Some (u, r2)" using "2.prems" True r by (auto split: option.splits)
        then obtain t where t: "unquote_body (snd (unicode_escape u r2)) = Some t" "s = fst (unicode_escape u r2) @ t"
          using "2.prems" True r e by auto
        then show ?thesis using "2.IH"(1) [of e r' "(u, r2)" u r2] True r e h hex4_bound [OF h] by (simp add: utf8_unicode)
      next
        case e: False
        then obtain x t where x: "simple_escape e = Some x" "unquote_body r' = Some t" "s = x # t"
          using "2.prems" True r by (auto split: option.splits)
        have "x < 0x80" using x(1) by (auto simp: simple_escape_def split: if_splits)
        then show ?thesis using "2.IH"(2) [of e r' x] True r e x by (simp add: utf8_text_ascii)
      qed
    next
      case False
      define n where "n = rune_len (c # r)"
      show ?thesis
      proof (cases "n = 0")
        case True
        then obtain t where "unquote_body r = Some t" "s = EncodeRune 0xFFFD @ t"
          using "2.prems" other False by (auto simp: Let_def n_def)
        moreover have "scalar 0xFFFD" by (simp add: scalar_def high_surrogate_def low_surrogate_def)
        ultimately show ?thesis using "2.IH"(3) other False True by (simp add: utf8_Encode n_def)
      next
        case nz: False
        then obtain t where "unquote_body (drop n (c # r)) = Some t" "s = take n (c # r) @ t"
          using "2.prems" other False by (auto simp: Let_def n_def)
        then show ?thesis using "2.IH"(4) other False nz utf8_text_rune [of "c # r" t] by (simp add: n_def)
      qed
    qed
  qed
qed

lemma json_unquote_utf8: "json_unquote b = Some s \<Longrightarrow> utf8_text s"
  by (auto simp: json_unquote_def split: list.splits if_splits intro: unquote_body_utf8)

lemma json_quote_again: "json_unquote b = Some s \<Longrightarrow> json_unquote (json_quote s) = Some s"
  by (rule json_unquote_quote [OF json_unquote_utf8])

end
