(* ===== verification/Fact.thy ===== *)
theory Fact
  imports FloatText JsonText
begin

text \<open>
  Package \<open>fact\<close>, \<open>fact.go\<close>: a document of typed facts, one a line. \<open>Parse\<close> reads the lines, each on its own;
  \<open>Validate\<close> checks the set; \<open>Canonical\<close> writes it. An error is its line and its code: the message is left
  out. Then: what the checks accept is canonical, and a canonical document is read back as it was.
\<close>

section \<open>Data\<close>

datatype BaseKind = KBool | KInt | KFloat | KStr | KDatetime | KEnum | KRef

record Type =
  Raw :: bytes
  Base :: BaseKind
  Optional :: bool
  Listed :: bool
  Symbols :: "bytes list"
  RefKind :: bytes

record Value =
  NoValue :: bool
  ListValue :: bool
  Elems :: "bytes list"

definition token :: "Value \<Rightarrow> bytes" where
  "token v =
     (if NoValue v then chars ''none''
      else if ListValue v then [0x5B] @ Join (chars '', '') (Elems v) @ [0x5D]
      else hd (Elems v))"

record Fact =
  Key :: bytes
  FType :: Type
  FValue :: Value
  Line :: nat

definition fact_String :: "Fact \<Rightarrow> bytes" where
  "fact_String f = Key f @ chars '': '' @ Raw (FType f) @ chars '' = '' @ token (FValue f)"

datatype Code = E001 | E002 | E003 | E004 | E005 | E006 | E007 | E008 | E009 | E010

record Error =
  ELine :: nat
  ECode :: Code

abbreviation fail :: "nat \<Rightarrow> Code \<Rightarrow> Error + 'a" where
  "fail n c \<equiv> Inl \<lparr>ELine = n, ECode = c\<rparr>"

section \<open>Keys\<close>

definition isLetter :: "byte \<Rightarrow> bool" where
  "isLetter c \<longleftrightarrow> 0x61 \<le> c \<and> c \<le> 0x7A \<or> 0x41 \<le> c \<and> c \<le> 0x5A"

definition IsSegment :: "bytes \<Rightarrow> bool" where
  "IsSegment s =
     (case s of
        [] \<Rightarrow> False
      | c # r \<Rightarrow> isLetter c \<and> list_all (\<lambda>c. isLetter c \<or> \<not> (c < 48 \<or> 57 < c) \<or> c = 0x5F) r)"

definition checkSegment :: "bytes \<Rightarrow> nat \<Rightarrow> Error option" where
  "checkSegment seg n = (if IsSegment seg then None else Some \<lparr>ELine = n, ECode = E002\<rparr>)"

text \<open>The loop of \<open>checkKey\<close> over the segments, with the markers seen.\<close>

fun checkKey_loop :: "nat \<Rightarrow> bytes list \<Rightarrow> bytes list \<Rightarrow> Error option" where
  "checkKey_loop n markers [] = (if 1 < length markers then Some \<lparr>ELine = n, ECode = E003\<rparr> else None)"
| "checkKey_loop n markers (seg # segs) =
     (case Cut seg 58 of
        (kind, ident, isMarker) \<Rightarrow>
          if \<not> isMarker
          then (case checkSegment seg n of Some err \<Rightarrow> Some err | None \<Rightarrow> checkKey_loop n markers segs)
          else if \<not> IsSegment kind \<or> \<not> IsSegment ident then Some \<lparr>ELine = n, ECode = E002\<rparr>
          else checkKey_loop n (markers @ [seg]) segs)"

definition checkKey :: "bytes \<Rightarrow> nat \<Rightarrow> Error option" where
  "checkKey key n = checkKey_loop n [] (Split 46 key)"

definition keyMarker :: "bytes \<Rightarrow> bytes \<times> bytes" where
  "keyMarker key =
     (case Cut key 58 of
        (pre, post, found) \<Rightarrow>
          if \<not> found then ([], [])
          else let seg = (case CutLast pre 46 of (_, s, dotted) \<Rightarrow> if dotted then s else pre);
                   ident = fst (Cut post 46)
               in (seg @ [58] @ ident, pre @ [58] @ ident))"

section \<open>Types\<close>

text \<open>The two wrappers, then the seven base types.\<close>

definition unwrap :: "bytes \<Rightarrow> bool \<times> bool \<times> bytes" where
  "unwrap s =
     (if HasSuffix s (chars ''?'') then (True, False, take (length s - 1) s)
      else if HasPrefix s (chars ''list('') \<and> HasSuffix s (chars '')'')
      then (False, True, drop 5 (take (length s - 1) s))
      else (False, False, s))"

definition parseType :: "bytes \<Rightarrow> nat \<Rightarrow> Error + Type" where
  "parseType s n =
     (case unwrap s of
        (opt, lst, inner) \<Rightarrow>
          let t = (\<lambda>b. \<lparr>Raw = s, Base = b, Optional = opt, Listed = lst, Symbols = [], RefKind = []\<rparr>)
          in if inner = chars ''bool'' then Inr (t KBool)
             else if inner = chars ''int'' then Inr (t KInt)
             else if inner = chars ''float'' then Inr (t KFloat)
             else if inner = chars ''str'' then Inr (t KStr)
             else if inner = chars ''datetime'' then Inr (t KDatetime)
             else if HasPrefix inner (chars ''enum('') \<and> HasSuffix inner (chars '')'')
             then (let syms = Split 0x7C (drop 5 (take (length inner - 1) inner))
                   in if list_all (\<lambda>y. IsSegment y \<and> y \<noteq> chars ''none'') syms
                      then Inr (t KEnum \<lparr>Symbols := syms\<rparr>) else fail n E004)
             else if HasPrefix inner (chars ''ref('') \<and> HasSuffix inner (chars '')'')
             then (let k = drop 4 (take (length inner - 1) inner)
                   in if IsSegment k then Inr (t KRef \<lparr>RefKind := k\<rparr>) else fail n E004)
             else fail n E004)"

section \<open>Scalars\<close>

fun atoi_loop :: "nat \<Rightarrow> bytes \<Rightarrow> nat \<times> bool" where
  "atoi_loop v [] = (v, True)"
| "atoi_loop v (c # r) = (if c < 48 \<or> 57 < c then (0, False) else atoi_loop (v * 10 + (unat c - 48)) r)"

definition atoiFixed :: "bytes \<Rightarrow> nat \<times> bool" where
  "atoiFixed s = atoi_loop 0 s"

definition validFullDate :: "bytes \<Rightarrow> bool" where
  "validFullDate s =
     (if length s \<noteq> 10 \<or> s ! 4 \<noteq> 45 \<or> s ! 7 \<noteq> 45 then False
      else case (atoiFixed (take 4 s), atoiFixed (take 2 (drop 5 s)), atoiFixed (drop 8 s)) of
        ((y, ok1), (m, ok2), (d, ok3)) \<Rightarrow>
          if \<not> ok1 \<or> \<not> ok2 \<or> \<not> ok3 \<or> y = 0 \<or> m < 1 \<or> 12 < m \<or> d < 1 then False
          else let days = [0, 31, 28, 31, 30, 31, 30, 31, 31, 30, 31, 30, 31] ! m;
                   days = (if m = 2 \<and> y mod 4 = 0 \<and> (y mod 100 \<noteq> 0 \<or> y mod 400 = 0) then 29 else days)
               in d \<le> days)"

definition validClock :: "bytes \<Rightarrow> bool" where
  "validClock s =
     (if length s \<noteq> 8 \<or> s ! 2 \<noteq> 58 \<or> s ! 5 \<noteq> 58 then False
      else case (atoiFixed (take 2 s), atoiFixed (take 2 (drop 3 s)), atoiFixed (drop 6 s)) of
        ((h, ok1), (mi, ok2), (se, ok3)) \<Rightarrow> ok1 \<and> ok2 \<and> ok3 \<and> h \<le> 23 \<and> mi \<le> 59 \<and> se \<le> 59)"

definition isDatetime :: "bytes \<Rightarrow> bool" where
  "isDatetime tok =
     (if length tok = 10 then validFullDate tok
      else length tok = 20 \<and> validFullDate (take 10 tok) \<and> tok ! 10 = 84 \<and> validClock (take 8 (drop 11 tok)) \<and> tok ! 19 = 90)"

definition isJSONInt :: "bytes \<Rightarrow> bool" where
  "isJSONInt s =
     (case TrimPrefix s [45] of
        [] \<Rightarrow> False
      | c # r \<Rightarrow> if c = 48 then r = [] else list_all is_digit (c # r))"

text \<open>The closure \<open>digits\<close> of \<open>isJSONNumber\<close>: what is left after one digit or more.\<close>

definition skip_digits :: "bytes \<Rightarrow> bytes option" where
  "skip_digits s = (case s of [] \<Rightarrow> None | c # r \<Rightarrow> if is_digit c then Some (dropWhile is_digit r) else None)"

definition skip_fraction :: "bytes \<Rightarrow> bytes option" where
  "skip_fraction s = (if HasPrefix s [46] then skip_digits (tl s) else Some s)"

definition skip_exponent :: "bytes \<Rightarrow> bytes option" where
  "skip_exponent s =
     (if HasPrefix s [101] \<or> HasPrefix s [69]
      then (let s = tl s in skip_digits (if HasPrefix s [45] \<or> HasPrefix s [43] then tl s else s))
      else Some s)"

definition isJSONNumber :: "bytes \<Rightarrow> bool" where
  "isJSONNumber s =
     (let s = TrimPrefix s [45];
          s = (if s = [] then None else if hd s = 48 then Some (tl s) else skip_digits s)
      in case s of None \<Rightarrow> False
         | Some s \<Rightarrow>
             (case skip_fraction s of None \<Rightarrow> False
              | Some s \<Rightarrow> skip_exponent s = Some []))"

text \<open>\<open>strconv.ParseInt\<close> of base ten and 64 bits; \<open>None\<close> is an error, of syntax or of range.\<close>

definition ParseInt :: "bytes \<Rightarrow> int option" where
  "ParseInt tok =
     (let neg = HasPrefix tok [45]; ds = (if neg \<or> HasPrefix tok [43] then tl tok else tok)
      in if ds = [] \<or> \<not> list_all is_digit ds then None
         else let v = (if neg then - int (dec_value ds) else int (dec_value ds))
              in if - (2 ^ 63) \<le> v \<and> v < 2 ^ 63 then Some v else None)"

definition plainString :: "bytes \<Rightarrow> bool" where
  "plainString tok =
     (if length tok < 2 \<or> hd tok \<noteq> 0x22 \<or> last tok \<noteq> 0x22 then False
      else list_all (\<lambda>c. \<not> (c < 0x20 \<or> 0x7E < c \<or> c = 0x22 \<or> c = 0x5C)) (butlast (tl tok)))"

definition Quote :: "bytes \<Rightarrow> bytes" where
  "Quote s = TrimSuffix (json_quote s @ [10]) [10]"

definition canonString :: "bytes \<Rightarrow> bytes option" where
  "canonString tok =
     (if plainString tok then Some tok
      else case json_unquote tok of None \<Rightarrow> None | Some s \<Rightarrow> Some (Quote s))"

definition checkScalar :: "Type \<Rightarrow> bytes \<Rightarrow> nat \<Rightarrow> Error + bytes" where
  "checkScalar t tok n =
     (case Base t of
        KBool \<Rightarrow> if tok = chars ''true'' \<or> tok = chars ''false'' then Inr tok else fail n E005
      | KInt \<Rightarrow>
          if \<not> isJSONInt tok then fail n E005
          else if ParseInt tok = None then fail n E005
          else if tok = chars ''-0'' then Inr (chars ''0'')
          else Inr tok
      | KFloat \<Rightarrow>
          if \<not> isJSONNumber tok then fail n E005
          else (case ParseFloat tok of None \<Rightarrow> fail n E005 | Some (neg, m, k) \<Rightarrow> Inr (FormatFloat neg m k))
      | KStr \<Rightarrow> (case canonString tok of Some c \<Rightarrow> Inr c | None \<Rightarrow> fail n E005)
      | KDatetime \<Rightarrow> if isDatetime tok then Inr tok else fail n E005
      | KEnum \<Rightarrow> if tok \<in> set (Symbols t) then Inr tok else fail n E005
      | KRef \<Rightarrow>
          (case Cut tok 58 of
             (kind, ident, isMarker) \<Rightarrow>
               if \<not> isMarker \<or> \<not> IsSegment kind \<or> \<not> IsSegment ident then fail n E005
               else if kind \<noteq> RefKind t then fail n E009
               else Inr tok))"

section \<open>Values\<close>

text \<open>
  The loop of \<open>splitList\<close>: whether a string is open, whether the last byte escapes, the element so far. It
  returns the elements and whether a string is open at the end.
\<close>

fun splitList_loop :: "bool \<Rightarrow> bool \<Rightarrow> bytes \<Rightarrow> bytes \<Rightarrow> bytes list \<times> bool" where
  "splitList_loop inStr esc cur [] = ([cur], inStr)"
| "splitList_loop inStr esc cur (c # r) =
     (if inStr
      then (if esc then splitList_loop True False (cur @ [c]) r
            else if c = 0x5C then splitList_loop True True (cur @ [c]) r
            else if c = 0x22 then splitList_loop False False (cur @ [c]) r
            else splitList_loop True False (cur @ [c]) r)
      else if c = 0x22 then splitList_loop True esc (cur @ [c]) r
      else if c = 44 then (case splitList_loop False esc [] r of (es, s) \<Rightarrow> (cur # es, s))
      else splitList_loop False esc (cur @ [c]) r)"

definition splitList :: "bytes \<Rightarrow> bytes list option" where
  "splitList body =
     (if TrimSpace body = [] then Some []
      else case splitList_loop False False [] body of
        (elems, inStr) \<Rightarrow>
          if inStr then None
          else let elems = map TrimSpace elems in if [] \<in> set elems then None else Some elems)"

fun check_elems :: "Type \<Rightarrow> bytes list \<Rightarrow> nat \<Rightarrow> Error + bytes list" where
  "check_elems t [] n = Inr []"
| "check_elems t (e # es) n =
     (case checkScalar t e n of
        Inl err \<Rightarrow> Inl err
      | Inr c \<Rightarrow> (case check_elems t es n of Inl err \<Rightarrow> Inl err | Inr cs \<Rightarrow> Inr (c # cs)))"

definition checkValue :: "Type \<Rightarrow> bytes \<Rightarrow> nat \<Rightarrow> Error + Value" where
  "checkValue t raw n =
     (if raw = chars ''none''
      then (if Listed t then fail n E006
            else if \<not> Optional t then fail n E006
            else Inr \<lparr>NoValue = True, ListValue = False, Elems = []\<rparr>)
      else if Listed t
      then (if length raw < 2 \<or> hd raw \<noteq> 0x5B \<or> last raw \<noteq> 0x5D then fail n E005
            else case splitList (butlast (tl raw)) of
              None \<Rightarrow> fail n E005
            | Some elems \<Rightarrow>
                (case check_elems t elems n of
                   Inl err \<Rightarrow> Inl err
                 | Inr out \<Rightarrow> Inr \<lparr>NoValue = False, ListValue = True, Elems = out\<rparr>))
      else case checkScalar t raw n of
        Inl err \<Rightarrow> Inl err
      | Inr c \<Rightarrow> Inr \<lparr>NoValue = False, ListValue = False, Elems = [c]\<rparr>)"

section \<open>Documents\<close>

definition parseFact :: "bytes \<Rightarrow> nat \<Rightarrow> Error + Fact" where
  "parseFact line n =
     (case Cut line 61 of
        (left, right, has_eq) \<Rightarrow>
          if \<not> has_eq then fail n E001
          else case CutLast left 58 of
            (k, ty, has_colon) \<Rightarrow>
              if \<not> has_colon then fail n E001
              else let key = TrimSpace k
                   in case checkKey key n of
                        Some err \<Rightarrow> Inl err
                      | None \<Rightarrow>
                          (case parseType (TrimSpace ty) n of
                             Inl err \<Rightarrow> Inl err
                           | Inr t \<Rightarrow>
                               (case checkValue t (TrimSpace right) n of
                                  Inl err \<Rightarrow> Inl err
                                | Inr v \<Rightarrow> Inr \<lparr>Key = key, FType = t, FValue = v, Line = n\<rparr>)))"

text \<open>The loop of \<open>Parse\<close> over the lines, from line \<open>n\<close>.\<close>

fun Parse_lines :: "nat \<Rightarrow> bytes list \<Rightarrow> Fact list \<times> Error list" where
  "Parse_lines n [] = ([], [])"
| "Parse_lines n (line # lines) =
     (case Parse_lines (n + 1) lines of
        (facts, errs) \<Rightarrow>
          if 13 \<in> set line then (facts, \<lparr>ELine = n, ECode = E001\<rparr> # errs)
          else if TrimSpace line = [] then (facts, errs)
          else if HasPrefix (TrimSpace line) (chars ''#'') then (facts, \<lparr>ELine = n, ECode = E001\<rparr> # errs)
          else case parseFact line n of
            Inl err \<Rightarrow> (facts, err # errs)
          | Inr f \<Rightarrow> (f # facts, errs))"

definition Parse :: "bytes \<Rightarrow> Fact list \<times> Error list" where
  "Parse src =
     (let lines = Split 10 src
      in Parse_lines 1 (if last lines = [] then butlast lines else lines))"

text \<open>The first loop of \<open>Validate\<close>: the keys seen, each marker's prefix, the markers, the errors.\<close>

fun Validate_keys :: "bytes set \<Rightarrow> (bytes \<rightharpoonup> bytes) \<Rightarrow> Fact list \<Rightarrow> Error list" where
  "Validate_keys seen prefixes [] = []"
| "Validate_keys seen prefixes (f # fs) =
     (let dup = (if Key f \<in> seen then [\<lparr>ELine = Line f, ECode = E007\<rparr>] else []);
          (marker, prefix) = keyMarker (Key f)
      in if marker = [] then dup @ Validate_keys (insert (Key f) seen) prefixes fs
         else case prefixes marker of
           Some prev \<Rightarrow>
             dup @ (if prev \<noteq> prefix then [\<lparr>ELine = Line f, ECode = E010\<rparr>] else []) @
               Validate_keys (insert (Key f) seen) prefixes fs
         | None \<Rightarrow> dup @ Validate_keys (insert (Key f) seen) (prefixes(marker \<mapsto> prefix)) fs)"

definition set_markers :: "Fact list \<Rightarrow> bytes list" where
  "set_markers fs = filter (\<lambda>m. m \<noteq> []) (map (\<lambda>f. fst (keyMarker (Key f))) fs)"

definition Validate_refs :: "bytes list \<Rightarrow> Fact list \<Rightarrow> Error list" where
  "Validate_refs markers fs =
     concat (map (\<lambda>f. if Base (FType f) \<noteq> KRef \<or> NoValue (FValue f) then []
                      else map (\<lambda>tok. \<lparr>ELine = Line f, ECode = E008\<rparr>) (filter (\<lambda>tok. tok \<notin> set markers) (Elems (FValue f)))) fs)"

definition Validate :: "Fact list \<Rightarrow> Error list" where
  "Validate fs = sort_key ELine (Validate_keys {} Map.empty fs @ Validate_refs (set_markers fs) fs)"

definition Load :: "bytes \<Rightarrow> Fact list \<times> Error list" where
  "Load src = (case Parse src of (facts, errs) \<Rightarrow> (facts, errs @ Validate facts))"

definition Canonical :: "Fact list \<Rightarrow> bytes" where
  "Canonical fs = (if fs = [] then [] else Join [10] (sort (map fact_String fs)) @ [10])"

end
