(* ===== verification/FactCanon.thy ===== *)
theory FactCanon
  imports Fact
begin

text \<open>
  What the line checks of package \<open>fact\<close> accept, and that a fact they return is canonical: its line is read
  back as the same fact.
\<close>

section \<open>Characters\<close>

definition seg_char :: "byte \<Rightarrow> bool" where
  "seg_char c \<longleftrightarrow> isLetter c \<or> is_digit c \<or> c = 0x5F"

lemma seg_char_nat: "seg_char c \<longleftrightarrow> unat c \<in> {97..122} \<union> {65..90} \<union> {48..57} \<union> {95}"
  by (auto simp: seg_char_def isLetter_def is_digit_def word_le_nat_alt word_unat_eq_iff)

lemma graphic_nat: "graphic c \<longleftrightarrow> unat c \<in> {33..126}"
  by (simp add: graphic_def word_le_nat_alt)

lemma seg_char_graphic: "seg_char c \<Longrightarrow> graphic c"
  by (auto simp: seg_char_nat graphic_nat)

lemma not_seg_char: "\<not> seg_char 61" "\<not> seg_char 58" "\<not> seg_char 46" "\<not> seg_char 44" "\<not> seg_char 124" "\<not> seg_char 34"
  "\<not> seg_char 10" "\<not> seg_char 13" "\<not> seg_char 32"
  by (simp_all add: seg_char_nat)

lemma IsSegment_chars: "IsSegment s \<longleftrightarrow> s \<noteq> [] \<and> isLetter (hd s) \<and> (\<forall>c \<in> set s. seg_char c)"
proof -
  have "(\<lambda>c. isLetter c \<or> \<not> (c < 48 \<or> 57 < c) \<or> c = 0x5F) = seg_char"
    by (auto simp: seg_char_def is_digit_def not_less fun_eq_iff)
  then show ?thesis by (auto simp: IsSegment_def list_all_iff seg_char_def split: list.split)
qed

lemma IsSegmentD:
  assumes "IsSegment s"
  shows "s \<noteq> []" "tight s" "isLetter (hd s)" "\<And>c. c \<in> set s \<Longrightarrow> seg_char c"
    "61 \<notin> set s" "58 \<notin> set s" "46 \<notin> set s" "44 \<notin> set s" "124 \<notin> set s" "34 \<notin> set s"
    "10 \<notin> set s" "13 \<notin> set s" "32 \<notin> set s"
proof -
  have s: "s \<noteq> []" "isLetter (hd s)" "\<forall>c \<in> set s. seg_char c" using assms by (simp_all add: IsSegment_chars)
  show "s \<noteq> []" "isLetter (hd s)" "\<And>c. c \<in> set s \<Longrightarrow> seg_char c" using s by auto
  show "tight s" using s by (simp add: tight_def seg_char_graphic)
  show "61 \<notin> set s" "58 \<notin> set s" "46 \<notin> set s" "44 \<notin> set s" "124 \<notin> set s" "34 \<notin> set s"
    "10 \<notin> set s" "13 \<notin> set s" "32 \<notin> set s" using s(3) not_seg_char by blast+
qed

lemma set_Join: "set (Join sep ws) \<subseteq> set sep \<union> \<Union> (set ` set ws)"
  by (induction sep ws rule: Join.induct) auto

lemma hd_Join: "ws \<noteq> [] \<Longrightarrow> hd ws \<noteq> [] \<Longrightarrow> hd (Join sep ws) = hd (hd ws)"
  by (cases ws; cases "tl ws") auto

lemma Join_nonempty: "ws \<noteq> [] \<Longrightarrow> hd ws \<noteq> [] \<Longrightarrow> Join sep ws \<noteq> []"
  by (cases ws; cases "tl ws") auto

lemma last_Join: "ws \<noteq> [] \<Longrightarrow> \<forall>w \<in> set ws. w \<noteq> [] \<Longrightarrow> last (Join sep ws) = last (last ws)"
proof (induction sep ws rule: Join.induct)
  case (3 sep w v ws)
  then show ?case using Join_nonempty [of "v # ws" sep] by simp
qed simp_all

lemma tight_Join: "ws \<noteq> [] \<Longrightarrow> \<forall>w \<in> set ws. tight w \<Longrightarrow> tight (Join sep ws)"
  using hd_Join [of ws sep] last_Join [of ws sep] Join_nonempty [of ws sep] by (auto simp: tight_def)

lemma HasPrefix_append: "HasPrefix s p \<longleftrightarrow> (\<exists>r. s = p @ r)"
  by (auto simp: HasPrefix_def) (metis append_take_drop_id)

lemma HasSuffix_append: "HasSuffix s p \<longleftrightarrow> (\<exists>r. s = r @ p)"
  by (auto simp: HasSuffix_def) (metis append_take_drop_id)

section \<open>Keys\<close>

definition key_seg :: "bytes \<Rightarrow> bool" where
  "key_seg seg \<longleftrightarrow> IsSegment seg \<or> (\<exists>k i. seg = k @ [58] @ i \<and> IsSegment k \<and> IsSegment i)"

lemma checkKey_loop_segs: "checkKey_loop n ms segs = None \<Longrightarrow> seg \<in> set segs \<Longrightarrow> key_seg seg"
proof (induction segs arbitrary: ms)
  case (Cons s segs)
  obtain k i m where c: "Cut s 58 = (k, i, m)" by (cases "Cut s 58") auto
  show ?case
  proof (cases m)
    case True
    then have "s = k @ [58] @ i" using Cut_sound [of s 58 k i] c by simp
    moreover have "IsSegment k \<and> IsSegment i \<and> checkKey_loop n (ms @ [s]) segs = None"
      using Cons.prems c True by (auto split: if_splits)
    ultimately show ?thesis using Cons.IH [of "ms @ [s]"] Cons.prems(2) by (auto simp: key_seg_def)
  next
    case False
    then have "IsSegment s \<and> checkKey_loop n ms segs = None"
      using Cons.prems c by (auto simp: checkSegment_def split: if_splits)
    then show ?thesis using Cons.IH [of ms] Cons.prems(2) by (auto simp: key_seg_def)
  qed
qed simp

lemma key_segD:
  assumes "key_seg seg"
  shows "tight seg" "isLetter (hd seg)" "c \<in> set seg \<Longrightarrow> seg_char c \<or> c = 58"
proof -
  have s: "tight seg \<and> isLetter (hd seg) \<and> (\<forall>c \<in> set seg. seg_char c \<or> c = 58)"
    using assms unfolding key_seg_def
  proof
    assume "IsSegment seg"
    then show ?thesis using IsSegmentD by blast
  next
    assume "\<exists>k i. seg = k @ [58] @ i \<and> IsSegment k \<and> IsSegment i"
    then obtain k i where "seg = k @ [58] @ i" "IsSegment k" "IsSegment i" by blast
    then show ?thesis using IsSegmentD [of k] IsSegmentD [of i] by (auto simp: tight_def)
  qed
  show "tight seg" "isLetter (hd seg)" "c \<in> set seg \<Longrightarrow> seg_char c \<or> c = 58" using s by auto
qed

lemma checkKey_line: "checkKey_loop n ms segs = None \<Longrightarrow> checkKey_loop m ms segs = None"
  by (induction n ms segs rule: checkKey_loop.induct) (auto simp: checkSegment_def split: prod.splits if_splits option.splits)

lemma checkKeyD:
  assumes "checkKey key n = None"
  shows "tight key" "isLetter (hd key)" "\<And>c. c \<in> set key \<Longrightarrow> seg_char c \<or> c = 58 \<or> c = 46" "checkKey key m = None"
proof -
  have s: "key_seg seg" if "seg \<in> set (Split 46 key)" for seg
    using assms checkKey_loop_segs that unfolding checkKey_def by blast
  have k: "Join [46] (Split 46 key) = key" by (rule Join_Split)
  have h: "key_seg (hd (Split 46 key))" using s by simp
  show "tight key" using tight_Join [of "Split 46 key" "[46]"] s key_segD(1) k by simp
  show "isLetter (hd key)"
    using hd_Join [of "Split 46 key" "[46]"] key_segD(1,2) [OF h] k by (simp add: tight_def)
  show "seg_char c \<or> c = 58 \<or> c = 46" if "c \<in> set key" for c
    using set_Join [of "[46]" "Split 46 key"] key_segD(3) s that k by auto
  show "checkKey key m = None" using assms checkKey_line by (simp add: checkKey_def)
qed

lemma checkKey_free:
  assumes "checkKey key n = None"
  shows "61 \<notin> set key" "10 \<notin> set key" "13 \<notin> set key" "key \<noteq> []"
  using checkKeyD(3) [OF assms] checkKeyD(1) [OF assms] not_seg_char by (fastforce simp: tight_def)+

section \<open>Types\<close>

definition type_char :: "byte \<Rightarrow> bool" where
  "type_char c \<longleftrightarrow> seg_char c \<or> c \<in> {40, 41, 63, 124}"

definition base_ok :: "bytes \<Rightarrow> bool" where
  "base_ok b \<longleftrightarrow> b \<noteq> [] \<and> (\<forall>c \<in> set b. type_char c)"

definition type_ok :: "Type \<Rightarrow> bool" where
  "type_ok t \<longleftrightarrow> base_ok (Raw t) \<and> (Optional t \<longrightarrow> \<not> Listed t) \<and> (\<forall>n. parseType (Raw t) n = Inr t)
     \<and> (Base t = KEnum \<longrightarrow> (\<forall>y \<in> set (Symbols t). IsSegment y \<and> y \<noteq> chars ''none''))"

lemma type_char_graphic: "type_char c \<Longrightarrow> graphic c"
  using seg_char_graphic [of c] by (auto simp: type_char_def graphic_def)

lemma base_okD:
  assumes "base_ok b"
  shows "tight b" "61 \<notin> set b" "58 \<notin> set b" "10 \<notin> set b" "13 \<notin> set b"
proof -
  have b: "b \<noteq> []" "\<forall>c \<in> set b. type_char c" using assms by (simp_all add: base_ok_def)
  show "tight b" using b by (simp add: tight_def type_char_graphic)
  have "\<not> type_char 61 \<and> \<not> type_char 58 \<and> \<not> type_char 10 \<and> \<not> type_char 13" by (simp add: type_char_def not_seg_char)
  then show "61 \<notin> set b" "58 \<notin> set b" "10 \<notin> set b" "13 \<notin> set b" using b(2) by auto
qed

lemma base_ok_wrap: "base_ok p \<Longrightarrow> base_ok s \<Longrightarrow> \<forall>c \<in> set b. type_char c \<Longrightarrow> base_ok (p @ b @ s)"
  by (auto simp: base_ok_def)

lemma seg_chars: "IsSegment s \<Longrightarrow> \<forall>c \<in> set s. type_char c"
  using IsSegmentD(4) by (auto simp: type_char_def)

lemma unwrap_sound: "unwrap s = (opt, lst, inner) \<Longrightarrow>
    (s = inner @ chars ''?'' \<or> s = chars ''list('' @ inner @ chars '')'' \<or> s = inner) \<and> \<not> (opt \<and> lst)"
proof -
  assume u: "unwrap s = (opt, lst, inner)"
  consider r where "s = r @ chars ''?''" | r where "s = chars ''list('' @ r @ chars '')''" "\<not> HasSuffix s (chars ''?'')"
    | "\<not> HasSuffix s (chars ''?'')" "\<not> (HasPrefix s (chars ''list('') \<and> HasSuffix s (chars '')''))"
  proof -
    assume a: "\<And>r. s = r @ chars ''?'' \<Longrightarrow> thesis" "\<And>r. s = chars ''list('' @ r @ chars '')'' \<Longrightarrow> \<not> HasSuffix s (chars ''?'') \<Longrightarrow> thesis"
      "\<not> HasSuffix s (chars ''?'') \<Longrightarrow> \<not> (HasPrefix s (chars ''list('') \<and> HasSuffix s (chars '')'')) \<Longrightarrow> thesis"
    have "\<exists>r. s = chars ''list('' @ r @ chars '')''" if "HasPrefix s (chars ''list('')" "HasSuffix s (chars '')'')"
    proof -
      obtain x y where x: "s = chars ''list('' @ x" "s = y @ chars '')''" using \<open>HasPrefix s _\<close> \<open>HasSuffix s _\<close>
        unfolding HasPrefix_append HasSuffix_append by blast
      then have "x \<noteq> []" by auto
      then obtain z c where "x = z @ [c]" by (cases x rule: rev_cases) auto
      then show ?thesis using x by auto
    qed
    then show thesis using a unfolding HasSuffix_append by blast
  qed
  then show ?thesis
  proof cases
    case 1
    then have "HasSuffix s (chars ''?'')" by (auto simp: HasSuffix_append)
    then show ?thesis using u 1 by (auto simp: unwrap_def)
  next
    case 2
    have "HasPrefix s (chars ''list('') \<and> HasSuffix s (chars '')'')" using 2 by (auto simp: HasSuffix_append)
    then show ?thesis using u 2 by (auto simp: unwrap_def)
  next
    case 3
    then have "(opt, lst, inner) = (False, False, s)" using u unfolding unwrap_def by (simp only: if_False)
    then show ?thesis by simp
  qed
qed

lemma bracketed:
  assumes "HasPrefix b p" and "HasSuffix b [q]" and "last p \<noteq> q" and "p \<noteq> []"
  shows "b = p @ drop (length p) (take (length b - 1) b) @ [q]"
proof -
  obtain x y where x: "b = p @ x" "b = y @ [q]" using assms(1,2) unfolding HasPrefix_append HasSuffix_append by blast
  then have "x \<noteq> []" using assms(3,4) by (metis append_Nil2 last_snoc)
  then obtain z c where "x = z @ [c]" by (cases x rule: rev_cases) auto
  then show ?thesis using x by auto
qed

lemma base_names: "base_ok (chars ''bool'')" "base_ok (chars ''int'')" "base_ok (chars ''float'')" "base_ok (chars ''str'')"
  "base_ok (chars ''datetime'')" "base_ok (chars ''?'')" "base_ok (chars ''list('')" "base_ok (chars '')'')" "base_ok (chars ''enum('')"
  "base_ok (chars ''ref('')"
  by (simp_all add: base_ok_def type_char_def seg_char_nat)

lemma parseType_sound:
  assumes "parseType s n = Inr t"
  shows "type_ok t" and "Raw t = s"
proof -
  obtain opt lst inner where u: "unwrap s = (opt, lst, inner)" by (cases "unwrap s") auto
  have line: "parseType s m = Inr t" for m
    using assms u unfolding parseType_def by (simp add: Let_def split: if_splits)
  have w: "Raw t = s \<and> Optional t = opt \<and> Listed t = lst"
    using assms u unfolding parseType_def by (auto simp: Let_def split: if_splits)
  have e: "Base t = KEnum \<longrightarrow> (\<forall>y \<in> set (Symbols t). IsSegment y \<and> y \<noteq> chars ''none'')"
    using assms u unfolding parseType_def by (auto simp: Let_def list_all_iff split: if_splits)
  have b: "base_ok inner"
  proof -
    define sy where "sy = drop 5 (take (length inner - 1) inner)"
    define k where "k = drop 4 (take (length inner - 1) inner)"
    consider "inner \<in> {chars ''bool'', chars ''int'', chars ''float'', chars ''str'', chars ''datetime''}"
      | "HasPrefix inner (chars ''enum('')" "HasSuffix inner (chars '')'')" "list_all (\<lambda>y. IsSegment y \<and> y \<noteq> chars ''none'') (Split 124 sy)"
      | "HasPrefix inner (chars ''ref('')" "HasSuffix inner (chars '')'')" "IsSegment k"
      using assms u unfolding parseType_def by (auto simp: Let_def sy_def k_def split: if_splits)
    then show ?thesis
    proof cases
      case 1
      then show ?thesis using base_names by blast
    next
      case 2
      have "inner = chars ''enum('' @ sy @ chars '')''" using bracketed [OF 2(1), of 41] 2(2) by (simp add: sy_def eval_nat_numeral)
      moreover have "\<forall>c \<in> set sy. type_char c"
      proof
        fix c assume "c \<in> set sy"
        then have "c \<in> set (Join [124] (Split 124 sy))" by (simp add: Join_Split)
        then have "c = 124 \<or> (\<exists>y \<in> set (Split 124 sy). c \<in> set y)" using set_Join [of "[124]" "Split 124 sy"] by auto
        then show "type_char c" using 2(3) seg_chars by (auto simp: type_char_def list_all_iff)
      qed
      ultimately show ?thesis using base_ok_wrap [OF base_names(9,8)] by simp
    next
      case 3
      have "inner = chars ''ref('' @ k @ chars '')''" using bracketed [OF 3(1), of 41] 3(2) by (simp add: k_def eval_nat_numeral)
      then show ?thesis using base_ok_wrap [OF base_names(10,8) seg_chars [OF 3(3)]] by simp
    qed
  qed
  have "base_ok s" using unwrap_sound [OF u] b base_names by (auto simp: base_ok_def)
  then show "type_ok t" using w e line unwrap_sound [OF u] by (auto simp: type_ok_def)
  show "Raw t = s" using w by simp
qed

section \<open>Inside a list\<close>

text \<open>Text the list splitter takes whole: outside a string, and inside one.\<close>

definition balanced :: "bytes \<Rightarrow> bool" where
  "balanced c \<longleftrightarrow> (\<forall>cur r. splitList_loop False False cur (c @ r) = splitList_loop False False (cur @ c) r)"

definition held :: "bytes \<Rightarrow> bool" where
  "held c \<longleftrightarrow> (\<forall>cur r. splitList_loop True False cur (c @ r) = splitList_loop True False (cur @ c) r)"

lemma held_intros: "held []" "held a \<Longrightarrow> held b \<Longrightarrow> held (a @ b)" "held [92, x]" "c \<noteq> 34 \<Longrightarrow> c \<noteq> 92 \<Longrightarrow> held [c]"
  by (simp_all add: held_def)

lemma held_plain: "\<forall>c \<in> set b. c \<noteq> 34 \<and> c \<noteq> 92 \<Longrightarrow> held b"
proof (induction b)
  case (Cons c b)
  then show ?case using held_intros(2) [of "[c]" b] held_intros(4) [of c] by simp
qed (rule held_intros)

lemma balanced_string: "held b \<Longrightarrow> balanced (34 # b @ [34])"
  by (simp add: balanced_def held_def)

lemma balanced_plain: "\<forall>c \<in> set b. c \<noteq> 34 \<and> c \<noteq> 44 \<Longrightarrow> balanced b"
  unfolding balanced_def
proof (induction b)
  case (Cons c b)
  then show ?case by simp
qed simp

lemma rune_high:
  assumes "0 < rune_len b" and "\<not> hd b < 0x80" and "c \<in> set (take (rune_len b) b)"
  shows "0x80 \<le> c"
proof -
  obtain x r where b: "b = x # r" using assms(1) by (cases b) auto
  have l: "2 \<le> lead x \<longrightarrow> second x (hd r)" "list_all cont (take (lead x - 2) (tl r))" "rune_len b = lead x" "lead x \<le> Suc (length r)"
    using assms(1) by (auto simp: rune_len_def b split: if_splits)
  have x: "0x80 \<le> x" using assms(2) b by (simp add: not_less)
  obtain k where k: "lead x = Suc k" using l(3) assms(1) by (cases "lead x") auto
  show ?thesis
  proof (cases r)
    case Nil
    then show ?thesis using assms(3) b x by (cases "rune_len b") auto
  next
    case (Cons y q)
    have "c = x \<or> (c = y \<and> 0 < k) \<or> c \<in> set (take (lead x - 2) (tl r))"
    proof -
      have "c \<in> set (take (Suc k) (x # y # q))" using assms(3) l(3) k b Cons by simp
      then show ?thesis using k Cons by (cases k) auto
    qed
    moreover have "0x80 \<le> y" if "0 < k"
    proof -
      have "second x y" using l(1) that k Cons by simp
      then show ?thesis
        by (cases "x = 0xE0"; cases "x = 0xED"; cases "x = 0xF0"; cases "x = 0xF4") (auto simp: second_def cont_def word_le_nat_alt)
    qed
    moreover have "0x80 \<le> c" if "c \<in> set (take (lead x - 2) (tl r))" using l(2) that by (auto simp: list_all_iff cont_def)
    ultimately show ?thesis using x by auto
  qed
qed

lemma hex_digit_range: "n < 16 \<Longrightarrow> 0x20 \<le> hex_digit n \<and> hex_digit n \<noteq> 34 \<and> hex_digit n \<noteq> 92"
  by (auto simp: word_le_nat_alt word_unat_eq_iff unat_hex_digit)

definition quoted_ok :: "bytes \<Rightarrow> bool" where
  "quoted_ok b \<longleftrightarrow> held b \<and> (\<forall>c \<in> set b. 0x20 \<le> c)"

lemma quoted_ok_append: "quoted_ok a \<Longrightarrow> quoted_ok b \<Longrightarrow> quoted_ok (a @ b)"
  by (auto simp: quoted_ok_def intro: held_intros)

lemma quoted_ok_esc: "quoted_ok (esc_byte c)"
proof -
  have h: "held (92 # x # w)" if "held w" for x w using held_intros(2) [OF held_intros(3) [of x] that] by simp
  have d: "unat c div 16 < 16" "unat c mod 16 < 16"
    using unsigned_less [where 'a = nat and w = c] by (simp_all add: less_mult_imp_div_less)
  have "held [48, 48, hex_digit (unat c div 16), hex_digit (unat c mod 16)]"
    using hex_digit_range d by (intro held_plain) auto
  then show ?thesis using h held_intros hex_digit_range d
    by (auto simp: quoted_ok_def esc_byte_def not_less intro: held_intros h)
qed

lemma quoted_ok_quote: "quoted_ok (quote_body s)"
proof (induction s rule: quote_body.induct)
  case 1
  then show ?case by (simp add: quoted_ok_def held_intros)
next
  case (2 c r)
  have u: "quoted_ok [0x5C, 117, 102, 102, 102, 100]" "quoted_ok [0x5C, 117, 50, 48, 50, 56]" "quoted_ok [0x5C, 117, 50, 48, 50, 57]"
    by (simp_all add: quoted_ok_def held_def)
  have k: "quoted_ok (take (rune_len (c # r)) (c # r))" if "\<not> c < 0x80" "rune_len (c # r) \<noteq> 0"
  proof -
    have "0x80 \<le> x" if "x \<in> set (take (rune_len (c # r)) (c # r))" for x
      using rune_high [of "c # r" x] \<open>\<not> c < 0x80\<close> \<open>rune_len (c # r) \<noteq> 0\<close> that by simp
    then show ?thesis unfolding quoted_ok_def using order_trans [of "0x20" "0x80 :: byte"] by (fastforce intro!: held_plain)
  qed
  show ?case
  proof (cases "c < 0x80")
    case True
    then show ?thesis using quoted_ok_append [OF quoted_ok_esc [of c]] "2.IH"(1) by simp
  next
    case False
    define n where "n = rune_len (c # r)"
    show ?thesis
      using False u(2,3) "2.IH"(2-) k quoted_ok_append [OF u(1)] quoted_ok_append [OF u(2)] quoted_ok_append [OF u(3)] quoted_ok_append [OF k]
      unfolding quote_body.simps Let_def by (simp del: append_Cons split: if_split)
  qed
qed

section \<open>Numbers\<close>

lemma skip_digits_all: "i \<noteq> [] \<Longrightarrow> \<forall>c \<in> set i. is_digit c \<Longrightarrow> r = [] \<or> \<not> is_digit (hd r) \<Longrightarrow> skip_digits (i @ r) = Some r"
proof -
  assume i: "i \<noteq> []" "\<forall>c \<in> set i. is_digit c" "r = [] \<or> \<not> is_digit (hd r)"
  obtain d ds where d: "i = d # ds" using i(1) by (cases i) auto
  have "dropWhile is_digit (ds @ r) = r"
  proof (cases r)
    case Nil
    then show ?thesis using span_digits(1) [of ds] i d by simp
  next
    case (Cons c q)
    then show ?thesis using span_digits(2) [of ds c q] i d by simp
  qed
  then show ?thesis using i d by (simp add: skip_digits_def)
qed

lemma number_isJSON:
  assumes ok: "number_ok i f x"
  shows "isJSONNumber (number_text neg i f x)"
proof -
  define rest where "rest = (if f \<noteq> [] then 46 # f else []) @ exp_text x"
  have i: "i \<noteq> []" "\<forall>c \<in> set i. is_digit c" "hd i = 48 \<longrightarrow> i = [48]" and f: "\<forall>c \<in> set f. is_digit c" using ok by (simp_all add: number_ok_def)
  have e: "exp_text x = [] \<or> (\<exists>r. exp_text x = 101 # r)" by (cases x rule: exp_text.cases) auto
  have r: "rest = [] \<or> \<not> is_digit (hd rest)" using e not_digits by (auto simp: rest_def)
  have n: "number_text neg i f x = (if neg then [45] else []) @ i @ rest" by (simp add: number_text_def rest_def)
  have "hd i \<noteq> 45" using i not_digits by (metis hd_in_set)
  then have t: "TrimPrefix (number_text neg i f x) [45] = i @ rest"
    unfolding n using i(1) by (cases i) (auto simp: TrimPrefix_def)
  have d: "(if i @ rest = [] then None else if hd (i @ rest) = 48 then Some (tl (i @ rest)) else skip_digits (i @ rest)) = Some rest"
    using skip_digits_all [OF i(1,2) r] i by (cases i) auto
  have fr: "skip_fraction rest = Some (exp_text x)"
  proof (cases "f = []")
    case True
    then show ?thesis using e by (auto simp: rest_def skip_fraction_def)
  next
    case False
    moreover have "exp_text x = [] \<or> \<not> is_digit (hd (exp_text x))" using e not_digits by auto
    ultimately show ?thesis using skip_digits_all [OF False f, of "exp_text x"] by (simp add: rest_def skip_fraction_def)
  qed
  have "skip_exponent (exp_text x) = Some []"
  proof (cases x)
    case (Some p)
    then obtain sg ex where p: "x = Some (sg, ex)" by (cases p) auto
    then have "sg = 45 \<or> sg = 43" "ex \<noteq> []" "\<forall>c \<in> set ex. is_digit c" using ok by (auto simp: number_ok_def)
    then show ?thesis using skip_digits_all [of ex "[]"] p by (auto simp: skip_exponent_def)
  qed (simp add: skip_exponent_def)
  then show ?thesis unfolding isJSONNumber_def Let_def t d by (simp add: fr)
qed

lemma number_chars: "number_ok i f x \<Longrightarrow> c \<in> set (number_text neg i f x) \<Longrightarrow> is_digit c \<or> c \<in> {45, 46, 101, 43}"
  by (cases x rule: exp_text.cases) (auto simp: number_ok_def number_text_def split: if_splits)

section \<open>Scalars\<close>

definition plain_token :: "bytes \<Rightarrow> bool" where
  "plain_token c \<longleftrightarrow> c \<noteq> [] \<and> (\<forall>b \<in> set c. graphic b \<and> b \<noteq> 34 \<and> b \<noteq> 44)"

definition clean :: "bytes \<Rightarrow> bool" where
  "clean c \<longleftrightarrow> tight c \<and> 10 \<notin> set c \<and> 13 \<notin> set c"

definition canon_token :: "Type \<Rightarrow> bytes \<Rightarrow> bool" where
  "canon_token t c \<longleftrightarrow> (\<forall>m. checkScalar t c m = Inr c) \<and> clean c \<and> balanced c \<and> c \<noteq> chars ''none''"

lemma not_graphic: "\<not> graphic 10" "\<not> graphic 13" "\<not> graphic 32"
  by (simp_all add: graphic_def)

lemma plain_token_clean: "plain_token c \<Longrightarrow> clean c \<and> balanced c"
  using balanced_plain [of c] not_graphic by (auto simp: plain_token_def clean_def tight_def)

lemma digit_graphic: "is_digit c \<Longrightarrow> graphic c \<and> c \<noteq> 34 \<and> c \<noteq> 44 \<and> c \<noteq> 110"
  by (auto simp: is_digit_def graphic_def word_le_nat_alt)

lemma plain_numeric:
  assumes "c \<noteq> []" and "\<forall>b \<in> set c. is_digit b \<or> b \<in> {45, 46, 101, 43, 58, 84, 90}"
  shows "plain_token c \<and> c \<noteq> chars ''none''"
proof -
  have "graphic b \<and> b \<noteq> 34 \<and> b \<noteq> 44 \<and> b \<noteq> 110" if "b \<in> set c" for b
    using assms(2) that digit_graphic [of b] by (fastforce simp: graphic_def)
  then have "plain_token c" "110 \<notin> set c" using assms(1) by (auto simp: plain_token_def)
  then show ?thesis by auto
qed

lemma plain_segment: "IsSegment s \<Longrightarrow> plain_token s"
  using IsSegmentD [of s] seg_char_graphic by (auto simp: plain_token_def)

lemma isJSONInt_chars:
  assumes "isJSONInt s"
  shows "s \<noteq> [] \<and> (\<forall>b \<in> set s. is_digit b \<or> b = 45)"
proof -
  obtain c r where c: "TrimPrefix s [45] = c # r" using assms by (cases "TrimPrefix s [45]") (auto simp: isJSONInt_def)
  have d: "list_all is_digit (c # r)"
  proof (cases "c = 48")
    case True
    then show ?thesis using assms c by (simp add: isJSONInt_def is_digit_def)
  next
    case False
    then show ?thesis using assms c by (simp add: isJSONInt_def)
  qed
  have "s = c # r \<or> s = 45 # c # r" using c by (cases s) (auto simp: TrimPrefix_def split: if_splits)
  then show ?thesis using d by (auto simp: list_all_iff)
qed

lemma not_is_digit: "c < 48 \<or> 57 < c \<longleftrightarrow> \<not> is_digit c"
  by (auto simp: is_digit_def)

lemma atoi_digits: "atoi_loop v s = (n, True) \<Longrightarrow> \<forall>c \<in> set s. is_digit c"
proof (induction s arbitrary: v)
  case (Cons c s)
  then show ?case by (cases "is_digit c") (simp_all only: atoi_loop.simps not_is_digit not_True_eq_False if_True if_False list.set ball_simps simp_thms prod.inject)
qed simp

lemma atoiFixed_digits: "atoiFixed s = (n, True) \<Longrightarrow> c \<in> set s \<Longrightarrow> is_digit c"
  using atoi_digits unfolding atoiFixed_def by blast

lemma list_pieces: "j \<le> length s \<Longrightarrow> i < j \<Longrightarrow> s = take i s @ s ! i # take (j - i - 1) (drop (Suc i) s) @ drop j s"
proof -
  assume i: "j \<le> length s" "i < j"
  have a: "s = take i s @ s ! i # drop (Suc i) s" using i id_take_nth_drop [of i s] by simp
  have "drop (Suc i) s = take (j - i - 1) (drop (Suc i) s) @ drop j s"
    using append_take_drop_id [of "j - i - 1" "drop (Suc i) s"] i by (simp add: drop_drop)
  from arg_cong [OF this, of "\<lambda>x. take i s @ s ! i # x"] show ?thesis using a by (rule trans [rotated])
qed

lemma validFullDate_chars: "validFullDate s \<Longrightarrow> c \<in> set s \<Longrightarrow> is_digit c \<or> c = 45"
proof -
  assume v: "validFullDate s" and c: "c \<in> set s"
  have l: "length s = 10" "s ! 4 = 45" "s ! 7 = 45" using v by (auto simp: validFullDate_def split: if_splits)
  obtain y m d where a: "atoiFixed (take 4 s) = (y, True)" "atoiFixed (take 2 (drop 5 s)) = (m, True)" "atoiFixed (drop 8 s) = (d, True)"
    using v by (auto simp: validFullDate_def split: if_splits prod.splits)
  have p: "s = take 4 s @ s ! 4 # take 2 (drop 5 s) @ drop 7 s" using list_pieces [of 7 s 4] l(1) by simp
  have "drop 7 s = 45 # drop 8 s" using Cons_nth_drop_Suc [of 7 s] l(1,3) by simp
  then have "s = take 4 s @ 45 # take 2 (drop 5 s) @ 45 # drop 8 s" by (rule subst) (use p in \<open>unfold l(2)\<close>)
  from arg_cong [OF this, of set] have "c \<in> set (take 4 s) \<union> {45} \<union> set (take 2 (drop 5 s)) \<union> set (drop 8 s)" using c by auto
  then show ?thesis using atoiFixed_digits a by blast
qed

lemma validClock_chars: "validClock s \<Longrightarrow> c \<in> set s \<Longrightarrow> is_digit c \<or> c = 58"
proof -
  assume v: "validClock s" and c: "c \<in> set s"
  have l: "length s = 8" "s ! 2 = 58" "s ! 5 = 58" using v by (auto simp: validClock_def split: if_splits)
  obtain y m d where a: "atoiFixed (take 2 s) = (y, True)" "atoiFixed (take 2 (drop 3 s)) = (m, True)" "atoiFixed (drop 6 s) = (d, True)"
    using v by (auto simp: validClock_def split: if_splits prod.splits)
  have p: "s = take 2 s @ s ! 2 # take 2 (drop 3 s) @ drop 5 s" using list_pieces [of 5 s 2] l(1) by simp
  have "drop 5 s = 58 # drop 6 s" using Cons_nth_drop_Suc [of 5 s] l(1,3) by simp
  then have "s = take 2 s @ 58 # take 2 (drop 3 s) @ 58 # drop 6 s" by (rule subst) (use p in \<open>unfold l(2)\<close>)
  from arg_cong [OF this, of set] have "c \<in> set (take 2 s) \<union> {58} \<union> set (take 2 (drop 3 s)) \<union> set (drop 6 s)" using c by auto
  then show ?thesis using atoiFixed_digits a by blast
qed

lemma isDatetime_chars:
  assumes "isDatetime tok"
  shows "tok \<noteq> [] \<and> (\<forall>b \<in> set tok. is_digit b \<or> b \<in> {45, 58, 84, 90})"
proof (cases "length tok = 10")
  case True
  then show ?thesis using assms validFullDate_chars [of tok] by (auto simp: isDatetime_def)
next
  case False
  then have l: "length tok = 20" "validFullDate (take 10 tok)" "tok ! 10 = 84" "validClock (take 8 (drop 11 tok))" "tok ! 19 = 90"
    using assms by (auto simp: isDatetime_def)
  have p: "tok = take 10 tok @ tok ! 10 # take 8 (drop 11 tok) @ drop 19 tok" using list_pieces [of 19 tok 10] l(1) by simp
  have "drop 19 tok = [90]" using Cons_nth_drop_Suc [of 19 tok] l(1,5) by simp
  then have "tok = take 10 tok @ 84 # take 8 (drop 11 tok) @ [90]" by (rule subst) (use p in \<open>unfold l(3)\<close>)
  from arg_cong [OF this, of set] have "set tok = set (take 10 tok) \<union> {84} \<union> set (take 8 (drop 11 tok)) \<union> {90}"
    by auto
  then show ?thesis using validFullDate_chars [OF l(2)] l(1) validClock_chars [OF l(4)] by auto
qed

lemma Quote_text: "Quote s = 34 # quote_body s @ [34]"
  by (simp add: Quote_def json_quote_def TrimSuffix_def HasSuffix_def)

lemma plainString_shape: "plainString c \<longleftrightarrow> (\<exists>b. c = 34 # b @ [34] \<and> (\<forall>x \<in> set b. \<not> (x < 0x20 \<or> 0x7E < x \<or> x = 34 \<or> x = 92)))"
proof
  assume p: "plainString c"
  then have l: "2 \<le> length c" "hd c = 34" "last c = 34" by (auto simp: plainString_def not_less split: if_splits)
  obtain y where y: "c = 34 # y" using l by (cases c) auto
  then have "y \<noteq> []" using l by auto
  then obtain b where b: "y = b @ [34]" using l y by (cases y rule: rev_cases) auto
  then show "\<exists>b. c = 34 # b @ [34] \<and> (\<forall>x \<in> set b. \<not> (x < 0x20 \<or> 0x7E < x \<or> x = 34 \<or> x = 92))"
    using p y by (auto simp: plainString_def list_all_iff)
next
  assume "\<exists>b. c = 34 # b @ [34] \<and> (\<forall>x \<in> set b. \<not> (x < 0x20 \<or> 0x7E < x \<or> x = 34 \<or> x = 92))"
  then show "plainString c" by (auto simp: plainString_def list_all_iff)
qed

lemma canonString_sound:
  assumes "canonString tok = Some c"
  shows "canonString c = Some c \<and> (\<exists>b. c = 34 # b @ [34] \<and> quoted_ok b)"
proof (cases "plainString tok")
  case True
  then obtain b where b: "tok = 34 # b @ [34]" "\<forall>x \<in> set b. \<not> (x < 0x20 \<or> 0x7E < x \<or> x = 34 \<or> x = 92)" by (auto simp: plainString_shape)
  then have "quoted_ok b" by (auto simp: quoted_ok_def not_less intro!: held_plain)
  then show ?thesis using assms True b(1) by (auto simp: canonString_def)
next
  case False
  then obtain s where s: "json_unquote tok = Some s" "c = Quote s" using assms by (auto simp: canonString_def split: option.splits)
  then have "json_unquote (Quote s) = Some s" using json_quote_again by (simp add: Quote_text json_quote_def)
  then show ?thesis using s quoted_ok_quote by (auto simp: canonString_def Quote_text)
qed

lemma quoted_clean: "quoted_ok b \<Longrightarrow> clean (34 # b @ [34]) \<and> balanced (34 # b @ [34]) \<and> 34 # b @ [34] \<noteq> chars ''none''"
proof -
  assume q: "quoted_ok b"
  have "10 \<notin> set b \<and> 13 \<notin> set b" using q by (auto simp: quoted_ok_def word_le_nat_alt)
  then show ?thesis using q balanced_string by (auto simp: quoted_ok_def clean_def tight_def graphic_def)
qed

end
