(* ===== verification/FactDoc.thy ===== *)
theory FactDoc
  imports FactCanon "HOL-Library.Multiset"
begin

text \<open>
  Values, lines and documents of package \<open>fact\<close>: what \<open>Load\<close> accepts, \<open>Canonical\<close> writes, and \<open>Load\<close> reads
  back as the same facts; a second pass writes the same bytes.
\<close>

section \<open>Scalars\<close>

lemma float_token:
  assumes "double_ok m k"
  shows "isJSONNumber (FormatFloat neg m k)" "plain_token (FormatFloat neg m k) \<and> FormatFloat neg m k \<noteq> chars ''none''"
proof -
  obtain i f x where n: "FormatFloat neg m k = number_text neg i f x" "number_ok i f x"
    using FormatFloat_number [OF assms, of neg] by blast
  show "isJSONNumber (FormatFloat neg m k)" using number_isJSON [OF n(2)] n(1) by simp
  have "number_text neg i f x \<noteq> []" using n(2) by (auto simp: number_text_def number_ok_def)
  moreover have "\<forall>b \<in> set (number_text neg i f x). is_digit b \<or> b \<in> {45, 46, 101, 43, 58, 84, 90}"
    using number_chars [OF n(2)] by blast
  ultimately show "plain_token (FormatFloat neg m k) \<and> FormatFloat neg m k \<noteq> chars ''none''"
    unfolding n(1) by (rule plain_numeric)
qed

lemma checkScalar_canon:
  assumes t: "type_ok t" and s: "checkScalar t tok n = Inr c"
  shows "canon_token t c"
proof (cases "Base t")
  case KBool
  then have c: "c = tok" "tok = chars ''true'' \<or> tok = chars ''false''" using s by (simp_all add: checkScalar_def split: if_splits)
  then have "plain_token c \<and> c \<noteq> chars ''none''" by (auto simp: plain_token_def graphic_def)
  then show ?thesis using plain_token_clean [of c] c KBool by (simp add: canon_token_def checkScalar_def)
next
  case KInt
  then have i: "isJSONInt tok" "ParseInt tok \<noteq> None" "c = (if tok = chars ''-0'' then chars ''0'' else tok)"
    using s by (auto simp: checkScalar_def split: if_splits)
  have z: "isJSONInt (chars ''0'')" "ParseInt (chars ''0'') \<noteq> None"
    by (simp_all add: isJSONInt_def TrimPrefix_def ParseInt_def Let_def is_digit_def dec_value_def val10_def)
  have c: "isJSONInt c" "ParseInt c \<noteq> None" "c \<noteq> chars ''-0''" using i z by (auto split: if_splits)
  then have "plain_token c \<and> c \<noteq> chars ''none''" using isJSONInt_chars [OF c(1)] by (intro plain_numeric) auto
  moreover have "checkScalar t c m = Inr c" for m using KInt c by (simp add: checkScalar_def)
  ultimately show ?thesis using plain_token_clean [of c] by (simp add: canon_token_def)
next
  case KFloat
  then obtain neg m k where f: "ParseFloat tok = Some (neg, m, k)" "c = FormatFloat neg m k"
    using s by (auto simp: checkScalar_def split: if_splits option.splits prod.splits)
  have ok: "double_ok m k" using ParseFloat_ok f(1) by blast
  have "checkScalar t c j = Inr c" for j using KFloat float_token(1) [OF ok] ParseFloat_Format [OF ok] f(2) by (simp add: checkScalar_def)
  then show ?thesis using float_token(2) [OF ok, of neg] plain_token_clean [of c] f(2) by (simp add: canon_token_def)
next
  case KStr
  then have c: "canonString tok = Some c" using s by (auto simp: checkScalar_def split: option.splits)
  then obtain b where b: "c = 34 # b @ [34]" "quoted_ok b" "canonString c = Some c" using canonString_sound by blast
  have "checkScalar t c m = Inr c" for m using KStr b(3) by (simp add: checkScalar_def)
  then show ?thesis using quoted_clean [OF b(2)] b(1) by (simp add: canon_token_def)
next
  case KDatetime
  then have c: "isDatetime tok" "c = tok" using s by (auto simp: checkScalar_def split: if_splits)
  then have "plain_token c \<and> c \<noteq> chars ''none''" using isDatetime_chars [OF c(1)] by (intro plain_numeric) auto
  then show ?thesis using plain_token_clean [of c] c KDatetime by (simp add: canon_token_def checkScalar_def)
next
  case KEnum
  then have c: "tok \<in> set (Symbols t)" "c = tok" using s by (auto simp: checkScalar_def split: if_splits)
  then have "plain_token c \<and> c \<noteq> chars ''none''" using t KEnum plain_segment by (auto simp: type_ok_def)
  then show ?thesis using plain_token_clean [of c] c KEnum by (simp add: canon_token_def checkScalar_def)
next
  case KRef
  then obtain kind ident where c: "Cut tok 58 = (kind, ident, True)" "IsSegment kind" "IsSegment ident" "kind = RefKind t" "c = tok"
    using s by (auto simp: checkScalar_def split: if_splits prod.splits)
  then have "c = kind @ 58 # ident" using Cut_sound by metis
  moreover have "graphic 58 \<and> (58 :: byte) \<noteq> 34 \<and> (58 :: byte) \<noteq> 44" by (simp add: graphic_def)
  ultimately have "plain_token c" "58 \<in> set c" using plain_segment [OF c(2)] plain_segment [OF c(3)] by (auto simp: plain_token_def)
  then show ?thesis using plain_token_clean [of c] c KRef by (auto simp: canon_token_def checkScalar_def)
qed

section \<open>Values\<close>

lemma check_elems_canon:
  "type_ok t \<Longrightarrow> check_elems t es n = Inr cs \<Longrightarrow> list_all (canon_token t) cs"
  by (induction es arbitrary: cs) (auto simp: checkScalar_canon split: sum.splits)

lemma check_elems_again: "list_all (canon_token t) cs \<Longrightarrow> check_elems t cs n = Inr cs"
  by (induction cs) (auto simp: canon_token_def)

lemma split_elems:
  "ws \<noteq> [] \<Longrightarrow> \<forall>w \<in> set ws. balanced w \<Longrightarrow>
    splitList_loop False False cur (Join (chars '', '') ws) = ((cur @ hd ws) # map ((#) 32) (tl ws), False)"
proof (induction "chars '', ''" ws arbitrary: cur rule: Join.induct)
  case (2 w)
  then have "splitList_loop False False cur (w @ []) = splitList_loop False False (cur @ w) []" unfolding balanced_def by (metis list.set_intros(1))
  then show ?case by simp
next
  case (3 w v ws)
  let ?r = "Join (chars '', '') (v # ws)"
  have "splitList_loop False False cur (w @ 44 # 32 # ?r) = splitList_loop False False (cur @ w) (44 # 32 # ?r)"
    using 3(3) unfolding balanced_def by force
  also have "\<dots> = (case splitList_loop False False [32] ?r of (es, s) \<Rightarrow> ((cur @ w) # es, s))" by simp
  also have "splitList_loop False False [32] ?r = (([32] @ v) # map ((#) 32) ws, False)" using 3(1) [of "[32]"] 3(3) by simp
  finally show ?case by simp
qed simp

lemma strip_Nil: "strip_prefixes ss [] = []"
proof -
  have "\<not> (s \<noteq> [] \<and> HasPrefix [] s)" for s by (cases s) auto
  then have "find (\<lambda>s. s \<noteq> [] \<and> HasPrefix [] s) ss = None" unfolding find_None_iff by blast
  then show ?thesis by (simp add: strip_prefixes.simps [of ss "[]"])
qed

lemma TrimSpace_Nil: "TrimSpace [] = []"
  by (simp add: TrimSpace_def strip_Nil)

lemma splitList_Join:
  assumes "\<forall>w \<in> set ws. tight w \<and> balanced w"
  shows "splitList (Join (chars '', '') ws) = Some ws"
proof (cases "ws = []")
  case True
  then show ?thesis by (simp add: splitList_def TrimSpace_Nil)
next
  case False
  have n: "w \<noteq> []" if "w \<in> set ws" for w using assms that by (auto simp: tight_def)
  have j: "TrimSpace (Join (chars '', '') ws) \<noteq> []"
    using TrimSpace_tight [OF tight_Join] assms False n Join_nonempty [of ws "chars '', ''"] by simp
  have l: "splitList_loop False False [] (Join (chars '', '') ws) = (hd ws # map ((#) 32) (tl ws), False)"
    using split_elems [OF False, of "[]"] assms by simp
  have "map TrimSpace (hd ws # map ((#) 32) (tl ws)) = map TrimSpace (hd ws # tl ws)" by (simp add: TrimSpace_before)
  also have "\<dots> = ws" using False assms by (simp add: map_idI TrimSpace_tight)
  finally show ?thesis using j l n unfolding splitList_def by auto
qed

definition value_ok :: "Type \<Rightarrow> Value \<Rightarrow> bool" where
  "value_ok t v \<longleftrightarrow> (\<forall>m. checkValue t (token v) m = Inr v) \<and> clean (token v)"

lemma checkValue_cases:
  assumes "checkValue t raw n = Inr v"
  obtains (none) "v = \<lparr>NoValue = True, ListValue = False, Elems = []\<rparr>" "\<not> Listed t" "Optional t"
    | (list) es cs where "v = \<lparr>NoValue = False, ListValue = True, Elems = cs\<rparr>" "Listed t" "check_elems t es n = Inr cs"
    | (one) c where "v = \<lparr>NoValue = False, ListValue = False, Elems = [c]\<rparr>" "\<not> Listed t" "checkScalar t raw n = Inr c"
  using assms by (auto simp: checkValue_def split: if_splits option.splits sum.splits)

lemma checkValue_canon:
  assumes t: "type_ok t" and v: "checkValue t raw n = Inr v"
  shows "value_ok t v"
proof -
  show ?thesis using v
  proof (cases rule: checkValue_cases)
    case none
    then show ?thesis by (simp add: value_ok_def token_def checkValue_def clean_def tight_def graphic_def)
  next
    case (list es cs)
    have all: "list_all (canon_token t) cs" using check_elems_canon [OF t list(3)] .
    have cs: "\<forall>w \<in> set cs. tight w \<and> balanced w" using all by (auto simp: list_all_iff canon_token_def clean_def)
    have tk: "token v = 0x5B # Join (chars '', '') cs @ [0x5D]" using list(1) by (simp add: token_def)
    have "checkValue t (token v) m = Inr v" for m
      using list splitList_Join [OF cs] check_elems_again [OF all] unfolding tk checkValue_def by simp
    moreover have "\<forall>w \<in> set cs. 10 \<notin> set w \<and> 13 \<notin> set w" using all by (auto simp: list_all_iff canon_token_def clean_def)
    then have "clean (token v)" using set_Join [of "chars '', ''" cs] unfolding tk by (auto simp: clean_def tight_def graphic_def)
    ultimately show ?thesis by (simp add: value_ok_def)
  next
    case (one c)
    then show ?thesis using checkScalar_canon [OF t one(3)] by (simp add: value_ok_def token_def checkValue_def canon_token_def)
  qed
qed

section \<open>Lines\<close>

definition fact_ok :: "Fact \<Rightarrow> bool" where
  "fact_ok f \<longleftrightarrow> checkKey (Key f) 0 = None \<and> type_ok (FType f) \<and> value_ok (FType f) (FValue f)"

lemma parseFact_parts:
  "parseFact line n = Inr f \<longleftrightarrow> (\<exists>left right k ty t v. Cut line 61 = (left, right, True) \<and> CutLast left 58 = (k, ty, True)
     \<and> checkKey (TrimSpace k) n = None \<and> parseType (TrimSpace ty) n = Inr t \<and> checkValue t (TrimSpace right) n = Inr v
     \<and> f = \<lparr>Key = TrimSpace k, FType = t, FValue = v, Line = n\<rparr>)"
  (is "?l \<longleftrightarrow> ?r")
proof
  assume p: ?l
  obtain left right has_eq where 1: "Cut line 61 = (left, right, has_eq)" by (cases "Cut line 61") auto
  obtain k ty has_colon where 2: "CutLast left 58 = (k, ty, has_colon)" by (cases "CutLast left 58") auto
  have e: "has_eq" "has_colon" using p unfolding parseFact_def 1 by (auto simp: 2 split: if_splits)
  have k: "checkKey (TrimSpace k) n = None" using p unfolding parseFact_def 1 by (auto simp: 2 e Let_def split: option.splits)
  obtain t where t: "parseType (TrimSpace ty) n = Inr t"
    using p unfolding parseFact_def 1 by (cases "parseType (TrimSpace ty) n") (auto simp: 2 e k Let_def)
  obtain v where v: "checkValue t (TrimSpace right) n = Inr v"
    using p unfolding parseFact_def 1 by (cases "checkValue t (TrimSpace right) n") (auto simp: 2 e k t Let_def)
  have "f = \<lparr>Key = TrimSpace k, FType = t, FValue = v, Line = n\<rparr>"
    using p unfolding parseFact_def 1 by (simp add: 2 e k t v)
  moreover have "Cut line 61 = (left, right, True)" "CutLast left 58 = (k, ty, True)" using 1 2 e by simp_all
  ultimately show ?r using k t v by blast
next
  assume ?r
  then show ?l by (auto simp: parseFact_def)
qed

lemma parseFact_ok: "parseFact line n = Inr f \<Longrightarrow> fact_ok f \<and> Line f = n"
proof -
  assume "parseFact line n = Inr f"
  then obtain k ty right t v where p: "checkKey (TrimSpace k) n = None" "parseType (TrimSpace ty) n = Inr t" "checkValue t (TrimSpace right) n = Inr v"
    "f = \<lparr>Key = TrimSpace k, FType = t, FValue = v, Line = n\<rparr>"
    unfolding parseFact_parts by blast
  then show ?thesis using checkKeyD(4) [OF p(1), of 0] parseType_sound(1) [OF p(2)] checkValue_canon [OF _ p(3)] by (simp add: fact_ok_def)
qed

lemma fact_line:
  assumes "fact_ok f"
  shows "parseFact (fact_String f) n = Inr (f\<lparr>Line := n\<rparr>)" and "clean (fact_String f)" and "hd (fact_String f) \<noteq> 35"
proof -
  have k: "checkKey (Key f) 0 = None" and t: "type_ok (FType f)" and v: "value_ok (FType f) (FValue f)" using assms by (simp_all add: fact_ok_def)
  have b: "base_ok (Raw (FType f))" using t by (simp add: type_ok_def)
  define ty tk where "ty = Raw (FType f)" and "tk = token (FValue f)"
  have s: "fact_String f = (Key f @ 58 # 32 # ty @ [32]) @ 61 # 32 # tk" by (simp add: fact_String_def ty_def tk_def)
  have "61 \<notin> set (Key f @ 58 # 32 # ty @ [32])" using checkKey_free(1) [OF k] base_okD(2) [OF b] by (simp add: ty_def)
  then have 1: "Cut (fact_String f) 61 = (Key f @ 58 # 32 # ty @ [32], 32 # tk, True)" unfolding s by (rule Cut_found)
  have "58 \<notin> set (32 # ty @ [32])" using base_okD(3) [OF b] by (simp add: ty_def)
  then have 2: "CutLast (Key f @ 58 # 32 # ty @ [32]) 58 = (Key f, 32 # ty @ [32], True)" by (rule CutLast_found)
  have 3: "TrimSpace (Key f) = Key f" using checkKeyD(1) [OF k] by (rule TrimSpace_tight)
  have 4: "TrimSpace (32 # ty @ [32]) = ty" using TrimSpace_after base_okD(1) [OF b] by (simp add: TrimSpace_before ty_def)
  have 5: "TrimSpace (32 # tk) = tk" using TrimSpace_tight v by (simp add: TrimSpace_before tk_def value_ok_def clean_def)
  have 6: "parseType ty n = Inr (FType f)" "checkValue (FType f) tk n = Inr (FValue f)" "checkKey (Key f) n = None"
    using t v checkKeyD(4) [OF k] by (simp_all add: type_ok_def value_ok_def ty_def tk_def)
  show "parseFact (fact_String f) n = Inr (f\<lparr>Line := n\<rparr>)"
    unfolding parseFact_def 1 by (simp add: 2 3 4 5 6)
  have c: "clean tk" using v by (simp add: value_ok_def tk_def)
  have h: "hd (fact_String f) = hd (Key f)" using checkKey_free(4) [OF k] by (simp add: s)
  show "hd (fact_String f) \<noteq> 35" unfolding h using checkKeyD(2) [OF k] by (auto simp: isLetter_def)
  have "last (fact_String f) = last tk" "tk \<noteq> []" using c by (auto simp: s clean_def tight_def)
  then have "tight (fact_String f)" using h c checkKeyD(1) [OF k] by (simp add: clean_def tight_def s)
  then show "clean (fact_String f)" using checkKey_free(2,3) [OF k] base_okD(4,5) [OF b] c by (simp add: clean_def s ty_def)
qed

section \<open>Parsing what was written\<close>

lemma Split_lines: "\<forall>w \<in> set ws. c \<notin> set w \<Longrightarrow> ws \<noteq> [] \<Longrightarrow> Split c (Join [c] ws @ [c]) = ws @ [[]]"
proof (induction "[c]" ws rule: Join.induct)
  case (2 w)
  then show ?case using Split_append [of c w "[]"] by simp
next
  case (3 w v ws)
  then show ?case using Split_append [of c w "Join [c] (v # ws) @ [c]"] by simp
qed simp

text \<open>A list of facts with the line numbers of consecutive lines.\<close>

fun numbered :: "nat \<Rightarrow> Fact list \<Rightarrow> Fact list" where
  "numbered n [] = []"
| "numbered n (f # fs) = f\<lparr>Line := n\<rparr> # numbered (n + 1) fs"

lemma fact_String_Line [simp]: "fact_String (f\<lparr>Line := n\<rparr>) = fact_String f"
  by (simp add: fact_String_def)

lemma map_numbered [simp]: "map fact_String (numbered n fs) = map fact_String fs"
  by (induction fs arbitrary: n) auto

lemma numbered_Nil: "numbered n fs = [] \<longleftrightarrow> fs = []"
  by (cases fs) simp_all

lemma Parse_lines_facts: "\<forall>f \<in> set fs. fact_ok f \<Longrightarrow> Parse_lines n (map fact_String fs) = (numbered n fs, [])"
proof (induction fs arbitrary: n)
  case (Cons f fs)
  have f: "fact_ok f" using Cons.prems by simp
  have c: "tight (fact_String f)" "13 \<notin> set (fact_String f)" using fact_line(2) [OF f] by (simp_all add: clean_def)
  obtain x w where x: "fact_String f = x # w" "x \<noteq> 35" using c(1) fact_line(3) [OF f] by (cases "fact_String f") (auto simp: tight_def)
  then have h: "\<not> HasPrefix (fact_String f) (chars ''#'')" "fact_String f \<noteq> []" by simp_all
  show ?case using Cons.IH [of "n + 1"] Cons.prems c h fact_line(1) [OF f, of n] TrimSpace_tight [OF c(1)] by simp
qed simp

text \<open>The facts in the order of their lines.\<close>

definition by_line :: "Fact list \<Rightarrow> Fact list" where
  "by_line fs = sort_key fact_String fs"

lemma map_by_line: "map fact_String (by_line fs) = sort (map fact_String fs)"
  unfolding by_line_def by (intro properties_for_sort [symmetric]) simp_all

lemma Parse_Canonical:
  assumes "\<forall>f \<in> set fs. fact_ok f"
  shows "Parse (Canonical fs) = (numbered 1 (by_line fs), [])"
proof (cases "fs = []")
  case True
  then show ?thesis by (simp add: Parse_def Canonical_def by_line_def)
next
  case False
  let ?ls = "map fact_String (by_line fs)"
  have ok: "\<forall>f \<in> set (by_line fs). fact_ok f" using assms by (simp add: by_line_def)
  have "\<forall>w \<in> set ?ls. 10 \<notin> set w" using ok fact_line(2) by (auto simp: clean_def)
  moreover have "?ls \<noteq> []" using False by (simp add: by_line_def) (metis length_0_conv length_sort)
  ultimately have "Split 10 (Join [10] ?ls @ [10]) = ?ls @ [[]]" by (rule Split_lines)
  then have "Split 10 (Canonical fs) = ?ls @ [[]]" using False by (simp only: Canonical_def map_by_line [symmetric] if_False)
  then show ?thesis using Parse_lines_facts [OF ok, of 1] by (simp add: Parse_def Let_def)
qed

lemma Parse_lines_ok: "Parse_lines n ls = (fs, errs) \<Longrightarrow> \<forall>f \<in> set fs. fact_ok f"
proof (induction ls arbitrary: n fs errs)
  case (Cons l ls)
  obtain gs es where r: "Parse_lines (n + 1) ls = (gs, es)" by (cases "Parse_lines (n + 1) ls") auto
  then have g: "\<forall>f \<in> set gs. fact_ok f" using Cons.IH by blast
  show ?case
  proof (cases "parseFact l n")
    case (Inl e)
    then show ?thesis using Cons.prems r g by (auto split: if_splits)
  next
    case (Inr f)
    then show ?thesis using Cons.prems r g parseFact_ok [OF Inr] by (auto split: if_splits)
  qed
qed simp

lemma Load_ok: "Load src = (fs, errs) \<Longrightarrow> \<forall>f \<in> set fs. fact_ok f"
  using Parse_lines_ok by (auto simp: Load_def Parse_def Let_def split: prod.splits)

section \<open>The set checks\<close>

text \<open>A fact without its line number.\<close>

abbreviation bare :: "Fact \<Rightarrow> Fact" where
  "bare f \<equiv> f\<lparr>Line := 0\<rparr>"

text \<open>What \<open>Validate\<close> promises of a set with no error, over its facts in any order.\<close>

definition consistent :: "Fact set \<Rightarrow> bool" where
  "consistent F \<longleftrightarrow> (\<forall>f \<in> F. \<forall>g \<in> F. fst (keyMarker (Key f)) \<noteq> [] \<longrightarrow> fst (keyMarker (Key f)) = fst (keyMarker (Key g)) \<longrightarrow>
     snd (keyMarker (Key f)) = snd (keyMarker (Key g)))"

definition resolved :: "Fact set \<Rightarrow> bool" where
  "resolved F \<longleftrightarrow> (\<forall>f \<in> F. Base (FType f) = KRef \<longrightarrow> \<not> NoValue (FValue f) \<longrightarrow>
     (\<forall>tok \<in> set (Elems (FValue f)). tok \<noteq> [] \<and> (\<exists>g \<in> F. fst (keyMarker (Key g)) = tok)))"

definition valid_set :: "Fact list \<Rightarrow> bool" where
  "valid_set fs \<longleftrightarrow> distinct (map Key fs) \<and> consistent (set fs) \<and> resolved (set fs)"

definition agrees :: "(bytes \<rightharpoonup> bytes) \<Rightarrow> Fact set \<Rightarrow> bool" where
  "agrees pre F \<longleftrightarrow> (\<forall>f \<in> F. \<forall>p. fst (keyMarker (Key f)) \<noteq> [] \<longrightarrow> pre (fst (keyMarker (Key f))) = Some p \<longrightarrow>
     p = snd (keyMarker (Key f)))"

lemma Validate_keys_Nil:
  "Validate_keys seen pre fs = [] \<longleftrightarrow> distinct (map Key fs) \<and> Key ` set fs \<inter> seen = {} \<and> consistent (set fs) \<and> agrees pre (set fs)"
proof (induction fs arbitrary: seen pre)
  case Nil
  then show ?case by (simp add: consistent_def agrees_def)
next
  case (Cons f fs)
  obtain m p where k: "keyMarker (Key f) = (m, p)" by (cases "keyMarker (Key f)") auto
  define same where "same \<longleftrightarrow> (\<forall>g \<in> set fs. m \<noteq> [] \<longrightarrow> m = fst (keyMarker (Key g)) \<longrightarrow> p = snd (keyMarker (Key g)))"
  have cons: "consistent (set (f # fs)) \<longleftrightarrow> consistent (set fs) \<and> same"
    unfolding consistent_def same_def using k by auto
  have keys: "Key f \<notin> seen \<and> Key ` set fs \<inter> insert (Key f) seen = {} \<and> distinct (map Key fs)
      \<longleftrightarrow> distinct (map Key (f # fs)) \<and> Key ` set (f # fs) \<inter> seen = {}" by auto
  have step: "Validate_keys seen pre (f # fs) = [] \<longleftrightarrow> Key f \<notin> seen \<and>
     (if m = [] then Validate_keys (insert (Key f) seen) pre fs = []
      else case pre m of Some q \<Rightarrow> q = p \<and> Validate_keys (insert (Key f) seen) pre fs = []
           | None \<Rightarrow> Validate_keys (insert (Key f) seen) (pre(m \<mapsto> p)) fs = [])"
    by (simp add: k split: option.split)
  show ?case
  proof (cases "m = []")
    case True
    then have "same" "agrees pre (set (f # fs)) = agrees pre (set fs)" using k by (simp_all add: same_def agrees_def)
    then show ?thesis unfolding step cons Cons.IH using True keys by (simp only: simp_thms if_True) blast
  next
    case False
    show ?thesis
    proof (cases "pre m")
      case None
      have "agrees (pre(m \<mapsto> p)) (set fs) \<longleftrightarrow> agrees pre (set fs) \<and> same"
        unfolding agrees_def same_def using None False by (auto split: if_splits)
      moreover have "agrees pre (set (f # fs)) = agrees pre (set fs)" using k None by (simp add: agrees_def)
      ultimately show ?thesis unfolding step cons Cons.IH using False None keys by (simp only: simp_thms if_False option.case) blast
    next
      case (Some q)
      have "agrees pre (set (f # fs)) \<longleftrightarrow> q = p \<and> agrees pre (set fs)" using k Some False by (simp add: agrees_def)
      moreover have "same" if "q = p" "agrees pre (set fs)"
        unfolding same_def using that Some by (auto simp: agrees_def)
      ultimately show ?thesis unfolding step cons Cons.IH using False Some keys by (simp only: simp_thms if_False option.case) blast
    qed
  qed
qed

lemma Validate_refs_Nil: "Validate_refs (set_markers fs) fs = [] \<longleftrightarrow> resolved (set fs)"
proof -
  have m: "tok \<in> set (set_markers fs) \<longleftrightarrow> tok \<noteq> [] \<and> (\<exists>g \<in> set fs. fst (keyMarker (Key g)) = tok)" for tok
    by (auto simp: set_markers_def)
  have "Validate_refs (set_markers fs) fs = [] \<longleftrightarrow>
    (\<forall>f \<in> set fs. Base (FType f) \<noteq> KRef \<or> NoValue (FValue f) \<or> (\<forall>tok \<in> set (Elems (FValue f)). tok \<in> set (set_markers fs)))"
    unfolding Validate_refs_def concat_eq_Nil_conv set_map ball_simps by (auto simp: filter_empty_conv)
  then show ?thesis unfolding resolved_def m by blast
qed

lemma sort_key_Nil: "sort_key f xs = [] \<longleftrightarrow> xs = []"
  by (metis length_0_conv length_sort)

lemma Validate_Nil: "Validate fs = [] \<longleftrightarrow> valid_set fs"
  by (simp add: agrees_def Validate_def sort_key_Nil Validate_keys_Nil Validate_refs_Nil valid_set_def)

lemma consistent_bare: "consistent (bare ` F) = consistent F" and resolved_bare: "resolved (bare ` F) = resolved F"
  by (simp_all add: consistent_def resolved_def)

lemma valid_set_cong:
  assumes "mset (map bare fs) = mset (map bare gs)"
  shows "valid_set fs \<longleftrightarrow> valid_set gs"
proof -
  have k: "image_mset Key (mset (map bare hs)) = mset (map Key hs)" for hs by (induction hs) simp_all
  have "mset (map Key fs) = mset (map Key gs)" using arg_cong [OF assms, of "image_mset Key"] by (simp only: k)
  then have "distinct (map Key fs) = distinct (map Key gs)" by (rule mset_eq_imp_distinct_iff)
  moreover have "bare ` set fs = bare ` set gs" using mset_eq_setD [OF assms] by simp
  then have "consistent (set fs) = consistent (set gs)" "resolved (set fs) = resolved (set gs)"
    using consistent_bare [of "set fs"] consistent_bare [of "set gs"] resolved_bare [of "set fs"] resolved_bare [of "set gs"] by simp_all
  ultimately show ?thesis by (simp add: valid_set_def)
qed

lemma bare_numbered: "map bare (numbered n fs) = map bare fs"
  by (induction fs arbitrary: n) auto

lemma valid_numbered: "valid_set (numbered n (by_line fs)) \<longleftrightarrow> valid_set fs"
proof (rule valid_set_cong)
  have "mset (by_line fs) = mset fs" by (simp add: by_line_def)
  then show "mset (map bare (numbered n (by_line fs))) = mset (map bare fs)" by (simp only: bare_numbered mset_map)
qed

lemma Canonical_again: "Canonical (numbered 1 (by_line fs)) = Canonical fs"
proof -
  have "numbered 1 (by_line fs) = [] \<longleftrightarrow> fs = []" by (simp add: numbered_Nil by_line_def sort_key_Nil)
  then show ?thesis unfolding Canonical_def map_numbered map_by_line by (simp add: sort_key_id_if_sorted)
qed

lemma Load_valid: "Load src = (fs, []) \<Longrightarrow> valid_set fs"
  by (simp add: Load_def Validate_Nil split: prod.splits)

text \<open>Documents for the witnesses.\<close>

definition sample_lines :: "bytes list" where
  "sample_lines = [chars ''win: list(ref(team)) = [team:red]'', chars ''team:red.size:  int = -0 '', [], chars ''a: str? = none'']"

definition document :: "bytes list \<Rightarrow> bytes" where
  "document ls = Join [10] ls @ [10]"

lemma sample_loads: "Load (document sample_lines) = (fst (Load (document sample_lines)), [])"
  by code_simp

lemma sample_rev_loads: "Load (document (rev sample_lines)) = (fst (Load (document (rev sample_lines))), [])"
  by code_simp

text \<open>C8. A document read without errors is read back from its canonical form: the same facts, in the
  order of their lines, without errors; and the canonical form of those is the same bytes.\<close>

theorem load_canonical:
  assumes "Load src = (fs, [])"
  shows "Load (Canonical fs) = (numbered 1 (by_line fs), []) \<and> Canonical (numbered 1 (by_line fs)) = Canonical fs"
proof -
  have v: "Validate (numbered 1 (by_line fs)) = []" using Load_valid [OF assms] by (simp add: Validate_Nil valid_numbered del: One_nat_def)
  show ?thesis using v Canonical_again by (simp add: Load_def Parse_Canonical [OF Load_ok [OF assms]] del: One_nat_def)
qed

theorem load_canonical_witness:
  "\<exists>src fs. Load src = (fs, []) \<and> fs \<noteq> [] \<and> Load (Canonical fs) = (numbered 1 (by_line fs), []) \<and>
     Canonical (numbered 1 (by_line fs)) = Canonical fs"
proof -
  have "fst (Load (document sample_lines)) \<noteq> []" by code_simp
  then show ?thesis using load_canonical [OF sample_loads] sample_loads by blast
qed

text \<open>C31. \<open>Validate\<close> finds no error exactly when no key is written twice, the facts of an instance carry one
  prefix, and every reference names the marker of an instance in the set: whatever the order of the facts.\<close>

theorem validate_iff: "Validate fs = [] \<longleftrightarrow> valid_set fs"
  by (rule Validate_Nil)

section \<open>Types\<close>

text \<open>The domain of a base type, as the tokens that name its values: integers of 64 bits, the shortest form of
  a finite double, a string of text, a calendar date with or without a time, a symbol, a marker.\<close>

definition inhabits :: "Type \<Rightarrow> bytes \<Rightarrow> bool" where
  "inhabits t tok =
     (case Base t of
        KBool \<Rightarrow> tok \<in> {chars ''true'', chars ''false''}
      | KInt \<Rightarrow> isJSONInt tok \<and> tok \<noteq> chars ''-0'' \<and> (\<exists>i. ParseInt tok = Some i \<and> - (2 ^ 63) \<le> i \<and> i < 2 ^ 63)
      | KFloat \<Rightarrow> (\<exists>neg m k. double_ok m k \<and> tok = FormatFloat neg m k)
      | KStr \<Rightarrow> (\<exists>s. utf8_text s \<and> json_unquote tok = Some s)
      | KDatetime \<Rightarrow> isDatetime tok
      | KEnum \<Rightarrow> tok \<in> set (Symbols t) \<and> tok \<noteq> chars ''none''
      | KRef \<Rightarrow> (\<exists>i. tok = RefKind t @ [58] @ i \<and> IsSegment (RefKind t) \<and> IsSegment i))"

definition well_typed :: "Fact \<Rightarrow> bool" where
  "well_typed f \<longleftrightarrow>
     (let t = FType f; v = FValue f
      in if NoValue v then Optional t \<and> \<not> Listed t \<and> \<not> ListValue v \<and> Elems v = []
         else ListValue v = Listed t \<and> (\<not> Listed t \<longrightarrow> length (Elems v) = 1) \<and> (\<forall>tok \<in> set (Elems v). inhabits t tok))"

lemma plain_unquote:
  assumes "\<forall>x \<in> set b. \<not> (x < 0x20 \<or> 0x7E < x \<or> x = 34 \<or> x = 92)"
  shows "unquote_body (b @ [34]) = Some b \<and> utf8_text b"
  using assms
proof (induction b)
  case (Cons c b)
  have c: "c < 0x80" "\<not> c < 0x20" "c \<noteq> 34" "c \<noteq> 92" using Cons.prems by (auto simp: word_less_nat_alt)
  then show ?case using Cons rune_len_ascii [of c "b @ [34]"] by (auto simp: utf8_text_ascii Let_def)
qed simp

lemma canonString_text: "canonString tok = Some c \<Longrightarrow> \<exists>s. utf8_text s \<and> json_unquote c = Some s"
proof (cases "plainString tok")
  case True
  assume "canonString tok = Some c"
  then obtain b where "c = 34 # b @ [34]" "\<forall>x \<in> set b. \<not> (x < 0x20 \<or> 0x7E < x \<or> x = 34 \<or> x = 92)"
    using True by (auto simp: canonString_def plainString_shape)
  then show ?thesis using plain_unquote [of b] by (auto simp: json_unquote_def)
next
  case False
  assume "canonString tok = Some c"
  then obtain s where s: "json_unquote tok = Some s" "c = Quote s" using False by (auto simp: canonString_def split: option.splits)
  then have "json_unquote c = Some s" using json_quote_again by (simp add: Quote_text json_quote_def)
  then show ?thesis using json_unquote_utf8 by blast
qed

lemma checkScalar_inhabits:
  assumes t: "type_ok t" and s: "checkScalar t tok n = Inr c"
  shows "inhabits t c"
proof (cases "Base t")
  case KInt
  then have i: "isJSONInt tok" "ParseInt tok \<noteq> None" "c = (if tok = chars ''-0'' then chars ''0'' else tok)"
    using s by (auto simp: checkScalar_def split: if_splits)
  have z: "isJSONInt (chars ''0'')" "ParseInt (chars ''0'') \<noteq> None"
    by (simp_all add: isJSONInt_def TrimPrefix_def ParseInt_def Let_def is_digit_def dec_value_def val10_def)
  have "isJSONInt c" "ParseInt c \<noteq> None" "c \<noteq> chars ''-0''" using i z by (auto split: if_splits)
  then show ?thesis using KInt by (auto simp: inhabits_def ParseInt_def Let_def split: if_splits)
next
  case KFloat
  then obtain neg m k where f: "ParseFloat tok = Some (neg, m, k)" "c = FormatFloat neg m k"
    using s by (auto simp: checkScalar_def split: if_splits option.splits prod.splits)
  then show ?thesis using KFloat ParseFloat_ok [OF f(1)] by (simp add: inhabits_def) blast
next
  case KStr
  then show ?thesis using s canonString_text by (auto simp: inhabits_def checkScalar_def split: option.splits)
next
  case KRef
  then obtain kind ident where c: "Cut tok 58 = (kind, ident, True)" "IsSegment kind" "IsSegment ident" "kind = RefKind t" "c = tok"
    using s by (auto simp: checkScalar_def split: if_splits prod.splits)
  then have "c = kind @ [58] @ ident" using Cut_sound [of tok 58 kind ident] by simp
  then show ?thesis using c KRef by (auto simp: inhabits_def)
qed (use s t in \<open>auto simp: inhabits_def checkScalar_def type_ok_def split: if_splits\<close>)

lemma check_elems_inhabits: "type_ok t \<Longrightarrow> check_elems t es n = Inr cs \<Longrightarrow> \<forall>c \<in> set cs. inhabits t c"
proof (induction es arbitrary: cs)
  case (Cons e es)
  obtain c where c: "checkScalar t e n = Inr c" using Cons.prems by (cases "checkScalar t e n") auto
  obtain ds where d: "check_elems t es n = Inr ds" using Cons.prems c by (cases "check_elems t es n") auto
  show ?case using Cons.prems c d checkScalar_inhabits [OF _ c] Cons.IH by auto
qed simp

lemma fact_ok_typed: "fact_ok f \<Longrightarrow> well_typed f"
proof -
  assume f: "fact_ok f"
  let ?t = "FType f"
  have t: "type_ok ?t" and v: "checkValue ?t (token (FValue f)) 0 = Inr (FValue f)" using f by (simp_all add: fact_ok_def value_ok_def)
  show ?thesis using v
  proof (cases rule: checkValue_cases)
    case (list es cs)
    then show ?thesis using check_elems_inhabits [OF t list(3)] by (simp add: well_typed_def)
  next
    case (one c)
    then show ?thesis using checkScalar_inhabits [OF t one(3)] by (simp add: well_typed_def)
  qed (simp add: well_typed_def)
qed

text \<open>C22. Every fact \<open>Load\<close> returns, whatever the errors beside it, has a value of its type: none only for
  an optional, a list only for a list type, one token otherwise, and every token in the base type's domain.\<close>

theorem load_typed: "list_all well_typed (fst (Load src))"
proof -
  obtain fs errs where l: "Load src = (fs, errs)" by (cases "Load src") auto
  show ?thesis unfolding l list_all_iff using Load_ok [OF l] fact_ok_typed by simp
qed

section \<open>The order of the lines\<close>

lemma checkScalar_line: "checkScalar t tok n = Inr c \<Longrightarrow> checkScalar t tok m = Inr c"
  by (cases "Base t") (auto simp: checkScalar_def split: if_splits option.splits prod.splits)

lemma check_elems_line: "check_elems t es n = Inr cs \<Longrightarrow> check_elems t es m = Inr cs"
proof (induction es arbitrary: cs)
  case (Cons e es)
  obtain c where c: "checkScalar t e n = Inr c" using Cons.prems by (cases "checkScalar t e n") auto
  obtain ds where d: "check_elems t es n = Inr ds" using Cons.prems c by (cases "check_elems t es n") auto
  show ?case using Cons.prems c d checkScalar_line [OF c, of m] Cons.IH [OF d] by simp
qed simp

lemma checkValue_line:
  assumes "checkValue t raw n = Inr v"
  shows "checkValue t raw m = Inr v"
proof (cases "raw = chars ''none''")
  case True
  then show ?thesis using assms by (simp add: checkValue_def split: if_splits)
next
  case no: False
  show ?thesis
  proof (cases "Listed t")
    case True
    then obtain es where s: "\<not> (length raw < 2 \<or> hd raw \<noteq> 0x5B \<or> last raw \<noteq> 0x5D)" "splitList (butlast (tl raw)) = Some es"
      using assms no by (auto simp: checkValue_def split: if_splits option.splits)
    then obtain cs where c: "check_elems t es n = Inr cs" using assms no True by (cases "check_elems t es n") (auto simp: checkValue_def)
    then show ?thesis using assms no True s check_elems_line [OF c, of m] by (simp add: checkValue_def)
  next
    case False
    then obtain c where c: "checkScalar t raw n = Inr c" using assms no by (cases "checkScalar t raw n") (auto simp: checkValue_def)
    then show ?thesis using assms no False checkScalar_line [OF c, of m] by (simp add: checkValue_def)
  qed
qed

lemma parseFact_line:
  assumes "parseFact line n = Inr f"
  shows "parseFact line m = Inr (f\<lparr>Line := m\<rparr>)"
proof -
  obtain left right k ty t v where p: "Cut line 61 = (left, right, True)" "CutLast left 58 = (k, ty, True)"
    "checkKey (TrimSpace k) n = None" "parseType (TrimSpace ty) n = Inr t" "checkValue t (TrimSpace right) n = Inr v"
    "f = \<lparr>Key = TrimSpace k, FType = t, FValue = v, Line = n\<rparr>"
    using assms unfolding parseFact_parts by blast
  have "parseType (TrimSpace ty) m = Inr t" using parseType_sound [OF p(4)] by (simp add: type_ok_def)
  then show ?thesis unfolding parseFact_parts using p checkKeyD(4) [OF p(3)] checkValue_line [OF p(5)] by fastforce
qed

text \<open>A line that yields no error, and the fact it yields, wherever it stands.\<close>

definition line_ok :: "bytes \<Rightarrow> bool" where
  "line_ok l \<longleftrightarrow> 13 \<notin> set l \<and> (TrimSpace l = [] \<or> \<not> HasPrefix (TrimSpace l) (chars ''#'') \<and> (\<exists>f. parseFact l 0 = Inr f))"

definition line_fact :: "bytes \<Rightarrow> Fact" where
  "line_fact l = projr (parseFact l 0)"

lemma Parse_lines_clean:
  "(snd (Parse_lines n ls) = [] \<longleftrightarrow> (\<forall>l \<in> set ls. line_ok l)) \<and>
   (snd (Parse_lines n ls) = [] \<longrightarrow> map bare (fst (Parse_lines n ls)) = map line_fact (filter (\<lambda>l. TrimSpace l \<noteq> []) ls))"
proof (induction ls arbitrary: n)
  case (Cons l ls)
  obtain fs es where r: "Parse_lines (Suc n) ls = (fs, es)" by (cases "Parse_lines (Suc n) ls") auto
  note ih = Cons.IH [of "Suc n", unfolded r fst_conv snd_conv]
  have step: "Parse_lines n (l # ls) =
      (if 13 \<in> set l then (fs, \<lparr>ELine = n, ECode = E001\<rparr> # es) else if TrimSpace l = [] then (fs, es)
       else if HasPrefix (TrimSpace l) (chars ''#'') then (fs, \<lparr>ELine = n, ECode = E001\<rparr> # es)
       else case parseFact l n of Inl err \<Rightarrow> (fs, err # es) | Inr f \<Rightarrow> (f # fs, es))"
    using r by simp
  have good: "line_ok l \<longleftrightarrow> 13 \<notin> set l \<and> (TrimSpace l = [] \<or> \<not> HasPrefix (TrimSpace l) (chars ''#'') \<and> (\<exists>f. parseFact l n = Inr f))"
    unfolding line_ok_def using parseFact_line [of l 0 _ n] parseFact_line [of l n _ 0] by blast
  have "snd (Parse_lines n (l # ls)) = [] \<longleftrightarrow> es = [] \<and> line_ok l" unfolding step good by (cases "parseFact l n") simp_all
  moreover have "map bare (fst (Parse_lines n (l # ls))) = map line_fact (filter (\<lambda>l. TrimSpace l \<noteq> []) (l # ls))"
    if e: "es = []" "line_ok l"
  proof -
    have m: "map bare fs = map line_fact (filter (\<lambda>l. TrimSpace l \<noteq> []) ls)" using ih e(1) by blast
    show ?thesis
    proof (cases "TrimSpace l = []")
      case True
      then show ?thesis unfolding step using e m by (simp add: line_ok_def)
    next
      case False
      then obtain f where f: "parseFact l n = Inr f" "13 \<notin> set l" "\<not> HasPrefix (TrimSpace l) (chars ''#'')" using e good by blast
      then have "line_fact l = bare f" using parseFact_line [OF f(1), of 0] by (simp add: line_fact_def)
      then show ?thesis unfolding step using f False e m by simp
    qed
  qed
  ultimately show ?case using ih by auto
qed auto

lemma Parse_lines_doc: "ls \<noteq> [] \<Longrightarrow> \<forall>l \<in> set ls. 10 \<notin> set l \<Longrightarrow> Parse (document ls) = Parse_lines 1 ls"
  by (simp add: document_def Parse_def Split_lines Let_def)

lemma Canonical_cong:
  assumes "mset (map bare fs) = mset (map bare gs)"
  shows "Canonical fs = Canonical gs"
proof -
  have k: "image_mset fact_String (mset (map bare hs)) = mset (map fact_String hs)" for hs by (induction hs) simp_all
  have "mset (map fact_String fs) = mset (map fact_String gs)" using arg_cong [OF assms, of "image_mset fact_String"] by (simp only: k)
  then have "sort (map fact_String fs) = sort (map fact_String gs)" by (intro properties_for_sort) simp_all
  moreover have "fs = [] \<longleftrightarrow> gs = []" using assms by (metis map_is_Nil_conv mset_zero_iff)
  ultimately show ?thesis by (simp add: Canonical_def)
qed

text \<open>A document is a set of lines: in any other order of its lines it is read without errors if
  it is in one, and has the same canonical form.\<close>

theorem lines_unordered:
  assumes "\<forall>l \<in> set ls. 10 \<notin> set l" and "mset ls' = mset ls" and "Load (document ls) = (fs, [])"
  shows "\<exists>gs. Load (document ls') = (gs, []) \<and> Canonical gs = Canonical fs"
proof (cases "ls = []")
  case True
  then show ?thesis using assms by auto
next
  case False
  have s: "set ls' = set ls" using mset_eq_setD [OF assms(2)] .
  have n: "ls' \<noteq> []" "\<forall>l \<in> set ls'. 10 \<notin> set l" using False s assms(1) by auto
  have l: "Load (document ls) = (fst (Parse_lines 1 ls), snd (Parse_lines 1 ls) @ Validate (fst (Parse_lines 1 ls)))"
    using Parse_lines_doc [OF False assms(1)] by (simp add: Load_def case_prod_unfold)
  have l': "Load (document ls') = (fst (Parse_lines 1 ls'), snd (Parse_lines 1 ls') @ Validate (fst (Parse_lines 1 ls')))"
    using Parse_lines_doc [OF n] by (simp add: Load_def case_prod_unfold)
  have e: "snd (Parse_lines 1 ls) = []" "fst (Parse_lines 1 ls) = fs" using l assms(3) by simp_all
  then have e': "snd (Parse_lines 1 ls') = []" using Parse_lines_clean [of 1 ls] Parse_lines_clean [of 1 ls'] s by blast
  have b: "map bare fs = map line_fact (filter (\<lambda>l. TrimSpace l \<noteq> []) ls)"
    "map bare (fst (Parse_lines 1 ls')) = map line_fact (filter (\<lambda>l. TrimSpace l \<noteq> []) ls')"
    using Parse_lines_clean [of 1 ls] Parse_lines_clean [of 1 ls'] e e' by blast+
  have "mset (map bare (fst (Parse_lines 1 ls'))) = mset (map bare fs)"
    unfolding b mset_map mset_filter assms(2) by (rule refl)
  from Canonical_cong [OF this] valid_set_cong [OF this] show ?thesis
    using l' e' Load_valid [OF assms(3)] Validate_Nil [of "fst (Parse_lines 1 ls')"] by (intro exI conjI) (assumption | simp only: append_Nil simp_thms)+
qed

theorem lines_unordered_witness:
  "\<exists>gs. Load (document (rev sample_lines)) = (gs, []) \<and> Canonical gs = Canonical (fst (Load (document sample_lines)))"
proof (rule lines_unordered [OF _ _ sample_loads])
  show "\<forall>l \<in> set sample_lines. 10 \<notin> set l" by (simp add: sample_lines_def)
qed simp

text \<open>Canonical forms compare sets of facts: those of two documents read without errors are the
  same bytes exactly when the documents hold the same facts.\<close>

theorem canonical_iff:
  assumes "Load a = (fs, [])" and "Load b = (gs, [])"
  shows "Canonical fs = Canonical gs \<longleftrightarrow> mset (map bare fs) = mset (map bare gs)"
proof
  assume c: "Canonical fs = Canonical gs"
  have "numbered 1 (by_line fs) = numbered 1 (by_line gs)"
    using Parse_Canonical [OF Load_ok [OF assms(1)]] Parse_Canonical [OF Load_ok [OF assms(2)]] c by simp
  then have "map bare (by_line fs) = map bare (by_line gs)" by (metis bare_numbered)
  then have "mset (map bare (by_line fs)) = mset (map bare (by_line gs))" by (rule arg_cong)
  then show "mset (map bare fs) = mset (map bare gs)" by (simp add: by_line_def)
next
  assume "mset (map bare fs) = mset (map bare gs)"
  then show "Canonical fs = Canonical gs" by (rule Canonical_cong)
qed

theorem canonical_iff_witness:
  "Canonical (fst (Load (document sample_lines))) = Canonical (fst (Load (document (rev sample_lines)))) \<longleftrightarrow>
   mset (map bare (fst (Load (document sample_lines)))) = mset (map bare (fst (Load (document (rev sample_lines)))))"
  by (rule canonical_iff [OF sample_loads sample_rev_loads])

end
