(* ===== verification/FactBind.thy ===== *)
theory FactBind
  imports FactDoc
begin

text \<open>
  Package \<open>fact\<close>, \<open>bind.go\<close> and \<open>instance.go\<close>: a fact set as nested maps, and as records. The maps are shared, so
  they live in a heap: a \<open>map[string]any\<close> is an address, and the root is address 0. Then: what a fact binds to
  is found by walking its key from the root; grouping by instance loses and invents nothing.
\<close>

section \<open>Values and maps\<close>

datatype Any = ANil | ABool bool | AInt int | AFloat "bool \<times> nat \<times> nat" | AStr bytes | AList "Any list" | AMap nat

record Heap =
  cells :: "nat \<Rightarrow> bytes \<rightharpoonup> Any"
  fresh :: nat

definition make_map :: "Heap \<Rightarrow> nat \<times> Heap" where
  "make_map h = (fresh h, h\<lparr>cells := (cells h)(fresh h := Map.empty), fresh := fresh h + 1\<rparr>)"

definition set_key :: "Heap \<Rightarrow> nat \<Rightarrow> bytes \<Rightarrow> Any \<Rightarrow> Heap" where
  "set_key h a k v = h\<lparr>cells := (cells h)(a := (cells h a)(k \<mapsto> v))\<rparr>"

text \<open>The errors, and the panic on an empty scalar value, which only a hand-made fact has.\<close>

datatype BindError = KindCollision bytes | ValueAndNamespace bytes | Unresolved bytes | BadNumber bytes | BindPanic

section \<open>Binding\<close>

definition unquote :: "bytes \<Rightarrow> bytes" where
  "unquote tok =
     (if plainString tok then butlast (tl tok)
      else case json_unquote tok of None \<Rightarrow> tok | Some s \<Rightarrow> s)"

text \<open>A float token is read as a JSON number, which is what \<open>Parse\<close> lets through; \<open>strconv\<close> also reads other spellings.\<close>

definition bindScalar :: "Type \<Rightarrow> bytes \<Rightarrow> (bytes \<rightharpoonup> nat) \<Rightarrow> BindError + Any" where
  "bindScalar t tok reg =
     (case Base t of
        KBool \<Rightarrow> Inr (ABool (tok = chars ''true''))
      | KInt \<Rightarrow> (case ParseInt tok of None \<Rightarrow> Inl (BadNumber tok) | Some i \<Rightarrow> Inr (AInt i))
      | KFloat \<Rightarrow> (case ParseFloat tok of None \<Rightarrow> Inl (BadNumber tok) | Some x \<Rightarrow> Inr (AFloat x))
      | KStr \<Rightarrow> Inr (AStr (unquote tok))
      | KDatetime \<Rightarrow> Inr (AStr tok)
      | KEnum \<Rightarrow> Inr (AStr tok)
      | KRef \<Rightarrow> (case reg tok of None \<Rightarrow> Inl (Unresolved tok) | Some m \<Rightarrow> Inr (AMap m)))"

fun bind_elems :: "Type \<Rightarrow> bytes list \<Rightarrow> (bytes \<rightharpoonup> nat) \<Rightarrow> BindError + Any list" where
  "bind_elems t [] reg = Inr []"
| "bind_elems t (tok # toks) reg =
     (case bindScalar t tok reg of
        Inl err \<Rightarrow> Inl err
      | Inr x \<Rightarrow> (case bind_elems t toks reg of Inl err \<Rightarrow> Inl err | Inr xs \<Rightarrow> Inr (x # xs)))"

definition bindValue :: "Type \<Rightarrow> Value \<Rightarrow> (bytes \<rightharpoonup> nat) \<Rightarrow> BindError + Any" where
  "bindValue t v reg =
     (if NoValue v then Inr ANil
      else if ListValue v then (case bind_elems t (Elems v) reg of Inl err \<Rightarrow> Inl err | Inr xs \<Rightarrow> Inr (AList xs))
      else case Elems v of [] \<Rightarrow> Inl BindPanic | tok # _ \<Rightarrow> bindScalar t tok reg)"

text \<open>The levels of \<open>bindPlace\<close>: a name, and the instance's map when the level is an instance's id.\<close>

definition levels :: "(bytes \<rightharpoonup> nat) \<Rightarrow> bytes \<Rightarrow> (bytes \<times> nat option) list" where
  "levels reg key =
     concat (map (\<lambda>seg. case Cut seg 58 of
         (kind, ident, isMarker) \<Rightarrow> if isMarker then [(kind, None), (ident, reg seg)] else [(seg, None)]) (Split 46 key))"

fun bindPlace_loop :: "Heap \<Rightarrow> nat \<Rightarrow> bytes \<Rightarrow> (bytes \<times> nat option) list \<Rightarrow> Any \<Rightarrow> BindError + Heap" where
  "bindPlace_loop h cur key [] val = Inr h"
| "bindPlace_loop h cur key [(leaf, inst)] val =
     (if cells h cur leaf \<noteq> None then Inl (ValueAndNamespace key) else Inr (set_key h cur leaf val))"
| "bindPlace_loop h cur key ((name, inst) # lv # lvs) val =
     (case cells h cur name of
        None \<Rightarrow>
          (case inst of
             Some m \<Rightarrow> bindPlace_loop (set_key h cur name (AMap m)) m key (lv # lvs) val
           | None \<Rightarrow>
               (case make_map h of
                  (m, h') \<Rightarrow> bindPlace_loop (set_key h' cur name (AMap m)) m key (lv # lvs) val))
      | Some (AMap m) \<Rightarrow> bindPlace_loop h m key (lv # lvs) val
      | Some _ \<Rightarrow> Inl (ValueAndNamespace key))"

definition bindPlace :: "Heap \<Rightarrow> nat \<Rightarrow> (bytes \<rightharpoonup> nat) \<Rightarrow> bytes \<Rightarrow> Any \<Rightarrow> BindError + Heap" where
  "bindPlace h root reg key val = bindPlace_loop h root key (levels reg key) val"

text \<open>The first key prefix that is a kind's path.\<close>

definition kindPrefix :: "bytes \<Rightarrow> bytes set \<Rightarrow> bytes option" where
  "kindPrefix key kinds =
     (let segs = Split 46 key
      in find (\<lambda>p. p \<in> kinds) (map (\<lambda>i. Join [46] (take (i + 1) segs)) [0..<length segs]))"

text \<open>The first loop of \<open>Bind\<close>: a map for each marker, and the paths of the kinds.\<close>

definition kind_path :: "bytes \<Rightarrow> bytes \<Rightarrow> bytes" where
  "kind_path marker prefix = TrimSuffix prefix (58 # fst (snd (Cut marker 58)))"

fun Bind_register :: "Heap \<Rightarrow> (bytes \<rightharpoonup> nat) \<Rightarrow> bytes set \<Rightarrow> Fact list \<Rightarrow> Heap \<times> (bytes \<rightharpoonup> nat) \<times> bytes set" where
  "Bind_register h reg kinds [] = (h, reg, kinds)"
| "Bind_register h reg kinds (f # fs) =
     (case keyMarker (Key f) of
        (marker, prefix) \<Rightarrow>
          if marker = [] then Bind_register h reg kinds fs
          else case reg marker of
            Some _ \<Rightarrow> Bind_register h reg (insert (kind_path marker prefix) kinds) fs
          | None \<Rightarrow>
              (case make_map h of
                 (m, h') \<Rightarrow> Bind_register h' (reg(marker \<mapsto> m)) (insert (kind_path marker prefix) kinds) fs))"

text \<open>One pass of the second loop: the facts of instances, or the others.\<close>

fun Bind_pass :: "bool \<Rightarrow> (bytes \<rightharpoonup> nat) \<Rightarrow> bytes set \<Rightarrow> Heap \<Rightarrow> Fact list \<Rightarrow> BindError + Heap" where
  "Bind_pass marked reg kinds h [] = Inr h"
| "Bind_pass marked reg kinds h (f # fs) =
     (let marker = fst (keyMarker (Key f))
      in if (marker \<noteq> []) \<noteq> marked then Bind_pass marked reg kinds h fs
         else if marker = [] \<and> kindPrefix (Key f) kinds \<noteq> None then Inl (KindCollision (Key f))
         else case bindValue (FType f) (FValue f) reg of
                Inl err \<Rightarrow> Inl err
              | Inr val \<Rightarrow>
                  (case bindPlace h 0 reg (Key f) val of
                     Inl err \<Rightarrow> Inl err
                   | Inr h' \<Rightarrow> Bind_pass marked reg kinds h' fs))"

definition empty_heap :: Heap where
  "empty_heap = \<lparr>cells = (\<lambda>_. Map.empty), fresh = 1\<rparr>"

definition Bind :: "Fact list \<Rightarrow> BindError + Heap" where
  "Bind fs =
     (case Bind_register empty_heap Map.empty {} fs of
        (h, reg, kinds) \<Rightarrow>
          (case Bind_pass True reg kinds h fs of
             Inl err \<Rightarrow> Inl err
           | Inr h' \<Rightarrow> Bind_pass False reg kinds h' fs))"

text \<open>What a template reads: the value a path of names leads to from a map.\<close>

fun walk :: "Heap \<Rightarrow> nat \<Rightarrow> bytes list \<Rightarrow> Any option" where
  "walk h a [] = Some (AMap a)"
| "walk h a [k] = cells h a k"
| "walk h a (k # l # ks) = (case cells h a k of Some (AMap m) \<Rightarrow> walk h m (l # ks) | _ \<Rightarrow> None)"

section \<open>Instances\<close>

record Instance =
  Prefix :: bytes
  Kind :: bytes
  ID :: bytes
  ILine :: nat
  Fields :: "Fact list"

definition field_of :: "bytes \<Rightarrow> Fact \<Rightarrow> Fact" where
  "field_of through f = f\<lparr>Key := TrimPrefix (TrimPrefix (Key f) through) [46]\<rparr>"

definition new_instance :: "bytes \<Rightarrow> bytes \<Rightarrow> Fact \<Rightarrow> Instance" where
  "new_instance marker through f =
     (case Cut marker 58 of
        (kind, ident, _) \<Rightarrow>
          \<lparr>Prefix = TrimSuffix (TrimSuffix through marker) [46], Kind = kind, ID = ident, ILine = Line f, Fields = []\<rparr>)"

text \<open>The loop of \<open>Instances\<close>: the index of each path, the instances and the singletons so far.\<close>

fun Instances_loop :: "(bytes \<rightharpoonup> nat) \<Rightarrow> Instance list \<Rightarrow> Fact list \<Rightarrow> Fact list \<Rightarrow> Instance list \<times> Fact list" where
  "Instances_loop idx insts singles [] = (insts, singles)"
| "Instances_loop idx insts singles (f # fs) =
     (case keyMarker (Key f) of
        (marker, through) \<Rightarrow>
          if marker = [] then Instances_loop idx insts (singles @ [f]) fs
          else
            let (i, idx, insts) =
                  (case idx through of
                     Some i \<Rightarrow> (i, idx, insts)
                   | None \<Rightarrow> (length insts, idx(through \<mapsto> length insts), insts @ [new_instance marker through f]));
                inst = insts ! i
            in Instances_loop idx (insts[i := inst\<lparr>Fields := Fields inst @ [field_of through f]\<rparr>]) singles fs)"

definition Instances :: "Fact list \<Rightarrow> Instance list \<times> Fact list" where
  "Instances fs = Instances_loop Map.empty [] [] fs"

text \<open>A refused import file: its line, the first error's or that of the fact or instance that is not as asked.\<close>

definition LoadInstances :: "bytes \<Rightarrow> bytes list \<Rightarrow> nat + Instance list" where
  "LoadInstances src kinds =
     (case Load src of
        (facts, errs) \<Rightarrow>
          if errs \<noteq> [] then Inl (ELine (hd errs))
          else case Instances facts of
            (instances, singletons) \<Rightarrow>
              if singletons \<noteq> [] then Inl (Line (hd singletons))
              else case find (\<lambda>i. Prefix i \<noteq> [] \<or> Kind i \<notin> set kinds) instances of
                Some i \<Rightarrow> Inl (ILine i)
              | None \<Rightarrow> Inr instances)"

definition Text :: "Fact \<Rightarrow> bytes list" where
  "Text f =
     (if NoValue (FValue f) then []
      else map (\<lambda>tok. if Base (FType f) = KStr then unquote tok else tok) (Elems (FValue f)))"

definition One :: "Fact \<Rightarrow> nat + bytes" where
  "One f = (let t = Text f in if length t \<noteq> 1 then Inl (Line f) else Inr (hd t))"

section \<open>What a fact binds to\<close>

text \<open>A heap whose unused cells are empty and whose maps are all in use; a heap that keeps what another holds.\<close>

definition wf_heap :: "Heap \<Rightarrow> bool" where
  "wf_heap h \<longleftrightarrow> 0 < fresh h \<and> (\<forall>a. fresh h \<le> a \<longrightarrow> cells h a = Map.empty) \<and> (\<forall>a k m. cells h a k = Some (AMap m) \<longrightarrow> m < fresh h)"

definition heap_le :: "Heap \<Rightarrow> Heap \<Rightarrow> bool" where
  "heap_le h h' \<longleftrightarrow> fresh h \<le> fresh h' \<and> (\<forall>a. cells h a \<subseteq>\<^sub>m cells h' a)"

definition in_heap :: "Heap \<Rightarrow> Any \<Rightarrow> bool" where
  "in_heap h v \<longleftrightarrow> (\<forall>m. v = AMap m \<longrightarrow> m < fresh h)"

lemma heap_le_refl [simp]: "heap_le h h"
  by (simp add: heap_le_def)

lemma heap_le_trans: "heap_le a b \<Longrightarrow> heap_le b c \<Longrightarrow> heap_le a c"
  unfolding heap_le_def by (meson map_le_trans order_trans)

lemma heap_le_get: "heap_le h h' \<Longrightarrow> cells h a k = Some v \<Longrightarrow> cells h' a k = Some v"
  by (auto simp: heap_le_def map_le_def) (metis domI)

lemma walk_mono: "heap_le h h' \<Longrightarrow> walk h a p = Some v \<Longrightarrow> walk h' a p = Some v"
proof (induction h a p rule: walk.induct)
  case (3 h a k l ks)
  then obtain m where m: "cells h a k = Some (AMap m)" by (auto split: option.splits Any.splits)
  then show ?case using 3 heap_le_get [OF 3(2) m] by simp
qed (auto dest: heap_le_get)

lemma wf_set_key: "wf_heap h \<Longrightarrow> a < fresh h \<Longrightarrow> in_heap h v \<Longrightarrow> wf_heap (set_key h a k v)"
  by (auto simp: wf_heap_def set_key_def in_heap_def split: if_splits)

lemma le_set_key: "cells h a k = None \<Longrightarrow> heap_le h (set_key h a k v)"
  by (auto simp: heap_le_def set_key_def map_le_def)

lemma wf_make_map: "wf_heap h \<Longrightarrow> make_map h = (m, h') \<Longrightarrow> wf_heap h' \<and> m = fresh h \<and> fresh h' = fresh h + 1 \<and> cells h' = cells h"
  by (auto simp: wf_heap_def make_map_def less_Suc_eq fun_eq_iff split: if_splits)

lemma cells_set_key: "cells (set_key h a k v) a k = Some v" "fresh (set_key h a k v) = fresh h"
  by (simp_all add: set_key_def)

lemma place_loop:
  assumes "bindPlace_loop h cur key lvs val = Inr h'" and "wf_heap h" and "cur < fresh h" and "lvs \<noteq> []" and "in_heap h val"
    and "\<forall>(n, i) \<in> set lvs. \<forall>m. i = Some m \<longrightarrow> m < fresh h"
  shows "wf_heap h' \<and> heap_le h h' \<and> walk h' cur (map fst lvs) = Some val"
  using assms
proof (induction h cur key lvs val rule: bindPlace_loop.induct)
  case (2 h cur key leaf inst val)
  then have n: "cells h cur leaf = None" "h' = set_key h cur leaf val" by (auto split: if_splits)
  then show ?case using wf_set_key [OF 2(2,3,5)] le_set_key [OF n(1)] cells_set_key(1) by simp
next
  case (3 h cur key name inst lv lvs val)
  have step: "wf_heap h' \<and> heap_le h h' \<and> walk h' cur (map fst ((name, inst) # lv # lvs)) = Some val"
    if w: "wf_heap g" "heap_le h g" "m < fresh g" and c: "cells g cur name = Some (AMap m)"
      and p: "wf_heap h' \<and> heap_le g h' \<and> walk h' m (map fst (lv # lvs)) = Some val" for g m
  proof -
    have "cells h' cur name = Some (AMap m)" using heap_le_get [OF _ c] p by blast
    then show ?thesis using p heap_le_trans [OF w(2)] by simp
  qed
  have mono: "in_heap g val" "\<forall>(n, i) \<in> set (lv # lvs). \<forall>m. i = Some m \<longrightarrow> m < fresh g" if "fresh h \<le> fresh g" for g
    using 3(8,9) that by (fastforce simp: in_heap_def)+
  consider (none) "cells h cur name = None" "inst = None" | (inst) m where "cells h cur name = None" "inst = Some m"
    | (map) m where "cells h cur name = Some (AMap m)"
    using 3(4) by (auto split: option.splits Any.splits)
  then show ?case
  proof cases
    case none
    obtain m g where g: "make_map h = (m, g)" by (cases "make_map h") auto
    let ?g = "set_key g cur name (AMap m)"
    have w: "wf_heap g" "m = fresh h" "fresh g = fresh h + 1" "cells g = cells h" using wf_make_map [OF 3(5) g] by simp_all
    have wg: "wf_heap ?g" using wf_set_key [OF w(1), of cur "AMap m" name] 3(6) w by (simp add: in_heap_def)
    have le: "heap_le h ?g" using w none by (auto simp: heap_le_def set_key_def map_le_def)
    have fr: "fresh ?g = fresh h + 1" using w by (simp add: cells_set_key)
    have "bindPlace_loop ?g m key (lv # lvs) val = Inr h'" using 3(4) none g by simp
    then have "wf_heap h' \<and> heap_le ?g h' \<and> walk h' m (map fst (lv # lvs)) = Some val"
      using "3.IH"(1) [OF none g [symmetric] _ wg] mono [of ?g] fr w(2) by simp
    then show ?thesis using step [OF wg le, of m] fr w(2) cells_set_key(1) by simp
  next
    case inst
    let ?g = "set_key h cur name (AMap m)"
    have m: "m < fresh h" using 3(9) inst by auto
    have wg: "wf_heap ?g" using wf_set_key [OF 3(5,6), of "AMap m" name] m by (simp add: in_heap_def)
    have le: "heap_le h ?g" using le_set_key inst by blast
    have fr: "fresh ?g = fresh h" by (simp add: cells_set_key)
    have "bindPlace_loop ?g m key (lv # lvs) val = Inr h'" using 3(4) inst by simp
    then have "wf_heap h' \<and> heap_le ?g h' \<and> walk h' m (map fst (lv # lvs)) = Some val"
      using "3.IH"(2) [OF inst _ wg] mono [of ?g] fr m by simp
    then show ?thesis using step [OF wg le, of m] fr m cells_set_key(1) by simp
  next
    case (map m)
    have m: "m < fresh h" using 3(5) map by (auto simp: wf_heap_def)
    have "bindPlace_loop h m key (lv # lvs) val = Inr h'" using 3(4) map by simp
    then have "wf_heap h' \<and> heap_le h h' \<and> walk h' m (map fst (lv # lvs)) = Some val"
      using "3.IH"(3) [OF map refl _ 3(5) m] mono [of h] by simp
    then show ?thesis using step [OF 3(5) heap_le_refl m map] by simp
  qed
qed simp

definition path :: "bytes \<Rightarrow> bytes list" where
  "path key = map fst (levels Map.empty key)"

definition registry :: "Fact list \<Rightarrow> bytes \<rightharpoonup> nat" where
  "registry fs = fst (snd (Bind_register empty_heap Map.empty {} fs))"

definition reg_ok :: "Heap \<Rightarrow> (bytes \<rightharpoonup> nat) \<Rightarrow> bool" where
  "reg_ok h reg \<longleftrightarrow> (\<forall>k m. reg k = Some m \<longrightarrow> m < fresh h)"

lemma levels_path: "map fst (levels reg key) = path key"
  unfolding path_def levels_def map_concat map_map
  by (intro arg_cong [where f = concat] map_cong refl) (auto split: prod.splits)

lemma levels_nonempty: "levels reg key \<noteq> []"
proof -
  obtain s ss where s: "Split 46 key = s # ss" by (cases "Split 46 key") auto
  show ?thesis by (simp add: levels_def s split: prod.splits)
qed

lemma levels_inst: "reg_ok h reg \<Longrightarrow> \<forall>(n, i) \<in> set (levels reg key). \<forall>m. i = Some m \<longrightarrow> m < fresh h"
  by (auto simp: levels_def reg_ok_def split: prod.splits if_splits)

lemma bindScalar_heap: "reg_ok h reg \<Longrightarrow> bindScalar t tok reg = Inr v \<Longrightarrow> in_heap h v"
  by (cases "Base t") (auto simp: bindScalar_def in_heap_def reg_ok_def split: option.splits)

lemma bindValue_heap: "reg_ok h reg \<Longrightarrow> bindValue t v reg = Inr val \<Longrightarrow> in_heap h val"
proof -
  assume r: "reg_ok h reg" and b: "bindValue t v reg = Inr val"
  show ?thesis
  proof (cases "NoValue v \<or> ListValue v")
    case True
    then show ?thesis using b by (auto simp: bindValue_def in_heap_def split: if_splits sum.splits)
  next
    case False
    then show ?thesis using b bindScalar_heap [OF r] by (auto simp: bindValue_def split: list.splits)
  qed
qed

lemma place_fact:
  assumes "bindPlace h 0 reg key val = Inr h'" and "wf_heap h" and "reg_ok h reg" and "in_heap h val"
  shows "wf_heap h' \<and> heap_le h h' \<and> walk h' 0 (path key) = Some val"
  using place_loop [OF assms(1) [unfolded bindPlace_def] assms(2) _ levels_nonempty assms(4) levels_inst [OF assms(3)]] assms(2)
  by (simp add: levels_path wf_heap_def)

lemma reg_ok_le: "reg_ok h reg \<Longrightarrow> heap_le h h' \<Longrightarrow> reg_ok h' reg"
  by (fastforce simp: reg_ok_def heap_le_def)

lemma pass_places:
  assumes "Bind_pass marked reg kinds h fs = Inr h'" and "wf_heap h" and "reg_ok h reg"
  shows "wf_heap h' \<and> heap_le h h' \<and> (\<forall>f \<in> set fs. (fst (keyMarker (Key f)) \<noteq> []) = marked \<longrightarrow>
    (\<exists>val. bindValue (FType f) (FValue f) reg = Inr val \<and> walk h' 0 (path (Key f)) = Some val))"
  using assms
proof (induction fs arbitrary: h)
  case (Cons f fs)
  show ?case
  proof (cases "(fst (keyMarker (Key f)) \<noteq> []) = marked")
    case False
    then have "Bind_pass marked reg kinds h fs = Inr h'" using Cons.prems(1) by (simp add: Let_def)
    then show ?thesis using Cons.IH [of h] Cons.prems False by auto
  next
    case True
    then have n: "\<not> (fst (keyMarker (Key f)) = [] \<and> kindPrefix (Key f) kinds \<noteq> None)" using Cons.prems(1) by (auto simp: Let_def)
    obtain val where v: "bindValue (FType f) (FValue f) reg = Inr val"
      using Cons.prems(1) True n by (cases "bindValue (FType f) (FValue f) reg") (auto simp: Let_def split: if_splits)
    obtain g where g: "bindPlace h 0 reg (Key f) val = Inr g"
      using Cons.prems(1) True n v by (cases "bindPlace h 0 reg (Key f) val") (auto simp: Let_def split: if_splits)
    have r: "Bind_pass marked reg kinds g fs = Inr h'" using Cons.prems(1) True n v g by (simp add: Let_def split: if_splits)
    have p: "wf_heap g" "heap_le h g" "walk g 0 (path (Key f)) = Some val"
      using place_fact [OF g Cons.prems(2,3) bindValue_heap [OF Cons.prems(3) v]] by simp_all
    have ih: "wf_heap h'" "heap_le g h'" "\<forall>f \<in> set fs. (fst (keyMarker (Key f)) \<noteq> []) = marked \<longrightarrow>
        (\<exists>val. bindValue (FType f) (FValue f) reg = Inr val \<and> walk h' 0 (path (Key f)) = Some val)"
      using Cons.IH [OF r p(1) reg_ok_le [OF Cons.prems(3) p(2)]] by simp_all
    show ?thesis using ih heap_le_trans [OF p(2) ih(2)] v walk_mono [OF ih(2) p(3)] by auto
  qed
qed auto

lemma register_ok:
  "Bind_register h reg kinds fs = (h', reg', kinds') \<Longrightarrow> wf_heap h \<Longrightarrow> reg_ok h reg \<Longrightarrow> wf_heap h' \<and> reg_ok h' reg'"
proof (induction fs arbitrary: h reg kinds)
  case (Cons f fs)
  obtain marker prefix where k: "keyMarker (Key f) = (marker, prefix)" by (cases "keyMarker (Key f)") auto
  obtain m g where g: "make_map h = (m, g)" by (cases "make_map h") auto
  have w: "wf_heap g" "m = fresh h" "fresh g = fresh h + 1" using wf_make_map [OF Cons.prems(2) g] by simp_all
  have r: "reg_ok g (reg(marker \<mapsto> m))" using Cons.prems(3) w(2,3) by (fastforce simp: reg_ok_def)
  show ?case
  proof (cases "marker = []")
    case True
    then show ?thesis using Cons.IH [OF _ Cons.prems(2,3)] Cons.prems(1) k by simp
  next
    case False
    show ?thesis
    proof (cases "reg marker")
      case None
      then show ?thesis using Cons.IH [OF _ w(1) r] Cons.prems(1) k g False by (simp del: fun_upd_apply)
    next
      case (Some x)
      then show ?thesis using Cons.IH [OF _ Cons.prems(2,3)] Cons.prems(1) k False by simp
    qed
  qed
qed simp

lemma empty_heap_ok: "wf_heap empty_heap" "reg_ok empty_heap Map.empty"
  by (simp_all add: wf_heap_def empty_heap_def reg_ok_def)

text \<open>C27. Binding a fact set, when it succeeds, puts every fact where its key says: walking the key's segments from
  the root, an instance marker as the two names kind and id, leads to the fact's value as a Go value; no later fact
  overwrites it.\<close>

theorem bind_walk:
  assumes "Bind fs = Inr h" and "f \<in> set fs"
  shows "\<exists>val. bindValue (FType f) (FValue f) (registry fs) = Inr val \<and> walk h 0 (path (Key f)) = Some val"
proof -
  obtain h0 reg kinds where r: "Bind_register empty_heap Map.empty {} fs = (h0, reg, kinds)"
    by (cases "Bind_register empty_heap Map.empty {} fs") auto
  then obtain h1 where p: "Bind_pass True reg kinds h0 fs = Inr h1" "Bind_pass False reg kinds h1 fs = Inr h"
    using assms(1) by (cases "Bind_pass True reg kinds h0 fs") (auto simp: Bind_def)
  have o: "wf_heap h0" "reg_ok h0 reg" using register_ok [OF r empty_heap_ok] by simp_all
  have a: "wf_heap h1" "heap_le h0 h1" using pass_places [OF p(1) o] by simp_all
  have b: "heap_le h1 h" using pass_places [OF p(2) a(1) reg_ok_le [OF o(2) a(2)]] by simp
  have reg: "registry fs = reg" by (simp add: registry_def r)
  show ?thesis
  proof (cases "fst (keyMarker (Key f)) \<noteq> []")
    case True
    then show ?thesis using pass_places [OF p(1) o] assms(2) walk_mono [OF b] reg by blast
  next
    case False
    then show ?thesis using pass_places [OF p(2) a(1) reg_ok_le [OF o(2) a(2)]] assms(2) reg by blast
  qed
qed

section \<open>Instances as records\<close>

definition marked :: "Fact \<Rightarrow> bool" where
  "marked f \<longleftrightarrow> fst (keyMarker (Key f)) \<noteq> []"

definition through :: "Fact \<Rightarrow> bytes" where
  "through f = snd (keyMarker (Key f))"

text \<open>The paths through the markers, each where it first appears, and the record of one.\<close>

fun add_new :: "bytes list \<Rightarrow> bytes \<Rightarrow> bytes list" where
  "add_new ts t = (if t \<in> set ts then ts else ts @ [t])"

definition paths :: "Fact list \<Rightarrow> bytes list" where
  "paths fs = foldl add_new [] (map through (filter marked fs))"

definition facts_of :: "bytes \<Rightarrow> Fact list \<Rightarrow> Fact list" where
  "facts_of t fs = filter (\<lambda>f. marked f \<and> through f = t) fs"

definition record_of :: "Fact list \<Rightarrow> bytes \<Rightarrow> Instance" where
  "record_of fs t = (let g = facts_of t fs in
     (new_instance (fst (keyMarker (Key (hd g)))) t (hd g))\<lparr>Fields := map (field_of t) g\<rparr>)"

definition indexed :: "bytes list \<Rightarrow> (bytes \<rightharpoonup> nat) \<Rightarrow> bool" where
  "indexed ts idx \<longleftrightarrow> (\<forall>t i. idx t = Some i \<longleftrightarrow> i < length ts \<and> ts ! i = t)"

lemma paths_snoc: "paths (xs @ [f]) = (if marked f then add_new (paths xs) (through f) else paths xs)"
  by (simp add: paths_def)

lemma paths_marked: "t \<in> set (paths xs) \<longleftrightarrow> (\<exists>f \<in> set xs. marked f \<and> through f = t)"
proof (induction xs rule: rev_induct)
  case (snoc f xs)
  then show ?case by (auto simp: paths_snoc)
qed (simp add: paths_def)

lemma distinct_paths: "distinct (paths xs)"
proof (induction xs rule: rev_induct)
  case (snoc f xs)
  then show ?case by (simp add: paths_snoc)
qed (simp add: paths_def)

lemma facts_of_nonempty: "t \<in> set (paths xs) \<Longrightarrow> facts_of t xs \<noteq> []"
  by (auto simp: paths_marked facts_of_def filter_empty_conv)

lemma record_of_same: "t \<noteq> through f \<or> \<not> marked f \<Longrightarrow> record_of (xs @ [f]) t = record_of xs t"
  by (auto simp: record_of_def facts_of_def)

lemma record_of_more:
  assumes "marked f" and "t = through f" and "t \<in> set (paths xs)"
  shows "record_of (xs @ [f]) t = (record_of xs t)\<lparr>Fields := Fields (record_of xs t) @ [field_of t f]\<rparr>"
proof -
  have "facts_of t (xs @ [f]) = facts_of t xs @ [f]" using assms(1,2) by (simp add: facts_of_def)
  then show ?thesis using facts_of_nonempty [OF assms(3)] by (simp add: record_of_def Let_def)
qed

lemma record_of_new:
  assumes "marked f" and "t = through f" and "t \<notin> set (paths xs)"
  shows "record_of (xs @ [f]) t = (new_instance (fst (keyMarker (Key f))) t f)\<lparr>Fields := [field_of t f]\<rparr>"
proof -
  have "facts_of t xs = []" using assms(3) by (auto simp: paths_marked facts_of_def filter_empty_conv)
  then have "facts_of t (xs @ [f]) = [f]" using assms(1,2) by (simp add: facts_of_def)
  then show ?thesis by (simp add: record_of_def)
qed

lemma Instances_loop_spec:
  "indexed (paths xs) idx \<Longrightarrow>
    Instances_loop idx (map (record_of xs) (paths xs)) (filter (\<lambda>f. \<not> marked f) xs) fs =
    (map (record_of (xs @ fs)) (paths (xs @ fs)), filter (\<lambda>f. \<not> marked f) (xs @ fs))"
proof (induction fs arbitrary: xs idx)
  case (Cons f fs)
  let ?t = "through f"
  note ih = Cons.IH [of "xs @ [f]", simplified]
  obtain m where k: "keyMarker (Key f) = (m, ?t)" by (cases "keyMarker (Key f)") (auto simp: through_def)
  have mk: "marked f \<longleftrightarrow> m \<noteq> []" by (simp add: marked_def k)
  show ?case
  proof (cases "m = []")
    case True
    then have p: "paths (xs @ [f]) = paths xs" by (simp add: paths_snoc mk)
    have "map (record_of (xs @ [f])) (paths xs) = map (record_of xs) (paths xs)" using True by (simp add: record_of_same mk)
    from ih [of idx, unfolded p this] show ?thesis using True Cons.prems by (simp add: k mk)
  next
    case False
    show ?thesis
    proof (cases "idx ?t")
      case None
      have new: "?t \<notin> set (paths xs)"
      proof
        assume "?t \<in> set (paths xs)"
        then obtain i where "i < length (paths xs)" "paths xs ! i = ?t" by (auto simp: in_set_conv_nth)
        then have "idx ?t = Some i" using Cons.prems by (simp add: indexed_def)
        then show False using None by simp
      qed
      have p: "paths (xs @ [f]) = paths xs @ [?t]" using new False by (simp add: paths_snoc mk)
      have ix: "indexed (paths (xs @ [f])) (idx(?t \<mapsto> length (paths xs)))"
        unfolding p indexed_def
      proof (intro allI)
        fix t i
        have "(idx(?t \<mapsto> length (paths xs))) t = Some i \<longleftrightarrow> (if t = ?t then i = length (paths xs) else i < length (paths xs) \<and> paths xs ! i = t)"
          using Cons.prems by (auto simp: indexed_def)
        also have "\<dots> \<longleftrightarrow> i < length (paths xs @ [?t]) \<and> (paths xs @ [?t]) ! i = t"
          using new nth_mem [of i "paths xs"] by (cases "t = ?t") (auto simp: nth_append less_Suc_eq dest: sym)
        finally show "(idx(?t \<mapsto> length (paths xs))) t = Some i \<longleftrightarrow> i < length (paths xs @ [?t]) \<and> (paths xs @ [?t]) ! i = t" .
      qed
      have old: "map (record_of (xs @ [f])) (paths xs) = map (record_of xs) (paths xs)"
        using new by (intro map_cong refl record_of_same) auto
      have rec: "record_of (xs @ [f]) ?t = (new_instance m ?t f)\<lparr>Fields := [field_of ?t f]\<rparr>"
        using record_of_new [of f ?t xs] new False by (simp add: mk k)
      have "Fields (new_instance m ?t f) = []" by (simp add: new_instance_def split: prod.split)
      then show ?thesis using None False ih [OF ix] by (simp add: k mk p old rec nth_append list_update_append del: fun_upd_apply)
    next
      case (Some i)
      then have i: "i < length (paths xs)" "paths xs ! i = ?t" using Cons.prems by (simp_all add: indexed_def)
      then have mem: "?t \<in> set (paths xs)" using nth_mem by metis
      have p: "paths (xs @ [f]) = paths xs" using mem False by (simp add: paths_snoc mk)
      have "map (record_of (xs @ [f])) (paths xs) =
          (map (record_of xs) (paths xs))[i := (record_of xs ?t)\<lparr>Fields := Fields (record_of xs ?t) @ [field_of ?t f]\<rparr>]"
      proof (rule nth_equalityI)
        fix j assume "j < length (map (record_of (xs @ [f])) (paths xs))"
        then have j: "j < length (paths xs)" by simp
        show "map (record_of (xs @ [f])) (paths xs) ! j =
            (map (record_of xs) (paths xs))[i := (record_of xs ?t)\<lparr>Fields := Fields (record_of xs ?t) @ [field_of ?t f]\<rparr>] ! j"
        proof (cases "j = i")
          case True
          then show ?thesis using i record_of_more [of f ?t xs] mem False by (simp add: mk)
        next
          case False
          then have "paths xs ! j \<noteq> ?t" using nth_eq_iff_index_eq [OF distinct_paths j i(1)] i(2) by metis
          then show ?thesis using False j by (simp add: record_of_same)
        qed
      qed simp
      then show ?thesis using Some False ih [of idx] Cons.prems i by (simp add: k mk p)
    qed
  qed
qed simp

text \<open>\<open>Instances\<close> groups the facts by the path through the marker, in the order the paths first appear, each
  group in source order with its keys cut after the marker; the facts with no marker are the rest, in order.\<close>

theorem instances_group:
  "Instances fs = (map (record_of fs) (paths fs), filter (\<lambda>f. \<not> marked f) fs)"
  using Instances_loop_spec [of "[]" Map.empty fs] by (simp add: Instances_def indexed_def paths_def)

section \<open>Where the view and the set part\<close>

definition loads :: "bytes list \<Rightarrow> bool" where
  "loads ls \<longleftrightarrow> snd (Load (document ls)) = []"

text \<open>What a path leads to in a bound document; \<open>None\<close> also when it does not bind.\<close>

definition bound :: "bytes list \<Rightarrow> bytes list \<Rightarrow> Any option" where
  "bound ls p = (case Bind (fst (Load (document ls))) of Inl _ \<Rightarrow> None | Inr h \<Rightarrow> walk h 0 p)"

definition binds :: "bytes list \<Rightarrow> bool" where
  "binds ls = (case Bind (fst (Load (document ls))) of Inl _ \<Rightarrow> False | Inr h \<Rightarrow> True)"

definition crossed :: "bytes list" where
  "crossed = [chars ''a.b.c.d:e.x: int = 1'', chars ''a.b:c.y: int = 2'', chars ''r: ref(b) = b:c'']"

definition behind_ref :: "bytes list" where
  "behind_ref = [chars ''t:a.n: int = 1'', chars ''r: ref(t) = t:a'', chars ''r.x: int = 2'']"

text \<open>A reference need not bind to the map of its instance: when another instance's key runs through the
  instance's path first, the instance's facts go to a plain map made for the path, and the reference is left with
  the registered one, which stays empty. The set is valid, and binding reports nothing.\<close>

theorem bind_detached:
  "loads crossed \<and> bound crossed [chars ''a'', chars ''b'', chars ''c'', chars ''y''] = Some (AInt 2)
    \<and> bound crossed [chars ''r'', chars ''y''] = None
    \<and> (\<exists>m. bound crossed [chars ''r''] = Some (AMap m)) "
proof -
  have "bound crossed [chars ''r''] = Some (AMap 2)" by code_simp
  moreover have "loads crossed" by code_simp
  moreover have "bound crossed [chars ''a'', chars ''b'', chars ''c'', chars ''y''] = Some (AInt 2)" by code_simp
  moreover have "bound crossed [chars ''r'', chars ''y''] = None" by code_simp
  ultimately show ?thesis by blast
qed

text \<open>A key that is both a reference's value and a namespace is refused or not by the order of the lines: when
  the reference comes first, the other fact is written into the instance the reference names.\<close>

theorem bind_behind_ref:
  "loads behind_ref \<and> loads (rev behind_ref) \<and> \<not> binds (rev behind_ref)
    \<and> bound behind_ref [chars ''t'', chars ''a'', chars ''x''] = Some (AInt 2)"
proof (intro conjI)
  show "loads behind_ref" by code_simp
  show "loads (rev behind_ref)" by code_simp
  show "\<not> binds (rev behind_ref)" by code_simp
  show "bound behind_ref [chars ''t'', chars ''a'', chars ''x''] = Some (AInt 2)" by code_simp
qed

definition bind_sample :: "bytes list" where
  "bind_sample = [chars ''t:a.n: int = 1'', chars ''r: ref(t) = t:a'']"

theorem bind_walk_witness:
  "\<exists>fs h f. Bind fs = Inr h \<and> f \<in> set fs \<and>
     (\<exists>val. bindValue (FType f) (FValue f) (registry fs) = Inr val \<and> walk h 0 (path (Key f)) = Some val)"
proof -
  have "binds bind_sample" by code_simp
  then obtain h where h: "Bind (fst (Load (document bind_sample))) = Inr h" by (auto simp: binds_def split: sum.splits)
  have "fst (Load (document bind_sample)) \<noteq> []" by code_simp
  then show ?thesis using bind_walk [OF h hd_in_set] h hd_in_set by blast
qed

end
