(* ===== verification/Decimals.thy ===== *)
theory Decimals
  imports FloatText
begin

text \<open>
  Numbers as text, as \<open>strconv\<close> and \<open>time\<close> write them: an integer in decimal, a number padded with zeros to a width,
  a double in exponent form. What is written is read back.
\<close>

text \<open>Zeros before the digits up to a width.\<close>

definition pad0 :: "nat \<Rightarrow> nat \<Rightarrow> bytes" where
  "pad0 w n = (let s = map digit_byte (digits n) in replicate (w - length s) 48 @ s)"

definition FormatInt :: "int \<Rightarrow> bytes" where
  "FormatInt n = (if n < 0 then [45] else []) @ map digit_byte (digits (nat \<bar>n\<bar>))"

text \<open>\<open>Atoi\<close> of an optional sign and digits.\<close>

definition Atoi :: "bytes \<Rightarrow> int" where
  "Atoi s = (if HasPrefix s [45] then - int (dec_value (tl s)) else if HasPrefix s [43] then int (dec_value (tl s)) else int (dec_value s))"

text \<open>\<open>FormatFloat(v, 'e', -1, 64)\<close> of the double \<open>m * 2^k / unit_scale\<close>.\<close>

definition shortest_digits :: "nat \<Rightarrow> nat \<Rightarrow> nat list \<times> int" where
  "shortest_digits m k =
     (case shortest m k of
        (D, s) \<Rightarrow> (rev (dropWhile (\<lambda>d. d = 0) (rev (digits D))), int (length (digits D)) + int s - 340))"

definition FormatFloat_e :: "bool \<Rightarrow> nat \<Rightarrow> nat \<Rightarrow> bytes" where
  "FormatFloat_e neg m k =
     (if neg then [45] else []) @
     (if m = 0 then [48, 101, 43, 48, 48] else case shortest_digits m k of (ds, dp) \<Rightarrow> fmtE ds (dp - 1))"

section \<open>Padded numbers\<close>

lemma pad0_digits: "c \<in> set (pad0 w n) \<Longrightarrow> is_digit c"
  using digits_below digit_byte_ok by (auto simp: pad0_def Let_def is_digit_def word_le_nat_alt)

lemma map_value_pad0: "\<exists>k. map (\<lambda>c. unat c - 48) (pad0 w n) = replicate k 0 @ digits n"
proof -
  have "map (\<lambda>c. unat c - 48) (map digit_byte (digits n)) = digits n"
    using digits_below digit_byte_ok by (auto simp: map_idI comp_def)
  then show ?thesis by (simp add: pad0_def Let_def)
qed

lemma dec_value_pad0: "dec_value (pad0 w n) = n"
  using map_value_pad0 [of w n] by (auto simp: dec_value_def val10_lead val10_digits)

lemma length_digits: "n < 10 ^ w \<Longrightarrow> 0 < w \<Longrightarrow> length (digits n) \<le> w"
proof (rule ccontr)
  assume n: "n < 10 ^ w" "0 < w" and l: "\<not> length (digits n) \<le> w"
  show False
  proof (cases "n = 0")
    case True
    then show False using l n(2) by (simp add: digits.simps [of 0])
  next
    case False
    have "(10 :: nat) ^ w \<le> 10 ^ (length (digits n) - 1)" using l by (intro power_increasing) auto
    then have "10 ^ w \<le> n" using digits_bounds [of n] False by linarith
    then show False using n(1) by simp
  qed
qed

lemma length_pad0: "n < 10 ^ w \<Longrightarrow> 0 < w \<Longrightarrow> length (pad0 w n) = w"
  using length_digits [of n w] by (simp add: pad0_def Let_def)

section \<open>Integers\<close>

lemma digits_text: "\<forall>c \<in> set (map digit_byte (digits n)). is_digit c"
  using digits_below by (intro digit_bytes) blast

lemma dec_value_text: "dec_value (map digit_byte (digits n)) = n"
  using dec_value_digits [of "digits n"] digits_below val10_digits by simp

lemma Atoi_FormatInt: "Atoi (FormatInt n) = n"
proof -
  obtain c r where c: "map digit_byte (digits (nat \<bar>n\<bar>)) = c # r" by (cases "map digit_byte (digits (nat \<bar>n\<bar>))") auto
  then have "is_digit c" using digits_text [of "nat \<bar>n\<bar>"] by simp
  then have "c \<noteq> 45" "c \<noteq> 43" using not_digits by auto
  then show ?thesis using dec_value_text [of "nat \<bar>n\<bar>"] c by (simp add: Atoi_def FormatInt_def)
qed

text \<open>The exponent \<open>fmtE\<close> writes has a sign and two digits.\<close>

lemma Atoi_exponent:
  "Atoi ((if e < 0 then 45 else 43) # (let a = nat \<bar>e\<bar> in if a < 10 then [48, digit_byte a] else map digit_byte (digits a))) = e"
proof -
  have s: "(if a < 10 then [48, digit_byte a] else map digit_byte (digits a)) = map digit_byte (if a < 10 then [0, a] else digits a)" for a
    by (simp add: digit_zero)
  have "\<forall>x \<in> set (if a < 10 then [0, a] else digits a). x < 10" for a using digits_below by auto
  from dec_value_digits [OF this] have "dec_value (map digit_byte (if a < 10 then [0, a] else digits a)) = a" for a
    using val10_digits by (auto simp: val10_def)
  then show ?thesis unfolding Let_def s by (simp add: Atoi_def)
qed

end
