(* ===== verification/ServerRecord.thy ===== *)
theory ServerRecord
  imports Server Civil FactBind Decimals
begin

text \<open>
  \<open>kv/server/record.go\<close>: a vault's record as a FACT document, written by \<open>encode\<close> and read by \<open>decodeRecord\<close>. A
  \<open>time.Time\<close> of a record is its Unix milliseconds; the calendar of \<open>time\<close> is that of \<open>Civil\<close>. An error is \<open>None\<close>.
\<close>

section \<open>Times as text\<close>

definition Format_time :: "int \<Rightarrow> bytes" where
  "Format_time ms =
     (let s = ms div 1000; t = nat (s mod 86400)
      in case civilFromDays (s div 86400) of
        (y, m, d) \<Rightarrow>
          (if y < 0 then 45 # pad0 4 (nat (- y)) else pad0 4 (nat y)) @ 45 # pad0 2 (nat m) @ 45 # pad0 2 (nat d)
          @ 84 # pad0 2 (t div 3600) @ 58 # pad0 2 (t div 60 mod 60) @ 58 # pad0 2 (t mod 60) @ [90])"

text \<open>The pieces of \<open>time.Parse\<close>: two digits, or one where the layout allows it; four; a byte of the layout; the
  fraction of a second it accepts where the layout has none, in milliseconds.\<close>

definition getnum :: "bool \<Rightarrow> bytes \<Rightarrow> (nat \<times> bytes) option" where
  "getnum fixed s =
     (case s of
        [] \<Rightarrow> None
      | c # r \<Rightarrow>
          if \<not> is_digit c then None
          else if r \<noteq> [] \<and> is_digit (hd r) then Some (dec_value [c, hd r], tl r)
          else if fixed then None else Some (dec_value [c], r))"

definition get_year :: "bytes \<Rightarrow> (nat \<times> bytes) option" where
  "get_year s = (if 4 \<le> length s \<and> list_all is_digit (take 4 s) then Some (dec_value (take 4 s), drop 4 s) else None)"

definition expect :: "byte \<Rightarrow> bytes \<Rightarrow> bytes option" where
  "expect c s = (case s of [] \<Rightarrow> None | x # r \<Rightarrow> if x = c then Some r else None)"

definition get_fraction :: "bytes \<Rightarrow> nat \<times> bytes" where
  "get_fraction s =
     (case s of
        c # d # r \<Rightarrow>
          if (c = 46 \<or> c = 44) \<and> is_digit d
          then (dec_value (take 3 (takeWhile is_digit (d # r) @ [48, 48, 48])), dropWhile is_digit (d # r)) else (0, s)
      | _ \<Rightarrow> (0, s))"

definition get_date :: "bytes \<Rightarrow> (int \<times> bytes) option" where
  "get_date s =
     Option.bind (get_year s) (\<lambda>(y, s). Option.bind (expect 45 s) (\<lambda>s.
     Option.bind (getnum True s) (\<lambda>(m, s). Option.bind (expect 45 s) (\<lambda>s.
     Option.bind (getnum True s) (\<lambda>(d, s).
       if 1 \<le> m \<and> m \<le> 12 \<and> 1 \<le> d \<and> int d \<le> daysIn (int y) (int m)
       then Some (daysFromCivil (int y) (int m) (int d), s) else None)))))"

definition get_clock :: "bytes \<Rightarrow> (nat \<times> bytes) option" where
  "get_clock s =
     Option.bind (expect 84 s) (\<lambda>s. Option.bind (getnum False s) (\<lambda>(h, s). Option.bind (expect 58 s) (\<lambda>s.
     Option.bind (getnum True s) (\<lambda>(mi, s). Option.bind (expect 58 s) (\<lambda>s. Option.bind (getnum True s) (\<lambda>(se, s).
       case get_fraction s of
         (frac, s) \<Rightarrow>
           Option.bind (expect 90 s) (\<lambda>s.
             if h < 24 \<and> mi < 60 \<and> se < 60 then Some (((h * 60 + mi) * 60 + se) * 1000 + frac, s) else None)))))))"

text \<open>\<open>time.Parse\<close> under the layout of a date, and under that of a date and a time.\<close>

definition Parse_date :: "bytes \<Rightarrow> int option" where
  "Parse_date s = (case get_date s of Some (day, []) \<Rightarrow> Some (day * 86400000) | _ \<Rightarrow> None)"

definition Parse_time :: "bytes \<Rightarrow> int option" where
  "Parse_time s =
     Option.bind (get_date s) (\<lambda>(day, s).
       case get_clock s of Some (ms, []) \<Rightarrow> Some (day * 86400000 + int ms) | _ \<Rightarrow> None)"

section \<open>The record's document\<close>

definition optQuote :: "bytes option \<Rightarrow> bytes" where
  "optQuote s = (case s of None \<Rightarrow> chars ''none'' | Some s \<Rightarrow> Quote s)"

definition encode_src :: "vault_record \<Rightarrow> bytes" where
  "encode_src r =
     chars ''vault.auth_key: str? = '' @ optQuote (rAuthKey r) @ [10] @
     chars ''vault.created: datetime = '' @ Format_time (rCreated r) @ [10] @
     chars ''vault.ended: datetime? = '' @ (case rEnded r of None \<Rightarrow> chars ''none'' | Some t \<Rightarrow> Format_time t) @ [10] @
     chars ''vault.ephemeral: bool = '' @ (if rEphemeral r then chars ''true'' else chars ''false'') @ [10] @
     chars ''vault.note: str? = '' @ optQuote (rNote r) @ [10]"

definition encode :: "vault_record \<Rightarrow> bytes option" where
  "encode r = (case Load (encode_src r) of (facts, errs) \<Rightarrow> if errs \<noteq> [] then None else Some (Canonical facts))"

definition bindTime :: "Any option \<Rightarrow> int option" where
  "bindTime x = (case x of Some (AStr s) \<Rightarrow> if length s = 10 then Parse_date s else Parse_time s | _ \<Rightarrow> None)"

text \<open>The outer option is the error.\<close>

definition bindOptStr :: "Any option \<Rightarrow> bytes option option" where
  "bindOptStr x = (case x of None \<Rightarrow> Some None | Some ANil \<Rightarrow> Some None | Some (AStr s) \<Rightarrow> Some (Some s) | _ \<Rightarrow> None)"

definition vault_key :: "Heap \<Rightarrow> bytes \<Rightarrow> Any option" where
  "vault_key h k = (case cells h 0 (chars ''vault'') of Some (AMap v) \<Rightarrow> cells h v k | _ \<Rightarrow> None)"

definition decodeRecord :: "bytes \<Rightarrow> vault_record option" where
  "decodeRecord b =
     (case Load b of
        (facts, errs) \<Rightarrow>
          if errs \<noteq> [] then None
          else case Bind facts of
            Inl _ \<Rightarrow> None
          | Inr m \<Rightarrow>
              let v = vault_key m
              in case v (chars ''ephemeral'') of
                Some (ABool eph) \<Rightarrow>
                  Option.bind (bindTime (v (chars ''created''))) (\<lambda>cr.
                  Option.bind
                    (if v (chars ''ended'') = None \<or> v (chars ''ended'') = Some ANil then Some None
                     else map_option Some (bindTime (v (chars ''ended'')))) (\<lambda>en.
                  Option.bind (bindOptStr (v (chars ''auth_key''))) (\<lambda>ak.
                  Option.bind (bindOptStr (v (chars ''note''))) (\<lambda>note.
                    Some \<lparr>rAuthKey = ak, rEphemeral = eph, rCreated = cr, rEnded = en, rNote = note\<rparr>))))
              | _ \<Rightarrow> None)"

section \<open>A time written is read back\<close>

lemma atoi_value: "\<forall>c \<in> set s. is_digit c \<Longrightarrow> atoi_loop v s = (foldl (\<lambda>v c. 10 * v + (unat c - 48)) v s, True)"
proof (induction s arbitrary: v)
  case (Cons c s)
  then show ?case using not_is_digit [of c] by (simp add: mult.commute)
qed simp

lemma atoi_pad0: "atoiFixed (pad0 w n) = (n, True)"
proof -
  have "foldl (\<lambda>v c. 10 * v + (unat c - 48)) 0 (pad0 w n) = dec_value (pad0 w n)"
    by (simp add: dec_value_def val10_def foldl_map)
  then show ?thesis using atoi_value [of "pad0 w n" 0] pad0_digits by (simp add: atoiFixed_def dec_value_pad0)
qed

text \<open>A date and a clock as they are written.\<close>

definition date_text :: "nat \<Rightarrow> nat \<Rightarrow> nat \<Rightarrow> bytes" where
  "date_text y m d = pad0 4 y @ 45 # pad0 2 m @ 45 # pad0 2 d"

definition clock_text :: "nat \<Rightarrow> bytes" where
  "clock_text t = pad0 2 (t div 3600) @ 58 # pad0 2 (t div 60 mod 60) @ 58 # pad0 2 (t mod 60)"

lemma nth_join: "length a = n \<Longrightarrow> (a @ c # b) ! n = c"
  by auto

lemma take_join: "length a = n \<Longrightarrow> take n (a @ b) = a" "length a = n \<Longrightarrow> drop n (a @ b) = b"
  by simp_all

lemma days_table:
  assumes "1 \<le> m" and "m \<le> 12" and "1 \<le> y"
  shows "int (let days = [0, 31, 28, 31, 30, 31, 30, 31, 31, 30, 31, 30, 31] ! m
     in if m = 2 \<and> y mod 4 = 0 \<and> (y mod 100 \<noteq> 0 \<or> y mod 400 = 0) then 29 else days) = daysIn (int y) (int m)"
proof -
  have leap: "leap (int y) \<longleftrightarrow> y mod 4 = 0 \<and> (y mod 100 \<noteq> 0 \<or> y mod 400 = 0)"
  proof -
    have "int y mod numeral k = 0 \<longleftrightarrow> y mod numeral k = 0" for k
      by (metis of_nat_eq_0_iff of_nat_numeral zmod_int)
    then show ?thesis by (simp only: leap_def not_False_eq_True)
  qed
  have "m = 1 \<or> m = 2 \<or> m = 3 \<or> m = 4 \<or> m = 5 \<or> m = 6 \<or> m = 7 \<or> m = 8 \<or> m = 9 \<or> m = 10 \<or> m = 11 \<or> m = 12"
    using assms by arith
  then show ?thesis using daysIn_february [of "int y"] leap by (elim disjE) (simp_all add: daysIn_def)
qed

lemma validFullDate_text:
  assumes "1 \<le> y" and "y < 10000" and "civil_date (int y) (int m) (int d)"
  shows "validFullDate (date_text y m d)" and "length (date_text y m d) = 10"
proof -
  have m: "1 \<le> m" "m \<le> 12" "1 \<le> d" "int d \<le> daysIn (int y) (int m)" using assms(3) by (simp_all add: civil_date_def)
  then have d: "d < 100" by (auto simp: daysIn_def split: if_splits)
  let ?y = "pad0 4 y" and ?m = "pad0 2 m" and ?d = "pad0 2 d"
  have l: "length ?y = 4" "length ?m = 2" "length ?d = 2" using assms(2) m d by (simp_all add: length_pad0)
  then show len: "length (date_text y m d) = 10" by (simp add: date_text_def)
  have s: "date_text y m d = (?y @ 45 # ?m) @ 45 # ?d" by (simp add: date_text_def)
  have i: "date_text y m d ! 4 = 45" using l by (simp add: date_text_def nth_join)
  have j: "date_text y m d ! 7 = 45" unfolding s using l by (intro nth_join) simp
  have "take 4 (date_text y m d) = ?y" using l by (simp add: date_text_def)
  moreover have "take 2 (drop 5 (date_text y m d)) = ?m" using l by (simp add: date_text_def)
  moreover have "drop 8 (date_text y m d) = ?d" unfolding s using l by simp
  ultimately show "validFullDate (date_text y m d)"
    using days_table [of m y] m assms(1) len i j unfolding validFullDate_def by (simp add: atoi_pad0 Let_def)
qed

lemma validClock_text:
  assumes "t < 86400"
  shows "validClock (clock_text t)" and "length (clock_text t) = 8"
proof -
  let ?h = "pad0 2 (t div 3600)" and ?m = "pad0 2 (t div 60 mod 60)" and ?s = "pad0 2 (t mod 60)"
  have h: "t div 3600 < 24" using assms by (simp add: div_less_iff_less_mult)
  have l: "length ?h = 2" "length ?m = 2" "length ?s = 2"
    using h less_trans [of "t mod 60" 60 100] less_trans [of "t div 60 mod 60" 60 100] by (simp_all add: length_pad0)
  have b: "t div 60 mod 60 \<le> 59" "t mod 60 \<le> 59" by (simp_all add: less_Suc_eq_le [symmetric])
  show len: "length (clock_text t) = 8" using l by (simp add: clock_text_def)
  have s: "clock_text t = (?h @ 58 # ?m) @ 58 # ?s" by (simp add: clock_text_def)
  have i: "clock_text t ! 2 = 58" using l by (simp add: clock_text_def nth_join)
  have j: "clock_text t ! 5 = 58" unfolding s using l by (intro nth_join) simp
  have "take 2 (clock_text t) = ?h" using l by (simp add: clock_text_def)
  moreover have "take 2 (drop 3 (clock_text t)) = ?m" using l by (simp add: clock_text_def)
  moreover have "drop 6 (clock_text t) = ?s" unfolding s using l by simp
  ultimately show "validClock (clock_text t)" using len i j h b unfolding validClock_def by (simp add: atoi_pad0)
qed

text \<open>The times a record can hold: whole seconds of the years 1 to 9999.\<close>

definition time_ok :: "int \<Rightarrow> bool" where
  "time_ok ms \<longleftrightarrow> ms mod 1000 = 0 \<and> - 62135596800000 \<le> ms \<and> ms \<le> 253402300799000"

lemma Format_time_parts:
  assumes "time_ok ms"
  obtains y m d t where "Format_time ms = date_text y m d @ 84 # clock_text t @ [90]" "1 \<le> y" "y < 10000"
    "civil_date (int y) (int m) (int d)" "t < 86400" "ms = daysFromCivil (int y) (int m) (int d) * 86400000 + int t * 1000"
proof -
  define s where "s = ms div 1000"
  have ms: "ms = s * 1000" using assms mult_div_mod_eq [of 1000 ms] by (simp add: time_ok_def s_def)
  define z t where "z = s div 86400" and "t = nat (s mod 86400)"
  have t: "t < 86400" "int t = s mod 86400" by (simp_all add: t_def nat_less_iff)
  have zs: "s = z * 86400 + int t" using mult_div_mod_eq [of 86400 s] t(2) by (simp add: z_def)
  have zr: "- 719162 \<le> z" "z \<le> 2932896" using assms ms zs t(1) by (auto simp: time_ok_def)
  obtain y m d where c: "civilFromDays z = (y, m, d)" "civil_date y m d" "daysFromCivil y m d = z"
    using civilFromDays_date by blast
  have y: "1 \<le> y" "y \<le> 9999" using year_in_range [of y m d] c zr by simp_all
  have md: "1 \<le> m" "1 \<le> d" using c(2) by (simp_all add: civil_date_def)
  have "Format_time ms = date_text (nat y) (nat m) (nat d) @ 84 # clock_text t @ [90]"
    using y c(1) by (simp add: Format_time_def date_text_def clock_text_def Let_def s_def [symmetric] z_def [symmetric] t_def [symmetric])
  moreover have "ms = daysFromCivil y m d * 86400000 + int t * 1000" using ms zs c(3) by simp
  ultimately show thesis using that [of "nat y" "nat m" "nat d" t] y md c(2) t(1) by simp
qed

lemma Format_time_datetime: "time_ok ms \<Longrightarrow> isDatetime (Format_time ms) \<and> length (Format_time ms) = 20"
proof (erule Format_time_parts)
  fix y m d t
  assume f: "Format_time ms = date_text y m d @ 84 # clock_text t @ [90]" and "1 \<le> y" "y < 10000"
    "civil_date (int y) (int m) (int d)" "t < 86400"
  then have v: "validFullDate (date_text y m d)" "length (date_text y m d) = 10" "validClock (clock_text t)" "length (clock_text t) = 8"
    using validFullDate_text validClock_text by simp_all
  have a: "Format_time ms ! 10 = 84" unfolding f using v by (intro nth_join) simp
  have "Format_time ms = (date_text y m d @ 84 # clock_text t) @ 90 # []" by (simp add: f)
  then have b: "Format_time ms ! 19 = 90" using v nth_join [of "date_text y m d @ 84 # clock_text t" 19 90 "[]"] by simp
  have "take 10 (Format_time ms) = date_text y m d" "take 8 (drop 11 (Format_time ms)) = clock_text t" "length (Format_time ms) = 20"
    using v by (simp_all add: f)
  then show "isDatetime (Format_time ms) \<and> length (Format_time ms) = 20" using a b v by (simp add: isDatetime_def)
qed

lemma getnum_pad0: "n < 100 \<Longrightarrow> getnum fixed (pad0 2 n @ s) = Some (n, s)"
proof -
  assume "n < 100"
  then have l: "length (pad0 2 n) = 2" by (simp add: length_pad0)
  then obtain a b where p: "pad0 2 n = [a, b]" by (auto simp: numeral_2_eq_2 length_Suc_conv)
  then show ?thesis using pad0_digits [of a 2 n] pad0_digits [of b 2 n] dec_value_pad0 [of 2 n] by (simp add: getnum_def)
qed

lemma get_year_pad0: "n < 10000 \<Longrightarrow> get_year (pad0 4 n @ s) = Some (n, s)"
  using length_pad0 [of n 4] pad0_digits dec_value_pad0 [of 4 n] by (auto simp: get_year_def list_all_iff)

lemma expect_Cons: "expect c (c # s) = Some s"
  by (simp add: expect_def)

lemma get_date_text:
  assumes "y < 10000" and "civil_date (int y) (int m) (int d)"
  shows "get_date (date_text y m d @ s) = Some (daysFromCivil (int y) (int m) (int d), s)"
proof -
  have m: "1 \<le> m" "m \<le> 12" "1 \<le> d" "int d \<le> daysIn (int y) (int m)" using assms(2) by (simp_all add: civil_date_def)
  then have "m < 100" "d < 100" by (auto simp: daysIn_def split: if_splits)
  then show ?thesis using assms(1) m by (simp add: get_date_def date_text_def get_year_pad0 getnum_pad0 expect_Cons)
qed

lemma get_clock_text:
  assumes "t < 86400"
  shows "get_clock (84 # clock_text t @ [90]) = Some (t * 1000, [])"
proof -
  have h: "t div 3600 < 24" using assms by (simp add: div_less_iff_less_mult)
  have b: "t div 60 mod 60 < 60" "t mod 60 < 60" by simp_all
  have e: "(t div 3600 * 60 + t div 60 mod 60) * 60 + t mod 60 = t"
    using mult_div_mod_eq [of 60 "t div 60"] mult_div_mod_eq [of 60 t] by (simp add: div_mult2_eq [symmetric] mult.commute)
  show ?thesis using h b e by (simp add: get_clock_def clock_text_def getnum_pad0 expect_Cons get_fraction_def)
qed

lemma Parse_Format_time: "time_ok ms \<Longrightarrow> Parse_time (Format_time ms) = Some ms"
  by (erule Format_time_parts) (simp add: Parse_time_def get_date_text get_clock_text)

section \<open>The record's facts\<close>

definition plain_type :: "bytes \<Rightarrow> BaseKind \<Rightarrow> bool \<Rightarrow> Type" where
  "plain_type raw b opt = \<lparr>Raw = raw, Base = b, Optional = opt, Listed = False, Symbols = [], RefKind = []\<rparr>"

definition opt_value :: "bytes option \<Rightarrow> Value" where
  "opt_value x =
     (case x of None \<Rightarrow> \<lparr>NoValue = True, ListValue = False, Elems = []\<rparr>
      | Some tok \<Rightarrow> \<lparr>NoValue = False, ListValue = False, Elems = [tok]\<rparr>)"

definition opt_str :: "bytes option \<Rightarrow> Value" where
  "opt_str s = opt_value (map_option Quote s)"

definition key_fact :: "bytes \<Rightarrow> Type \<Rightarrow> Value \<Rightarrow> Fact" where
  "key_fact k t v = \<lparr>Key = chars ''vault.'' @ k, FType = t, FValue = v, Line = 0\<rparr>"

definition record_facts :: "vault_record \<Rightarrow> Fact list" where
  "record_facts r =
     [key_fact (chars ''auth_key'') (plain_type (chars ''str?'') KStr True) (opt_str (rAuthKey r)),
      key_fact (chars ''created'') (plain_type (chars ''datetime'') KDatetime False) (opt_value (Some (Format_time (rCreated r)))),
      key_fact (chars ''ended'') (plain_type (chars ''datetime?'') KDatetime True) (opt_value (map_option Format_time (rEnded r))),
      key_fact (chars ''ephemeral'') (plain_type (chars ''bool'') KBool False)
        (opt_value (Some (if rEphemeral r then chars ''true'' else chars ''false''))),
      key_fact (chars ''note'') (plain_type (chars ''str?'') KStr True) (opt_str (rNote r))]"

definition record_ok :: "vault_record \<Rightarrow> bool" where
  "record_ok r \<longleftrightarrow> pred_option utf8_text (rAuthKey r) \<and> pred_option utf8_text (rNote r) \<and> time_ok (rCreated r) \<and> pred_option time_ok (rEnded r)"

lemma token_opt: "token (opt_value x) = (case x of None \<Rightarrow> chars ''none'' | Some tok \<Rightarrow> tok)"
  by (cases x) (simp_all add: token_def opt_value_def)

lemma record_types:
  "parseType (chars ''str?'') 0 = Inr (plain_type (chars ''str?'') KStr True)"
  "parseType (chars ''datetime'') 0 = Inr (plain_type (chars ''datetime'') KDatetime False)"
  "parseType (chars ''datetime?'') 0 = Inr (plain_type (chars ''datetime?'') KDatetime True)"
  "parseType (chars ''bool'') 0 = Inr (plain_type (chars ''bool'') KBool False)"
  by code_simp+

lemma record_keys: "checkKey (chars ''vault.'' @ k) 0 = None"
  if "k \<in> {chars ''auth_key'', chars ''created'', chars ''ended'', chars ''ephemeral'', chars ''note''}"
proof -
  have "checkKey (chars ''vault.auth_key'') 0 = None" "checkKey (chars ''vault.created'') 0 = None" "checkKey (chars ''vault.ended'') 0 = None"
    "checkKey (chars ''vault.ephemeral'') 0 = None" "checkKey (chars ''vault.note'') 0 = None" by code_simp+
  then show ?thesis using that by auto
qed

lemma opt_fact_ok:
  assumes "parseType raw 0 = Inr (plain_type raw b opt)" and "checkKey (chars ''vault.'' @ k) 0 = None"
    and "case x of None \<Rightarrow> opt | Some tok \<Rightarrow> tok \<noteq> chars ''none'' \<and> checkScalar (plain_type raw b opt) tok 0 = Inr tok"
  shows "fact_ok (key_fact k (plain_type raw b opt) (opt_value x))"
proof -
  have "checkValue (plain_type raw b opt) (token (opt_value x)) 0 = Inr (opt_value x)"
    using assms(3) by (cases x) (simp_all add: token_def checkValue_def opt_value_def plain_type_def)
  then have "value_ok (plain_type raw b opt) (opt_value x)" using checkValue_canon parseType_sound(1) [OF assms(1)] by blast
  then show ?thesis using assms(2) parseType_sound(1) [OF assms(1)] by (simp add: fact_ok_def key_fact_def)
qed

lemma Quote_canon: "utf8_text s \<Longrightarrow> canonString (Quote s) = Some (Quote s)"
  using json_unquote_quote [of s] by (simp add: canonString_def Quote_text json_quote_def)

lemma str_fact_ok:
  assumes "checkKey (chars ''vault.'' @ k) 0 = None" and "pred_option utf8_text s"
  shows "fact_ok (key_fact k (plain_type (chars ''str?'') KStr True) (opt_str s))"
  unfolding opt_str_def using record_types(1) assms(1)
proof (rule opt_fact_ok)
  show "case map_option Quote s of None \<Rightarrow> True | Some tok \<Rightarrow> tok \<noteq> chars ''none'' \<and> checkScalar (plain_type (chars ''str?'') KStr True) tok 0 = Inr tok"
    using assms(2) Quote_canon by (cases s) (auto simp: checkScalar_def plain_type_def Quote_text)
qed

lemma time_fact_ok:
  assumes "checkKey (chars ''vault.'' @ k) 0 = None" and "pred_option time_ok t" and "t = None \<longrightarrow> opt" and "parseType raw 0 = Inr (plain_type raw KDatetime opt)"
  shows "fact_ok (key_fact k (plain_type raw KDatetime opt) (opt_value (map_option Format_time t)))"
  using assms(4,1)
proof (rule opt_fact_ok)
  show "case map_option Format_time t of None \<Rightarrow> opt | Some tok \<Rightarrow> tok \<noteq> chars ''none'' \<and> checkScalar (plain_type raw KDatetime opt) tok 0 = Inr tok"
  proof (cases t)
    case (Some ms)
    then have "isDatetime (Format_time ms)" "length (Format_time ms) = 20" using Format_time_datetime assms(2) by auto
    then show ?thesis using Some by (auto simp: checkScalar_def plain_type_def)
  qed (use assms(3) in simp)
qed

lemma record_facts_ok:
  assumes "record_ok r"
  shows "\<forall>f \<in> set (record_facts r). fact_ok f"
proof -
  have o: "pred_option utf8_text (rAuthKey r)" "pred_option utf8_text (rNote r)" "pred_option time_ok (Some (rCreated r))" "pred_option time_ok (rEnded r)"
    using assms by (simp_all add: record_ok_def)
  have e: "fact_ok (key_fact (chars ''ephemeral'') (plain_type (chars ''bool'') KBool False) (opt_value (Some (if rEphemeral r then chars ''true'' else chars ''false''))))"
    using record_types(4) record_keys by (rule opt_fact_ok) (simp_all add: checkScalar_def plain_type_def)
  show ?thesis
    using e str_fact_ok [OF record_keys o(1)] str_fact_ok [OF record_keys o(2)]
      time_fact_ok [OF record_keys o(3) _ record_types(2)] time_fact_ok [OF record_keys o(4) _ record_types(3)]
    unfolding record_facts_def by simp
qed

lemma optQuote_token: "token (opt_str s) = optQuote s"
  by (cases s) (simp_all add: opt_str_def token_opt optQuote_def)

lemma record_src: "Join [10] (map fact_String (record_facts r)) @ [10] = encode_src r"
  by (cases "rEnded r")
    (simp_all add: record_facts_def encode_src_def fact_String_def key_fact_def plain_type_def optQuote_token token_opt)

lemma record_sorted: "by_line (record_facts r) = record_facts r"
  unfolding by_line_def
  by (rule sort_key_id_if_sorted) (simp add: record_facts_def fact_String_def key_fact_def)

lemma record_Canonical: "Canonical (record_facts r) = encode_src r"
proof -
  have "sort (map fact_String (record_facts r)) = map fact_String (record_facts r)"
    using map_by_line [of "record_facts r"] by (simp add: record_sorted)
  then show ?thesis using record_src [of r] by (simp add: Canonical_def) (simp add: record_facts_def)
qed

lemma record_markers: "f \<in> set (record_facts r) \<Longrightarrow> keyMarker (Key f) = ([], [])"
  by (auto simp: record_facts_def key_fact_def keyMarker_def Cut_def)

lemma record_valid: "valid_set (record_facts r)"
proof -
  have "distinct (map Key (record_facts r))" by (simp add: record_facts_def key_fact_def)
  moreover have "consistent (set (record_facts r))" using record_markers unfolding consistent_def by fastforce
  moreover have "resolved (set (record_facts r))" by (auto simp: resolved_def record_facts_def key_fact_def plain_type_def)
  ultimately show ?thesis by (simp add: valid_set_def)
qed

lemma record_Load:
  assumes "record_ok r"
  shows "Load (encode_src r) = (numbered 1 (record_facts r), [])"
proof -
  have "Parse (encode_src r) = (numbered 1 (record_facts r), [])"
    using Parse_Canonical [OF record_facts_ok [OF assms]] unfolding record_Canonical record_sorted .
  moreover have "Validate (numbered 1 (record_facts r)) = []"
    using valid_numbered [of 1 "record_facts r"] record_valid unfolding record_sorted Validate_Nil by simp
  ultimately show ?thesis by (simp add: Load_def del: One_nat_def)
qed

lemma record_encode: "record_ok r \<Longrightarrow> encode r = Some (encode_src r)"
  using record_Load [of r] Canonical_again [of "record_facts r"] unfolding record_sorted
  by (simp add: encode_def record_Canonical del: One_nat_def)

section \<open>The record bound\<close>

text \<open>Placing a value at a key under \<open>vault\<close>: the first one makes the map, the others find it.\<close>

definition vault_heap :: "(bytes \<rightharpoonup> Any) \<Rightarrow> Heap" where
  "vault_heap m = \<lparr>cells = (\<lambda>_. Map.empty)(0 := [chars ''vault'' \<mapsto> AMap 1], 1 := m), fresh = 2\<rparr>"

lemma place_first: "bindPlace_loop empty_heap 0 key [(chars ''vault'', None), (k, None)] v = Inr (vault_heap [k \<mapsto> v])"
  by (simp add: empty_heap_def make_map_def set_key_def vault_heap_def fun_eq_iff)

lemma place_next: "m k = None \<Longrightarrow> bindPlace_loop (vault_heap m) 0 key [(chars ''vault'', None), (k, None)] v = Inr (vault_heap (m(k \<mapsto> v)))"
  by (simp add: vault_heap_def set_key_def fun_eq_iff)

lemma record_levels:
  "levels reg (chars ''vault.'' @ k) = [(chars ''vault'', None), (k, None)]"
  if "k \<in> {chars ''auth_key'', chars ''created'', chars ''ended'', chars ''ephemeral'', chars ''note''}"
  using that by (auto simp: levels_def Cut_def)

lemma no_kind: "kindPrefix key {} = None"
  by (simp add: kindPrefix_def Let_def find_None_iff)

definition time_value :: "int option \<Rightarrow> Any" where
  "time_value t = (case t of None \<Rightarrow> ANil | Some ms \<Rightarrow> AStr (Format_time ms))"

definition str_value :: "bytes option \<Rightarrow> Any" where
  "str_value s = (case s of None \<Rightarrow> ANil | Some s \<Rightarrow> AStr s)"

lemma unquote_Quote: "utf8_text s \<Longrightarrow> unquote (Quote s) = s"
proof (cases "plainString (Quote s)")
  case True
  assume s: "utf8_text s"
  obtain b where b: "Quote s = 34 # b @ [34]" "\<forall>x \<in> set b. \<not> (x < 0x20 \<or> 0x7E < x \<or> x = 34 \<or> x = 92)"
    using True by (auto simp: plainString_shape)
  then have "json_unquote (Quote s) = Some b" using plain_unquote [of b] by (simp add: json_unquote_def)
  moreover have "json_unquote (Quote s) = Some s" using json_unquote_quote [OF s] by (simp add: Quote_text json_quote_def)
  ultimately show ?thesis using True b(1) by (simp add: unquote_def)
next
  case False
  assume "utf8_text s"
  then show ?thesis using False json_unquote_quote [of s] by (simp add: unquote_def Quote_text json_quote_def)
qed

lemma bind_opt_str: "pred_option utf8_text s \<Longrightarrow> bindValue (plain_type raw KStr opt) (opt_str s) reg = Inr (str_value s)"
  by (cases s) (simp_all add: bindValue_def opt_str_def opt_value_def plain_type_def bindScalar_def str_value_def unquote_Quote)

lemma bind_opt_time: "bindValue (plain_type raw KDatetime opt) (opt_value (map_option Format_time t)) reg = Inr (time_value t)"
  by (cases t) (simp_all add: bindValue_def opt_value_def plain_type_def bindScalar_def time_value_def)

lemma bind_bool: "bindValue (plain_type raw KBool opt) (opt_value (Some (if x then chars ''true'' else chars ''false''))) reg = Inr (ABool x)"
  by (simp add: bindValue_def opt_value_def plain_type_def bindScalar_def)

definition record_map :: "vault_record \<Rightarrow> bytes \<rightharpoonup> Any" where
  "record_map r = [chars ''auth_key'' \<mapsto> str_value (rAuthKey r), chars ''created'' \<mapsto> AStr (Format_time (rCreated r)),
     chars ''ended'' \<mapsto> time_value (rEnded r), chars ''ephemeral'' \<mapsto> ABool (rEphemeral r), chars ''note'' \<mapsto> str_value (rNote r)]"

lemma unmarked_register: "\<forall>f \<in> set fs. keyMarker (Key f) = ([], []) \<Longrightarrow> Bind_register h reg kinds fs = (h, reg, kinds)"
  by (induction fs) auto

lemma unmarked_pass: "\<forall>f \<in> set fs. keyMarker (Key f) = ([], []) \<Longrightarrow> Bind_pass True reg kinds h fs = Inr h"
  by (induction fs) auto

definition record_key :: "bytes \<Rightarrow> bool" where
  "record_key k \<longleftrightarrow> k \<in> {chars ''auth_key'', chars ''created'', chars ''ended'', chars ''ephemeral'', chars ''note''}"

lemma record_key_marker: "record_key k \<Longrightarrow> keyMarker (chars ''vault.'' @ k) = ([], [])"
  by (auto simp: record_key_def keyMarker_def Cut_def)

lemma pass_first:
  assumes "record_key k" and "bindValue t v reg = Inr x"
  shows "Bind_pass False reg {} empty_heap (key_fact k t v\<lparr>Line := n\<rparr> # fs) = Bind_pass False reg {} (vault_heap [k \<mapsto> x]) fs"
  using record_key_marker [OF assms(1)] record_levels [of k reg] assms place_first
  by (simp add: key_fact_def no_kind bindPlace_def record_key_def)

lemma pass_next:
  assumes "record_key k" and "bindValue t v reg = Inr x" and "m k = None"
  shows "Bind_pass False reg {} (vault_heap m) (key_fact k t v\<lparr>Line := n\<rparr> # fs) = Bind_pass False reg {} (vault_heap (m(k \<mapsto> x))) fs"
  using record_key_marker [OF assms(1)] record_levels [of k reg] assms place_next [of m k]
  by (simp add: key_fact_def no_kind bindPlace_def record_key_def)

lemma record_Bind:
  assumes "record_ok r"
  shows "Bind (numbered 1 (record_facts r)) = Inr (vault_heap (record_map r))"
proof -
  have u: "pred_option utf8_text (rAuthKey r)" "pred_option utf8_text (rNote r)" using assms by (simp_all add: record_ok_def)
  have m: "\<forall>f \<in> set (numbered 1 (record_facts r)). keyMarker (Key f) = ([], [])"
    using record_markers [of _ r] by (auto simp: record_facts_def)
  have k: "record_key (chars ''auth_key'')" "record_key (chars ''created'')" "record_key (chars ''ended'')"
    "record_key (chars ''ephemeral'')" "record_key (chars ''note'')" by (simp_all add: record_key_def)
  have c: "bindValue (plain_type raw KDatetime opt) (opt_value (Some (Format_time x))) reg = Inr (AStr (Format_time x))" for raw opt x reg
    using bind_opt_time [of raw opt "Some x" reg] by (simp add: time_value_def)
  have "Bind_pass False Map.empty {} empty_heap (numbered 1 (record_facts r)) = Inr (vault_heap (record_map r))"
    unfolding record_facts_def numbered.simps record_map_def
    unfolding pass_first [OF k(1) bind_opt_str [OF u(1)]]
    apply (subst pass_next [OF k(2) c], simp)
    apply (subst pass_next [OF k(3) bind_opt_time], simp)
    apply (subst pass_next [OF k(4) bind_bool], simp)
    apply (subst pass_next [OF k(5) bind_opt_str [OF u(2)]], simp)
    by simp
  then show ?thesis using unmarked_register [OF m] unmarked_pass [OF m] by (simp add: Bind_def)
qed

text \<open>C30. A vault's record is read back as it was written: \<open>encode\<close> gives a document for every record whose texts
  are UTF-8 and whose times are whole seconds of the years 1 to 9999, \<open>decodeRecord\<close> of it is the record, and the
  document is canonical and passes every check of \<open>Load\<close>.\<close>

theorem record_roundtrip:
  assumes "record_ok r"
  shows "\<exists>b. encode r = Some b \<and> decodeRecord b = Some r \<and> snd (Load b) = [] \<and> Canonical (fst (Load b)) = b"
proof -
  have l: "Load (encode_src r) = (numbered 1 (record_facts r), [])" using record_Load [OF assms] .
  have t: "time_ok (rCreated r)" "pred_option time_ok (rEnded r)" using assms by (simp_all add: record_ok_def)
  have k: "vault_key (vault_heap (record_map r)) = record_map r" by (rule ext) (simp add: vault_key_def vault_heap_def)
  have b: "bindTime (Some (AStr (Format_time ms))) = Some ms" if "time_ok ms" for ms
    using Format_time_datetime [OF that] Parse_Format_time [OF that] by (simp add: bindTime_def)
  have s: "bindOptStr (Some (str_value x)) = Some x" for x by (cases x) (simp_all add: bindOptStr_def str_value_def)
  have e: "(if Some (time_value (rEnded r)) = None \<or> Some (time_value (rEnded r)) = Some ANil then Some None
      else map_option Some (bindTime (Some (time_value (rEnded r))))) = Some (rEnded r)"
    using t(2) b by (cases "rEnded r") (simp_all add: time_value_def)
  have v: "record_map r (chars ''auth_key'') = Some (str_value (rAuthKey r))" "record_map r (chars ''created'') = Some (AStr (Format_time (rCreated r)))"
    "record_map r (chars ''ended'') = Some (time_value (rEnded r))" "record_map r (chars ''ephemeral'') = Some (ABool (rEphemeral r))"
    "record_map r (chars ''note'') = Some (str_value (rNote r))" by (simp_all add: record_map_def)
  have "decodeRecord (encode_src r) = Some r"
    unfolding decodeRecord_def l
    by (simp only: prod.case record_Bind [OF assms] sum.case simp_thms if_False Let_def k v option.case Any.case b [OF t(1)] e s option.sel Option.bind.bind_lunit) simp
  moreover have "Canonical (numbered 1 (record_facts r)) = encode_src r"
    using Canonical_again [of "record_facts r"] unfolding record_sorted record_Canonical .
  ultimately show ?thesis using record_encode [OF assms] l by simp
qed

text \<open>A record that ended in 1970 with no key and no note.\<close>

lemma record_roundtrip_witness:
  "\<exists>b. encode \<lparr>rAuthKey = None, rEphemeral = True, rCreated = 0, rEnded = Some 1000, rNote = None\<rparr> = Some b
     \<and> decodeRecord b = Some \<lparr>rAuthKey = None, rEphemeral = True, rCreated = 0, rEnded = Some 1000, rNote = None\<rparr>"
  using record_roundtrip [of "\<lparr>rAuthKey = None, rEphemeral = True, rCreated = 0, rEnded = Some 1000, rNote = None\<rparr>"]
  by (auto simp: record_ok_def time_ok_def)

end
