(* ===== verification/RowText.thy ===== *)
theory RowText
  imports RowCodec Civil JsonText Decimals
begin

text \<open>
  The \<open>row\<close> package's text notation (\<open>text.go\<close>): \<open>Format\<close>, \<open>Parse\<close> and the scanners between them. Text is bytes. What
  the parser has left to read is a list; \<open>n\<close> is the length of the line, so that the position of \<open>cs\<close> is \<open>n - length cs\<close>. A
  string's characters are the runs of bytes \<open>rune_len\<close> counts. Messages are left out. The exponent of a float is read
  whole, where the library stops at five digits; that differs only for a mantissa of some ninety thousand digits.
\<close>

section \<open>Formatting\<close>

text \<open>A \<open>float64\<close>'s bits and the sign, integer and exponent of \<open>FloatText\<close>.\<close>

definition float_parts :: "u64 \<Rightarrow> bool \<times> nat \<times> nat" where
  "float_parts f =
     (let u = unat f; e = u div 2 ^ 52 mod 2 ^ 11; fr = u mod 2 ^ 52
      in (2 ^ 63 \<le> u, if e = 0 then fr else 2 ^ 52 + fr, e - 1))"

definition float_bits :: "bool \<Rightarrow> nat \<Rightarrow> nat \<Rightarrow> u64" where
  "float_bits neg m k = of_nat ((if neg then 2 ^ 63 else 0) + k * 2 ^ 52 + m)"

function text_quote_body :: "bytes \<Rightarrow> bytes" where
  "text_quote_body [] = []"
| "text_quote_body (c # r) =
     (let n = rune_len (c # r)
      in if c < 0x80 then esc_byte c @ text_quote_body r
         else if n = 0 then EncodeRune 0xFFFD @ text_quote_body r
         else take n (c # r) @ text_quote_body (drop n (c # r)))"
  by pat_completeness auto
termination
  by (relation "measure length") auto

definition quote :: "bytes \<Rightarrow> bytes" where
  "quote s = 34 # text_quote_body s @ [34]"

definition formatDecimal :: "int \<Rightarrow> nat \<Rightarrow> bytes" where
  "formatDecimal m scale =
     (let neg = m < 0; m = (if neg then - m else m); s = FormatInt m;
          s = (if length s \<le> scale then replicate (scale + 1 - length s) 48 @ s else s);
          s = take (length s - scale) s @ 46 # drop (length s - scale) s
      in if neg then 45 # s else s)"

definition formatFloat :: "u64 \<Rightarrow> bytes" where
  "formatFloat f =
     (case float_parts f of
        (neg, m, k) \<Rightarrow>
          let s = FormatFloat_e neg m k; i = length (takeWhile (\<lambda>c. c \<noteq> 101) s)
          in take i s @ 101 # FormatInt (Atoi (drop (i + 1) s)))"

definition pad :: "int \<Rightarrow> nat \<Rightarrow> bytes" where
  "pad n width = (let s = FormatInt n in replicate (width - length s) 48 @ s)"

definition floorDiv :: "int \<Rightarrow> int \<Rightarrow> int \<times> int" where
  "floorDiv a b = (let q = a sdiv b; r = a smod b in if r < 0 then (q - 1, r + b) else (q, r))"

definition formatDate :: "int \<Rightarrow> bytes" where
  "formatDate day = (case civilFromDays day of (y, m, d) \<Rightarrow> pad y 4 @ 45 # pad m 2 @ 45 # pad d 2)"

text \<open>The time of day and the duration divided here are not negative, so \<open>/\<close> and \<open>%\<close> are \<open>div\<close> and \<open>mod\<close>.\<close>

definition formatTime :: "int \<Rightarrow> bytes" where
  "formatTime ms =
     pad (ms div 3600000) 2 @ 58 # pad (ms div 60000 mod 60) 2 @ 58 # pad (ms div 1000 mod 60) 2 @ 46 # pad (ms mod 1000) 3"

definition formatDuration :: "int \<Rightarrow> bytes" where
  "formatDuration ms =
     (let sign = (if ms < 0 then [45] else []); ms = \<bar>ms\<bar>;
          h = ms div 3600000; m = ms mod 3600000 div 60000; s = ms mod 60000; frac = s mod 1000
      in sign @ (if 0 < h then FormatInt h @ [104] else []) @ (if 0 < m then FormatInt m @ [109] else [])
         @ (if 0 < s \<or> h = 0 \<and> m = 0
            then FormatInt (s div 1000) @ (if 0 < frac then 46 # rev (dropWhile (\<lambda>c. c = 48) (rev (pad frac 3))) else []) @ [115]
            else []))"

fun format_val :: "val \<Rightarrow> bytes" where
  "format_val (VString s) = quote s"
| "format_val VNone = chars ''none''"
| "format_val VFalse = chars ''false''"
| "format_val VTrue = chars ''true''"
| "format_val (VInt n) = FormatInt n"
| "format_val (VDecimal n scale) = formatDecimal n scale"
| "format_val (VFloat f) = formatFloat f"
| "format_val (VDate n) = formatDate n"
| "format_val (VDatetime n) = (case floorDiv n 86400000 of (day, ms) \<Rightarrow> formatDate day @ 84 # formatTime ms @ [90])"
| "format_val (VTime n) = formatTime n"
| "format_val (VDuration n) = formatDuration n"
| "format_val (VBytes b) = chars ''0x'' @ hex_EncodeToString b"
| "format_val (VList l) = 91 # Join [44, 32] (map format_val l) @ [93]"

definition formatVals :: "val list \<Rightarrow> bytes" where
  "formatVals vals = Join [32] (map format_val vals)"

fun format_items :: "goval list \<Rightarrow> row_error + val list" where
  "format_items [] = Inr []"
| "format_items (it # items) =
     (case from_go it False 0 of
        Inl e \<Rightarrow> Inl e
      | Inr v \<Rightarrow> (case format_items items of Inl e \<Rightarrow> Inl e | Inr vs \<Rightarrow> Inr (v # vs)))"

definition row_Format :: "goval list \<Rightarrow> row_error + bytes" where
  "row_Format items = (case format_items items of Inl e \<Rightarrow> Inl e | Inr vals \<Rightarrow> Inr (formatVals vals))"

section \<open>The shapes of bare items\<close>

datatype text_code = RCode row_code | T001 | T002

datatype text_error = TextError text_code nat

text \<open>An optional \<open>-\<close> and the rest.\<close>

definition minus_sign :: "bytes \<Rightarrow> bytes \<times> bytes" where
  "minus_sign t = (if HasPrefix t [45] then ([45], tl t) else ([], t))"

abbreviation run :: "bytes \<Rightarrow> bytes" where "run t \<equiv> takeWhile is_digit t"
abbreviation past :: "bytes \<Rightarrow> bytes" where "past t \<equiv> dropWhile is_digit t"

definition isHex :: "byte \<Rightarrow> bool" where
  "isHex c \<longleftrightarrow> is_digit c \<or> 97 \<le> c \<and> c \<le> 102 \<or> 65 \<le> c \<and> c \<le> 70"

text \<open>The groups of a shape; \<open>ds\<close> is the run of digits begun, if any.\<close>

definition flush :: "bytes option \<Rightarrow> bytes list \<Rightarrow> bytes list" where
  "flush ds m = (case ds of None \<Rightarrow> m | Some d \<Rightarrow> d # m)"

fun shape_loop :: "bytes \<Rightarrow> bytes \<Rightarrow> bytes option \<Rightarrow> bytes list option" where
  "shape_loop (c # t) (p # shape) ds =
     (if p = 100
      then if is_digit c then shape_loop t shape (Some (case ds of None \<Rightarrow> [c] | Some d \<Rightarrow> d @ [c])) else None
      else if c = p then map_option (flush ds) (shape_loop t shape None) else None)"
| "shape_loop [] [] ds = Some (flush ds [])"
| "shape_loop _ _ ds = None"

definition matchShape :: "bytes \<Rightarrow> string \<Rightarrow> bytes list option" where
  "matchShape t shape = (if length t \<noteq> length shape then None else shape_loop t (chars shape) None)"

abbreviation shapeDatetime :: string where "shapeDatetime \<equiv> ''dddd-dd-ddTdd:dd:dd.dddZ''"
abbreviation shapeDate :: string where "shapeDate \<equiv> ''dddd-dd-dd''"
abbreviation shapeTime :: string where "shapeTime \<equiv> ''dd:dd:dd.ddd''"

definition duration_part :: "byte \<Rightarrow> bytes \<Rightarrow> bytes \<times> bytes" where
  "duration_part unit t = (if run t \<noteq> [] \<and> HasPrefix (past t) [unit] then (run t, tl (past t)) else ([], t))"

text \<open>The seconds, their fraction and what follows.\<close>

definition duration_seconds :: "bytes \<Rightarrow> (bytes \<times> bytes \<times> bytes) option" where
  "duration_seconds t =
     (if run t = [] then Some ([], [], t)
      else let k = past t; frac = (if HasPrefix k [46] then run (tl k) else []); r = (if HasPrefix k [46] then past (tl k) else k)
           in if HasPrefix k [46] \<and> (length frac < 1 \<or> 3 < length frac) then None
              else if \<not> HasPrefix r [115] then None
              else Some (run t, frac, tl r))"

text \<open>Sign, hours, minutes, seconds, fraction.\<close>

definition matchDuration :: "bytes \<Rightarrow> (bytes \<times> bytes \<times> bytes \<times> bytes \<times> bytes) option" where
  "matchDuration t =
     (case minus_sign t of (sg, t) \<Rightarrow>
      case duration_part 104 t of (h, t) \<Rightarrow>
      case duration_part 109 t of (m, t) \<Rightarrow>
      case duration_seconds t of
        None \<Rightarrow> None
      | Some (s, frac, t) \<Rightarrow> if t \<noteq> [] then None else Some (sg, h, m, s, frac))"

definition isFloat :: "bytes \<Rightarrow> bool" where
  "isFloat t =
     (let t = snd (minus_sign t)
      in if run t = [] then False
         else let t = past t
              in if HasPrefix t [46] \<and> run (tl t) = [] then False
                 else let t = (if HasPrefix t [46] then past (tl t) else t)
                      in if \<not> (HasPrefix t [101] \<or> HasPrefix t [69]) then False
                         else let t = tl t; t = (if HasPrefix t [43] \<or> HasPrefix t [45] then tl t else t)
                              in run t \<noteq> [] \<and> past t = [])"

definition matchDecimal :: "bytes \<Rightarrow> (bytes \<times> bytes \<times> bytes) option" where
  "matchDecimal t =
     (case minus_sign t of (s, t) \<Rightarrow>
        if run t = [] \<or> \<not> HasPrefix (past t) [46] \<or> past (tl (past t)) \<noteq> [] then None
        else Some (s, run t, tl (past t)))"

definition matchInt :: "bytes \<Rightarrow> (bytes \<times> bytes) option" where
  "matchInt t = (case minus_sign t of (s, t) \<Rightarrow> if run t = [] \<or> past t \<noteq> [] then None else Some (s, t))"

definition matchBytes :: "bytes \<Rightarrow> bytes option" where
  "matchBytes t =
     (case t of
        z # x # h \<Rightarrow> if z \<noteq> 48 \<or> x \<noteq> 120 \<and> x \<noteq> 88 \<or> odd (length t) then None else if list_all isHex h then Some h else None
      | _ \<Rightarrow> None)"

section \<open>Bare items\<close>

definition read_digits :: "bytes \<Rightarrow> nat \<Rightarrow> text_error + int" where
  "read_digits s off =
     (let s = dropWhile (\<lambda>c. c = 48) s
      in if s = [] then Inr 0
         else let n = int (dec_value s) in if maxInt < n then Inl (TextError (RCode R003) off) else Inr n)"

text \<open>\<open>num\<close> of two to four digits.\<close>

definition num :: "bytes \<Rightarrow> int" where
  "num s = int (dec_value s)"

definition civil :: "bytes \<Rightarrow> bytes \<Rightarrow> bytes \<Rightarrow> nat \<Rightarrow> text_error + int" where
  "civil y m d off =
     (if \<not> validCivil (num y) (num m) (num d) then Inl (TextError (RCode R003) off)
      else Inr (daysFromCivil (num y) (num m) (num d)))"

definition clock :: "bytes \<Rightarrow> bytes \<Rightarrow> bytes \<Rightarrow> bytes \<Rightarrow> nat \<Rightarrow> text_error + int" where
  "clock h m s ms off =
     (if 23 < num h \<or> 59 < num m \<or> 59 < num s then Inl (TextError (RCode R003) off)
      else Inr (((num h * 60 + num m) * 60 + num s) * 1000 + num ms))"

fun duration_total :: "(bytes \<times> int) list \<Rightarrow> nat \<Rightarrow> text_error + int" where
  "duration_total [] off = Inr 0"
| "duration_total ((m, unit) # parts) off =
     (if m = [] then duration_total parts off
      else case read_digits m off of
        Inl e \<Rightarrow> Inl e
      | Inr n \<Rightarrow>
          if maxInt div unit < n then Inl (TextError (RCode R003) off)
          else (case duration_total parts off of Inl e \<Rightarrow> Inl e | Inr tot \<Rightarrow> Inr (n * unit + tot)))"

definition duration :: "bytes \<times> bytes \<times> bytes \<times> bytes \<times> bytes \<Rightarrow> nat \<Rightarrow> text_error + val" where
  "duration parts off =
     (case parts of
        (sg, h, m, s, frac) \<Rightarrow>
          case duration_total [(h, 3600000), (m, 60000), (s, 1000)] off of
            Inl e \<Rightarrow> Inl e
          | Inr tot \<Rightarrow>
              let tot = (if frac \<noteq> [] then tot + num (take 3 (frac @ [48, 48])) else tot)
              in if maxInt < tot then Inl (TextError (RCode R003) off)
                 else Inr (VDuration (if sg = [45] then - tot else tot)))"

text \<open>\<open>strconv.ParseFloat\<close>: out of range is an infinity.\<close>

definition parse_float_bits :: "bytes \<Rightarrow> u64" where
  "parse_float_bits t =
     (case ParseFloat t of
        None \<Rightarrow> float_bits (HasPrefix t [45]) (2 ^ 52) 2046
      | Some (neg, m, k) \<Rightarrow> float_bits neg m k)"

definition bare_decimal :: "bytes \<times> bytes \<times> bytes \<Rightarrow> nat \<Rightarrow> text_error + val" where
  "bare_decimal m off =
     (case m of
        (s, i, f) \<Rightarrow>
          if maxScale < int (length f) then Inl (TextError (RCode R004) off)
          else case read_digits (i @ f) off of
            Inl e \<Rightarrow> Inl e
          | Inr n \<Rightarrow> Inr (VDecimal (if s = [45] then - n else n) (length f)))"

definition bare_int :: "bytes \<times> bytes \<Rightarrow> nat \<Rightarrow> text_error + val" where
  "bare_int m off =
     (case m of
        (s, i) \<Rightarrow> case read_digits i off of Inl e \<Rightarrow> Inl e | Inr n \<Rightarrow> Inr (VInt (if s = [45] then - n else n)))"

definition bare_shape :: "(int \<Rightarrow> val) \<Rightarrow> text_error + int \<Rightarrow> text_error + val" where
  "bare_shape mk r = (case r of Inl e \<Rightarrow> Inl e | Inr n \<Rightarrow> Inr (mk n))"

definition bare_datetime :: "bytes list \<Rightarrow> nat \<Rightarrow> text_error + val" where
  "bare_datetime m off =
     (case civil (m ! 0) (m ! 1) (m ! 2) off of
        Inl e \<Rightarrow> Inl e
      | Inr day \<Rightarrow> bare_shape (\<lambda>ms. VDatetime (day * 86400000 + ms)) (clock (m ! 3) (m ! 4) (m ! 5) (m ! 6) off))"

definition bare_float :: "bytes \<Rightarrow> nat \<Rightarrow> text_error + val" where
  "bare_float t off =
     (let f = parse_float_bits t in if check_float f then Inr (VFloat f) else Inl (TextError (RCode R005) off))"

text \<open>A duration that matches with one of its parts.\<close>

definition duration_match :: "bytes \<Rightarrow> (bytes \<times> bytes \<times> bytes \<times> bytes \<times> bytes) option" where
  "duration_match t =
     (case matchDuration t of
        Some (sg, h, m, s, frac) \<Rightarrow> if h \<noteq> [] \<or> m \<noteq> [] \<or> s \<noteq> [] then Some (sg, h, m, s, frac) else None
      | None \<Rightarrow> None)"

text \<open>The numbers, tried after the shapes.\<close>

definition bare_number :: "bytes \<Rightarrow> nat \<Rightarrow> text_error + val" where
  "bare_number t off =
     (case duration_match t of
        Some m \<Rightarrow> duration m off
      | None \<Rightarrow>
          if isFloat t then bare_float t off
          else case matchDecimal t of
            Some m \<Rightarrow> bare_decimal m off
          | None \<Rightarrow> (case matchInt t of Some m \<Rightarrow> bare_int m off | None \<Rightarrow> Inl (TextError T001 off)))"

definition bare :: "bytes \<Rightarrow> nat \<Rightarrow> text_error + val" where
  "bare t off =
     (if t = chars ''none'' then Inr VNone
      else if t = chars ''false'' then Inr VFalse
      else if t = chars ''true'' then Inr VTrue
      else case matchBytes t of
        Some h \<Rightarrow> Inr (VBytes (case hex_DecodeString h of None \<Rightarrow> [] | Some b \<Rightarrow> b))
      | None \<Rightarrow>
          (case matchShape t shapeDatetime of
             Some m \<Rightarrow> bare_datetime m off
           | None \<Rightarrow>
               (case matchShape t shapeDate of
                  Some m \<Rightarrow> bare_shape VDate (civil (m ! 0) (m ! 1) (m ! 2) off)
                | None \<Rightarrow>
                    (case matchShape t shapeTime of
                       Some m \<Rightarrow> bare_shape VTime (clock (m ! 0) (m ! 1) (m ! 2) (m ! 3) off)
                     | None \<Rightarrow> bare_number t off))))"

section \<open>Parsing\<close>

definition isSpace :: "byte \<Rightarrow> bool" where
  "isSpace c \<longleftrightarrow> c = 32 \<or> c = 9"

definition space :: "bytes \<Rightarrow> bytes" where
  "space cs = dropWhile isSpace cs"

text \<open>The bytes that end a bare item.\<close>

definition ends_bare :: "byte \<Rightarrow> bool" where
  "ends_bare c \<longleftrightarrow> c \<in> {32, 9, 44, 91, 93, 34}"

text \<open>A string, after its opening quote at \<open>start\<close>: its text and what follows.\<close>

definition prepend :: "bytes \<Rightarrow> text_error + bytes \<times> bytes \<Rightarrow> text_error + bytes \<times> bytes" where
  "prepend x r = (case r of Inl e \<Rightarrow> Inl e | Inr (s, rest) \<Rightarrow> Inr (x @ s, rest))"

text \<open>The character of a \<open>\u\<close> escape, after \<open>\u\<close>, and what follows it.\<close>

definition read_unicode :: "nat \<Rightarrow> bytes \<Rightarrow> text_error + bytes \<times> bytes" where
  "read_unicode start cs =
     (case hex4 cs of
        None \<Rightarrow> Inl (TextError T001 start)
      | Some (r, cs) \<Rightarrow>
          if \<not> (high_surrogate r \<or> low_surrogate r) then Inr (EncodeRune r, cs)
          else case (if r < 0xDC00 \<and> HasPrefix cs [92, 117] then hex4 (drop 2 cs) else None) of
            None \<Rightarrow> Inl (TextError (RCode R006) start)
          | Some (lo, cs) \<Rightarrow>
              if \<not> low_surrogate lo then Inl (TextError (RCode R006) start)
              else Inr (EncodeRune (0x10000 + (r - 0xD800) * 1024 + (lo - 0xDC00)), cs))"

lemma read_unicode_shorter: "read_unicode start cs = Inr (x, rest) \<Longrightarrow> length rest < length cs"
  by (auto simp: read_unicode_def split: option.splits if_splits dest!: hex4_shorter)

function read_str_text :: "nat \<Rightarrow> bytes \<Rightarrow> text_error + bytes \<times> bytes" where
  "read_str_text start [] = Inl (TextError T001 start)"
| "read_str_text start (c # cs) =
     (if c = 34 then Inr ([], cs)
      else if c \<noteq> 92 then prepend [c] (read_str_text start cs)
      else case cs of
        [] \<Rightarrow> Inl (TextError T001 start)
      | e # cs \<Rightarrow>
          if e = 117
          then (case read_unicode start cs of Inl err \<Rightarrow> Inl err | Inr (x, cs) \<Rightarrow> prepend x (read_str_text start cs))
          else (case simple_escape e of
                  None \<Rightarrow> Inl (TextError T001 start)
                | Some x \<Rightarrow> prepend [x] (read_str_text start cs)))"
  by pat_completeness auto
termination
  by (relation "measure (length \<circ> snd)") (auto dest!: read_unicode_shorter)

definition text_str :: "nat \<Rightarrow> bytes \<Rightarrow> text_error + val \<times> bytes" where
  "text_str start cs = (case read_str_text start cs of Inl e \<Rightarrow> Inl e | Inr (s, rest) \<Rightarrow> Inr (VString s, rest))"

text \<open>An item that is not a list, at a line's end behind \<open>c # cs\<close>.\<close>

definition text_scalar :: "nat \<Rightarrow> byte \<Rightarrow> bytes \<Rightarrow> text_error + val \<times> bytes" where
  "text_scalar start c cs =
     (if c = 34 then text_str start cs
      else let t = takeWhile (\<lambda>c. \<not> ends_bare c) (c # cs)
           in if t = [] then Inl (TextError T001 start)
              else case bare t start of
                Inl e \<Rightarrow> Inl e
              | Inr v \<Rightarrow> Inr (v, drop (length t) (c # cs)))"

lemma read_str_shorter: "read_str_text start cs = Inr (s, rest) \<Longrightarrow> length rest < length cs"
proof (induction start cs arbitrary: s rule: read_str_text.induct)
  case (2 start c cs)
  then show ?case
    by (auto simp: prepend_def split: if_splits list.splits option.splits sum.splits dest!: read_unicode_shorter) fastforce+
qed simp

lemma text_scalar_shorter: "text_scalar start c cs = Inr (v, rest) \<Longrightarrow> length rest \<le> length cs"
  by (auto simp: text_scalar_def text_str_def Let_def split: if_splits sum.splits dest!: read_str_shorter)

text \<open>The items of a list that began at \<open>start\<close>.\<close>

lemma space_shorter: "length (space cs) \<le> length cs"
  by (simp add: space_def length_dropWhile_le)

function text_items :: "nat \<Rightarrow> nat \<Rightarrow> bytes \<Rightarrow> text_error + val list \<times> bytes" where
  "text_items n start [] = Inl (TextError T001 start)"
| "text_items n start (c # cs) =
     (if c = 91 then Inl (TextError (RCode R008) (n - length (c # cs)))
      else case text_scalar (n - length (c # cs)) c cs of
        Inl e \<Rightarrow> Inl e
      | Inr (v, rest) \<Rightarrow>
          (case space rest of
             [] \<Rightarrow> Inl (TextError T001 start)
           | d # rest \<Rightarrow>
               if d = 44
               then (case text_items n start (space rest) of Inl e \<Rightarrow> Inl e | Inr (vs, rest) \<Rightarrow> Inr (v # vs, rest))
               else if d = 93 then Inr ([v], rest)
               else Inl (TextError T001 (n - length (d # rest)))))"
  by pat_completeness auto
termination
proof (relation "measure (\<lambda>(n, start, cs). length cs)")
  fix n start :: nat and c :: byte and cs rest :: bytes and v x d rest2
  assume s: "text_scalar (n - length (c # cs)) c cs = Inr x" and x: "(v, rest) = x" and d: "space rest = d # rest2"
  have "length rest \<le> length cs" using text_scalar_shorter s unfolding x [symmetric] by blast
  moreover have "Suc (length rest2) \<le> length rest" using space_shorter [of rest] d by simp
  ultimately show "((n, start, space rest2), n, start, c # cs) \<in> measure (\<lambda>(n, start, cs). length cs)"
    using space_shorter [of rest2] by simp
qed simp

definition text_list :: "nat \<Rightarrow> nat \<Rightarrow> bytes \<Rightarrow> text_error + val \<times> bytes" where
  "text_list n start cs =
     (let cs = space cs
      in if HasPrefix cs [93] then Inr (VList [], tl cs)
         else case text_items n start cs of Inl e \<Rightarrow> Inl e | Inr (l, rest) \<Rightarrow> Inr (VList l, rest))"

definition text_item :: "nat \<Rightarrow> byte \<Rightarrow> bytes \<Rightarrow> text_error + val \<times> bytes" where
  "text_item n c cs =
     (let start = n - length (c # cs) in if c = 91 then text_list n start cs else text_scalar start c cs)"

lemma text_items_shorter: "text_items n start cs = Inr (l, rest) \<Longrightarrow> length rest \<le> length cs"
proof (induction n start cs arbitrary: l rule: text_items.induct)
  case (2 n start c cs)
  obtain v r where s: "c \<noteq> 91" "text_scalar (n - length (c # cs)) c cs = Inr (v, r)"
    using "2.prems" by (auto split: if_splits sum.splits)
  obtain d r2 where d: "space r = d # r2" using "2.prems" s by (auto split: list.splits)
  have l: "length r \<le> length cs" "Suc (length r2) \<le> length r" "length (space r2) \<le> length r2"
    using text_scalar_shorter [OF s(2)] space_shorter [of r] space_shorter [of r2] d by simp_all
  show ?case
  proof (cases "d = 44")
    case True
    then obtain vs where "text_items n start (space r2) = Inr (vs, rest)" using "2.prems" s d by (auto split: sum.splits)
    then show ?thesis using "2.IH" [OF s(1) s(2) refl d True] l by simp
  next
    case False
    then show ?thesis using "2.prems" s d l by (auto split: if_splits)
  qed
qed simp

lemma text_item_shorter: "text_item n c cs = Inr (v, rest) \<Longrightarrow> length rest \<le> length cs"
  using space_shorter [of cs] text_items_shorter [of n _ "space cs"]
  by (fastforce simp: text_item_def text_list_def Let_def split: if_splits sum.splits dest: text_scalar_shorter)

text \<open>The items of a line from where \<open>cs\<close> is left, spaces first.\<close>

function text_vals :: "nat \<Rightarrow> bytes \<Rightarrow> text_error + val list" where
  "text_vals n cs =
     (case space cs of
        [] \<Rightarrow> Inr []
      | c # r \<Rightarrow>
          (case text_item n c r of
             Inl e \<Rightarrow> Inl e
           | Inr (v, rest) \<Rightarrow>
               if rest \<noteq> [] \<and> \<not> isSpace (hd rest) then Inl (TextError T001 (n - length rest))
               else (case text_vals n rest of Inl e \<Rightarrow> Inl e | Inr vs \<Rightarrow> Inr (v # vs))))"
  by pat_completeness auto
termination
proof (relation "measure (\<lambda>(n, cs). length cs)")
  fix n :: nat and cs r rest :: bytes and c :: byte and v x
  assume s: "space cs = c # r" and i: "text_item n c r = Inr x" and x: "(v, rest) = x"
  have "length rest \<le> length r" using text_item_shorter i unfolding x [symmetric] by blast
  then show "((n, rest), n, cs) \<in> measure (\<lambda>(n, cs). length cs)" using space_shorter [of cs] s by simp
qed simp

declare text_vals.simps [simp del]

text \<open>Where the first byte that is not UTF-8 stands, and where two texts part.\<close>

function bad_utf8 :: "bytes \<Rightarrow> nat" where
  "bad_utf8 cs = (if rune_len cs = 0 then 0 else rune_len cs + bad_utf8 (drop (rune_len cs) cs))"
  by pat_completeness auto
termination
  proof (relation "measure length")
  fix cs assume "rune_len cs \<noteq> 0"
  then show "(drop (rune_len cs) cs, cs) \<in> measure length" using rune_len_le [of cs] by simp
qed simp

declare bad_utf8.simps [simp del]

fun parts_at :: "bytes \<Rightarrow> bytes \<Rightarrow> nat" where
  "parts_at (a # x) (b # y) = (if a = b then Suc (parts_at x y) else 0)"
| "parts_at _ _ = 0"

definition parseVals :: "bytes \<Rightarrow> text_error + val list" where
  "parseVals line =
     (if \<not> utf8_valid line then Inl (TextError (RCode R006) (bad_utf8 line))
      else case text_vals (length line) line of
        Inl e \<Rightarrow> Inl e
      | Inr vals \<Rightarrow>
          let canonical = formatVals vals
          in if canonical \<noteq> line then Inl (TextError T002 (parts_at canonical line)) else Inr vals)"

definition row_Parse :: "bytes \<Rightarrow> text_error + goval list" where
  "row_Parse line = (case parseVals line of Inl e \<Rightarrow> Inl e | Inr vals \<Rightarrow> Inr (map to_go vals))"

end
