(* ===== verification/RowTextItems.thy ===== *)
theory RowTextItems
  imports RowText
begin

text \<open>
  The items of \<open>row\<close>'s text notation one by one: UTF-8, strings, and for every kind of bare item its text, the one shape
  the text has, and what is read of it.
\<close>

section \<open>UTF-8\<close>

lemma utf8_text_append: "utf8_text a \<Longrightarrow> utf8_text (a @ b) = utf8_text b"
proof (induction a rule: utf8_text.induct)
  case (1 a)
  show ?case
  proof (cases "a = []")
    case False
    then have n: "0 < rune_len a" "utf8_text (drop (rune_len a) a)"
      using "1.prems" by (simp_all add: utf8_text.simps [of a] split: if_splits)
    then have "utf8_text (drop (rune_len a) a @ b) = utf8_text b" using "1.IH" False by simp
    moreover have "take (rune_len a) a @ (drop (rune_len a) a @ b) = a @ b" by (simp flip: append_assoc)
    ultimately show ?thesis using utf8_text_rune [OF n(1), of "drop (rune_len a) a @ b"] by (simp only:)
  qed simp
qed

lemma utf8_text_ascii_all: "list_all (\<lambda>c. c < 0x80) a \<Longrightarrow> utf8_text a"
  by (induction a) (simp_all add: utf8_text_ascii)

lemma cont_not_ascii: "cont c \<Longrightarrow> \<not> c < 0x80"
  by (simp add: cont_def word_le_nat_alt word_less_nat_alt)

lemma second_not_ascii: "second c d \<Longrightarrow> \<not> d < 0x80"
  by (auto simp: second_def cont_def word_le_nat_alt word_less_nat_alt split: if_splits)

text \<open>An ASCII byte does not continue a character: the text on either side of it is UTF-8.\<close>

lemma rune_len_within:
  assumes "0 < rune_len (a @ c # b)" and "c < 0x80" and "a \<noteq> []"
  shows "rune_len (a @ c # b) \<le> length a" and "rune_len a = rune_len (a @ c # b)"
proof -
  obtain x r where a: "a = x # r" using assms(3) by (cases a) auto
  have l: "lead x \<le> Suc (length (r @ c # b))" "2 \<le> lead x \<Longrightarrow> second x (hd (r @ c # b))"
    "list_all cont (take (lead x - 2) (tl (r @ c # b)))" and n: "rune_len (a @ c # b) = lead x" and p: "0 < lead x"
    using assms(1) by (auto simp: a rune_len_def split: if_splits)
  have k: "lead x \<le> Suc (length r)"
  proof (rule ccontr)
    assume k: "\<not> lead x \<le> Suc (length r)"
    show False
    proof (cases r)
      case Nil
      then show False using l(2) k second_not_ascii [of x c] assms(2) by simp
    next
      case (Cons y s)
      then have "c \<in> set (take (lead x - 2) (tl (r @ c # b)))" using k by (simp add: take_Cons')
      then show False using l(3) cont_not_ascii [of c] assms(2) by (auto simp: list_all_iff)
    qed
  qed
  then show "rune_len (a @ c # b) \<le> length a" unfolding n by (simp add: a)
  have "2 \<le> lead x \<Longrightarrow> hd (r @ c # b) = hd r" "2 \<le> lead x \<Longrightarrow> take (lead x - 2) (tl (r @ c # b)) = take (lead x - 2) (tl r)"
    using k by (cases r; simp)+
  then show "rune_len a = rune_len (a @ c # b)" unfolding n using k l p by (cases "2 \<le> lead x") (auto simp: a rune_len_def)
qed

lemma utf8_text_split: "utf8_text (a @ c # b) \<Longrightarrow> c < 0x80 \<Longrightarrow> utf8_text a \<and> utf8_text b"
proof (induction a rule: length_induct)
  case (1 a)
  show ?case
  proof (cases "a = []")
    case True
    then show ?thesis using "1.prems" by (simp add: utf8_text_ascii)
  next
    case False
    have n: "0 < rune_len (a @ c # b)" "utf8_text (drop (rune_len (a @ c # b)) (a @ c # b))"
      using "1.prems"(1) by (simp_all add: utf8_text.simps [of "a @ c # b"] split: if_splits)
    define k where "k = rune_len (a @ c # b)"
    have k: "0 < k" "k \<le> length a" "rune_len a = k" using rune_len_within [OF n(1) "1.prems"(2) False] n(1) by (simp_all add: k_def)
    then have "utf8_text (drop k a @ c # b)" using n(2) by (simp add: k_def [symmetric])
    moreover have "length (drop k a) < length a" using k False by simp
    ultimately have "utf8_text (drop k a) \<and> utf8_text b" using "1.IH" "1.prems"(2) by blast
    then show ?thesis using k utf8_text.simps [of a] by simp
  qed
qed

lemma rune_len_valid: "utf8_valid (c # r) = (0 < rune_len (c # r) \<and> utf8_valid (drop (rune_len (c # r)) (c # r)))"
proof -
  consider "c < 0x80" | "\<not> c < 0x80" "0xC2 \<le> c" "c \<le> 0xDF" | "\<not> c < 0x80" "0xE0 \<le> c" "c \<le> 0xEF" | "\<not> c < 0x80" "0xF0 \<le> c" "c \<le> 0xF4"
    | "\<not> c < 0x80" "\<not> (0xC2 \<le> c \<and> c \<le> 0xDF)" "\<not> (0xE0 \<le> c \<and> c \<le> 0xEF)" "\<not> (0xF0 \<le> c \<and> c \<le> 0xF4)" by blast
  then show ?thesis
  proof cases
    case 1
    then show ?thesis by (simp add: rune_len_ascii)
  next
    case 2
    then have "lead c = 2" by (simp add: lead_def)
    moreover have "c \<noteq> 0xE0" "c \<noteq> 0xED" "c \<noteq> 0xF0" "c \<noteq> 0xF4" using 2 by auto
    ultimately show ?thesis using 2 by (cases r) (auto simp: rune_len_def second_def)
  next
    case 3
    then have "\<not> c \<le> 0xDF" by (simp add: word_le_nat_alt)
    then have "lead c = 3" using 3 by (simp add: lead_def)
    moreover have "c \<noteq> 0xF0" "c \<noteq> 0xF4" using 3 by auto
    ultimately show ?thesis using 3 \<open>\<not> c \<le> 0xDF\<close>
      by (cases r; cases "tl r") (auto simp: rune_len_def second_def numeral_2_eq_2 take_Suc_Cons)
  next
    case 4
    then have n: "\<not> c \<le> 0xDF" "\<not> c \<le> 0xEF" by (simp_all add: word_le_nat_alt)
    then have "lead c = 4" using 4 by (simp add: lead_def)
    moreover have "c \<noteq> 0xE0" "c \<noteq> 0xED" using 4 by auto
    ultimately show ?thesis using 4 n
      by (cases r; cases "tl r"; cases "tl (tl r)") (auto simp: rune_len_def second_def numeral_2_eq_2 numeral_3_eq_3)
  next
    case 5
    then have "lead c = 0" by (simp add: lead_def)
    then show ?thesis using 5 by (auto simp: rune_len_def)
  qed
qed

lemma utf8_valid_text: "utf8_valid b = utf8_text b"
proof (induction b rule: utf8_text.induct)
  case (1 b)
  show ?case
  proof (cases b)
    case (Cons c r)
    then show ?thesis unfolding Cons utf8_text.simps [of "c # r"] rune_len_valid using 1 [unfolded Cons] by auto
  qed simp
qed

section \<open>Strings\<close>

lemma prepend_simps [simp]:
  "prepend [] r = r" "prepend x (prepend y r) = prepend (x @ y) r" "prepend x (Inr (s, z)) = Inr (x @ s, z)" "prepend x (Inl e) = Inl e"
  by (simp_all add: prepend_def split: sum.split)

lemma prepend_Inr: "prepend x r = Inr (s, z) \<longleftrightarrow> (\<exists>t. r = Inr (t, z) \<and> s = x @ t)"
  by (auto simp: prepend_def split: sum.splits)

lemma rune_above:
  assumes "0 < rune_len b" and "\<not> hd b < 0x80"
  shows "\<forall>x \<in> set (take (rune_len b) b). \<not> x < 0x80"
proof -
  obtain c r where b: "b = c # r" using assms(1) by (cases b) auto
  have l: "2 \<le> lead c \<Longrightarrow> second c (hd r)" "list_all cont (take (lead c - 2) (tl r))" and n: "rune_len b = lead c"
    using assms(1) by (auto simp: b rune_len_def split: if_splits)
  have "x = c \<or> x = hd r \<or> x \<in> set (take (lead c - 2) (tl r))" if x: "x \<in> set (take (lead c) b)" "2 \<le> lead c" for x
  proof -
    obtain k where k: "lead c = Suc (Suc k)" using x(2) by (cases "lead c"; cases "lead c - 1") auto
    show ?thesis using x(1) k by (cases r) (auto simp: b)
  qed
  moreover have "0 < lead c" using assms(1) by (simp add: n)
  then have "2 \<le> lead c" using assms(2) by (simp add: b lead_def split: if_splits)
  moreover from this have "\<not> hd r < 0x80" and "\<not> c < 0x80" using l(1) second_not_ascii assms(2) by (simp_all add: b)
  moreover have "\<forall>x \<in> set (take (lead c - 2) (tl r)). \<not> x < 0x80" using l(2) cont_not_ascii by (auto simp: list_all_iff)
  ultimately show ?thesis unfolding n by blast
qed

lemma read_high: "\<forall>c \<in> set w. \<not> c < 0x80 \<Longrightarrow> read_str_text start (w @ r) = prepend w (read_str_text start r)"
proof (induction w)
  case (Cons c w)
  then have "c \<noteq> 34" "c \<noteq> 92" by auto
  then show ?case using Cons by simp
qed simp

lemma esc_byte_text:
  assumes "c < 0x80"
  shows "read_str_text start (esc_byte c @ r) = prepend [c] (read_str_text start r)"
proof -
  consider "c = 0x22 \<or> c = 0x5C" | "c = 8" | "c = 12" | "c = 10" | "c = 13" | "c = 9"
    | "c < 0x20" "c \<noteq> 8" "c \<noteq> 12" "c \<noteq> 10" "c \<noteq> 13" "c \<noteq> 9" | "\<not> c < 0x20" "c \<noteq> 0x22" "c \<noteq> 0x5C" by blast
  then show ?thesis
  proof cases
    case 7
    have n: "unat c < 32" using 7(1) by (simp add: word_less_nat_alt)
    have q: "c \<noteq> 0x22 \<and> c \<noteq> 0x5C" using 7(1) by auto
    have "unat c div 16 < 16" "unat c mod 16 < 16" using n by auto
    then have "hex4 (48 # 48 # hex_digit (unat c div 16) # hex_digit (unat c mod 16) # r) = Some (unat c, r)"
      using hex_value_digit [of 0] by (simp add: hex4_def hex_value_digit hex_digit_def [of 0] mult.commute [of 16])
    then have "read_unicode start (48 # 48 # hex_digit (unat c div 16) # hex_digit (unat c mod 16) # r) = Inr ([c], r)"
      using n by (simp add: read_unicode_def high_surrogate_def low_surrogate_def EncodeRune_def)
    then show ?thesis using 7 q by (simp add: esc_byte_def)
  qed (auto simp: esc_byte_def simple_escape_def)
qed

lemma text_quote_runes:
  assumes "utf8_text (c # r)"
  shows "text_quote_body (c # r) =
    (if c < 0x80 then esc_byte c @ text_quote_body r
     else take (rune_len (c # r)) (c # r) @ text_quote_body (drop (rune_len (c # r)) (c # r)))"
    and "0 < rune_len (c # r)" and "utf8_text (drop (rune_len (c # r)) (c # r))"
  using assms utf8_text.simps [of "c # r"] by (simp_all add: Let_def split: if_splits)

lemma text_quote_read: "utf8_text s \<Longrightarrow> read_str_text start (text_quote_body s @ 34 # z) = Inr (s, z)"
proof (induction s rule: utf8_text.induct)
  case (1 s)
  show ?case
  proof (cases s)
    case (Cons c r)
    note q = text_quote_runes [OF "1.prems" [unfolded Cons]]
    have ih: "read_str_text start (text_quote_body (drop (rune_len s) s) @ 34 # z) = Inr (drop (rune_len s) s, z)"
      using "1.IH" q(2,3) Cons by simp
    show ?thesis
    proof (cases "c < 0x80")
      case True
      then show ?thesis using ih esc_byte_text [OF True] q(1) by (simp add: Cons rune_len_ascii del: text_quote_body.simps)
    next
      case False
      then have "\<forall>x \<in> set (take (rune_len s) s). \<not> x < 0x80" using rune_above [of s] q(2) Cons by simp
      then show ?thesis using False ih read_high q(1) by (simp add: Cons del: text_quote_body.simps)
    qed
  qed simp
qed

lemma esc_byte_ascii: "c < 0x80 \<Longrightarrow> list_all (\<lambda>c. c < 0x80) (esc_byte c)"
proof -
  assume c: "c < 0x80"
  have "hex_digit n < 0x80" if "n < 16" for n using unat_hex_digit [OF that] that by (simp add: word_less_nat_alt)
  moreover have "unat c div 16 < 16" "unat c mod 16 < 16" using c by (simp_all add: word_less_nat_alt less_mult_imp_div_less)
  ultimately show ?thesis using c by (simp add: esc_byte_def)
qed

lemma text_quote_utf8: "utf8_text s \<Longrightarrow> utf8_text (text_quote_body s)"
proof (induction s rule: utf8_text.induct)
  case (1 s)
  show ?case
  proof (cases s)
    case (Cons c r)
    note q = text_quote_runes [OF "1.prems" [unfolded Cons]]
    have ih: "utf8_text (text_quote_body (drop (rune_len s) s))" using "1.IH" q(2,3) Cons by simp
    show ?thesis
    proof (cases "c < 0x80")
      case True
      then show ?thesis using ih utf8_text_append [OF utf8_text_ascii_all [OF esc_byte_ascii [OF True]]] q(1)
        by (simp add: Cons rune_len_ascii del: text_quote_body.simps)
    next
      case False
      then show ?thesis using ih utf8_text_rune [of s] q(1,2) by (simp add: Cons del: text_quote_body.simps)
    qed
  qed simp
qed

text \<open>What a string of a UTF-8 line reads as is UTF-8, and so is what is left.\<close>

lemma hex4_ascii: "hex4 b = Some (u, r) \<Longrightarrow> utf8_text b = utf8_text r"
proof -
  assume "hex4 b = Some (u, r)"
  then obtain h1 h2 h3 h4 a b' c d where h: "b = h1 # h2 # h3 # h4 # r" "hex_value h1 = Some a" "hex_value h2 = Some b'" "hex_value h3 = Some c" "hex_value h4 = Some d"
    by (auto simp: hex4_def split: list.splits option.splits)
  have "x < 0x80" if "hex_value x = Some y" for x y
    using that by (auto simp: hex_value_def Let_def word_less_nat_alt split: if_splits)
  then show ?thesis using h by (simp add: utf8_text_ascii)
qed

lemma read_unicode_utf8:
  assumes "read_unicode start cs = Inr (x, rest)" and "utf8_text cs"
  shows "utf8_text x \<and> utf8_text rest"
proof -
  obtain r c2 where r: "hex4 cs = Some (r, c2)" using assms(1) by (auto simp: read_unicode_def split: option.splits)
  have u: "utf8_text c2" using hex4_ascii [OF r] assms(2) by simp
  show ?thesis
  proof (cases "high_surrogate r \<or> low_surrogate r")
    case False
    then have "scalar r" using hex4_bound [OF r] by (simp add: scalar_def)
    then show ?thesis using False assms(1) r u utf8_Encode [of r "[]"] by (simp add: read_unicode_def)
  next
    case True
    then obtain lo c3 where lo: "r < 0xDC00" "HasPrefix c2 [92, 117]" "hex4 (drop 2 c2) = Some (lo, c3)" "low_surrogate lo" "rest = c3"
      "x = EncodeRune (0x10000 + (r - 0xD800) * 1024 + (lo - 0xDC00))"
      using assms(1) r by (auto simp: read_unicode_def split: option.splits if_splits)
    then have "high_surrogate r" using True by (auto simp: high_surrogate_def low_surrogate_def)
    then have "scalar (0x10000 + (r - 0xD800) * 1024 + (lo - 0xDC00))"
      using lo(4) by (auto simp: scalar_def high_surrogate_def low_surrogate_def)
    then have "utf8_text x" using lo(6) utf8_Encode [of _ "[]"] by simp
    moreover obtain z where "c2 = 92 # 117 # z" using lo(2) by (cases c2; cases "tl c2") auto
    ultimately show ?thesis using u lo hex4_ascii [OF lo(3)] by (simp add: utf8_text_ascii)
  qed
qed

lemma simple_escape_ascii: "simple_escape e = Some x \<Longrightarrow> x < 0x80 \<and> e < 0x80"
  by (auto simp: simple_escape_def split: if_splits)

lemma read_str_utf8: "read_str_text start cs = Inr (s, rest) \<Longrightarrow> utf8_text cs \<Longrightarrow> utf8_text s \<and> utf8_text rest"
proof (induction cs arbitrary: s rule: length_induct)
  case (1 cs)
  obtain c r where cs: "cs = c # r" using "1.prems"(1) by (cases cs) auto
  show ?case
  proof (cases "c < 0x80")
    case False
    note q = text_quote_runes(2,3) [OF "1.prems"(2) [unfolded cs], folded cs]
    define w where "w = take (rune_len cs) cs"
    have "\<forall>x \<in> set w. \<not> x < 0x80" using rune_above [OF q(1)] False cs by (simp add: w_def)
    then have "prepend w (read_str_text start (drop (rune_len cs) cs)) = Inr (s, rest)"
      using read_high [of w start "drop (rune_len cs) cs"] "1.prems"(1) by (simp add: w_def)
    then obtain t where t: "read_str_text start (drop (rune_len cs) cs) = Inr (t, rest)" "s = w @ t" by (auto simp: prepend_Inr)
    moreover have "length (drop (rune_len cs) cs) < length cs" using q(1) cs by simp
    ultimately have "utf8_text t \<and> utf8_text rest" using "1.IH" q(2) by blast
    then show ?thesis using utf8_text_rune [OF q(1)] t(2) by (simp add: w_def)
  next
    case ascii: True
    then have u: "utf8_text r" using "1.prems"(2) by (simp add: cs utf8_text_ascii)
    consider "c = 34" | "c \<noteq> 34" "c \<noteq> 92" | "c = 92" by blast
    then show ?thesis
    proof cases
      case 1
      then show ?thesis using "1.prems"(1) u by (simp add: cs)
    next
      case 2
      then obtain t where t: "read_str_text start r = Inr (t, rest)" "s = c # t" using "1.prems"(1) by (auto simp: cs prepend_Inr)
      moreover have "length r < length cs" by (simp add: cs)
      ultimately have "utf8_text t \<and> utf8_text rest" using "1.IH" u by blast
      then show ?thesis using t(2) ascii by (simp add: utf8_text_ascii)
    next
      case 3
      then obtain e r2 where r: "r = e # r2" using "1.prems"(1) by (cases r) (auto simp: cs)
      show ?thesis
      proof (cases "e = 117")
        case True
        then obtain x r3 where x: "read_unicode start r2 = Inr (x, r3)" and p: "prepend x (read_str_text start r3) = Inr (s, rest)"
          using "1.prems"(1) 3 by (auto simp: cs r split: sum.splits)
        obtain t where t: "read_str_text start r3 = Inr (t, rest)" "s = x @ t" using p by (auto simp: prepend_Inr)
        have "utf8_text r2" using u True by (simp add: r utf8_text_ascii)
        then have v: "utf8_text x" "utf8_text r3" using read_unicode_utf8 [OF x] by simp_all
        moreover have "length r3 < length cs" using read_unicode_shorter [OF x] by (simp add: cs r)
        ultimately have "utf8_text t \<and> utf8_text rest" using "1.IH" t(1) by blast
        then show ?thesis using t(2) v utf8_text_append by simp
      next
        case False
        then obtain x t where t: "simple_escape e = Some x" "read_str_text start r2 = Inr (t, rest)" "s = x # t"
          using "1.prems"(1) 3 by (auto simp: cs r prepend_Inr split: option.splits)
        moreover have "utf8_text r2" using u simple_escape_ascii [OF t(1)] by (simp add: r utf8_text_ascii)
        moreover have "length r2 < length cs" by (simp add: cs r)
        ultimately have "utf8_text t \<and> utf8_text rest" using "1.IH" by blast
        then show ?thesis using t(3) simple_escape_ascii [OF t(1)] by (simp add: utf8_text_ascii)
      qed
    qed
  qed
qed

section \<open>Which shape a token has\<close>

lemma run_past:
  assumes "\<forall>c \<in> set ds. is_digit c" and "r = [] \<or> \<not> is_digit (hd r)"
  shows "run (ds @ r) = ds" and "past (ds @ r) = r"
  using assms span_digits [of ds] by (cases r; simp)+

lemma run_past_all: "\<forall>c \<in> set ds. is_digit c \<Longrightarrow> run ds = ds" "\<forall>c \<in> set ds. is_digit c \<Longrightarrow> past ds = []"
  using run_past [of ds "[]"] by simp_all

lemma minus_sign_text: "t \<noteq> [] \<Longrightarrow> hd t \<noteq> 45 \<Longrightarrow> minus_sign ((if neg then [45] else []) @ t) = (if neg then [45] else [], t)"
  by (cases t) (simp_all add: minus_sign_def)

definition fits_shape :: "byte \<Rightarrow> byte \<Rightarrow> bool" where
  "fits_shape c p \<longleftrightarrow> (if p = 100 then is_digit c else c = p)"

lemma shape_chars: "shape_loop t shape ds = Some m \<Longrightarrow> list_all2 fits_shape t shape"
proof (induction t shape ds arbitrary: m rule: shape_loop.induct)
  case (1 c t p shape ds)
  then show ?case by (cases "p = 100") (auto simp: fits_shape_def [of c] split: if_splits)
qed simp_all

lemma matchShape_chars: "matchShape t shape = Some m \<Longrightarrow> list_all2 fits_shape t (chars shape)"
  unfolding matchShape_def by (rule shape_chars) (simp split: if_splits)

lemma matchShape_nth: "matchShape t shape = Some m \<Longrightarrow> i < length shape \<Longrightarrow> i < length t \<and> fits_shape (t ! i) (of_char (shape ! i))"
  using list_all2_nthD2 [OF matchShape_chars, of t shape m i] list_all2_lengthD [OF matchShape_chars, of t shape m] by simp

lemma shape_colon: "58 \<notin> set t \<Longrightarrow> matchShape t shapeDatetime = None" "58 \<notin> set t \<Longrightarrow> matchShape t shapeTime = None"
  using matchShape_nth [of t shapeDatetime _ 13] matchShape_nth [of t shapeTime _ 2] nth_mem [of 13 t] nth_mem [of 2 t]
  by (cases "matchShape t shapeDatetime"; cases "matchShape t shapeTime"; force simp: fits_shape_def)+

lemma shape_dash: "45 \<notin> set (tl t) \<Longrightarrow> matchShape t shapeDate = None"
proof (rule ccontr)
  assume n: "45 \<notin> set (tl t)" and "matchShape t shapeDate \<noteq> None"
  then obtain m where m: "matchShape t shapeDate = Some m" by auto
  have "4 < length t" "t ! 4 = 45" using matchShape_nth [OF m, of 4] by (simp_all add: fits_shape_def)
  then have "tl t ! 3 = 45" "3 < length (tl t)" using nth_tl [of 3 t] by simp_all
  then show False using n nth_mem [of 3 "tl t"] by simp
qed

lemma shape_date_chars: "matchShape t shapeDate = Some m \<Longrightarrow> c \<in> set t \<Longrightarrow> is_digit c \<or> c = 45"
proof -
  assume m: "matchShape t shapeDate = Some m" and "c \<in> set t"
  then obtain i where i: "i < length t" "c = t ! i" by (auto simp: in_set_conv_nth)
  then have "i < length shapeDate" "fits_shape c (of_char (shapeDate ! i))"
    using matchShape_nth [OF m, of i] list_all2_lengthD [OF matchShape_chars [OF m]] by simp_all
  moreover have "of_char (shapeDate ! i) \<in> (of_char ` set shapeDate :: byte set)" using calculation(1) nth_mem by blast
  ultimately show ?thesis by (auto simp: fits_shape_def split: if_splits)
qed

lemma matchBytes_mark: "t \<noteq> [] \<Longrightarrow> 120 \<notin> set t \<Longrightarrow> 88 \<notin> set t \<Longrightarrow> matchBytes t = None"
  by (auto simp: matchBytes_def split: list.split)

lemma HasPrefix_in: "HasPrefix t [c] \<Longrightarrow> c \<in> set t"
  by (cases t) auto

lemma past_in: "c \<in> set (past t) \<Longrightarrow> c \<in> set t"
  by (rule set_dropWhileD)

lemma tl_in: "c \<in> set (tl t) \<Longrightarrow> c \<in> set t"
  by (cases t) auto

lemmas in_text = past_in tl_in HasPrefix_in

lemma minus_in: "c \<in> set (snd (minus_sign t)) \<Longrightarrow> c \<in> set t"
  by (auto simp: minus_sign_def split: if_splits dest: tl_in)

lemma duration_part_in: "duration_part u t = (g, r) \<Longrightarrow> (g \<noteq> [] \<longrightarrow> u \<in> set t) \<and> set r \<subseteq> set t"
  by (auto simp: duration_part_def split: if_splits dest: in_text)

lemma duration_unit:
  assumes "104 \<notin> set t" and "109 \<notin> set t" and "115 \<notin> set t"
  shows "duration_match t = None"
proof (rule ccontr)
  assume "duration_match t \<noteq> None"
  then obtain sg h m s frac where d: "matchDuration t = Some (sg, h, m, s, frac)" and g: "h \<noteq> [] \<or> m \<noteq> [] \<or> s \<noteq> []"
    by (auto simp: duration_match_def split: option.splits if_splits)
  obtain sg' t1 where 1: "minus_sign t = (sg', t1)" by fastforce
  obtain h' t2 where 2: "duration_part 104 t1 = (h', t2)" by fastforce
  obtain m' t3 where 3: "duration_part 109 t2 = (m', t3)" by fastforce
  have s: "duration_seconds t3 = Some (s, frac, [])" and e: "h' = h" "m' = m"
    using d by (auto simp: matchDuration_def 1 2 3 split: option.splits if_splits)
  have sub: "set t1 \<subseteq> set t" "set t2 \<subseteq> set t1" "set t3 \<subseteq> set t2"
    using minus_in [of _ t] 1 duration_part_in [OF 2] duration_part_in [OF 3] by auto
  have "s \<noteq> [] \<Longrightarrow> 115 \<in> set t3"
    using s by (auto simp: duration_seconds_def Let_def split: if_splits dest: in_text)
  then show False using g e assms sub duration_part_in [OF 2] duration_part_in [OF 3] by auto
qed

lemma float_mark: "101 \<notin> set t \<Longrightarrow> 69 \<notin> set t \<Longrightarrow> \<not> isFloat t"
  using minus_in [of _ t] by (auto simp: isFloat_def Let_def split: if_splits dest!: in_text)

lemma decimal_mark: "46 \<notin> set t \<Longrightarrow> matchDecimal t = None"
  using minus_in [of 46 t] by (auto simp: matchDecimal_def split: prod.split dest!: in_text)

text \<open>A token that begins as a number does, with no colon, no \<open>x\<close> and no date's shape, is read as a number.\<close>

definition number_start :: "bytes \<Rightarrow> bool" where
  "number_start t \<longleftrightarrow> t \<noteq> [] \<and> (is_digit (hd t) \<or> hd t = 45)"

lemma bare_numeric:
  assumes "number_start t" and "58 \<notin> set t" and "120 \<notin> set t" and "88 \<notin> set t"
    and "45 \<notin> set (tl t) \<or> (\<exists>c \<in> set t. \<not> is_digit c \<and> c \<noteq> 45)"
  shows "bare t off = bare_number t off"
proof -
  have "t \<noteq> chars ''none'' \<and> t \<noteq> chars ''false'' \<and> t \<noteq> chars ''true''"
    using assms(1) by (auto simp: number_start_def is_digit_def)
  moreover have "matchShape t shapeDate = None"
    using assms(5) shape_dash [of t] shape_date_chars [of t] by (cases "matchShape t shapeDate") auto
  moreover have "matchBytes t = None" using assms by (intro matchBytes_mark) (simp_all add: number_start_def)
  ultimately show ?thesis using shape_colon [OF assms(2)] by (simp add: bare_def)
qed

section \<open>Integers and decimals\<close>

lemma read_digits_value:
  assumes "\<forall>c \<in> set s. is_digit c"
  shows "read_digits s off = (if maxInt < int (dec_value s) then Inl (TextError (RCode R003) off) else Inr (int (dec_value s)))"
proof -
  define z where "z = dropWhile (\<lambda>c. c = 48) s"
  have s: "s = replicate (length (takeWhile (\<lambda>c. c = 48) s)) 48 @ z"
  proof -
    have "takeWhile (\<lambda>c. c = 48) s = replicate (length (takeWhile (\<lambda>c. c = 48) s)) 48"
      by (rule replicate_eqI) (auto dest: set_takeWhileD)
    then show ?thesis unfolding z_def by (metis takeWhile_dropWhile_id)
  qed
  have "map (\<lambda>c. unat c - 48) (replicate k 48 @ z) = replicate k 0 @ map (\<lambda>c. unat c - 48) z" for k
    by (simp add: map_replicate_const)
  then have "dec_value s = dec_value z" by (subst s) (simp add: dec_value_def val10_lead)
  moreover have "dec_value [] = 0" by (simp add: dec_value_def val10_def)
  ultimately show ?thesis unfolding read_digits_def z_def [symmetric] Let_def by auto
qed

lemma FormatInt_parts:
  obtains ds where "FormatInt n = (if n < 0 then [45] else []) @ ds" "ds \<noteq> []" "\<forall>c \<in> set ds. is_digit c" "dec_value ds = nat \<bar>n\<bar>"
  using digits_text dec_value_text by (auto simp: FormatInt_def)

lemma number_start_sign: "ds \<noteq> [] \<Longrightarrow> is_digit (hd ds) \<Longrightarrow> number_start ((if neg then [45] else []) @ ds @ r)"
  by (cases ds) (simp_all add: number_start_def)

lemma digit_chars: "is_digit c \<Longrightarrow> c \<notin> {43, 45, 46, 58, 69, 88, 101, 104, 109, 115, 120}"
  by (auto simp: is_digit_def)

lemma digit_run_chars: "\<forall>c \<in> set ds. is_digit c \<Longrightarrow> c \<in> {43, 45, 46, 58, 69, 88, 101, 104, 109, 115, 120} \<Longrightarrow> c \<notin> set ds"
  using digit_chars by blast

lemma signed_run_chars: "\<forall>c \<in> set ds. is_digit c \<Longrightarrow> c \<in> {43, 46, 58, 69, 88, 101, 104, 109, 115, 120} \<Longrightarrow> c \<notin> set ((if neg then [45] else []) @ ds)"
  using digit_run_chars [of ds c] by auto

lemma number_tail: "\<forall>c \<in> set ds. is_digit c \<Longrightarrow> 45 \<notin> set (tl ((if neg then [45] else []) @ ds))"
  using digit_run_chars [of ds 45] tl_in [of 45 ds] by auto

lemma bare_FormatInt:
  assumes "in_range n"
  shows "bare (FormatInt n) off = Inr (VInt n)"
proof -
  obtain ds where f: "FormatInt n = (if n < 0 then [45] else []) @ ds" and d: "ds \<noteq> []" "\<forall>c \<in> set ds. is_digit c" and v: "dec_value ds = nat \<bar>n\<bar>"
    by (rule FormatInt_parts)
  let ?t = "FormatInt n"
  note no = signed_run_chars [OF d(2), of _ "n < 0", folded f]
  have h: "is_digit (hd ds)" "hd ds \<noteq> 45" using d not_digits by (cases ds; auto)+
  have "number_start ?t" using number_start_sign [OF d(1) h(1), of "n < 0" "[]"] by (simp add: f)
  then have "bare ?t off = bare_number ?t off"
    using number_tail [OF d(2), of "n < 0", folded f] no [of 58] no [of 120] no [of 88] by (intro bare_numeric) simp_all
  moreover have "duration_match ?t = None" "\<not> isFloat ?t" "matchDecimal ?t = None"
    using no by (simp_all add: duration_unit float_mark decimal_mark)
  moreover have "matchInt ?t = Some (if n < 0 then [45] else [], ds)"
    unfolding f matchInt_def minus_sign_text [OF d(1) h(2)] using d by (simp add: run_past_all [OF d(2)])
  ultimately show ?thesis
    using assms read_digits_value [OF d(2)] v by (auto simp: bare_number_def bare_int_def in_range_def)
qed

lemma formatDecimal_parts:
  obtains i f where "formatDecimal m scale = (if m < 0 then [45] else []) @ i @ 46 # f" "i \<noteq> []" "\<forall>c \<in> set (i @ f). is_digit c"
    "length f = scale" "dec_value (i @ f) = nat \<bar>m\<bar>"
proof -
  define d where "d = map digit_byte (digits (nat \<bar>m\<bar>))"
  define s where "s = (if length d \<le> scale then replicate (scale + 1 - length d) 48 @ d else d)"
  define i f where "i = take (length s - scale) s" and "f = drop (length s - scale) s"
  have d: "\<forall>c \<in> set d. is_digit c" "d \<noteq> []" "dec_value d = nat \<bar>m\<bar>" using digits_text dec_value_text by (simp_all add: d_def)
  have l: "scale < length s" by (simp add: s_def)
  have e: "FormatInt (if m < 0 then - m else m) = d" by (simp add: FormatInt_def d_def)
  have "formatDecimal m scale = (if m < 0 then [45] else []) @ i @ 46 # f"
    unfolding formatDecimal_def Let_def e s_def [symmetric] i_def f_def by simp
  moreover have "i \<noteq> []" "length f = scale" using l by (auto simp: i_def f_def)
  moreover have "i @ f = s" by (simp add: i_def f_def)
  moreover have "\<forall>c \<in> set s. is_digit c" using d(1) is_digit_48 by (auto simp: s_def)
  moreover have "dec_value s = nat \<bar>m\<bar>"
  proof -
    have "map (\<lambda>c. unat c - 48) (replicate k 48 @ d) = replicate k 0 @ map (\<lambda>c. unat c - 48) d" for k
      by (simp add: map_replicate_const)
    then have "dec_value (replicate k 48 @ d) = dec_value d" for k by (simp add: dec_value_def val10_lead)
    then show ?thesis using d(3) by (simp add: s_def)
  qed
  ultimately show thesis using that by metis
qed

lemma bare_formatDecimal:
  assumes "in_range m" and "int scale \<le> maxScale"
  shows "bare (formatDecimal m scale) off = Inr (VDecimal m scale)"
proof -
  obtain i f where t: "formatDecimal m scale = (if m < 0 then [45] else []) @ i @ 46 # f" and i: "i \<noteq> []" "\<forall>c \<in> set (i @ f). is_digit c"
    and f: "length f = scale" "dec_value (i @ f) = nat \<bar>m\<bar>"
    by (rule formatDecimal_parts)
  let ?t = "formatDecimal m scale"
  have di: "\<forall>c \<in> set i. is_digit c" "\<forall>c \<in> set f. is_digit c" using i(2) by auto
  have no: "c \<notin> set ?t" if "c \<in> {43, 58, 69, 88, 101, 104, 109, 115, 120}" for c
    using signed_run_chars [OF di(1), of c "m < 0"] digit_run_chars [OF di(2), of c] that unfolding t by fastforce
  have h: "is_digit (hd i)" "hd i \<noteq> 45" using i(1) di(1) not_digits by (cases i; auto)+
  have ne: "i @ 46 # f \<noteq> []" "hd (i @ 46 # f) \<noteq> 45" using h i(1) by simp_all
  have "number_start ?t" using number_start_sign [OF i(1) h(1), of "m < 0" "46 # f"] by (simp add: t)
  moreover have "46 \<in> set ?t" "\<not> is_digit 46" using not_digits by (simp_all add: t)
  ultimately have "bare ?t off = bare_number ?t off" using no by (intro bare_numeric) auto
  moreover have "duration_match ?t = None" "\<not> isFloat ?t" using no by (simp_all add: duration_unit float_mark)
  moreover have "run (i @ 46 # f) = i" "past (i @ 46 # f) = 46 # f" using run_past [OF di(1), of "46 # f"] not_digits by simp_all
  then have "matchDecimal ?t = Some (if m < 0 then [45] else [], i, f)"
    unfolding t matchDecimal_def minus_sign_text [OF ne] using i(1) di(2) by (simp add: run_past_all [OF di(2)])
  ultimately show ?thesis
    using assms read_digits_value [OF i(2)] f by (auto simp: bare_number_def bare_decimal_def in_range_def)
qed

section \<open>Floats\<close>

lemma exponent_bits: "f AND 0x7FF0000000000000 = (of_nat ((unat f div 2 ^ 52 mod 2 ^ 11) * 2 ^ 52) :: u64)"
proof -
  have m: "(0x7FF0000000000000 :: u64) = push_bit 52 (mask 11)" by (simp add: mask_eq_exp_minus_1 push_bit_eq_mult)
  have "f AND push_bit 52 (mask 11) = push_bit 52 (take_bit 11 (drop_bit 52 f))"
    by (rule bit_word_eqI) (auto simp: bit_and_iff bit_push_bit_iff bit_mask_iff bit_take_bit_iff bit_drop_bit_eq)
  moreover have "take_bit 11 (drop_bit 52 f) = (of_nat (unat f div 2 ^ 52 mod 2 ^ 11) :: u64)"
  proof -
    have "unat (take_bit 11 (drop_bit 52 f)) = unat f div 2 ^ 52 mod 2 ^ 11"
      using take_bit_nat_eq_self [of "unat f" 64] unsigned_less [where 'a = nat and w = f]
      by (simp only: unsigned_take_bit_eq unsigned_drop_bit_eq) (simp add: take_bit_eq_mod drop_bit_eq_div)
    from arg_cong [OF this, of "of_nat :: nat \<Rightarrow> u64"] show ?thesis by simp
  qed
  ultimately show ?thesis by (simp add: m push_bit_eq_mult)
qed

lemma float_parts_bits:
  assumes "check_float f" and "float_parts f = (neg, m, k)"
  shows "double_ok m k" and "float_bits neg m k = f" and "neg \<Longrightarrow> m \<noteq> 0"
proof -
  define u e fr where "u = unat f" and "e = u div 2 ^ 52 mod 2 ^ 11" and "fr = u mod 2 ^ 52"
  have u: "u < 2 ^ 64" using unsigned_less [where 'a = nat and w = f] by (simp add: u_def)
  have ef: "e < 2 ^ 11" "fr < 2 ^ 52" by (simp_all add: e_def fr_def)
  have s: "u = (if 2 ^ 63 \<le> u then 2 ^ 63 else 0) + e * 2 ^ 52 + fr"
  proof -
    have q: "u div 2 ^ 52 = (if 2 ^ 63 \<le> u then 2 ^ 11 else 0) + e"
    proof (cases "2 ^ 63 \<le> u")
      case True
      then have "2 ^ 11 \<le> u div 2 ^ 52" "u div 2 ^ 52 < 2 ^ 11 + 2 ^ 11" using u by (simp_all add: less_eq_div_iff_mult_less_eq div_less_iff_less_mult)
      then show ?thesis using True by (simp add: e_def mod_if)
    next
      case False
      then have "u div 2 ^ 52 < 2 ^ 11" by (simp add: div_less_iff_less_mult)
      then show ?thesis using False by (simp add: e_def)
    qed
    have "u = u div 2 ^ 52 * 2 ^ 52 + fr" by (simp add: fr_def)
    then show ?thesis unfolding q by (cases "2 ^ 63 \<le> u") (simp_all only: if_True if_False distrib_right add_0 power_add [symmetric], simp_all)
  qed
  have p: "neg = (2 ^ 63 \<le> u)" "m = (if e = 0 then fr else 2 ^ 52 + fr)" "k = e - 1"
    using assms(2) unfolding float_parts_def Let_def u_def [symmetric] e_def [symmetric] fr_def [symmetric] by blast+
  have "e \<noteq> 2047"
  proof
    assume "e = 2047"
    then have "f AND 0x7FF0000000000000 = of_nat (2047 * 2 ^ 52)" using exponent_bits [of f] by (simp add: e_def u_def)
    then show False using assms(1) by (simp add: check_float_def)
  qed
  then have "e - 1 \<le> 2045" using ef(1) by simp
  then show "double_ok m k" using ef by (auto simp: double_ok_def p)
  have "(if neg then 2 ^ 63 else 0) + k * 2 ^ 52 + m = u" using s unfolding p by (cases e) simp_all
  then show "float_bits neg m k = f" unfolding float_bits_def by (simp add: u_def)
  show "m \<noteq> 0" if neg
  proof
    assume "m = 0"
    then have "e = 0 \<and> fr = 0" using p(2) by (simp split: if_splits)
    then have "unat f = 2 ^ 63" using s that p(1) by (simp add: u_def)
    from arg_cong [OF this, of "of_nat :: nat \<Rightarrow> u64"] have "f = 0x8000000000000000" by simp
    then show False using assms(1) by (simp add: check_float_def)
  qed
qed

text \<open>A float's text: sign, digits, fraction, exponent without a plus.\<close>

definition float_text :: "bool \<Rightarrow> bytes \<Rightarrow> bytes \<Rightarrow> int \<Rightarrow> bytes" where
  "float_text neg i fr e = (if neg then [45] else []) @ i @ (if fr \<noteq> [] then 46 # fr else []) @ 101 # FormatInt e"

lemma ParseFloat_text:
  assumes i: "i \<noteq> []" "\<forall>c \<in> set i. is_digit c" and fr: "\<forall>c \<in> set fr. is_digit c"
  shows "ParseFloat (float_text neg i fr e) =
    map_option (\<lambda>(m, k). (neg, m, k)) (dec10 (dec_value (i @ fr)) (e - int (length fr)))"
proof -
  define rest where "rest = (if fr \<noteq> [] then 46 # fr else []) @ 101 # FormatInt e"
  have h: "hd i \<noteq> 45" using i not_digits by (cases i) auto
  have s: "HasPrefix (float_text neg i fr e) [45] = neg" "TrimPrefix (float_text neg i fr e) [45] = i @ rest"
    using h i(1) by (cases i; auto simp: float_text_def rest_def TrimPrefix_def)+
  have 1: "run (i @ rest) = i" "past (i @ rest) = rest" using run_past [OF i(2), of rest] not_digits by (simp_all add: rest_def)
  have 2: "(if HasPrefix rest [46] then (run (tl rest), past (tl rest)) else ([], rest)) = (fr, 101 # FormatInt e)"
    using run_past [OF fr, of "101 # FormatInt e"] not_digits by (simp add: rest_def)
  have 3: "(if HasPrefix (tl (101 # FormatInt e)) [45] then - int (dec_value (tl (tl (101 # FormatInt e))))
      else if HasPrefix (tl (101 # FormatInt e)) [43] then int (dec_value (tl (tl (101 # FormatInt e)))) else int (dec_value (tl (101 # FormatInt e)))) = e"
    using Atoi_FormatInt [of e, unfolded Atoi_def] by (simp only: list.sel)
  show ?thesis unfolding ParseFloat_def s Let_def 1 2 prod.case 3 by (auto split: option.split)
qed

lemma formatFloat_parts:
  assumes "check_float f"
  obtains neg m k i fr e where "float_parts f = (neg, m, k)" "formatFloat f = float_text neg i fr e" "i \<noteq> []"
    "\<forall>c \<in> set i. is_digit c" "\<forall>c \<in> set fr. is_digit c" "ParseFloat (formatFloat f) = Some (neg, m, k)"
proof -
  obtain neg m k where p: "float_parts f = (neg, m, k)" by (metis prod_cases3)
  note ok = float_parts_bits [OF assms p]
  have cut: "formatFloat f = (if neg then [45] else []) @ i @ (if fr \<noteq> [] then 46 # fr else []) @ 101 # FormatInt (Atoi ex)"
    if s: "FormatFloat_e neg m k = (if neg then [45] else []) @ i @ (if fr \<noteq> [] then 46 # fr else []) @ 101 # ex"
      and d: "\<forall>c \<in> set i. is_digit c" "\<forall>c \<in> set fr. is_digit c" for i fr ex
  proof -
    let ?a = "(if neg then [45] else []) @ i @ (if fr \<noteq> [] then 46 # fr else [])"
    have "101 \<notin> set ?a" using digit_run_chars [OF d(1), of 101] digit_run_chars [OF d(2), of 101] by simp
    then have t: "takeWhile (\<lambda>c. c \<noteq> 101) (?a @ 101 # ex) = ?a" by (auto simp: takeWhile_append)
    have e: "FormatFloat_e neg m k = ?a @ 101 # ex" using s by simp
    show ?thesis unfolding formatFloat_def p prod.case Let_def e t by simp
  qed
  show thesis
  proof (cases "m = 0")
    case True
    have k: "k = 0" using ok(1) True by (simp add: double_ok_def)
    have f: "formatFloat f = float_text neg [48] [] 0"
      using cut [of "[48]" "[]" "[43, 48, 48]"] True is_digit_48
      by (simp add: FormatFloat_e_def float_text_def Atoi_def dec_value_def val10_def)
    moreover have "dec10 (dec_value [48]) 0 = Some (0, 0)" by (simp add: dec10_def dec_value_def val10_def nearest_zero)
    ultimately have "ParseFloat (formatFloat f) = Some (neg, m, k)"
      using ParseFloat_text [of "[48]" "[]" neg 0] is_digit_48 True k by simp
    then show thesis using that [OF p f] is_digit_48 by simp
  next
    case False
    then have m: "0 < m" by simp
    obtain D s where sh: "shortest m k = (D, s)" by fastforce
    define ds dp where "ds = rev (dropWhile (\<lambda>d. d = 0) (rev (digits D)))" and "dp = int (length (digits D)) + int s - 340"
    note z = shortest_value [OF ok(1) m sh ds_def dp_def]
    obtain d r where d: "ds = d # r" using z(1) by (cases ds) auto
    let ?i = "[digit_byte d]" and ?fr = "map digit_byte r"
    have dig: "\<forall>c \<in> set ?i. is_digit c" "\<forall>c \<in> set ?fr. is_digit c" using digit_bytes [OF z(3)] by (simp_all add: d)
    have "FormatFloat_e neg m k = (if neg then [45] else []) @ fmtE ds (dp - 1)"
      using False sh by (simp add: FormatFloat_e_def shortest_digits_def ds_def dp_def)
    then have f: "formatFloat f = float_text neg ?i ?fr (dp - 1)"
      using cut [OF _ dig, of "(if dp - 1 < 0 then 45 else 43) # (let a = nat \<bar>dp - 1\<bar> in if a < 10 then [48, digit_byte a] else map digit_byte (digits a))"]
      unfolding Atoi_exponent float_text_def by (simp add: fmtE_def d)
    have "dec_value (?i @ ?fr) = val10 ds" using dec_value_digits [OF z(3)] by (simp add: d)
    moreover have "dp - 1 - int (length ?fr) = dp - int (length ds)" by (simp add: d)
    moreover have "ParseFloat (float_text neg ?i ?fr (dp - 1)) =
        map_option (\<lambda>(m, k). (neg, m, k)) (dec10 (dec_value (?i @ ?fr)) (dp - 1 - int (length ?fr)))"
      using dig by (intro ParseFloat_text) simp_all
    ultimately have "ParseFloat (formatFloat f) = Some (neg, m, k)" using z(4) f by (simp only: option.map prod.case)
    then show thesis using that [OF p f] dig by simp
  qed
qed

lemma isFloat_text:
  assumes "i \<noteq> []" and "\<forall>c \<in> set i. is_digit c" and "\<forall>c \<in> set fr. is_digit c"
  shows "isFloat (float_text neg i fr e)"
proof -
  define rest where "rest = (if fr \<noteq> [] then 46 # fr else []) @ 101 # FormatInt e"
  have "i @ rest \<noteq> []" "hd (i @ rest) \<noteq> 45" using assms(1,2) not_digits by (cases i; auto)+
  then have 0: "minus_sign (float_text neg i fr e) = (if neg then [45] else [], i @ rest)"
    using minus_sign_text [of "i @ rest" neg] by (simp add: float_text_def rest_def)
  have 1: "run (i @ rest) = i" "past (i @ rest) = rest" using run_past [OF assms(2), of rest] not_digits by (simp_all add: rest_def)
  have 2: "HasPrefix rest [46] = (fr \<noteq> [])" "fr \<noteq> [] \<Longrightarrow> run (tl rest) = fr" "(if fr \<noteq> [] then past (tl rest) else rest) = 101 # FormatInt e"
    using run_past [OF assms(3), of "101 # FormatInt e"] not_digits by (auto simp: rest_def)
  obtain ds where d: "FormatInt e = (if e < 0 then [45] else []) @ ds" "ds \<noteq> []" "\<forall>c \<in> set ds. is_digit c" by (rule FormatInt_parts)
  then have "hd ds \<noteq> 43 \<and> hd ds \<noteq> 45" using not_digits by (cases ds) auto
  then have 3: "(if HasPrefix (FormatInt e) [43] \<or> HasPrefix (FormatInt e) [45] then tl (FormatInt e) else FormatInt e) = ds"
    using d by (cases ds) auto
  show ?thesis
    unfolding isFloat_def 0 snd_conv Let_def 1 2 list.sel 3 using assms(1) 2(2) d(2,3) by (cases "fr = []") (simp_all add: run_past_all)
qed

lemma bare_formatFloat:
  assumes "check_float f"
  shows "bare (formatFloat f) off = Inr (VFloat f)"
proof -
  obtain neg m k i fr e where p: "float_parts f = (neg, m, k)" and t: "formatFloat f = float_text neg i fr e" and i: "i \<noteq> []"
    "\<forall>c \<in> set i. is_digit c" "\<forall>c \<in> set fr. is_digit c" and v: "ParseFloat (formatFloat f) = Some (neg, m, k)"
    by (rule formatFloat_parts [OF assms])
  let ?t = "formatFloat f"
  obtain ds where d: "FormatInt e = (if e < 0 then [45] else []) @ ds" "ds \<noteq> []" "\<forall>c \<in> set ds. is_digit c" by (rule FormatInt_parts)
  have no: "c \<notin> set ?t" if "c \<in> {58, 88, 104, 109, 115, 120}" for c
    using signed_run_chars [OF i(2), of c neg] digit_run_chars [OF i(3), of c] signed_run_chars [OF d(3), of c "e < 0"] that
    unfolding t float_text_def d(1) by fastforce
  have h: "is_digit (hd i)" using i by (cases i) auto
  have "number_start ?t" using number_start_sign [OF i(1) h, of neg] by (simp add: t float_text_def)
  moreover have "101 \<in> set ?t" "\<not> is_digit 101" using not_digits by (simp_all add: t float_text_def)
  ultimately have "bare ?t off = bare_number ?t off" using no by (intro bare_numeric) auto
  moreover have "duration_match ?t = None" using no by (simp add: duration_unit)
  moreover have "isFloat ?t" using isFloat_text [OF i] by (simp add: t)
  moreover have "parse_float_bits ?t = f" using v float_parts_bits(2) [OF assms p] by (simp add: parse_float_bits_def)
  ultimately show ?thesis using assms by (simp add: bare_number_def bare_float_def)
qed

section \<open>Dates and times\<close>

lemma pad_nonneg: "0 \<le> n \<Longrightarrow> pad n w = pad0 w (nat n)"
  by (simp add: pad_def pad0_def FormatInt_def)

lemma num_pad0: "num (pad0 w n) = int n"
  by (simp add: num_def dec_value_pad0)

lemma shape_run_more: "\<forall>c \<in> set ds. is_digit c \<Longrightarrow> shape_loop (ds @ t) (replicate (length ds) 100 @ s) (Some a) = shape_loop t s (Some (a @ ds))"
  by (induction ds arbitrary: a) simp_all

lemma shape_run: "\<forall>c \<in> set ds. is_digit c \<Longrightarrow> length ds = k \<Longrightarrow> 0 < k \<Longrightarrow> shape_loop (ds @ t) (replicate k 100 @ s) None = shape_loop t s (Some ds)"
  using shape_run_more [of "tl ds" t s "[hd ds]"] by (cases ds) auto

lemma flush_simps [simp]: "flush None m = m" "flush (Some d) = (\<lambda>m. d # m)"
  by (simp_all add: flush_def fun_eq_iff)

lemma shape_literal: "c \<noteq> 100 \<Longrightarrow> shape_loop (c # t) (c # s) (Some d) = map_option (\<lambda>m. d # m) (shape_loop t s None)"
  by simp

lemma shape_end: "shape_loop [] [] (Some d) = Some [d]"
  by simp

definition two_digits :: "bytes \<Rightarrow> bool" where
  "two_digits d \<longleftrightarrow> length d = 2 \<and> (\<forall>c \<in> set d. is_digit c)"

lemma two_digits_pad0: "n < 100 \<Longrightarrow> two_digits (pad0 2 n)"
  using length_pad0 [of n 2] pad0_digits by (auto simp: two_digits_def)

lemma date_run:
  assumes "length y = 4" and "\<forall>c \<in> set y. is_digit c" and "two_digits m" and "two_digits d"
  shows "shape_loop (y @ 45 # m @ 45 # d @ z) (chars shapeDate @ s) None = map_option (\<lambda>g. y # m # g) (shape_loop z s (Some d))"
proof -
  have e: "chars shapeDate @ s = replicate 4 100 @ 45 # replicate 2 100 @ 45 # replicate 2 100 @ s"
    by (simp add: eval_nat_numeral)
  show ?thesis
    using assms(3,4) unfolding e two_digits_def
    by (simp add: shape_run [OF assms(2,1)] shape_run [where k = 2] option.map_comp comp_def)
qed

lemma time_run:
  assumes "two_digits h" and "two_digits m" and "two_digits d" and "length f = 3" "\<forall>c \<in> set f. is_digit c"
  shows "shape_loop (h @ 58 # m @ 58 # d @ 46 # f @ z) (chars shapeTime @ s) None = map_option (\<lambda>g. h # m # d # g) (shape_loop z s (Some f))"
proof -
  have e: "chars shapeTime @ s = replicate 2 100 @ 58 # replicate 2 100 @ 58 # replicate 2 100 @ 46 # replicate 3 100 @ s"
    by (simp add: eval_nat_numeral)
  show ?thesis
    using assms(1-3) unfolding e two_digits_def
    by (simp add: shape_run [OF assms(5,4)] shape_run [where k = 2] option.map_comp comp_def)
qed

lemma chars_datetime: "chars shapeDatetime = chars shapeDate @ 84 # chars shapeTime @ [90]"
  by simp

lemma formatDate_parts:
  assumes "minDay \<le> day" and "day \<le> maxDay"
  obtains y m d where "formatDate day = pad0 4 y @ 45 # pad0 2 m @ 45 # pad0 2 d" "length (pad0 4 y) = 4" "two_digits (pad0 2 m)"
    "two_digits (pad0 2 d)" "civil (pad0 4 y) (pad0 2 m) (pad0 2 d) off = Inr day"
proof -
  obtain y m d where c: "civilFromDays day = (y, m, d)" "civil_date y m d" "daysFromCivil y m d = day" using civilFromDays_date by blast
  have y: "1 \<le> y" "y \<le> 9999" using year_in_range [of y m d] assms c by auto
  have m: "1 \<le> m" "m \<le> 12" "1 \<le> d" "d \<le> daysIn y m" using c(2) by (simp_all add: civil_date_def)
  then have "d \<le> 31" by (auto simp: daysIn_def split: if_splits)
  then have b: "nat y < 10 ^ 4" "nat m < 100" "nat d < 100" using y m by auto
  have "civil (pad0 4 (nat y)) (pad0 2 (nat m)) (pad0 2 (nat d)) off = Inr day"
    using y m c(3) by (simp add: civil_def num_pad0 validCivil_def)
  moreover have "formatDate day = pad0 4 (nat y) @ 45 # pad0 2 (nat m) @ 45 # pad0 2 (nat d)"
    using y m c(1) by (simp add: formatDate_def pad_nonneg)
  ultimately show thesis using that length_pad0 [OF b(1)] two_digits_pad0 b by simp
qed

lemma clock_sum: "((ms div 3600000 * 60 + ms div 60000 mod 60) * 60 + ms div 1000 mod 60) * 1000 + ms mod 1000 = (ms :: int)"
proof -
  have e: "ms div 60000 = ms div 1000 div 60" "ms div 3600000 = ms div 1000 div 60 div 60" by (simp_all add: zdiv_zmult2_eq [symmetric])
  show ?thesis unfolding e by (simp only: div_mult_mod_eq)
qed

lemma formatTime_parts:
  assumes "0 \<le> ms" and "ms \<le> maxTime"
  obtains h m s f where "formatTime ms = h @ 58 # m @ 58 # s @ 46 # f" "two_digits h" "two_digits m" "two_digits s"
    "length f = 3" "\<forall>c \<in> set f. is_digit c" "clock h m s f off = Inr ms"
proof -
  let ?h = "pad0 2 (nat (ms div 3600000))" and ?m = "pad0 2 (nat (ms div 60000 mod 60))" and ?s = "pad0 2 (nat (ms div 1000 mod 60))"
    and ?f = "pad0 3 (nat (ms mod 1000))"
  have h: "0 \<le> ms div 3600000" "ms div 3600000 \<le> 23" using assms zdiv_mono1 [of ms 86399999 3600000] by (simp_all add: pos_imp_zdiv_nonneg_iff)
  have b: "0 \<le> ms div 60000 mod 60" "ms div 60000 mod 60 \<le> 59" "0 \<le> ms div 1000 mod 60" "ms div 1000 mod 60 \<le> 59" "0 \<le> ms mod 1000"
    using pos_mod_bound [of 60 "ms div 60000"] pos_mod_bound [of 60 "ms div 1000"] by simp_all
  have "nat (ms mod 1000) < 10 ^ 3" by (simp add: nat_less_iff)
  then have f: "length ?f = 3" "\<forall>c \<in> set ?f. is_digit c" using length_pad0 [of _ 3] pad0_digits by auto
  have n: "nat k < 100" if "k \<le> 59" for k :: int using that by linarith
  have "ms div 3600000 \<le> 59" using h(2) by simp
  note d = two_digits_pad0 [OF n [OF this]] two_digits_pad0 [OF n [OF b(2)]] two_digits_pad0 [OF n [OF b(4)]]
  have v: "num ?h = ms div 3600000" "num ?m = ms div 60000 mod 60" "num ?s = ms div 1000 mod 60" "num ?f = ms mod 1000"
    using h b by (simp_all only: num_pad0 int_nat_eq if_True)
  have "\<not> (23 < ms div 3600000 \<or> 59 < ms div 60000 mod 60 \<or> 59 < ms div 1000 mod 60)"
    using h(2) b(2,4) by (simp only: not_less de_Morgan_disj)
  then have "clock ?h ?m ?s ?f off = Inr ms" unfolding clock_def v by (simp only: if_False clock_sum)
  moreover have "formatTime ms = ?h @ 58 # ?m @ 58 # ?s @ 46 # ?f"
    unfolding formatTime_def pad_nonneg [OF h(1)] pad_nonneg [OF b(1)] pad_nonneg [OF b(3)] pad_nonneg [OF b(5)] ..
  ultimately show thesis using that d f by blast
qed

lemma matchShape_length: "length t \<noteq> length shape \<Longrightarrow> matchShape t shape = None"
  by (simp add: matchShape_def)

lemma digit_first: "\<forall>c \<in> set d. is_digit c \<Longrightarrow> d \<noteq> [] \<Longrightarrow> d @ z \<notin> {chars ''none'', chars ''false'', chars ''true''}"
  by (cases d) (auto simp: is_digit_def)

lemma two_digits_chars: "two_digits d \<Longrightarrow> c \<in> {43, 45, 46, 58, 69, 88, 101, 104, 109, 115, 120} \<Longrightarrow> c \<notin> set d"
  unfolding two_digits_def using digit_run_chars by blast

lemma formatDate_match:
  assumes "minDay \<le> day" and "day \<le> maxDay"
  obtains y m d where "matchShape (formatDate day) shapeDate = Some [y, m, d]" "civil y m d off = Inr day" "length (formatDate day) = 10"
    "\<And>z s. shape_loop (formatDate day @ z) (chars shapeDate @ s) None = map_option (\<lambda>g. y # m # g) (shape_loop z s (Some d))"
    "formatDate day @ z \<notin> {chars ''none'', chars ''false'', chars ''true''}" "set (formatDate day) \<inter> {88, 120} = {}"
proof -
  obtain y m d where f: "formatDate day = pad0 4 y @ 45 # pad0 2 m @ 45 # pad0 2 d" and l: "length (pad0 4 y) = 4" "two_digits (pad0 2 m)" "two_digits (pad0 2 d)"
    and c: "civil (pad0 4 y) (pad0 2 m) (pad0 2 d) off = Inr day"
    using formatDate_parts [OF assms] .
  have y: "\<forall>c \<in> set (pad0 4 y). is_digit c" "pad0 4 y \<noteq> []" using pad0_digits l(1) by auto
  have r: "shape_loop (formatDate day @ z) (chars shapeDate @ s) None = map_option (\<lambda>g. pad0 4 y # pad0 2 m # g) (shape_loop z s (Some (pad0 2 d)))" for z s
    using date_run [OF l(1) y(1) l(2,3), of z s] by (simp only: f append_assoc append_Cons)
  have n: "length (formatDate day) = 10" using l by (simp add: f two_digits_def)
  have "matchShape (formatDate day) shapeDate = Some [pad0 4 y, pad0 2 m, pad0 2 d]"
    using r [of "[]" "[]"] n by (simp add: matchShape_def shape_end)
  moreover have "set (formatDate day) \<inter> {88, 120} = {}"
    using digit_run_chars [OF y(1)] two_digits_chars [OF l(2)] two_digits_chars [OF l(3)] by (simp add: f)
  moreover have "formatDate day @ z \<notin> {chars ''none'', chars ''false'', chars ''true''}"
    using digit_first [OF y, of "45 # pad0 2 m @ 45 # pad0 2 d @ z"] by (simp only: f append_assoc append_Cons not_False_eq_True)
  ultimately show thesis using that r n c by blast
qed

lemma bare_formatDate:
  assumes "minDay \<le> day" and "day \<le> maxDay"
  shows "bare (formatDate day) off = Inr (VDate day)"
proof -
  obtain y m d where f: "matchShape (formatDate day) shapeDate = Some [y, m, d]" "civil y m d off = Inr day" "length (formatDate day) = 10"
    "formatDate day @ [] \<notin> {chars ''none'', chars ''false'', chars ''true''}" "set (formatDate day) \<inter> {88, 120} = {}"
    using formatDate_match [OF assms] by metis
  moreover have "matchBytes (formatDate day) = None" using f(3,5) by (intro matchBytes_mark) auto
  moreover have "matchShape (formatDate day) shapeDatetime = None" using f(3) by (intro matchShape_length) simp
  ultimately show ?thesis by (simp add: bare_def bare_shape_def)
qed

lemma time_match:
  assumes "0 \<le> ms" and "ms \<le> maxTime"
  obtains h m s f where "matchShape (formatTime ms) shapeTime = Some [h, m, s, f]" "clock h m s f off = Inr ms" "length (formatTime ms) = 12"
    "\<And>z p. shape_loop (formatTime ms @ z) (chars shapeTime @ p) None = map_option (\<lambda>g. h # m # s # g) (shape_loop z p (Some f))"
    "formatTime ms \<notin> {chars ''none'', chars ''false'', chars ''true''}" "set (formatTime ms) \<inter> {88, 120} = {}"
proof -
  obtain h m s f where t: "formatTime ms = h @ 58 # m @ 58 # s @ 46 # f" and d: "two_digits h" "two_digits m" "two_digits s"
    "length f = 3" "\<forall>c \<in> set f. is_digit c" and c: "clock h m s f off = Inr ms"
    using formatTime_parts [OF assms] .
  have r: "shape_loop (formatTime ms @ z) (chars shapeTime @ p) None = map_option (\<lambda>g. h # m # s # g) (shape_loop z p (Some f))" for z p
    using time_run [OF d, of z p] by (simp only: t append_assoc append_Cons)
  have n: "length (formatTime ms) = 12" using d by (simp add: t two_digits_def)
  have "matchShape (formatTime ms) shapeTime = Some [h, m, s, f]" using r [of "[]" "[]"] n by (simp add: matchShape_def shape_end)
  moreover have "set (formatTime ms) \<inter> {88, 120} = {}"
    using digit_run_chars [OF d(5)] two_digits_chars [OF d(1)] two_digits_chars [OF d(2)] two_digits_chars [OF d(3)] by (simp add: t)
  moreover have "formatTime ms \<notin> {chars ''none'', chars ''false'', chars ''true''}"
  proof -
    have "\<forall>c \<in> set h. is_digit c" "h \<noteq> []" using d(1) by (auto simp: two_digits_def)
    then show ?thesis unfolding t by (rule digit_first)
  qed
  ultimately show thesis using that r n c by blast
qed

lemma bare_formatTime:
  assumes "0 \<le> ms" and "ms \<le> maxTime"
  shows "bare (formatTime ms) off = Inr (VTime ms)"
proof -
  obtain h m s f where t: "matchShape (formatTime ms) shapeTime = Some [h, m, s, f]" "clock h m s f off = Inr ms" "length (formatTime ms) = 12"
    "formatTime ms \<notin> {chars ''none'', chars ''false'', chars ''true''}" "set (formatTime ms) \<inter> {88, 120} = {}"
    using time_match [OF assms] by metis
  moreover have "matchBytes (formatTime ms) = None" using t(3,5) by (intro matchBytes_mark) auto
  moreover have "matchShape (formatTime ms) shapeDatetime = None" "matchShape (formatTime ms) shapeDate = None"
    using t(3) by (auto intro: matchShape_length)
  ultimately show ?thesis by (simp add: bare_def bare_shape_def)
qed

lemma floorDiv_pos: "0 < b \<Longrightarrow> floorDiv a b = (a div b, a mod b)"
proof -
  assume b: "0 < b"
  define q r where "q = a sdiv b" and "r = a smod b"
  have a: "a = q * b + r" using sdiv_mult_smod_eq [of a b] by (simp add: q_def r_def)
  have r: "\<bar>r\<bar> < b" using b smod_int_range [of b a] by (auto simp: r_def abs_if)
  show ?thesis
  proof (cases "r < 0")
    case True
    then have "a div b = q - 1" "a mod b = r + b" using a r b
      by (intro int_div_pos_eq [of a b "q - 1" "r + b"] int_mod_pos_eq [of a b "q - 1" "r + b"]; simp add: algebra_simps)+
    then show ?thesis using True by (simp add: floorDiv_def Let_def q_def [symmetric] r_def [symmetric])
  next
    case False
    then have "a div b = q" "a mod b = r" using a r b
      by (intro int_div_pos_eq [of a b q r] int_mod_pos_eq [of a b q r]; simp add: algebra_simps)+
    then show ?thesis using False by (simp add: floorDiv_def Let_def q_def [symmetric] r_def [symmetric])
  qed
qed

lemma bare_datetime_text:
  assumes "minDatetime \<le> n" and "n \<le> maxDatetime"
  shows "bare (format_val (VDatetime n)) off = Inr (VDatetime n)"
proof -
  define day ms where "day = n div 86400000" and "ms = n mod 86400000"
  have n: "n = day * 86400000 + ms" by (simp add: day_def ms_def)
  have ms: "0 \<le> ms" "ms \<le> maxTime" using pos_mod_bound [of 86400000 n] by (simp_all add: ms_def)
  have day: "minDay \<le> day" "day \<le> maxDay" using assms n ms by linarith+
  let ?t = "formatDate day @ 84 # formatTime ms @ [90]"
  have t: "format_val (VDatetime n) = ?t" by (simp add: floorDiv_pos day_def ms_def)
  obtain y m d where D: "civil y m d off = Inr day" "length (formatDate day) = 10"
    "\<And>z s. shape_loop (formatDate day @ z) (chars shapeDate @ s) None = map_option (\<lambda>g. y # m # g) (shape_loop z s (Some d))"
    "?t \<notin> {chars ''none'', chars ''false'', chars ''true''}" "set (formatDate day) \<inter> {88, 120} = {}"
    using formatDate_match [OF day] by metis
  obtain h mi s f where T: "clock h mi s f off = Inr ms" "length (formatTime ms) = 12"
    "\<And>z p. shape_loop (formatTime ms @ z) (chars shapeTime @ p) None = map_option (\<lambda>g. h # mi # s # g) (shape_loop z p (Some f))"
    "set (formatTime ms) \<inter> {88, 120} = {}"
    using time_match [OF ms] by metis
  have "shape_loop ?t (chars shapeDatetime) None = Some [y, m, d, h, mi, s, f]"
    unfolding chars_datetime D(3) by (subst shape_literal) (simp_all only: T(3), simp_all)
  then have "matchShape ?t shapeDatetime = Some [y, m, d, h, mi, s, f]" using D(2) T(2) by (simp add: matchShape_def)
  moreover have "matchBytes ?t = None" using D(5) T(4) by (intro matchBytes_mark) auto
  ultimately show ?thesis unfolding t bare_def using D(1,4) T(1) n by (simp add: bare_datetime_def bare_shape_def)
qed

section \<open>Durations\<close>

text \<open>A duration's text from its parts; an absent part is empty.\<close>

definition unit_text :: "bytes \<Rightarrow> byte \<Rightarrow> bytes" where
  "unit_text d u = (if d = [] then [] else d @ [u])"

definition seconds_text :: "bytes \<Rightarrow> bytes \<Rightarrow> bytes" where
  "seconds_text s f = (if s = [] then [] else s @ (if f \<noteq> [] then 46 # f else []) @ [115])"

lemma duration_part_yes: "\<forall>c \<in> set d. is_digit c \<Longrightarrow> d \<noteq> [] \<Longrightarrow> \<not> is_digit u \<Longrightarrow> duration_part u (d @ u # r) = (d, r)"
  using run_past [of d "u # r"] by (simp add: duration_part_def)

lemma duration_part_no: "\<not> HasPrefix (past t) [u] \<Longrightarrow> duration_part u t = ([], t)"
  by (simp add: duration_part_def)

lemma duration_part_text:
  assumes "\<forall>c \<in> set d. is_digit c" and "\<not> is_digit u" and "\<not> HasPrefix (past t) [u]"
  shows "duration_part u (unit_text d u @ t) = (d, t)"
  using assms duration_part_yes [of d u t] duration_part_no by (simp add: unit_text_def)

lemma seconds_text_past: "\<forall>c \<in> set s. is_digit c \<Longrightarrow> HasPrefix (past (seconds_text s f)) [u] \<Longrightarrow> u = 46 \<or> u = 115"
  using run_past [of s "46 # f @ [115]"] run_past [of s "[115]"] not_digits
  by (auto simp: seconds_text_def is_digit_def split: if_splits)

lemma duration_seconds_text:
  assumes "\<forall>c \<in> set s. is_digit c" and "\<forall>c \<in> set f. is_digit c" and "s = [] \<Longrightarrow> f = []" and "length f \<le> 3"
  shows "duration_seconds (seconds_text s f) = Some (s, f, [])"
proof (cases "s = []")
  case True
  then show ?thesis using assms(3) by (simp add: duration_seconds_def seconds_text_def)
next
  case False
  define r where "r = (if f \<noteq> [] then 46 # f else []) @ [115 :: byte]"
  have n: "\<not> is_digit 115" by (simp add: is_digit_def)
  have 1: "run (s @ r) = s" "past (s @ r) = r" using run_past [OF assms(1), of r] n not_digits by (auto simp: r_def)
  have 2: "run (f @ [115]) = f" "past (f @ [115]) = [115]" using run_past [OF assms(2), of "[115]"] n by auto
  have "1 \<le> length f" if "f \<noteq> []" using that by (cases f) auto
  moreover have "seconds_text s f = s @ r" using False by (simp add: seconds_text_def r_def)
  ultimately show ?thesis
    using False assms(4) unfolding duration_seconds_def Let_def by (cases "f = []") (simp_all add: 1, simp_all add: r_def 2)
qed

definition parts_ok :: "bytes \<Rightarrow> bytes \<Rightarrow> bytes \<Rightarrow> bytes \<Rightarrow> bool" where
  "parts_ok h m s f \<longleftrightarrow> (\<forall>c \<in> set h \<union> set m \<union> set s \<union> set f. is_digit c) \<and> (s = [] \<longrightarrow> f = []) \<and> length f \<le> 3
     \<and> (h \<noteq> [] \<or> m \<noteq> [] \<or> s \<noteq> [])"

definition duration_text :: "bool \<Rightarrow> bytes \<Rightarrow> bytes \<Rightarrow> bytes \<Rightarrow> bytes \<Rightarrow> bytes" where
  "duration_text neg h m s f = (if neg then [45] else []) @ unit_text h 104 @ unit_text m 109 @ seconds_text s f"

lemma duration_text_first:
  assumes "parts_ok h m s f"
  shows "unit_text h 104 @ unit_text m 109 @ seconds_text s f \<noteq> []"
    and "is_digit (hd (unit_text h 104 @ unit_text m 109 @ seconds_text s f))"
  using assms by (cases h; cases m; cases s; auto simp: parts_ok_def unit_text_def seconds_text_def)+

lemma duration_text_match:
  assumes ok: "parts_ok h m s f"
  shows "duration_match (duration_text neg h m s f) = Some (if neg then [45] else [], h, m, s, f)"
proof -
  have d: "\<forall>c \<in> set h. is_digit c" "\<forall>c \<in> set m. is_digit c" "\<forall>c \<in> set s. is_digit c" "\<forall>c \<in> set f. is_digit c"
    using ok by (auto simp: parts_ok_def)
  have n: "\<not> is_digit 104" "\<not> is_digit 109" by (simp_all add: is_digit_def)
  have "hd (unit_text h 104 @ unit_text m 109 @ seconds_text s f) \<noteq> 45" using duration_text_first(2) [OF ok] not_digits by metis
  note sg = minus_sign_text [OF duration_text_first(1) [OF ok] this, of neg, folded duration_text_def]
  have m: "\<not> HasPrefix (past (seconds_text s f)) [109]" using seconds_text_past [OF d(3), of f 109] by auto
  have h: "\<not> HasPrefix (past (unit_text m 109 @ seconds_text s f)) [104]"
  proof (cases "m = []")
    case True
    then show ?thesis using seconds_text_past [OF d(3), of f 104] by (auto simp: unit_text_def)
  next
    case False
    then show ?thesis using run_past [OF d(2), of "109 # seconds_text s f"] n by (simp add: unit_text_def)
  qed
  have "matchDuration (duration_text neg h m s f) = Some (if neg then [45] else [], h, m, s, f)"
    unfolding matchDuration_def sg prod.case duration_part_text [OF d(1) n(1) h] duration_part_text [OF d(2) n(2) m]
    using duration_seconds_text [OF d(3,4)] ok by (simp add: parts_ok_def)
  then show ?thesis using ok by (simp add: duration_match_def parts_ok_def)
qed

lemma frac_text:
  assumes "0 < n" and "n < 1000" and "F = rev (dropWhile (\<lambda>c. c = 48) (rev (pad0 3 n)))"
  shows "F \<noteq> []" and "length F \<le> 3" and "\<forall>c \<in> set F. is_digit c" and "dec_value (take 3 (F @ [48, 48])) = n"
proof -
  have "length (pad0 3 n) = 3" using assms(2) by (intro length_pad0) simp_all
  then obtain a b c where p: "pad0 3 n = [a, b, c]" by (auto simp: numeral_3_eq_3 length_Suc_conv)
  have v: "dec_value [a, b, c] = n" using dec_value_pad0 [of 3 n] p by simp
  have nz: "\<not> (a = 48 \<and> b = 48 \<and> c = 48)"
  proof
    assume "a = 48 \<and> b = 48 \<and> c = 48"
    then show False using v assms(1) by (simp add: dec_value_def val10_def)
  qed
  then show "F \<noteq> []" "length F \<le> 3" using assms(3) p by auto
  show "\<forall>c \<in> set F. is_digit c" using assms(3) p pad0_digits [of _ 3 n] by auto
  have "take 3 (F @ [48, 48]) = [a, b, c]" using nz assms(3) p by auto
  then show "dec_value (take 3 (F @ [48, 48])) = n" using v by simp
qed

lemma duration_total_part:
  assumes "\<forall>c \<in> set d. is_digit c" and "d \<noteq> [] \<Longrightarrow> int (dec_value d) = n" and "d = [] \<Longrightarrow> n = 0" and "0 < unit"
    and "n * unit \<le> maxInt" and "duration_total parts off = Inr t"
  shows "duration_total ((d, unit) # parts) off = Inr (n * unit + t)"
proof (cases "d = []")
  case False
  have "0 \<le> n" using assms(2) False by auto
  have "n \<le> maxInt div unit" using assms(4) zdiv_mono1 [OF assms(5,4)] by simp
  moreover have "n \<le> maxInt"
  proof -
    have "n * 1 \<le> n * unit" using assms(4) \<open>0 \<le> n\<close> by (intro mult_left_mono) simp_all
    then show ?thesis using assms(5) by simp
  qed
  ultimately show ?thesis using False assms(2,6) read_digits_value [OF assms(1)] by simp
qed (use assms(3,6) in simp)

lemma formatDuration_parts:
  assumes "in_range ms"
  obtains h m s f where "formatDuration ms = duration_text (ms < 0) h m s f" "parts_ok h m s f"
    "duration_total [(h, 3600000), (m, 60000), (s, 1000)] off = Inr (\<bar>ms\<bar> - \<bar>ms\<bar> mod 1000)"
    "f = [] \<longleftrightarrow> \<bar>ms\<bar> mod 1000 = 0" "f \<noteq> [] \<longrightarrow> num (take 3 (f @ [48, 48])) = \<bar>ms\<bar> mod 1000"
proof -
  define A H M S F where "A = \<bar>ms\<bar>" and "H = A div 3600000" and "M = A mod 3600000 div 60000" and "S = A mod 60000" and "F = S mod 1000"
  define h m s f where "h = (if 0 < H then FormatInt H else [])" and "m = (if 0 < M then FormatInt M else [])"
    and "s = (if 0 < S \<or> H = 0 \<and> M = 0 then FormatInt (S div 1000) else [])"
    and "f = (if 0 < F then rev (dropWhile (\<lambda>c. c = 48) (rev (pad F 3))) else [])"
  have A: "0 \<le> A" "A \<le> maxInt" using assms by (auto simp: A_def in_range_def)
  have nn: "0 \<le> H" "0 \<le> M" "0 \<le> S" "0 \<le> S div 1000" "0 \<le> F" using A by (simp_all add: H_def M_def S_def F_def pos_imp_zdiv_nonneg_iff)
  have AF: "F = A mod 1000" by (simp add: F_def S_def mod_mod_cancel)
  have Q: "A mod 3600000 mod 60000 = S" by (simp add: S_def mod_mod_cancel)
  have sum: "H * 3600000 + (M * 60000 + (S div 1000 * 1000 + 0)) = A - A mod 1000"
    using mult_div_mod_eq [of 3600000 A] mult_div_mod_eq [of 60000 "A mod 3600000"] mult_div_mod_eq [of 1000 S] AF Q
    unfolding H_def [symmetric] M_def [symmetric] F_def [symmetric] Q by linarith
  have dig: "\<forall>c \<in> set (FormatInt n). is_digit c" "FormatInt n \<noteq> []" "int (dec_value (FormatInt n)) = n" if "0 \<le> n" for n
    using that digits_text [of "nat n"] dec_value_text [of "nat n"] by (simp_all add: FormatInt_def)
  have Fr: "0 < F \<Longrightarrow> f \<noteq> [] \<and> length f \<le> 3 \<and> (\<forall>c \<in> set f. is_digit c) \<and> num (take 3 (f @ [48, 48])) = F"
  proof -
    assume F: "0 < F"
    have "F < 1000" by (simp add: F_def)
    then have "0 < nat F" "nat F < 1000" using F by simp_all
    moreover have "f = rev (dropWhile (\<lambda>c. c = 48) (rev (pad0 3 (nat F))))" using F by (simp add: f_def pad_nonneg)
    ultimately have "f \<noteq> []" "length f \<le> 3" "\<forall>c \<in> set f. is_digit c" "dec_value (take 3 (f @ [48, 48])) = nat F" by (rule frac_text)+
    then show ?thesis using F by (simp add: num_def)
  qed
  have f0: "f = [] \<longleftrightarrow> F = 0" using Fr nn(5) by (auto simp: f_def)
  have d: "\<forall>c \<in> set h. is_digit c" "\<forall>c \<in> set m. is_digit c" "\<forall>c \<in> set s. is_digit c"
    using dig(1) nn by (simp_all add: h_def m_def s_def)
  have sS: "s = [] \<Longrightarrow> S = 0" using dig(2) nn by (auto simp: s_def split: if_splits)
  then have "s = [] \<Longrightarrow> F = 0" by (simp add: F_def)
  then have ok: "parts_ok h m s f"
    using d Fr f0 nn dig(2) by (auto simp: parts_ok_def h_def m_def s_def)
  have t: "formatDuration ms = duration_text (ms < 0) h m s f"
    unfolding formatDuration_def Let_def A_def [symmetric] H_def [symmetric] M_def [symmetric] S_def [symmetric] F_def [symmetric]
    using dig(2) nn f0 by (simp add: duration_text_def unit_text_def seconds_text_def h_def m_def s_def) (simp add: f_def)
  have "0 \<le> A mod 1000" by simp
  then have b: "H * 3600000 \<le> maxInt" "M * 60000 \<le> maxInt" "S div 1000 * 1000 \<le> maxInt" using sum A nn by linarith+
  have vh: "h \<noteq> [] \<Longrightarrow> int (dec_value h) = H" "h = [] \<Longrightarrow> H = 0"
    using dig(2,3) [OF nn(1)] nn(1) unfolding h_def by (simp_all split: if_splits)
  have vm: "m \<noteq> [] \<Longrightarrow> int (dec_value m) = M" "m = [] \<Longrightarrow> M = 0"
    using dig(2,3) [OF nn(2)] nn(2) unfolding m_def by (simp_all split: if_splits)
  have vs: "s \<noteq> [] \<Longrightarrow> int (dec_value s) = S div 1000" "s = [] \<Longrightarrow> S div 1000 = 0"
  proof -
    assume "s \<noteq> []"
    then have "s = FormatInt (S div 1000)" unfolding s_def by (simp split: if_splits)
    then show "int (dec_value s) = S div 1000" by (simp only: dig(3) [OF nn(4)])
  next
    assume "s = []"
    then show "S div 1000 = 0" by (simp only: sS div_0)
  qed
  have "duration_total [] off = Inr 0" by simp
  from duration_total_part [OF d(3) vs _ b(3) this]
  have "duration_total [(s, 1000)] off = Inr (S div 1000 * 1000 + 0)" by simp
  from duration_total_part [OF d(2) vm _ b(2) this]
  have "duration_total [(m, 60000), (s, 1000)] off = Inr (M * 60000 + (S div 1000 * 1000 + 0))" by simp
  from duration_total_part [OF d(1) vh _ b(1) this]
  have "duration_total [(h, 3600000), (m, 60000), (s, 1000)] off = Inr (A - A mod 1000)" unfolding sum by simp
  then show thesis
  proof (rule that [OF t ok, unfolded A_def [symmetric]])
    show "f = [] \<longleftrightarrow> A mod 1000 = 0" using f0 by (simp only: AF)
    show "f \<noteq> [] \<longrightarrow> num (take 3 (f @ [48, 48])) = A mod 1000" using Fr f0 nn(5) unfolding AF [symmetric] by (cases "F = 0") auto
  qed
qed

lemma bare_formatDuration:
  assumes "in_range ms"
  shows "bare (formatDuration ms) off = Inr (VDuration ms)"
proof -
  obtain h m s f where t: "formatDuration ms = duration_text (ms < 0) h m s f" and ok: "parts_ok h m s f"
    and v: "duration_total [(h, 3600000), (m, 60000), (s, 1000)] off = Inr (\<bar>ms\<bar> - \<bar>ms\<bar> mod 1000)"
    and f: "f = [] \<longleftrightarrow> \<bar>ms\<bar> mod 1000 = 0" "f \<noteq> [] \<longrightarrow> num (take 3 (f @ [48, 48])) = \<bar>ms\<bar> mod 1000"
    by (rule formatDuration_parts [OF assms, where off = off])
  let ?t = "formatDuration ms"
  have dg: "\<forall>c \<in> set h. is_digit c" "\<forall>c \<in> set m. is_digit c" "\<forall>c \<in> set s. is_digit c" "\<forall>c \<in> set f. is_digit c"
    using ok by (auto simp: parts_ok_def)
  have no: "c \<notin> set ?t" if "c \<in> {58, 88, 120}" for c
    using digit_run_chars [OF dg(1), of c] digit_run_chars [OF dg(2), of c] digit_run_chars [OF dg(3), of c] digit_run_chars [OF dg(4), of c] that
    unfolding t duration_text_def unit_text_def seconds_text_def by auto
  have u: "\<exists>c \<in> set ?t. \<not> is_digit c \<and> c \<noteq> 45"
  proof -
    have "\<not> is_digit 104" "\<not> is_digit 109" "\<not> is_digit 115" by (simp_all add: is_digit_def)
    then show ?thesis using ok by (auto simp: t duration_text_def unit_text_def seconds_text_def parts_ok_def)
  qed
  have "number_start ?t"
    using number_start_sign [OF duration_text_first [OF ok], of "ms < 0" "[]"] by (simp add: t duration_text_def)
  then have "bare ?t off = bare_number ?t off" using no u by (intro bare_numeric) auto
  moreover have "duration_match ?t = Some (if ms < 0 then [45] else [], h, m, s, f)" using duration_text_match [OF ok] by (simp add: t)
  moreover have "duration (if ms < 0 then [45] else [], h, m, s, f) off = Inr (VDuration ms)"
    using v f assms by (auto simp: duration_def in_range_def)
  ultimately show ?thesis by (simp add: bare_number_def)
qed

section \<open>Bytes and keywords\<close>

lemma isHex_value: "isHex c \<longleftrightarrow> hex_value c \<noteq> None"
  by (auto simp: isHex_def is_digit_def hex_value_def Let_def word_le_nat_alt)

lemma hex_encoded: "list_all isHex (hex_EncodeToString b)"
  by (induction b) (simp_all add: isHex_value hex_value_digit div_less_iff_less_mult less_mult_imp_div_less unsigned_less [where 'a = nat and 'b = 8, simplified])

lemma bare_bytes: "bare (format_val (VBytes b)) off = Inr (VBytes b)"
proof -
  have "matchBytes (chars ''0x'' @ hex_EncodeToString b) = Some (hex_EncodeToString b)"
    using hex_encoded [of b] by (simp add: matchBytes_def length_hex)
  then show ?thesis by (simp add: bare_def hex_decode_encode)
qed

end
