(* ===== verification/RowTextProps.thy ===== *)
theory RowTextProps
  imports RowTextItems
begin

text \<open>
  The text notation of \<open>row\<close> is read back: what \<open>Format\<close> writes \<open>Parse\<close> reads, and what \<open>Parse\<close> accepts is what
  \<open>Format\<close> writes of the items it returned.
\<close>

section \<open>What an item enforces\<close>

text \<open>\<open>ok_val\<close> without the bounds on lengths, which the text form does not need.\<close>

fun text_ok_scalar :: "val \<Rightarrow> bool" where
  "text_ok_scalar (VString s) \<longleftrightarrow> utf8_text s"
| "text_ok_scalar (VInt n) \<longleftrightarrow> in_range n"
| "text_ok_scalar (VDecimal n s) \<longleftrightarrow> in_range n \<and> int s \<le> maxScale"
| "text_ok_scalar (VFloat f) \<longleftrightarrow> check_float f"
| "text_ok_scalar (VDate n) \<longleftrightarrow> minDay \<le> n \<and> n \<le> maxDay"
| "text_ok_scalar (VDatetime n) \<longleftrightarrow> minDatetime \<le> n \<and> n \<le> maxDatetime"
| "text_ok_scalar (VTime n) \<longleftrightarrow> 0 \<le> n \<and> n \<le> maxTime"
| "text_ok_scalar (VDuration n) \<longleftrightarrow> in_range n"
| "text_ok_scalar (VList l) \<longleftrightarrow> False"
| "text_ok_scalar _ \<longleftrightarrow> True"

fun text_ok :: "val \<Rightarrow> bool" where
  "text_ok (VList l) \<longleftrightarrow> (\<forall>v \<in> set l. text_ok_scalar v)"
| "text_ok v \<longleftrightarrow> text_ok_scalar v"

lemma ok_scalar_text: "ok_scalar v \<Longrightarrow> text_ok_scalar v"
  by (cases v) (simp_all add: utf8_valid_text)

lemma ok_val_text: "ok_val v \<Longrightarrow> text_ok v"
  by (cases v) (auto simp: ok_scalar_text utf8_valid_text)

lemma text_ok_scalar_from_go: "text_ok_scalar v \<Longrightarrow> from_go (to_go v) inList off = Inr v"
proof (cases v)
  case (VDatetime n)
  assume "text_ok_scalar v"
  then show ?thesis using from_go_to_go_scalar [of "VDatetime n"] VDatetime by simp
qed (auto simp: int_val_def utf8_valid_text)

lemma text_ok_from_go: "text_ok v \<Longrightarrow> from_go (to_go v) False off = Inr v"
proof (cases v)
  case (VList l)
  assume "text_ok v"
  then have "from_go_list (map to_go l) off = Inr l"
    by (intro from_go_listI) (auto simp: VList list.rel_map text_ok_scalar_from_go intro!: list.rel_refl_strong)
  then show ?thesis using VList by simp
qed (auto simp: text_ok_scalar_from_go simp del: to_go.simps)

section \<open>Written and read\<close>

definition is_string :: "val \<Rightarrow> bool" where
  "is_string v = (case v of VString s \<Rightarrow> True | _ \<Rightarrow> False)"

lemma bare_format: "text_ok_scalar v \<Longrightarrow> \<not> is_string v \<Longrightarrow> bare (format_val v) off = Inr v"
  by (cases v)
    (simp_all add: is_string_def bare_FormatInt bare_formatDecimal bare_formatFloat bare_formatDate bare_formatTime bare_formatDuration
      bare_datetime_text [simplified] bare_bytes [simplified], simp_all add: bare_def)

definition plain_byte :: "byte \<Rightarrow> bool" where
  "plain_byte c \<longleftrightarrow> c < 0x80 \<and> \<not> ends_bare c"

lemma plain_digit: "is_digit c \<Longrightarrow> plain_byte c"
  by (auto simp: plain_byte_def ends_bare_def is_digit_def word_le_nat_alt word_less_nat_alt)

lemma plain_hex: "list_all plain_byte (hex_EncodeToString b)"
proof -
  have "plain_byte c" if "isHex c" for c
    using that by (auto simp: plain_byte_def ends_bare_def isHex_def is_digit_def word_le_nat_alt word_less_nat_alt)
  then show ?thesis using hex_encoded [of b] by (auto simp: list_all_iff)
qed

lemma plain_marks: "plain_byte 45" "plain_byte 46" "plain_byte 58" "plain_byte 84" "plain_byte 90" "plain_byte 101" "plain_byte 104" "plain_byte 109" "plain_byte 115"
  by (simp_all add: plain_byte_def ends_bare_def)

lemma plain_digits: "\<forall>c \<in> set d. is_digit c \<Longrightarrow> list_all plain_byte d"
  by (simp add: list_all_iff plain_digit)

lemma plain_Int: "list_all plain_byte (FormatInt n)"
proof -
  obtain ds where "FormatInt n = (if n < 0 then [45] else []) @ ds" "\<forall>c \<in> set ds. is_digit c" by (rule FormatInt_parts)
  then show ?thesis by (simp add: plain_marks plain_digits)
qed

lemma plain_date: "minDay \<le> n \<Longrightarrow> n \<le> maxDay \<Longrightarrow> list_all plain_byte (formatDate n)"
  by (rule formatDate_parts [of n]) (auto simp: plain_marks pad0_digits two_digits_def intro!: plain_digits)

lemma plain_time: "0 \<le> n \<Longrightarrow> n \<le> maxTime \<Longrightarrow> list_all plain_byte (formatTime n)"
  by (rule formatTime_parts [of n]) (auto simp: plain_marks two_digits_def intro!: plain_digits)

lemma format_plain: "text_ok_scalar v \<Longrightarrow> \<not> is_string v \<Longrightarrow> list_all plain_byte (format_val v)"
proof (cases v)
  case (VDecimal n s)
  then show ?thesis by (cases rule: formatDecimal_parts [of n s]) (auto simp: plain_marks intro!: plain_digits)
next
  case (VFloat f)
  assume "text_ok_scalar v"
  then have "check_float f" using VFloat by simp
  then show ?thesis using VFloat by (cases rule: formatFloat_parts [of f]) (auto simp: plain_marks plain_Int float_text_def intro!: plain_digits)
next
  case (VDatetime n)
  assume "text_ok_scalar v"
  then have n: "minDatetime \<le> n" "n \<le> maxDatetime" using VDatetime by simp_all
  define day ms where "day = n div 86400000" and "ms = n mod 86400000"
  have "n = day * 86400000 + ms" by (simp add: day_def ms_def)
  moreover have ms: "0 \<le> ms" "ms \<le> maxTime" using pos_mod_bound [of 86400000 n] by (simp_all add: ms_def)
  ultimately have "minDay \<le> day" "day \<le> maxDay" using n by linarith+
  then show ?thesis using VDatetime plain_date plain_time [OF ms] by (simp add: floorDiv_pos day_def [symmetric] ms_def [symmetric] plain_marks)
next
  case (VDuration n)
  assume "text_ok_scalar v"
  then have "in_range n" using VDuration by simp
  then obtain h m s f where "formatDuration n = duration_text (n < 0) h m s f" "parts_ok h m s f" using formatDuration_parts [of n] by metis
  then show ?thesis using VDuration
    by (auto simp: plain_marks duration_text_def unit_text_def seconds_text_def parts_ok_def intro!: plain_digits)
qed (auto simp: is_string_def plain_Int plain_date plain_time plain_hex plain_byte_def ends_bare_def)

lemma bare_empty: "bare [] off = Inl (TextError T001 off)"
  by (simp add: bare_def matchBytes_def matchShape_def bare_number_def duration_match_def matchDuration_def minus_sign_def duration_part_def
      duration_seconds_def isFloat_def matchDecimal_def matchInt_def)

lemma text_scalar_format:
  assumes ok: "text_ok_scalar v" and z: "z = [] \<or> ends_bare (hd z)"
  shows "\<exists>c r. format_val v = c # r \<and> c \<notin> {91, 93, 32, 9} \<and> text_scalar start c (r @ z) = Inr (v, z)"
proof (cases "is_string v")
  case True
  then obtain s where v: "v = VString s" by (auto simp: is_string_def split: val.splits)
  then have "text_scalar start 34 ((text_quote_body s @ [34]) @ z) = Inr (v, z)"
    using ok text_quote_read [of s start z] by (simp add: text_scalar_def text_str_def)
  then show ?thesis using v by (simp add: quote_def)
next
  case False
  note b = bare_format [OF ok False, of start] and p = format_plain [OF ok False]
  obtain c r where f: "format_val v = c # r" using b bare_empty [of start] by (cases "format_val v") auto
  have "takeWhile (\<lambda>c. \<not> ends_bare c) (format_val v @ z) = format_val v"
    using p z by (cases z) (auto simp: takeWhile_append list_all_iff plain_byte_def takeWhile_eq_all_conv)
  then have "takeWhile (\<lambda>c. \<not> ends_bare c) (c # r @ z) = c # r" by (simp add: f)
  moreover have "\<not> ends_bare c" using p by (simp add: f plain_byte_def)
  moreover have "c \<noteq> 34" using calculation(2) by (auto simp: ends_bare_def)
  ultimately have "text_scalar start c (r @ z) = Inr (v, z)"
    using b by (simp add: text_scalar_def f Let_def)
  then show ?thesis using f \<open>\<not> ends_bare c\<close> by (auto simp: ends_bare_def)
qed

lemma text_scalar_head:
  assumes "text_ok_scalar v" and "z = [] \<or> ends_bare (hd z)"
  obtains c r where "format_val v = c # r" "c \<notin> {91, 93, 32, 9}" "\<forall>start. text_scalar start c (r @ z) = Inr (v, z)"
proof -
  obtain c r where f: "format_val v = c # r" "c \<notin> {91, 93, 32, 9}" using text_scalar_format [OF assms, of 0] by blast
  have "text_scalar start c (r @ z) = Inr (v, z)" for start using text_scalar_format [OF assms, of start] unfolding f(1) by blast
  then show thesis using that f by blast
qed

lemma space_Cons: "space (c # r) = (if isSpace c then space r else c # r)"
  by (simp add: space_def)

lemma space_Nil [simp]: "space [] = []"
  by (simp add: space_def)

lemma space_stays: "c \<notin> {91, 93, 32, 9} \<Longrightarrow> space (c # r) = c # r"
  by (simp add: space_Cons isSpace_def)

lemma ends_bare_marks: "ends_bare 44" "ends_bare 93" "ends_bare 32" "\<not> isSpace 44" "\<not> isSpace 93" "isSpace 32"
  by (simp_all add: ends_bare_def isSpace_def)

lemma text_items_format:
  "l \<noteq> [] \<Longrightarrow> \<forall>v \<in> set l. text_ok_scalar v \<Longrightarrow> text_items n start (Join [44, 32] (map format_val l) @ 93 # z) = Inr (l, z)"
proof (induction l)
  case (Cons v l)
  have ok: "text_ok_scalar v" using Cons.prems by simp
  show ?case
  proof (cases "l = []")
    case True
    obtain c r where f: "format_val v = c # r" "c \<notin> {91, 93, 32, 9}"
      and s: "\<forall>st. text_scalar st c (r @ 93 # z) = Inr (v, 93 # z)"
      using text_scalar_head [OF ok, of "93 # z"] ends_bare_marks by auto
    then show ?thesis using True ends_bare_marks by (simp add: space_Cons)
  next
    case False
    let ?z = "44 # 32 # Join [44, 32] (map format_val l) @ 93 # z"
    obtain c r where f: "format_val v = c # r" "c \<notin> {91, 93, 32, 9}"
      and s: "\<forall>st. text_scalar st c (r @ ?z) = Inr (v, ?z)"
      by (rule text_scalar_head [OF ok, of ?z]) (simp_all add: ends_bare_marks)
    obtain w l' where l: "l = w # l'" using False by (cases l) auto
    obtain c' r' where "format_val w = c' # r'" "c' \<notin> {91, 93, 32, 9}"
      using text_scalar_format [of w "[]" 0] Cons.prems by (auto simp: l)
    then have "space (Join [44, 32] (map format_val l) @ 93 # z) = Join [44, 32] (map format_val l) @ 93 # z"
      using space_stays by (cases l') (simp_all add: l)
    then have sp: "space (32 # Join [44, 32] (map format_val l) @ 93 # z) = Join [44, 32] (map format_val l) @ 93 # z"
      using ends_bare_marks by (simp add: space_Cons)
    have j: "Join [44, 32] (map format_val (v # l)) @ 93 # z = c # r @ ?z" using False by (simp add: Join_Cons f(1))
    have "text_items n start (Join [44, 32] (map format_val l) @ 93 # z) = Inr (l, z)" using Cons False by simp
    then show ?thesis unfolding j using f(2) s sp ends_bare_marks by (simp add: space_Cons [of 44])
  qed
qed simp

lemma text_item_format:
  assumes "text_ok v" and "z = [] \<or> hd z = 32"
  shows "\<exists>c r. format_val v = c # r \<and> \<not> isSpace c \<and> text_item n c (r @ z) = Inr (v, z)"
proof (cases "\<exists>l. v = VList l")
  case True
  then obtain l where v: "v = VList l" by blast
  have l: "\<forall>v \<in> set l. text_ok_scalar v" using assms(1) v by simp
  have "text_list n st ((Join [44, 32] (map format_val l) @ [93]) @ z) = Inr (v, z)" for st
  proof (cases l)
    case Nil
    then show ?thesis using ends_bare_marks by (simp add: text_list_def space_Cons v)
  next
    case (Cons w l')
    obtain c r where f: "format_val w = c # r" "c \<notin> {91, 93, 32, 9}"
      using text_scalar_format [of w "[]" 0] l by (auto simp: Cons)
    then obtain r' where j: "(Join [44, 32] (map format_val l) @ [93]) @ z = c # r'" by (cases l') (simp_all add: Cons)
    have "text_items n st ((Join [44, 32] (map format_val l) @ [93]) @ z) = Inr (l, z)"
      using text_items_format [OF _ l, of n st z] Cons by simp
    then show ?thesis unfolding text_list_def j space_stays [OF f(2)] Let_def using f(2) by (simp add: v)
  qed
  then show ?thesis by (simp add: v text_item_def isSpace_def Let_def)
next
  case False
  then have "text_ok_scalar v" using assms(1) by (cases v) auto
  moreover have "z = [] \<or> ends_bare (hd z)" using assms(2) ends_bare_marks by auto
  ultimately obtain c r where "format_val v = c # r" "c \<notin> {91, 93, 32, 9}" "\<forall>start. text_scalar start c (r @ z) = Inr (v, z)"
    by (rule text_scalar_head)
  then show ?thesis by (auto simp: text_item_def Let_def isSpace_def)
qed

lemma text_vals_space: "space a = space b \<Longrightarrow> text_vals n a = text_vals n b"
  by (simp add: text_vals.simps [of n a] text_vals.simps [of n b])

lemma text_vals_format: "\<forall>v \<in> set vs. text_ok v \<Longrightarrow> text_vals n (formatVals vs) = Inr vs"
proof (induction vs)
  case Nil
  then show ?case by (simp add: formatVals_def text_vals.simps)
next
  case (Cons v vs)
  define z where "z = (if vs = [] then [] else 32 # formatVals vs)"
  have f: "formatVals (v # vs) = format_val v @ z" by (simp add: formatVals_def z_def Join_Cons)
  have "z = [] \<or> hd z = 32" by (simp add: z_def)
  then obtain c r where c: "format_val v = c # r" "\<not> isSpace c" "text_item n c (r @ z) = Inr (v, z)"
    using text_item_format [of v z n] Cons.prems by auto
  have "text_vals n z = Inr vs"
  proof (cases "vs = []")
    case True
    then show ?thesis by (simp add: z_def text_vals.simps)
  next
    case False
    then show ?thesis using Cons text_vals_space [of z "formatVals vs" n] ends_bare_marks by (simp add: z_def space_Cons)
  qed
  moreover have "z = [] \<or> isSpace (hd z)" by (simp add: z_def isSpace_def)
  ultimately show ?case using c by (auto simp: f text_vals.simps [of n "c # r @ z"] space_Cons)
qed

lemma utf8_plain: "list_all plain_byte a \<Longrightarrow> utf8_text a"
  by (rule utf8_text_ascii_all) (auto simp: list_all_iff plain_byte_def)

lemma utf8_scalar: "text_ok_scalar v \<Longrightarrow> utf8_text (format_val v)"
proof (cases "is_string v")
  case True
  assume "text_ok_scalar v"
  moreover obtain s where "v = VString s" using True by (auto simp: is_string_def split: val.splits)
  ultimately show ?thesis using text_quote_utf8 [of s] utf8_text_append [of "text_quote_body s" "[34]"] by (simp add: quote_def utf8_text_ascii)
qed (use utf8_plain format_plain in blast)

lemma utf8_Join: "utf8_text sep \<Longrightarrow> \<forall>w \<in> set ws. utf8_text w \<Longrightarrow> utf8_text (Join sep ws)"
  by (induction sep ws rule: Join.induct) (simp_all add: utf8_text_append)

lemma utf8_format: "text_ok v \<Longrightarrow> utf8_text (format_val v)"
proof (cases "\<exists>l. v = VList l")
  case True
  assume "text_ok v"
  then obtain l where v: "v = VList l" "\<forall>v \<in> set l. text_ok_scalar v" using True by auto
  have "utf8_text (Join [44, 32] (map format_val l))" using v(2) utf8_scalar by (intro utf8_Join) (auto simp: utf8_text_ascii)
  then show ?thesis by (simp add: v(1) utf8_text_ascii utf8_text_append)
next
  case False
  assume "text_ok v"
  then have "text_ok_scalar v" using False by (cases v) auto
  then show ?thesis by (rule utf8_scalar)
qed

lemma parseVals_format: "\<forall>v \<in> set vs. text_ok v \<Longrightarrow> parseVals (formatVals vs) = Inr vs"
proof -
  assume ok: "\<forall>v \<in> set vs. text_ok v"
  have "utf8_text (formatVals vs)" unfolding formatVals_def using ok utf8_format by (intro utf8_Join) (auto simp: utf8_text_ascii)
  then show ?thesis using text_vals_format [OF ok] by (simp add: parseVals_def utf8_valid_text Let_def)
qed

section \<open>What is read is in its type\<close>

lemma val10_bound: "\<forall>d \<in> set ds. d < 10 \<Longrightarrow> val10 ds < 10 ^ length ds"
  by (induction ds rule: rev_induct) (auto simp: val10_snoc val10_def)

lemma num_bound: "\<forall>c \<in> set s. is_digit c \<Longrightarrow> 0 \<le> num s \<and> num s < 10 ^ length s"
proof -
  assume s: "\<forall>c \<in> set s. is_digit c"
  have "\<forall>d \<in> set (map (\<lambda>c. unat c - 48) s). d < 10" using s by (auto simp: is_digit_def word_le_nat_alt)
  from val10_bound [OF this] have "dec_value s < 10 ^ length s" by (simp add: dec_value_def)
  then have "int (dec_value s) < int (10 ^ length s)" by (simp only: of_nat_less_iff)
  then show ?thesis by (simp add: num_def)
qed

lemma civil_sound: "civil y m d off = Inr day \<Longrightarrow> minDay \<le> day \<and> day \<le> maxDay"
  using valid_civil_days [of "num y" "num m" "num d"] by (auto simp: civil_def split: if_splits)

lemma clock_sound: "clock h m s f off = Inr ms \<Longrightarrow> 0 \<le> num f \<Longrightarrow> num f < 1000 \<Longrightarrow> 0 \<le> ms \<and> ms \<le> maxTime"
  by (auto simp: clock_def num_def split: if_splits)

text \<open>Three digits end the groups of a time.\<close>

lemma shape_three:
  assumes "shape_loop t (replicate 3 100 @ s) None = Some m" and "s = [] \<or> hd s \<noteq> 100"
  shows "\<exists>f. hd m = f \<and> m \<noteq> [] \<and> length f = 3 \<and> (\<forall>c \<in> set f. is_digit c)"
proof -
  obtain a t1 where a: "t = a # t1" "is_digit a" "shape_loop t1 (replicate 2 100 @ s) (Some [a]) = Some m"
    using assms(1) by (cases t) (auto simp: numeral_3_eq_3 numeral_2_eq_2 split: if_splits)
  obtain b t2 where b: "t1 = b # t2" "is_digit b" "shape_loop t2 (replicate 1 100 @ s) (Some [a, b]) = Some m"
    using a(3) by (cases t1) (auto simp: numeral_2_eq_2 split: if_splits)
  obtain c t3 where c: "t2 = c # t3" "is_digit c" "shape_loop t3 s (Some [a, b, c]) = Some m"
    using b(3) by (cases t2) (auto split: if_splits)
  have "m \<noteq> [] \<and> hd m = [a, b, c]" using c(3) assms(2) by (cases t3; cases s) (auto split: if_splits)
  then show ?thesis using a b c by simp
qed

lemma shape_group:
  "shape_loop t (replicate k 100 @ p # s) ds = Some m \<Longrightarrow> p \<noteq> 100 \<Longrightarrow> 0 < k \<or> ds \<noteq> None \<Longrightarrow>
    \<exists>d g t'. m = d # g \<and> shape_loop t' s None = Some g"
proof (induction k arbitrary: t ds)
  case 0
  then show ?case by (cases t) (auto split: if_splits)
next
  case (Suc k)
  then obtain c t' where "t = c # t'" by (cases t) auto
  then show ?case using Suc.prems Suc.IH [of t'] by (auto split: if_splits)
qed

lemma shape_times: "shape_loop t (chars shapeTime @ s) None = Some m \<Longrightarrow> s = [] \<or> hd s \<noteq> 100 \<Longrightarrow>
    length (m ! 3) = 3 \<and> (\<forall>c \<in> set (m ! 3). is_digit c)"
proof -
  assume m: "shape_loop t (chars shapeTime @ s) None = Some m" and s: "s = [] \<or> hd s \<noteq> 100"
  have e: "chars shapeTime @ s = replicate 2 100 @ 58 # replicate 2 100 @ 58 # replicate 2 100 @ 46 # replicate 3 100 @ s"
    by (simp add: eval_nat_numeral)
  obtain h g1 t1 where 1: "m = h # g1" "shape_loop t1 (replicate 2 100 @ 58 # replicate 2 100 @ 46 # replicate 3 100 @ s) None = Some g1"
    using shape_group [OF m [unfolded e]] by auto
  obtain mi g2 t2 where 2: "g1 = mi # g2" "shape_loop t2 (replicate 2 100 @ 46 # replicate 3 100 @ s) None = Some g2"
    using shape_group [OF 1(2)] by auto
  obtain se g3 t3 where 3: "g2 = se # g3" "shape_loop t3 (replicate 3 100 @ s) None = Some g3"
    using shape_group [OF 2(2)] by auto
  obtain f where "hd g3 = f" "g3 \<noteq> []" "length f = 3" "\<forall>c \<in> set f. is_digit c" using shape_three [OF 3(2) s] by blast
  then show ?thesis using 1 2 3 by (cases g3) (auto simp: eval_nat_numeral)
qed

lemma time_group: "matchShape t shapeTime = Some m \<Longrightarrow> 0 \<le> num (m ! 3) \<and> num (m ! 3) < 1000"
  using shape_times [of t "[]" m] num_bound [of "m ! 3"] by (auto simp: matchShape_def split: if_splits)

lemma datetime_group: "matchShape t shapeDatetime = Some m \<Longrightarrow> 0 \<le> num (m ! 6) \<and> num (m ! 6) < 1000"
proof -
  assume "matchShape t shapeDatetime = Some m"
  then have m: "shape_loop t (chars shapeDatetime) None = Some m" by (auto simp: matchShape_def simp del: list.map split: if_splits)
  have e: "chars shapeDatetime = replicate 4 100 @ 45 # replicate 2 100 @ 45 # replicate 2 100 @ 84 # chars shapeTime @ [90]"
    by (simp add: eval_nat_numeral)
  obtain y g1 t1 where 1: "m = y # g1" "shape_loop t1 (replicate 2 100 @ 45 # replicate 2 100 @ 84 # chars shapeTime @ [90]) None = Some g1"
    using shape_group [OF m [unfolded e]] by auto
  obtain mo g2 t2 where 2: "g1 = mo # g2" "shape_loop t2 (replicate 2 100 @ 84 # chars shapeTime @ [90]) None = Some g2"
    using shape_group [OF 1(2)] by auto
  obtain d g3 t3 where 3: "g2 = d # g3" "shape_loop t3 (chars shapeTime @ [90]) None = Some g3"
    using shape_group [OF 2(2)] by auto
  have "length (g3 ! 3) = 3 \<and> (\<forall>c \<in> set (g3 ! 3). is_digit c)" using shape_times [OF 3(2)] by simp
  moreover have "m ! 6 = g3 ! 3" using 1 2 3 by (simp add: eval_nat_numeral)
  ultimately show ?thesis using num_bound [of "m ! 6"] by simp
qed

lemma read_digits_range: "read_digits s off = Inr n \<Longrightarrow> 0 \<le> n \<and> n \<le> maxInt"
  by (auto simp: read_digits_def Let_def split: if_splits)

lemma duration_total_nonneg: "duration_total parts off = Inr t \<Longrightarrow> \<forall>p \<in> set parts. 0 \<le> snd p \<Longrightarrow> 0 \<le> t"
proof (induction parts off arbitrary: t rule: duration_total.induct)
  case (2 m u parts off)
  show ?case
  proof (cases "m = []")
    case False
    then obtain n t' where "read_digits m off = Inr n" "\<not> maxInt div u < n" "duration_total parts off = Inr t'" "t = n * u + t'"
      using "2.prems"(1) by (auto split: sum.splits if_splits)
    moreover have "0 \<le> n" using read_digits_range calculation(1) by blast
    ultimately show ?thesis using "2.IH"(2) [OF False] "2.prems"(2) by simp
  qed (use 2 in simp)
qed simp

lemma duration_sound: "duration parts off = Inr v \<Longrightarrow> \<exists>n. v = VDuration n \<and> in_range n"
proof -
  assume v: "duration parts off = Inr v"
  obtain sg h m s frac where p: "parts = (sg, h, m, s, frac)" by (metis prod_cases5)
  obtain t where t: "duration_total [(h, 3600000), (m, 60000), (s, 1000)] off = Inr t" using v by (auto simp: duration_def p split: sum.splits)
  define u where "u = (if frac \<noteq> [] then t + num (take 3 (frac @ [48, 48])) else t)"
  have "0 \<le> t" using duration_total_nonneg [OF t] by simp
  then have "0 \<le> u" by (simp add: u_def num_def)
  moreover have "\<not> maxInt < u" "v = VDuration (if sg = [45] then - u else u)"
    using v unfolding duration_def p prod.case t sum.case Let_def u_def [symmetric] by (simp_all split: if_splits)
  ultimately show ?thesis by (auto simp: in_range_def)
qed

lemma bare_sound: "bare t off = Inr v \<Longrightarrow> text_ok_scalar v \<and> \<not> is_string v"
proof -
  assume b: "bare t off = Inr v"
  have shape: "\<exists>x. r = Inr x \<and> v = mk x" if "bare_shape mk r = Inr v" for mk and r :: "text_error + int"
    using that by (auto simp: bare_shape_def split: sum.splits)
  have number: "text_ok_scalar v \<and> \<not> is_string v" if n: "bare_number t off = Inr v"
  proof -
    consider m where "duration m off = Inr v" | "bare_float t off = Inr v" | m where "bare_decimal m off = Inr v" | m where "bare_int m off = Inr v"
      using n by (auto simp: bare_number_def split: option.splits if_splits)
    then show ?thesis
    proof cases
      case 1
      then obtain n where "v = VDuration n" "in_range n" using duration_sound by blast
      then show ?thesis by (simp add: is_string_def)
    next
      case 3
      then show ?thesis using read_digits_range by (force simp: bare_decimal_def is_string_def in_range_def split: prod.splits sum.splits if_splits)
    next
      case 4
      then show ?thesis using read_digits_range by (force simp: bare_int_def is_string_def in_range_def split: prod.splits sum.splits if_splits)
    qed (auto simp: bare_float_def Let_def is_string_def split: if_splits)
  qed
  consider "v \<in> {VNone, VFalse, VTrue}" | h where "v = VBytes h" | m where "matchShape t shapeDatetime = Some m" "bare_datetime m off = Inr v"
    | m where "matchShape t shapeDate = Some m" "bare_shape VDate (civil (m ! 0) (m ! 1) (m ! 2) off) = Inr v"
    | m where "matchShape t shapeTime = Some m" "bare_shape VTime (clock (m ! 0) (m ! 1) (m ! 2) (m ! 3) off) = Inr v"
    | "bare_number t off = Inr v"
    using b unfolding bare_def by (auto split: option.splits if_splits)
  then show ?thesis
  proof cases
    case 3
    then obtain day ms where d: "civil (m ! 0) (m ! 1) (m ! 2) off = Inr day" "clock (m ! 3) (m ! 4) (m ! 5) (m ! 6) off = Inr ms"
      "v = VDatetime (day * 86400000 + ms)"
      by (auto simp: bare_datetime_def bare_shape_def split: sum.splits)
    then show ?thesis using civil_sound [OF d(1)] clock_sound [OF d(2)] datetime_group [OF 3(1)] by (simp add: is_string_def)
  next
    case 4
    then show ?thesis using shape civil_sound by (fastforce simp: is_string_def)
  next
    case 5
    then show ?thesis using shape clock_sound time_group [OF 5(1)] by (fastforce simp: is_string_def)
  next
    case 6
    then show ?thesis by (rule number)
  qed (auto simp: is_string_def)
qed

lemma ends_bare_ascii: "ends_bare c \<Longrightarrow> c < 0x80"
  by (auto simp: ends_bare_def)

lemma text_scalar_sound:
  assumes "text_scalar start c cs = Inr (v, rest)" and "utf8_text (c # cs)"
  shows "text_ok_scalar v \<and> utf8_text rest"
proof (cases "c = 34")
  case True
  then obtain s where s: "read_str_text start cs = Inr (s, rest)" "v = VString s"
    using assms(1) by (auto simp: text_scalar_def text_str_def split: sum.splits)
  have "utf8_text cs" using assms(2) True by (simp add: utf8_text_ascii)
  then show ?thesis using read_str_utf8 [OF s(1)] s(2) by simp
next
  case False
  define t where "t = takeWhile (\<lambda>c. \<not> ends_bare c) (c # cs)"
  have r: "rest = drop (length t) (c # cs)" "bare t start = Inr v"
    using assms(1) False unfolding text_scalar_def Let_def t_def [symmetric] by (auto split: if_splits sum.splits)
  have d: "rest = dropWhile (\<lambda>c. \<not> ends_bare c) (c # cs)" unfolding r(1) t_def by (rule dropWhile_eq_drop [symmetric])
  have "utf8_text rest"
  proof (cases rest)
    case (Cons x z)
    then have x: "ends_bare x" using hd_dropWhile [of "\<lambda>c. \<not> ends_bare c" "c # cs"] d by simp
    have "t @ x # z = c # cs" using takeWhile_dropWhile_id [of "\<lambda>c. \<not> ends_bare c" "c # cs"] unfolding t_def d [symmetric] Cons .
    then have "utf8_text z" using utf8_text_split [of t x z] assms(2) ends_bare_ascii [OF x] by simp
    then show ?thesis using ends_bare_ascii [OF x] by (simp add: Cons utf8_text_ascii)
  qed simp
  then show ?thesis using bare_sound [OF r(2)] by simp
qed

lemma space_utf8: "utf8_text cs \<Longrightarrow> utf8_text (space cs)"
proof (induction cs)
  case (Cons c cs)
  then show ?case by (auto simp: space_Cons isSpace_def utf8_text_ascii)
qed simp

lemma text_items_sound: "text_items n start cs = Inr (l, rest) \<Longrightarrow> utf8_text cs \<Longrightarrow> (\<forall>v \<in> set l. text_ok_scalar v) \<and> utf8_text rest"
proof (induction n start cs arbitrary: l rule: text_items.induct)
  case (2 n start c cs)
  obtain v r where s: "c \<noteq> 91" "text_scalar (n - length (c # cs)) c cs = Inr (v, r)"
    using "2.prems" by (auto split: if_splits sum.splits)
  obtain d r2 where d: "space r = d # r2" using "2.prems" s by (auto split: list.splits)
  note v = text_scalar_sound [OF s(2) "2.prems"(2)]
  have u: "utf8_text (d # r2)" using space_utf8 [of r] v d by simp
  show ?case
  proof (cases "d = 44")
    case True
    then obtain vs where vs: "text_items n start (space r2) = Inr (vs, rest)" "l = v # vs" using "2.prems"(1) s d by (auto split: sum.splits)
    have "utf8_text (space r2)" using u True by (intro space_utf8) (simp add: utf8_text_ascii)
    then show ?thesis using "2.IH" [OF s(1) s(2) refl d True vs(1)] v vs(2) by simp
  next
    case False
    then have "d = 93" "l = [v]" "rest = r2" using "2.prems"(1) s d by (auto split: if_splits)
    then show ?thesis using u v by (simp add: utf8_text_ascii)
  qed
qed simp

lemma text_item_sound: "text_item n c cs = Inr (v, rest) \<Longrightarrow> utf8_text (c # cs) \<Longrightarrow> text_ok v \<and> utf8_text rest"
proof (cases "c = 91")
  case True
  assume i: "text_item n c cs = Inr (v, rest)" and "utf8_text (c # cs)"
  then have u: "utf8_text (space cs)" using True by (intro space_utf8) (simp add: utf8_text_ascii)
  show ?thesis
  proof (cases "HasPrefix (space cs) [93]")
    case p: True
    then obtain z where "space cs = 93 # z" by (cases "space cs") auto
    then show ?thesis using i True u p by (auto simp: text_item_def text_list_def Let_def utf8_text_ascii)
  next
    case False
    then obtain l where "text_items n (n - length (c # cs)) (space cs) = Inr (l, rest)" "v = VList l"
      using i True by (auto simp: text_item_def text_list_def Let_def split: sum.splits)
    then show ?thesis using text_items_sound u by simp
  qed
next
  case False
  assume "text_item n c cs = Inr (v, rest)" and "utf8_text (c # cs)"
  then have "text_ok_scalar v \<and> utf8_text rest" using text_scalar_sound False by (simp add: text_item_def Let_def)
  then show ?thesis by (cases v) auto
qed

lemma text_vals_sound: "text_vals n cs = Inr vs \<Longrightarrow> utf8_text cs \<Longrightarrow> \<forall>v \<in> set vs. text_ok v"
proof (induction n cs arbitrary: vs rule: text_vals.induct)
  case (1 n cs)
  show ?case
  proof (cases "space cs")
    case Nil
    then show ?thesis using "1.prems"(1) by (simp add: text_vals.simps)
  next
    case (Cons c r)
    obtain v rest where v: "text_item n c r = Inr (v, rest)" using "1.prems"(1) Cons by (auto simp: text_vals.simps [of n cs] split: sum.splits)
    have e: "\<not> (rest \<noteq> [] \<and> \<not> isSpace (hd rest))" using "1.prems"(1) Cons v by (auto simp: text_vals.simps [of n cs] split: if_splits)
    then obtain vs' where vs: "text_vals n rest = Inr vs'" "vs = v # vs'"
      using "1.prems"(1) Cons v by (auto simp: text_vals.simps [of n cs] split: sum.splits if_splits)
    have "text_ok v \<and> utf8_text rest" using text_item_sound [OF v] space_utf8 [OF "1.prems"(2)] Cons by simp
    then show ?thesis using "1.IH" [OF Cons v refl e vs(1)] vs(2) by simp
  qed
qed

lemma parseVals_sound: "parseVals line = Inr vs \<Longrightarrow> (\<forall>v \<in> set vs. text_ok v) \<and> formatVals vs = line"
  using text_vals_sound [of "length line" line vs]
  by (auto simp: parseVals_def utf8_valid_text Let_def split: if_splits sum.splits)

section \<open>Errors\<close>

definition text_err :: "nat \<Rightarrow> text_error \<Rightarrow> bool" where
  "text_err n e \<longleftrightarrow> (\<exists>c off. e = TextError c off \<and> off \<le> n \<and> c \<noteq> T002)"

lemma text_errI: "off \<le> n \<Longrightarrow> c \<noteq> T002 \<Longrightarrow> text_err n (TextError c off)"
  by (simp add: text_err_def)

lemma read_digits_err: "read_digits s off = Inl e \<Longrightarrow> off \<le> n \<Longrightarrow> text_err n e"
  by (auto simp: read_digits_def Let_def text_errI split: if_splits)

lemma duration_total_err: "duration_total parts off = Inl e \<Longrightarrow> off \<le> n \<Longrightarrow> text_err n e"
  by (induction parts off arbitrary: e rule: duration_total.induct) (auto simp: text_errI dest: read_digits_err split: if_splits sum.splits)

lemma bare_err: "bare t off = Inl e \<Longrightarrow> off \<le> n \<Longrightarrow> text_err n e"
proof -
  assume e: "bare t off = Inl e" and n: "off \<le> n"
  have shape: "r = Inl e" if "bare_shape mk r = Inl e" for mk and r :: "text_error + int"
    using that by (auto simp: bare_shape_def split: sum.splits)
  have civil: "text_err n e" if "civil y m d off = Inl e" for y m d using that n by (auto simp: civil_def text_errI split: if_splits)
  have clock: "text_err n e" if "clock h m s f off = Inl e" for h m s f using that n by (auto simp: clock_def text_errI split: if_splits)
  have number: "text_err n e" if nm: "bare_number t off = Inl e"
  proof (cases "duration_match t")
    case (Some m)
    then have "duration m off = Inl e" using nm by (simp add: bare_number_def)
    then show ?thesis using duration_total_err [OF _ n] n by (auto simp: duration_def Let_def text_errI simp del: duration_total.simps split: prod.splits sum.splits if_splits)
  next
    case d: None
    show ?thesis
    proof (cases "isFloat t")
      case True
      then have "bare_float t off = Inl e" using nm d by (simp add: bare_number_def)
      then show ?thesis using n by (auto simp: bare_float_def Let_def text_errI split: if_splits)
    next
      case f: False
      show ?thesis
      proof (cases "matchDecimal t")
        case (Some m)
        then have "bare_decimal m off = Inl e" using nm d f by (simp add: bare_number_def)
        then show ?thesis using read_digits_err [OF _ n] n by (auto simp: bare_decimal_def text_errI split: prod.splits sum.splits if_splits)
      next
        case m: None
        show ?thesis
        proof (cases "matchInt t")
          case None
          then show ?thesis using nm d f m n by (auto simp: bare_number_def text_errI)
        next
          case (Some i)
          then have "bare_int i off = Inl e" using nm d f m by (simp add: bare_number_def)
          then show ?thesis using read_digits_err [OF _ n] by (auto simp: bare_int_def split: prod.splits sum.splits)
        qed
      qed
    qed
  qed
  consider m where "bare_datetime m off = Inl e" | m where "bare_shape VDate (civil (m ! 0) (m ! 1) (m ! 2) off) = Inl e"
    | m where "bare_shape VTime (clock (m ! 0) (m ! 1) (m ! 2) (m ! 3) off) = Inl e" | "bare_number t off = Inl e"
    using e unfolding bare_def by (auto split: option.splits if_splits)
  then show ?thesis
  proof cases
    case 1
    then consider "civil (m ! 0) (m ! 1) (m ! 2) off = Inl e" | day where "bare_shape (\<lambda>ms. VDatetime (day * 86400000 + ms)) (clock (m ! 3) (m ! 4) (m ! 5) (m ! 6) off) = Inl e"
      by (auto simp: bare_datetime_def split: sum.splits)
    then show ?thesis using civil clock shape by cases blast+
  next
    case 2
    then show ?thesis using civil shape by blast
  next
    case 3
    then show ?thesis using clock shape by blast
  next
    case 4
    then show ?thesis by (rule number)
  qed
qed

lemma prepend_Inl: "prepend x r = Inl e \<longleftrightarrow> r = Inl e"
  by (simp add: prepend_def split: sum.split)

lemma read_unicode_err: "read_unicode start cs = Inl e \<Longrightarrow> start \<le> n \<Longrightarrow> text_err n e"
  by (auto simp: read_unicode_def text_errI split: option.splits if_splits)

lemma read_str_err: "read_str_text start cs = Inl e \<Longrightarrow> start \<le> n \<Longrightarrow> text_err n e"
proof (induction start cs rule: read_str_text.induct)
  case (2 start c cs)
  show ?case
  proof (cases "c = 34 \<or> c \<noteq> 92 \<or> cs = []")
    case True
    then show ?thesis using 2 by (auto simp: prepend_Inl text_errI split: if_splits)
  next
    case False
    then obtain e' r where cs: "cs = e' # r" by (cases cs) auto
    show ?thesis
    proof (cases "e' = 117")
      case True
      show ?thesis
      proof (cases "read_unicode start r")
        case (Inl x)
        then show ?thesis using 2 False True cs read_unicode_err by auto
      next
        case (Inr p)
        then obtain x r2 where "p = (x, r2)" by fastforce
        then show ?thesis using 2 False True cs Inr by (auto simp: prepend_Inl)
      qed
    next
      case u: False
      then show ?thesis using 2 False cs by (auto simp: prepend_Inl text_errI split: option.splits)
    qed
  qed
qed (auto simp: text_errI)

lemma text_scalar_err: "text_scalar start c cs = Inl e \<Longrightarrow> start \<le> n \<Longrightarrow> text_err n e"
  using read_str_err [of start cs e n] bare_err [of _ start e n]
  by (auto simp: text_scalar_def text_str_def Let_def text_errI split: if_splits sum.splits)

lemma text_items_err: "text_items n start cs = Inl e \<Longrightarrow> start \<le> n \<Longrightarrow> text_err n e"
proof (induction n start cs rule: text_items.induct)
  case (2 n start c cs)
  show ?case
  proof (cases "c = 91")
    case True
    then show ?thesis using "2.prems" by (auto simp: text_errI)
  next
    case c: False
    show ?thesis
    proof (cases "text_scalar (n - length (c # cs)) c cs")
      case (Inl x)
      then show ?thesis using "2.prems" c text_scalar_err [of "n - length (c # cs)" c cs e n] by simp
    next
      case (Inr p)
      obtain v r where p: "p = (v, r)" by fastforce
      show ?thesis
      proof (cases "space r")
        case Nil
        then show ?thesis using "2.prems" c Inr p by (auto simp: text_errI)
      next
        case (Cons d r2)
        show ?thesis
        proof (cases "d = 44")
          case True
          then have "text_items n start (space r2) = Inl e" using "2.prems"(1) c Inr p Cons by (auto split: sum.splits)
          then show ?thesis using "2.IH" [OF c Inr _ Cons True] "2.prems"(2) p by simp
        next
          case False
          then show ?thesis using "2.prems" c Inr p Cons by (auto simp: text_errI split: if_splits)
        qed
      qed
    qed
  qed
qed (auto simp: text_errI)

lemma text_item_err: "text_item n c cs = Inl e \<Longrightarrow> text_err n e"
  using text_items_err [of n "n - length (c # cs)" "space cs" e] text_scalar_err [of "n - length (c # cs)" c cs e n]
  by (auto simp: text_item_def text_list_def Let_def split: if_splits sum.splits)

lemma text_vals_err: "text_vals n cs = Inl e \<Longrightarrow> text_err n e"
proof (induction n cs rule: text_vals.induct)
  case (1 n cs)
  show ?case
  proof (cases "space cs")
    case (Cons c r)
    show ?thesis
    proof (cases "text_item n c r")
      case (Inr p)
      obtain v rest where p: "p = (v, rest)" by fastforce
      show ?thesis
      proof (cases "rest \<noteq> [] \<and> \<not> isSpace (hd rest)")
        case True
        then show ?thesis using "1.prems" Cons Inr p by (auto simp: text_vals.simps [of n cs] text_errI)
      next
        case False
        then have "text_vals n rest = Inl e" using "1.prems" Cons Inr p by (auto simp: text_vals.simps [of n cs] split: sum.splits if_splits)
        then show ?thesis using "1.IH" [OF Cons Inr _ False] p by simp
      qed
    qed (use "1.prems" Cons text_item_err in \<open>simp add: text_vals.simps [of n cs]\<close>)
  qed (use "1.prems" in \<open>simp add: text_vals.simps [of n cs]\<close>)
qed

lemma bad_utf8_at: "\<not> utf8_text cs \<Longrightarrow> bad_utf8 cs < length cs \<and> utf8_text (take (bad_utf8 cs) cs) \<and> rune_len (drop (bad_utf8 cs) cs) = 0"
proof (induction cs rule: bad_utf8.induct)
  case (1 cs)
  have ne: "cs \<noteq> []" using "1.prems" by auto
  show ?case
  proof (cases "rune_len cs = 0")
    case True
    then show ?thesis using ne by (simp add: bad_utf8.simps [of cs])
  next
    case False
    define k where "k = rune_len cs"
    have k: "0 < k" "k \<le> length cs" using False rune_len_le [of cs] by (simp_all add: k_def)
    have b: "bad_utf8 cs = k + bad_utf8 (drop k cs)" using False by (simp add: bad_utf8.simps [of cs] k_def)
    have "\<not> utf8_text (drop k cs)" using "1.prems" ne False by (simp add: utf8_text.simps [of cs] k_def)
    then have ih: "bad_utf8 (drop k cs) < length (drop k cs)" "utf8_text (take (bad_utf8 (drop k cs)) (drop k cs))"
      "rune_len (drop (bad_utf8 (drop k cs)) (drop k cs)) = 0"
      using "1.IH" False by (simp_all add: k_def)
    have "utf8_text (take k cs @ take (bad_utf8 (drop k cs)) (drop k cs))" using utf8_text_rune [of cs] k(1) ih(2) by (simp add: k_def)
    then have "utf8_text (take (bad_utf8 cs) cs)" unfolding b take_add .
    moreover have "drop (bad_utf8 (drop k cs)) (drop k cs) = drop (bad_utf8 cs) cs" unfolding b drop_drop by (simp add: add.commute)
    ultimately show ?thesis using ih(1,3) k by (simp add: b)
  qed
qed

lemma parts_at_differ:
  "parts_at a b \<le> length b \<and> take (parts_at a b) a = take (parts_at a b) b
    \<and> (parts_at a b < length a \<longrightarrow> parts_at a b < length b \<longrightarrow> a ! parts_at a b \<noteq> b ! parts_at a b)"
  by (induction a b rule: parts_at.induct) auto

section \<open>The properties\<close>

lemma format_items_sound:
  "format_items items = Inr vs \<Longrightarrow> \<forall>g \<in> set items. sized g \<Longrightarrow> (\<forall>v \<in> set vs. text_ok v) \<and> map to_go vs = map canon items"
proof (induction items arbitrary: vs)
  case (Cons it items)
  obtain v where v: "from_go it False 0 = Inr v" using Cons.prems by (auto split: sum.splits)
  then obtain vs' where "format_items items = Inr vs'" "vs = v # vs'" using Cons.prems by (auto split: sum.splits)
  then show ?case using Cons from_go_item [OF v] ok_val_text by auto
qed simp

lemma format_items_to_go: "\<forall>v \<in> set vs. text_ok v \<Longrightarrow> format_items (map to_go vs) = Inr vs"
  by (induction vs) (simp_all add: text_ok_from_go)

lemma Parse_canonical: "\<forall>v \<in> set vs. text_ok v \<Longrightarrow> row_Parse (formatVals vs) = Inr (map to_go vs)"
  by (simp add: row_Parse_def parseVals_format)

text \<open>C14. Formatting then parsing: whatever row of Go values \<open>Format\<close> writes, \<open>Parse\<close> reads back from that line as the
  same values in the package's own types. \<open>sized\<close> is as for \<open>Encode\<close>.\<close>

theorem text_parse_format:
  assumes "row_Format items = Inr line" and "\<forall>g \<in> set items. sized g"
  shows "row_Parse line = Inr (map canon items)"
proof -
  obtain vs where "format_items items = Inr vs" "line = formatVals vs" using assms(1) by (auto simp: row_Format_def split: sum.splits)
  then show ?thesis using format_items_sound [OF _ assms(2)] Parse_canonical by metis
qed

theorem text_parse_format_witness:
  "row_Parse (chars ''[1, true] -2m none'') = Inr (map canon [GList [GInt 1, GBool True], GStdDuration (- 120000000000), GNil])"
proof (rule text_parse_format)
  show "row_Format [GList [GInt 1, GBool True], GStdDuration (- 120000000000), GNil] = Inr (chars ''[1, true] -2m none'')"
    by code_simp
qed simp

text \<open>C23. One row has one spelling: a line that \<open>Parse\<close> accepts is exactly what \<open>Format\<close> writes of the items it
  returned, and those items can be encoded in the binary form.\<close>

theorem text_format_parse:
  assumes "row_Parse line = Inr items"
  shows "row_Format items = Inr line \<and> (\<exists>b. Encode items = Inr b)"
proof -
  obtain vs where p: "parseVals line = Inr vs" "items = map to_go vs" using assms by (auto simp: row_Parse_def split: sum.splits)
  note vs = parseVals_sound [OF p(1)]
  have "\<forall>v \<in> set ws. text_ok v \<Longrightarrow> \<exists>b'. encode_from (map to_go ws) b = Inr b'" for ws b
    by (induction ws arbitrary: b) (simp_all add: text_ok_from_go)
  then show ?thesis using vs format_items_to_go p(2) by (simp add: row_Format_def Encode_def)
qed

theorem text_format_parse_witness: "row_Format [GBytes [10], GInt64 (- 7), GDay 0] = Inr (chars ''0x0a -7 1970-01-01'')"
proof -
  have "row_Parse (chars ''0x0a -7 1970-01-01'') = Inr [GBytes [10], GInt64 (- 7), GDay 0]" by code_simp
  from text_format_parse [OF this] show ?thesis by blast
qed

text \<open>The binary form and the text form hold the same rows: a row \<open>Decode\<close> reads has a line, and \<open>Parse\<close> of
  that line is the row.\<close>

theorem text_of_binary:
  assumes "Decode b = Inr items"
  shows "\<exists>line. row_Format items = Inr line \<and> row_Parse line = Inr items"
proof -
  obtain vs where vs: "decode_vals 0 b = Inr vs" "items = map to_go vs"
    using assms by (auto simp: Decode_def decodeVals_def split: sum.splits)
  then have "\<forall>v \<in> set vs. text_ok v" using decode_vals_sound [of 0 b vs] ok_val_text by blast
  then show ?thesis using format_items_to_go Parse_canonical vs(2) by (simp add: row_Format_def)
qed

theorem text_of_binary_witness: "\<exists>line. row_Format [GInt64 64, GNil] = Inr line \<and> row_Parse line = Inr [GInt64 64, GNil]"
proof -
  have "Decode [246, 128, 1, 243] = Inr [GInt64 64, GNil]" by code_simp
  then show ?thesis by (rule text_of_binary)
qed

text \<open>C33. Every error of \<open>Parse\<close> has an offset inside the line or at its end. T002 is given to a line that reads as values
  but is not spelt as \<open>Format\<close> spells those values, which \<open>Parse\<close> accepts: its offset is the first byte where the line and
  that spelling part, or the end of the shorter of them when it begins the other. A line that is not UTF-8 is refused at
  the first byte of no character.\<close>

theorem text_errors:
  assumes "row_Parse line = Inl e"
  shows "\<exists>code off. e = TextError code off \<and> off \<le> length line
    \<and> (code = T002 \<longrightarrow> (\<exists>vs canonical. text_vals (length line) line = Inr vs \<and> canonical = formatVals vs \<and> canonical \<noteq> line
         \<and> row_Parse canonical = Inr (map to_go vs) \<and> take off canonical = take off line
         \<and> (off < length canonical \<longrightarrow> off < length line \<longrightarrow> canonical ! off \<noteq> line ! off)))
    \<and> (\<not> utf8_valid line \<longrightarrow> code = RCode R006 \<and> utf8_valid (take off line) \<and> rune_len (drop off line) = 0)"
proof (cases "utf8_valid line")
  case False
  then have "e = TextError (RCode R006) (bad_utf8 line)" using assms by (simp add: row_Parse_def parseVals_def)
  then show ?thesis using False bad_utf8_at [of line] by (simp add: utf8_valid_text)
next
  case u: True
  show ?thesis
  proof (cases "text_vals (length line) line")
    case (Inl x)
    then have "e = x" using assms u by (simp add: row_Parse_def parseVals_def)
    then show ?thesis using text_vals_err [OF Inl] u by (auto simp: text_err_def)
  next
    case (Inr vs)
    then have c: "formatVals vs \<noteq> line" and e: "e = TextError T002 (parts_at (formatVals vs) line)"
      using assms u by (auto simp: row_Parse_def parseVals_def Let_def split: if_splits)
    have "row_Parse (formatVals vs) = Inr (map to_go vs)" using text_vals_sound [OF Inr] u by (intro Parse_canonical) (simp add: utf8_valid_text)
    then show ?thesis using Inr c e u parts_at_differ [of "formatVals vs" line]
      by (intro exI [of _ T002] exI [of _ "parts_at (formatVals vs) line"] conjI impI exI [of _ vs] exI [of _ "formatVals vs"]) simp_all
  qed
qed

theorem text_errors_witness:
  "\<exists>canonical items. row_Parse canonical = Inr items \<and> canonical \<noteq> chars ''1  2'' \<and> take 2 canonical = take 2 (chars ''1  2'')"
proof -
  have "row_Parse (chars ''1  2'') = Inl (TextError T002 2)" by code_simp
  from text_errors [OF this] show ?thesis by blast
qed

end
