(* ===== verification/Runes.thy ===== *)
theory Runes
  imports JsonText
begin

text \<open>
  The runes of Go's strings: what \<open>for range\<close> and \<open>[]rune\<close> see of bytes that may not be UTF-8.
\<close>

text \<open>The code points of a text; a byte that begins none is one by itself.\<close>

function chars_of :: "bytes \<Rightarrow> bytes list" where
  "chars_of b = (if b = [] then [] else let n = max 1 (rune_len b) in take n b # chars_of (drop n b))"
  by pat_completeness auto
termination
  by (relation "measure length") auto

declare chars_of.simps [simp del]

definition char :: "bytes \<Rightarrow> bool" where
  "char g \<longleftrightarrow> 0 < rune_len g \<and> rune_len g = length g"

lemma char_append: "char g \<Longrightarrow> rune_len (g @ z) = length g"
  by (cases "g = []") (simp_all add: char_def rune_len_append)

lemma char_nonempty: "char g \<Longrightarrow> g \<noteq> []"
  by (auto simp: char_def)

lemma take_rune_char: "0 < rune_len b \<Longrightarrow> char (take (rune_len b) b)"
proof -
  assume n: "0 < rune_len b"
  define w where "w = take (rune_len b) b"
  have l: "length w = rune_len b" using rune_len_le [of b] by (simp add: w_def)
  have "utf8_text w" using utf8_text_rune [OF n, of "[]"] by (simp add: w_def)
  moreover have "w \<noteq> []" using l n by auto
  ultimately have p: "0 < rune_len w" using utf8_text.simps [of w] by (auto split: if_splits)
  have "rune_len (w @ drop (rune_len b) b) = rune_len w" by (rule rune_len_append [OF p])
  then have "rune_len b = rune_len w" by (simp add: w_def)
  then show ?thesis using p l unfolding char_def w_def [symmetric] by simp
qed

lemma chars_of_Nil [simp]: "chars_of [] = []"
  by (simp add: chars_of.simps)

lemma chars_of_char: "char g \<Longrightarrow> chars_of (g @ z) = g # chars_of z"
proof -
  assume g: "char g"
  have "rune_len (g @ z) = length g" by (rule char_append [OF g])
  moreover have "1 \<le> length g" using char_nonempty [OF g] by (cases g) simp_all
  ultimately have "max 1 (rune_len (g @ z)) = length g" "g @ z \<noteq> []" by auto
  then show ?thesis by (simp add: chars_of.simps [of "g @ z"] Let_def)
qed

lemma chars_of_concat: "\<forall>g \<in> set gs. char g \<Longrightarrow> chars_of (concat gs @ z) = gs @ chars_of z"
  by (induction gs) (simp_all add: chars_of_char)

lemma concat_chars: "concat (chars_of b) = b"
proof (induction b rule: chars_of.induct)
  case (1 b)
  then show ?case by (cases "b = []") (simp_all add: chars_of.simps [of b] Let_def)
qed

lemma chars_text: "utf8_text s \<Longrightarrow> \<forall>g \<in> set (chars_of s). char g"
proof (induction s rule: chars_of.induct)
  case (1 s)
  show ?case
  proof (cases "s = []")
    case False
    then have p: "0 < rune_len s" and r: "utf8_text (drop (rune_len s) s)" using "1.prems" utf8_text.simps [of s] by (auto split: if_splits)
    have m: "max 1 (rune_len s) = rune_len s" using p by simp
    have "chars_of s = take (rune_len s) s # chars_of (drop (rune_len s) s)"
      using False m by (simp add: chars_of.simps [of s] Let_def)
    then show ?thesis using "1.IH" [OF False refl] r m take_rune_char [OF p] by simp
  qed simp
qed

lemma chars_concat: "\<forall>g \<in> set gs. char g \<Longrightarrow> chars_of (concat gs) = gs"
  using chars_of_concat [of gs "[]"] by simp

lemma chars_nonempty: "c \<in> set (chars_of s) \<Longrightarrow> c \<noteq> []"
proof (induction s rule: chars_of.induct)
  case (1 s)
  show ?case
  proof (cases "s = []")
    case False
    then have "chars_of s = take (max 1 (rune_len s)) s # chars_of (drop (max 1 (rune_len s)) s)" by (simp add: chars_of.simps [of s] Let_def)
    then show ?thesis using "1.IH" [OF False refl] "1.prems" False by auto
  qed (use "1.prems" in simp)
qed

lemma chars_of_eq_Nil [simp]: "chars_of s = [] \<longleftrightarrow> s = []"
  using concat_chars [of s] by (cases "s = []") auto

text \<open>\<open>[]rune(s)\<close>, each rune as the bytes that encode it: a byte of no character is U+FFFD.\<close>

definition runes_of :: "bytes \<Rightarrow> bytes list" where
  "runes_of s = map (\<lambda>c. if rune_len c = 0 then [0xEF, 0xBF, 0xBD] else c) (chars_of s)"

lemma length_runes [simp]: "length (runes_of s) = length (chars_of s)"
  by (simp add: runes_of_def)

lemma char_invalid: "c \<in> set (chars_of s) \<Longrightarrow> 0 < rune_len c \<Longrightarrow> char c"
proof (induction s rule: chars_of.induct)
  case (1 s)
  show ?case
  proof (cases "s = []")
    case False
    let ?n = "max 1 (rune_len s)"
    have c: "chars_of s = take ?n s # chars_of (drop ?n s)" using False by (simp add: chars_of.simps [of s] Let_def)
    show ?thesis
    proof (cases "c = take ?n s")
      case True
      show ?thesis
      proof (cases "0 < rune_len s")
        case pos: True
        then have "max 1 (rune_len s) = rune_len s" by simp
        then show ?thesis using True take_rune_char [OF pos] by simp
      next
        case zero: False
        then have g: "c = [hd s]" using True False by (cases s) simp_all
        then show ?thesis using "1.prems"(2) rune_len_le [of c] by (simp add: char_def)
      qed
    qed (use "1.IH" [OF False refl] "1.prems" c in auto)
  qed (use "1.prems" in simp)
qed

lemma char_runes: "g \<in> set (runes_of s) \<Longrightarrow> char g"
proof -
  have "char [0xEF, 0xBF, 0xBD]" by code_simp
  then show "g \<in> set (runes_of s) \<Longrightarrow> char g" using char_invalid [of _ s] by (auto simp: runes_of_def split: if_splits)
qed

lemma runes_of_concat: "\<forall>g \<in> set gs. char g \<Longrightarrow> runes_of (concat gs) = gs"
  unfolding runes_of_def by (subst chars_concat) (auto simp: char_def intro!: map_idI)

lemma runes_text: "utf8_text s \<Longrightarrow> concat (runes_of s) = s"
  using chars_text [of s] runes_of_concat [of "chars_of s"] concat_chars [of s] by simp

end
