(* ===== verification/Raster.thy ===== *)
theory Raster
  imports Runes RowTextItems
begin

text \<open>
  The \<open>typeset/raster\<close> package: pages of forty-column rows. Text is UTF-8 bytes, a code point the bytes that encode it. The
  tables of Unicode, of \<open>unicode\<close> and \<open>golang.org/x/text\<close>, are a parameter, \<open>unicode\<close>. Columns, row numbers and counts are
  natural numbers; the checks of the code refuse negative ones with those out of range. Errors are \<open>None\<close> or \<open>False\<close>,
  their texts left out.
\<close>

section \<open>Rows and their check\<close>

record unicode =
  is_control :: "bytes \<Rightarrow> bool"
  is_mark :: "bytes \<Rightarrow> bool"
  is_separator :: "bytes \<Rightarrow> bool"
  is_wide :: "bytes \<Rightarrow> bool"
  NFC :: "bytes \<Rightarrow> bytes"
  is_normal :: "bytes \<Rightarrow> bool"

abbreviation (input) Width :: nat where "Width \<equiv> 40"
abbreviation (input) MaxRow :: nat where "MaxRow \<equiv> 254"
abbreviation (input) MaxTarget :: nat where "MaxTarget \<equiv> 255"

type_synonym color = byte

abbreviation (input) Default :: color where "Default \<equiv> 0"
abbreviation (input) numColors :: byte where "numColors \<equiv> 8"

record segment =
  Start :: nat
  End :: nat
  Text :: bytes
  FG :: color
  BG :: color
  Target :: bytes

record raster_row =
  Index :: nat
  Role :: byte
  Segments :: "segment list"

datatype raster_record = RRow raster_row | RCount nat

definition IsLink :: "segment \<Rightarrow> bool" where
  "IsLink s \<longleftrightarrow> Target s \<noteq> []"

definition blankText :: bytes where
  "blankText = replicate Width 32"

definition Blank :: "nat \<Rightarrow> raster_row" where
  "Blank i = \<lparr>Index = i, Role = 0, Segments = [\<lparr>Start = 0, End = Width, Text = blankText, FG = Default, BG = Default, Target = []\<rparr>]\<rparr>"

definition IsBlank :: "raster_row \<Rightarrow> bool" where
  "IsBlank r =
     (case Segments r of
        [s] \<Rightarrow> Role r = 0 \<and> FG s = Default \<and> BG s = Default \<and> \<not> IsLink s \<and> Text s = blankText
      | _ \<Rightarrow> False)"

definition row_Text :: "raster_row \<Rightarrow> bytes" where
  "row_Text r = concat (map Text (Segments r))"

definition Count_Check :: "nat \<Rightarrow> bool" where
  "Count_Check c \<longleftrightarrow> c \<le> 255"

definition checkColumn :: "unicode \<Rightarrow> bytes \<Rightarrow> bool" where
  "checkColumn u c =
     (if is_control u c then False else if is_mark u c then False else if is_separator u c then False else \<not> is_wide u c)"

fun checkText_loop :: "unicode \<Rightarrow> bytes list \<Rightarrow> nat option" where
  "checkText_loop u [] = Some 0"
| "checkText_loop u (c # cs) =
     (if rune_len c = 0 then None else if \<not> checkColumn u c then None else map_option Suc (checkText_loop u cs))"

definition checkText :: "unicode \<Rightarrow> bytes \<Rightarrow> nat option" where
  "checkText u s = checkText_loop u (chars_of s)"

definition isURIChar :: "byte \<Rightarrow> bool" where
  "isURIChar c \<longleftrightarrow>
     97 \<le> c \<and> c \<le> 122 \<or> 65 \<le> c \<and> c \<le> 90 \<or> is_digit c \<or> c \<in> set (chars ''-._~:/?#[]@!$&()*+,;='') \<or> c = 39"

text \<open>The byte of a target where it goes wrong.\<close>

fun CheckTarget_loop :: "nat \<Rightarrow> bytes \<Rightarrow> nat option" where
  "CheckTarget_loop i [] = None"
| "CheckTarget_loop i (c # t) =
     (if c = 37
      then (case t of
              a # b # t \<Rightarrow> if \<not> isHex a \<or> \<not> isHex b then Some i else CheckTarget_loop (i + 3) t
            | _ \<Rightarrow> Some i)
      else if \<not> isURIChar c then Some i else CheckTarget_loop (i + 1) t)"

definition CheckTarget :: "bytes \<Rightarrow> nat option" where
  "CheckTarget t = (if t = [] \<or> MaxTarget < length t then Some 0 else CheckTarget_loop 0 t)"

definition hasGlyph :: "bytes \<Rightarrow> bool" where
  "hasGlyph s \<longleftrightarrow> (\<exists>c \<in> set s. c \<noteq> 32)"

definition checkColor :: "color \<Rightarrow> bool" where
  "checkColor c \<longleftrightarrow> c < numColors"

definition checkMeet :: "segment \<Rightarrow> segment \<Rightarrow> bool" where
  "checkMeet a b =
     (if IsLink a \<and> IsLink b then Target a \<noteq> Target b
      else if IsLink a \<or> IsLink b \<or> BG a \<noteq> BG b then True
      else if FG a = FG b then False
      else if \<not> hasGlyph (Text a) then False
      else if hd (Text b) = 32 then False
      else True)"

definition check_segment :: "unicode \<Rightarrow> nat \<Rightarrow> segment option \<Rightarrow> segment \<Rightarrow> bool" where
  "check_segment u col prior s \<longleftrightarrow>
     Start s = col \<and> Start s < End s \<and> End s \<le> Width
     \<and> checkText u (Text s) = Some (End s - Start s)
     \<and> checkColor (FG s) \<and> checkColor (BG s)
     \<and> (IsLink s \<longrightarrow> CheckTarget (Target s) = None)
     \<and> (hasGlyph (Text s) \<or> FG s = Default)
     \<and> (case prior of None \<Rightarrow> True | Some p \<Rightarrow> checkMeet p s)"

text \<open>The segments from column \<open>col\<close> on, after \<open>prior\<close>; the column they end at.\<close>

fun check_segments :: "unicode \<Rightarrow> nat \<Rightarrow> segment option \<Rightarrow> segment list \<Rightarrow> nat option" where
  "check_segments u col prior [] = Some col"
| "check_segments u col prior (s # ss) = (if check_segment u col prior s then check_segments u (End s) (Some s) ss else None)"

definition row_check :: "unicode \<Rightarrow> raster_row \<Rightarrow> bool" where
  "row_check u r \<longleftrightarrow> Segments r \<noteq> [] \<and> check_segments u 0 None (Segments r) = Some Width \<and> is_normal u (row_Text r)"

definition Row_Check :: "unicode \<Rightarrow> raster_row \<Rightarrow> bool" where
  "Row_Check u r \<longleftrightarrow> Index r \<le> MaxRow \<and> row_check u r"

definition record_Check :: "unicode \<Rightarrow> raster_record \<Rightarrow> bool" where
  "record_Check u rec = (case rec of RRow r \<Rightarrow> Row_Check u r | RCount c \<Rightarrow> Count_Check c)"

section \<open>The encoding\<close>

definition segment_head :: "segment \<Rightarrow> bytes" where
  "segment_head s = [of_nat (End s), FG s, BG s, of_nat (length (Target s))] @ Target s"

definition appendRow :: "raster_row \<Rightarrow> bytes" where
  "appendRow r =
     [of_nat (Index r), Role r, of_nat (length (Segments r))] @ concat (map segment_head (Segments r)) @ concat (map Text (Segments r))"

definition append_record :: "raster_record \<Rightarrow> bytes" where
  "append_record rec = (case rec of RRow r \<Rightarrow> appendRow r | RCount c \<Rightarrow> [0xFF, of_nat c])"

text \<open>\<open>Append\<close> of records to \<open>b\<close>: whether it succeeds, and the bytes.\<close>

fun append_loop :: "unicode \<Rightarrow> bytes \<Rightarrow> bytes \<Rightarrow> raster_record list \<Rightarrow> bytes \<times> bool" where
  "append_loop u start b [] = (b, True)"
| "append_loop u start b (rec # recs) = (if record_Check u rec then append_loop u start (b @ append_record rec) recs else (start, False))"

definition raster_Append :: "unicode \<Rightarrow> bytes \<Rightarrow> raster_record list \<Rightarrow> bytes \<times> bool" where
  "raster_Append u b recs = append_loop u b b recs"

text \<open>The readers take the bytes left and return them after what they read; \<open>None\<close> is the first error, which the decoder
  keeps.\<close>

definition d_byte :: "bytes \<Rightarrow> (byte \<times> bytes) option" where
  "d_byte b = (case b of [] \<Rightarrow> None | c # b \<Rightarrow> Some (c, b))"

definition d_bytes :: "nat \<Rightarrow> bytes \<Rightarrow> (bytes \<times> bytes) option" where
  "d_bytes n b = (if length b < n then None else Some (take n b, drop n b))"

fun d_text :: "nat \<Rightarrow> bytes \<Rightarrow> (bytes \<times> bytes) option" where
  "d_text 0 b = Some ([], b)"
| "d_text (Suc n) b =
     (if rune_len b = 0 then None
      else map_option (\<lambda>(t, rest). (take (rune_len b) b @ t, rest)) (d_text n (drop (rune_len b) b)))"

text \<open>The heads of \<open>k\<close> segments, their texts still empty, from column \<open>start\<close>.\<close>

fun decode_heads :: "nat \<Rightarrow> nat \<Rightarrow> bytes \<Rightarrow> (segment list \<times> nat \<times> bytes) option" where
  "decode_heads 0 start b = Some ([], start, b)"
| "decode_heads (Suc k) start b =
     Option.bind (d_byte b) (\<lambda>(e, b). Option.bind (d_byte b) (\<lambda>(fg, b). Option.bind (d_byte b) (\<lambda>(bg, b).
     Option.bind (d_byte b) (\<lambda>(n, b). Option.bind (d_bytes (unat n) b) (\<lambda>(target, b).
       if unat e \<le> start \<or> Width < unat e then None
       else map_option (\<lambda>(ss, x). (\<lparr>Start = start, End = unat e, Text = [], FG = fg, BG = bg, Target = target\<rparr> # ss, x))
              (decode_heads k (unat e) b))))))"

fun decode_texts :: "segment list \<Rightarrow> bytes \<Rightarrow> (segment list \<times> bytes) option" where
  "decode_texts [] b = Some ([], b)"
| "decode_texts (s # ss) b =
     Option.bind (d_text (End s - Start s) b) (\<lambda>(t, b). map_option (\<lambda>(ss, b). (s\<lparr>Text := t\<rparr> # ss, b)) (decode_texts ss b))"

definition decode_row :: "unicode \<Rightarrow> byte \<Rightarrow> bytes \<Rightarrow> (raster_row \<times> bytes) option" where
  "decode_row u kind b =
     Option.bind (d_byte b) (\<lambda>(role, b). Option.bind (d_byte b) (\<lambda>(k, b).
       if k = 0 \<or> Width < unat k then None
       else Option.bind (decode_heads (unat k) 0 b) (\<lambda>(ss, start, b).
         if start \<noteq> Width then None
         else Option.bind (decode_texts ss b) (\<lambda>(ss, b).
           let r = \<lparr>Index = unat kind, Role = role, Segments = ss\<rparr> in if Row_Check u r then Some (r, b) else None))))"

definition decode_left :: "unicode \<Rightarrow> bytes \<Rightarrow> (raster_record \<times> bytes) option" where
  "decode_left u b =
     Option.bind (d_byte b) (\<lambda>(kind, b).
       if kind = 0xFF then map_option (\<lambda>(c, b). (RCount (unat c), b)) (d_byte b)
       else map_option (\<lambda>(r, b). (RRow r, b)) (decode_row u kind b))"

text \<open>A record and the bytes it takes.\<close>

definition raster_decodeRecord :: "unicode \<Rightarrow> bytes \<Rightarrow> unit + raster_record \<times> nat" where
  "raster_decodeRecord u b = (case decode_left u b of None \<Rightarrow> Inl () | Some (rec, rest) \<Rightarrow> Inr (rec, length b - length rest))"

text \<open>The records read, and whether all were.\<close>

function raster_Decode :: "unicode \<Rightarrow> bytes \<Rightarrow> raster_record list \<times> bool" where
  "raster_Decode u b =
     (if b = [] then ([], True)
      else case raster_decodeRecord u b of
        Inl e \<Rightarrow> ([], False)
      | Inr (rec, n) \<Rightarrow>
          if n = 0 then ([], False)
          else (case raster_Decode u (drop n b) of (recs, ok) \<Rightarrow> (rec # recs, ok)))"
  by pat_completeness auto
termination
  by (relation "measure (length \<circ> snd)") auto

declare raster_Decode.simps [simp del]

section \<open>Drafts\<close>

text \<open>The four arrays of a \<open>Draft\<close> are one list of \<open>Width\<close> cells.\<close>

record cell =
  glyph :: bytes
  fg :: color
  bg :: color
  target :: bytes

definition NewDraft :: "color \<Rightarrow> cell list" where
  "NewDraft b = replicate Width \<lparr>glyph = [32], fg = Default, bg = b, target = []\<rparr>"

fun Columns_loop :: "unicode \<Rightarrow> bytes list \<Rightarrow> nat option" where
  "Columns_loop u [] = Some 0"
| "Columns_loop u (c # cs) = (if \<not> checkColumn u c then None else map_option Suc (Columns_loop u cs))"

definition Columns :: "unicode \<Rightarrow> bytes \<Rightarrow> nat option" where
  "Columns u s = (if \<not> utf8_valid s then None else Columns_loop u (chars_of (NFC u s)))"

fun put_cells :: "cell list \<Rightarrow> nat \<Rightarrow> bytes list \<Rightarrow> color \<Rightarrow> color \<Rightarrow> bytes \<Rightarrow> cell list" where
  "put_cells d col [] f b t = d"
| "put_cells d col (r # rs) f b t = put_cells (d[col := \<lparr>glyph = r, fg = f, bg = b, target = t\<rparr>]) (col + 1) rs f b t"

text \<open>The draft and the column after the text; \<open>None\<close> writes nothing.\<close>

definition Put :: "unicode \<Rightarrow> cell list \<Rightarrow> nat \<Rightarrow> bytes \<Rightarrow> color \<Rightarrow> color \<Rightarrow> bytes \<Rightarrow> (cell list \<times> nat) option" where
  "Put u d col s f b t =
     (case Columns u s of
        None \<Rightarrow> None
      | Some n \<Rightarrow> if Width < col + n then None else Some (put_cells d col (chars_of (NFC u s)) f b t, col + n))"

text \<open>\<open>split\<close> of the columns of one background and target: the segment open at \<open>start\<close> in \<open>f\<close>, whether it holds a glyph,
  the text it has so far and the column reached.\<close>

definition close_segment :: "nat \<Rightarrow> nat \<Rightarrow> bytes \<Rightarrow> color \<Rightarrow> color \<Rightarrow> bytes \<Rightarrow> segment" where
  "close_segment start col txt f b t = \<lparr>Start = start, End = col, Text = txt, FG = f, BG = b, Target = t\<rparr>"

fun split_loop :: "color \<Rightarrow> bytes \<Rightarrow> nat \<Rightarrow> color \<Rightarrow> bool \<Rightarrow> bytes \<Rightarrow> nat \<Rightarrow> cell list \<Rightarrow> segment list option" where
  "split_loop b t start f seen txt col [] = Some [close_segment start col txt f b t]"
| "split_loop b t start f seen txt col (c # cs) =
     (if glyph c = [32] then split_loop b t start f seen (txt @ glyph c) (col + 1) cs
      else if \<not> seen then split_loop b t start (fg c) True (txt @ glyph c) (col + 1) cs
      else if fg c = f then split_loop b t start f seen (txt @ glyph c) (col + 1) cs
      else if t \<noteq> [] then None
      else map_option (\<lambda>ss. close_segment start col txt f b t # ss) (split_loop b t col (fg c) seen (glyph c) (col + 1) cs))"

definition split :: "nat \<Rightarrow> cell list \<Rightarrow> segment list option" where
  "split start cs = split_loop (bg (hd cs)) (target (hd cs)) start Default False [] start cs"

text \<open>The columns from \<open>start\<close> on, a stretch of one background and target after another.\<close>

function draft_segments :: "nat \<Rightarrow> cell list \<Rightarrow> segment list option" where
  "draft_segments start [] = Some []"
| "draft_segments start (c # cs) =
     (let run = c # takeWhile (\<lambda>x. bg x = bg c \<and> target x = target c) cs;
          rest = dropWhile (\<lambda>x. bg x = bg c \<and> target x = target c) cs
      in case split start run of
        None \<Rightarrow> None
      | Some segs \<Rightarrow> map_option (\<lambda>ss. segs @ ss) (draft_segments (start + length run) rest))"
  by pat_completeness auto
termination
  by (relation "measure (length \<circ> snd)") (auto simp: le_imp_less_Suc length_dropWhile_le)

definition draft_Row :: "unicode \<Rightarrow> cell list \<Rightarrow> nat \<Rightarrow> raster_row option" where
  "draft_Row u d i =
     (case draft_segments 0 d of
        None \<Rightarrow> None
      | Some ss \<Rightarrow> let r = \<lparr>Index = i, Role = 0, Segments = ss\<rparr> in if Row_Check u r then Some r else None)"

section \<open>Pages\<close>

text \<open>A page is its rows.\<close>

definition page_resize :: "nat \<Rightarrow> raster_row list \<Rightarrow> raster_row list" where
  "page_resize h rows = (if h \<le> length rows then take h rows else rows @ map Blank [length rows..<h])"

fun apply_record :: "raster_row list \<Rightarrow> raster_record \<Rightarrow> raster_row list" where
  "apply_record rows (RRow r) = (page_resize (max (length rows) (Index r + 1)) rows)[Index r := r]"
| "apply_record rows (RCount c) = page_resize c rows"

definition page_Apply :: "unicode \<Rightarrow> raster_row list \<Rightarrow> raster_record list \<Rightarrow> raster_row list \<times> bool" where
  "page_Apply u rows recs = (if snd (raster_Append u [] recs) then (foldl apply_record rows recs, True) else (rows, False))"

definition page_Records :: "raster_row list \<Rightarrow> raster_record list" where
  "page_Records rows = RCount 0 # map RRow (filter (\<lambda>r. \<not> IsBlank r) rows) @ [RCount (length rows)]"

end
