(* ===== verification/RasterProps.thy ===== *)
theory RasterProps
  imports Raster
begin

text \<open>
  What \<open>typeset/raster\<close> promises of its format: bytes and records determine each other, and a page's records rebuild it
  on any page.
\<close>

section \<open>Code points\<close>

lemma checkText_chars: "checkText u s = Some n \<longleftrightarrow> (\<forall>g \<in> set (chars_of s). char g \<and> checkColumn u g) \<and> length (chars_of s) = n"
proof -
  have "checkText_loop u cs = Some n \<longleftrightarrow> (\<forall>g \<in> set cs. 0 < rune_len g \<and> checkColumn u g) \<and> length cs = n" for cs n
    by (induction cs arbitrary: n) auto
  then show ?thesis unfolding checkText_def using char_invalid [of _ s] by (auto simp: char_def)
qed

lemma checkText_nonempty: "checkText u s = Some n \<Longrightarrow> 0 < n \<Longrightarrow> s \<noteq> []"
  by (auto simp: checkText_chars)

section \<open>The codec\<close>

lemma check_segments_length: "check_segments u col prior ss = Some e \<Longrightarrow> col + length ss \<le> e \<and> (col \<le> Width \<longrightarrow> e \<le> Width)"
proof (induction ss arbitrary: col prior)
  case (Cons s ss)
  then have "check_segment u col prior s" and e: "check_segments u (End s) (Some s) ss = Some e" by (auto split: if_splits)
  then have "col < End s" "End s \<le> Width" by (auto simp: check_segment_def)
  then show ?case using Cons.IH [OF e] by auto
qed auto

lemma d_text_chars: "\<forall>g \<in> set gs. char g \<Longrightarrow> d_text (length gs) (concat gs @ z) = Some (concat gs, z)"
proof (induction gs)
  case (Cons g gs)
  then have "rune_len (g @ concat gs @ z) = length g" "0 < length g" using char_append [of g "concat gs @ z"] by (auto simp: char_def)
  then show ?case using Cons by simp
qed simp

lemma d_text_check: "checkText u s = Some n \<Longrightarrow> d_text n (s @ z) = Some (s, z)"
  using d_text_chars [of "chars_of s" z] by (auto simp: checkText_chars concat_chars)

lemma d_text_sound: "d_text n b = Some (t, rest) \<Longrightarrow> b = t @ rest"
proof (induction n b arbitrary: t rule: d_text.induct)
  case (2 n b)
  then obtain t1 where d: "d_text n (drop (rune_len b) b) = Some (t1, rest)" "t = take (rune_len b) b @ t1" and p: "rune_len b \<noteq> 0"
    by (auto split: if_splits)
  have "drop (rune_len b) b = t1 @ rest" by (rule "2.IH" [OF p d(1)])
  then have "take (rune_len b) b @ drop (rune_len b) b = t @ rest" using d(2) by simp
  then show ?case by simp
qed simp

lemma decode_heads_enc:
  "check_segments u start prior ss = Some e \<Longrightarrow>
    decode_heads (length ss) start (concat (map segment_head ss) @ z) = Some (map (Text_update (\<lambda>_. [])) ss, e, z)"
proof (induction ss arbitrary: start prior)
  case (Cons s ss)
  then have s: "check_segment u start prior s" and e: "check_segments u (End s) (Some s) ss = Some e" by (auto split: if_splits)
  have b: "Start s = start" "start < End s" "End s \<le> Width" using s by (auto simp: check_segment_def)
  have "length (Target s) \<le> 255" using s by (cases "IsLink s") (auto simp: check_segment_def IsLink_def CheckTarget_def split: if_splits)
  then have n: "unat (of_nat (length (Target s)) :: byte) = length (Target s)" "unat (of_nat (End s) :: byte) = End s"
    using b by (simp_all add: unat_small_byte)
  have "decode_heads (length ss) (End s) (concat (map segment_head ss) @ z) = Some (map (Text_update (\<lambda>_. [])) ss, e, z)"
    by (rule Cons.IH [OF e])
  moreover have "s\<lparr>Text := []\<rparr> = \<lparr>Start = start, End = End s, Text = [], FG = FG s, BG = BG s, Target = Target s\<rparr>" using b by (cases s) simp
  ultimately show ?case using b n by (simp add: segment_head_def [of s] d_byte_def d_bytes_def)
qed simp

lemma decode_texts_enc:
  "check_segments u start prior ss = Some e \<Longrightarrow>
    decode_texts (map (Text_update (\<lambda>_. [])) ss) (concat (map Text ss) @ z) = Some (ss, z)"
proof (induction ss arbitrary: start prior)
  case (Cons s ss)
  then have s: "check_segment u start prior s" and e: "check_segments u (End s) (Some s) ss = Some e" by (auto split: if_splits)
  have "checkText u (Text s) = Some (End s - Start s)" using s by (simp add: check_segment_def)
  from d_text_check [OF this] show ?case using Cons.IH [OF e] by (simp add: comp_def)
qed simp

lemma decode_heads_sound:
  "decode_heads k start b = Some (ss, e, rest) \<Longrightarrow> length ss = k \<and> b = concat (map segment_head ss) @ rest"
proof (induction k arbitrary: start b ss)
  case (Suc k)
  then obtain x fg bg n b1 ss' where d: "b = x # fg # bg # n # b1" "unat n \<le> length b1"
    "decode_heads k (unat x) (drop (unat n) b1) = Some (ss', e, rest)"
    "ss = \<lparr>Start = start, End = unat x, Text = [], FG = fg, BG = bg, Target = take (unat n) b1\<rparr> # ss'"
    by (auto simp: d_byte_def d_bytes_def Option.bind_eq_Some_conv split: list.splits if_splits)
  have ih: "length ss' = k" "drop (unat n) b1 = concat (map segment_head ss') @ rest" using Suc.IH [OF d(3)] by simp_all
  have "b1 = take (unat n) b1 @ concat (map segment_head ss') @ rest" unfolding ih(2) [symmetric] by simp
  moreover have "(of_nat (unat x) :: byte) = x" "(of_nat (min (length b1) (unat n)) :: byte) = n" using d(2) by (simp_all add: min_def)
  ultimately show ?case using ih(1) d(1,4) by (simp add: segment_head_def [of "\<lparr>Start = start, End = unat x, Text = [], FG = fg, BG = bg, Target = take (unat n) b1\<rparr>"])
qed simp

lemma decode_texts_sound:
  "decode_texts ss b = Some (ss', rest) \<Longrightarrow> map segment_head ss' = map segment_head ss \<and> b = concat (map Text ss') @ rest"
proof (induction ss arbitrary: b ss')
  case (Cons s ss)
  then obtain t b1 ss1 where d: "d_text (End s - Start s) b = Some (t, b1)" "decode_texts ss b1 = Some (ss1, rest)" "ss' = s\<lparr>Text := t\<rparr> # ss1"
    by (auto simp: Option.bind_eq_Some_conv)
  then show ?case using Cons.IH [OF d(2)] d_text_sound [OF d(1)] by (simp add: segment_head_def)
qed simp

lemma decode_left_enc: "record_Check u rec \<Longrightarrow> decode_left u (append_record rec @ z) = Some (rec, z)"
proof (cases rec)
  case (RCount c)
  assume "record_Check u rec"
  then have "c < 256" using RCount by (simp add: record_Check_def Count_Check_def)
  then show ?thesis using RCount by (simp add: append_record_def decode_left_def d_byte_def unat_small_byte)
next
  case (RRow r)
  assume "record_Check u rec"
  then have r: "Row_Check u r" using RRow by (simp add: record_Check_def)
  have i: "Index r \<le> 254" "Segments r \<noteq> []" "check_segments u 0 None (Segments r) = Some Width" using r by (simp_all add: Row_Check_def row_check_def)
  note l = check_segments_length [OF i(3)]
  have un: "unat (of_nat (Index r) :: byte) = Index r" "unat (of_nat (length (Segments r)) :: byte) = length (Segments r)"
    using i(1) l by (simp_all add: unat_small_byte)
  have ne: "(of_nat (Index r) :: byte) \<noteq> 0xFF" "(of_nat (length (Segments r)) :: byte) \<noteq> 0"
    using un i by (auto simp: word_unat_eq_iff)
  have "decode_heads (length (Segments r)) 0 (concat (map segment_head (Segments r)) @ concat (map Text (Segments r)) @ z)
      = Some (map (Text_update (\<lambda>_. [])) (Segments r), Width, concat (map Text (Segments r)) @ z)"
    by (rule decode_heads_enc [OF i(3)])
  moreover note decode_texts_enc [OF i(3), of z]
  moreover have "Row_Check u \<lparr>Index = Index r, Role = Role r, Segments = Segments r\<rparr>" using r by (cases r) simp
  ultimately show ?thesis using RRow r un ne l
    by (simp add: append_record_def appendRow_def decode_left_def decode_row_def d_byte_def Let_def)
qed

lemma decode_left_sound: "decode_left u b = Some (rec, rest) \<Longrightarrow> record_Check u rec \<and> b = append_record rec @ rest"
proof -
  assume d: "decode_left u b = Some (rec, rest)"
  then obtain k b1 where b: "b = k # b1" by (cases b) (auto simp: decode_left_def d_byte_def)
  show ?thesis
  proof (cases "k = 0xFF")
    case True
    then obtain c where "b1 = c # rest" "rec = RCount (unat c)"
      using d by (auto simp: b decode_left_def d_byte_def split: list.splits)
    moreover have "unat c \<le> 255" using unsigned_less [where 'a = nat and w = c] by simp
    ultimately show ?thesis using True by (simp add: b record_Check_def Count_Check_def append_record_def)
  next
    case False
    then obtain r where r: "decode_row u k b1 = Some (r, rest)" "rec = RRow r" using d by (auto simp: b decode_left_def d_byte_def)
    then obtain role n b2 ss e b3 ss' where h: "b1 = role # n # b2" "\<not> (n = 0 \<or> Width < unat n)" "decode_heads (unat n) 0 b2 = Some (ss, e, b3)" "e = Width"
      "decode_texts ss b3 = Some (ss', rest)" "r = \<lparr>Index = unat k, Role = role, Segments = ss'\<rparr>" "Row_Check u r"
      by (auto simp: decode_row_def d_byte_def Let_def Option.bind_eq_Some_conv split: list.splits if_splits)
    note s = decode_heads_sound [OF h(3)] and t = decode_texts_sound [OF h(5)]
    have "length ss' = unat n" using s t by (metis length_map)
    moreover have "concat (map segment_head ss) = concat (map segment_head ss')" using t by simp
    ultimately show ?thesis using s t h r by (simp add: b record_Check_def append_record_def appendRow_def)
  qed
qed

interpretation raster_rec: nonempty_codec append_record "raster_decodeRecord u" "record_Check u" for u
proof
  fix rec r assume "record_Check u rec"
  then show "raster_decodeRecord u (append_record rec @ r) = Inr (rec, length (append_record rec))"
    by (simp add: raster_decodeRecord_def decode_left_enc)
next
  fix b rec n assume "raster_decodeRecord u b = Inr (rec, n)"
  then obtain rest where d: "decode_left u b = Some (rec, rest)" "n = length b - length rest"
    by (auto simp: raster_decodeRecord_def split: option.splits)
  then show "record_Check u rec \<and> n \<le> length b \<and> take n b = append_record rec" using decode_left_sound [OF d(1)] by simp
next
  fix rec assume "record_Check u rec"
  then show "append_record rec \<noteq> []" by (simp add: append_record_def appendRow_def split: raster_record.split)
qed

lemma raster_Append_eq:
  "raster_Append u b recs = (if \<forall>rec \<in> set recs. record_Check u rec then (b @ concat (map append_record recs), True) else (b, False))"
proof -
  have "append_loop u start b recs = (if \<forall>rec \<in> set recs. record_Check u rec then (b @ concat (map append_record recs), True) else (start, False))" for start b
    by (induction recs arbitrary: b) auto
  then show ?thesis by (simp add: raster_Append_def)
qed

lemma raster_Decode_enc: "\<forall>rec \<in> set recs. record_Check u rec \<Longrightarrow> raster_Decode u (concat (map append_record recs)) = (recs, True)"
proof (induction recs)
  case (Cons rec recs)
  then have "raster_decodeRecord u (append_record rec @ concat (map append_record recs)) = Inr (rec, length (append_record rec))"
    "append_record rec \<noteq> []" using raster_rec.dec_enc raster_rec.enc_nonempty by auto
  then show ?case using Cons by (simp add: raster_Decode.simps [of u "append_record rec @ concat (map append_record recs)"])
qed (simp add: raster_Decode.simps)

lemma raster_Decode_sound: "raster_Decode u b = (recs, True) \<Longrightarrow> (\<forall>rec \<in> set recs. record_Check u rec) \<and> b = concat (map append_record recs)"
proof (induction u b arbitrary: recs rule: raster_Decode.induct)
  case (1 u b)
  show ?case
  proof (cases "b = []")
    case True
    then have "raster_Decode u b = ([], True)" by (simp add: raster_Decode.simps [of u "[]"])
    then show ?thesis using "1.prems" True by simp
  next
    case False
    then obtain rec n rest where d: "raster_decodeRecord u b = Inr (rec, n)" "n \<noteq> 0" "raster_Decode u (drop n b) = (rest, True)" "recs = rec # rest"
      using "1.prems" by (auto simp: raster_Decode.simps [of u b] split: sum.splits prod.splits if_splits)
    note s = raster_rec.dec_sound_split [OF d(1)]
    show ?thesis using "1.IH" [OF False d(1) refl d(2,3)] s d(4) by (metis concat.simps(2) list.simps(9) set_ConsD)
  qed
qed

text \<open>C34. Records and bytes determine each other: \<open>Append\<close> writes bytes for records exactly when \<open>Decode\<close> reads those
  records, all of them, from the bytes. So every record written is read back, and what is read encodes to the same
  bytes.\<close>

theorem raster_codec: "raster_Append u [] recs = (b, True) \<longleftrightarrow> raster_Decode u b = (recs, True)"
  using raster_Decode_enc [of recs u] raster_Decode_sound [of u b recs] by (auto simp: raster_Append_eq split: if_splits)

section \<open>Pages\<close>

definition page_ok :: "unicode \<Rightarrow> raster_row list \<Rightarrow> bool" where
  "page_ok u rows \<longleftrightarrow> length rows \<le> 255 \<and> (\<forall>i < length rows. Index (rows ! i) = i \<and> (Row_Check u (rows ! i) \<or> rows ! i = Blank i))"

lemma IsBlank_Blank [simp]: "IsBlank (Blank i)"
  by (simp add: IsBlank_def Blank_def IsLink_def)

lemma Blank_only: "Row_Check u r \<Longrightarrow> IsBlank r \<Longrightarrow> r = Blank (Index r)"
  by (cases r) (auto simp: Row_Check_def row_check_def IsBlank_def Blank_def IsLink_def check_segment_def split: list.splits if_splits)

lemma nth_resize: "i < h \<Longrightarrow> page_resize h rows ! i = (if i < length rows then rows ! i else Blank i)"
  by (auto simp: page_resize_def nth_append)

lemma length_resize [simp]: "length (page_resize h rows) = h"
  by (auto simp: page_resize_def)

lemma Index_Blank [simp]: "Index (Blank i) = i"
  by (simp add: Blank_def)

lemma page_ok_resize: "page_ok u rows \<Longrightarrow> h \<le> 255 \<Longrightarrow> page_ok u (page_resize h rows)"
  by (auto simp: page_ok_def nth_resize)

lemma page_ok_record: "page_ok u rows \<Longrightarrow> record_Check u rec \<Longrightarrow> page_ok u (apply_record rows rec)"
proof (cases rec)
  case (RRow r)
  assume "page_ok u rows" "record_Check u rec"
  then have r: "Row_Check u r" "Index r \<le> 254" and ok: "page_ok u rows" using RRow by (simp_all add: record_Check_def Row_Check_def)
  have "page_ok u (page_resize (max (length rows) (Index r + 1)) rows)"
    by (rule page_ok_resize [OF ok]) (use r(2) ok in \<open>auto simp: page_ok_def\<close>)
  then show ?thesis using r(1) RRow by (auto simp: page_ok_def nth_list_update)
next
  case (RCount c)
  assume "page_ok u rows" "record_Check u rec"
  then show ?thesis using RCount page_ok_resize by (simp add: record_Check_def Count_Check_def)
qed

lemma page_ok_Apply: "page_ok u rows \<Longrightarrow> page_ok u (fst (page_Apply u rows recs))"
proof -
  assume ok: "page_ok u rows"
  have "\<forall>rec \<in> set recs. record_Check u rec \<Longrightarrow> page_ok u (foldl apply_record rows recs)"
    using ok by (induction recs arbitrary: rows) (simp_all add: page_ok_record)
  then show ?thesis using ok by (simp add: page_Apply_def raster_Append_eq)
qed

lemma page_rebuild:
  assumes "page_ok u rows" "k \<le> length rows"
  shows "\<exists>m \<le> k. foldl apply_record [] (map RRow (filter (\<lambda>r. \<not> IsBlank r) (take k rows))) = take m rows \<and> (\<forall>i < k. m \<le> i \<longrightarrow> rows ! i = Blank i)"
  using assms(2)
proof (induction k)
  case (Suc k)
  then obtain m where m: "m \<le> k" "foldl apply_record [] (map RRow (filter (\<lambda>r. \<not> IsBlank r) (take k rows))) = take m rows"
    "\<forall>i < k. m \<le> i \<longrightarrow> rows ! i = Blank i" by auto
  have k: "k < length rows" "Index (rows ! k) = k" "Row_Check u (rows ! k) \<or> rows ! k = Blank k" using assms(1) Suc.prems by (simp_all add: page_ok_def)
  show ?case
  proof (cases "IsBlank (rows ! k)")
    case True
    then have "rows ! k = Blank k" using k Blank_only by metis
    then show ?thesis using m True k(1) by (intro exI [of _ m]) (auto simp: take_Suc_conv_app_nth less_Suc_eq)
  next
    case False
    have "apply_record (take m rows) (RRow (rows ! k)) = take (Suc k) rows"
    proof (rule nth_equalityI)
      show "length (apply_record (take m rows) (RRow (rows ! k))) = length (take (Suc k) rows)" using m(1) k(1,2) by simp
      fix i assume "i < length (apply_record (take m rows) (RRow (rows ! k)))"
      then have "i < Suc k" using m(1) k(1,2) by simp
      then show "apply_record (take m rows) (RRow (rows ! k)) ! i = take (Suc k) rows ! i"
        using m(1,3) k(1,2) by (auto simp: nth_list_update nth_resize less_Suc_eq)
    qed
    then show ?thesis using m False k(1) by (intro exI [of _ "Suc k"]) (simp add: take_Suc_conv_app_nth)
  qed
qed simp

lemma page_Records_check: "page_ok u rows \<Longrightarrow> rec \<in> set (page_Records rows) \<Longrightarrow> record_Check u rec"
proof -
  assume ok: "page_ok u rows" and "rec \<in> set (page_Records rows)"
  then consider "rec = RCount 0" | i where "i < length rows" "rec = RRow (rows ! i)" "\<not> IsBlank (rows ! i)" | "rec = RCount (length rows)"
    by (auto simp: page_Records_def in_set_conv_nth)
  then show "record_Check u rec"
  proof cases
    case 2
    then have "rows ! i \<noteq> Blank i" by (metis IsBlank_Blank)
    then show ?thesis using 2 ok by (auto simp: page_ok_def record_Check_def)
  qed (use ok in \<open>auto simp: page_ok_def record_Check_def Count_Check_def\<close>)
qed

lemma page_records_rebuild: "page_ok u rows \<Longrightarrow> page_Apply u q (page_Records rows) = (rows, True)"
proof -
  assume ok: "page_ok u rows"
  from page_rebuild [OF ok le_refl] obtain m where m: "m \<le> length rows" "foldl apply_record [] (map RRow (filter (\<lambda>r. \<not> IsBlank r) rows)) = take m rows"
    "\<forall>i < length rows. m \<le> i \<longrightarrow> rows ! i = Blank i" by auto
  have "page_resize 0 q = []" by (simp add: page_resize_def)
  moreover have "page_resize (length rows) (take m rows) = rows"
    by (rule nth_equalityI) (use m in \<open>auto simp: nth_resize\<close>)
  ultimately have "foldl apply_record q (page_Records rows) = rows" using m(2) by (simp add: page_Records_def)
  then show ?thesis using page_Records_check [OF ok] by (simp add: page_Apply_def raster_Append_eq)
qed

text \<open>The page a renderer holds after updates, some of them refused.\<close>

definition page_of :: "unicode \<Rightarrow> raster_record list list \<Rightarrow> raster_row list" where
  "page_of u updates = foldl (\<lambda>rows recs. fst (page_Apply u rows recs)) [] updates"

lemma page_of_ok: "page_ok u (page_of u updates)"
proof -
  have "page_ok u rows \<Longrightarrow> page_ok u (foldl (\<lambda>rows recs. fst (page_Apply u rows recs)) rows updates)" for rows
    by (induction updates arbitrary: rows) (simp_all add: page_ok_Apply)
  then show ?thesis by (simp add: page_of_def page_ok_def)
qed

text \<open>Whatever updates a page has had, refused ones among them, it has at most 255 rows, each at its own index and
  valid or blank.\<close>

theorem page_rows_valid: "page_ok u (page_of u updates)"
  by (rule page_of_ok)

text \<open>C36. The records of a page, whatever its updates, are valid and rebuild it on any page, whatever it showed.\<close>

theorem page_records_whole: "page_Apply u q (page_Records (page_of u updates)) = (page_of u updates, True)"
  by (rule page_records_rebuild [OF page_of_ok])

end
