(* ===== verification/RasterDraft.thy ===== *)
theory RasterDraft
  imports RasterProps
begin

text \<open>
  What \<open>typeset/raster\<close> promises of a draft: its row is canonical and shows what was drawn, two rows of one index and
  role that show the same are the same, and a draft is refused only for a link of two colours or two backgrounds.
\<close>

section \<open>What a row shows\<close>

text \<open>The cells of a row, and what a reader sees of a cell: a space shows no foreground.\<close>

definition draw :: "segment \<Rightarrow> cell list" where
  "draw s = map (\<lambda>g. \<lparr>glyph = g, fg = FG s, bg = BG s, target = Target s\<rparr>) (chars_of (Text s))"

definition drawing :: "raster_row \<Rightarrow> cell list" where
  "drawing r = concat (map draw (Segments r))"

definition see :: "cell \<Rightarrow> cell" where
  "see c = c\<lparr>fg := if glyph c = [32] then Default else fg c\<rparr>"

definition char_cells :: "cell list \<Rightarrow> bool" where
  "char_cells d \<longleftrightarrow> (\<forall>c \<in> set d. char (glyph c))"

lemma see_simps [simp]: "glyph (see c) = glyph c" "bg (see c) = bg c" "target (see c) = target c" "glyph c \<noteq> [32] \<Longrightarrow> fg (see c) = fg c"
  by (simp_all add: see_def)

lemma see_eq: "see c = see c' \<longleftrightarrow> glyph c = glyph c' \<and> bg c = bg c' \<and> target c = target c' \<and> (glyph c \<noteq> [32] \<longrightarrow> fg c = fg c')"
  by (cases c; cases c') (auto simp: see_def)

lemma draw_close:
  "\<forall>g \<in> set gs. char g \<Longrightarrow> draw (close_segment start col (concat gs) f b t) = map (\<lambda>g. \<lparr>glyph = g, fg = f, bg = b, target = t\<rparr>) gs"
  by (simp add: draw_def close_segment_def chars_concat)

section \<open>A draft's row shows the draft\<close>

text \<open>The segment open in \<open>split\<close> holds the glyphs \<open>gs\<close> so far.\<close>

definition open_glyphs :: "bool \<Rightarrow> bytes \<Rightarrow> bytes list \<Rightarrow> bool" where
  "open_glyphs seen txt gs \<longleftrightarrow> txt = concat gs \<and> (\<forall>g \<in> set gs. char g) \<and> (\<not> seen \<longrightarrow> (\<forall>g \<in> set gs. g = [32]))"

definition uniform :: "color \<Rightarrow> bytes \<Rightarrow> cell list \<Rightarrow> bool" where
  "uniform b t cs \<longleftrightarrow> (\<forall>c \<in> set cs. bg c = b \<and> target c = t \<and> char (glyph c))"

lemma uniform_Cons [simp]: "uniform b t (c # cs) \<longleftrightarrow> bg c = b \<and> target c = t \<and> char (glyph c) \<and> uniform b t cs"
  by (auto simp: uniform_def)

lemma split_loop_draw:
  "split_loop b t start f seen txt col cs = Some ss \<Longrightarrow> open_glyphs seen txt gs \<Longrightarrow> uniform b t cs \<Longrightarrow>
    map see (concat (map draw ss)) = map (\<lambda>g. see \<lparr>glyph = g, fg = f, bg = b, target = t\<rparr>) gs @ map see cs"
proof (induction cs arbitrary: start f seen "txt" col ss gs)
  case Nil
  then show ?case by (auto simp: open_glyphs_def draw_close)
next
  case (Cons c cs)
  have g: "char (glyph c)" "bg c = b" "target c = t" "uniform b t cs" using Cons.prems(3) by auto
  have o: "open_glyphs s (txt @ glyph c) (gs @ [glyph c])" if "s \<or> \<not> seen \<and> glyph c = [32]" for s
    using Cons.prems(2) g(1) that by (auto simp: open_glyphs_def)
  show ?case
  proof (cases "glyph c = [32] \<or> \<not> seen \<or> fg c = f")
    case True
    let ?f = "if glyph c \<noteq> [32] \<and> \<not> seen then fg c else f"
    let ?seen = "seen \<or> glyph c \<noteq> [32]"
    have "split_loop b t start ?f ?seen (txt @ glyph c) (col + 1) cs = Some ss" using Cons.prems(1) True by (auto split: if_splits)
    then have "map see (concat (map draw ss)) = map (\<lambda>g. see \<lparr>glyph = g, fg = ?f, bg = b, target = t\<rparr>) (gs @ [glyph c]) @ map see cs"
      by (rule Cons.IH) (use o [of ?seen] g in auto)
    moreover have "see \<lparr>glyph = glyph c, fg = ?f, bg = b, target = t\<rparr> = see c" using True g by (auto simp: see_eq)
    moreover have "map (\<lambda>g. see \<lparr>glyph = g, fg = ?f, bg = b, target = t\<rparr>) gs = map (\<lambda>g. see \<lparr>glyph = g, fg = f, bg = b, target = t\<rparr>) gs"
      using Cons.prems(2) by (auto simp: see_eq open_glyphs_def)
    ultimately show ?thesis by (simp only: map_append list.map append.assoc append_Cons append_Nil)
  next
    case False
    then obtain ss' where s: "split_loop b t col (fg c) seen (glyph c) (col + 1) cs = Some ss'" "ss = close_segment start col txt f b t # ss'"
      using Cons.prems(1) by (auto split: if_splits)
    have "map see (concat (map draw ss')) = map (\<lambda>g. see \<lparr>glyph = g, fg = fg c, bg = b, target = t\<rparr>) [glyph c] @ map see cs"
      by (rule Cons.IH [OF s(1)]) (use False g in \<open>auto simp: open_glyphs_def\<close>)
    moreover have "see \<lparr>glyph = glyph c, fg = fg c, bg = b, target = t\<rparr> = see c" using g by (simp add: see_eq)
    moreover have "draw (close_segment start col txt f b t) = map (\<lambda>g. \<lparr>glyph = g, fg = f, bg = b, target = t\<rparr>) gs"
      using Cons.prems(2) by (simp add: open_glyphs_def draw_close)
    ultimately show ?thesis using s(2) by simp
  qed
qed

abbreviation same :: "cell \<Rightarrow> cell \<Rightarrow> bool" where
  "same c x \<equiv> bg x = bg c \<and> target x = target c"

lemma uniform_run: "char_cells (c # cs) \<Longrightarrow> uniform (bg c) (target c) (c # takeWhile (same c) cs) \<and> char_cells (dropWhile (same c) cs)"
  by (auto simp: uniform_def char_cells_def dest: set_takeWhileD set_dropWhileD)

lemma draft_Cons:
  "draft_segments start (c # cs) = Some ss \<longleftrightarrow>
    (\<exists>a z. split start (c # takeWhile (same c) cs) = Some a \<and>
      draft_segments (start + length (c # takeWhile (same c) cs)) (dropWhile (same c) cs) = Some z \<and> ss = a @ z)"
  by (auto simp: Let_def split: option.splits)

declare draft_segments.simps(2) [simp del]

lemma draft_segments_draw: "draft_segments start d = Some ss \<Longrightarrow> char_cells d \<Longrightarrow> map see (concat (map draw ss)) = map see d"
proof (induction start d arbitrary: ss rule: draft_segments.induct)
  case (2 start c cs)
  obtain a z where s: "split start (c # takeWhile (same c) cs) = Some a"
    "draft_segments (start + length (c # takeWhile (same c) cs)) (dropWhile (same c) cs) = Some z" "ss = a @ z"
    using "2.prems"(1) unfolding draft_Cons by blast
  note u = uniform_run [OF "2.prems"(2)]
  have "map see (concat (map draw z)) = map see (dropWhile (same c) cs)"
    using "2.IH" [OF refl refl s(1)] s(2) u by blast
  moreover have "split_loop (bg c) (target c) start Default False [] start (c # takeWhile (same c) cs) = Some a"
    using s(1) by (simp add: split_def)
  then have "map see (concat (map draw a)) = map see (c # takeWhile (same c) cs)"
    using split_loop_draw [where gs = "[]"] u by (fastforce simp: open_glyphs_def)
  moreover have "map see cs = map see (takeWhile (same c) cs) @ map see (dropWhile (same c) cs)" by (simp flip: map_append)
  ultimately show ?case using s(3) by simp
qed simp

lemma draft_Row_Some: "draft_Row u d i = Some r \<longleftrightarrow> draft_segments 0 d = Some (Segments r) \<and> Index r = i \<and> Role r = 0 \<and> Row_Check u r"
  by (cases r) (auto simp: draft_Row_def Let_def split: option.splits)

section \<open>A valid row is the row of its own drawing\<close>

lemma hasGlyph_chars: "\<forall>g \<in> set (chars_of s). char g \<Longrightarrow> hasGlyph s = (\<exists>g \<in> set (chars_of s). g \<noteq> [32])"
proof -
  assume c: "\<forall>g \<in> set (chars_of s). char g"
  have "(\<forall>x \<in> set g. x = 32) = (g = [32])" if "char g" for g
  proof
    assume a: "\<forall>x \<in> set g. x = 32"
    from that have "g \<noteq> []" by (rule char_nonempty)
    then obtain x y where g: "g = x # y" by (cases g) auto
    then have "rune_len g = 1" using a by (simp add: rune_len_ascii)
    then show "g = [32]" using that a g by (simp add: char_def)
  qed simp
  then have "(\<forall>g \<in> set (chars_of s). \<forall>x \<in> set g. x = 32) = (\<forall>g \<in> set (chars_of s). g = [32])" using c by blast
  moreover have "(\<forall>x \<in> set (concat (chars_of s)). x = 32) = (\<forall>g \<in> set (chars_of s). \<forall>x \<in> set g. x = 32)" by auto
  ultimately show ?thesis unfolding hasGlyph_def concat_chars by blast
qed

text \<open>What a checked segment is, in cells.\<close>

lemma check_segment_draw:
  assumes "check_segment u col prior s"
  shows "length (draw s) = End s - Start s" "draw s \<noteq> []" "uniform (BG s) (Target s) (draw s)" "Start s = col" "Start s < End s"
    "\<forall>g \<in> set (chars_of (Text s)). char g" "hasGlyph (Text s) \<or> FG s = Default" "hasGlyph (Text s) = (\<exists>g \<in> set (chars_of (Text s)). g \<noteq> [32])"
proof -
  have t: "checkText u (Text s) = Some (End s - Start s)" "Start s < End s" using assms by (simp_all add: check_segment_def)
  then show c: "\<forall>g \<in> set (chars_of (Text s)). char g" by (auto simp: checkText_chars)
  show "length (draw s) = End s - Start s" using t by (simp add: draw_def checkText_chars)
  then show "draw s \<noteq> []" using t(2) by auto
  show "uniform (BG s) (Target s) (draw s)" using c by (auto simp: uniform_def draw_def)
  show "hasGlyph (Text s) = (\<exists>g \<in> set (chars_of (Text s)). g \<noteq> [32])" by (rule hasGlyph_chars [OF c])
qed (use assms in \<open>simp_all add: check_segment_def\<close>)

lemma split_loop_glyphs:
  "seen \<or> (\<exists>g \<in> set gs. g \<noteq> [32]) \<or> f = Default \<Longrightarrow>
    split_loop b t start (if seen then f else Default) seen tx col (map (\<lambda>g. \<lparr>glyph = g, fg = f, bg = b', target = t'\<rparr>) gs @ cs)
      = split_loop b t start f (seen \<or> (\<exists>g \<in> set gs. g \<noteq> [32])) (tx @ concat gs) (col + length gs) cs"
proof (induction gs arbitrary: seen tx col)
  case (Cons g gs)
  show ?case using Cons.prems Cons.IH [of "seen \<or> g \<noteq> [32]" "tx @ g" "col + 1"] by (cases seen; cases "g = [32]") (simp_all split: if_splits)
qed auto

lemma hd_glyph: "char g \<Longrightarrow> hd (g @ x) \<noteq> 32 \<Longrightarrow> g \<noteq> [32]"
  by auto

lemma close_same: "close_segment (Start s) (End s) (Text s) (FG s) (BG s) (Target s) = s"
  by (simp add: close_segment_def)

text \<open>The segments \<open>ss\<close> of one background and target after \<open>s\<close>.\<close>

lemma split_run:
  "check_segment u col prior s \<Longrightarrow> check_segments u (End s) (Some s) ss = Some e \<Longrightarrow> \<forall>x \<in> set (s # ss). BG x = b \<and> Target x = t \<Longrightarrow>
    split_loop b t (Start s) (FG s) (hasGlyph (Text s)) (Text s) (End s) (concat (map draw ss)) = Some (s # ss)"
proof (induction ss arbitrary: col prior s)
  case Nil
  then show ?case by (simp add: close_segment_def)
next
  case (Cons s' ss)
  then have s': "check_segment u (End s) (Some s) s'" and e: "check_segments u (End s') (Some s') ss = Some e" by (auto split: if_splits)
  have bt: "BG s = b" "Target s = t" "BG s' = b" "Target s' = t" using Cons.prems(3) by auto
  have "checkMeet s s'" using s' by (simp add: check_segment_def)
  then have m: "t = []" "FG s \<noteq> FG s'" "hasGlyph (Text s)" "hd (Text s') \<noteq> 32" using bt by (auto simp: checkMeet_def IsLink_def split: if_splits)
  note d = check_segment_draw [OF s']
  obtain g gs where gs: "chars_of (Text s') = g # gs" using d(2) by (cases "chars_of (Text s')") (auto simp: draw_def)
  have tx: "Text s' = g @ concat gs" using concat_chars [of "Text s'"] gs by simp
  have g: "g \<noteq> [32]" using m(4) tx by auto
  have len: "Suc (Start s' + length gs) = End s'" using d(1,5) gs by (simp add: draw_def)
  have "split_loop b t (Start s) (FG s) (hasGlyph (Text s)) (Text s) (End s) (concat (map draw (s' # ss)))
      = map_option (\<lambda>z. s # z) (split_loop b t (Start s') (FG s') True g (Start s' + 1) (map (\<lambda>g. \<lparr>glyph = g, fg = FG s', bg = b, target = t\<rparr>) gs @ concat (map draw ss)))"
    using g m(2,3) gs d(4) bt m(1) close_same [of s] by (simp add: draw_def [of s'])
  also have "split_loop b t (Start s') (FG s') True g (Start s' + 1) (map (\<lambda>g. \<lparr>glyph = g, fg = FG s', bg = b, target = t\<rparr>) gs @ concat (map draw ss))
      = split_loop b t (Start s') (FG s') True (Text s') (End s') (concat (map draw ss))"
    using split_loop_glyphs [of True gs "FG s'" b t "Start s'" g "Start s' + 1" b t "concat (map draw ss)"] tx len by simp
  also have "\<dots> = Some (s' # ss)"
  proof -
    have "hasGlyph (Text s')" using d(8) gs g by simp
    then show ?thesis using Cons.IH [OF s' e] Cons.prems(3) by simp
  qed
  finally show ?case by simp
qed

lemma split_drawn:
  assumes "check_segment u col prior s" "check_segments u (End s) (Some s) ss = Some e" "\<forall>x \<in> set (s # ss). BG x = b \<and> Target x = t"
  shows "split_loop b t (Start s) Default False [] (Start s) (draw s @ concat (map draw ss)) = Some (s # ss)"
proof -
  note d = check_segment_draw [OF assms(1)]
  have "Start s + length (chars_of (Text s)) = End s" using d(1,5) by (simp add: draw_def)
  then have "split_loop b t (Start s) Default False [] (Start s) (draw s @ concat (map draw ss))
      = split_loop b t (Start s) (FG s) (hasGlyph (Text s)) (Text s) (End s) (concat (map draw ss))"
    using split_loop_glyphs [of False "chars_of (Text s)" "FG s" b t "Start s" "[]" "Start s" "BG s" "Target s" "concat (map draw ss)"] d(7,8)
    by (simp add: draw_def [of s] concat_chars)
  then show ?thesis using split_run [OF assms] by simp
qed

text \<open>The cells of a row, a stretch at a time.\<close>

lemma check_segments_append:
  "check_segments u col prior (xs @ ys) = Some e \<Longrightarrow>
    check_segments u col prior xs = Some (col + length (concat (map draw xs))) \<and>
    check_segments u (col + length (concat (map draw xs))) (if xs = [] then prior else Some (last xs)) ys = Some e"
proof (induction xs arbitrary: col prior)
  case (Cons x xs)
  then have x: "check_segment u col prior x" and e: "check_segments u (End x) (Some x) (xs @ ys) = Some e" by (auto split: if_splits)
  have "col + length (draw x) = End x" using check_segment_draw(1,4,5) [OF x] by simp
  then show ?case using Cons.IH [OF e] x by (auto simp: add.assoc [symmetric])
qed simp

lemma check_segments_draws: "check_segments u col prior ss = Some e \<Longrightarrow> \<forall>s \<in> set ss. draw s \<noteq> [] \<and> uniform (BG s) (Target s) (draw s)"
proof (induction ss arbitrary: col prior)
  case (Cons s ss)
  then have s: "check_segment u col prior s" and e: "check_segments u (End s) (Some s) ss = Some e" by (auto split: if_splits)
  show ?case using check_segment_draw(2,3) [OF s] Cons.IH [OF e] by simp
qed simp

lemma stretch_draws:
  "\<forall>s \<in> set ss. draw s \<noteq> [] \<and> uniform (BG s) (Target s) (draw s) \<Longrightarrow>
    takeWhile (\<lambda>x. bg x = b \<and> target x = t) (concat (map draw ss)) = concat (map draw (takeWhile (\<lambda>s. BG s = b \<and> Target s = t) ss)) \<and>
    dropWhile (\<lambda>x. bg x = b \<and> target x = t) (concat (map draw ss)) = concat (map draw (dropWhile (\<lambda>s. BG s = b \<and> Target s = t) ss))"
proof (induction ss)
  case (Cons s ss)
  then have ih: "takeWhile (\<lambda>x. bg x = b \<and> target x = t) (concat (map draw ss)) = concat (map draw (takeWhile (\<lambda>s. BG s = b \<and> Target s = t) ss))"
    "dropWhile (\<lambda>x. bg x = b \<and> target x = t) (concat (map draw ss)) = concat (map draw (dropWhile (\<lambda>s. BG s = b \<and> Target s = t) ss))"
    and s: "draw s \<noteq> []" "\<forall>x \<in> set (draw s). bg x = BG s \<and> target x = Target s" by (auto simp: uniform_def)
  show ?case
  proof (cases "BG s = b \<and> Target s = t")
    case True
    then have "\<And>x. x \<in> set (draw s) \<Longrightarrow> bg x = b \<and> target x = t" using s(2) by simp
    from takeWhile_append2 [of "draw s" "\<lambda>x. bg x = b \<and> target x = t", OF this] dropWhile_append2 [of "draw s" "\<lambda>x. bg x = b \<and> target x = t", OF this]
    show ?thesis using True ih by simp
  next
    case False
    obtain c cs where c: "draw s = c # cs" using s(1) by (cases "draw s") auto
    then have "\<not> (bg c = b \<and> target c = t)" using s(2) False by auto
    then show ?thesis using False c by auto
  qed
qed simp

lemma draft_segments_drawn: "check_segments u col prior ss = Some e \<Longrightarrow> draft_segments col (concat (map draw ss)) = Some ss"
proof (induction "length ss" arbitrary: col prior ss rule: less_induct)
  case less
  show ?case
  proof (cases ss)
    case (Cons s ss')
    let ?same = "\<lambda>x. BG x = BG s \<and> Target x = Target s"
    define run rest where "run = takeWhile ?same ss'" and "rest = dropWhile ?same ss'"
    have ss': "ss' = run @ rest" by (simp add: run_def rest_def)
    have s: "check_segment u col prior s" and e: "check_segments u (End s) (Some s) (run @ rest) = Some e"
      using less.prems Cons ss' by (auto split: if_splits)
    note d = check_segment_draw [OF s]
    let ?n = "length (concat (map draw run))"
    have r: "check_segments u (End s) (Some s) run = Some (End s + ?n)"
      "check_segments u (End s + ?n) (if run = [] then Some s else Some (last run)) rest = Some e"
      using check_segments_append [OF e] by auto
    obtain c cs where c: "draw s = c # cs" using d(2) by (cases "draw s") auto
    have u: "bg c = BG s" "target c = Target s" "\<And>x. x \<in> set cs \<Longrightarrow> same c x" using d(3) c by (auto simp: uniform_def)
    have "check_segments u (End s) (Some s) ss' = Some e" using e ss' by simp
    from stretch_draws [OF check_segments_draws [OF this], of "BG s" "Target s"]
    have st: "takeWhile (same c) (concat (map draw ss')) = concat (map draw run)" "dropWhile (same c) (concat (map draw ss')) = concat (map draw rest)"
      unfolding run_def rest_def u(1,2) by blast+
    have tw: "takeWhile (same c) (cs @ concat (map draw ss')) = cs @ concat (map draw run)"
      "dropWhile (same c) (cs @ concat (map draw ss')) = concat (map draw rest)"
      using u(3) st by (simp_all add: takeWhile_append2 dropWhile_append2)
    have "split col (c # cs @ concat (map draw run)) = Some (s # run)"
    proof -
      have "\<forall>x \<in> set (s # run). BG x = BG s \<and> Target x = Target s" unfolding run_def by (auto dest: set_takeWhileD)
      from split_drawn [OF s r(1) this] show ?thesis using u c d(4) by (simp add: split_def)
    qed
    moreover have len: "col + length (c # cs @ concat (map draw run)) = End s + ?n" using d(1,4,5) c by simp
    have "draft_segments (col + length (c # cs @ concat (map draw run))) (concat (map draw rest)) = Some rest"
      unfolding len by (rule less.hyps [OF _ r(2)]) (simp add: Cons ss')
    ultimately have "draft_segments col (c # cs @ concat (map draw ss')) = Some (s # run @ rest)"
      unfolding draft_Cons tw by simp
    then show ?thesis using Cons c ss' by simp
  qed simp
qed

lemma draft_of_row: "Row_Check u r \<Longrightarrow> draft_segments 0 (drawing r) = Some (Segments r)"
  unfolding drawing_def by (rule draft_segments_drawn [of u 0 None _ Width]) (simp add: Row_Check_def row_check_def)

lemma split_see: "split_loop b t start f seen tx col (map see cs) = split_loop b t start f seen tx col cs"
  by (induction cs arbitrary: t start f seen tx col) simp_all

lemma draft_see: "draft_segments start (map see d) = draft_segments start d"
proof (induction start d rule: draft_segments.induct)
  case (2 start c cs)
  have w: "takeWhile (same (see c)) (map see cs) = map see (takeWhile (same c) cs)"
    "dropWhile (same (see c)) (map see cs) = map see (dropWhile (same c) cs)"
    by (simp_all add: takeWhile_map dropWhile_map comp_def)
  have s: "split start (map see (c # takeWhile (same c) cs)) = split start (c # takeWhile (same c) cs)"
    unfolding split_def split_see by simp
  show ?case
  proof (cases "split start (c # takeWhile (same c) cs)")
    case None
    then show ?thesis using s w by (simp add: draft_segments.simps(2) Let_def)
  next
    case (Some a)
    then show ?thesis using s w "2.IH" [OF refl refl Some] by (simp add: draft_segments.simps(2) Let_def)
  qed
qed simp

section \<open>When a draft has a row\<close>

text \<open>A link whose glyphs have more than one foreground, or that meets itself on another background, is refused.\<close>

fun one_colour :: "cell list \<Rightarrow> bool" where
  "one_colour [] = True"
| "one_colour (c # cs) =
     ((target c \<noteq> [] \<and> glyph c \<noteq> [32] \<longrightarrow> (\<forall>x \<in> set (takeWhile (same c) cs). glyph x \<noteq> [32] \<longrightarrow> fg x = fg c)) \<and> one_colour cs)"

definition one_background :: "cell list \<Rightarrow> bool" where
  "one_background d \<longleftrightarrow> successively (\<lambda>x y. target x \<noteq> [] \<and> target y = target x \<longrightarrow> bg y = bg x) d"

definition good_cell :: "unicode \<Rightarrow> cell \<Rightarrow> bool" where
  "good_cell u c \<longleftrightarrow> char (glyph c) \<and> checkColumn u (glyph c) \<and> checkColor (fg c) \<and> checkColor (bg c) \<and> (target c = [] \<or> CheckTarget (target c) = None)"

definition apart :: "segment option \<Rightarrow> color \<Rightarrow> bytes \<Rightarrow> bool" where
  "apart prior b t \<longleftrightarrow> (case prior of None \<Rightarrow> True | Some p \<Rightarrow> (BG p \<noteq> b \<or> Target p \<noteq> t) \<and> (Target p \<noteq> [] \<longrightarrow> Target p \<noteq> t))"

definition open_meets :: "segment option \<Rightarrow> color \<Rightarrow> bytes \<Rightarrow> color \<Rightarrow> bool \<Rightarrow> bytes \<Rightarrow> bool" where
  "open_meets prior b t f seen tx \<longleftrightarrow> apart prior b t \<or>
     (\<exists>p. prior = Some p \<and> t = [] \<and> Target p = [] \<and> BG p = b \<and> FG p \<noteq> f \<and> seen \<and> hasGlyph (Text p) \<and> tx \<noteq> [] \<and> hd tx \<noteq> 32)"

text \<open>The open segment of \<open>split\<close>, so far as a row's check goes.\<close>

definition open_ok :: "unicode \<Rightarrow> segment option \<Rightarrow> color \<Rightarrow> bytes \<Rightarrow> nat \<Rightarrow> color \<Rightarrow> bool \<Rightarrow> bytes \<Rightarrow> nat \<Rightarrow> bytes list \<Rightarrow> bool" where
  "open_ok u prior b t start f seen tx col gs \<longleftrightarrow>
     open_glyphs seen tx gs \<and> (\<forall>g \<in> set gs. checkColumn u g) \<and> checkColor f \<and> checkColor b \<and> (t = [] \<or> CheckTarget t = None)
     \<and> (seen \<or> f = Default) \<and> (seen \<longrightarrow> (\<exists>g \<in> set gs. g \<noteq> [32])) \<and> col = start + length gs \<and> open_meets prior b t f seen tx"

lemma close_fields [simp]:
  "Start (close_segment start col tx f b t) = start" "End (close_segment start col tx f b t) = col" "Text (close_segment start col tx f b t) = tx"
  "FG (close_segment start col tx f b t) = f" "BG (close_segment start col tx f b t) = b" "Target (close_segment start col tx f b t) = t"
  by (simp_all add: close_segment_def)

lemma open_hasGlyph: "open_ok u prior b t start f seen tx col gs \<Longrightarrow> hasGlyph tx = seen"
proof -
  assume o: "open_ok u prior b t start f seen tx col gs"
  then have g: "tx = concat gs" "\<forall>g \<in> set gs. char g" and s: "seen = (\<exists>g \<in> set gs. g \<noteq> [32])"
    by (auto simp: open_ok_def open_glyphs_def)
  have "chars_of tx = gs" using chars_concat [OF g(2)] g(1) by simp
  then show ?thesis using hasGlyph_chars [of tx] g(2) s by simp
qed

lemma check_close:
  assumes o: "open_ok u prior b t start f seen tx col gs" and "gs \<noteq> []" "col \<le> Width"
  shows "check_segment u start prior (close_segment start col tx f b t)"
proof -
  have g: "tx = concat gs" "\<forall>g \<in> set gs. char g \<and> checkColumn u g" "col = start + length gs" using o by (auto simp: open_ok_def open_glyphs_def)
  have "chars_of tx = gs" using chars_concat [of gs] g by simp
  then have "checkText u tx = Some (col - start)" using g by (simp add: checkText_chars)
  moreover have "start < col" using g(3) \<open>gs \<noteq> []\<close> by simp
  moreover have "case prior of None \<Rightarrow> True | Some p \<Rightarrow> checkMeet p (close_segment start col tx f b t)"
    using o by (auto simp: open_ok_def open_meets_def apart_def checkMeet_def IsLink_def split: option.splits)
  ultimately show ?thesis using o \<open>col \<le> Width\<close> open_hasGlyph [OF o]
    by (auto simp: check_segment_def open_ok_def IsLink_def)
qed

lemma open_step:
  assumes o: "open_ok u prior b t start f seen tx col gs" and c: "good_cell u c" "glyph c = [32] \<or> \<not> seen \<or> fg c = f"
  shows "open_ok u prior b t start (if glyph c \<noteq> [32] \<and> \<not> seen then fg c else f) (seen \<or> glyph c \<noteq> [32]) (tx @ glyph c) (col + 1) (gs @ [glyph c])"
proof -
  have "open_meets prior b t (if glyph c \<noteq> [32] \<and> \<not> seen then fg c else f) (seen \<or> glyph c \<noteq> [32]) (tx @ glyph c)"
    using o by (auto simp: open_ok_def open_meets_def)
  then show ?thesis using o c by (auto simp: open_ok_def open_glyphs_def good_cell_def)
qed

lemma open_new:
  assumes o: "open_ok u prior b [] start f True tx col gs" and c: "good_cell u c" "glyph c \<noteq> [32]" "fg c \<noteq> f"
  shows "open_ok u (Some (close_segment start col tx f b [])) b [] col (fg c) True (glyph c) (col + 1) [glyph c]"
proof -
  have g: "char (glyph c)" using c(1) by (simp add: good_cell_def)
  have "hd (glyph c) \<noteq> 32"
  proof
    assume h: "hd (glyph c) = 32"
    obtain x y where xy: "glyph c = x # y" using char_nonempty [OF g] by (cases "glyph c") auto
    then have "rune_len (glyph c) = 1" using h by (simp add: rune_len_ascii)
    then show False using g xy h c(2) by (simp add: char_def)
  qed
  then have "open_meets (Some (close_segment start col tx f b [])) b [] (fg c) True (glyph c)"
    using open_hasGlyph [OF o] char_nonempty [OF g] c(3) by (simp add: open_meets_def close_segment_def)
  then show ?thesis using o c g by (auto simp: open_ok_def open_glyphs_def good_cell_def)
qed

lemma split_loop_check:
  "split_loop b t start f seen tx col cs = Some ss \<Longrightarrow> open_ok u prior b t start f seen tx col gs \<Longrightarrow>
    \<forall>c \<in> set cs. good_cell u c \<Longrightarrow> gs \<noteq> [] \<or> cs \<noteq> [] \<Longrightarrow> col + length cs \<le> Width \<Longrightarrow>
    check_segments u start prior ss = Some (col + length cs) \<and> ss \<noteq> [] \<and> BG (last ss) = b \<and> Target (last ss) = t"
proof (induction cs arbitrary: prior start f seen tx col ss gs)
  case Nil
  have "check_segment u start prior (close_segment start col tx f b t)" by (rule check_close [OF Nil(2)]) (use Nil in auto)
  then show ?case using Nil by (auto simp: close_segment_def)
next
  case (Cons c cs)
  show ?case
  proof (cases "glyph c = [32] \<or> \<not> seen \<or> fg c = f")
    case True
    let ?f = "if glyph c \<noteq> [32] \<and> \<not> seen then fg c else f" and ?seen = "seen \<or> glyph c \<noteq> [32]"
    have "split_loop b t start ?f ?seen (tx @ glyph c) (col + 1) cs = Some ss" using Cons.prems(1) True by (auto split: if_splits)
    moreover have "open_ok u prior b t start ?f ?seen (tx @ glyph c) (col + 1) (gs @ [glyph c])"
      by (rule open_step [OF Cons.prems(2)]) (use Cons.prems(3) True in auto)
    ultimately show ?thesis using Cons.IH [of start ?f ?seen "tx @ glyph c" "col + 1" ss prior "gs @ [glyph c]"] Cons.prems(3,5) by simp
  next
    case False
    then obtain ss' where s: "split_loop b t col (fg c) seen (glyph c) (col + 1) cs = Some ss'" "ss = close_segment start col tx f b t # ss'" and t: "t = []"
      using Cons.prems(1) by (auto split: if_splits)
    have gs: "gs \<noteq> []" using Cons.prems(2) False by (auto simp: open_ok_def)
    have a: "check_segment u start prior (close_segment start col tx f b t)" by (rule check_close [OF Cons.prems(2) gs]) (use Cons.prems in auto)
    have "open_ok u (Some (close_segment start col tx f b t)) b t col (fg c) seen (glyph c) (col + 1) [glyph c]"
      using open_new [of u prior b start f tx col gs c] Cons.prems(2,3) False t by auto
    from Cons.IH [OF s(1) this] have "check_segments u col (Some (close_segment start col tx f b t)) ss' = Some (col + length (c # cs)) \<and>
      ss' \<noteq> [] \<and> BG (last ss') = b \<and> Target (last ss') = t" using Cons.prems(3,5) by simp
    then show ?thesis using a s(2) by (simp add: close_segment_def)
  qed
qed

lemma check_segments_join:
  "check_segments u col prior xs = Some c \<Longrightarrow> xs \<noteq> [] \<Longrightarrow> check_segments u c (Some (last xs)) ys = e \<Longrightarrow> check_segments u col prior (xs @ ys) = e"
proof (induction xs arbitrary: col prior)
  case (Cons x xs)
  then have "check_segment u col prior x" "check_segments u (End x) (Some x) xs = Some c" by (auto split: if_splits)
  then show ?case using Cons by (cases xs) auto
qed simp

lemma stretch_bounds:
  assumes "one_background (c # rn @ rest)" "\<forall>x \<in> set rn. same c x" "rest \<noteq> []" "\<not> same c (hd rest)"
  shows "target c \<noteq> [] \<longrightarrow> target (hd rest) \<noteq> target c"
proof -
  have l: "same c (last (c # rn))" using assms(2) last_in_set [of "c # rn"] by auto
  have "one_background ((c # rn) @ rest)" using assms(1) by simp
  then have "target (last (c # rn)) \<noteq> [] \<and> target (hd rest) = target (last (c # rn)) \<longrightarrow> bg (hd rest) = bg (last (c # rn))"
    using assms(3) unfolding one_background_def successively_append_iff by blast
  then show ?thesis using l assms(4) by metis
qed

lemma one_background_append: "one_background (xs @ ys) \<Longrightarrow> one_background ys"
  unfolding one_background_def successively_append_iff by blast

lemma draft_segments_check:
  "draft_segments start d = Some ss \<Longrightarrow> \<forall>c \<in> set d. good_cell u c \<Longrightarrow> start + length d \<le> Width \<Longrightarrow> one_background d \<Longrightarrow>
    d \<noteq> [] \<longrightarrow> apart prior (bg (hd d)) (target (hd d)) \<Longrightarrow> check_segments u start prior ss = Some (start + length d)"
proof (induction start d arbitrary: ss prior rule: draft_segments.induct)
  case (2 start c cs)
  define rn rest where "rn = takeWhile (same c) cs" and "rest = dropWhile (same c) cs"
  have cs: "cs = rn @ rest" by (simp add: rn_def rest_def)
  obtain a z where s: "split start (c # rn) = Some a" "draft_segments (start + length (c # rn)) rest = Some z" "ss = a @ z"
    using "2.prems"(1) unfolding draft_Cons rn_def [symmetric] rest_def [symmetric] by blast
  have good: "\<forall>x \<in> set (c # rn). good_cell u x" "\<forall>x \<in> set rest. good_cell u x" using "2.prems"(2) cs by auto
  have len: "start + length (c # rn) + length rest \<le> Width" using "2.prems"(3) cs by simp
  have ap: "apart prior (bg c) (target c)" using "2.prems"(5) by simp
  have o: "open_ok u prior (bg c) (target c) start Default False [] start []"
    using good(1) ap by (simp add: open_ok_def open_glyphs_def open_meets_def good_cell_def checkColor_def)
  have sl: "split_loop (bg c) (target c) start Default False [] start (c # rn) = Some a" using s(1) unfolding split_def list.sel .
  have "start + length (c # rn) \<le> Width" using len by simp
  from split_loop_check [OF sl o good(1) _ this]
  have a: "check_segments u start prior a = Some (start + length (c # rn))" "a \<noteq> []" "BG (last a) = bg c" "Target (last a) = target c"
    by blast+
  have same: "\<forall>x \<in> set rn. same c x" unfolding rn_def by (auto dest: set_takeWhileD)
  have bgs: "one_background (c # rn @ rest)" using "2.prems"(4) cs by simp
  then have bgr: "one_background rest" using one_background_append [of "c # rn" rest] by simp
  have "rest \<noteq> [] \<longrightarrow> \<not> same c (hd rest)" using hd_dropWhile [of "same c" cs] unfolding rest_def by blast
  then have "rest \<noteq> [] \<longrightarrow> apart (Some (last a)) (bg (hd rest)) (target (hd rest))"
    using stretch_bounds [OF bgs same] unfolding apart_def option.case a(3,4) by metis
  from "2.IH" [OF refl refl, folded rn_def rest_def, OF s(1,2) good(2) len bgr this]
  have "check_segments u (start + length (c # rn)) (Some (last a)) z = Some (start + length (c # rn) + length rest)" .
  from check_segments_join [OF a(1,2) this] show ?case using s(3) cs by simp
qed simp

lemma one_colour_uniform:
  "uniform (bg c) (target c) cs \<Longrightarrow>
    one_colour (c # cs) \<longleftrightarrow> (target c \<noteq> [] \<and> glyph c \<noteq> [32] \<longrightarrow> (\<forall>x \<in> set cs. glyph x \<noteq> [32] \<longrightarrow> fg x = fg c)) \<and> one_colour cs"
proof -
  assume "uniform (bg c) (target c) cs"
  then have tw: "takeWhile (same c) cs = cs" by (auto simp: uniform_def takeWhile_eq_all_conv)
  show ?thesis unfolding one_colour.simps tw ..
qed

lemma split_loop_colour:
  "uniform b t cs \<Longrightarrow> split_loop b t start f seen tx col cs \<noteq> None \<longleftrightarrow> t = [] \<or> ((seen \<longrightarrow> (\<forall>x \<in> set cs. glyph x \<noteq> [32] \<longrightarrow> fg x = f)) \<and> one_colour cs)"
proof (induction cs arbitrary: start f seen tx col)
  case (Cons c cs)
  then have u: "bg c = b" "target c = t" "uniform b t cs" by auto
  have o: "one_colour (c # cs) \<longleftrightarrow> (t \<noteq> [] \<and> glyph c \<noteq> [32] \<longrightarrow> (\<forall>x \<in> set cs. glyph x \<noteq> [32] \<longrightarrow> fg x = fg c)) \<and> one_colour cs"
    using one_colour_uniform [of c cs] u by simp
  note ih = Cons.IH [OF u(3)]
  show ?case
  proof (cases "glyph c = [32] \<or> \<not> seen \<or> fg c = f")
    case True
    let ?f = "if glyph c \<noteq> [32] \<and> \<not> seen then fg c else f" and ?seen = "seen \<or> glyph c \<noteq> [32]"
    have "split_loop b t start f seen tx col (c # cs) = split_loop b t start ?f ?seen (tx @ glyph c) (col + 1) cs" using True by auto
    then show ?thesis unfolding o using ih [of start ?f ?seen "tx @ glyph c" "col + 1"] True by (auto split: if_splits)
  next
    case False
    then show ?thesis unfolding o using ih [of col "fg c" seen "glyph c" "col + 1"] by auto
  qed
qed simp

lemma one_colour_append: "uniform b t rn \<Longrightarrow> rest \<noteq> [] \<longrightarrow> \<not> (bg (hd rest) = b \<and> target (hd rest) = t) \<Longrightarrow> one_colour (rn @ rest) \<longleftrightarrow> one_colour rn \<and> one_colour rest"
proof (induction rn)
  case (Cons c rn)
  have ih: "one_colour (rn @ rest) \<longleftrightarrow> one_colour rn \<and> one_colour rest" using Cons by simp
  have "takeWhile (same c) rest = []" using Cons.prems by (cases rest) auto
  moreover have "takeWhile (same c) (rn @ rest) = rn @ takeWhile (same c) rest"
    using Cons.prems(1) by (intro takeWhile_append2) (auto simp: uniform_def)
  ultimately have tw: "takeWhile (same c) (rn @ rest) = rn" by simp
  have u: "uniform (bg c) (target c) rn" using Cons.prems(1) by simp
  show ?case unfolding one_colour_uniform [OF u] append_Cons one_colour.simps(2) [of c "rn @ rest"] tw ih by blast
qed simp

lemma one_colour_plain: "uniform b [] cs \<Longrightarrow> one_colour cs"
  by (induction cs) auto

lemma draft_segments_colour: "char_cells d \<Longrightarrow> draft_segments start d \<noteq> None \<longleftrightarrow> one_colour d"
proof (induction start d rule: draft_segments.induct)
  case (2 start c cs)
  define rn rest where "rn = takeWhile (same c) cs" and "rest = dropWhile (same c) cs"
  have cs: "cs = rn @ rest" by (simp add: rn_def rest_def)
  have u: "uniform (bg c) (target c) (c # rn)" "char_cells rest" using uniform_run [OF "2.prems"] unfolding rn_def rest_def by auto
  have ne: "rest \<noteq> [] \<longrightarrow> \<not> (bg (hd rest) = bg c \<and> target (hd rest) = target c)" using hd_dropWhile [of "same c" cs] unfolding rest_def by blast
  have col: "one_colour (c # cs) \<longleftrightarrow> one_colour (c # rn) \<and> one_colour rest" using one_colour_append [OF u(1) ne] cs by simp
  have rn: "split start (c # rn) \<noteq> None \<longleftrightarrow> one_colour (c # rn)"
  proof (cases "target c = []")
    case True
    then show ?thesis using split_loop_colour [OF u(1)] one_colour_plain [of "bg c" "c # rn"] u(1) by (simp add: split_def del: one_colour.simps split_loop.simps)
  next
    case False
    then show ?thesis using split_loop_colour [OF u(1), of start Default False "[]" start] by (simp add: split_def del: one_colour.simps split_loop.simps)
  qed
  have "draft_segments start (c # cs) \<noteq> None \<longleftrightarrow> split start (c # rn) \<noteq> None \<and> draft_segments (start + length (c # rn)) rest \<noteq> None"
    using draft_Cons [of start c cs] unfolding rn_def [symmetric] rest_def [symmetric] by blast
  moreover have "draft_segments (start + length (c # rn)) rest \<noteq> None \<longleftrightarrow> one_colour rest" if "split start (c # rn) = Some a" for a
    using "2.IH" [OF refl refl, folded rn_def rest_def, OF that u(2)] .
  ultimately show ?case using rn col by blast
qed simp

lemma checked_background:
  "check_segments u col prior ss = Some e \<Longrightarrow> one_background (concat (map draw ss)) \<and>
    (ss \<noteq> [] \<longrightarrow> prior = Some p \<longrightarrow> Target p \<noteq> [] \<and> target (hd (concat (map draw ss))) = Target p \<longrightarrow> bg (hd (concat (map draw ss))) = BG p)"
proof (induction ss arbitrary: col prior p)
  case (Cons s ss)
  then have s: "check_segment u col prior s" and e: "check_segments u (End s) (Some s) ss = Some e" by (auto split: if_splits)
  note d = check_segment_draw(2,3) [OF s]
  note ih = Cons.IH [OF e, of s]
  have m: "prior = Some p \<longrightarrow> checkMeet p s" using s by (auto simp: check_segment_def)
  have "one_background (draw s)"
    using d(2) unfolding one_background_def uniform_def by (induction "draw s") (auto simp: successively_conv_nth)
  moreover have "target (last (draw s)) = Target s \<and> bg (last (draw s)) = BG s" using d by (auto simp: uniform_def)
  moreover have "concat (map draw ss) \<noteq> [] \<longrightarrow> ss \<noteq> []" by auto
  ultimately have "one_background (draw s @ concat (map draw ss))"
    using ih unfolding one_background_def successively_append_iff by auto
  moreover have "hd (draw s @ concat (map draw ss)) \<in> set (draw s)" using d(1) by simp
  then have "target (hd (draw s @ concat (map draw ss))) = Target s \<and> bg (hd (draw s @ concat (map draw ss))) = BG s" using d(2) by (auto simp: uniform_def)
  ultimately show ?case using m by (auto simp: checkMeet_def IsLink_def split: if_splits)
qed (simp add: one_background_def)

lemma background_see: "map see d = map see d' \<Longrightarrow> one_background d = one_background d'"
proof -
  have "one_background (map see d) = one_background d" for d by (simp add: one_background_def successively_map)
  then show "map see d = map see d' \<Longrightarrow> ?thesis" by metis
qed

lemma row_Text_cells: "row_Text r = concat (map glyph (drawing r))"
proof -
  have "concat (map glyph (draw s)) = Text s" for s by (simp add: draw_def comp_def concat_chars)
  then have "concat (map Text ss) = concat (map glyph (concat (map draw ss)))" for ss by (induction ss) simp_all
  then show ?thesis unfolding row_Text_def drawing_def .
qed

lemma see_glyphs: "map see d = map see d' \<Longrightarrow> map glyph d = map glyph d'"
proof -
  have "map glyph (map see d) = map glyph d" for d by (simp add: comp_def)
  then show "map see d = map see d' \<Longrightarrow> ?thesis" by metis
qed

lemma draft_row_see: "draft_Row u d i = Some r \<Longrightarrow> char_cells d \<Longrightarrow> map see (drawing r) = map see d"
  unfolding drawing_def using draft_segments_draw [of 0 d "Segments r"] by (simp add: draft_Row_Some)

lemma draft_row_iff:
  assumes "\<forall>c \<in> set d. good_cell u c" "length d = Width" "is_normal u (concat (map glyph d))" "i \<le> MaxRow"
  shows "draft_Row u d i \<noteq> None \<longleftrightarrow> one_colour d \<and> one_background d"
proof -
  have cc: "char_cells d" using assms(1) by (auto simp: char_cells_def good_cell_def)
  show ?thesis
  proof
    assume "draft_Row u d i \<noteq> None"
    then obtain r where r: "draft_Row u d i = Some r" by blast
    then have s: "draft_segments 0 d = Some (Segments r)" "Row_Check u r" by (simp_all add: draft_Row_Some)
    have "one_background (drawing r)" unfolding drawing_def
      using checked_background [of u 0 None "Segments r" Width] s(2) by (simp add: Row_Check_def row_check_def)
    then show "one_colour d \<and> one_background d"
      using background_see [OF draft_row_see [OF r cc]] draft_segments_colour [OF cc, of 0] s(1) by simp
  next
    assume a: "one_colour d \<and> one_background d"
    then obtain ss where ss: "draft_segments 0 d = Some ss" using draft_segments_colour [OF cc, of 0] by blast
    define r where "r = \<lparr>Index = i, Role = 0, Segments = ss\<rparr>"
    have c: "check_segments u 0 None ss = Some Width"
      using draft_segments_check [OF ss assms(1), of None] assms(2) a by (simp add: apart_def)
    have "map see (drawing r) = map see d" unfolding drawing_def using draft_segments_draw [OF ss cc] by (simp add: r_def)
    then have "row_Text r = concat (map glyph d)" unfolding row_Text_cells using see_glyphs by metis
    then have "row_check u r" using c assms(3) unfolding row_check_def by (auto simp: r_def)
    then have "draft_Row u d i = Some r" using ss assms(4) by (simp add: draft_Row_Some Row_Check_def r_def)
    then show "draft_Row u d i \<noteq> None" by simp
  qed
qed

text \<open>The drafts a producer makes.\<close>

inductive drawn :: "unicode \<Rightarrow> cell list \<Rightarrow> bool" for u where
  drawn_new: "drawn u (NewDraft b)"
| drawn_put: "drawn u d \<Longrightarrow> Put u d col s f b t = Some (d', n) \<Longrightarrow> drawn u d'"

lemma put_cells_set: "length (put_cells d col rs f b t) = length d \<and>
    set (put_cells d col rs f b t) \<subseteq> set d \<union> {\<lparr>glyph = g, fg = f, bg = b, target = t\<rparr> | g. g \<in> set rs}"
proof (induction rs arbitrary: d col)
  case (Cons r rs)
  show ?case using Cons [of "d[col := \<lparr>glyph = r, fg = f, bg = b, target = t\<rparr>]" "col + 1"]
      set_update_subset_insert [of d col "\<lparr>glyph = r, fg = f, bg = b, target = t\<rparr>"] by auto
qed simp

lemma Put_Some: "Put u d col s f b t = Some (d', n) \<longleftrightarrow>
    Columns u s = Some (n - col) \<and> col \<le> n \<and> n \<le> Width \<and> d' = put_cells d col (chars_of (NFC u s)) f b t"
  by (auto simp: Put_def split: option.splits)

lemma drawn_cells: "drawn u d \<Longrightarrow> \<forall>s. utf8_valid s \<longrightarrow> utf8_valid (NFC u s) \<Longrightarrow> length d = Width \<and> char_cells d"
proof (induction rule: drawn.induct)
  case (drawn_new b)
  then show ?case by (simp add: NewDraft_def char_cells_def char_def rune_len_ascii)
next
  case (drawn_put d col s f b t d' n)
  have p: "Columns u s = Some (n - col)" "d' = put_cells d col (chars_of (NFC u s)) f b t" using drawn_put.hyps(2) by (simp_all add: Put_Some)
  have "utf8_valid s" using p(1) by (simp add: Columns_def split: if_splits)
  then have "\<forall>g \<in> set (chars_of (NFC u s)). char g" using drawn_put.prems chars_text utf8_valid_text by metis
  then show ?case using drawn_put.IH [OF drawn_put.prems] put_cells_set [of d col "chars_of (NFC u s)" f b t] p(2)
    unfolding char_cells_def by fastforce
qed

text \<open>A table of Unicode for text in ASCII, to try the theorems on.\<close>

definition ascii_unicode :: unicode where
  "ascii_unicode = \<lparr>is_control = (\<lambda>g. hd g < 32), is_mark = (\<lambda>g. False), is_separator = (\<lambda>g. False), is_wide = (\<lambda>g. False),
     NFC = (\<lambda>s. s), is_normal = (\<lambda>s. True)\<rparr>"

text \<open>C35. A draft's row at an index is a valid row r of that index exactly when r has no role and shows what was drawn, cell for
  cell: glyph, background and link target, and the foreground of every glyph but a space. And a valid row is determined
  by its index, its role and what it shows.\<close>

theorem draft_row_shows:
  assumes "\<forall>s. utf8_valid s \<longrightarrow> utf8_valid (NFC u s)" "drawn u d" "Row_Check u r"
  shows "(draft_Row u d (Index r) = Some r \<longleftrightarrow> Role r = 0 \<and> map see (drawing r) = map see d)
    \<and> (\<forall>r'. Row_Check u r' \<and> Index r' = Index r \<and> Role r' = Role r \<and> map see (drawing r') = map see (drawing r) \<longrightarrow> r' = r)"
proof (intro conjI allI impI iffI; (elim conjE)?)
  assume s: "draft_Row u d (Index r) = Some r"
  show "Role r = 0" using s by (auto simp: draft_Row_Some)
  show "map see (drawing r) = map see d" using s draft_row_see drawn_cells [OF assms(2,1)] by blast
next
  assume "Role r = 0" "map see (drawing r) = map see d"
  moreover from this have "draft_segments 0 d = Some (Segments r)" using draft_see [of 0 "drawing r"] draft_see [of 0 d] draft_of_row [OF assms(3)] by simp
  ultimately show "draft_Row u d (Index r) = Some r" using assms(3) by (simp add: draft_Row_Some)
next
  fix r' assume r: "Row_Check u r'" "Index r' = Index r" "Role r' = Role r" "map see (drawing r') = map see (drawing r)"
  then have "Segments r' = Segments r" using draft_see [of 0 "drawing r"] draft_see [of 0 "drawing r'"] draft_of_row [OF assms(3)] draft_of_row [OF r(1)] by simp
  then show "r' = r" using r by simp
qed

text \<open>C37. A draft of good cells and normal text has a row exactly when no link has glyphs of two foregrounds and none meets
  itself on another background; nothing else a producer draws, in whatever order, is refused.\<close>

theorem draft_row_accepts:
  assumes "\<forall>s. utf8_valid s \<longrightarrow> utf8_valid (NFC u s)" "drawn u d" "\<forall>c \<in> set d. good_cell u c" "is_normal u (concat (map glyph d))" "i \<le> MaxRow"
  shows "draft_Row u d i \<noteq> None \<longleftrightarrow> one_colour d \<and> one_background d"
  by (rule draft_row_iff) (use assms drawn_cells [OF assms(2,1)] in auto)

text \<open>A red link at column 2 of a row, overwritten in part.\<close>

definition draft_example :: "cell list" where
  "draft_example =
     (case Put ascii_unicode (NewDraft 0) 2 (chars ''a link'') 1 0 (chars ''/x%20y'') of
        None \<Rightarrow> []
      | Some (d, n) \<Rightarrow> (case Put ascii_unicode d n (chars '' and text'') 2 0 [] of None \<Rightarrow> [] | Some (d, n) \<Rightarrow> d))"

lemma draft_example_drawn: "drawn ascii_unicode draft_example"
proof -
  obtain d n where d: "Put ascii_unicode (NewDraft 0) 2 (chars ''a link'') 1 0 (chars ''/x%20y'') = Some (d, n)"
    "Put ascii_unicode d n (chars '' and text'') 2 0 [] \<noteq> None"
  proof -
    have "case Put ascii_unicode (NewDraft 0) 2 (chars ''a link'') 1 0 (chars ''/x%20y'') of
        None \<Rightarrow> False | Some (d, n) \<Rightarrow> \<not> Option.is_none (Put ascii_unicode d n (chars '' and text'') 2 0 [])" by code_simp
    then show ?thesis using that by (auto split: option.splits simp: Option.is_none_def)
  qed
  then obtain d' n' where d': "Put ascii_unicode d n (chars '' and text'') 2 0 [] = Some (d', n')" by auto
  have "drawn ascii_unicode d'" by (rule drawn_put [OF drawn_put [OF drawn_new d(1)] d'])
  then show ?thesis unfolding draft_example_def d(1) option.case prod.case d' .
qed

lemma ascii_NFC: "\<forall>s. utf8_valid s \<longrightarrow> utf8_valid (NFC ascii_unicode s)"
  by (simp add: ascii_unicode_def)

definition row_example :: raster_row where
  "row_example = (case draft_Row ascii_unicode draft_example 7 of Some r \<Rightarrow> r | None \<Rightarrow> Blank 0)"

lemma draft_row_shows_witness:
  "draft_Row ascii_unicode draft_example 7 = Some row_example \<longleftrightarrow> map see (drawing row_example) = map see draft_example"
proof -
  have "Row_Check ascii_unicode row_example" "Role row_example = 0" "Index row_example = 7" by code_simp+
  then show ?thesis using draft_row_shows [OF ascii_NFC draft_example_drawn, of row_example] by simp
qed

lemma draft_row_accepts_witness:
  "draft_Row ascii_unicode draft_example 7 \<noteq> None \<longleftrightarrow> one_colour draft_example \<and> one_background draft_example"
proof (rule draft_row_accepts [OF ascii_NFC draft_example_drawn])
  have "list_all (\<lambda>c. 0 < rune_len (glyph c) \<and> rune_len (glyph c) = length (glyph c) \<and> checkColumn ascii_unicode (glyph c) \<and> checkColor (fg c) \<and>
      checkColor (bg c) \<and> (target c = [] \<or> Option.is_none (CheckTarget (target c)))) draft_example" by code_simp
  then show "\<forall>c \<in> set draft_example. good_cell ascii_unicode c"
    by (auto simp: list_all_iff good_cell_def char_def Option.is_none_def split: option.splits)
qed (simp_all add: ascii_unicode_def)

end
