(* ===== verification/Wrap.thy ===== *)
theory Wrap
  imports Runes Strings "HOL-Library.Signed_Division"
begin

text \<open>
  The \<open>typeset/wrap\<close> package: paragraphs broken into lines of least cost. Widths are \<open>int\<close>, runes the bytes that encode
  them. Costs are \<open>float64\<close>s; their arithmetic is a parameter, \<open>float64\<close>, with \<open>F_int\<close> the conversion of an integer. A
  measurer is the interface's two methods, a hyphenator its one. What panics or never returns is \<open>None\<close>.
\<close>

section \<open>Measures, lines and tokens\<close>

record 'c float64 =
  F_int :: "int \<Rightarrow> 'c"
  F_inf :: 'c
  F_add :: "'c \<Rightarrow> 'c \<Rightarrow> 'c"
  F_mul :: "'c \<Rightarrow> 'c \<Rightarrow> 'c"
  F_div :: "'c \<Rightarrow> 'c \<Rightarrow> 'c"
  F_less :: "'c \<Rightarrow> 'c \<Rightarrow> bool"

record measurer =
  mWidth :: "bytes \<Rightarrow> int"
  mSpace :: int

type_synonym hyphenator = "(bytes \<Rightarrow> nat list) option"

definition Mono :: measurer where
  "Mono = \<lparr>mWidth = \<lambda>s. int (length (chars_of s)), mSpace = 1\<rparr>"

record text_line =
  Words :: "bytes list"
  lineWidth :: int
  lineEmph :: "bool list"

fun LineOf_loop :: "measurer \<Rightarrow> nat \<Rightarrow> int \<Rightarrow> bytes list \<Rightarrow> int" where
  "LineOf_loop m i w [] = w"
| "LineOf_loop m i w (p # ps) = LineOf_loop m (i + 1) ((if 0 < i then w + mSpace m else w) + mWidth m p) ps"

definition LineOf :: "bytes list \<Rightarrow> measurer \<Rightarrow> text_line" where
  "LineOf parts m = \<lparr>Words = parts, lineWidth = LineOf_loop m 0 0 parts, lineEmph = []\<rparr>"

definition Flatten :: "text_line list \<Rightarrow> bytes list" where
  "Flatten ls = map (\<lambda>l. Join [32] (Words l)) ls"

definition IsBreakingSpace :: "bytes \<Rightarrow> bool" where
  "IsBreakingSpace c =
     (if c = [0xC2, 0xA0] \<or> c = [0xE2, 0x80, 0x87] \<or> c = [0xE2, 0x80, 0xAF] then False else c \<in> set spaces)"

fun fields_loop :: "bytes \<Rightarrow> bytes list \<Rightarrow> bytes list" where
  "fields_loop cur [] = (if cur = [] then [] else [cur])"
| "fields_loop cur (c # cs) =
     (if IsBreakingSpace c then (if cur = [] then fields_loop [] cs else cur # fields_loop [] cs) else fields_loop (cur @ c) cs)"

definition Fields :: "bytes \<Rightarrow> bytes list" where
  "Fields s = fields_loop [] (chars_of s)"

record Token =
  tText :: bytes
  tM :: measurer
  tEmph :: bool

definition Tokens :: "bytes \<Rightarrow> measurer \<Rightarrow> Token list" where
  "Tokens para m = map (\<lambda>f. \<lparr>tText = f, tM = m, tEmph = False\<rparr>) (Fields para)"

definition checkWidth :: "int \<Rightarrow> int \<Rightarrow> bool" where
  "checkWidth first width \<longleftrightarrow> \<not> (first \<le> 0 \<or> width \<le> 0 \<or> width < first)"

section \<open>Words\<close>

record measured =
  w_text :: bytes
  w_width :: int
  w_points :: "nat list"
  w_prefix :: "int list"
  w_m :: measurer
  w_limit :: int
  w_emph :: bool

text \<open>\<open>hyphened\<close> of runes, for \<open>ct\<close> from 1 to their number.\<close>

definition hyphened :: "bytes list \<Rightarrow> nat \<Rightarrow> bytes" where
  "hyphened r ct = (if r ! (ct - 1) = [45] then concat (take ct r) else concat (take ct r) @ [45])"

definition w_measure :: "measured \<Rightarrow> measured" where
  "w_measure w =
     w\<lparr>w_width := mWidth (w_m w) (w_text w),
       w_prefix := takeWhile (\<lambda>pw. pw \<le> w_limit w) (map (\<lambda>p. mWidth (w_m w) (hyphened (runes_of (w_text w)) p)) (w_points w))\<rparr>"

definition newWord :: "bytes \<Rightarrow> measurer \<Rightarrow> hyphenator \<Rightarrow> int \<Rightarrow> measured" where
  "newWord text m h limit =
     w_measure \<lparr>w_text = text, w_width = 0, w_points = (case h of None \<Rightarrow> [] | Some f \<Rightarrow> f text), w_prefix = [], w_m = m,
       w_limit = limit, w_emph = False\<rparr>"

definition words :: "Token list \<Rightarrow> hyphenator \<Rightarrow> int \<Rightarrow> int \<Rightarrow> measured list" where
  "words toks h first width =
     (let limit = 2 * max first width in map (\<lambda>t. (newWord (tText t) (tM t) h limit)\<lparr>w_emph := tEmph t\<rparr>) toks)"

definition w_from :: "measured \<Rightarrow> nat \<Rightarrow> measured" where
  "w_from w ct =
     w_measure \<lparr>w_text = concat (drop ct (runes_of (w_text w))), w_width = 0,
       w_points = map (\<lambda>p. p - ct) (filter (\<lambda>p. 2 \<le> int p - int ct) (w_points w)), w_prefix = [], w_m = w_m w,
       w_limit = w_limit w, w_emph = w_emph w\<rparr>"

function gallop :: "measurer \<Rightarrow> bytes list \<Rightarrow> int \<Rightarrow> nat \<Rightarrow> nat \<Rightarrow> nat \<times> nat" where
  "gallop m r lw lo hi =
     (if 0 < hi \<and> hi \<le> length r \<and> mWidth m (concat (take hi r)) \<le> lw then gallop m r lw hi (2 * hi) else (lo, hi))"
  by pat_completeness auto
termination
  by (relation "measure (\<lambda>(m, r, lw, lo, hi). length r + 1 - hi)") auto

declare gallop.simps [simp del]

function bisect :: "measurer \<Rightarrow> bytes list \<Rightarrow> int \<Rightarrow> nat \<Rightarrow> nat \<Rightarrow> nat" where
  "bisect m r lw lo hi =
     (if 1 < hi - lo
      then let mid = (lo + hi) div 2
           in if mWidth m (concat (take mid r)) \<le> lw then bisect m r lw mid hi else bisect m r lw lo mid
      else lo)"
  by pat_completeness auto
termination
  by (relation "measure (\<lambda>(m, r, lw, lo, hi). hi - lo)") auto

declare bisect.simps [simp del]

definition fitRunes :: "measurer \<Rightarrow> bytes list \<Rightarrow> int \<Rightarrow> nat" where
  "fitRunes m r lw = (case gallop m r lw 0 1 of (lo, hi) \<Rightarrow> bisect m r lw lo (min hi (length r + 1)))"

definition multiRune :: "bytes \<Rightarrow> bool" where
  "multiRune s \<longleftrightarrow> s \<noteq> [] \<and> max 1 (rune_len s) < length s"

text \<open>The last of the points, in order, whose prefix fits: the piece and the point.\<close>

definition best_point :: "measurer \<Rightarrow> bytes list \<Rightarrow> nat \<Rightarrow> int \<Rightarrow> nat list \<Rightarrow> (bytes \<times> nat) option" where
  "best_point m r consumed room pts =
     foldl (\<lambda>best p. let piece = hyphened r (p - consumed) in if mWidth m piece \<le> room then Some (piece, p) else best) None pts"

text \<open>\<open>split\<close> of a word from rune \<open>consumed\<close> on; \<open>pts\<close> are the points not passed yet.\<close>

partial_function (option) split_word :: "measured \<Rightarrow> int \<Rightarrow> int \<Rightarrow> nat \<Rightarrow> nat list \<Rightarrow> int \<Rightarrow> (bytes list \<times> nat) option" where
  "split_word w width hang consumed pts lw =
     (let r = drop consumed (runes_of (w_text w)) in
      if length r \<le> 1 then Some ([], consumed)
      else let n = fitRunes (w_m w) r lw in
        if n = length r then Some ([], consumed)
        else let pts = dropWhile (\<lambda>p. p \<le> consumed) pts;
                 reach = (if 0 < hang then fitRunes (w_m w) r (lw + hang) else n);
                 (piece, ct) = (case best_point (w_m w) r consumed (lw + hang) (takeWhile (\<lambda>p. p - consumed \<le> reach) pts) of
                    Some b \<Rightarrow> b
                  | None \<Rightarrow> (concat (take (max n 1) r), consumed + max n 1))
             in Option.bind (split_word w width hang ct pts width) (\<lambda>(ps, e). Some (piece # ps, e)))"

section \<open>Cost models\<close>

record 'c cost_model =
  md_sp :: int
  md_hang :: int
  md_shrink :: int
  md_penalty :: 'c
  md_final :: 'c
  md_proactive :: bool
  md_line :: "int \<Rightarrow> int \<Rightarrow> 'c"
  md_last :: "int \<Rightarrow> int \<Rightarrow> 'c"

definition hyphenHang :: "measurer \<Rightarrow> int" where
  "hyphenHang m = (mWidth m [45] * 7) sdiv 10"

definition ragged :: "'c float64 \<Rightarrow> measurer \<Rightarrow> 'c \<Rightarrow> 'c cost_model" where
  "ragged F m penalty =
     (let sp = mSpace m; spsp = F_mul F (F_int F sp) (F_int F sp)
      in \<lparr>md_sp = sp, md_hang = 0, md_shrink = 0, md_penalty = penalty, md_final = F_int F 0, md_proactive = False,
          md_line = \<lambda>slack _. (let s = F_int F slack in F_div F (F_mul F s s) spsp),
          md_last = \<lambda>slack width. (if width sdiv 2 < slack then (let s = F_int F slack in F_div F (F_div F (F_mul F s s) (F_int F 4)) spsp)
            else F_int F 0)\<rparr>)"

definition monoGapCost :: "'c float64 \<Rightarrow> int \<Rightarrow> int \<Rightarrow> 'c" where
  "monoGapCost F slack wds =
     (if wds \<le> 1 then F_int F (slack * slack * 4)
      else let gaps = wds - 1; base = slack sdiv gaps; extra = slack smod gaps
           in F_int F (extra * (base + 1) * (base + 1) + (gaps - extra) * base * base))"

definition gapCost :: "'c float64 \<Rightarrow> int \<Rightarrow> int \<Rightarrow> int \<Rightarrow> 'c" where
  "gapCost F slack wds sp =
     (if sp = 1 then monoGapCost F slack wds
      else let spsp = F_mul F (F_int F sp) (F_int F sp); s = F_int F slack
           in if wds \<le> 1 then F_mul F (F_div F (F_mul F s s) spsp) (F_int F 4)
              else if slack < 0 then F_div F (F_div F (F_mul F (F_mul F (F_int F 9) s) s) (F_int F (wds - 1))) spsp
              else F_div F (F_div F (F_mul F s s) (F_int F (wds - 1))) spsp)"

definition justified :: "'c float64 \<Rightarrow> measurer \<Rightarrow> 'c cost_model" where
  "justified F m =
     (let sp = mSpace m; spsp = F_mul F (F_int F sp) (F_int F sp)
      in \<lparr>md_sp = sp, md_hang = hyphenHang m, md_shrink = sp sdiv 3, md_penalty = F_int F 6, md_final = F_int F 40, md_proactive = True,
          md_line = \<lambda>slack wds. gapCost F slack wds sp,
          md_last = \<lambda>slack width. (if width - 5 * sp < slack then (let s = F_int F slack in F_div F (F_div F (F_mul F s s) (F_int F 4)) spsp)
            else F_int F 0)\<rparr>)"

section \<open>The dynamic program\<close>

abbreviation (input) noHyphen :: int where "noHyphen \<equiv> - 1"
abbreviation (input) overlong :: int where "overlong \<equiv> - 2"

text \<open>\<open>cost\<close>, \<open>next\<close> and \<open>hyph\<close> of every position.\<close>

type_synonym 'c table = "'c list \<times> nat list \<times> int list"

definition md_hyphen :: "'c float64 \<Rightarrow> 'c cost_model \<Rightarrow> measured \<Rightarrow> int \<Rightarrow> int \<Rightarrow> int \<Rightarrow> 'c \<Rightarrow> ('c \<times> nat) option" where
  "md_hyphen F md w used width wds tail =
     (let target = width + md_hang md
      in foldl (\<lambda>best (pi, p).
           let full = (if 0 \<le> used then p + (used + md_sp md) else p)
           in if target + (wds - 1) * md_shrink md < full then best
              else let c = F_add F (F_add F (md_line md (target - full) wds) (md_penalty md)) tail
                   in case best of
                        None \<Rightarrow> Some (c, pi)
                      | Some (cost, _) \<Rightarrow> if F_less F c cost then Some (c, pi) else best)
         None (rev (enumerate 0 (w_prefix w))))"

definition take_better :: "'c float64 \<Rightarrow> 'c \<times> nat \<times> int \<Rightarrow> 'c \<Rightarrow> nat \<Rightarrow> int \<Rightarrow> 'c \<times> nat \<times> int" where
  "take_better F best c j h = (if F_less F c (fst best) then (c, j, h) else best)"

function dp_line :: "'c float64 \<Rightarrow> 'c cost_model \<Rightarrow> measured list \<Rightarrow> nat \<Rightarrow> int \<Rightarrow> 'c table \<Rightarrow> nat \<Rightarrow> int \<Rightarrow> 'c \<times> nat \<times> int \<Rightarrow> 'c \<times> nat \<times> int" where
  "dp_line F md ws i width T j lineLen best =
     (if length ws \<le> j then best
      else let (cost, nxt, hyph) = T; n = length ws; w = ws ! j;
               lineLen = (if j = i then w_width w else lineLen + (md_sp md + w_width w));
               wordsOnLine = int (j - i + 1);
               allow = (wordsOnLine - 1) * md_shrink md;
               target = (if j + 1 < n \<and> HasSuffix (w_text w) [45] then width + md_hang md else width);
               inside = (\<lambda>best. case md_hyphen F md w (lineLen - w_width w - md_sp md) width wordsOnLine (cost ! j) of
                   None \<Rightarrow> best
                 | Some (c, p) \<Rightarrow> take_better F best (if nxt ! j = n then F_add F c (md_final md) else c) j (int p))
           in if j = i \<and> width < lineLen \<and> \<not> multiRune (w_text w) then (cost ! (i + 1), i + 1, noHyphen)
              else if j = i \<and> target < lineLen
              then (case md_hyphen F md w (- 1) width 1 (cost ! (i + 1)) of None \<Rightarrow> cost ! (i + 1) | Some (c, p) \<Rightarrow> c, i, overlong)
              else if width + md_hang md + allow < lineLen then inside best
              else let slack = target - lineLen;
                       best1 = (if - allow \<le> slack \<and> (j + 1 < n \<or> 0 \<le> slack)
                         then if j + 1 < n then take_better F best (F_add F (cost ! (j + 1)) (md_line md slack wordsOnLine)) (j + 1) noHyphen
                              else take_better F best (F_add F (cost ! (j + 1)) (md_last md slack width)) (j + 1) noHyphen
                         else best);
                       best2 = (if md_proactive md \<and> j + 1 < n \<and> i < j then inside best1 else best1)
                   in dp_line F md ws i width T (j + 1) lineLen best2)"
  by pat_completeness auto
termination
  by (relation "measure (\<lambda>(F, md, ws, i, width, T, j, lineLen, best). length ws - j)") auto

declare dp_line.simps [simp del]

definition dp_at :: "'c float64 \<Rightarrow> 'c cost_model \<Rightarrow> measured list \<Rightarrow> int \<Rightarrow> int \<Rightarrow> 'c table \<Rightarrow> nat \<Rightarrow> 'c table" where
  "dp_at F md ws first later = (\<lambda>(cost, nxt, hyph) i.
     let width = (if i = 0 then first else later);
         (c, j, h) = dp_line F md ws i width (cost, nxt, hyph) i 0 (F_inf F, i + 1, noHyphen)
     in (cost[i := c], nxt[i := j], hyph[i := h]))"

definition dp :: "'c float64 \<Rightarrow> 'c cost_model \<Rightarrow> measured list \<Rightarrow> nat \<Rightarrow> nat \<Rightarrow> int \<Rightarrow> int \<Rightarrow> 'c table \<Rightarrow> 'c table" where
  "dp F md ws start end first later T = foldl (dp_at F md ws first later) T (rev [start..<end])"

section \<open>Reconstruction\<close>

text \<open>A line of words, their widths and emphasis.\<close>

definition set_line :: "'c cost_model \<Rightarrow> bool \<Rightarrow> (bytes \<times> int \<times> bool) list \<Rightarrow> text_line" where
  "set_line md styled items =
     \<lparr>Words = map fst items, lineWidth = sum_list (map (\<lambda>(t, w, e). w + md_sp md) items) - md_sp md,
       lineEmph = (if styled then map (\<lambda>(t, w, e). e) items else [])\<rparr>"

definition whole :: "measured \<Rightarrow> bytes \<times> int \<times> bool" where
  "whole w = (w_text w, w_width w, w_emph w)"

definition piece_line :: "bool \<Rightarrow> measured \<Rightarrow> bytes \<Rightarrow> text_line" where
  "piece_line styled w p = \<lparr>Words = [p], lineWidth = mWidth (w_m w) p, lineEmph = (if styled then [w_emph w] else [])\<rparr>"

text \<open>The lines from word \<open>i\<close> on; \<open>none\<close> while there is none yet.\<close>

partial_function (option) break_loop ::
  "'c float64 \<Rightarrow> 'c cost_model \<Rightarrow> bool \<Rightarrow> int \<Rightarrow> int \<Rightarrow> measured list \<Rightarrow> 'c table \<Rightarrow> nat \<Rightarrow> bool \<Rightarrow> text_line list option" where
  "break_loop F md styled first width ws T i none =
     (if length ws \<le> i then Some []
      else case T of (cost, nxt, hyph) \<Rightarrow>
        let j = nxt ! i; hp = hyph ! i
        in if hp = overlong
           then let w = ws ! i
                in Option.bind (split_word w width (md_hang md) 0 (w_points w) (if none then first else width)) (\<lambda>(pieces, ct).
                     let ws' = ws[i := w_from w ct]
                     in Option.bind (break_loop F md styled first width ws' (dp F md ws' i (i + 1) first width T) i (none \<and> pieces = []))
                          (\<lambda>ls. Some (map (piece_line styled w) pieces @ ls)))
           else if 0 \<le> hp
           then let w = ws ! j; ct = w_points w ! nat hp; ws' = ws[j := w_from w ct];
                    ln = set_line md styled (map (\<lambda>k. whole (ws ! k)) [i..<j] @ [(hyphened (runes_of (w_text w)) ct, w_prefix w ! nat hp, w_emph w)])
                in Option.bind (break_loop F md styled first width ws' (dp F md ws' j (j + 1) first width T) j False) (\<lambda>ls. Some (ln # ls))
           else let ln = set_line md styled (map (\<lambda>k. whole (ws ! k)) [i..<j])
                in Option.bind (break_loop F md styled first width ws T j False) (\<lambda>ls. Some (ln # ls)))"

declare split_word.simps [code] and break_loop.simps [code]

definition breakLines :: "'c float64 \<Rightarrow> 'c cost_model \<Rightarrow> measured list \<Rightarrow> int \<Rightarrow> int \<Rightarrow> text_line list option" where
  "breakLines F md ws first width =
     (let n = length ws
      in if n = 0 then Some []
         else let T = dp F md ws 0 n first width (replicate (n + 1) (F_int F 0), replicate n 0, replicate n 0)
              in break_loop F md (\<exists>w \<in> set ws. w_emph w) first width ws T 0 True)"

section \<open>The breakers\<close>

definition Ragged :: "'c float64 \<Rightarrow> bytes \<Rightarrow> int \<Rightarrow> measurer \<Rightarrow> text_line list option" where
  "Ragged F para width m =
     (if \<not> checkWidth width width then None
      else breakLines F (ragged F m (F_int F 0)) (words (Tokens para m) None width width) width width)"

definition Hyphenated :: "'c float64 \<Rightarrow> bytes \<Rightarrow> int \<Rightarrow> int \<Rightarrow> hyphenator \<Rightarrow> 'c \<Rightarrow> measurer \<Rightarrow> text_line list option" where
  "Hyphenated F para first width h penalty m =
     (if \<not> checkWidth first width then None
      else breakLines F (ragged F m penalty) (words (Tokens para m) h first width) first width)"

definition Cell :: "'c float64 \<Rightarrow> bytes \<Rightarrow> int \<Rightarrow> hyphenator \<Rightarrow> bytes list option" where
  "Cell F s width h =
     map_option (\<lambda>ls. let out = Flatten ls in if out = [] then [[]] else out) (Hyphenated F s width width h (F_int F 25) Mono)"

definition Justify :: "'c float64 \<Rightarrow> Token list \<Rightarrow> int \<Rightarrow> int \<Rightarrow> hyphenator \<Rightarrow> measurer \<Rightarrow> text_line list option" where
  "Justify F toks first width h m =
     (if \<not> checkWidth first width then None
      else breakLines F (justified F m) (words toks h first width) first width)"

definition Gaps :: "text_line \<Rightarrow> int \<Rightarrow> measurer \<Rightarrow> bool \<Rightarrow> int list" where
  "Gaps ln width m final =
     (let k = length (Words ln) - 1
      in if k = 0 then []
         else let gaps = replicate k (mSpace m);
                  slack = width - lineWidth ln;
                  slack = (if \<not> final \<and> HasSuffix (Words ln ! k) [45] then slack + hyphenHang m else slack)
              in if final \<or> slack = 0 then gaps
                 else let sign = (if slack < 0 then - 1 else 1); slack = \<bar>slack\<bar>;
                          base = slack div int k; extra = slack mod int k
                      in map (\<lambda>i. gaps ! i + sign * (if int i < extra then base + 1 else base)) [0..<k])"

definition spread :: "text_line \<Rightarrow> int list \<Rightarrow> bytes" where
  "spread ln gaps = concat (map (\<lambda>(w, g). w @ replicate (nat g) 32) (zip (Words ln) gaps)) @ last (Words ln)"

definition JustifyMono :: "'c float64 \<Rightarrow> bytes \<Rightarrow> int \<Rightarrow> int \<Rightarrow> hyphenator \<Rightarrow> bytes list option" where
  "JustifyMono F para first width h =
     map_option (\<lambda>ls. map (\<lambda>i. spread (ls ! i) (Gaps (ls ! i) (if i = 0 then first else width) Mono (i = length ls - 1))) [0..<length ls])
       (Justify F (Tokens para Mono) first width h Mono)"

end
