(* ===== verification/WrapLines.thy ===== *)
theory WrapLines
  imports Wrap RowTextItems
begin

text \<open>
  What \<open>typeset/wrap\<close> promises of its lines, in any measurer: the breakers return, every line fits its measure but a single rune
  too wide for it, and the lines are the words of the text in order, split only at line ends.
\<close>

section \<open>Runes and prefixes\<close>

lemma multiRune_chars: "multiRune s \<longleftrightarrow> 1 < length (chars_of s)"
proof (cases "s = []")
  case False
  let ?n = "max 1 (rune_len s)"
  have "chars_of s = take ?n s # chars_of (drop ?n s)" using False by (simp add: chars_of.simps [of s] Let_def)
  then have "1 < length (chars_of s) \<longleftrightarrow> chars_of (drop ?n s) \<noteq> []" by (cases "chars_of (drop ?n s)") simp_all
  then show ?thesis using False by (auto simp: multiRune_def)
qed (simp add: multiRune_def)

lemma drop_runes: "runes_of (concat (drop k (runes_of s))) = drop k (runes_of s)"
  by (rule runes_of_concat) (auto intro: char_runes dest: in_set_dropD)

lemma take_runes: "runes_of (concat (take k (runes_of s))) = take k (runes_of s)"
  by (rule runes_of_concat) (auto intro: char_runes dest: in_set_takeD)

lemma runes_nonempty: "g \<in> set (runes_of s) \<Longrightarrow> g \<noteq> []"
  by (rule char_nonempty [OF char_runes])

definition steady :: "measurer \<Rightarrow> bytes \<Rightarrow> bool" where
  "steady m s \<longleftrightarrow> mWidth m (concat (runes_of s)) = mWidth m s"

definition measurer_ok :: "measurer \<Rightarrow> bool" where
  "measurer_ok m \<longleftrightarrow> (\<forall>s. 0 \<le> mWidth m s) \<and> 0 \<le> mSpace m"

definition hyphenator_ok :: "hyphenator \<Rightarrow> bool" where
  "hyphenator_ok h \<longleftrightarrow>
     (case h of None \<Rightarrow> True | Some f \<Rightarrow> (\<forall>w. sorted_wrt (<) (f w) \<and> (\<forall>p \<in> set (f w). 0 < p \<and> p < length (chars_of w))))"

lemma steady_text: "utf8_valid s \<Longrightarrow> steady m s" if "utf8_text s" for s
  using runes_text [OF that] by (simp add: steady_def)

lemma gallop_bracket:
  "gallop m r lw lo hi = (lo', hi') \<Longrightarrow> lo = 0 \<or> mWidth m (concat (take lo r)) \<le> lw \<Longrightarrow> lo < hi \<Longrightarrow> lo \<le> length r \<Longrightarrow>
    (lo' = 0 \<or> mWidth m (concat (take lo' r)) \<le> lw) \<and> lo' < hi' \<and> lo' \<le> length r"
proof (induction m r lw lo hi rule: gallop.induct)
  case (1 m r lw lo hi)
  show ?case
  proof (cases "0 < hi \<and> hi \<le> length r \<and> mWidth m (concat (take hi r)) \<le> lw")
    case True
    then have "gallop m r lw hi (2 * hi) = (lo', hi')" using "1.prems"(1) by (simp add: gallop.simps [of m r lw lo hi])
    then show ?thesis using "1.IH" [OF True] True by simp
  next
    case False
    then have "gallop m r lw lo hi = (lo, hi)" unfolding gallop.simps [of m r lw lo hi] by (simp only: if_False)
    then show ?thesis using "1.prems" by simp
  qed
qed

lemma bisect_fits:
  "lo = 0 \<or> mWidth m (concat (take lo r)) \<le> lw \<Longrightarrow> lo < hi \<Longrightarrow> hi \<le> length r + 1 \<Longrightarrow>
    (bisect m r lw lo hi = 0 \<or> mWidth m (concat (take (bisect m r lw lo hi) r)) \<le> lw) \<and> bisect m r lw lo hi \<le> length r"
proof (induction m r lw lo hi rule: bisect.induct)
  case (1 m r lw lo hi)
  define mid where "mid = (lo + hi) div 2"
  show ?case
  proof (cases "1 < hi - lo")
    case True
    then have mid: "lo < mid" "mid < hi" by (auto simp: mid_def)
    show ?thesis
    proof (cases "mWidth m (concat (take mid r)) \<le> lw")
      case fits: True
      then have "bisect m r lw lo hi = bisect m r lw mid hi" using True by (simp add: bisect.simps [of m r lw lo hi] Let_def mid_def)
      then show ?thesis using "1.IH"(1) [OF True mid_def fits [unfolded mid_def, folded mid_def]] fits mid "1.prems"(3) by simp
    next
      case wide: False
      then have "bisect m r lw lo hi = bisect m r lw lo mid" using True by (simp add: bisect.simps [of m r lw lo hi] Let_def mid_def)
      then show ?thesis using "1.IH"(2) [OF True mid_def wide] mid "1.prems" by simp
    qed
  next
    case False
    then have "bisect m r lw lo hi = lo" by (simp add: bisect.simps [of m r lw lo hi])
    then show ?thesis using "1.prems" by simp
  qed
qed

lemma fitRunes_fits: "fitRunes m r lw \<le> length r \<and> (fitRunes m r lw = 0 \<or> mWidth m (concat (take (fitRunes m r lw) r)) \<le> lw)"
proof -
  obtain lo hi where g: "gallop m r lw 0 1 = (lo, hi)" by (cases "gallop m r lw 0 1")
  have b: "lo = 0 \<or> mWidth m (concat (take lo r)) \<le> lw" "lo < hi" "lo \<le> length r" using gallop_bracket [OF g] by simp_all
  then have "lo < min hi (length r + 1)" "min hi (length r + 1) \<le> length r + 1" by simp_all
  moreover have "fitRunes m r lw = bisect m r lw lo (min hi (length r + 1))" unfolding fitRunes_def g by simp
  ultimately show ?thesis using bisect_fits [OF b(1), of "min hi (length r + 1)"] by simp
qed

section \<open>What lines may be\<close>

text \<open>The lines of words: whole words, then in some lines a prefix of the next word, with a hyphen or without, whose rest the
  next line starts with.\<close>

inductive lines_of :: "bytes list \<Rightarrow> bytes list list \<Rightarrow> bool" where
  lines_none: "lines_of [] []"
| lines_whole: "us \<noteq> [] \<Longrightarrow> lines_of ws ls \<Longrightarrow> lines_of (us @ ws) (us # ls)"
| lines_inside: "0 < k \<Longrightarrow> k < length (runes_of t) \<Longrightarrow> p = concat (take k (runes_of t)) \<or> p = concat (take k (runes_of t)) @ [45] \<Longrightarrow>
    lines_of (concat (drop k (runes_of t)) # ws) ls \<Longrightarrow> lines_of (us @ t # ws) ((us @ [p]) # ls)"

definition line_width :: "measurer \<Rightarrow> bytes list \<Rightarrow> int" where
  "line_width m ps = sum_list (map (\<lambda>p. mWidth m p + mSpace m) ps) - mSpace m"

definition line_fits :: "measurer \<Rightarrow> 'c cost_model \<Rightarrow> int \<Rightarrow> bytes list \<Rightarrow> bool" where
  "line_fits m md width ps \<longleftrightarrow> line_width m ps \<le> width + md_hang md + int (length ps - 1) * md_shrink md \<or> (\<exists>p. ps = [p] \<and> \<not> multiRune p)"

lemma line_width_single [simp]: "line_width m [p] = mWidth m p"
  by (simp add: line_width_def)

lemma line_width_snoc: "us \<noteq> [] \<Longrightarrow> line_width m (us @ [p]) = line_width m us + mSpace m + mWidth m p"
  by (simp add: line_width_def)

lemma LineOf_width: "lineWidth (LineOf ps m) = (if ps = [] then 0 else line_width m ps)"
proof -
  have l: "LineOf_loop m (Suc i) w ps = w + sum_list (map (\<lambda>p. mWidth m p + mSpace m) ps)" for i w ps
    by (induction ps arbitrary: i w) simp_all
  show ?thesis by (cases ps) (simp_all add: LineOf_def line_width_def l)
qed

section \<open>Words\<close>

definition wf_word :: "measurer \<Rightarrow> measured \<Rightarrow> bool" where
  "wf_word m w \<longleftrightarrow> w_m w = m \<and> w_measure w = w \<and> w_text w \<noteq> [] \<and> steady m (w_text w) \<and> sorted_wrt (<) (w_points w)
     \<and> (\<forall>p \<in> set (w_points w). 0 < p \<and> p < length (runes_of (w_text w)))"

lemma wf_width: "wf_word m w \<Longrightarrow> w_width w = mWidth m (w_text w)"
  unfolding wf_word_def w_measure_def by (metis measured.select_convs(2) measured.surjective measured.update_convs(2) measured.update_convs(4))

lemma wf_prefix:
  assumes "wf_word m w" "k < length (w_prefix w)"
  shows "k < length (w_points w)" "w_prefix w ! k = mWidth m (hyphened (runes_of (w_text w)) (w_points w ! k))"
proof -
  define ps where "ps = map (\<lambda>p. mWidth m (hyphened (runes_of (w_text w)) p)) (w_points w)"
  have "w_prefix w = takeWhile (\<lambda>pw. pw \<le> w_limit w) ps"
    using assms(1) unfolding wf_word_def w_measure_def ps_def by (metis measured.select_convs(4) measured.surjective measured.update_convs(4))
  then have e: "w_prefix w = takeWhile (\<lambda>pw. pw \<le> w_limit w) ps" .
  then have "length (w_prefix w) \<le> length ps" by (simp add: length_takeWhile_le)
  then show k: "k < length (w_points w)" using assms(2) by (simp add: ps_def)
  have "w_prefix w ! k = ps ! k" using assms(2) unfolding e by (rule takeWhile_nth)
  then show "w_prefix w ! k = mWidth m (hyphened (runes_of (w_text w)) (w_points w ! k))" using k by (simp add: ps_def)
qed

lemma wf_measure_again [simp]: "w_measure (w_measure w) = w_measure w"
  by (cases w) (simp add: w_measure_def)

lemma measure_fields [simp]: "w_text (w_measure w) = w_text w" "w_points (w_measure w) = w_points w" "w_m (w_measure w) = w_m w" "w_emph (w_measure w) = w_emph w"
  by (simp_all add: w_measure_def)

lemma sorted_shift: "sorted_wrt (<) xs \<Longrightarrow> \<forall>p \<in> set xs. k < p \<Longrightarrow> sorted_wrt (<) (map (\<lambda>p. p - k) (xs :: nat list))"
  by (induction xs) (auto intro: diff_less_mono)

lemma wf_from:
  assumes "wf_word m w" "k < length (runes_of (w_text w))"
  shows "wf_word m (w_from w k) \<and> w_text (w_from w k) = concat (drop k (runes_of (w_text w)))"
proof -
  have "drop k (runes_of (w_text w)) \<noteq> []" using assms(2) by simp
  then have ne: "concat (drop k (runes_of (w_text w))) \<noteq> []"
    using runes_nonempty in_set_dropD by (metis concat_eq_Nil_conv last_in_set)
  have "steady m (concat (drop k (runes_of (w_text w))))" by (simp only: steady_def drop_runes)
  moreover have "sorted_wrt (<) (map (\<lambda>p. p - k) (filter (\<lambda>p. 2 \<le> int p - int k) (w_points w)))"
  proof -
    have "sorted_wrt (<) (filter (\<lambda>p. 2 \<le> int p - int k) (w_points w))" using assms(1) by (simp add: wf_word_def sorted_wrt_filter)
    moreover have "\<forall>p \<in> set (filter (\<lambda>p. 2 \<le> int p - int k) (w_points w)). k < p" by auto
    ultimately show ?thesis by (rule sorted_shift)
  qed
  ultimately show ?thesis using assms ne unfolding wf_word_def w_from_def by (auto simp: drop_runes)
qed

lemma wf_new:
  assumes "measurer_ok m" "hyphenator_ok h" "t \<noteq> []" "steady m t"
  shows "wf_word m ((newWord t m h limit)\<lparr>w_emph := e\<rparr>)"
proof -
  have "w_measure ((w_measure w)\<lparr>w_emph := e\<rparr>) = (w_measure w)\<lparr>w_emph := e\<rparr>" for w by (cases w) (simp add: w_measure_def)
  then show ?thesis using assms unfolding newWord_def wf_word_def hyphenator_ok_def by (auto split: option.splits)
qed

section \<open>The choices of the dynamic program\<close>

definition model_ok :: "measurer \<Rightarrow> 'c cost_model \<Rightarrow> bool" where
  "model_ok m md \<longleftrightarrow> measurer_ok m \<and> md_sp md = mSpace m \<and> 0 \<le> md_hang md \<and> 0 \<le> md_shrink md"

definition texts :: "measured list \<Rightarrow> nat \<Rightarrow> nat \<Rightarrow> bytes list" where
  "texts ws i j = map w_text (take (j - i) (drop i ws))"

definition words_ok :: "measurer \<Rightarrow> measured list \<Rightarrow> bool" where
  "words_ok m ws \<longleftrightarrow> (\<forall>w \<in> set ws. wf_word m w)"

text \<open>What a line from word \<open>i\<close> may end at.\<close>

definition choice_ok :: "measurer \<Rightarrow> 'c cost_model \<Rightarrow> measured list \<Rightarrow> int \<Rightarrow> nat \<Rightarrow> nat \<times> int \<Rightarrow> bool" where
  "choice_ok m md ws width i = (\<lambda>(j, h).
     (h = overlong \<and> j = i \<and> width < w_width (ws ! i) \<and> multiRune (w_text (ws ! i)))
     \<or> (h = noHyphen \<and> i < j \<and> j \<le> length ws \<and> line_fits m md width (texts ws i j))
     \<or> (0 \<le> h \<and> i < j \<and> j < length ws \<and> nat h < length (w_prefix (ws ! j))
        \<and> line_width m (texts ws i j) + mSpace m + w_prefix (ws ! j) ! nat h \<le> width + md_hang md + int (j - i) * md_shrink md))"

lemma length_texts [simp]: "i \<le> j \<Longrightarrow> j \<le> length ws \<Longrightarrow> length (texts ws i j) = j - i"
  by (simp add: texts_def)

lemma texts_nonempty: "i < j \<Longrightarrow> j \<le> length ws \<Longrightarrow> texts ws i j \<noteq> []"
  by (simp add: texts_def)

lemma texts_Suc: "i \<le> j \<Longrightarrow> j < length ws \<Longrightarrow> texts ws i (Suc j) = texts ws i j @ [w_text (ws ! j)]"
  by (simp add: texts_def Suc_diff_le take_Suc_conv_app_nth)

lemma texts_one: "i < length ws \<Longrightarrow> texts ws i (Suc i) = [w_text (ws ! i)]"
  by (simp add: texts_Suc) (simp add: texts_def)

lemma line_width_nonneg: "measurer_ok m \<Longrightarrow> ps \<noteq> [] \<Longrightarrow> 0 \<le> line_width m ps"
proof -
  assume m: "measurer_ok m" and "ps \<noteq> []"
  then obtain p qs where ps: "ps = p # qs" by (cases ps) auto
  have "0 \<le> sum_list (map (\<lambda>p. mWidth m p + mSpace m) qs)" using m by (intro sum_list_nonneg) (auto simp: measurer_ok_def)
  then show ?thesis using m ps by (simp add: line_width_def measurer_ok_def)
qed

lemma md_hyphen_fits:
  fixes F :: "'c float64"
  shows "md_hyphen F md w used width wds tail = Some (c, p) \<Longrightarrow> 0 \<le> used \<Longrightarrow>
    p < length (w_prefix w) \<and> used + md_sp md + w_prefix w ! p \<le> width + md_hang md + (wds - 1) * md_shrink md"
proof -
  define step where "step = (\<lambda>(best :: ('c \<times> nat) option) (pi, p).
           let full = (if 0 \<le> used then p + (used + md_sp md) else p)
           in if width + md_hang md + (wds - 1) * md_shrink md < full then best
              else let c = F_add F (F_add F (md_line md (width + md_hang md - full) wds) (md_penalty md)) tail
                   in case best of
                        None \<Rightarrow> Some (c, pi)
                      | Some (cost, q) \<Rightarrow> if F_less F c cost then Some (c, pi) else best)"
  define good where "good = (\<lambda>b :: ('c \<times> nat) option. \<forall>c p. b = Some (c, p) \<longrightarrow> p < length (w_prefix w) \<and> used + md_sp md + w_prefix w ! p \<le> width + md_hang md + (wds - 1) * md_shrink md)"
  assume used: "0 \<le> used"
  have "good b \<Longrightarrow> good (foldl step b xs)" if "\<forall>(k, p) \<in> set xs. k < length (w_prefix w) \<and> w_prefix w ! k = p" for b xs
    using that
  proof (induction xs arbitrary: b)
    case (Cons x xs)
    obtain k q where x: "x = (k, q)" by (cases x)
    then have "k < length (w_prefix w)" "w_prefix w ! k = q" using Cons.prems(2) by auto
    then have "good (step b x)" using Cons.prems(1) used x by (auto simp: step_def good_def Let_def split: option.splits if_splits)
    then show ?case using Cons by simp
  qed simp
  moreover have "good None" by (simp add: good_def)
  moreover have "\<forall>(k, p) \<in> set (rev (enumerate 0 (w_prefix w))). k < length (w_prefix w) \<and> w_prefix w ! k = p"
    by (auto simp: in_set_enumerate_eq)
  ultimately have "good (foldl step None (rev (enumerate 0 (w_prefix w))))" by blast
  moreover assume "md_hyphen F md w used width wds tail = Some (c, p)"
  ultimately show ?thesis unfolding md_hyphen_def Let_def step_def good_def by simp
qed

text \<open>One step of the inner loop, after the first word.\<close>

lemma take_better_ok: "choice_ok m md ws width i (snd best) \<Longrightarrow> choice_ok m md ws width i (j, h) \<Longrightarrow> choice_ok m md ws width i (snd (take_better F best c j h))"
  by (simp add: take_better_def)

lemma inside_ok:
  assumes "model_ok m md" "choice_ok m md ws width i (snd best)" "i < j" "j < length ws" "lineLen = line_width m (texts ws i j)"
  shows "choice_ok m md ws width i (snd (case md_hyphen F md (ws ! j) lineLen width (int (j - i + 1)) tail of
      None \<Rightarrow> best | Some (c, p) \<Rightarrow> take_better F best (cc c) j (int p)))"
proof (cases "md_hyphen F md (ws ! j) lineLen width (int (j - i + 1)) tail")
  case (Some cp)
  obtain c p where cp: "cp = (c, p)" by (cases cp)
  have "length (texts ws i j) = j - i" by (rule length_texts) (use assms(3,4) in simp_all)
  then have "texts ws i j \<noteq> []" using assms(3) by auto
  then have "0 \<le> lineLen" using line_width_nonneg [of m "texts ws i j"] assms(1,5) by (simp add: model_ok_def)
  from md_hyphen_fits [OF Some [unfolded cp] this]
  have "choice_ok m md ws width i (j, int p)" using assms by (simp add: choice_ok_def model_ok_def)
  then show ?thesis using Some cp take_better_ok [OF assms(2)] by simp
qed (use assms(2) in simp)

lemma fits_texts: "i < j \<Longrightarrow> j \<le> length ws \<Longrightarrow> line_width m (texts ws i j) \<le> width + md_hang md + int (j - i - 1) * md_shrink md \<Longrightarrow> line_fits m md width (texts ws i j)"
  by (simp add: line_fits_def)

lemma dp_line_ok:
  assumes md: "model_ok m md" and ws: "words_ok m ws"
  shows "i < j \<Longrightarrow> choice_ok m md ws width i (snd best) \<Longrightarrow> j < length ws \<longrightarrow> lineLen = line_width m (texts ws i j) \<Longrightarrow>
    choice_ok m md ws width i (snd (dp_line F md ws i width T j lineLen best))"
proof (induction "length ws - j" arbitrary: j lineLen best)
  case 0
  then show ?case by (simp add: dp_line.simps)
next
  case (Suc k)
  then have j: "j < length ws" "lineLen = line_width m (texts ws i j)" by auto
  obtain cost nxt hyph where T: "T = (cost, nxt, hyph)" by (cases T)
  define w where "w = ws ! j"
  define len where "len = lineLen + (md_sp md + w_width w)"
  define n where "n = length ws"
  define inside where "inside = (\<lambda>best. case md_hyphen F md w (len - w_width w - md_sp md) width (int (j - i + 1)) (cost ! j) of
                   None \<Rightarrow> best
                 | Some (c, p) \<Rightarrow> take_better F best (if nxt ! j = n then F_add F c (md_final md) else c) j (int p))"
  define target where "target = (if j + 1 < n \<and> HasSuffix (w_text w) [45] then width + md_hang md else width)"
  define best1 where "best1 = (if - ((int (j - i + 1) - 1) * md_shrink md) \<le> target - len \<and> (j + 1 < n \<or> 0 \<le> target - len)
                         then if j + 1 < n then take_better F best (F_add F (cost ! (j + 1)) (md_line md (target - len) (int (j - i + 1)))) (j + 1) noHyphen
                              else take_better F best (F_add F (cost ! (j + 1)) (md_last md (target - len) width)) (j + 1) noHyphen
                         else best)"
  have ww: "w_width w = mWidth m (w_text w)" using ws j(1) wf_width by (simp add: words_ok_def w_def)
  have tx: "texts ws i (Suc j) = texts ws i j @ [w_text w]" "texts ws i j \<noteq> []"
    using texts_Suc [of i j ws] texts_nonempty [of i j ws] Suc.prems(1) j(1) by (simp_all add: w_def)
  have len: "len = line_width m (texts ws i (Suc j))"
    using md j(2) ww by (simp add: tx(1) line_width_snoc [OF tx(2)] len_def model_ok_def)
  have ins: "choice_ok m md ws width i (snd (inside b))" if "choice_ok m md ws width i (snd b)" for b
    unfolding inside_def w_def
    by (rule inside_ok [OF md that Suc.prems(1) j(1)]) (simp add: len_def w_def j(2))
  have target: "target \<le> width + md_hang md" using md by (simp add: target_def model_ok_def)
  have b1: "choice_ok m md ws width i (snd best1)"
  proof (cases "- ((int (j - i + 1) - 1) * md_shrink md) \<le> target - len")
    case True
    have "int (j - i + 1) - 1 = int (Suc j - i - 1)" by simp
    then have "line_width m (texts ws i (Suc j)) \<le> width + md_hang md + int (Suc j - i - 1) * md_shrink md"
      using True target len by simp
    then have "line_fits m md width (texts ws i (Suc j))" by (intro fits_texts) (use Suc.prems(1) j(1) in simp_all)
    then have "choice_ok m md ws width i (Suc j, noHyphen)" using Suc.prems(1) j(1) by (simp add: choice_ok_def)
    then show ?thesis using take_better_ok [OF Suc.prems(2)] Suc.prems(2) by (simp add: best1_def)
  qed (use Suc.prems(2) in \<open>simp add: best1_def\<close>)
  have "dp_line F md ws i width T j lineLen best =
      (if width + md_hang md + (int (j - i + 1) - 1) * md_shrink md < len then inside best
       else dp_line F md ws i width T (j + 1) len (if md_proactive md \<and> j + 1 < n \<and> i < j then inside best1 else best1))"
  proof -
    have f: "(length ws \<le> j) = False" "(j = i) = False" using Suc.prems(1) j(1) by auto
    show ?thesis
      unfolding T dp_line.simps [of F md ws i width "(cost, nxt, hyph)" j lineLen best] Let_def prod.case inside_def best1_def target_def len_def w_def n_def
      by (simp only: f if_False simp_thms)
  qed
  moreover have "choice_ok m md ws width i (snd (dp_line F md ws i width T (j + 1) len b))" if "choice_ok m md ws width i (snd b)" for b
    by (rule Suc.hyps(1)) (use Suc.hyps(2) Suc.prems(1) that len in simp_all)
  ultimately show ?case using ins b1 Suc.prems(2) by simp
qed

section \<open>Tables\<close>

definition table_len :: "nat \<Rightarrow> 'c table \<Rightarrow> bool" where
  "table_len n = (\<lambda>(cost, nxt, hyph). length cost = n + 1 \<and> length nxt = n \<and> length hyph = n)"

definition choice_at :: "'c table \<Rightarrow> nat \<Rightarrow> nat \<times> int" where
  "choice_at = (\<lambda>(cost, nxt, hyph) i. (nxt ! i, hyph ! i))"

definition choices :: "measurer \<Rightarrow> 'c cost_model \<Rightarrow> measured list \<Rightarrow> int \<Rightarrow> int \<Rightarrow> 'c table \<Rightarrow> nat \<Rightarrow> bool" where
  "choices m md ws first later T lo \<longleftrightarrow>
     (\<forall>i. lo \<le> i \<longrightarrow> i < length ws \<longrightarrow> choice_ok m md ws (if i = 0 then first else later) i (choice_at T i))"

lemma dp_first_ok:
  assumes md: "model_ok m md" and ws: "words_ok m ws" and i: "i < length ws"
  shows "choice_ok m md ws width i (snd (dp_line F md ws i width T i 0 (F_inf F, i + 1, noHyphen)))"
proof -
  obtain cost nxt hyph where T: "T = (cost, nxt, hyph)" by (cases T)
  define w where "w = ws ! i"
  define n where "n = length ws"
  define target where "target = (if i + 1 < n \<and> HasSuffix (w_text w) [45] then width + md_hang md else width)"
  define best where "best = (F_inf F, i + 1, noHyphen)"
  define best1 where "best1 = (if - ((int (i - i + 1) - 1) * md_shrink md) \<le> target - w_width w \<and> (i + 1 < n \<or> 0 \<le> target - w_width w)
                         then if i + 1 < n then take_better F best (F_add F (cost ! (i + 1)) (md_line md (target - w_width w) (int (i - i + 1)))) (i + 1) noHyphen
                              else take_better F best (F_add F (cost ! (i + 1)) (md_last md (target - w_width w) width)) (i + 1) noHyphen
                         else best)"
  have target: "target \<le> width + md_hang md" "width \<le> target" using md by (simp_all add: target_def model_ok_def)
  have ww: "w_width w = mWidth m (w_text w)" using ws i wf_width by (simp add: words_ok_def w_def)
  have tx: "texts ws i (Suc i) = [w_text w]" using texts_one [OF i] by (simp add: w_def)
  have g: "(length ws \<le> i) = False" "(i < i) = False" "(i = i) = True" using i by auto
  note simps = dp_line.simps [of F md ws i width "(cost, nxt, hyph)" i 0 best] Let_def prod.case w_def target_def n_def best1_def
  have single: "dp_line F md ws i width T i 0 best = (cost ! (i + 1), i + 1, noHyphen)" if c: "width < w_width w" "\<not> multiRune (w_text w)"
    using c unfolding T simps by (simp only: g if_False if_True simp_thms)
  have long: "dp_line F md ws i width T i 0 best =
      (case md_hyphen F md w (- 1) width 1 (cost ! (i + 1)) of None \<Rightarrow> cost ! (i + 1) | Some (c, p) \<Rightarrow> c, i, overlong)"
    if c: "multiRune (w_text w)" "target < w_width w"
    using c unfolding T simps by (simp only: g if_False if_True simp_thms)
  have fit: "dp_line F md ws i width T i 0 best = dp_line F md ws i width T (i + 1) (w_width w) best1" if c: "\<not> target < w_width w" "\<not> (width < w_width w \<and> \<not> multiRune (w_text w))"
  proof -
    have "\<not> width + md_hang md + (int (i - i + 1) - 1) * md_shrink md < w_width w" using c target by auto
    then show ?thesis using c unfolding T simps by (simp only: g if_False if_True simp_thms)
  qed
  show ?thesis
  proof (cases "target < w_width w")
    case True
    then have "width < w_width w" using target by simp
    moreover have "line_fits m md width (texts ws i (Suc i))" if "\<not> multiRune (w_text w)" using that by (simp add: tx line_fits_def)
    ultimately show ?thesis using single long True i unfolding best_def by (cases "multiRune (w_text w)") (simp_all add: choice_ok_def w_def [symmetric])
  next
    case False
    then have "line_fits m md width (texts ws i (Suc i))" using target ww by (simp add: tx line_fits_def)
    then have ok: "choice_ok m md ws width i (Suc i, noHyphen)" using i by (simp add: choice_ok_def)
    have b1: "choice_ok m md ws width i (snd best1)" using take_better_ok [OF _ ok, of best F] ok by (auto simp: best1_def best_def)
    show ?thesis
    proof (cases "width < w_width w \<and> \<not> multiRune (w_text w)")
      case True
      then show ?thesis using single ok unfolding best_def by simp
    next
      case two: False
      have "choice_ok m md ws width i (snd (dp_line F md ws i width T (i + 1) (w_width w) best1))"
        by (rule dp_line_ok [OF md ws _ b1]) (simp_all add: tx ww)
      then show ?thesis using fit [OF False two] by (simp add: best_def)
    qed
  qed
qed

lemma dp_at_len: "table_len n T \<Longrightarrow> table_len n (dp_at F md ws first later T i)"
  by (auto simp: table_len_def dp_at_def Let_def split: prod.splits)

lemma dp_at_other: "k \<noteq> i \<Longrightarrow> choice_at (dp_at F md ws first later T i) k = choice_at T k"
  by (auto simp: dp_at_def choice_at_def Let_def split: prod.splits)

lemma dp_at_choice:
  assumes "model_ok m md" "words_ok m ws" "i < length ws" "table_len (length ws) T"
  shows "choice_ok m md ws (if i = 0 then first else later) i (choice_at (dp_at F md ws first later T i) i)"
proof -
  obtain cost nxt hyph where T: "T = (cost, nxt, hyph)" by (cases T)
  define width where "width = (if i = 0 then first else later)"
  obtain c j h where d: "dp_line F md ws i width T i 0 (F_inf F, i + 1, noHyphen) = (c, j, h)" by (cases "dp_line F md ws i width T i 0 (F_inf F, i + 1, noHyphen)")
  have "choice_ok m md ws width i (j, h)" using dp_first_ok [OF assms(1-3), of width F T] d by simp
  moreover have "choice_at (dp_at F md ws first later T i) i = (j, h)"
    using assms(3,4) d by (simp add: T dp_at_def choice_at_def table_len_def Let_def width_def)
  ultimately show ?thesis by (simp add: width_def)
qed

lemma dp_at_choices:
  "model_ok m md \<Longrightarrow> words_ok m ws \<Longrightarrow> i < length ws \<Longrightarrow> table_len (length ws) T \<Longrightarrow> choices m md ws first later T (Suc i) \<Longrightarrow>
    choices m md ws first later (dp_at F md ws first later T i) i"
  unfolding choices_def using dp_at_choice dp_at_other by (metis Suc_leI le_neq_implies_less)

lemma dp_one: "dp F md ws i (i + 1) first later T = dp_at F md ws first later T i"
  by (simp add: dp_def)

lemma dp_ok:
  assumes "model_ok m md" "words_ok m ws"
  shows "start \<le> e \<Longrightarrow> e \<le> length ws \<Longrightarrow> table_len (length ws) T \<Longrightarrow> choices m md ws first later T e \<Longrightarrow>
    table_len (length ws) (dp F md ws start e first later T) \<and> choices m md ws first later (dp F md ws start e first later T) start"
proof (induction "e - start" arbitrary: e T)
  case (Suc k)
  then obtain e' where e: "e = Suc e'" "start \<le> e'" by (cases e) auto
  let ?T = "dp_at F md ws first later T e'"
  have "dp F md ws start e first later T = dp F md ws start e' first later ?T" using e by (simp add: dp_def)
  moreover have "table_len (length ws) ?T" using dp_at_len Suc.prems(3) by blast
  moreover have "choices m md ws first later ?T e'" using dp_at_choices [OF assms] Suc.prems e by simp
  ultimately show ?case using Suc.hyps(1) [of e' ?T] Suc.hyps(2) Suc.prems e by simp
qed (simp add: dp_def)

lemma choice_ok_cong:
  assumes "length ws = length ws'" "\<forall>k. i \<le> k \<longrightarrow> ws ! k = ws' ! k"
  shows "choice_ok m md ws width i c = choice_ok m md ws' width i c"
proof -
  have "drop i ws = drop i ws'" by (rule nth_equalityI) (use assms in simp_all)
  then have t: "texts ws i = texts ws' i" by (simp add: texts_def fun_eq_iff)
  obtain j h where c: "c = (j, h)" by (cases c)
  have "i < j \<Longrightarrow> ws ! j = ws' ! j" using assms(2) by simp
  then show ?thesis unfolding choice_ok_def c t using assms by auto
qed

section \<open>Words split\<close>

lemma best_point_Some: "best_point m r consumed room pts = Some (piece, p) \<Longrightarrow> p \<in> set pts \<and> piece = hyphened r (p - consumed) \<and> mWidth m piece \<le> room"
proof -
  define step where "step = (\<lambda>best p. let piece = hyphened r (p - consumed) in if mWidth m piece \<le> room then Some (piece, p) else best)"
  have "foldl step b pts = Some (piece, p) \<Longrightarrow> b = Some (piece, p) \<or> p \<in> set pts \<and> piece = hyphened r (p - consumed) \<and> mWidth m piece \<le> room" for b
  proof (induction pts arbitrary: b)
    case (Cons q pts)
    then have "step b q = Some (piece, p) \<or> p \<in> set pts \<and> piece = hyphened r (p - consumed) \<and> mWidth m piece \<le> room" by simp
    then show ?case by (auto simp: step_def Let_def split: if_splits)
  qed simp
  moreover assume "best_point m r consumed room pts = Some (piece, p)"
  ultimately show ?thesis unfolding best_point_def step_def [symmetric] by blast
qed

definition piece_fits :: "measurer \<Rightarrow> int \<Rightarrow> bytes \<Rightarrow> bool" where
  "piece_fits m room p \<longleftrightarrow> mWidth m p \<le> room \<or> \<not> multiRune p"

text \<open>A piece, and where the rest begins.\<close>

lemma split_step:
  fixes R :: "bytes list"
  assumes "consumed < length R" "1 < length (drop consumed R)" "sorted_wrt (<) pts" "\<forall>p \<in> set pts. p < length R" "0 \<le> hang"
    and n: "n = fitRunes m (drop consumed R) lw" "n \<noteq> length (drop consumed R)"
    and pc: "(piece, c) = (case best_point m (drop consumed R) consumed (lw + hang) (takeWhile (\<lambda>p. p - consumed \<le> reach) (dropWhile (\<lambda>p. p \<le> consumed) pts)) of
        Some b \<Rightarrow> b | None \<Rightarrow> (concat (take (max n 1) (drop consumed R)), consumed + max n 1))"
    and R: "\<forall>g \<in> set R. char g"
  shows "consumed < c \<and> c < length R \<and> piece_fits m (lw + hang) piece \<and>
    (piece = concat (take (c - consumed) (drop consumed R)) \<or> piece = concat (take (c - consumed) (drop consumed R)) @ [45])"
proof (cases "best_point m (drop consumed R) consumed (lw + hang) (takeWhile (\<lambda>p. p - consumed \<le> reach) (dropWhile (\<lambda>p. p \<le> consumed) pts))")
  case None
  then have c: "piece = concat (take (max n 1) (drop consumed R))" "c = consumed + max n 1" using pc by simp_all
  have f: "n \<le> length (drop consumed R)" "n = 0 \<or> mWidth m (concat (take n (drop consumed R))) \<le> lw" using fitRunes_fits [of m "drop consumed R" lw] n(1) by simp_all
  have mx: "max n 1 < length (drop consumed R)" using f(1) n(2) assms(2) by simp
  moreover have "piece_fits m (lw + hang) piece"
  proof (cases "n = 0")
    case True
    then have "piece = R ! consumed" using c(1) assms(1) by (simp add: Cons_nth_drop_Suc [symmetric])
    then have "char piece" using R assms(1) by simp
    then have "chars_of piece = [piece]" using chars_of_char [of piece "[]"] by simp
    then show ?thesis by (simp add: piece_fits_def multiRune_chars)
  next
    case False
    then have "max n 1 = n" by simp
    then show ?thesis using f(2) False c(1) assms(5) by (simp add: piece_fits_def)
  qed
  moreover have "consumed + max n 1 < length R" using mx unfolding length_drop by linarith
  moreover have "0 < max n 1" by simp
  ultimately show ?thesis using c by simp
next
  case (Some b)
  then have b: "b = (piece, c)" using pc by simp
  note s = best_point_Some [OF Some [unfolded b]]
  have cin: "c \<in> set (dropWhile (\<lambda>p. p \<le> consumed) pts)" using s by (auto dest: set_takeWhileD)
  then have "c \<in> set pts" by (auto dest: set_dropWhileD)
  then have cl: "c < length R" using assms(4) by blast
  have "consumed < c"
  proof (cases "dropWhile (\<lambda>p. p \<le> consumed) pts")
    case (Cons q qs)
    then have q: "consumed < q" using hd_dropWhile [of "\<lambda>p. p \<le> consumed" pts] by auto
    have "sorted_wrt (<) (takeWhile (\<lambda>p. p \<le> consumed) pts @ q # qs)" using assms(3) Cons [symmetric] by simp
    then have "sorted_wrt (<) (q # qs)" by (simp add: sorted_wrt_append)
    then show ?thesis using q cin unfolding Cons by auto
  next
    case Nil
    have False using cin unfolding Nil by simp
    then show ?thesis ..
  qed
  moreover have "piece = concat (take (c - consumed) (drop consumed R)) \<or> piece = concat (take (c - consumed) (drop consumed R)) @ [45]"
    using s by (simp add: hyphened_def)
  ultimately show ?thesis using s cl unfolding piece_fits_def by blast
qed

lemma split_word_ok:
  fixes w :: measured
  defines "R \<equiv> runes_of (w_text w)"
  assumes m: "w_m w = m" and hang: "0 \<le> hang"
  shows "consumed < length R \<Longrightarrow> sorted_wrt (<) pts \<Longrightarrow> \<forall>p \<in> set pts. p < length R \<Longrightarrow>
    \<exists>ps e. split_word w width hang consumed pts lw = Some (ps, e) \<and> consumed \<le> e \<and> e < length R
      \<and> (length R - e = 1 \<or> mWidth m (concat (drop e R)) \<le> (if ps = [] then lw else width)) \<and> (ps = [] \<longrightarrow> e = consumed)
      \<and> (\<forall>k < length ps. piece_fits m ((if k = 0 then lw else width) + hang) (ps ! k))
      \<and> (\<forall>t ws ls. runes_of t = drop consumed R \<longrightarrow> ps \<noteq> [] \<longrightarrow> lines_of (concat (drop e R) # ws) ls \<longrightarrow> lines_of (t # ws) (map (\<lambda>p. [p]) ps @ ls))"
proof (induction "length R - consumed" arbitrary: consumed pts lw rule: less_induct)
  case less
  define r where "r = drop consumed R"
  define n where "n = fitRunes m r lw"
  have eq: "split_word w width hang consumed pts lw =
    (if length r \<le> 1 then Some ([], consumed)
     else if n = length r then Some ([], consumed)
     else let pts = dropWhile (\<lambda>p. p \<le> consumed) pts;
                 reach = (if 0 < hang then fitRunes m r (lw + hang) else n);
                 (piece, ct) = (case best_point m r consumed (lw + hang) (takeWhile (\<lambda>p. p - consumed \<le> reach) pts) of
                    Some b \<Rightarrow> b
                  | None \<Rightarrow> (concat (take (max n 1) r), consumed + max n 1))
             in Option.bind (split_word w width hang ct pts width) (\<lambda>(ps, e). Some (piece # ps, e)))"
    unfolding split_word.simps [of w width hang consumed pts lw] Let_def R_def [symmetric] r_def [symmetric] m n_def ..
  consider "length r \<le> 1" | "1 < length r" "n = length r" | "1 < length r" "n \<noteq> length r" by fastforce
  then show ?case
  proof cases
    case 1
    then have "length R - consumed = 1" using less.prems(1) by (simp add: r_def)
    then show ?thesis using eq 1 less.prems(1) by simp
  next
    case 2
    then have "mWidth m (concat (drop consumed R)) \<le> lw" using fitRunes_fits [of m r lw] by (auto simp: n_def r_def)
    then show ?thesis using eq 2 less.prems(1) by simp
  next
    case 3
    define pts1 where "pts1 = dropWhile (\<lambda>p. p \<le> consumed) pts"
    define reach where "reach = (if 0 < hang then fitRunes m r (lw + hang) else n)"
    obtain piece c where pc: "(piece, c) = (case best_point m r consumed (lw + hang) (takeWhile (\<lambda>p. p - consumed \<le> reach) pts1) of
                    Some b \<Rightarrow> b | None \<Rightarrow> (concat (take (max n 1) r), consumed + max n 1))"
      by (metis surj_pair)
    have R: "\<forall>g \<in> set R. char g" by (auto simp: R_def intro: char_runes)
    have st: "consumed < c" "c < length R" "piece_fits m (lw + hang) piece"
      "piece = concat (take (c - consumed) r) \<or> piece = concat (take (c - consumed) r) @ [45]"
      using split_step [OF less.prems(1) 3(1) [unfolded r_def] less.prems(2,3) hang n_def [unfolded r_def] 3(2) [unfolded r_def] pc [unfolded pts1_def r_def] R]
      by (simp_all add: r_def)
    have "takeWhile (\<lambda>p. p \<le> consumed) pts @ pts1 = pts" by (simp add: pts1_def)
    then have pts1: "sorted_wrt (<) pts1" "\<forall>p \<in> set pts1. p < length R"
      using less.prems(2,3) by (metis sorted_wrt_append, auto simp: pts1_def dest: set_dropWhileD)
    have "length R - c < length R - consumed" using st(1,2) by simp
    from less.hyps [OF this st(2) pts1, of width] obtain ps e where
      rc: "split_word w width hang c pts1 width = Some (ps, e)" "c \<le> e" "e < length R"
        "length R - e = 1 \<or> mWidth m (concat (drop e R)) \<le> width" "ps = [] \<longrightarrow> e = c"
        "\<forall>k < length ps. piece_fits m (width + hang) (ps ! k)"
      and ln: "\<And>t ws ls. runes_of t = drop c R \<Longrightarrow> ps \<noteq> [] \<Longrightarrow> lines_of (concat (drop e R) # ws) ls \<Longrightarrow> lines_of (t # ws) (map (\<lambda>p. [p]) ps @ ls)"
      by auto
    have eq2: "split_word w width hang consumed pts lw = Some (piece # ps, e)"
      using eq 3 rc(1) by (simp add: Let_def pts1_def [symmetric] reach_def [symmetric] pc [symmetric])
    have "lines_of (t # ws) (map (\<lambda>p. [p]) (piece # ps) @ ls)" if t: "runes_of t = drop consumed R" and l: "lines_of (concat (drop e R) # ws) ls" for t ws ls
    proof -
      have "lines_of (concat (drop c R) # ws) (map (\<lambda>p. [p]) ps @ ls)"
      proof (cases "ps = []")
        case False
        have "runes_of (concat (drop c R)) = drop c R" unfolding R_def by (rule drop_runes)
        from ln [OF this False l] show ?thesis .
      qed (use rc(5) l in simp)
      moreover have "drop (c - consumed) (runes_of t) = drop c R" using t st(1) by simp
      moreover have "0 < c - consumed" "c - consumed < length (runes_of t)" using t st(1,2) by simp_all
      moreover have "piece = concat (take (c - consumed) (runes_of t)) \<or> piece = concat (take (c - consumed) (runes_of t)) @ [45]" using st(4) t by (simp add: r_def)
      ultimately have "lines_of ([] @ t # ws) (([] @ [piece]) # map (\<lambda>p. [p]) ps @ ls)"
        by (intro lines_inside [where k = "c - consumed"]) simp_all
      then show ?thesis by simp
    qed
    moreover have "piece_fits m ((if k = 0 then lw else width) + hang) ((piece # ps) ! k)" if "k < length (piece # ps)" for k
      using st(3) rc(6) that by (cases k) simp_all
    ultimately show ?thesis using eq2 rc(2,3,4) st(1) by auto
  qed
qed

section \<open>Lines reconstructed\<close>

definition lines_good :: "measurer \<Rightarrow> 'c cost_model \<Rightarrow> int \<Rightarrow> int \<Rightarrow> nat \<Rightarrow> text_line list \<Rightarrow> bool" where
  "lines_good m md first later i ls \<longleftrightarrow>
     (\<forall>k < length ls. Words (ls ! k) \<noteq> [] \<and> lineWidth (ls ! k) = line_width m (Words (ls ! k))
        \<and> line_fits m md (if k = 0 \<and> i = 0 then first else later) (Words (ls ! k)))"

text \<open>The rest of a first word split over lines fits the first line again.\<close>

definition rest_fits :: "measurer \<Rightarrow> 'c cost_model \<Rightarrow> int \<Rightarrow> int \<Rightarrow> measured \<Rightarrow> bool" where
  "rest_fits m md first later w \<longleftrightarrow>
     (\<forall>ps e. split_word w later (md_hang md) 0 (w_points w) first = Some (ps, e) \<longrightarrow> ps \<noteq> [] \<longrightarrow>
        length (runes_of (w_text w)) - e = 1 \<or> mWidth m (concat (drop e (runes_of (w_text w)))) \<le> first)"

lemma fits_mono: "a \<le> b \<Longrightarrow> line_fits m md a ps \<Longrightarrow> line_fits m md b ps"
  by (auto simp: line_fits_def)

lemma lines_good_Cons:
  "lines_good m md first later i (l # ls) \<longleftrightarrow>
    Words l \<noteq> [] \<and> lineWidth l = line_width m (Words l) \<and> line_fits m md (if i = 0 then first else later) (Words l) \<and> lines_good m md first later 1 ls"
  by (simp add: lines_good_def All_less_Suc2)

lemma lines_good_later: "first \<le> later \<Longrightarrow> lines_good m md first later i ls \<Longrightarrow> lines_good m md first later j ls" if "0 < j" for j
proof -
  assume f: "first \<le> later" and g: "lines_good m md first later i ls"
  show "lines_good m md first later j ls" unfolding lines_good_def
  proof (intro allI impI)
    fix k assume "k < length ls"
    with g have l: "Words (ls ! k) \<noteq> []" "lineWidth (ls ! k) = line_width m (Words (ls ! k))"
      "line_fits m md (if k = 0 \<and> i = 0 then first else later) (Words (ls ! k))" by (simp_all add: lines_good_def)
    have "(if k = 0 \<and> i = 0 then first else later) \<le> later" using f by simp
    from fits_mono [OF this l(3)] show "Words (ls ! k) \<noteq> [] \<and> lineWidth (ls ! k) = line_width m (Words (ls ! k)) \<and>
        line_fits m md (if k = 0 \<and> j = 0 then first else later) (Words (ls ! k))" using l that by simp
  qed
qed

lemma pieces_good:
  assumes "first \<le> later" "\<forall>k < length ps. piece_fits m ((if k = 0 then (if i = 0 then first else later) else later) + md_hang md) (ps ! k)" "w_m w = m"
    "lines_good m md first later 1 ls" "ps \<noteq> []"
  shows "lines_good m md first later i (map (piece_line styled w) ps @ ls)"
proof -
  have later: "lines_good m md first later 1 (map (piece_line styled w) qs @ ls)" if "\<forall>p \<in> set qs. piece_fits m (later + md_hang md) p" for qs
    using that by (induction qs) (use assms(4) in \<open>auto simp: assms(3) lines_good_Cons piece_line_def line_fits_def piece_fits_def\<close>)
  obtain p qs where ps: "ps = p # qs" using assms(5) by (cases ps) auto
  have "\<forall>q \<in> set qs. piece_fits m (later + md_hang md) q" using assms(2) unfolding ps by (fastforce simp: in_set_conv_nth)
  moreover have "piece_fits m ((if i = 0 then first else later) + md_hang md) p" using assms(2) ps by (auto dest: spec [of _ 0])
  ultimately show ?thesis using later [of qs] by (auto simp: ps lines_good_Cons piece_line_def line_fits_def piece_fits_def assms(3))
qed

lemma texts_all: "i < length ws \<Longrightarrow> texts ws i (length ws) = w_text (ws ! i) # texts ws (Suc i) (length ws)"
  by (simp add: texts_def Cons_nth_drop_Suc [symmetric])

lemma texts_update: "i < length ws \<Longrightarrow> texts (ws[i := w]) i (length ws) = w_text w # texts ws (Suc i) (length ws)"
  by (simp add: texts_def Cons_nth_drop_Suc [symmetric])

lemma texts_split: "i \<le> j \<Longrightarrow> j \<le> length ws \<Longrightarrow> texts ws i (length ws) = texts ws i j @ texts ws j (length ws)"
proof -
  assume "i \<le> j" "j \<le> length ws"
  then have "drop i ws = take (j - i) (drop i ws) @ drop j ws" by (metis append_take_drop_id drop_drop le_add_diff_inverse2)
  then show ?thesis unfolding texts_def by (metis (no_types, lifting) map_append le_refl length_drop take_all)
qed

lemma items_take: "i \<le> j \<Longrightarrow> j \<le> length ws \<Longrightarrow> map (\<lambda>k. f (ws ! k)) [i..<j] = map f (take (j - i) (drop i ws))"
  by (rule nth_equalityI) simp_all

lemma set_line_words:
  assumes "words_ok m ws" "md_sp md = mSpace m" "i \<le> j" "j \<le> length ws"
  shows "Words (set_line md styled (map (\<lambda>k. whole (ws ! k)) [i..<j] @ xs)) = texts ws i j @ map fst xs
    \<and> lineWidth (set_line md styled (map (\<lambda>k. whole (ws ! k)) [i..<j] @ xs)) =
        sum_list (map (\<lambda>p. mWidth m p + mSpace m) (texts ws i j)) + sum_list (map (\<lambda>(t, w, e). w + mSpace m) xs) - mSpace m"
proof -
  have "\<forall>w \<in> set (take (j - i) (drop i ws)). w_width w = mWidth m (w_text w)"
    using assms(1) wf_width unfolding words_ok_def by (meson in_set_takeD in_set_dropD)
  then have "map (\<lambda>w. w_width w + mSpace m) (take (j - i) (drop i ws)) = map (\<lambda>w. mWidth m (w_text w) + mSpace m) (take (j - i) (drop i ws))"
    by simp
  then have "sum_list (map (\<lambda>w. w_width w + mSpace m) (take (j - i) (drop i ws))) = sum_list (map (\<lambda>p. mWidth m p + mSpace m) (texts ws i j))"
    unfolding texts_def map_map comp_def by (rule arg_cong)
  then show ?thesis unfolding set_line_def items_take [OF assms(3,4)] by (simp add: texts_def whole_def comp_def assms(2))
qed

lemma length_multi: "multiRune s \<longleftrightarrow> 1 < length (runes_of s)"
  by (simp add: multiRune_chars)

lemma choices_cong:
  assumes "length ws = length ws'" "\<forall>k. lo \<le> k \<longrightarrow> ws ! k = ws' ! k"
  shows "choices m md ws first later T lo = choices m md ws' first later T lo"
  unfolding choices_def using choice_ok_cong [of ws ws'] assms by (metis order_trans)

text \<open>A word replaced by its rest, and the break at it recomputed.\<close>

lemma replaced:
  fixes F :: "'c float64"
  assumes md: "model_ok m md" and ws: "words_ok m ws" and T: "table_len (length ws) T" "choices m md ws first later T i" and i: "i \<le> j" "j < length ws"
    and e: "e < length (runes_of (w_text (ws ! j)))"
  defines "ws' \<equiv> ws[j := w_from (ws ! j) e]"
  defines "T' \<equiv> dp F md ws' j (j + 1) first later T"
  shows "words_ok m ws'" "length ws' = length ws" "table_len (length ws') T'" "choices m md ws' first later T' j"
    "texts ws' j (length ws') = concat (drop e (runes_of (w_text (ws ! j)))) # texts ws (Suc j) (length ws)"
    "w_width (ws' ! j) = mWidth m (concat (drop e (runes_of (w_text (ws ! j)))))"
    "multiRune (w_text (ws' ! j)) \<longleftrightarrow> length (runes_of (w_text (ws ! j))) - e \<noteq> 1"
proof -
  have w: "wf_word m (ws ! j)" using ws i by (simp add: words_ok_def)
  note f = wf_from [OF w e]
  show ok: "words_ok m ws'" using ws f set_update_subset_insert [of ws j "w_from (ws ! j) e"] unfolding ws'_def words_ok_def by blast
  show len: "length ws' = length ws" by (simp add: ws'_def)
  have T': "T' = dp_at F md ws' first later T j" by (simp only: T'_def dp_one)
  show "table_len (length ws') T'" unfolding T' len by (rule dp_at_len [OF T(1)])
  have "choices m md ws first later T (Suc j)" using T(2) i(1) unfolding choices_def by (meson Suc_leD order_trans)
  moreover have "\<forall>k. Suc j \<le> k \<longrightarrow> ws ! k = ws' ! k" by (simp add: ws'_def)
  ultimately have "choices m md ws' first later T (Suc j)" using choices_cong [OF len [symmetric], of "Suc j" m md first later T] by blast
  then show "choices m md ws' first later T' j" unfolding T' using dp_at_choices [OF md ok] i(2) T(1) len by simp
  have wj: "ws' ! j = w_from (ws ! j) e" using i(2) by (simp add: ws'_def)
  show "texts ws' j (length ws') = concat (drop e (runes_of (w_text (ws ! j)))) # texts ws (Suc j) (length ws)"
    unfolding len using texts_update [OF i(2)] f by (simp add: ws'_def)
  show "w_width (ws' ! j) = mWidth m (concat (drop e (runes_of (w_text (ws ! j)))))" using wf_width [of m "w_from (ws ! j) e"] f wj by simp
  have "runes_of (w_text (ws' ! j)) = drop e (runes_of (w_text (ws ! j)))" using f wj by (simp add: drop_runes)
  then show "multiRune (w_text (ws' ! j)) \<longleftrightarrow> length (runes_of (w_text (ws ! j))) - e \<noteq> 1" using e unfolding length_multi by auto
qed

lemma less_flag: "a < b \<Longrightarrow> 2 * a + (if P then 1 else 0 :: nat) < 2 * b + (if Q then 1 else 0)"
  by (cases P; cases Q) simp_all

lemma break_loop_ok:
  assumes md: "model_ok m md" and fl: "first \<le> later"
  shows "words_ok m ws \<Longrightarrow> table_len (length ws) T \<Longrightarrow> choices m md ws first later T i \<Longrightarrow> i \<le> length ws \<Longrightarrow> none \<longrightarrow> i = 0 \<Longrightarrow>
    i < length ws \<and> snd (choice_at T i) = overlong \<longrightarrow> 0 < i \<or> none \<and> rest_fits m md first later (ws ! i) \<Longrightarrow>
    \<exists>ls. break_loop F md styled first later ws T i none = Some ls \<and> lines_good m md first later i ls \<and> lines_of (texts ws i (length ws)) (map Words ls)"
proof (induction "2 * (length ws - i) + (if i < length ws \<and> snd (choice_at T i) = overlong then 1 else 0 :: nat)" arbitrary: ws T i none rule: less_induct)
  case less
  obtain cost nxt hyph where T: "T = (cost, nxt, hyph)" by (cases T)
  show ?case
  proof (cases "i < length ws")
    case False
    then have "texts ws i (length ws) = []" by (simp add: texts_def)
    then show ?thesis using False by (simp add: break_loop.simps [of F md styled first later ws T i none] lines_good_def lines_none)
  next
    case i: True
    define j h where "j = nxt ! i" and "h = hyph ! i"
    define width where "width = (if i = 0 then first else later)"
    have ch: "choice_at T i = (j, h)" by (simp add: T choice_at_def j_def h_def)
    have c: "choice_ok m md ws width i (j, h)" using less.prems(3) [unfolded choices_def, rule_format, of i] i ch by (simp add: width_def)
    have eq: "break_loop F md styled first later ws T i none =
      (if h = overlong
           then let w = ws ! i
                in Option.bind (split_word w later (md_hang md) 0 (w_points w) (if none then first else later)) (\<lambda>(pieces, ct).
                     let ws' = ws[i := w_from w ct]
                     in Option.bind (break_loop F md styled first later ws' (dp F md ws' i (i + 1) first later T) i (none \<and> pieces = []))
                          (\<lambda>ls. Some (map (piece_line styled w) pieces @ ls)))
           else if 0 \<le> h
           then let w = ws ! j; ct = w_points w ! nat h; ws' = ws[j := w_from w ct];
                    ln = set_line md styled (map (\<lambda>k. whole (ws ! k)) [i..<j] @ [(hyphened (runes_of (w_text w)) ct, w_prefix w ! nat h, w_emph w)])
                in Option.bind (break_loop F md styled first later ws' (dp F md ws' j (j + 1) first later T) j False) (\<lambda>ls. Some (ln # ls))
           else let ln = set_line md styled (map (\<lambda>k. whole (ws ! k)) [i..<j])
                in Option.bind (break_loop F md styled first later ws T j False) (\<lambda>ls. Some (ln # ls)))"
    proof -
      have f: "(length ws \<le> i) = False" using i by simp
      show ?thesis unfolding T break_loop.simps [of F md styled first later ws "(cost, nxt, hyph)" i none] prod.case Let_def j_def h_def
        by (simp only: f if_False)
    qed
    have sp: "md_sp md = mSpace m" using md by (simp add: model_ok_def)
    consider (long) "h = overlong" "width < w_width (ws ! i)" "multiRune (w_text (ws ! i))"
      | (plain) "h = noHyphen" "i < j" "j \<le> length ws" "line_fits m md width (texts ws i j)"
      | (inside) "0 \<le> h" "i < j" "j < length ws" "nat h < length (w_prefix (ws ! j))"
          "line_width m (texts ws i j) + mSpace m + w_prefix (ws ! j) ! nat h \<le> width + md_hang md + int (j - i) * md_shrink md"
      using c unfolding choice_ok_def prod.case by blast
    then show ?thesis
    proof cases
      case long
      define w where "w = ws ! i"
      define R where "R = runes_of (w_text w)"
      have w: "wf_word m w" using less.prems(1) i by (simp add: words_ok_def w_def)
      then have wm: "w_m w = m" "sorted_wrt (<) (w_points w)" "\<forall>p \<in> set (w_points w). p < length R" by (auto simp: wf_word_def R_def)
      have R1: "1 < length R" using long(3) by (simp add: length_multi R_def w_def)
      have lw: "(if none then first else later) = width" using less.prems(5,6) i ch long(1) by (auto simp: width_def)
      have "0 \<le> md_hang md" using md by (simp add: model_ok_def)
      have R0: "0 < length R" using R1 by linarith
      from split_word_ok [OF wm(1) \<open>0 \<le> md_hang md\<close>, of 0 "w_points w" later width, folded R_def, OF R0 wm(2,3)]
      obtain ps e where s: "split_word w later (md_hang md) 0 (w_points w) width = Some (ps, e)" "e < length R"
        "length R - e = 1 \<or> mWidth m (concat (drop e R)) \<le> (if ps = [] then width else later)" "ps = [] \<longrightarrow> e = 0"
        "\<forall>k < length ps. piece_fits m ((if k = 0 then width else later) + md_hang md) (ps ! k)"
        and ln: "\<And>t ws ls. runes_of t = R \<Longrightarrow> ps \<noteq> [] \<Longrightarrow> lines_of (concat (drop e R) # ws) ls \<Longrightarrow> lines_of (t # ws) (map (\<lambda>p. [p]) ps @ ls)" by auto
      have st: "mWidth m (concat R) = w_width w" using w wf_width by (simp add: wf_word_def steady_def R_def)
      have ps: "ps \<noteq> []"
      proof
        assume "ps = []"
        then have "mWidth m (concat R) \<le> width" using s(3,4) R1 by simp
        then show False using st long(2) by (simp add: w_def)
      qed
      have rest: "length R - e = 1 \<or> mWidth m (concat (drop e R)) \<le> width"
      proof (cases "i = 0")
        case True
        then have "rest_fits m md first later w" using less.prems(6) i ch long(1) by (simp add: w_def)
        then show ?thesis using s(1) ps True by (simp add: rest_fits_def R_def width_def)
      qed (use s(3) ps in \<open>simp add: width_def\<close>)
      define ws' where "ws' = ws[i := w_from w e]"
      define T' where "T' = dp F md ws' i (i + 1) first later T"
      note r = replaced(1,2) [where e = e, OF md less.prems(1,2,3) order_refl i, folded w_def R_def, OF s(2), folded ws'_def]
        replaced(3,4) [where F = F and e = e, OF md less.prems(1,2,3) order_refl i, folded w_def R_def, OF s(2), folded ws'_def, folded T'_def]
        replaced(5-7) [where e = e, OF md less.prems(1,2,3) order_refl i, folded w_def R_def, OF s(2), folded ws'_def]
      have "choice_ok m md ws' width i (choice_at T' i)" using r(2,4) i by (simp add: choices_def width_def)
      then have no: "snd (choice_at T' i) \<noteq> overlong" using rest r(6,7) by (auto simp: choice_ok_def)
      have dec: "2 * (length ws' - i) + (if i < length ws' \<and> snd (choice_at T' i) = overlong then 1 else 0 :: nat)
          < 2 * (length ws - i) + (if i < length ws \<and> snd (choice_at T i) = overlong then 1 else 0)"
        using no r(2) i ch long(1) by simp
      have "\<exists>ls. break_loop F md styled first later ws' T' i False = Some ls \<and> lines_good m md first later i ls \<and> lines_of (texts ws' i (length ws')) (map Words ls)"
        by (rule less.hyps [OF dec r(1,3,4)]) (use no r(2) i in simp_all)
      then obtain ls where ls: "break_loop F md styled first later ws' T' i False = Some ls" "lines_good m md first later i ls"
        "lines_of (texts ws' i (length ws')) (map Words ls)" by blast
      have f1: "break_loop F md styled first later ws T i none = Some (map (piece_line styled w) ps @ ls)"
        unfolding eq using long(1) s(1) lw ps ls(1) by (simp add: w_def [symmetric] ws'_def [symmetric] T'_def [unfolded Suc_eq_plus1 [symmetric], symmetric])
      have f2: "lines_good m md first later i (map (piece_line styled w) ps @ ls)"
        by (rule pieces_good [OF fl s(5) [unfolded width_def] wm(1) lines_good_later [OF _ fl ls(2)] ps]) simp
      have f3: "map Words (map (piece_line styled w) ps @ ls) = map (\<lambda>p. [p]) ps @ map Words ls" by (simp add: piece_line_def)
      have f4: "lines_of (w_text w # texts ws (Suc i) (length ws)) (map (\<lambda>p. [p]) ps @ map Words ls)"
        by (rule ln [OF _ ps]) (use ls(3) r(5) in \<open>simp_all add: R_def\<close>)
      show ?thesis unfolding texts_all [OF i] w_def [symmetric] using f1 f2 f4 unfolding f3 [symmetric] by blast
    next
      case plain
      note sl = set_line_words [OF less.prems(1) sp less_imp_le [OF plain(2)] plain(3), of styled "[]"]
      have dec: "2 * (length ws - j) + (if j < length ws \<and> snd (choice_at T j) = overlong then 1 else 0 :: nat)
          < 2 * (length ws - i) + (if i < length ws \<and> snd (choice_at T i) = overlong then 1 else 0)" by (rule less_flag) (use plain(2,3) in linarith)
      have "choices m md ws first later T j" using less.prems(3) plain(2) unfolding choices_def by (meson less_imp_le order_trans)
      then have "\<exists>ls. break_loop F md styled first later ws T j False = Some ls \<and> lines_good m md first later j ls \<and> lines_of (texts ws j (length ws)) (map Words ls)"
        by (intro less.hyps [OF dec less.prems(1,2)]) (use plain(2,3) in simp_all)
      then obtain ls where ls: "break_loop F md styled first later ws T j False = Some ls" "lines_good m md first later j ls"
        "lines_of (texts ws j (length ws)) (map Words ls)" by blast
      define l where "l = set_line md styled (map (\<lambda>k. whole (ws ! k)) [i..<j])"
      have ne: "texts ws i j \<noteq> []" by (rule texts_nonempty [OF plain(2,3)])
      have l: "Words l = texts ws i j" "lineWidth l = line_width m (texts ws i j)" using sl by (simp_all add: l_def line_width_def)
      have "break_loop F md styled first later ws T i none = Some (l # ls)" unfolding eq using plain(1) ls(1) by (simp add: l_def)
      moreover have "lines_good m md first later i (l # ls)"
        unfolding lines_good_Cons using l ne plain(4) lines_good_later [OF _ fl ls(2), of 1] by (simp add: width_def)
      moreover have "lines_of (texts ws i j @ texts ws j (length ws)) (texts ws i j # map Words ls)" by (rule lines_whole [OF ne ls(3)])
      ultimately show ?thesis using texts_split [of i j ws] plain(2,3) l(1) by auto
    next
      case inside
      define w where "w = ws ! j"
      define R where "R = runes_of (w_text w)"
      define ct where "ct = w_points w ! nat h"
      have w: "wf_word m w" using less.prems(1) inside(3) by (simp add: words_ok_def w_def)
      have pf: "nat h < length (w_points w)" "w_prefix w ! nat h = mWidth m (hyphened R ct)" using wf_prefix [OF w, of "nat h"] inside(4) by (simp_all add: w_def R_def ct_def)
      then have ct: "0 < ct" "ct < length R" using w by (auto simp: wf_word_def R_def ct_def)
      define ws' where "ws' = ws[j := w_from w ct]"
      define T' where "T' = dp F md ws' j (j + 1) first later T"
      note r = replaced(1,2) [where e = ct, OF md less.prems(1,2,3) less_imp_le [OF inside(2)] inside(3), folded w_def R_def, OF ct(2), folded ws'_def]
        replaced(3,4) [where F = F and e = ct, OF md less.prems(1,2,3) less_imp_le [OF inside(2)] inside(3), folded w_def R_def, OF ct(2), folded ws'_def, folded T'_def]
        replaced(5-7) [where e = ct, OF md less.prems(1,2,3) less_imp_le [OF inside(2)] inside(3), folded w_def R_def, OF ct(2), folded ws'_def]
      have dec: "2 * (length ws' - j) + (if j < length ws' \<and> snd (choice_at T' j) = overlong then 1 else 0 :: nat)
          < 2 * (length ws - i) + (if i < length ws \<and> snd (choice_at T i) = overlong then 1 else 0)" by (rule less_flag) (use inside(2,3) r(2) in linarith)
      have "\<exists>ls. break_loop F md styled first later ws' T' j False = Some ls \<and> lines_good m md first later j ls \<and> lines_of (texts ws' j (length ws')) (map Words ls)"
        by (rule less.hyps [OF dec r(1,3,4)]) (use inside(2,3) r(2) in simp_all)
      then obtain ls where ls: "break_loop F md styled first later ws' T' j False = Some ls" "lines_good m md first later j ls"
        "lines_of (texts ws' j (length ws')) (map Words ls)" by blast
      define l where "l = set_line md styled (map (\<lambda>k. whole (ws ! k)) [i..<j] @ [(hyphened R ct, w_prefix w ! nat h, w_emph w)])"
      have ne: "texts ws i j \<noteq> []" by (rule texts_nonempty [OF inside(2) less_imp_le [OF inside(3)]])
      have l: "Words l = texts ws i j @ [hyphened R ct]" "lineWidth l = line_width m (texts ws i j @ [hyphened R ct])"
        using set_line_words [OF less.prems(1) sp less_imp_le [OF inside(2)] less_imp_le [OF inside(3)], of styled "[(hyphened R ct, w_prefix w ! nat h, w_emph w)]"] pf(2)
        by (simp_all add: l_def line_width_def)
      have "break_loop F md styled first later ws T i none = Some (l # ls)"
        unfolding eq Let_def w_def [symmetric] ct_def [symmetric] ws'_def [symmetric] T'_def [symmetric] R_def [symmetric] l_def [symmetric]
        using inside(1) ls(1) by simp
      moreover have "line_fits m md width (texts ws i j @ [hyphened R ct])"
        using inside(5) pf(2) length_texts [of i j ws] inside(2,3) by (simp add: line_fits_def line_width_snoc [OF ne] w_def)
      then have "lines_good m md first later i (l # ls)"
        unfolding lines_good_Cons using l lines_good_later [OF _ fl ls(2), of 1] by (simp add: width_def)
      moreover have "lines_of (texts ws i j @ w_text w # texts ws (Suc j) (length ws)) ((texts ws i j @ [hyphened R ct]) # map Words ls)"
        by (rule lines_inside [OF ct(1) ct(2) [unfolded R_def]]) (use ls(3) r(5) in \<open>simp_all add: R_def hyphened_def\<close>)
      ultimately show ?thesis using texts_split [of i j ws] texts_all [OF inside(3)] inside(2,3) l(1) by (auto simp: w_def)
    qed
  qed
qed

section \<open>Paragraphs broken\<close>

lemma rest_fits_equal:
  assumes "model_ok m md" "wf_word m w"
  shows "rest_fits m md width width w"
proof -
  have w: "w_m w = m" "sorted_wrt (<) (w_points w)" "\<forall>p \<in> set (w_points w). p < length (runes_of (w_text w))" "0 < length (runes_of (w_text w))"
    using assms(2) by (auto simp: wf_word_def)
  have "0 \<le> md_hang md" using assms(1) by (simp add: model_ok_def)
  from split_word_ok [OF w(1) this w(4,2,3), of width width] show ?thesis unfolding rest_fits_def by auto
qed

lemma breakLines_ok:
  assumes md: "model_ok m md" and ws: "words_ok m ws" and fl: "first \<le> width" and rest: "ws \<noteq> [] \<longrightarrow> w_width (hd ws) \<le> first \<or> rest_fits m md first width (hd ws)"
  shows "\<exists>ls. breakLines F md ws first width = Some ls \<and> lines_good m md first width 0 ls \<and> lines_of (map w_text ws) (map Words ls)"
proof (cases "ws = []")
  case True
  then show ?thesis by (simp add: breakLines_def lines_good_def lines_none)
next
  case False
  define T where "T = dp F md ws 0 (length ws) first width (replicate (length ws + 1) (F_int F 0), replicate (length ws) 0, replicate (length ws) 0)"
  have T: "table_len (length ws) T" "choices m md ws first width T 0"
    using dp_ok [OF md ws, of 0 "length ws" "(replicate (length ws + 1) (F_int F 0), replicate (length ws) 0, replicate (length ws) 0)" first width F]
    by (simp_all add: T_def table_len_def choices_def)
  have "choice_ok m md ws first 0 (choice_at T 0)" using T(2) [unfolded choices_def, rule_format, of 0] False by simp
  then have "snd (choice_at T 0) = overlong \<longrightarrow> rest_fits m md first width (ws ! 0)"
    using rest False by (auto simp: choice_ok_def hd_conv_nth split: prod.splits)
  then have "\<exists>ls. break_loop F md (\<exists>w \<in> set ws. w_emph w) first width ws T 0 True = Some ls \<and> lines_good m md first width 0 ls \<and> lines_of (texts ws 0 (length ws)) (map Words ls)"
    by (intro break_loop_ok [OF md fl ws T]) simp_all
  then show ?thesis using False by (simp add: breakLines_def T_def texts_def Let_def)
qed

lemma chars_split: "c < 0x80 \<Longrightarrow> chars_of (a @ c # b) = chars_of a @ [c] # chars_of b"
proof (induction a rule: chars_of.induct)
  case (1 a)
  show ?case
  proof (cases "a = []")
    case True
    then show ?thesis using "1.prems" by (simp add: chars_of.simps [of "c # b"] rune_len_ascii)
  next
    case False
    have r: "rune_len (a @ c # b) = rune_len a"
    proof (cases "0 < rune_len (a @ c # b)")
      case True
      then show ?thesis using rune_len_within(2) [OF True "1.prems" False] by simp
    next
      case no: False
      then show ?thesis using rune_len_append [of a "c # b"] by (cases "0 < rune_len a") simp_all
    qed
    define n where "n = max 1 (rune_len a)"
    have n: "n \<le> length a" using rune_len_le [of a] False by (cases a) (simp_all add: n_def)
    have "chars_of (a @ c # b) = take n a # chars_of (drop n a @ c # b)"
      unfolding chars_of.simps [of "a @ c # b"] Let_def r n_def [symmetric] using False n by simp
    also have "chars_of (drop n a @ c # b) = chars_of (drop n a) @ [c] # chars_of b" using "1.IH" [OF False n_def] "1.prems" by simp
    also have "take n a # chars_of (drop n a) @ [c] # chars_of b = chars_of a @ [c] # chars_of b"
      unfolding chars_of.simps [of a] Let_def n_def [symmetric] using False by simp
    finally show ?thesis .
  qed
qed

lemma chars_Join: "ps \<noteq> [] \<Longrightarrow> int (length (chars_of (Join [32] ps))) = line_width Mono ps"
proof (induction ps rule: induct_list012)
  case (3 p q ps)
  have "chars_of (p @ [32] @ Join [32] (q # ps)) = chars_of p @ [32] # chars_of (Join [32] (q # ps))"
    using chars_split [of 32 p "Join [32] (q # ps)"] by simp
  then show ?case using 3 by (simp add: line_width_def Mono_def)
qed (simp_all add: Mono_def)

section \<open>Fields\<close>

lemma fields_nonempty: "f \<in> set (fields_loop cur cs) \<Longrightarrow> \<forall>c \<in> set cs. c \<noteq> [] \<Longrightarrow> f \<noteq> []"
  by (induction cs arbitrary: cur) (auto split: if_splits)

lemma Fields_nonempty: "f \<in> set (Fields s) \<Longrightarrow> f \<noteq> []"
  unfolding Fields_def using fields_nonempty chars_nonempty by blast

lemma fields_text: "f \<in> set (fields_loop cur cs) \<Longrightarrow> utf8_text cur \<Longrightarrow> \<forall>c \<in> set cs. char c \<Longrightarrow> utf8_text f"
proof (induction cs arbitrary: cur)
  case (Cons c cs)
  have "char c" using Cons.prems(3) by simp
  moreover from this have "c \<noteq> []" by (rule char_nonempty)
  ultimately have c: "utf8_text c" using utf8_text_rune [of c "[]"] by (simp add: char_def)
  show ?case
  proof (cases "IsBreakingSpace c")
    case True
    then show ?thesis using Cons by (auto split: if_splits)
  next
    case False
    have "utf8_text (cur @ c)" using utf8_text_append [OF Cons.prems(2)] c by simp
    then show ?thesis using Cons.IH [of "cur @ c"] Cons.prems False by simp
  qed
qed (auto split: if_splits)

lemma Fields_text: "utf8_text s \<Longrightarrow> f \<in> set (Fields s) \<Longrightarrow> utf8_text f"
  unfolding Fields_def using fields_text [of f "[]" "chars_of s"] chars_text [of s] by simp

lemma steady_valid: "utf8_text s \<Longrightarrow> steady m s"
  by (simp add: steady_def runes_text)

lemma steady_Mono: "steady Mono s"
proof -
  have "chars_of (concat (runes_of s)) = runes_of s" by (rule chars_concat) (auto intro: char_runes)
  then show ?thesis by (simp add: steady_def Mono_def)
qed

lemma Mono_ok: "measurer_ok Mono"
  by (simp add: measurer_ok_def Mono_def)

lemma words_paragraph:
  assumes "measurer_ok m" "hyphenator_ok h" "\<forall>f \<in> set (Fields para). steady m f"
  shows "words_ok m (words (Tokens para m) h first width) \<and> map w_text (words (Tokens para m) h first width) = Fields para"
proof -
  have "words (Tokens para m) h first width = map (\<lambda>f. (newWord f m h (2 * max first width))\<lparr>w_emph := False\<rparr>) (Fields para)"
    by (simp add: words_def Tokens_def Let_def)
  moreover have "wf_word m ((newWord f m h (2 * max first width))\<lparr>w_emph := False\<rparr>)" if "f \<in> set (Fields para)" for f
    by (rule wf_new) (use assms that Fields_nonempty in auto)
  ultimately show ?thesis by (auto simp: words_ok_def newWord_def comp_def intro!: map_idI)
qed

lemma ragged_ok: "measurer_ok m \<Longrightarrow> model_ok m (ragged F m penalty)"
  by (simp add: model_ok_def ragged_def Let_def)

lemma sdiv_pos: "0 \<le> a \<Longrightarrow> 0 < b \<Longrightarrow> a sdiv b = a div (b :: int)"
  by (simp add: signed_divide_int_eq_divide_int sgn_if)

lemma justified_ok: "measurer_ok m \<Longrightarrow> model_ok m (justified F m)"
  by (simp add: model_ok_def justified_def Let_def hyphenHang_def measurer_ok_def sdiv_pos pos_imp_zdiv_nonneg_iff)

lemma ragged_fits: "line_fits m (ragged F m penalty) width ps \<longleftrightarrow> line_width m ps \<le> width \<or> (\<exists>p. ps = [p] \<and> \<not> multiRune p)"
  by (simp add: line_fits_def ragged_def Let_def)

lemma justified_fits: "line_fits m (justified F m) width ps \<longleftrightarrow>
    line_width m ps \<le> width + hyphenHang m + int (length ps - 1) * (mSpace m sdiv 3) \<or> (\<exists>p. ps = [p] \<and> \<not> multiRune p)"
  by (simp add: line_fits_def justified_def Let_def)

text \<open>Every line of a paragraph in one measure.\<close>

lemma breakLines_paragraph:
  assumes "model_ok m md" "hyphenator_ok h" "\<forall>f \<in> set (Fields para). steady m f"
  shows "\<exists>ls. breakLines F md (words (Tokens para m) h width width) width width = Some ls \<and> lines_of (Fields para) (map Words ls) \<and>
    (\<forall>l \<in> set ls. Words l \<noteq> [] \<and> lineWidth l = line_width m (Words l) \<and> line_fits m md width (Words l))"
proof -
  have m: "measurer_ok m" using assms(1) by (simp add: model_ok_def)
  note w = words_paragraph [OF m assms(2,3), of width width]
  have "words (Tokens para m) h width width \<noteq> [] \<longrightarrow> rest_fits m md width width (hd (words (Tokens para m) h width width))"
    using rest_fits_equal [OF assms(1)] w by (auto simp: words_ok_def)
  from breakLines_ok [OF assms(1) _ order_refl, of "words (Tokens para m) h width width" width F] w this
  obtain ls where "breakLines F md (words (Tokens para m) h width width) width width = Some ls" "lines_good m md width width 0 ls" "lines_of (Fields para) (map Words ls)" by auto
  then show ?thesis by (auto simp: lines_good_def in_set_conv_nth)
qed

text \<open>C38. A paragraph of UTF-8 is always broken, hyphenated or not, in any measurer: every line fits the measure unless it is a
  single rune, has the width it says, and the lines are the paragraph's words in order, some split at line ends,
  nothing dropped and nothing added but a hyphen.\<close>

theorem hyphenated_lines:
  assumes "measurer_ok m" "hyphenator_ok h" "utf8_valid para" "0 < width"
  shows "\<exists>ls. Hyphenated F para width width h penalty m = Some ls \<and> lines_of (Fields para) (map Words ls) \<and>
    (\<forall>l \<in> set ls. lineWidth l = lineWidth (LineOf (Words l) m) \<and> (lineWidth l \<le> width \<or> (\<exists>p. Words l = [p] \<and> \<not> multiRune p)))"
proof -
  have "utf8_text para" using assms(3) by (simp add: utf8_valid_text)
  then have "\<forall>f \<in> set (Fields para). steady m f" using Fields_text steady_valid by blast
  from breakLines_paragraph [OF ragged_ok [OF assms(1)] assms(2) this, where F = F and F1 = F and penalty1 = penalty and width = width]
  show ?thesis using assms(4) unfolding ragged_fits Hyphenated_def checkWidth_def LineOf_width by auto
qed

text \<open>A justified paragraph of UTF-8 is always broken too: a line exceeds the measure by at most the hang of a hyphen and a third
  of a space in every gap.\<close>

theorem justified_lines:
  assumes "measurer_ok m" "hyphenator_ok h" "utf8_valid para" "0 < width"
  shows "\<exists>ls. Justify F (Tokens para m) width width h m = Some ls \<and> lines_of (Fields para) (map Words ls) \<and>
    (\<forall>l \<in> set ls. lineWidth l = lineWidth (LineOf (Words l) m) \<and>
       (lineWidth l \<le> width + hyphenHang m + int (length (Words l) - 1) * (mSpace m sdiv 3) \<or> (\<exists>p. Words l = [p] \<and> \<not> multiRune p)))"
proof -
  have "utf8_text para" using assms(3) by (simp add: utf8_valid_text)
  then have "\<forall>f \<in> set (Fields para). steady m f" using Fields_text steady_valid by blast
  from breakLines_paragraph [OF justified_ok [OF assms(1)] assms(2) this, where F = F and F1 = F and width = width]
  show ?thesis using assms(4) unfolding justified_fits Justify_def checkWidth_def LineOf_width by auto
qed

text \<open>\<open>Cell\<close> sets any text, UTF-8 or not, in at least one line, each of at most the width in runes.\<close>

lemma cell_lines:
  assumes "hyphenator_ok h" "0 < width"
  shows "\<exists>out. Cell F s width h = Some out \<and> out \<noteq> [] \<and> (\<forall>l \<in> set out. int (length (chars_of l)) \<le> width)"
proof -
  have "\<forall>f \<in> set (Fields s). steady Mono f" using steady_Mono by simp
  from breakLines_paragraph [OF ragged_ok [OF Mono_ok] assms(1) this, where F = F and F1 = F and penalty1 = "F_int F 25" and width = width]
  obtain ls where ls: "Hyphenated F s width width h (F_int F 25) Mono = Some ls" "lines_of (Fields s) (map Words ls)"
    "\<forall>l \<in> set ls. line_fits Mono (ragged F Mono (F_int F 25)) width (Words l)"
    using assms(2) by (auto simp: Hyphenated_def checkWidth_def)
  have "int (length (chars_of (Join [32] (Words l)))) \<le> width" if "l \<in> set ls" for l
  proof (cases "Words l = []")
    case False
    then have "int (length (chars_of (Join [32] (Words l)))) = line_width Mono (Words l)" by (rule chars_Join)
    moreover have "line_width Mono (Words l) \<le> width"
      using ls(3) that assms(2) unfolding ragged_fits by (auto simp: multiRune_chars Mono_def)
    ultimately show ?thesis by simp
  qed (use assms(2) in simp)
  then have "\<forall>l \<in> set (Flatten ls). int (length (chars_of l)) \<le> width" by (auto simp: Flatten_def)
  then show ?thesis using ls(1) assms(2) by (cases "Flatten ls = []") (auto simp: Cell_def Let_def)
qed

text \<open>Costs in whole numbers.\<close>

definition whole_costs :: "int float64" where
  "whole_costs = \<lparr>F_int = (\<lambda>n. n), F_inf = 10 ^ 9, F_add = (+), F_mul = (*), F_div = (sdiv), F_less = (<)\<rparr>"

theorem hyphenated_lines_witness:
  "\<exists>ls. Hyphenated whole_costs (chars ''some words'') 6 6 None 25 Mono = Some ls \<and> lines_of [chars ''some'', chars ''words''] (map Words ls)"
proof -
  have "utf8_valid (chars ''some words'')" "Fields (chars ''some words'') = [chars ''some'', chars ''words'']" by code_simp+
  then show ?thesis using hyphenated_lines [OF Mono_ok, of None "chars ''some words''" 6 whole_costs 25] by (auto simp: hyphenator_ok_def)
qed

theorem justified_lines_witness:
  "\<exists>ls. Justify whole_costs (Tokens (chars ''some words'') Mono) 6 6 None Mono = Some ls \<and> lines_of [chars ''some'', chars ''words''] (map Words ls)"
proof -
  have "utf8_valid (chars ''some words'')" "Fields (chars ''some words'') = [chars ''some'', chars ''words'']" by code_simp+
  then show ?thesis using justified_lines [OF Mono_ok, of None "chars ''some words''" 6 whole_costs] by (auto simp: hyphenator_ok_def)
qed

end
