(* ===== verification/WrapRunIn.thy ===== *)
theory WrapRunIn
  imports WrapLines
begin

text \<open>
  Paragraphs with a run-in, whose first line is narrower than the rest: when \<open>breakLines\<close> never returns.
\<close>

section \<open>The longest prefix that fits\<close>

lemma gallop_beyond: "gallop m r lw lo hi = (lo', hi') \<Longrightarrow> 0 < hi \<Longrightarrow> length r < hi' \<or> lw < mWidth m (concat (take hi' r))"
proof (induction m r lw lo hi rule: gallop.induct)
  case (1 m r lw lo hi)
  show ?case
  proof (cases "0 < hi \<and> hi \<le> length r \<and> mWidth m (concat (take hi r)) \<le> lw")
    case True
    then have "gallop m r lw hi (2 * hi) = (lo', hi')" using "1.prems"(1) by (simp add: gallop.simps [of m r lw lo hi])
    then show ?thesis using "1.IH" [OF True] True by simp
  next
    case False
    then have "gallop m r lw lo hi = (lo, hi)" unfolding gallop.simps [of m r lw lo hi] by (simp only: if_False)
    then show ?thesis using "1.prems" False by auto
  qed
qed

lemma bisect_beyond:
  "length r < hi \<or> lw < mWidth m (concat (take hi r)) \<Longrightarrow> lo < hi \<Longrightarrow>
    length r < bisect m r lw lo hi + 1 \<or> lw < mWidth m (concat (take (bisect m r lw lo hi + 1) r))"
proof (induction m r lw lo hi rule: bisect.induct)
  case (1 m r lw lo hi)
  define mid where "mid = (lo + hi) div 2"
  show ?case
  proof (cases "1 < hi - lo")
    case True
    then have mid: "lo < mid" "mid < hi" by (auto simp: mid_def)
    show ?thesis
    proof (cases "mWidth m (concat (take mid r)) \<le> lw")
      case fits: True
      then have "bisect m r lw lo hi = bisect m r lw mid hi" using True by (simp add: bisect.simps [of m r lw lo hi] Let_def mid_def)
      then show ?thesis using "1.IH"(1) [OF True mid_def fits "1.prems"(1) mid(2)] by simp
    next
      case wide: False
      then have "bisect m r lw lo hi = bisect m r lw lo mid" using True by (simp add: bisect.simps [of m r lw lo hi] Let_def mid_def)
      then show ?thesis using "1.IH"(2) [OF True mid_def wide _ mid(1)] wide by simp
    qed
  next
    case False
    then have "bisect m r lw lo hi = lo" "hi = lo + 1" using "1.prems"(2) by (simp_all add: bisect.simps [of m r lw lo hi])
    then show ?thesis using "1.prems" by simp
  qed
qed

lemma fitRunes_longest: "fitRunes m r lw = length r \<or> lw < mWidth m (concat (take (fitRunes m r lw + 1) r))"
proof -
  obtain lo hi where g: "gallop m r lw 0 1 = (lo, hi)" by (cases "gallop m r lw 0 1")
  have b: "lo < hi" "lo \<le> length r" "length r < hi \<or> lw < mWidth m (concat (take hi r))" using gallop_bracket [OF g] gallop_beyond [OF g] by simp_all
  have "length r < min hi (length r + 1) \<or> lw < mWidth m (concat (take (min hi (length r + 1)) r))" using b(3) by (auto simp: min_def)
  moreover have "lo < min hi (length r + 1)" using b by simp
  ultimately have "length r < bisect m r lw lo (min hi (length r + 1)) + 1 \<or> lw < mWidth m (concat (take (bisect m r lw lo (min hi (length r + 1)) + 1) r))"
    by (rule bisect_beyond)
  moreover have "fitRunes m r lw = bisect m r lw lo (min hi (length r + 1))" unfolding fitRunes_def g by simp
  ultimately show ?thesis using fitRunes_fits [of m r lw] by auto
qed

lemma Mono_take: "\<forall>g \<in> set r. char g \<Longrightarrow> mWidth Mono (concat (take k r)) = int (min k (length r))"
proof -
  assume "\<forall>g \<in> set r. char g"
  then have "chars_of (concat (take k r)) = take k r" by (intro chars_concat) (auto dest: in_set_takeD)
  then show ?thesis by (simp add: Mono_def min.commute)
qed

text \<open>In monospace: as many runes as the measure, or all.\<close>

lemma fitRunes_Mono: "\<forall>g \<in> set r. char g \<Longrightarrow> 0 \<le> lw \<Longrightarrow> fitRunes Mono r lw = min (nat lw) (length r)"
  using fitRunes_longest [of Mono r lw] fitRunes_fits [of Mono r lw] Mono_take [of r "fitRunes Mono r lw + 1"] Mono_take [of r "fitRunes Mono r lw"] by auto

section \<open>A word with no point, in monospace\<close>

text \<open>What is left of a word of \<open>n\<close> runes cut at \<open>lw\<close> and then at every \<open>width\<close>.\<close>

lemma split_Mono:
  fixes w :: measured
  defines "R \<equiv> runes_of (w_text w)"
  assumes m: "w_m w = Mono" and width: "0 < width"
  shows "consumed < length R \<Longrightarrow> 0 < lw \<Longrightarrow> \<exists>ps e. split_word w (int width) 0 consumed [] (int lw) = Some (ps, e) \<and>
    (ps = [] \<longleftrightarrow> length R - consumed \<le> lw) \<and>
    length R - e = (if length R - consumed \<le> lw then length R - consumed else (length R - consumed - lw - 1) mod width + 1)"
proof (induction "length R - consumed" arbitrary: consumed lw rule: less_induct)
  case less
  define r where "r = drop consumed R"
  have R: "\<forall>g \<in> set r. char g" by (auto simp: r_def R_def intro: char_runes dest: in_set_dropD)
  have f: "fitRunes Mono r (int lw) = min lw (length r)" using fitRunes_Mono [OF R, of "int lw"] by simp
  have eq: "split_word w (int width) 0 consumed [] (int lw) =
    (if length r \<le> 1 then Some ([], consumed)
     else if min lw (length r) = length r then Some ([], consumed)
     else Option.bind (split_word w (int width) 0 (consumed + max (min lw (length r)) 1) [] (int width)) (\<lambda>(ps, e). Some (concat (take (max (min lw (length r)) 1) r) # ps, e)))"
    unfolding split_word.simps [of w "int width" 0 consumed "[]" "int lw"] Let_def R_def [symmetric] r_def [symmetric] m f
    by (simp add: best_point_def)
  have len: "length r = length R - consumed" by (simp add: r_def)
  show ?case
  proof (cases "length R - consumed \<le> lw")
    case True
    then show ?thesis using eq less.prems len by (auto simp: min_def)
  next
    case False
    then have mn: "min lw (length r) = lw" "max lw 1 = lw" "1 < length r" "lw \<noteq> length r" using less.prems(2) len by auto
    have c: "consumed + lw < length R" "length R - (consumed + lw) < length R - consumed" using False less.prems(2) by auto
    from less.hyps [OF c(2) c(1) width] obtain ps e where rc: "split_word w (int width) 0 (consumed + lw) [] (int width) = Some (ps, e)"
      "length R - e = (if length R - (consumed + lw) \<le> width then length R - (consumed + lw) else (length R - (consumed + lw) - width - 1) mod width + 1)" by auto
    define d where "d = length R - (consumed + lw)"
    have d: "0 < d" using c(1) by (simp add: d_def)
    have "length R - e = (d - 1) mod width + 1"
    proof (cases "d \<le> width")
      case True
      then show ?thesis using rc(2) d by (simp add: d_def [symmetric])
    next
      case big: False
      then have "d - 1 = (d - width - 1) + width" by simp
      then have "(d - 1) mod width = (d - width - 1) mod width" by (metis mod_add_self2)
      then show ?thesis using rc(2) big by (simp add: d_def [symmetric])
    qed
    moreover have "d - 1 = length R - consumed - lw - 1" by (simp add: d_def)
    moreover have "split_word w (int width) 0 consumed [] (int lw) = Some (concat (take lw r) # ps, e)" using eq mn rc(1) by simp
    ultimately show ?thesis using False by auto
  qed
qed

section \<open>A run-in that never ends\<close>

lemma dp_line_long:
  assumes "i < length ws" "multiRune (w_text (ws ! i))" "width + md_hang md < w_width (ws ! i)" "0 \<le> md_hang md"
  shows "snd (dp_line F md ws i width T i lineLen best) = (i, overlong)"
proof -
  obtain cost nxt hyph where T: "T = (cost, nxt, hyph)" by (cases T)
  have g: "(length ws \<le> i) = False" "(i = i) = True" using assms(1) by auto
  have t: "((if i + 1 < length ws \<and> HasSuffix (w_text (ws ! i)) [45] then width + md_hang md else width) < w_width (ws ! i)) = True" using assms(3,4) by auto
  show ?thesis unfolding T dp_line.simps [of F md ws i width "(cost, nxt, hyph)" i lineLen best] Let_def prod.case
    using assms(2) by (simp only: g t if_False if_True simp_thms snd_conv)
qed

lemma dp_at_long:
  assumes "i < length ws" "multiRune (w_text (ws ! i))" "(if i = 0 then first else later) + md_hang md < w_width (ws ! i)" "0 \<le> md_hang md" "table_len (length ws) T"
  shows "choice_at (dp_at F md ws first later T i) i = (i, overlong)"
proof -
  obtain cost nxt hyph where T: "T = (cost, nxt, hyph)" by (cases T)
  obtain c j h where d: "dp_line F md ws i (if i = 0 then first else later) T i 0 (F_inf F, i + 1, noHyphen) = (c, j, h)"
    by (cases "dp_line F md ws i (if i = 0 then first else later) T i 0 (F_inf F, i + 1, noHyphen)")
  then have "j = i" "h = overlong" using dp_line_long [OF assms(1-4), of F T 0 "(F_inf F, i + 1, noHyphen)"] by simp_all
  then show ?thesis using assms(1,5) d by (simp add: T dp_at_def choice_at_def table_len_def Let_def)
qed

text \<open>Word 0 is wider than the first line, fits the others, and a line is set already.\<close>

definition stuck :: "int \<Rightarrow> int \<Rightarrow> measured list \<Rightarrow> 'c table \<Rightarrow> bool" where
  "stuck first width ws T \<longleftrightarrow> ws \<noteq> [] \<and> wf_word Mono (ws ! 0) \<and> w_points (ws ! 0) = [] \<and> first < w_width (ws ! 0) \<and> w_width (ws ! 0) \<le> width
     \<and> 0 < first \<and> table_len (length ws) T \<and> choice_at T 0 = (0, overlong)"

lemma Mono_multi: "wf_word Mono w \<Longrightarrow> w_width w = int (length (runes_of (w_text w)))"
  using wf_width [of Mono w] by (simp add: Mono_def)

lemma stuck_rest:
  assumes ws: "ws \<noteq> []" "wf_word Mono (ws ! 0)" "w_points (ws ! 0) = []" and T: "table_len (length ws) T" and hang: "md_hang md = 0"
    and e: "e < length (runes_of (w_text (ws ! 0)))" "0 < first" "first < int (length (runes_of (w_text (ws ! 0))) - e)" "int (length (runes_of (w_text (ws ! 0))) - e) \<le> width"
  shows "stuck first width (ws[0 := w_from (ws ! 0) e]) (dp F md (ws[0 := w_from (ws ! 0) e]) 0 (0 + 1) first width T)"
proof -
  define w where "w = ws ! 0"
  define ws' where "ws' = ws[0 := w_from w e]"
  have f: "wf_word Mono (w_from w e)" "w_text (w_from w e) = concat (drop e (runes_of (w_text w)))" using wf_from [OF ws(2) e(1)] by (simp_all add: w_def)
  have r: "runes_of (w_text (w_from w e)) = drop e (runes_of (w_text w))" by (simp only: f(2) drop_runes)
  then have width': "w_width (w_from w e) = int (length (runes_of (w_text w)) - e)" using Mono_multi [OF f(1)] by simp
  have pts: "w_points (w_from w e) = []" using ws(3) by (simp add: w_from_def w_def)
  have len: "0 < length ws'" "table_len (length ws') T" "ws' ! 0 = w_from w e" using ws(1) T by (simp_all add: ws'_def)
  have "1 < length (drop e (runes_of (w_text w)))" using e(2,3) by (simp add: w_def)
  then have multi: "multiRune (w_text (w_from w e))" unfolding length_multi r .
  have "choice_at (dp_at F md ws' first width T 0) 0 = (0, overlong)"
    by (rule dp_at_long [OF len(1) _ _ _ len(2)]) (use multi width' e(3) hang len(3) in \<open>simp_all add: w_def\<close>)
  then have "stuck first width ws' (dp F md ws' 0 (0 + 1) first width T)"
    unfolding dp_one using len f(1) pts width' e dp_at_len [OF len(2)] by (simp add: stuck_def w_def)
  then show ?thesis by (simp add: ws'_def w_def)
qed

lemma stuck_step:
  assumes s: "stuck first width ws T" and hang: "md_hang md = 0"
  shows "split_word (ws ! 0) width (md_hang md) 0 (w_points (ws ! 0)) width = Some ([], 0)"
    and "stuck first width (ws[0 := w_from (ws ! 0) 0]) (dp F md (ws[0 := w_from (ws ! 0) 0]) 0 (0 + 1) first width T)"
proof -
  define w where "w = ws ! 0"
  have w: "wf_word Mono w" "w_points w = []" "first < w_width w" "w_width w \<le> width" "0 < first" using s by (simp_all add: stuck_def w_def)
  have n: "w_width w = int (length (runes_of (w_text w)))" by (rule Mono_multi [OF w(1)])
  have R: "0 < length (runes_of (w_text w))" using w(3,5) n by linarith
  have pw: "0 < width" using w by simp
  have "w_m w = Mono" using w(1) by (simp add: wf_word_def)
  from split_Mono [OF this, of "nat width" 0 "nat width"] pw R w(4) n
  obtain ps e where sp: "split_word w width 0 0 [] width = Some (ps, e)" "ps = []" "length (runes_of (w_text w)) - e = length (runes_of (w_text w))" by auto
  have "e = 0" using sp(3) R by linarith
  with sp show "split_word (ws ! 0) width (md_hang md) 0 (w_points (ws ! 0)) width = Some ([], 0)" using w(2) hang by (simp add: w_def)
  show "stuck first width (ws[0 := w_from (ws ! 0) 0]) (dp F md (ws[0 := w_from (ws ! 0) 0]) 0 (0 + 1) first width T)"
    by (rule stuck_rest [OF _ _ _ _ hang]) (use s w n R in \<open>auto simp: stuck_def w_def\<close>)
qed

lemma stuck_never:
  fixes F :: "'a float64"
  shows "md_hang md = 0 \<Longrightarrow> stuck first width ws T \<Longrightarrow> break_loop F md styled first width ws T 0 False = None"
proof (rule ccontr)
  assume hang: "md_hang md = 0" and s: "stuck first width ws T" and "break_loop F md styled first width ws T 0 False \<noteq> None"
  then obtain res where res: "break_loop F md styled first width ws T 0 False = Some res" by blast
  define P where "P = (\<lambda>(F :: 'a float64) (md :: 'a cost_model) (styled :: bool) first width ws (T :: 'a table) i none (res :: text_line list).
    i = (0 :: nat) \<longrightarrow> \<not> none \<longrightarrow> md_hang md = 0 \<longrightarrow> \<not> stuck first width ws T)"
  have "P F md styled first width ws T 0 False res"
  proof (rule break_loop.raw_induct [where P = P, OF _ res])
    fix bl :: "'a float64 \<Rightarrow> 'a cost_model \<Rightarrow> bool \<Rightarrow> int \<Rightarrow> int \<Rightarrow> measured list \<Rightarrow> 'a table \<Rightarrow> nat \<Rightarrow> bool \<Rightarrow> text_line list option"
    fix F :: "'a float64" and md :: "'a cost_model" and styled first width ws and T :: "'a table" and i none res
    assume ih: "\<And>F md styled first width ws T i none res. bl F md styled first width ws T i none = Some res \<Longrightarrow> P F md styled first width ws T i none res"
      and step: "(if length ws \<le> i then Some []
      else case T of (cost, nxt, hyph) \<Rightarrow>
        let j = nxt ! i; hp = hyph ! i
        in if hp = overlong
           then let w = ws ! i
                in Option.bind (split_word w width (md_hang md) 0 (w_points w) (if none then first else width)) (\<lambda>(pieces, ct).
                     let ws' = ws[i := w_from w ct]
                     in Option.bind (bl F md styled first width ws' (dp F md ws' i (i + 1) first width T) i (none \<and> pieces = []))
                          (\<lambda>ls. Some (map (piece_line styled w) pieces @ ls)))
           else if 0 \<le> hp
           then let w = ws ! j; ct = w_points w ! nat hp; ws' = ws[j := w_from w ct];
                    ln = set_line md styled (map (\<lambda>k. whole (ws ! k)) [i..<j] @ [(hyphened (runes_of (w_text w)) ct, w_prefix w ! nat hp, w_emph w)])
                in Option.bind (bl F md styled first width ws' (dp F md ws' j (j + 1) first width T) j False) (\<lambda>ls. Some (ln # ls))
           else let ln = set_line md styled (map (\<lambda>k. whole (ws ! k)) [i..<j])
                in Option.bind (bl F md styled first width ws T j False) (\<lambda>ls. Some (ln # ls))) = Some res"
    show "P F md styled first width ws T i none res" unfolding P_def
    proof (intro impI notI)
      assume a: "i = 0" "\<not> none" "md_hang md = 0" "stuck first width ws T"
      obtain cost nxt hyph where T: "T = (cost, nxt, hyph)" by (cases T)
      have h: "hyph ! 0 = overlong" "ws \<noteq> []" using a(4) by (simp_all add: stuck_def T choice_at_def)
      note st = stuck_step(1) [OF a(4,3)] stuck_step(2) [OF a(4,3), of F]
      obtain ls where "bl F md styled first width (ws[0 := w_from (ws ! 0) 0]) (dp F md (ws[0 := w_from (ws ! 0) 0]) 0 (0 + 1) first width T) 0 False = Some ls"
        using step h a(1,2) st(1) unfolding T by (auto simp: Let_def Option.bind_eq_Some_conv)
      from ih [OF this] show False using st(2) a(3) by (simp add: P_def)
    qed
  qed
  then show False using hang s by (simp add: P_def)
qed

lemma dp_whole:
  assumes "0 < length ws" "table_len (length ws) T"
  shows "\<exists>T1. table_len (length ws) T1 \<and> dp F md ws 0 (length ws) first later T = dp_at F md ws first later T1 0"
proof -
  have "rev [0..<length ws] = rev [1..<length ws] @ [0]" using assms(1) by (simp add: upt_conv_Cons)
  then have "dp F md ws 0 (length ws) first later T = dp_at F md ws first later (dp F md ws 1 (length ws) first later T) 0" by (simp add: dp_def)
  moreover have "table_len (length ws) (foldl (dp_at F md ws first later) T is)" for "is"
    using assms(2) by (induction "is" arbitrary: T) (simp_all add: dp_at_len)
  ultimately show ?thesis unfolding dp_def by blast
qed

text \<open>C17. \<open>Hyphenated\<close> on a first line narrower than the rest, without hyphenation points and in monospace, never returns exactly when the
  first word, cut at the first measure and then at every full one, leaves more than the first line holds: what is left is
  set on the first line's measure again, which it does not fit, and never on the line it fits. Otherwise it returns.\<close>

theorem run_in_hangs:
  assumes "0 < first" "first \<le> width" "Fields para \<noteq> []"
  shows "Hyphenated F para (int first) (int width) None penalty Mono = None \<longleftrightarrow>
    first < length (chars_of (hd (Fields para))) \<and> first < (length (chars_of (hd (Fields para))) - first - 1) mod width + 1"
proof -
  define md where "md = ragged F Mono penalty"
  define ws where "ws = words (Tokens para Mono) None (int first) (int width)"
  define w where "w = ws ! 0"
  define R where "R = runes_of (w_text w)"
  have "model_ok Mono md" unfolding md_def by (rule ragged_ok [OF Mono_ok])
  moreover have "md_hang md = 0" by (simp add: md_def ragged_def Let_def)
  ultimately have md: "model_ok Mono md" "md_hang md = 0" .
  have ok: "words_ok Mono ws" "map w_text ws = Fields para"
    using words_paragraph [OF Mono_ok, of None para "int first" "int width"] steady_Mono by (simp_all add: ws_def hyphenator_ok_def)
  have ne: "ws \<noteq> []" using ok(2) assms(3) by auto
  then have w: "wf_word Mono w" "w_text w = hd (Fields para)" using ok by (auto simp: words_ok_def w_def hd_conv_nth hd_map simp flip: ok(2))
  have pts: "w_points w = []" using ne by (simp add: w_def ws_def words_def Let_def newWord_def)
  have n: "length R = length (chars_of (hd (Fields para)))" using w(2) by (simp add: R_def)
  have ww: "w_width w = int (length R)" using Mono_multi [OF w(1)] by (simp add: R_def)
  have R0: "0 < length R" using w(1) by (simp add: wf_word_def R_def)
  have "w_m w = Mono" using w(1) by (simp add: wf_word_def)
  from split_Mono [OF this, of width 0 first] assms(1,2) R0 obtain ps e where
    s: "split_word w (int width) 0 0 [] (int first) = Some (ps, e)" "ps = [] \<longleftrightarrow> length R \<le> first"
      "length R - e = (if length R \<le> first then length R else (length R - first - 1) mod width + 1)" by (auto simp: R_def)
  have hy: "Hyphenated F para (int first) (int width) None penalty Mono = breakLines F md ws (int first) (int width)"
    using assms(1,2) by (simp add: Hyphenated_def checkWidth_def md_def ws_def)
  show ?thesis
  proof (cases "first < length R \<and> first < (length R - first - 1) mod width + 1")
    case False
    have "w_width (hd ws) \<le> int first \<or> rest_fits Mono md (int first) (int width) (hd ws)"
    proof (cases "length R \<le> first")
      case True
      then show ?thesis using ww ne by (simp add: w_def hd_conv_nth)
    next
      case long: False
      then have "length R - e \<le> first" using False s(3) by simp
      moreover have "mWidth Mono (concat (drop e R)) = int (length R - e)"
        using Mono_take [of "drop e R" "length (drop e R)"] by (auto simp: R_def intro: char_runes dest: in_set_dropD)
      ultimately show ?thesis using s(1) md(2) pts ne by (simp add: rest_fits_def w_def [symmetric] hd_conv_nth R_def [symmetric])
    qed
    then show ?thesis using breakLines_ok [OF md(1) ok(1), of "int first" "int width" F] assms(2) False n hy by auto
  next
    case True
    define T0 where "T0 = (replicate (length ws + 1) (F_int F 0), replicate (length ws) (0 :: nat), replicate (length ws) (0 :: int))"
    define T where "T = dp F md ws 0 (length ws) (int first) (int width) T0"
    have T0: "table_len (length ws) T0" by (simp add: table_len_def T0_def)
    obtain T1 where T1: "table_len (length ws) T1" "T = dp_at F md ws (int first) (int width) T1 0"
      using dp_whole [OF _ T0, of F md "int first" "int width"] ne by (auto simp: T_def)
    have tl: "table_len (length ws) T" unfolding T1(2) by (rule dp_at_len [OF T1(1)])
    have "multiRune (w_text w)" using True assms(1) by (simp add: length_multi R_def [symmetric])
    then have "choice_at (dp_at F md ws (int first) (int width) T1 0) 0 = (0, overlong)"
      by (intro dp_at_long [OF _ _ _ _ T1(1)]) (use ne True ww md(2) in \<open>simp_all add: w_def\<close>)
    then have ch: "choice_at T 0 = (0, overlong)" using T1(2) by simp
    obtain cost nxt hyph where Tt: "T = (cost, nxt, hyph)" by (cases T)
    have "(length R - first - 1) mod width < width" by (rule mod_less_divisor) (use assms(1,2) in linarith)
    then have ps: "ps \<noteq> []" "e < length R" "first < length R - e" "length R - e \<le> width"
      using True s(2,3) by auto
    have "stuck (int first) (int width) (ws[0 := w_from (ws ! 0) e]) (dp F md (ws[0 := w_from (ws ! 0) e]) 0 (0 + 1) (int first) (int width) T)"
      by (rule stuck_rest [OF ne _ _ tl md(2)]) (use w(1) pts ps assms(1) in \<open>simp_all add: w_def R_def\<close>)
    from stuck_never [OF md(2) this]
    have "break_loop F md styled (int first) (int width) ws T 0 True = None" for styled
      using ne ch s(1) md(2) pts ps(1)
      by (simp add: break_loop.simps [of F md styled "int first" "int width" ws "(cost, nxt, hyph)" 0 True] Tt choice_at_def w_def Let_def)
    then have "breakLines F md ws (int first) (int width) = None" using ne by (simp add: breakLines_def Let_def T_def T0_def)
    then show ?thesis using hy True n by simp
  qed
qed

theorem run_in_hangs_witness:
  "Hyphenated whole_costs (replicate 13 97) 5 10 None 0 Mono = None \<and> Hyphenated whole_costs (replicate 15 97) 5 10 None 0 Mono = None
    \<and> Hyphenated whole_costs (replicate 12 97) 7 10 None 0 Mono \<noteq> None"
proof -
  have "Fields (replicate 13 97) = [replicate 13 97]" "Fields (replicate 15 97) = [replicate 15 97]" "Fields (replicate 12 97) = [replicate 12 97]"
    "length (chars_of (replicate 13 97)) = 13" "length (chars_of (replicate 15 97)) = 15" "length (chars_of (replicate 12 97)) = 12" by code_simp+
  then show ?thesis using run_in_hangs [of 5 10 "replicate 13 97" whole_costs 0] run_in_hangs [of 5 10 "replicate 15 97" whole_costs 0]
    run_in_hangs [of 7 10 "replicate 12 97" whole_costs 0] by simp
qed

end
