(* ===== verification/WrapBest.thy ===== *)
theory WrapBest
  imports Complex_Main WrapRunIn
begin

text \<open>
  The lines of the ragged model cost the least of all the lines that fit.
\<close>

section \<open>Least cost\<close>

text \<open>Exact arithmetic, with no number for infinity. In monospace every cost is a whole number of quarters, which a
  \<open>float64\<close> holds exactly below 2^51.\<close>

definition exact2 :: "(rat \<Rightarrow> rat \<Rightarrow> rat) \<Rightarrow> rat option \<Rightarrow> rat option \<Rightarrow> rat option" where
  "exact2 f a b = (case a of None \<Rightarrow> None | Some x \<Rightarrow> (case b of None \<Rightarrow> None | Some y \<Rightarrow> Some (f x y)))"

definition exact :: "rat option float64" where
  "exact = \<lparr>F_int = \<lambda>n. Some (of_int n), F_inf = None, F_add = exact2 (+), F_mul = exact2 (*), F_div = exact2 (/),
     F_less = \<lambda>a b. (case a of None \<Rightarrow> False | Some x \<Rightarrow> (case b of None \<Rightarrow> True | Some y \<Rightarrow> x < y))\<rparr>"

text \<open>The cost of lines by the ragged model, and the lines to choose from.\<close>

definition slack_cost :: "measurer \<Rightarrow> int \<Rightarrow> rat" where
  "slack_cost m slack = of_int slack * of_int slack / (of_int (mSpace m) * of_int (mSpace m))"

definition last_cost :: "measurer \<Rightarrow> int \<Rightarrow> int \<Rightarrow> rat" where
  "last_cost m width slack = (if width div 2 < slack then of_int slack * of_int slack / 4 / (of_int (mSpace m) * of_int (mSpace m)) else 0)"

fun ragged_cost :: "measurer \<Rightarrow> int \<Rightarrow> bytes list list \<Rightarrow> rat" where
  "ragged_cost m width [] = 0"
| "ragged_cost m width (l # ls) =
     (if ls = [] then last_cost m width (width - line_width m l) else slack_cost m (width - line_width m l) + ragged_cost m width ls)"

definition breaking :: "measurer \<Rightarrow> int \<Rightarrow> bytes list \<Rightarrow> bytes list list \<Rightarrow> bool" where
  "breaking m width ws bs \<longleftrightarrow> concat bs = ws \<and> [] \<notin> set bs \<and> (\<forall>l \<in> set bs. line_width m l \<le> width)"

definition line_cost :: "measurer \<Rightarrow> int \<Rightarrow> measured list \<Rightarrow> nat \<Rightarrow> nat \<Rightarrow> rat" where
  "line_cost m width ws i j =
     (if j < length ws then slack_cost m (width - line_width m (texts ws i j)) else last_cost m width (width - line_width m (texts ws i j)))"

abbreviation ragged_exact :: "measurer \<Rightarrow> rat option cost_model" where
  "ragged_exact m \<equiv> ragged exact m (F_int exact 0)"

lemma ragged_exact_costs:
  assumes "0 < width"
  shows "md_line (ragged_exact m) slack k = Some (slack_cost m slack)" "md_last (ragged_exact m) slack width = Some (last_cost m width slack)"
  using assms by (simp_all add: ragged_def Let_def exact_def exact2_def slack_cost_def last_cost_def sdiv_pos)

lemma take_exact:
  "take_better exact (None, b) (Some x) j h = (Some x, j, h)"
  "take_better exact (Some y, b) (Some x) j h = (if x < y then (Some x, j, h) else (Some y, b))"
  by (simp_all add: take_better_def exact_def)

lemma line_width_append: "measurer_ok m \<Longrightarrow> us \<noteq> [] \<Longrightarrow> line_width m us \<le> line_width m (us @ vs)"
proof -
  assume m: "measurer_ok m"
  have "0 \<le> sum_list (map (\<lambda>p. mWidth m p + mSpace m) vs)" using m by (intro sum_list_nonneg) (auto simp: measurer_ok_def)
  then show ?thesis by (simp add: line_width_def)
qed

lemma texts_prefix: "i \<le> j \<Longrightarrow> j \<le> k \<Longrightarrow> k \<le> length ws \<Longrightarrow> texts ws i k = texts ws i j @ texts ws j k"
proof -
  assume "i \<le> j" "j \<le> k" "k \<le> length ws"
  then have "take (k - i) (drop i ws) = take (j - i) (drop i ws) @ take (k - j) (drop (j - i) (drop i ws))"
    using take_add [of "j - i" "k - j" "drop i ws"] by simp
  then show ?thesis using \<open>i \<le> j\<close> by (simp add: texts_def)
qed

lemma texts_wider: "measurer_ok m \<Longrightarrow> i < j \<Longrightarrow> j \<le> k \<Longrightarrow> k \<le> length ws \<Longrightarrow> line_width m (texts ws i j) \<le> line_width m (texts ws i k)"
  using line_width_append [of m "texts ws i j" "texts ws j k"] texts_prefix [of i j k ws] texts_nonempty [of i j ws] by simp

lemma dp_line_ragged:
  assumes "j < length ws" "w_prefix (ws ! j) = []" "len = (if j = i then w_width (ws ! j) else lineLen + (mSpace m + w_width (ws ! j)))"
    "j = i \<longrightarrow> len \<le> width"
  shows "dp_line exact (ragged_exact m) ws i width (cost, nxt, hyph) j lineLen best =
    (if width < len then best
     else dp_line exact (ragged_exact m) ws i width (cost, nxt, hyph) (j + 1) len
       (take_better exact best (F_add exact (cost ! (j + 1)) (if j + 1 < length ws then md_line (ragged_exact m) (width - len) (int (j - i + 1))
          else md_last (ragged_exact m) (width - len) width)) (j + 1) noHyphen))"
proof -
  have h: "md_hyphen F md (ws ! j) a b c d = None" for F :: "rat option float64" and md a b c d by (simp add: md_hyphen_def assms(2))
  have r: "md_sp (ragged_exact m) = mSpace m" "md_hang (ragged_exact m) = 0" "md_shrink (ragged_exact m) = 0" "md_proactive (ragged_exact m) = False"
    by (simp_all add: ragged_def Let_def)
  have g: "(length ws \<le> j) = False" "(if p then width + 0 else width) = width" for p using assms(1) by auto
  show ?thesis
  proof (cases "j = i")
    case True
    then have "\<not> width < w_width (ws ! j)" using assms(3,4) by simp
    then show ?thesis unfolding dp_line.simps [of exact "ragged_exact m" ws i width "(cost, nxt, hyph)" j lineLen best] Let_def prod.case h r g option.case
      using True assms(3) by simp
  next
    case False
    then show ?thesis unfolding dp_line.simps [of exact "ragged_exact m" ws i width "(cost, nxt, hyph)" j lineLen best] Let_def prod.case h r g option.case
      using assms(3) by simp
  qed
qed

definition best_of :: "measurer \<Rightarrow> int \<Rightarrow> measured list \<Rightarrow> (nat \<Rightarrow> rat) \<Rightarrow> nat \<Rightarrow> (nat \<Rightarrow> bool) \<Rightarrow> rat option \<times> nat \<times> int \<Rightarrow> bool" where
  "best_of m width ws V i okay b \<longleftrightarrow>
     (\<exists>v k. b = (Some v, k, noHyphen) \<and> i < k \<and> k \<le> length ws \<and> line_width m (texts ws i k) \<le> width \<and> v = line_cost m width ws i k + V k
        \<and> (\<forall>k'. i < k' \<longrightarrow> k' \<le> length ws \<longrightarrow> okay k' \<longrightarrow> v \<le> line_cost m width ws i k' + V k'))"

lemma dp_line_best:
  assumes m: "measurer_ok m" and ws: "words_ok m ws" "\<forall>w \<in> set ws. w_prefix w = []" and width: "0 < width"
    and V: "\<forall>k. i < k \<longrightarrow> k \<le> length ws \<longrightarrow> cost ! k = Some (V k)" and i: "i < length ws" "w_width (ws ! i) \<le> width"
  shows "i \<le> j \<Longrightarrow> j \<le> length ws \<Longrightarrow> (if j = i then best = (None, i + 1, noHyphen)
      else lineLen = line_width m (texts ws i j) \<and> lineLen \<le> width \<and> best_of m width ws V i (\<lambda>k. k \<le> j) best) \<Longrightarrow>
    best_of m width ws V i (\<lambda>k. line_width m (texts ws i k) \<le> width) (dp_line exact (ragged_exact m) ws i width (cost, nxt, hyph) j lineLen best)"
proof (induction "length ws - j" arbitrary: j lineLen best)
  case 0
  then have j: "j = length ws" "j \<noteq> i" using i by simp_all
  then show ?case using 0 by (auto simp: dp_line.simps best_of_def)
next
  case (Suc k)
  then have j: "j < length ws" by simp
  define len where "len = (if j = i then w_width (ws ! j) else lineLen + (mSpace m + w_width (ws ! j)))"
  have ww: "w_width (ws ! j) = mWidth m (w_text (ws ! j))" using ws(1) j wf_width by (simp add: words_ok_def)
  have len: "len = line_width m (texts ws i (Suc j))"
  proof (cases "j = i")
    case True
    then show ?thesis using texts_one [OF j] ww by (simp add: len_def)
  next
    case False
    then have "i < j" using Suc.prems(1) by simp
    then show ?thesis using texts_Suc [of i j ws] texts_nonempty [of i j ws] j ww Suc.prems(3) by (simp add: len_def line_width_snoc)
  qed
  note eq = dp_line_ragged [OF j _ len_def, of width cost nxt hyph best]
  show ?case
  proof (cases "width < len")
    case True
    then have ij: "i < j" using Suc.prems(1) i(2) by (cases "i = j") (simp_all add: len_def)
    have "k \<le> j" if "line_width m (texts ws i k) \<le> width" "k \<le> length ws" for k
    proof (rule ccontr)
      assume "\<not> k \<le> j"
      then show False using texts_wider [OF m, of i "Suc j" k ws] that ij True len by simp
    qed
    then have "best_of m width ws V i (\<lambda>k. line_width m (texts ws i k) \<le> width) best"
      using Suc.prems(3) ij unfolding best_of_def by (auto simp: not_le)
    moreover have "dp_line exact (ragged_exact m) ws i width (cost, nxt, hyph) j lineLen best = best"
      using eq ws(2) j True ij by simp
    ultimately show ?thesis by simp
  next
    case False
    define c where "c = line_cost m width ws i (Suc j) + V (Suc j)"
    define best' where "best' = take_better exact best (Some c) (j + 1) noHyphen"
    have "F_add exact (cost ! (j + 1)) (if j + 1 < length ws then md_line (ragged_exact m) (width - len) (int (j - i + 1))
          else md_last (ragged_exact m) (width - len) width) = Some c"
      using V Suc.prems(1) j ragged_exact_costs [OF width] by (simp add: exact_def exact2_def c_def line_cost_def len)
    then have e: "dp_line exact (ragged_exact m) ws i width (cost, nxt, hyph) j lineLen best
        = dp_line exact (ragged_exact m) ws i width (cost, nxt, hyph) (j + 1) len best'"
      using eq ws(2) j False by (simp add: best'_def)
    have b: "best_of m width ws V i (\<lambda>k. k \<le> j + 1) best'"
    proof (cases "j = i")
      case True
      then have "best' = (Some c, j + 1, noHyphen)" using Suc.prems(3) by (simp add: best'_def take_exact)
      then show ?thesis using j True False len by (auto simp: best_of_def c_def le_Suc_eq)
    next
      case ij: False
      then obtain v k where v: "best = (Some v, k, noHyphen)" "i < k" "k \<le> length ws" "line_width m (texts ws i k) \<le> width" "v = line_cost m width ws i k + V k"
        "\<forall>k'. i < k' \<longrightarrow> k' \<le> length ws \<longrightarrow> k' \<le> j \<longrightarrow> v \<le> line_cost m width ws i k' + V k'"
        using Suc.prems(3) by (auto simp: best_of_def)
      show ?thesis
      proof (cases "c < v")
        case True
        then have "best' = (Some c, Suc j, noHyphen)" by (simp add: best'_def v(1) take_exact)
        moreover have "c \<le> line_cost m width ws i k' + V k'" if "i < k'" "k' \<le> length ws" "k' \<le> Suc j" for k'
          using v(6) that True by (cases "k' = Suc j") (fastforce simp: c_def)+
        ultimately show ?thesis using Suc.prems(1) ij j False len by (auto simp: best_of_def c_def)
      next
        case no: False
        then have "best' = best" by (simp add: best'_def v(1) take_exact)
        moreover have "v \<le> line_cost m width ws i k' + V k'" if "i < k'" "k' \<le> length ws" "k' \<le> Suc j" for k'
          using v(6) that no by (cases "k' = Suc j") (simp_all add: c_def)
        ultimately show ?thesis using v by (auto simp: best_of_def)
      qed
    qed
    have "best_of m width ws V i (\<lambda>k. line_width m (texts ws i k) \<le> width) (dp_line exact (ragged_exact m) ws i width (cost, nxt, hyph) (j + 1) len best')"
      by (rule Suc.hyps(1)) (use Suc.hyps(2) Suc.prems(1) j b len False in simp_all)
    then show ?thesis using e by simp
  qed
qed

text \<open>A table whose costs are least, and whose choices attain them.\<close>

definition table_best :: "measurer \<Rightarrow> int \<Rightarrow> measured list \<Rightarrow> rat option table \<Rightarrow> (nat \<Rightarrow> rat) \<Rightarrow> nat \<Rightarrow> bool" where
  "table_best m width ws T V lo \<longleftrightarrow> table_len (length ws) T \<and> V (length ws) = 0
     \<and> (\<forall>k. lo \<le> k \<longrightarrow> k \<le> length ws \<longrightarrow> fst T ! k = Some (V k))
     \<and> (\<forall>i. lo \<le> i \<longrightarrow> i < length ws \<longrightarrow>
          best_of m width ws V i (\<lambda>k. line_width m (texts ws i k) \<le> width) (Some (V i), fst (snd T) ! i, snd (snd T) ! i))"

lemma best_of_cong:
  assumes "\<forall>k. i < k \<longrightarrow> V k = V' k"
  shows "best_of m width ws V i okay b = best_of m width ws V' i okay b"
  unfolding best_of_def using assms by auto

lemma dp_at_best:
  assumes m: "measurer_ok m" and ws: "words_ok m ws" "\<forall>w \<in> set ws. w_prefix w = [] \<and> w_width w \<le> width" and width: "0 < width"
    and T: "table_best m width ws T V (Suc i)" and i: "i < length ws"
  shows "\<exists>V'. table_best m width ws (dp_at exact (ragged_exact m) ws width width T i) V' i"
proof -
  obtain cost nxt hyph where Tt: "T = (cost, nxt, hyph)" by (cases T)
  have len: "length cost = length ws + 1" "length nxt = length ws" "length hyph = length ws" and V: "V (length ws) = 0"
    "\<forall>k. Suc i \<le> k \<longrightarrow> k \<le> length ws \<longrightarrow> cost ! k = Some (V k)"
    "\<forall>k. Suc i \<le> k \<longrightarrow> k < length ws \<longrightarrow> best_of m width ws V k (\<lambda>j. line_width m (texts ws k j) \<le> width) (Some (V k), nxt ! k, hyph ! k)"
    using T by (simp_all add: table_best_def table_len_def Tt)
  define d where "d = dp_line exact (ragged_exact m) ws i width (cost, nxt, hyph) i 0 (None, i + 1, noHyphen)"
  have "\<forall>w \<in> set ws. w_prefix w = []" "w_width (ws ! i) \<le> width" "\<forall>k. i < k \<longrightarrow> k \<le> length ws \<longrightarrow> cost ! k = Some (V k)"
    using ws(2) i V(2) by auto
  from dp_line_best [OF m ws(1) this(1) width this(3) i this(2), of i "(None, i + 1, noHyphen)" 0 nxt hyph]
  have b: "best_of m width ws V i (\<lambda>k. line_width m (texts ws i k) \<le> width) d" using i by (simp add: d_def)
  then obtain v k where dv: "d = (Some v, k, noHyphen)" by (auto simp: best_of_def)
  define V' where "V' = V(i := v)"
  have at: "dp_at exact (ragged_exact m) ws width width T i = (cost[i := Some v], nxt[i := k], hyph[i := noHyphen])"
    using dv by (simp add: dp_at_def Tt Let_def d_def exact_def)
  have later: "best_of m width ws V' j okay b = best_of m width ws V j okay b" if "i \<le> j" for j okay b
    by (rule best_of_cong) (use that in \<open>simp add: V'_def\<close>)
  have "table_best m width ws (cost[i := Some v], nxt[i := k], hyph[i := noHyphen]) V' i"
    unfolding table_best_def
  proof (intro conjI allI impI)
    fix j assume j: "i \<le> j" "j < length ws"
    show "best_of m width ws V' j (\<lambda>k. line_width m (texts ws j k) \<le> width)
       (Some (V' j), fst (snd (cost[i := Some v], nxt[i := k], hyph[i := noHyphen])) ! j, snd (snd (cost[i := Some v], nxt[i := k], hyph[i := noHyphen])) ! j)"
      using b V(3) j len i unfolding later [OF j(1)] by (cases "j = i") (simp_all add: dv V'_def)
  qed (use len V(1,2) i in \<open>auto simp: table_len_def V'_def nth_list_update\<close>)
  then show ?thesis unfolding at by blast
qed

lemma dp_best:
  assumes "measurer_ok m" "words_ok m ws" "\<forall>w \<in> set ws. w_prefix w = [] \<and> w_width w \<le> width" "0 < width"
  shows "e \<le> length ws \<Longrightarrow> table_best m width ws T V e \<Longrightarrow> \<exists>V'. table_best m width ws (dp exact (ragged_exact m) ws 0 e width width T) V' 0"
proof (induction e arbitrary: T V)
  case 0
  then show ?case by (auto simp: dp_def)
next
  case (Suc e)
  then obtain V' where "table_best m width ws (dp_at exact (ragged_exact m) ws width width T e) V' e"
    using dp_at_best [OF assms Suc.prems(2)] by auto
  moreover have "dp exact (ragged_exact m) ws 0 (Suc e) width width T = dp exact (ragged_exact m) ws 0 e width width (dp_at exact (ragged_exact m) ws width width T e)"
    by (simp add: dp_def)
  ultimately show ?case using Suc.IH Suc.prems(1) by simp
qed

text \<open>No breaking costs less.\<close>

lemma table_least:
  assumes T: "table_best m width ws T V 0"
  shows "i \<le> length ws \<Longrightarrow> breaking m width (texts ws i (length ws)) bs \<Longrightarrow> V i \<le> ragged_cost m width bs"
proof (induction bs arbitrary: i)
  case Nil
  then have "texts ws i (length ws) = []" by (simp add: breaking_def)
  then have "i = length ws" using Nil.prems(1) texts_nonempty [of i "length ws" ws] by fastforce
  then show ?case using T by (simp add: table_best_def)
next
  case (Cons l bs)
  have l: "l \<noteq> []" "line_width m l \<le> width" "l @ concat bs = texts ws i (length ws)" using Cons.prems(2) by (auto simp: breaking_def)
  define j where "j = i + length l"
  have "length (l @ concat bs) = length ws - i" unfolding l(3) using Cons.prems(1) by simp
  then have j: "i < j" "j \<le> length ws" using l(1) Cons.prems(1) by (simp_all add: j_def)
  have tx: "texts ws i (length ws) = texts ws i j @ texts ws j (length ws)" by (rule texts_split) (use j in simp_all)
  have "length l = length (texts ws i j)" using j by (simp add: j_def)
  then have lj: "l = texts ws i j" "concat bs = texts ws j (length ws)" using l(3) unfolding tx by simp_all
  have i: "i < length ws" using j by simp
  have "best_of m width ws V i (\<lambda>k. line_width m (texts ws i k) \<le> width) (Some (V i), fst (snd T) ! i, snd (snd T) ! i)"
    using T i by (simp add: table_best_def)
  then have v: "V i \<le> line_cost m width ws i j + V j" using j l(2) lj(1) by (auto simp: best_of_def)
  have ih: "V j \<le> ragged_cost m width bs" by (rule Cons.IH [OF j(2)]) (use Cons.prems(2) lj(2) in \<open>auto simp: breaking_def\<close>)
  show ?case
  proof (cases "bs = []")
    case True
    then have "j = length ws" using lj(2) texts_nonempty [of j "length ws" ws] j(2) by fastforce
    then show ?thesis using v True T lj(1) by (simp add: line_cost_def table_best_def)
  next
    case False
    have "concat bs \<noteq> []" using False Cons.prems(2) by (cases bs) (auto simp: breaking_def)
    then have "j < length ws" using lj(2) j(2) by (cases "j = length ws") (simp_all add: texts_def)
    then show ?thesis using v ih False lj(1) by (simp add: line_cost_def)
  qed
qed

lemma break_loop_best:
  assumes T: "table_best m width ws T V 0"
  shows "i \<le> length ws \<Longrightarrow> \<exists>ls. break_loop exact (ragged_exact m) styled width width ws T i none = Some ls \<and>
    breaking m width (texts ws i (length ws)) (map Words ls) \<and> ragged_cost m width (map Words ls) = V i"
proof (induction "length ws - i" arbitrary: i none rule: less_induct)
  case less
  obtain cost nxt hyph where Tt: "T = (cost, nxt, hyph)" by (cases T)
  show ?case
  proof (cases "i < length ws")
    case False
    then have "i = length ws" using less.prems by simp
    moreover have "break_loop exact (ragged_exact m) styled width width ws T i none = Some []"
      unfolding break_loop.simps [of exact "ragged_exact m" styled width width ws T i none] using False by simp
    ultimately show ?thesis using T by (intro exI [of _ "[]"]) (simp add: breaking_def texts_def table_best_def)
  next
    case i: True
    define j where "j = nxt ! i"
    have "best_of m width ws V i (\<lambda>k. line_width m (texts ws i k) \<le> width) (Some (V i), nxt ! i, hyph ! i)"
      using T i by (simp add: table_best_def Tt)
    then have b: "hyph ! i = noHyphen" "i < j" "j \<le> length ws" "line_width m (texts ws i j) \<le> width" "V i = line_cost m width ws i j + V j"
      by (auto simp: best_of_def j_def)
    obtain ls where ls: "break_loop exact (ragged_exact m) styled width width ws T j False = Some ls"
      "breaking m width (texts ws j (length ws)) (map Words ls)" "ragged_cost m width (map Words ls) = V j"
    proof -
      have "length ws - j < length ws - i" using b(2,3) by linarith
      from less.hyps [OF this b(3)] show ?thesis using that by blast
    qed
    define l where "l = set_line (ragged_exact m) styled (map (\<lambda>k. whole (ws ! k)) [i..<j])"
    have l: "Words l = texts ws i j" using items_take [of i j ws "\<lambda>w. w_text w"] b(2,3) by (simp add: l_def set_line_def whole_def texts_def comp_def)
    have "break_loop exact (ragged_exact m) styled width width ws T i none = Some (l # ls)"
      using i b(1) ls(1) by (simp add: break_loop.simps [of _ _ _ _ _ ws "(cost, nxt, hyph)" i none] Tt Let_def j_def [symmetric] l_def)
    moreover have "breaking m width (texts ws i (length ws)) (map Words (l # ls))"
      using ls(2) l b(2-4) texts_split [of i j ws] texts_nonempty [of i j ws] by (auto simp: breaking_def)
    moreover have "ragged_cost m width (map Words (l # ls)) = V i"
    proof (cases "j = length ws")
      case True
      have "concat (map Words ls) = texts ws j (length ws)" "[] \<notin> set (map Words ls)" using ls(2) unfolding breaking_def by blast+
      then have "ls = []" using True by (cases ls) (auto simp: texts_def)
      then show ?thesis using True b(5) l T by (simp add: line_cost_def table_best_def)
    next
      case False
      then have "texts ws j (length ws) \<noteq> []" by (intro texts_nonempty) (use b(3) in simp_all)
      then have "ls \<noteq> []" using ls(2) by (auto simp: breaking_def)
      then show ?thesis using False b(3,5) l ls(3) by (simp add: line_cost_def)
    qed
    ultimately show ?thesis by blast
  qed
qed

text \<open>C10. When every word fits the measure, \<open>Ragged\<close> sets the paragraph's words, all of them in order, in lines that fit, and no
  other lines that fit cost less: slack squared for each line, and for the last only when it is shorter than half.\<close>

theorem ragged_optimal:
  assumes m: "measurer_ok m" and "utf8_valid para" "\<forall>f \<in> set (Fields para). mWidth m f \<le> width" "0 < mSpace m" and width: "0 < width"
  shows "\<exists>ls. Ragged exact para width m = Some ls \<and> breaking m width (Fields para) (map Words ls) \<and>
    (\<forall>bs. breaking m width (Fields para) bs \<longrightarrow> ragged_cost m width (map Words ls) \<le> ragged_cost m width bs)"
proof -
  define ws where "ws = words (Tokens para m) None width width"
  have "\<forall>f \<in> set (Fields para). steady m f" using assms(2) Fields_text steady_valid by (simp add: utf8_valid_text)
  then have ok: "words_ok m ws" "map w_text ws = Fields para"
    using words_paragraph [OF m, of None para width width] by (simp_all add: ws_def hyphenator_ok_def)
  have "\<forall>w \<in> set ws. w_prefix w = []" by (auto simp: ws_def words_def Let_def newWord_def w_measure_def)
  moreover have "\<forall>w \<in> set ws. w_width w \<le> width"
  proof
    fix w assume w: "w \<in> set ws"
    then have "w_text w \<in> set (Fields para)" using ok(2) by (metis image_eqI list.set_map)
    then show "w_width w \<le> width" using assms(3) wf_width [of m w] ok(1) w by (simp add: words_ok_def)
  qed
  ultimately have pre: "\<forall>w \<in> set ws. w_prefix w = [] \<and> w_width w \<le> width" by blast
  show ?thesis
  proof (cases "ws = []")
    case True
    then have f: "Fields para = []" using ok(2) by simp
    have "Ragged exact para width m = Some []" using True width by (simp add: Ragged_def checkWidth_def breakLines_def ws_def)
    moreover have "ragged_cost m width bs = 0" if "breaking m width [] bs" for bs
      using that by (cases bs) (auto simp: breaking_def)
    ultimately show ?thesis using f by (auto simp: breaking_def)
  next
    case False
    define T0 where "T0 = (replicate (length ws + 1) (F_int exact 0), replicate (length ws) (0 :: nat), replicate (length ws) (0 :: int))"
    have "fst T0 ! length ws = Some 0" unfolding T0_def fst_conv by (subst nth_replicate) (simp_all add: exact_def)
    then have "table_best m width ws T0 (\<lambda>k. 0) (length ws)" 
      unfolding table_best_def by (auto simp: le_antisym) (simp add: T0_def table_len_def)
    from dp_best [OF m ok(1) pre width order_refl this]
    obtain V where V: "table_best m width ws (dp exact (ragged_exact m) ws 0 (length ws) width width T0) V 0" by blast
    have all: "texts ws 0 (length ws) = Fields para" using ok(2) by (simp add: texts_def)
    from break_loop_best [OF V, of 0 "\<exists>w \<in> set ws. w_emph w" True]
    obtain ls where ls: "break_loop exact (ragged_exact m) (\<exists>w \<in> set ws. w_emph w) width width ws (dp exact (ragged_exact m) ws 0 (length ws) width width T0) 0 True = Some ls"
      "breaking m width (Fields para) (map Words ls)" "ragged_cost m width (map Words ls) = V 0" unfolding all by auto
    have "Ragged exact para width m = Some ls"
      using ls(1) width False by (simp add: Ragged_def checkWidth_def breakLines_def Let_def ws_def [symmetric] T0_def)
    then show ?thesis using ls(2,3) table_least [OF V, of 0] unfolding all by auto
  qed
qed

theorem ragged_optimal_witness:
  "\<exists>ls. Ragged exact (chars ''to be or not'') 9 Mono = Some ls \<and> breaking Mono 9 (Fields (chars ''to be or not'')) (map Words ls) \<and>
    ragged_cost Mono 9 (map Words ls) \<le> ragged_cost Mono 9 [[chars ''to''], [chars ''be'', chars ''or'', chars ''not'']]"
proof -
  have f: "utf8_valid (chars ''to be or not'')" "Fields (chars ''to be or not'') = [chars ''to'', chars ''be'', chars ''or'', chars ''not'']"
    "\<forall>f \<in> set (Fields (chars ''to be or not'')). mWidth Mono f \<le> 9" "0 < mSpace Mono" "line_width Mono [chars ''to''] \<le> 9"
    "line_width Mono [chars ''be'', chars ''or'', chars ''not''] \<le> 9"
    by code_simp+
  have "breaking Mono 9 (Fields (chars ''to be or not'')) [[chars ''to''], [chars ''be'', chars ''or'', chars ''not'']]"
    unfolding f(2) breaking_def using f(5,6) by simp
  then show ?thesis using ragged_optimal [OF Mono_ok f(1,3,4) zero_less_numeral] by blast
qed

end
