(* ===== verification/WrapJustify.thy ===== *)
theory WrapJustify
  imports WrapRunIn
begin

text \<open>
  Justified lines: their gaps fill the measure, and in monospace every line but the last has exactly its width.
\<close>

section \<open>Gaps\<close>

lemma sum_extra: "0 \<le> extra \<Longrightarrow> extra \<le> int k \<Longrightarrow> sum_list (map (\<lambda>i. if int i < extra then base + 1 else base) [0..<k]) = int k * base + extra"
proof (induction k arbitrary: extra)
  case (Suc k)
  show ?case
  proof (cases "extra \<le> int k")
    case True
    then show ?thesis using Suc.IH [of extra] Suc.prems by (simp add: algebra_simps)
  next
    case False
    then have e: "extra = int k + 1" using Suc.prems by simp
    have "(if int i < extra then base + 1 else base) = (if int i < int k then base + 1 else base)" if "i \<in> set [0..<k]" for i
      using that e by simp
    then have m: "map (\<lambda>i. if int i < extra then base + 1 else base) [0..<k] = map (\<lambda>i. if int i < int k then base + 1 else base) [0..<k]"
      by (intro map_cong refl) blast+
    have "sum_list (map (\<lambda>i. if int i < extra then base + 1 else base) [0..<Suc k]) =
        sum_list (map (\<lambda>i. if int i < int k then base + 1 else base) [0..<k]) + (base + 1)"
      by (simp only: upt_Suc_append [OF zero_le] map_append sum_list_append m) (simp add: e)
    then show ?thesis using Suc.IH [of "int k"] by (simp only: e) (simp add: algebra_simps)
  qed
qed simp

lemma sum_words: "sum_list (map (mWidth m) ps) + int (length ps - 1) * mSpace m = line_width m ps" if "ps \<noteq> []"
proof -
  have "sum_list (map (\<lambda>p. mWidth m p + mSpace m) ps) = sum_list (map (mWidth m) ps) + int (length ps) * mSpace m"
    by (induction ps) (simp_all add: algebra_simps)
  then show ?thesis using that by (cases ps) (simp_all add: line_width_def algebra_simps)
qed

text \<open>The slack spread over the gaps of a line, and the gaps it makes.\<close>

definition line_slack :: "text_line \<Rightarrow> int \<Rightarrow> measurer \<Rightarrow> int" where
  "line_slack ln width m = width - lineWidth ln + (if HasSuffix (last (Words ln)) [45] then hyphenHang m else 0)"

lemma Gaps_eq:
  assumes "2 \<le> length (Words ln)"
  defines "k \<equiv> length (Words ln) - 1"
  shows "Gaps ln width m False =
    (if line_slack ln width m = 0 then replicate k (mSpace m)
     else map (\<lambda>i. mSpace m + (if line_slack ln width m < 0 then - 1 else 1) *
       (if int i < \<bar>line_slack ln width m\<bar> mod int k then \<bar>line_slack ln width m\<bar> div int k + 1 else \<bar>line_slack ln width m\<bar> div int k)) [0..<k])"
proof -
  have "Words ln \<noteq> []" using assms(1) by auto
  then have k: "k \<noteq> 0" "Words ln ! k = last (Words ln)" using assms(1) by (auto simp: k_def last_conv_nth)
  then show ?thesis unfolding Gaps_def k_def [symmetric] Let_def line_slack_def by (auto simp: if_distrib cong: map_cong)
qed

text \<open>A justified line's words and gaps fill the measure exactly, and the hang of a final hyphen: in whole units, whatever the
  slack, stretched or shrunk.\<close>

theorem gaps_fill:
  assumes "2 \<le> length (Words ln)" "lineWidth ln = lineWidth (LineOf (Words ln) m)"
  shows "sum_list (map (mWidth m) (Words ln)) + sum_list (Gaps ln width m False) =
    width + (if HasSuffix (last (Words ln)) [45] then hyphenHang m else 0)"
proof -
  define k s where "k = length (Words ln) - 1" and "s = line_slack ln width m"
  have ne: "Words ln \<noteq> []" and k: "0 < int k" using assms(1) by (auto simp: k_def)
  have w: "sum_list (map (mWidth m) (Words ln)) + int k * mSpace m = lineWidth ln" using sum_words [OF ne, of m] assms(2) ne by (simp add: LineOf_width k_def)
  have "sum_list (Gaps ln width m False) = int k * mSpace m + s"
  proof (cases "s = 0")
    case True
    then show ?thesis using Gaps_eq [OF assms(1), of width m] unfolding s_def [symmetric] k_def [symmetric] by (simp add: sum_list_replicate)
  next
    case False
    have e: "0 \<le> \<bar>s\<bar> mod int k" "\<bar>s\<bar> mod int k \<le> int k" using pos_mod_bound [OF k, of "\<bar>s\<bar>"] pos_mod_sign [OF k, of "\<bar>s\<bar>"] by simp_all
    define sg :: int where "sg = (if s < 0 then - 1 else 1)"
    define g where "g = (\<lambda>i. if int i < \<bar>s\<bar> mod int k then \<bar>s\<bar> div int k + 1 else \<bar>s\<bar> div int k)"
    have "Gaps ln width m False = map (\<lambda>i. mSpace m + sg * g i) [0..<k]"
      using Gaps_eq [OF assms(1), of width m] False unfolding s_def [symmetric] k_def [symmetric] sg_def g_def by simp
    moreover have "sum_list (map (\<lambda>i. mSpace m + sg * g i) xs) = int (length xs) * mSpace m + sg * sum_list (map g xs)" for xs
      by (induction xs) (simp_all add: algebra_simps)
    moreover have "sum_list (map g [0..<k]) = int k * (\<bar>s\<bar> div int k) + \<bar>s\<bar> mod int k" unfolding g_def by (rule sum_extra [OF e])
    moreover have "sg * \<bar>s\<bar> = s" by (simp add: sg_def)
    ultimately show ?thesis by simp
  qed
  then show ?thesis using w by (simp add: s_def line_slack_def)
qed

section \<open>Justified monospace\<close>

lemma chars_blanks: "0 < g \<Longrightarrow> length (chars_of (w @ replicate g 32 @ x)) = length (chars_of w) + g + length (chars_of x)"
proof -
  assume "0 < g"
  then obtain n where g: "g = Suc n" by (cases g) auto
  have sp: "char [32]" by (simp add: char_def rune_len_ascii)
  have "chars_of (replicate n 32 @ x) = replicate n [32] @ chars_of x" for n
    using chars_of_char [OF sp] by (induction n) simp_all
  then show ?thesis using chars_split [of 32 w "replicate n 32 @ x"] by (simp add: g)
qed

lemma chars_spread:
  "ps \<noteq> [] \<Longrightarrow> length gs = length ps - 1 \<Longrightarrow> \<forall>g \<in> set gs. 1 \<le> g \<Longrightarrow>
    int (length (chars_of (concat (map (\<lambda>(w, g). w @ replicate (nat g) 32) (zip ps gs)) @ last ps))) = sum_list (map (mWidth Mono) ps) + sum_list gs"
proof (induction ps arbitrary: gs rule: induct_list012)
  case (3 p q ps)
  then obtain g hs where gs: "gs = g # hs" by (cases gs) auto
  have g: "0 < nat g" "1 \<le> g" using 3 gs by simp_all
  have "int (length (chars_of (concat (map (\<lambda>(w, g). w @ replicate (nat g) 32) (zip (q # ps) hs)) @ last (q # ps)))) = sum_list (map (mWidth Mono) (q # ps)) + sum_list hs"
    by (rule 3) (use 3 gs in simp_all)
  then show ?case using g gs chars_blanks [OF g(1), of p "concat (map (\<lambda>(w, g). w @ replicate (nat g) 32) (zip (q # ps) hs)) @ last (q # ps)"]
    by (simp add: Mono_def)
qed (simp_all add: Mono_def)

lemma Mono_hang: "hyphenHang Mono = 0" "mSpace Mono sdiv 3 = 0"
  by (simp_all add: hyphenHang_def Mono_def chars_of.simps sdiv_pos)

lemma Gaps_Mono:
  assumes "Words ln \<noteq> []" "lineWidth ln = line_width Mono (Words ln)" "final \<or> length (Words ln) = 1 \<or> lineWidth ln \<le> width"
  shows "length (Gaps ln width Mono final) = length (Words ln) - 1 \<and> (\<forall>g \<in> set (Gaps ln width Mono final). 1 \<le> g) \<and>
    sum_list (map (mWidth Mono) (Words ln)) + sum_list (Gaps ln width Mono final) =
      (if final \<or> length (Words ln) = 1 then lineWidth ln else width)"
proof (cases "length (Words ln) = 1")
  case True
  then show ?thesis using assms(2) by (cases "Words ln") (simp_all add: Gaps_def)
next
  case False
  then have two: "2 \<le> length (Words ln)" using assms(1) by (cases "Words ln") (simp_all add: Suc_le_eq)
  show ?thesis
  proof (cases final)
    case True
    then have "Gaps ln width Mono final = replicate (length (Words ln) - 1) 1" using two by (simp add: Gaps_def Let_def Mono_def)
    then show ?thesis using sum_words [OF assms(1), of Mono] assms(2) True by (simp add: sum_list_replicate Mono_def)
  next
    case nf: False
    have s: "0 \<le> line_slack ln width Mono" using assms(3) nf False by (simp add: line_slack_def Mono_hang)
    define k where "k = length (Words ln) - 1"
    have "0 \<le> line_slack ln width Mono div int k" using s by (simp add: div_int_pos_iff)
    then have "length (Gaps ln width Mono False) = k \<and> (\<forall>g \<in> set (Gaps ln width Mono False). 1 \<le> g)"
      unfolding Gaps_eq [OF two] k_def [symmetric] using s by (auto simp: Mono_def)
    moreover have "sum_list (map (mWidth Mono) (Words ln)) + sum_list (Gaps ln width Mono False) = width"
    proof -
      have "lineWidth ln = lineWidth (LineOf (Words ln) Mono)" using assms(1,2) by (simp add: LineOf_width)
      note e = sum_words [OF assms(1), of Mono]
      define s' where "s' = line_slack ln width Mono"
      have kp: "0 < int k" using two by (simp add: k_def)
      have b: "0 \<le> s' mod int k" "s' mod int k \<le> int k" using pos_mod_bound [OF kp, of s'] pos_mod_sign [OF kp, of s'] by simp_all
      have "sum_list (Gaps ln width Mono False) = int k + s'"
      proof (cases "s' = 0")
        case True
        then show ?thesis unfolding Gaps_eq [OF two] k_def [symmetric] s'_def [symmetric] by (simp add: sum_list_replicate Mono_def)
      next
        case ns: False
        have "Gaps ln width Mono False = map (\<lambda>i. 1 + (if int i < s' mod int k then s' div int k + 1 else s' div int k)) [0..<k]"
          using ns s unfolding Gaps_eq [OF two] k_def [symmetric] s'_def [symmetric] by (simp add: Mono_def)
        moreover have "sum_list (map (\<lambda>i. 1 + g i) xs) = int (length xs) + sum_list (map g xs)" for g :: "nat \<Rightarrow> int" and xs by (induction xs) simp_all
        ultimately show ?thesis using sum_extra [OF b, of "s' div int k"] by simp
      qed
      then show ?thesis using e assms(2) by (simp add: s'_def line_slack_def Mono_hang k_def) (simp add: Mono_def)
    qed
    ultimately show ?thesis using nf False by (simp add: k_def)
  qed
qed

text \<open>\<open>JustifyMono\<close> always returns, a line of text for each of \<open>Justify\<close>: none is wider than the measure, and every line but the last
  with two words or more has exactly its runes.\<close>

theorem justify_mono_flush:
  assumes "hyphenator_ok h" "0 < width"
  shows "\<exists>ls out. Justify F (Tokens para Mono) width width h Mono = Some ls \<and> JustifyMono F para width width h = Some out \<and> length out = length ls \<and>
    (\<forall>i < length ls. int (length (chars_of (out ! i))) \<le> width \<and>
       (i + 1 < length ls \<and> 2 \<le> length (Words (ls ! i)) \<longrightarrow> int (length (chars_of (out ! i))) = width))"
proof -
  have "\<forall>f \<in> set (Fields para). steady Mono f" using steady_Mono by simp
  from breakLines_paragraph [OF justified_ok [OF Mono_ok] assms(1) this, where F = F and F1 = F and width = width]
  obtain ls where ls: "Justify F (Tokens para Mono) width width h Mono = Some ls"
    "\<forall>l \<in> set ls. Words l \<noteq> [] \<and> lineWidth l = line_width Mono (Words l) \<and> line_fits Mono (justified F Mono) width (Words l)"
    using assms(2) by (auto simp: Justify_def checkWidth_def)
  define out where "out = map (\<lambda>i. spread (ls ! i) (Gaps (ls ! i) (if i = 0 then width else width) Mono (i = length ls - 1))) [0..<length ls]"
  have "int (length (chars_of (out ! i))) \<le> width \<and> (i + 1 < length ls \<and> 2 \<le> length (Words (ls ! i)) \<longrightarrow> int (length (chars_of (out ! i))) = width)"
    if i: "i < length ls" for i
  proof -
    define l where "l = ls ! i"
    have l: "Words l \<noteq> []" "lineWidth l = line_width Mono (Words l)" "line_fits Mono (justified F Mono) width (Words l)" using ls(2) i by (simp_all add: l_def)
    have w: "lineWidth l \<le> width" using l assms(2) unfolding justified_fits Mono_hang by (auto simp: multiRune_chars Mono_def)
    note g = Gaps_Mono [OF l(1,2) disjI2 [OF disjI2 [OF w]], of "i = length ls - 1"]
    have "int (length (chars_of (out ! i))) = sum_list (map (mWidth Mono) (Words l)) + sum_list (Gaps l width Mono (i = length ls - 1))"
      using chars_spread [OF l(1), of "Gaps l width Mono (i = length ls - 1)"] g i by (simp add: out_def spread_def l_def)
    then have "int (length (chars_of (out ! i))) = (if i = length ls - 1 \<or> length (Words l) = 1 then lineWidth l else width)" using g by simp
    then show ?thesis using w by (auto simp: l_def)
  qed
  moreover have "JustifyMono F para width width h = Some out" "length out = length ls" using ls(1) by (simp_all add: JustifyMono_def out_def)
  ultimately show ?thesis using ls(1) by blast
qed

theorem gaps_fill_witness:
  "sum_list (map (mWidth Mono) [chars ''to'', chars ''be'']) + sum_list (Gaps (LineOf [chars ''to'', chars ''be''] Mono) 9 Mono False) = 9"
  using gaps_fill [of "LineOf [chars ''to'', chars ''be''] Mono" Mono 9] by (simp add: LineOf_def HasSuffix_def)

theorem justify_mono_flush_witness:
  "\<exists>out. JustifyMono whole_costs (chars ''to be or not'') 9 9 None = Some out \<and> (\<forall>l \<in> set out. int (length (chars_of l)) \<le> 9)"
  using justify_mono_flush [of None 9 whole_costs "chars ''to be or not''"] by (fastforce simp: hyphenator_ok_def in_set_conv_nth)

end
