(* ===== verification/Hyphen.thy ===== *)
theory Hyphen
  imports WrapLines
begin

text \<open>
  The hyphenator of \<open>typeset/wrap/hyphen\<close>: Liang's patterns. Unicode's lower case and letters are parameters, on the bytes of a rune;
  so are the texts of the pattern files, embedded when the program is built. A pattern's levels are read where its letters
  occur in the word between dots; the highest level counts, and an odd one is a break.
\<close>

section \<open>Patterns\<close>

record rune_env =
  to_lower :: "bytes \<Rightarrow> bytes"
  is_letter :: "bytes \<Rightarrow> bool"

record Patterns =
  pats :: "bytes \<rightharpoonup> nat list"
  maxLen :: nat

definition digit_rune :: "bytes \<Rightarrow> bool" where
  "digit_rune r \<longleftrightarrow> (case r of [c] \<Rightarrow> 48 \<le> c \<and> c \<le> 57 | _ \<Rightarrow> False)"

fun pattern_loop :: "rune_env \<Rightarrow> bytes list \<Rightarrow> nat list \<Rightarrow> bytes list \<Rightarrow> bytes list \<times> nat list" where
  "pattern_loop u key levels [] = (key, levels)"
| "pattern_loop u key levels (r # rs) =
     (if digit_rune r then pattern_loop u key (levels[length levels - 1 := unat (hd r) - 48]) rs
      else pattern_loop u (key @ [to_lower u r]) (levels @ [0]) rs)"

definition addPattern :: "rune_env \<Rightarrow> Patterns \<Rightarrow> bytes \<Rightarrow> Patterns" where
  "addPattern u h pattern =
     (case pattern_loop u [] [0] (runes_of pattern) of
        (key, levels) \<Rightarrow> h\<lparr>pats := (pats h)(concat key \<mapsto> levels), maxLen := max (maxLen h) (length key)\<rparr>)"

definition loadPatterns :: "rune_env \<Rightarrow> Patterns \<Rightarrow> bytes \<Rightarrow> Patterns" where
  "loadPatterns u h text =
     foldl (\<lambda>h line. let line = TrimSpace line
        in if line = [] \<or> HasPrefix line [37] \<or> HasPrefix line [35] then h else addPattern u h line) h (Split 10 text)"

definition compile :: "rune_env \<Rightarrow> bytes list \<Rightarrow> Patterns" where
  "compile u sets = foldl (loadPatterns u) \<lparr>pats = Map.empty, maxLen = 0\<rparr> sets"

section \<open>Words\<close>

fun raise_levels :: "nat \<Rightarrow> nat list \<Rightarrow> nat list \<Rightarrow> nat list" where
  "raise_levels x [] levels = levels"
| "raise_levels x (v # pat) levels =
     raise_levels (x + 1) pat (if x < length levels \<and> levels ! x < v then levels[x := v] else levels)"

definition look_up :: "Patterns \<Rightarrow> bytes list \<Rightarrow> nat \<Rightarrow> nat list \<Rightarrow> nat \<Rightarrow> nat list" where
  "look_up h work i levels j =
     (case pats h (concat (take (j - i) (drop i work))) of None \<Rightarrow> levels | Some pat \<Rightarrow> raise_levels i pat levels)"

definition word_levels :: "Patterns \<Rightarrow> bytes list \<Rightarrow> nat list" where
  "word_levels h work =
     (let nw = length work
      in foldl (\<lambda>levels i. foldl (look_up h work i) levels [i + 1..<min nw (i + maxLen h) + 1]) (replicate (nw + 1) 0) [0..<nw])"

definition insertPoint :: "nat list \<Rightarrow> nat \<Rightarrow> nat list" where
  "insertPoint points p =
     (let i = length (takeWhile (\<lambda>q. q < p) points)
      in if i < length points \<and> points ! i = p then points else take i points @ [p] @ drop i points)"

definition Hyphenate :: "rune_env \<Rightarrow> Patterns \<Rightarrow> bytes \<Rightarrow> nat list" where
  "Hyphenate u h word =
     (let all = map (to_lower u) (runes_of word);
          start = length (takeWhile (\<lambda>r. \<not> is_letter u r) all);
          stop = length all - length (takeWhile (\<lambda>r. \<not> is_letter u r) (rev (drop start all)));
          runes = take (stop - start) (drop start all)
      in if length runes < 5 then []
         else let levels = word_levels h ([[46]] @ runes @ [[46]]);
                  points = map (\<lambda>i. start + (i - 1))
                    (filter (\<lambda>i. odd (levels ! i) \<and> 1 < i - 1 \<and> i - 1 < length runes - 1) [3..<length levels - 2]);
                  points = filter (\<lambda>p. \<not> (all ! p = [45] \<or> all ! (p - 1) = [45])) points
              in foldl (\<lambda>points pos. if runes ! (pos - 1) = [45] \<and> runes ! pos \<noteq> [45] then insertPoint points (start + pos) else points)
                   points [3..<length runes - 1])"

section \<open>Levels\<close>

lemma length_raise [simp]: "length (raise_levels x pat levels) = length levels"
  by (induction x pat levels rule: raise_levels.induct) simp_all





lemma length_look_up [simp]: "length (look_up h work i levels j) = length levels"
  by (simp add: look_up_def split: option.split)



section \<open>The window of the lookups\<close>










section \<open>Points\<close>

lemma insertPoint_Cons: "insertPoint (q # qs) p = (if q < p then q # insertPoint qs p else if q = p then q # qs else p # q # qs)"
  by (auto simp: insertPoint_def Let_def)

lemma insertPoint_sorted: "sorted_wrt (<) ps \<Longrightarrow> sorted_wrt (<) (insertPoint ps p) \<and> set (insertPoint ps p) = insert p (set ps)"
proof (induction ps)
  case (Cons q ps)
  then show ?case by (auto simp: insertPoint_Cons)
qed (simp add: insertPoint_def)

lemma insertPoints_sorted:
  "sorted_wrt (<) ps \<Longrightarrow> sorted_wrt (<) (foldl (\<lambda>ps k. if P k then insertPoint ps (start + k) else ps) ps ks)
    \<and> set (foldl (\<lambda>ps k. if P k then insertPoint ps (start + k) else ps) ps ks) = set ps \<union> {start + k |k. k \<in> set ks \<and> P k}"
proof (induction ks arbitrary: ps)
  case (Cons k ks)
  have "sorted_wrt (<) (if P k then insertPoint ps (start + k) else ps)" using insertPoint_sorted [OF Cons.prems] Cons.prems by simp
  from Cons.IH [OF this] show ?case using insertPoint_sorted [OF Cons.prems, of "start + k"] by auto
qed simp






section \<open>What Hyphenate promises\<close>


lemma odd_points_sorted:
  "sorted_wrt (<) (filter P (map (\<lambda>i. start + (i - 1)) (filter Q [3..<n :: nat])))"
proof -
  have "sorted_wrt (<) (filter Q [3..<n])" by (intro sorted_wrt_filter) simp
  then have "sorted_wrt (\<lambda>i j. start + (i - 1) < start + (j - 1)) (filter Q [3..<n])"
    by (rule sorted_wrt_mono_rel [rotated]) auto
  then show ?thesis by (intro sorted_wrt_filter) (simp add: sorted_wrt_map)
qed





section \<open>The hyphenator of the breakers\<close>

text \<open>What the breakers rely on, and what they promise of it.\<close>

locale hyphens =
  fixes hyphens :: "bytes \<Rightarrow> nat list"
  assumes ascending: "sorted_wrt (<) (hyphens w)"
    and inside: "p \<in> set (hyphens w) \<Longrightarrow> 2 \<le> p \<and> p + 2 \<le> length (chars_of w)"
begin

lemma ok: "hyphenator_ok (Some hyphens)"
  using ascending inside by (force simp: hyphenator_ok_def)

lemma cell: "0 < width \<Longrightarrow>
    \<exists>out. Cell F s width (Some hyphens) = Some out \<and> out \<noteq> [] \<and> (\<forall>l \<in> set out. int (length (chars_of l)) \<le> width)"
  by (rule cell_lines [OF ok])

end

lemma Hyphenate_inside:
  "sorted_wrt (<) (Hyphenate u h w) \<and> (\<forall>p \<in> set (Hyphenate u h w). 2 \<le> p \<and> p + 2 \<le> length (chars_of w))"
proof -
  define all where "all = map (to_lower u) (runes_of w)"
  define start where "start = length (takeWhile (\<lambda>r. \<not> is_letter u r) all)"
  define stop where "stop = length all - length (takeWhile (\<lambda>r. \<not> is_letter u r) (rev (drop start all)))"
  define rs where "rs = take (stop - start) (drop start all)"
  define levels where "levels = word_levels h ([[46]] @ rs @ [[46]])"
  define pts where "pts = filter (\<lambda>p. \<not> (all ! p = [45] \<or> all ! (p - 1) = [45])) (map (\<lambda>i. start + (i - 1))
           (filter (\<lambda>i. odd (levels ! i) \<and> 1 < i - 1 \<and> i - 1 < length rs - 1) [3..<length levels - 2]))"
  have H: "Hyphenate u h w = (if length rs < 5 then []
      else foldl (\<lambda>points pos. if rs ! (pos - 1) = [45] \<and> rs ! pos \<noteq> [45] then insertPoint points (start + pos) else points) pts [3..<length rs - 1])"
    unfolding Hyphenate_def Let_def all_def [symmetric] start_def [symmetric] stop_def [symmetric] rs_def [symmetric] levels_def [symmetric] pts_def [symmetric] by (rule refl)
  have l: "start + length rs \<le> length (chars_of w) \<or> rs = []" by (auto simp: rs_def stop_def all_def)
  have "sorted_wrt (<) pts" unfolding pts_def by (rule odd_points_sorted)
  note ins = insertPoints_sorted [OF this, of "\<lambda>pos. rs ! (pos - 1) = [45] \<and> rs ! pos \<noteq> [45]" start "[3..<length rs - 1]"]
  have "2 \<le> p \<and> p + 2 \<le> start + length rs" if "p \<in> set pts" for p using that by (auto simp: pts_def)
  then have "2 \<le> p \<and> p + 2 \<le> start + length rs" if "p \<in> set (Hyphenate u h w)" for p
    using that ins unfolding H by (auto split: if_splits)
  moreover have "rs \<noteq> []" if "p \<in> set (Hyphenate u h w)" for p using that unfolding H by (auto split: if_splits)
  ultimately have "2 \<le> p \<and> p + 2 \<le> length (chars_of w)" if "p \<in> set (Hyphenate u h w)" for p
    using l that by (meson add_le_cancel_right le_trans)
  moreover have "sorted_wrt (<) (Hyphenate u h w)" using ins unfolding H by simp
  ultimately show ?thesis by blast
qed

interpretation liang: hyphens "Hyphenate u h" for u h
  by unfold_locales (use Hyphenate_inside in auto)

text \<open>Cells set with the patterns, in any environment.\<close>

lemma cell_hyphenated: "0 < width \<Longrightarrow>
    \<exists>out. Cell F s width (Some (Hyphenate u (compile u sets))) = Some out \<and> out \<noteq> [] \<and> (\<forall>l \<in> set out. int (length (chars_of l)) \<le> width)"
  by (rule liang.cell)

end
