(* ===== verification/Trudge.thy ===== *)
theory Trudge
  imports Ascon Strings
begin

text \<open>
  The \<open>trudge\<close> package: a key derived by filling a pool from one squeeze of the XOF, sweeping it once and walking it.
  The pool is the bytes of the code's slice, an index out of its range a panic, \<open>None\<close>. The specification works on
  entries, as \<open>SPEC.t\<close> gives it.
\<close>

section \<open>The code\<close>

definition trudge_pre :: "nat \<Rightarrow> nat \<Rightarrow> bytes \<Rightarrow> bytes \<Rightarrow> bytes" where
  "trudge_pre poolBits steps salt passphrase =
     chars ''trudge1'' @ [of_nat poolBits] @ le_bytes 4 (of_nat steps :: u32)
     @ le_bytes 4 (of_nat (length salt) :: u32) @ salt
     @ le_bytes 4 (of_nat (length passphrase) :: u32) @ passphrase"

text \<open>The pool and \<open>current\<close> after a mix.\<close>

definition mix :: "nat \<Rightarrow> bytes \<times> bytes \<Rightarrow> (bytes \<times> bytes) option" where
  "mix pos = (\<lambda>(pool, current).
     if length pool < pos * 16 + 16 then None
     else let current = XOF (take 16 (drop (pos * 16) pool) @ current) 16
          in Some (take (pos * 16) pool @ current @ drop (pos * 16 + 16) pool, current))"

fun sweep :: "nat list \<Rightarrow> bytes \<times> bytes \<Rightarrow> (bytes \<times> bytes) option" where
  "sweep [] s = Some s"
| "sweep (i # is) s = Option.bind (mix i s) (sweep is)"

definition walk_pos :: "u32 \<Rightarrow> bytes \<Rightarrow> nat" where
  "walk_pos msk current =
     unat ((push_bit 16 (ucast (current ! 0)) OR push_bit 8 (ucast (current ! 1)) OR ucast (current ! 2)) AND msk)"

fun walk_steps :: "u32 \<Rightarrow> nat \<Rightarrow> bytes \<times> bytes \<Rightarrow> (bytes \<times> bytes) option" where
  "walk_steps msk 0 s = Some s"
| "walk_steps msk (Suc k) s = Option.bind (mix (walk_pos msk (snd s)) s) (walk_steps msk k)"

definition derive :: "nat \<Rightarrow> nat \<Rightarrow> bytes \<Rightarrow> bytes \<Rightarrow> nat \<Rightarrow> bytes option" where
  "derive poolBits steps salt passphrase n =
     (let entries = 2 ^ poolBits;
          pool = XOF (trudge_pre poolBits steps salt passphrase) (entries * 16);
          current = take 16 (drop ((entries - 1) * 16) pool);
          msk = (of_nat (entries - 1) :: u32)
      in Option.bind (sweep [0..<entries] (pool, current)) (\<lambda>s. Option.bind (walk_steps msk steps s) (\<lambda>(pool, current).
           Some (XOF (chars ''trudge1out'' @ current) n))))"

definition trudge_Key :: "bytes \<Rightarrow> bytes \<Rightarrow> nat \<Rightarrow> bytes option" where
  "trudge_Key salt passphrase n = derive 24 (2 ^ 24) salt passphrase n"

section \<open>The specification\<close>

definition spec_mix :: "nat \<Rightarrow> bytes list \<times> bytes \<Rightarrow> bytes list \<times> bytes" where
  "spec_mix pos = (\<lambda>(pool, current). let current = XOF (pool ! pos @ current) 16 in (pool[pos := current], current))"

definition be24 :: "bytes \<Rightarrow> nat" where
  "be24 b = unat (b ! 0) * 65536 + unat (b ! 1) * 256 + unat (b ! 2)"

text \<open>The entries of a squeeze of the whole pool.\<close>

definition spec_fill :: "nat \<Rightarrow> bytes \<Rightarrow> bytes list" where
  "spec_fill entries pre = map (\<lambda>i. take 16 (drop (i * 16) (XOF pre (entries * 16)))) [0..<entries]"

definition spec_walk :: "nat \<Rightarrow> bytes list \<times> bytes \<Rightarrow> bytes list \<times> bytes" where
  "spec_walk entries s = spec_mix (be24 (snd s) mod entries) s"

definition spec_derive :: "nat \<Rightarrow> nat \<Rightarrow> bytes \<Rightarrow> bytes \<Rightarrow> nat \<Rightarrow> bytes" where
  "spec_derive poolBits steps salt passphrase n =
     (let entries = 2 ^ poolBits;
          pool = spec_fill entries (trudge_pre poolBits steps salt passphrase);
          swept = foldl (\<lambda>s i. spec_mix i s) (pool, last pool) [0..<entries]
      in XOF (chars ''trudge1out'' @ snd ((spec_walk entries ^^ steps) swept)) n)"

section \<open>The code meets the specification\<close>

text \<open>The bytes of a pool of entries.\<close>

definition pool_of :: "nat \<Rightarrow> bytes list \<times> bytes \<Rightarrow> bytes \<times> bytes \<Rightarrow> bool" where
  "pool_of entries s p \<longleftrightarrow> length (fst s) = entries \<and> (\<forall>e \<in> set (fst s). length e = 16) \<and> fst p = concat (fst s) \<and> snd p = snd s \<and> length (snd s) = 16"

lemma length_blocks: "\<forall>e \<in> set es. length e = 16 \<Longrightarrow> length (concat es) = length es * 16"
  by (induction es) auto

lemma block_parts:
  "\<forall>e \<in> set es. length e = 16 \<Longrightarrow> i < length es \<Longrightarrow>
    take 16 (drop (i * 16) (concat es)) = es ! i \<and>
    take (i * 16) (concat es) @ c @ drop (i * 16 + 16) (concat es) = concat (es[i := c])"
proof (induction es arbitrary: i)
  case (Cons e es)
  then show ?case by (cases i) (simp_all add: add.commute)
qed simp

lemma mix_spec: "pool_of entries s p \<Longrightarrow> i < entries \<Longrightarrow> \<exists>p'. mix i p = Some p' \<and> pool_of entries (spec_mix i s) p'"
proof -
  assume p: "pool_of entries s p" and i: "i < entries"
  obtain es c where s: "s = (es, c)" by (cases s)
  have e: "length es = entries" "\<forall>e \<in> set es. length e = 16" "p = (concat es, c)" using p s by (cases p; simp add: pool_of_def)+
  define c' where "c' = XOF (es ! i @ c) 16"
  have "length (concat es) = entries * 16" using length_blocks [OF e(2)] e(1) by simp
  moreover have "i * 16 + 16 \<le> entries * 16" using mult_le_mono1 [of "Suc i" entries 16] i by simp
  ultimately have "mix i p = Some (concat (es[i := c']), c')"
    using block_parts [OF e(2), of i c'] i e(1,3) unfolding mix_def c'_def by (simp add: Let_def)
  moreover have "pool_of entries (spec_mix i s) (concat (es[i := c']), c')"
    using e s set_update_subset_insert [of es i c'] unfolding pool_of_def spec_mix_def c'_def by (auto simp: Let_def)
  ultimately show ?thesis by blast
qed

lemma sweep_spec: "pool_of entries s p \<Longrightarrow> \<forall>i \<in> set is. i < entries \<Longrightarrow>
    \<exists>p'. sweep is p = Some p' \<and> pool_of entries (foldl (\<lambda>s i. spec_mix i s) s is) p'"
proof (induction "is" arbitrary: s p)
  case (Cons i "is")
  then obtain p1 where "mix i p = Some p1" "pool_of entries (spec_mix i s) p1" using mix_spec [of entries s p i] by auto
  then show ?case using Cons.IH [of "spec_mix i s" p1] Cons.prems(2) by simp
qed simp

lemma byte_bit: "bit (c :: byte) n \<Longrightarrow> n < 8"
  using bit_imp_le_length [of c n] by simp

lemma be24_word: "unat (push_bit 16 (ucast (b ! 0)) OR push_bit 8 (ucast (b ! 1)) OR ucast (b ! 2) :: u32) = be24 b"
proof -
  define x y z :: u32 where "x = push_bit 16 (ucast (b ! 0))" and "y = push_bit 8 (ucast (b ! 1))" and "z = ucast (b ! 2)"
  have c: "unat c < 256" for c :: byte using unsigned_less [where 'a = nat and w = c] by simp
  have s: "unat (ucast c :: u32) = unat c" for c :: byte by (simp add: unsigned_ucast_eq take_bit_nat_eq_self_iff order_less_trans [OF c])
  have p: "unat (push_bit 16 (ucast c) :: u32) = unat c * 65536" "unat (push_bit 8 (ucast c) :: u32) = unat c * 256" for c :: byte
    using c [of c] by (simp_all add: push_bit_eq_mult unat_word_ariths s)
  have "y + z = y OR z" by (rule disjunctive_add) (auto simp: y_def z_def bit_simps dest: byte_bit)
  moreover have "x + (y OR z) = x OR y OR z" by (rule disjunctive_add) (auto simp: x_def y_def z_def bit_simps dest: byte_bit)
  ultimately have "unat (x OR y OR z) = unat (x + (y + z))" by simp
  also have "\<dots> = unat x + unat y + unat z"
    using c [of "b ! 0"] c [of "b ! 1"] c [of "b ! 2"] by (simp add: unat_plus_if' x_def y_def z_def p s)
  finally show ?thesis by (simp add: x_def y_def z_def p s be24_def)
qed

lemma walk_pos_mod: "length b = 16 \<Longrightarrow> k \<le> 24 \<Longrightarrow> walk_pos (of_nat (2 ^ k - 1)) b = be24 b mod 2 ^ k"
proof -
  assume b: "length b = 16" and k: "k \<le> 24"
  have "(of_nat (2 ^ k - 1) :: u32) = mask k" by (simp add: mask_eq_exp_minus_1)
  then have "walk_pos (of_nat (2 ^ k - 1)) b = unat (take_bit k (push_bit 16 (ucast (b ! 0)) OR push_bit 8 (ucast (b ! 1)) OR ucast (b ! 2) :: u32))"
    by (simp add: walk_pos_def take_bit_eq_mask)
  also have "\<dots> = be24 b mod 2 ^ k" unfolding unsigned_take_bit_eq be24_word by (simp add: take_bit_eq_mod)
  finally show ?thesis .
qed

lemma walk_spec: "pool_of (2 ^ k) s p \<Longrightarrow> k \<le> 24 \<Longrightarrow>
    \<exists>p'. walk_steps (of_nat (2 ^ k - 1)) n p = Some p' \<and> pool_of (2 ^ k) ((spec_walk (2 ^ k) ^^ n) s) p'"
proof (induction n arbitrary: s p)
  case (Suc n)
  have b: "snd p = snd s" "length (snd s) = 16" using Suc.prems(1) by (simp_all add: pool_of_def)
  have i: "walk_pos (of_nat (2 ^ k - 1)) (snd p) = be24 (snd s) mod 2 ^ k" using walk_pos_mod [of "snd s" k] b Suc.prems(2) by simp
  obtain p1 where p1: "mix (be24 (snd s) mod 2 ^ k) p = Some p1" "pool_of (2 ^ k) (spec_walk (2 ^ k) s) p1"
    using mix_spec [OF Suc.prems(1), of "be24 (snd s) mod 2 ^ k"] by (auto simp: spec_walk_def)
  then show ?case using Suc.IH [OF p1(2) Suc.prems(2)] i by (simp add: funpow_swap1)
qed simp

lemma fill_spec: "pool_of entries (spec_fill entries pre, c) (XOF pre (entries * 16), c) \<longleftrightarrow> length c = 16"
proof -
  have "concat (map (\<lambda>i. take 16 (drop (i * 16) b)) [0..<n]) = take (n * 16) b" for b :: bytes and n
    by (induction n) (simp_all add: add.commute [of 16] take_add)
  then have "concat (spec_fill entries pre) = XOF pre (entries * 16)" by (simp add: spec_fill_def)
  moreover have "length (take 16 (drop (i * 16) (XOF pre (entries * 16)))) = 16" if "i < entries" for i
    using mult_le_mono1 [of "Suc i" entries 16] that by simp
  ultimately show ?thesis by (auto simp: pool_of_def spec_fill_def)
qed

text \<open>C40. For any pool of at most 2^24 entries the code returns, with no index outside its pool, and gives what the
  specification says: entries in place of byte ranges, remainders in place of masks.\<close>

theorem derive_spec: "k \<le> 24 \<Longrightarrow> derive k steps salt passphrase n = Some (spec_derive k steps salt passphrase n)"
proof -
  assume k: "k \<le> 24"
  define pre where "pre = trudge_pre k steps salt passphrase"
  define pool where "pool = XOF pre (2 ^ k * 16)"
  define c where "c = take 16 (drop ((2 ^ k - 1) * 16) pool)"
  have l: "last (spec_fill (2 ^ k) pre) = c" by (simp add: spec_fill_def c_def pool_def last_map)
  have "length c = 16" using mult_le_mono1 [of 1 "2 ^ k :: nat" 16] by (simp add: c_def pool_def diff_mult_distrib)
  then have "pool_of (2 ^ k) (spec_fill (2 ^ k) pre, c) (pool, c)" by (simp add: fill_spec pool_def)
  from sweep_spec [OF this, of "[0..<2 ^ k]"] obtain p1 where p1: "sweep [0..<2 ^ k] (pool, c) = Some p1"
    "pool_of (2 ^ k) (foldl (\<lambda>s i. spec_mix i s) (spec_fill (2 ^ k) pre, c) [0..<2 ^ k]) p1" by auto
  from walk_spec [OF p1(2) k, of steps] obtain p2 where p2: "walk_steps (of_nat (2 ^ k - 1)) steps p1 = Some p2"
    "snd p2 = snd ((spec_walk (2 ^ k) ^^ steps) (foldl (\<lambda>s i. spec_mix i s) (spec_fill (2 ^ k) pre, c) [0..<2 ^ k]))" by (auto simp: pool_of_def)
  show ?thesis
    unfolding derive_def spec_derive_def Let_def pre_def [symmetric] pool_def [symmetric] c_def [symmetric] l p1(1) Option.bind.simps p2(1) p2(2) [symmetric]
    by (simp add: p2(1) split_beta)
qed

lemma derive_spec_witness: "(3 :: nat) \<le> 24 \<and> derive 3 9 [1] [2, 3] 5 = Some (spec_derive 3 9 [1] [2, 3] 5)"
  using derive_spec [of 3 9 "[1]" "[2, 3]" 5] by simp

text \<open>The bytes hashed to fill the pool determine the parameters and both inputs, so no two pairs of salt and passphrase
  share them, whichever way the same bytes are split.\<close>

theorem trudge_pre_injective:
  assumes "k < 256" "k' < 256" "steps < 2 ^ 32" "steps' < 2 ^ 32" "length salt < 2 ^ 32" "length salt' < 2 ^ 32" "length pass < 2 ^ 32" "length pass' < 2 ^ 32"
  shows "trudge_pre k steps salt pass = trudge_pre k' steps' salt' pass' \<longleftrightarrow> k = k' \<and> steps = steps' \<and> salt = salt' \<and> pass = pass'"
proof
  have w: "le_bytes 4 (of_nat a :: u32) = le_bytes 4 (of_nat b :: u32) \<longleftrightarrow> a = b" if "a < 2 ^ 32" "b < 2 ^ 32" for a b
  proof
    assume "le_bytes 4 (of_nat a :: u32) = le_bytes 4 (of_nat b :: u32)"
    then have "(le_word (le_bytes 4 (of_nat a :: u32)) :: u32) = le_word (le_bytes 4 (of_nat b :: u32))" by simp
    moreover have "le_word (le_bytes 4 x) = x" for x :: u32 by (rule le_word_le_bytes) simp
    ultimately have "(of_nat a :: u32) = of_nat b" by simp
    from arg_cong [OF this, of unat] show "a = b" using that by (simp add: unsigned_of_nat take_bit_nat_eq_self)
  qed simp
  have k: "(of_nat k :: byte) = of_nat k' \<longleftrightarrow> k = k'"
  proof
    assume "(of_nat k :: byte) = of_nat k'"
    from arg_cong [OF this, of unat] show "k = k'" using assms(1,2) by (simp add: unsigned_of_nat take_bit_nat_eq_self)
  qed simp
  assume "trudge_pre k steps salt pass = trudge_pre k' steps' salt' pass'"
  then have "(of_nat k :: byte) = of_nat k'" "le_bytes 4 (of_nat steps :: u32) = le_bytes 4 (of_nat steps' :: u32)"
    "le_bytes 4 (of_nat (length salt) :: u32) = le_bytes 4 (of_nat (length salt') :: u32)"
    "salt @ le_bytes 4 (of_nat (length pass) :: u32) @ pass = salt' @ le_bytes 4 (of_nat (length pass') :: u32) @ pass'"
    unfolding trudge_pre_def by (simp_all del: le_bytes.simps)
  moreover from this(3) have "length salt = length salt'" using w assms by blast
  ultimately show "k = k' \<and> steps = steps' \<and> salt = salt' \<and> pass = pass'" using w k assms by (simp del: le_bytes.simps)
qed simp

lemma trudge_pre_injective_witness: "trudge_pre 24 9 [1, 2] [3] \<noteq> trudge_pre 24 9 [1] [2, 3]"
  using trudge_pre_injective [of 24 24 9 9 "[1, 2]" "[1]" "[3]" "[2, 3]"] by simp

end
