(* ===== verification/Spec2Isabelle.thy ===== *)
theory Spec2Isabelle
  imports Ascon Lz4s RowCodec Civil ServerRestart Pairing Golay ClientSync ServerRecord RowTextProps RasterDraft WrapBest WrapJustify Hyphen Trudge
begin

text \<open>
  A verification development for the \<open>repani.com\<close> Go module: the packages that carry its own logic, modelled
  from \<open>src/\<close>, with the properties that make them correct.

  The program. The module is a set of small packages. \<open>ascon\<close> is a permutation and the sponge, hash and
  authenticated cipher built on it, and \<open>trudge\<close> a slow key derivation on that. \<open>lz4s\<close> compresses text, \<open>row\<close> encodes rows of values and uses \<open>lz4s\<close>,
  \<open>golay\<close> is an error-correcting code, \<open>typeset/raster\<close> a
  format of forty-column pages, \<open>typeset/wrap\<close> breaks paragraphs into lines, \<open>fact\<close> is a text format for typed facts. The largest part is \<open>kv\<close>: a
  set of encrypted entries that devices keep in step through a server which cannot read it. In \<open>kv/vault\<close> an
  entry is sealed with \<open>ascon\<close> under keys derived from a root key and named by a hash of its bytes, and a set
  of entries has an order and a hash; \<open>kv/wire\<close> seals frames between client and server; \<open>kv/store\<close> holds a
  set in memory, or in a log file; \<open>kv/server\<close> serves vaults over stores and keeps a record of each as a
  \<open>fact\<close> document; \<open>kv/client\<close> writes entries, reads the merged view and syncs through any transport.

  Conventions. A byte is an \<open>8 word\<close>, a string or slice a list of bytes, an integer of the code a word
  of its width where it can wrap, otherwise \<open>int\<close> or \<open>nat\<close>. A \<open>struct\<close> is a record, a call that changes state
  returns the new state, an error is the left of a sum or \<open>None\<close>. Error texts are left out. What the operating
  system, the clock, the random source and the network do is an argument of the operation that meets it.
  Standard library functions the code uses are defined from their documentation, in \<open>Golib\<close>, \<open>Strings\<close>,
  \<open>FloatText\<close>, \<open>Decimals\<close> and \<open>JsonText\<close>.

  Theories, by package.

  \<^item> \<open>Prelude\<close>, \<open>Golib\<close>, \<open>Strings\<close>: bytes, little-endian integers, binary search, the locales \<open>prefix_codec\<close> and
    \<open>nonempty_codec\<close> of self-delimiting codes; UTF-8, hexadecimal, varints; cutting, splitting and trimming text.
  \<^item> \<open>Ascon\<close> (\<open>ascon/permutation.go\<close>, \<open>xof.go\<close>, \<open>cxof.go\<close>, \<open>aead.go\<close>): the cipher opens exactly what it sealed.
  \<^item> \<open>Trudge\<close> (\<open>trudge/trudge.go\<close>): the key derivation on the hash, against its specification over entries.
  \<^item> \<open>Lz4s\<close> (\<open>lz4s/lz4s.go\<close>): compressor and decompressor; both loops of the search end, the round trip, the size bound.
  \<^item> \<open>Row\<close>, \<open>RowCodec\<close>, \<open>Civil\<close> (\<open>row/row.go\<close>, \<open>row/civil.go\<close>): the binary form, in both directions, the place of
    every error, the calendar.
  \<^item> \<open>RowText\<close>, \<open>RowTextItems\<close>, \<open>RowTextProps\<close> (\<open>row/text.go\<close>): the text notation, read back as written, one spelling of a
    row, the same rows as the binary form, the place of every error.
  \<^item> \<open>Golay\<close> (\<open>golay/golay.go\<close>): the table \<open>init\<close> builds, three errors corrected, four reported.
  \<^item> \<open>Vault\<close>, \<open>Setsync\<close>, \<open>Pairing\<close> (\<open>kv/vault/keys.go\<close>, \<open>nonce.go\<close>, \<open>entry.go\<close>, \<open>setsync.go\<close>, \<open>pairing.go\<close>): keys, entries,
    the canonical order and the set hash, the text forms of keys.
  \<^item> \<open>Wire\<close> (\<open>kv/wire/wire.go\<close>): frames and payloads, read back exactly and accepted only as sealed.
  \<^item> \<open>Store\<close>, \<open>LogStore\<close> (\<open>kv/store/memstore.go\<close>, \<open>logstore.go\<close>): the set in memory refines a set in canonical order; the
    log survives a crash at any byte.
  \<^item> \<open>Server\<close>, \<open>ServerInv\<close>, \<open>ServerSteps\<close>, \<open>ServerProps\<close>, \<open>ServerRestart\<close> (\<open>kv/server/server.go\<close>, \<open>owner.go\<close>, \<open>record.go\<close>):
    the handlers cut where the code gives up its locks, the invariant, the steps and their interleavings, the
    history of a vault, restarts.
  \<^item> \<open>Client\<close>, \<open>ClientSafe\<close>, \<open>ClientView\<close>, \<open>ClientProps\<close>, \<open>ClientSync\<close> (\<open>kv/client/client.go\<close>): writes, the view as a replay,
    what a sync keeps whatever the server does, and the client against the server model: a sync converges.
  \<^item> \<open>FloatText\<close>, \<open>Decimals\<close>, \<open>JsonText\<close>, \<open>Fact\<close>, \<open>FactCanon\<close>, \<open>FactDoc\<close>, \<open>FactBind\<close> (\<open>fact/fact.go\<close>, \<open>bind.go\<close>, \<open>instance.go\<close>): number and
    string texts, the checks of a line and of a set, canonical documents, nested maps on a heap, instances.
  \<^item> \<open>ServerRecord\<close> (\<open>kv/server/record.go\<close>): a vault's record as a \<open>fact\<close> document, read back as it was written.

  \<^item> \<open>Raster\<close>, \<open>RasterProps\<close>, \<open>RasterDraft\<close> (\<open>typeset/raster\<close>): rows and pages, read back as written; a draft's row is the one
    valid row that shows it, and when a draft has none; a page rebuilt from its records.
  \<^item> \<open>Runes\<close>, \<open>Wrap\<close>, \<open>WrapLines\<close>, \<open>WrapRunIn\<close>, \<open>WrapBest\<close>, \<open>WrapJustify\<close> (\<open>typeset/wrap/wrap.go\<close>): the runes of a string; the
    dynamic program over measured words and the lines it makes, in any measurer and whatever the arithmetic of the costs:
    they fit and lose nothing; the run-in that is never broken; ragged lines of least cost in exact arithmetic;
    gaps that fill the measure.
  \<^item> \<open>Hyphen\<close> (\<open>typeset/wrap/hyphen/hyphen.go\<close>): the points of a word, the locale \<open>hyphens\<close> of what the breakers ask of them.

  Bounds and fuel. The loops of \<open>Delta\<close> are \<open>partial_function\<close>s and are proved to return. The client's pull loop
  runs at most \<open>maxPullPages\<close> pages and a sync at most 64 rounds, as in the code; the push loop takes the
  length of the store and one as fuel, and each turn sends an entry. A decimal text of a double is searched
  up to 17 digits, which is proved to be enough. The loops of \<open>breakLines\<close> and \<open>split\<close> are \<open>partial_function\<close>s, proved to return but for
  the run-ins that never do. All other recursions are total.

  Not modelled. Commands, HTTP serving and the JavaScript ports are glue around the packages above. \<open>durable\<close> is a sequence of system calls; the server
  model takes its outcome as an argument. The JSON form of \<open>fact\<close> rests on the general parser of \<open>encoding/json\<close>.
  The Unicode tables \<open>typeset/raster\<close> uses, the letters and lower case of \<open>hyphen\<close>, its pattern texts and the arithmetic of
  \<open>float64\<close> in the costs of \<open>typeset/wrap\<close> are arguments of their models. The rest of \<open>typeset\<close> and \<open>pica\<close> set documents: tables,
  pages over font metrics, PDF and printer output.
\<close>

end
